(* ===== verification/Ipacm_Prelude.thy ===== *)
theory Ipacm_Prelude
  imports Main "HOL-Library.Word" "HOL-Library.Multiset"
begin

text \<open>
  Shared vocabulary of the development: the machine integer types of the sources, the faults a C++
  program can run into (a NULL dereference, a dangling pointer, an access outside an array), the
  two loop shapes that scan fixed arrays all over the code (search for the first slot with a
  property; visit every slot in order while other state changes), and the generic lemmas about
  them that the component theories use through the collections declared here.
\<close>

unbundle bit_operations_syntax

type_synonym u8 = "8 word"
type_synonym u16 = "16 word"
type_synonym u32 = "32 word"

text \<open>Addresses of heap objects; a C++ pointer is an optional address, \<open>None\<close> being NULL.\<close>

type_synonym addr = nat
type_synonym ptr = "addr option"

text \<open>What may go wrong at run time: an access to invalid memory, or a loop that follows links in a circle. A
  C++ function whose run may end so returns \<open>fault + 'a\<close>, with \<open>Inl\<close> the fault; \<open>bnd\<close> continues unless there was one.\<close>

datatype fault = NullDeref | UseAfterFree | OutOfBounds | Endless

definition bnd :: "'e + 'a \<Rightarrow> ('a \<Rightarrow> 'e + 'b) \<Rightarrow> 'e + 'b" where
  "bnd m f = (case m of Inl e \<Rightarrow> Inl e | Inr x \<Rightarrow> f x)"

lemma bnd_simps [simp]: "bnd (Inl e) f = Inl e" "bnd (Inr x) f = f x"
  by (simp_all add: bnd_def)

named_theorems scan_simps "evaluation of array scans"
named_theorems slot_intros "facts that re-establish an array invariant"

abbreviation IPACM_SUCCESS :: int where "IPACM_SUCCESS \<equiv> 0"
abbreviation IPACM_FAILURE :: int where "IPACM_FAILURE \<equiv> -1"

subsection \<open>Search for the first slot of an array with a property\<close>

text \<open>The loop \<^verbatim>\<open>for(cnt = 0; cnt < N; cnt++) if(P(a[cnt])) break;\<close>: the index where it stops,
  \<open>None\<close> when it runs off the end.\<close>

fun find_slot :: "('a \<Rightarrow> bool) \<Rightarrow> 'a list \<Rightarrow> nat option" where
  "find_slot P [] = None"
| "find_slot P (x # xs) = (if P x then Some 0 else map_option Suc (find_slot P xs))"

text \<open>The loop whose body changes the first matching slot and breaks.\<close>

definition upd_first :: "('a \<Rightarrow> bool) \<Rightarrow> ('a \<Rightarrow> 'a) \<Rightarrow> 'a list \<Rightarrow> 'a list" where
  "upd_first P f xs = (case find_slot P xs of None \<Rightarrow> xs | Some i \<Rightarrow> xs[i := f (xs ! i)])"

text \<open>The loop that visits every slot in order and may change the slot and some other state.\<close>

fun map_state :: "('a \<Rightarrow> 's \<Rightarrow> 'a \<times> 's) \<Rightarrow> 'a list \<Rightarrow> 's \<Rightarrow> 'a list \<times> 's" where
  "map_state f [] s = ([], s)"
| "map_state f (x # xs) s =
     (let (y, s1) = f x s; (ys, s2) = map_state f xs s1 in (y # ys, s2))"

lemma find_slot_Some_iff:
  "find_slot P xs = Some i \<longleftrightarrow> i < length xs \<and> P (xs ! i) \<and> (\<forall>j<i. \<not> P (xs ! j))"
proof (induction xs arbitrary: i)
  case Nil
  then show ?case by simp
next
  case (Cons x xs)
  show ?case
  proof (cases i)
    case 0
    then show ?thesis by auto
  next
    case (Suc k)
    with Cons show ?thesis by (auto simp: less_Suc_eq_0_disj)
  qed
qed

lemma find_slot_None_iff [simp]: "find_slot P xs = None \<longleftrightarrow> (\<forall>x \<in> set xs. \<not> P x)"
  by (induction xs) auto

lemma find_slot_SomeD:
  assumes "find_slot P xs = Some i"
  shows "i < length xs" "P (xs ! i)" "xs ! i \<in> set xs"
  using assms by (auto simp: find_slot_Some_iff)

lemma find_slot_ex: "x \<in> set xs \<Longrightarrow> P x \<Longrightarrow> \<exists>i. find_slot P xs = Some i"
  by (cases "find_slot P xs") auto

lemma find_slot_split:
  assumes "find_slot P xs = Some i"
  obtains ys z zs where "xs = ys @ z # zs" "length ys = i" "P z" "\<forall>y \<in> set ys. \<not> P y"
proof -
  from assms have i: "i < length xs" and P: "P (xs ! i)" and n: "\<forall>j<i. \<not> P (xs ! j)"
    by (auto simp: find_slot_Some_iff)
  have "xs = take i xs @ xs ! i # drop (Suc i) xs" using i by (simp add: id_take_nth_drop)
  moreover have "\<forall>y \<in> set (take i xs). \<not> P y" using n i by (auto simp: in_set_conv_nth)
  ultimately show ?thesis using that[of "take i xs" "xs ! i" "drop (Suc i) xs"] P i by simp
qed

lemma list_update_find:
  assumes "find_slot P xs = Some i"
  obtains pre x post where "xs = pre @ x # post" "P x" "xs ! i = x" "\<And>y. xs[i := y] = pre @ y # post"
    "\<forall>y \<in> set pre. \<not> P y"
proof -
  obtain ys z zs where s: "xs = ys @ z # zs" "length ys = i" "P z" "\<forall>y \<in> set ys. \<not> P y"
    using find_slot_split[OF assms] by metis
  then show ?thesis using that[of ys z zs] by auto
qed

lemma length_upd_first [simp]: "length (upd_first P f xs) = length xs"
  by (simp add: upd_first_def split: option.split)

lemma upd_first_unchanged [simp]: "\<forall>x \<in> set xs. \<not> P x \<Longrightarrow> upd_first P f xs = xs"
proof -
  assume "\<forall>x \<in> set xs. \<not> P x"
  then have "find_slot P xs = None" by simp
  then show ?thesis by (simp only: upd_first_def option.case)
qed

lemma upd_first_Nil [scan_simps]: "upd_first P f [] = []"
  by (simp add: upd_first_def)

lemma upd_first_Cons [scan_simps]:
  "upd_first P f (x # xs) = (if P x then f x # xs else x # upd_first P f xs)"
proof (cases "find_slot P xs")
  case None
  then show ?thesis by (simp add: upd_first_def del: find_slot_None_iff)
next
  case (Some i)
  then show ?thesis by (simp add: upd_first_def)
qed

lemma upd_first_split:
  assumes "\<exists>x \<in> set xs. P x"
  obtains ys z zs where "xs = ys @ z # zs" "P z" "\<forall>y \<in> set ys. \<not> P y"
    "upd_first P f xs = ys @ f z # zs"
proof -
  from assms obtain i where i: "find_slot P xs = Some i" by (auto dest: find_slot_ex)
  then obtain ys z zs where s: "xs = ys @ z # zs" "length ys = i" "P z" "\<forall>y \<in> set ys. \<not> P y"
    by (rule find_slot_split)
  with i have "upd_first P f xs = ys @ f z # zs" by (auto simp: upd_first_def)
  with s show ?thesis using that by blast
qed

lemma set_upd_first: "set (upd_first P f xs) \<subseteq> set xs \<union> f ` {x \<in> set xs. P x}"
  by (induction xs) (auto simp: scan_simps)

subsection \<open>Visiting every slot\<close>

lemma length_map_state [simp]: "length (fst (map_state f xs s)) = length xs"
proof (induction xs arbitrary: s)
  case (Cons x xs)
  then show ?case
    by (simp add: case_prod_beta)
qed simp

lemma map_state_append:
  "map_state f (xs @ ys) s =
     (let (xs', s1) = map_state f xs s; (ys', s2) = map_state f ys s1 in (xs' @ ys', s2))"
  by (induction xs arbitrary: s) (auto split: prod.split)

text \<open>The rule for such loops: a relation between each slot before and after, and an invariant of
  the other state, both kept by one iteration.\<close>

lemma map_state_rel:
  assumes "\<And>x s y s'. x \<in> set xs \<Longrightarrow> I s \<Longrightarrow> f x s = (y, s') \<Longrightarrow> R x y \<and> I s'"
    and "I s" and "map_state f xs s = (ys, s')"
  shows "list_all2 R xs ys \<and> I s'"
  using assms
proof (induction xs arbitrary: s s' ys)
  case Nil
  then show ?case by simp
next
  case (Cons x xs)
  obtain y s1 where y: "f x s = (y, s1)" by (cases "f x s")
  obtain zs s2 where zs: "map_state f xs s1 = (zs, s2)" by (cases "map_state f xs s1")
  from Cons.prems(3) y zs have ys: "ys = y # zs" "s' = s2" by auto
  from Cons.prems(1)[OF _ Cons.prems(2) y] have "R x y" "I s1" by auto
  moreover have "list_all2 R xs zs \<and> I s2"
    by (rule Cons.IH[OF _ \<open>I s1\<close> zs]) (use Cons.prems(1) in auto)
  ultimately show ?case by (simp add: ys)
qed

text \<open>The same with a condition on the slots already visited and those still to come.\<close>

lemma map_state_split:
  assumes "\<And>pre x post s y s'. J pre (x # post) s \<Longrightarrow> f x s = (y, s') \<Longrightarrow> J (pre @ [y]) post s'"
    and "J pre xs s" and "map_state f xs s = (ys, s')"
  shows "J (pre @ ys) [] s'"
  using assms(2,3)
proof (induction xs arbitrary: pre s ys)
  case Nil
  then show ?case by simp
next
  case (Cons x xs)
  obtain y s1 where y: "f x s = (y, s1)" by (cases "f x s")
  obtain zs where zs: "map_state f xs s1 = (zs, s')" "ys = y # zs"
    using Cons.prems(2) y by (cases "map_state f xs s1") auto
  from Cons.IH[OF assms(1)[OF Cons.prems(1) y] zs(1)] show ?case by (simp add: zs)
qed

lemma map_state_whole:
  assumes "\<And>pre x post s y s'. I (pre @ x # post) s \<Longrightarrow> f x s = (y, s') \<Longrightarrow> I (pre @ y # post) s'"
    and "I xs s" and "map_state f xs s = (ys, s')"
  shows "I ys s'"
  using map_state_split[of "\<lambda>pre post. I (pre @ post)" f "[]" xs s ys s'] assms by simp

lemma map_state_pure:
  assumes "\<And>x s. x \<in> set xs \<Longrightarrow> f x s = (g x, s)"
  shows "map_state f xs s = (map g xs, s)"
  using assms by (induction xs arbitrary: s) auto

text \<open>A loop whose other state is only an output list it appends to.\<close>

lemma map_state_output:
  assumes "\<And>x out. f x out = (g x, out @ h x)"
  shows "map_state f xs out = (map g xs, out @ concat (map h xs))"
  by (induction xs arbitrary: out) (auto simp: assms)

subsection \<open>Bounded tables\<close>

text \<open>The contract of the small tables of the configuration: a list of at most \<open>cap\<close> elements, an
  addition that the table carries out while there is room, a removal of the first occurrence.\<close>

datatype 'a tbl_op = TAdd 'a | TDel 'a

fun run_tbl :: "('a \<Rightarrow> 'c \<Rightarrow> fault + 'c) \<Rightarrow> ('a \<Rightarrow> 'c \<Rightarrow> fault + 'c) \<Rightarrow> 'a tbl_op list \<Rightarrow> 'c \<Rightarrow> fault + 'c" where
  "run_tbl add del [] c = Inr c"
| "run_tbl add del (op # ops) c =
     (case (case op of TAdd x \<Rightarrow> add x c | TDel x \<Rightarrow> del x c) of
        Inl e \<Rightarrow> Inl e | Inr c' \<Rightarrow> run_tbl add del ops c')"

text \<open>The same script on the abstract list, \<open>None\<close> if it ever adds to a full table.\<close>

fun tbl_spec :: "('a \<Rightarrow> 'a list \<Rightarrow> 'a list) \<Rightarrow> nat \<Rightarrow> 'a tbl_op list \<Rightarrow> 'a list \<Rightarrow> 'a list option" where
  "tbl_spec ins cap [] xs = Some xs"
| "tbl_spec ins cap (TAdd x # ops) xs =
     (if length xs < cap then tbl_spec ins cap ops (ins x xs) else None)"
| "tbl_spec ins cap (TDel x # ops) xs = tbl_spec ins cap ops (remove1 x xs)"

locale bounded_table =
  fixes add :: "'a \<Rightarrow> 'c \<Rightarrow> fault + 'c"
    and del :: "'a \<Rightarrow> 'c \<Rightarrow> fault + 'c"
    and rep :: "'c \<Rightarrow> 'a list \<Rightarrow> bool"
    and ins :: "'a \<Rightarrow> 'a list \<Rightarrow> 'a list"
    and cap :: nat
  assumes add_rep: "rep c xs \<Longrightarrow> length xs < cap \<Longrightarrow> \<exists>c'. add x c = Inr c' \<and> rep c' (ins x xs)"
    and del_rep: "rep c xs \<Longrightarrow> \<exists>c'. del x c = Inr c' \<and> rep c' (remove1 x xs)"
begin

lemma run_tbl_rep:
  "rep c xs \<Longrightarrow> tbl_spec ins cap ops xs = Some ys \<Longrightarrow>
     \<exists>c'. run_tbl add del ops c = Inr c' \<and> rep c' ys"
proof (induction ops arbitrary: c xs)
  case Nil
  then show ?case by simp
next
  case (Cons op ops)
  show ?case
  proof (cases op)
    case (TAdd x)
    with Cons.prems(2) have r: "length xs < cap" "tbl_spec ins cap ops (ins x xs) = Some ys"
      by (auto split: if_splits)
    obtain c1 where "add x c = Inr c1" "rep c1 (ins x xs)" using add_rep[OF Cons.prems(1) r(1)] by blast
    with Cons.IH[OF _ r(2)] TAdd show ?thesis by auto
  next
    case (TDel x)
    obtain c1 where "del x c = Inr c1" "rep c1 (remove1 x xs)" using del_rep[OF Cons.prems(1)] by blast
    with Cons.IH[of c1 "remove1 x xs"] Cons.prems(2) TDel show ?thesis by auto
  qed
qed

end

text \<open>Moving the tail of an array one place down over the slot of a removed element.\<close>

lemma remove1_take_shift:
  assumes "find_slot (\<lambda>y. y = x) xs = Some i"
  shows "remove1 x xs = take i xs @ drop (Suc i) xs"
proof -
  obtain ys z zs where s: "xs = ys @ z # zs" "length ys = i" "z = x" "\<forall>y \<in> set ys. \<not> y = x"
    using find_slot_split[OF assms] by metis
  then have "x \<notin> set ys" by auto
  with s show ?thesis by (simp add: remove1_append)
qed

subsection \<open>Objects with an invariant\<close>

text \<open>The contract of an object whose operations may be called in any order: an operation that the
  caller is allowed to make returns without a fault and keeps the invariant. The state is a pair of
  the object and its environment.\<close>

fun run_ops :: "('o \<Rightarrow> 's \<Rightarrow> fault + 's) \<Rightarrow> 'o list \<Rightarrow> 's \<Rightarrow> fault + 's" where
  "run_ops exec [] s = Inr s"
| "run_ops exec (op # ops) s = (case exec op s of Inl e \<Rightarrow> Inl e | Inr s' \<Rightarrow> run_ops exec ops s')"

locale guarded_ops =
  fixes exec :: "'o \<Rightarrow> 'n \<times> 'd \<Rightarrow> fault + 'n \<times> 'd"
    and inv :: "'n \<times> 'd \<Rightarrow> bool"
    and ok :: "'o \<Rightarrow> bool"
  assumes exec_inv: "inv s \<Longrightarrow> ok op \<Longrightarrow> \<exists>s'. exec op s = Inr s' \<and> inv s'"
begin

lemma run_inv: "inv s \<Longrightarrow> \<forall>op \<in> set ops. ok op \<Longrightarrow> \<exists>s'. run_ops exec ops s = Inr s' \<and> inv s'"
proof (induction ops arbitrary: s)
  case Nil
  then show ?case by simp
next
  case (Cons op ops)
  then obtain s1 where "exec op s = Inr s1" "inv s1" using exec_inv[of s op] by auto
  with Cons show ?case by simp
qed

end

subsection \<open>Arrays of slots, some of them free\<close>

text \<open>The occupied slots of an array, in order, for a test that tells a free slot.\<close>

definition occupied :: "('a \<Rightarrow> bool) \<Rightarrow> 'a list \<Rightarrow> 'a list" where
  "occupied free xs = filter (\<lambda>x. \<not> free x) xs"

lemma occupied_simps [simp]:
  "occupied free [] = []"
  "occupied free (x # xs) = (if free x then occupied free xs else x # occupied free xs)"
  "occupied free (xs @ ys) = occupied free xs @ occupied free ys"
  by (simp_all add: occupied_def)

lemma set_occupied [simp]: "set (occupied free xs) = {x \<in> set xs. \<not> free x}"
  by (auto simp: occupied_def)

lemma occupied_length_le: "length (occupied free xs) \<le> length xs"
  by (simp add: occupied_def)

lemma occupied_full: "length (occupied free xs) = length xs \<longleftrightarrow> (\<forall>x \<in> set xs. \<not> free x)"
proof (induction xs)
  case Nil
  then show ?case by simp
next
  case (Cons x xs)
  then show ?case using occupied_length_le[of free xs] by auto
qed

end
