(* ===== verification/Cmd_Queue.thy ===== *)
theory Cmd_Queue
  imports Ipacm_Prelude
begin

text \<open>
  The command queue of the IPA connection manager: \<^verbatim>\<open>IPACM_CmdQueue.h/.cpp\<close> (classes Message and
  MessageQueue) and the posting side of \<^verbatim>\<open>IPACM_EvtDispatcher::PostEvt\<close>. The linked list lives in
  an explicit heap, so that the stale \<open>Tail\<close> pointer the code leaves behind after the last
  \<open>dequeue\<close> and the \<open>delete item\<close> of the consumer are visible. The first-in-first-out contract is
  the locale \<open>fifo_queue\<close>, which the pointer implementation interprets.
\<close>

section \<open>Event identifiers\<close>

datatype ipa_cm_event_id =
    IPA_CFG_CHANGE_EVENT | IPA_LINK_UP_EVENT | IPA_LINK_DOWN_EVENT | IPA_ADDR_ADD_EVENT
  | IPA_ADDR_DEL_EVENT | IPA_ROUTE_ADD_EVENT | IPA_ROUTE_DEL_EVENT | IPA_FIREWALL_CHANGE_EVENT
  | IPA_WLAN_AP_LINK_UP_EVENT | IPA_WLAN_STA_LINK_UP_EVENT | IPA_WLAN_CLIENT_ADD_EVENT
  | IPA_WLAN_CLIENT_DEL_EVENT | IPA_WLAN_CLIENT_POWER_SAVE_EVENT | IPA_WLAN_CLIENT_RECOVER_EVENT
  | IPA_NEW_NEIGH_EVENT | IPA_DEL_NEIGH_EVENT | IPA_NEIGH_CLIENT_IP_ADDR_ADD_EVENT
  | IPA_NEIGH_CLIENT_IP_ADDR_DEL_EVENT | IPA_SW_ROUTING_ENABLE | IPA_SW_ROUTING_DISABLE
  | IPA_PROCESS_CT_MESSAGE | IPA_HANDLE_WAN_UP | IPA_HANDLE_WAN_DOWN | IPA_HANDLE_WLAN_UP
  | IPA_HANDLE_LAN_UP | IPA_WLAN_CLIENT_ADD_EVENT_EX | IPA_HANDLE_WAN_UP_V6
  | IPA_HANDLE_WAN_DOWN_V6 | IPA_LAN_CLIENT_ACTIVE | IPA_LAN_CLIENT_INACTIVE
  | IPA_LAN_CLIENT_DISCONNECT | IPA_LAN_CLIENT_POWER_SAVE | IPA_LAN_CLIENT_POWER_RECOVER
  | IPA_LAN_TO_LAN_NEW_CONNECTION | IPA_LAN_TO_LAN_DEL_CONNECTION | IPA_LAN_DELETE_SELF
  | IPA_WLAN_LINK_DOWN_EVENT | IPA_USB_LINK_UP_EVENT | IPA_PROCESS_CT_MESSAGE_V6
  | IPA_PRIVATE_SUBNET_CHANGE_EVENT | IPA_WAN_UPSTREAM_ROUTE_ADD_EVENT
  | IPA_WAN_UPSTREAM_ROUTE_DEL_EVENT | IPA_WAN_EMBMS_LINK_UP_EVENT
  | IPA_ETH_BRIDGE_USB_CLIENT_ADD_EVENT | IPA_ETH_BRIDGE_WLAN_CLIENT_ADD_EVENT
  | IPA_ETH_BRIDGE_USB_CLIENT_DEL_EVENT | IPA_ETH_BRIDGE_WLAN_CLIENT_DEL_EVENT
  | IPA_ETH_BRIDGE_HDR_PROC_CTX_SET_EVENT | IPA_ETH_BRIDGE_HDR_PROC_CTX_UNSET_EVENT
  | IPA_WLAN_SWITCH_TO_SCC | IPA_WLAN_SWITCH_TO_MCC | IPA_CRADLE_WAN_MODE_SWITCH
  | IPA_WAN_XLAT_CONNECT_EVENT | IPA_TETHERING_STATS_UPDATE_EVENT
  | IPA_NETWORK_STATS_UPDATE_EVENT | IPA_HANDLE_WAN_UP_TETHER | IPA_HANDLE_WAN_DOWN_TETHER
  | IPA_HANDLE_WAN_UP_V6_TETHER | IPA_HANDLE_WAN_DOWN_V6_TETHER

section \<open>Messages and the queue\<close>

record ipacm_cmd_q_data =
  event :: ipa_cm_event_id
  evt_data :: ptr

text \<open>The only callback the program stores in a message is \<open>IPACM_EvtDispatcher::ProcessEvt\<close>; a
  message fresh from its constructor holds NULL.\<close>

datatype callback = ProcessEvt_cb

record cmd_t =
  callback_ptr :: "callback option"
  data :: ipacm_cmd_q_data

record Message =
  m_next :: ptr
  evt :: cmd_t

text \<open>The queue object together with the heap of the messages.\<close>

record MessageQueue =
  Head :: ptr
  Tail :: ptr
  msgs :: "addr \<rightharpoonup> Message"

definition MessageQueue_new :: MessageQueue where
  "MessageQueue_new = \<lparr>Head = None, Tail = None, msgs = Map.empty\<rparr>"

text \<open>\<open>p->setnext(item)\<close>, where \<open>p\<close> must be a live message.\<close>

definition setnext :: "addr \<Rightarrow> ptr \<Rightarrow> MessageQueue \<Rightarrow> fault + MessageQueue" where
  "setnext p item q =
     (case msgs q p of
        None \<Rightarrow> Inl UseAfterFree
      | Some m \<Rightarrow> Inr (q\<lparr>msgs := (msgs q)(p \<mapsto> m\<lparr>m_next := item\<rparr>)\<rparr>))"

definition enqueue :: "addr \<Rightarrow> MessageQueue \<Rightarrow> fault + MessageQueue" where
  "enqueue item q =
     (case Head q of
        None \<Rightarrow> Inr (q\<lparr>Tail := Some item, Head := Some item\<rparr>)
      | Some h \<Rightarrow>
          (case (case Tail q of None \<Rightarrow> setnext h (Some item) q
                              | Some t \<Rightarrow> setnext t (Some item) q) of
             Inl e \<Rightarrow> Inl e
           | Inr q' \<Rightarrow> Inr (q'\<lparr>Tail := Some item\<rparr>)))"

definition dequeue :: "MessageQueue \<Rightarrow> fault + ptr \<times> MessageQueue" where
  "dequeue q =
     (case Head q of
        None \<Rightarrow> Inr (None, q)
      | Some tmp \<Rightarrow>
          (case msgs q tmp of
             None \<Rightarrow> Inl UseAfterFree
           | Some m \<Rightarrow> Inr (Some tmp, q\<lparr>Head := m_next m\<rparr>)))"

text \<open>What the pthread calls return in one pass through the code, as the environment decides.\<close>

record pthread_rc =
  lock_rc :: int
  wait_rc :: int
  signal_rc :: int
  unlock_rc :: int

text \<open>
  \<open>PostEvt\<close>: \<open>a\<close> is what \<open>new Message()\<close> returns. The constructor clears \<open>m_next\<close>; the callback
  and the data are filled in before the lock is taken. When the mutex cannot be locked the item is
  neither queued nor freed.
\<close>

definition PostEvt ::
  "pthread_rc \<Rightarrow> ptr \<Rightarrow> ipacm_cmd_q_data \<Rightarrow> MessageQueue \<Rightarrow> fault + int \<times> MessageQueue" where
  "PostEvt rc a d q =
     (case a of
        None \<Rightarrow> Inr (IPACM_FAILURE, q)
      | Some item \<Rightarrow>
          (let m = \<lparr>m_next = None, evt = \<lparr>callback_ptr = Some ProcessEvt_cb, data = d\<rparr>\<rparr>;
               q1 = q\<lparr>msgs := (msgs q)(item \<mapsto> m)\<rparr>
           in if lock_rc rc \<noteq> 0 then Inr (IPACM_FAILURE, q1)
              else (case enqueue item q1 of
                      Inl e \<Rightarrow> Inl e
                    | Inr q2 \<Rightarrow>
                        if signal_rc rc \<noteq> 0 then Inr (IPACM_FAILURE, q2)
                        else if unlock_rc rc \<noteq> 0 then Inr (IPACM_FAILURE, q2)
                        else Inr (IPACM_SUCCESS, q2))))"

text \<open>One iteration of the consumer loop \<open>MessageQueue::Process\<close>: the thread returns, or it
  waited, or it ran the callback on the data of the message and deleted the message. The callback and
  the deletion come after the mutex is released, on a message that the list no longer reaches and that no other thread has a
  pointer to: producers that post meanwhile and the deletion commute, and the model makes them one step.\<close>

datatype process_result = Returned | Waited | Ran callback ipacm_cmd_q_data

definition Process_iter :: "pthread_rc \<Rightarrow> MessageQueue \<Rightarrow> fault + process_result \<times> MessageQueue" where
  "Process_iter rc q =
     (if lock_rc rc \<noteq> 0 then Inr (Returned, q)
      else (case dequeue q of
              Inl e \<Rightarrow> Inl e
            | Inr (None, q1) \<Rightarrow>
                if wait_rc rc \<noteq> 0 then Inr (Returned, q1)
                else if unlock_rc rc \<noteq> 0 then Inr (Returned, q1)
                else Inr (Waited, q1)
            | Inr (Some item, q1) \<Rightarrow>
                if unlock_rc rc \<noteq> 0 then Inr (Returned, q1)
                else (case msgs q1 item of
                        None \<Rightarrow> Inl UseAfterFree
                      | Some m \<Rightarrow>
                          (case callback_ptr (evt m) of
                             None \<Rightarrow> Inl NullDeref
                           | Some cb \<Rightarrow>
                               Inr (Ran cb (data (evt m)), q1\<lparr>msgs := (msgs q1)(item := None)\<rparr>)))))"

section \<open>Abstraction to the list of queued events\<close>

text \<open>\<open>chain h p as\<close>: following \<open>m_next\<close> from \<open>p\<close> visits the live messages \<open>as\<close> and ends in NULL.\<close>

primrec chain :: "(addr \<rightharpoonup> Message) \<Rightarrow> ptr \<Rightarrow> addr list \<Rightarrow> bool" where
  "chain h p [] \<longleftrightarrow> p = None"
| "chain h p (a # as) \<longleftrightarrow> p = Some a \<and> (case h a of None \<Rightarrow> False | Some m \<Rightarrow> chain h (m_next m) as)"

definition evt_of :: "(addr \<rightharpoonup> Message) \<Rightarrow> addr \<Rightarrow> cmd_t option" where
  "evt_of h a = map_option evt (h a)"

text \<open>The queue holds the events \<open>ds\<close>, oldest first: its messages form a chain of distinct live
  cells that ends in \<open>Tail\<close>. An empty queue puts no condition on \<open>Tail\<close>, which then may dangle.\<close>

definition holds :: "MessageQueue \<Rightarrow> ipacm_cmd_q_data list \<Rightarrow> bool" where
  "holds q ds \<longleftrightarrow> (\<exists>as. chain (msgs q) (Head q) as \<and> distinct as \<and>
      (as \<noteq> [] \<longrightarrow> Tail q = Some (last as)) \<and>
      map (evt_of (msgs q)) as = map (\<lambda>d. Some \<lparr>callback_ptr = Some ProcessEvt_cb, data = d\<rparr>) ds)"

lemma chain_upd_notin [simp]: "a \<notin> set as \<Longrightarrow> chain (h(a := x)) p as = chain h p as"
  by (induction as arbitrary: p) (auto split: option.splits)

lemma chain_live: "chain h p as \<Longrightarrow> a \<in> set as \<Longrightarrow> \<exists>m. h a = Some m"
  by (induction as arbitrary: p) (auto split: option.splits)

lemma chain_snoc:
  assumes "chain h p (as @ [t])" "distinct (as @ [t])" "h t = Some m" "b \<notin> set (as @ [t])"
    and "h b = Some mb" "m_next mb = None"
  shows "chain (h(t \<mapsto> m\<lparr>m_next := Some b\<rparr>)) p (as @ [t, b])"
  using assms
proof (induction as arbitrary: p)
  case Nil
  then show ?case by auto
next
  case (Cons a as)
  then show ?case by (cases "h a") auto
qed

lemma map_evt_of_upd [simp]: "a \<notin> set as \<Longrightarrow> map (evt_of (h(a := x))) as = map (evt_of h) as"
  by (induction as) (auto simp: evt_of_def)

lemma evt_of_setnext [simp]:
  "h t = Some m \<Longrightarrow> evt_of (h(t \<mapsto> m\<lparr>m_next := p\<rparr>)) = evt_of h"
  by (auto simp: evt_of_def fun_eq_iff)

lemma holds_new: "holds MessageQueue_new []"
  by (auto simp: holds_def MessageQueue_new_def intro!: exI[of _ "[]"])

lemma holds_Nil_Head: "holds q [] \<longleftrightarrow> Head q = None"
  by (auto simp: holds_def intro!: exI[of _ "[]"])

text \<open>A message that is written at a fresh address does not disturb the queue.\<close>

lemma holds_alloc:
  assumes "holds q ds" "msgs q item = None"
  shows "holds (q\<lparr>msgs := (msgs q)(item \<mapsto> m)\<rparr>) ds"
proof -
  from assms(1) obtain as where as: "chain (msgs q) (Head q) as" "distinct as"
    "as \<noteq> [] \<longrightarrow> Tail q = Some (last as)"
    "map (evt_of (msgs q)) as = map (\<lambda>d. Some \<lparr>callback_ptr = Some ProcessEvt_cb, data = d\<rparr>) ds"
    by (auto simp: holds_def)
  have "item \<notin> set as" using chain_live[OF as(1), of item] assms(2) by auto
  with as show ?thesis by (auto simp: holds_def intro!: exI[of _ as])
qed

text \<open>\<open>enqueue\<close> of a prepared message appends its event; the NULL-\<open>Tail\<close> branch is never taken.\<close>

lemma enqueue_holds:
  assumes "holds q ds" "msgs q item = None"
    and m: "m = \<lparr>m_next = None, evt = \<lparr>callback_ptr = Some ProcessEvt_cb, data = d\<rparr>\<rparr>"
  shows "\<exists>q'. enqueue item (q\<lparr>msgs := (msgs q)(item \<mapsto> m)\<rparr>) = Inr q' \<and> holds q' (ds @ [d])"
proof -
  let ?h = "(msgs q)(item \<mapsto> m)"
  let ?E = "\<lambda>d. Some \<lparr>callback_ptr = Some ProcessEvt_cb, data = d\<rparr>"
  from assms(1) obtain as where as: "chain (msgs q) (Head q) as" "distinct as"
    "as \<noteq> [] \<longrightarrow> Tail q = Some (last as)" "map (evt_of (msgs q)) as = map ?E ds"
    by (auto simp: holds_def)
  have fresh: "item \<notin> set as" using chain_live[OF as(1), of item] assms(2) by auto
  show ?thesis
  proof (cases as rule: rev_cases)
    case Nil
    with as m show ?thesis
      by (auto simp: enqueue_def holds_def evt_of_def intro!: exI[of _ "[item]"])
  next
    case (snoc bs t)
    have ch: "chain ?h (Head q) (bs @ [t])" using as(1) fresh snoc by simp
    obtain mt where mt: "msgs q t = Some mt" using chain_live[OF as(1), of t] snoc by auto
    have t: "Tail q = Some t" "t \<noteq> item" using as(3) snoc fresh by auto
    have hd: "Head q \<noteq> None" using as(1) snoc by (cases bs) auto
    let ?h' = "?h(t \<mapsto> mt\<lparr>m_next := Some item\<rparr>)"
    have ht: "?h t = Some mt" using mt t by simp
    have "chain ?h' (Head q) (bs @ [t, item])"
      by (rule chain_snoc[OF ch]) (use snoc as(2) ht fresh m in auto)
    moreover have "map (evt_of ?h') (bs @ [t, item]) = map ?E (ds @ [d])"
    proof -
      have "evt_of ?h' = evt_of ?h" using ht by (intro evt_of_setnext) simp
      moreover have "map (evt_of ?h) as = map ?E ds" using as(4) fresh by simp
      moreover have "evt_of ?h item = ?E d" using m by (simp add: evt_of_def)
      ultimately show ?thesis using snoc by simp
    qed
    ultimately have "holds (q\<lparr>msgs := ?h', Tail := Some item\<rparr>) (ds @ [d])"
      using snoc as(2) fresh by (auto simp: holds_def intro!: exI[of _ "bs @ [t, item]"])
    moreover have "enqueue item (q\<lparr>msgs := ?h\<rparr>) = Inr (q\<lparr>msgs := ?h', Tail := Some item\<rparr>)"
      using hd t ht by (auto simp: enqueue_def setnext_def)
    ultimately show ?thesis by blast
  qed
qed

lemma dequeue_holds_Nil: "holds q [] \<Longrightarrow> dequeue q = Inr (None, q)"
  by (simp add: holds_Nil_Head dequeue_def)

text \<open>\<open>dequeue\<close> followed by the deletion of the message takes the oldest event.\<close>

lemma dequeue_holds_Cons:
  assumes "holds q (d # ds)"
  shows "\<exists>item m q1. dequeue q = Inr (Some item, q1) \<and> msgs q1 item = Some m \<and>
    evt m = \<lparr>callback_ptr = Some ProcessEvt_cb, data = d\<rparr> \<and>
    holds (q1\<lparr>msgs := (msgs q1)(item := None)\<rparr>) ds \<and> holds q1 ds"
proof -
  let ?E = "\<lambda>d. Some \<lparr>callback_ptr = Some ProcessEvt_cb, data = d\<rparr>"
  from assms obtain a as where as: "chain (msgs q) (Head q) (a # as)" "distinct (a # as)"
    "Tail q = Some (last (a # as))" "evt_of (msgs q) a = ?E d" "map (evt_of (msgs q)) as = map ?E ds"
    by (auto simp: holds_def map_eq_Cons_conv)
  obtain m where m: "msgs q a = Some m" "chain (msgs q) (m_next m) as"
    using as(1) by (auto split: option.splits)
  let ?q1 = "q\<lparr>Head := m_next m\<rparr>"
  have "dequeue q = Inr (Some a, ?q1)" using as(1) m by (simp add: dequeue_def)
  moreover have "evt m = \<lparr>callback_ptr = Some ProcessEvt_cb, data = d\<rparr>"
    using as(4) m by (simp add: evt_of_def)
  moreover have "holds ?q1 ds"
    using as m by (auto simp: holds_def intro!: exI[of _ as])
  moreover have "holds (?q1\<lparr>msgs := (msgs ?q1)(a := None)\<rparr>) ds"
    using as m by (auto simp: holds_def intro!: exI[of _ as])
  ultimately show ?thesis using m(1) by (intro exI[of _ a] exI[of _ m] exI[of _ ?q1]) simp
qed

section \<open>The first-in-first-out contract\<close>

text \<open>A script of operations against a queue: \<open>Put\<close> offers a cell and an element, \<open>Get\<close> takes one.\<close>

datatype ('c, 'e) qop = Put 'c 'e | Get

text \<open>What a queue client observes over any implementation: the \<open>Put\<close>s that offered a fresh cell and the
  answer to each of its \<open>Get\<close>s, in the order of the script. Both operations may fault.\<close>

datatype 'e qev = Was_put 'e | Got "'e option"

fun run_script ::
  "('c \<Rightarrow> 'e \<Rightarrow> 'q \<Rightarrow> fault + 'q) \<Rightarrow> ('q \<Rightarrow> fault + 'e option \<times> 'q) \<Rightarrow> ('c \<Rightarrow> 'q \<Rightarrow> bool) \<Rightarrow>
   ('c, 'e) qop list \<Rightarrow> 'q \<Rightarrow> fault + 'e qev list \<times> 'q" where
  "run_script put get fresh [] q = Inr ([], q)"
| "run_script put get fresh (Put c e # ops) q =
     (if \<not> fresh c q then run_script put get fresh ops q
      else (case put c e q of
              Inl f \<Rightarrow> Inl f
            | Inr q' \<Rightarrow> map_sum id (map_prod ((#) (Was_put e)) id) (run_script put get fresh ops q')))"
| "run_script put get fresh (Get # ops) q =
     (case get q of
        Inl f \<Rightarrow> Inl f
      | Inr (r, q') \<Rightarrow> map_sum id (map_prod ((#) (Got r)) id) (run_script put get fresh ops q'))"

text \<open>The specification, a list: a history is possible when every answer is the oldest element then in the list, and NULL
  exactly when the list is empty; the value is the list at the end.\<close>

fun fifo_run :: "'e qev list \<Rightarrow> 'e list \<Rightarrow> 'e list option" where
  "fifo_run [] xs = Some xs"
| "fifo_run (Was_put e # es) xs = fifo_run es (xs @ [e])"
| "fifo_run (Got None # es) xs = (if xs = [] then fifo_run es [] else None)"
| "fifo_run (Got (Some e) # es) xs = (case xs of [] \<Rightarrow> None | x # ys \<Rightarrow> if x = e then fifo_run es ys else None)"

locale fifo_queue =
  fixes empty :: "'q"
    and put :: "'c \<Rightarrow> 'e \<Rightarrow> 'q \<Rightarrow> fault + 'q"
    and get :: "'q \<Rightarrow> fault + 'e option \<times> 'q"
    and fresh :: "'c \<Rightarrow> 'q \<Rightarrow> bool"
    and rep :: "'q \<Rightarrow> 'e list \<Rightarrow> bool"
  assumes rep_empty: "rep empty []"
    and put_rep: "rep q xs \<Longrightarrow> fresh c q \<Longrightarrow> \<exists>q'. put c e q = Inr q' \<and> rep q' (xs @ [e])"
    and get_rep_Nil: "rep q [] \<Longrightarrow> \<exists>q'. get q = Inr (None, q') \<and> rep q' []"
    and get_rep_Cons: "rep q (x # xs) \<Longrightarrow> \<exists>q'. get q = Inr (Some x, q') \<and> rep q' xs"
begin

text \<open>Every script runs without a fault, with a history that is possible for the list.\<close>

lemma script_fifo:
  "rep q xs \<Longrightarrow> \<exists>es q' ys. run_script put get fresh ops q = Inr (es, q') \<and> fifo_run es xs = Some ys \<and> rep q' ys"
proof (induction ops arbitrary: q xs)
  case Nil
  then show ?case by simp
next
  case (Cons op ops)
  show ?case
  proof (cases op)
    case (Put c e)
    show ?thesis
    proof (cases "fresh c q")
      case True
      obtain q1 where q1: "put c e q = Inr q1" "rep q1 (xs @ [e])"
        using put_rep[OF Cons.prems True] by blast
      with Cons.IH[OF q1(2)] Put True show ?thesis by fastforce
    next
      case False
      with Put Cons.IH[OF Cons.prems] show ?thesis by simp
    qed
  next
    case Get
    show ?thesis
    proof (cases xs)
      case Nil
      then obtain q1 where q1: "get q = Inr (None, q1)" "rep q1 []" using get_rep_Nil Cons.prems by blast
      with Cons.IH[OF q1(2)] Get Nil show ?thesis by fastforce
    next
      case (Cons x ys)
      then obtain q1 where q1: "get q = Inr (Some x, q1)" "rep q1 ys" using get_rep_Cons Cons.prems by blast
      with Cons.IH[OF q1(2)] Get Cons show ?thesis by fastforce
    qed
  qed
qed

lemma script_from_empty:
  "\<exists>es q' ys. run_script put get fresh ops empty = Inr (es, q') \<and> fifo_run es [] = Some ys \<and> rep q' ys"
  by (rule script_fifo[OF rep_empty])

end

text \<open>The pointer queue as a provider: \<open>Put\<close> is \<open>PostEvt\<close> and \<open>Get\<close> one pass of the consumer loop,
  when the pthread calls succeed.\<close>

definition rc_ok :: pthread_rc where
  "rc_ok = \<lparr>lock_rc = 0, wait_rc = 0, signal_rc = 0, unlock_rc = 0\<rparr>"

definition mq_put :: "addr \<Rightarrow> ipacm_cmd_q_data \<Rightarrow> MessageQueue \<Rightarrow> fault + MessageQueue" where
  "mq_put a d q = map_sum id snd (PostEvt rc_ok (Some a) d q)"

definition mq_get :: "MessageQueue \<Rightarrow> fault + ipacm_cmd_q_data option \<times> MessageQueue" where
  "mq_get q = map_sum id (\<lambda>(r, q'). (case r of Ran _ d \<Rightarrow> Some d | _ \<Rightarrow> None, q')) (Process_iter rc_ok q)"

definition mq_fresh :: "addr \<Rightarrow> MessageQueue \<Rightarrow> bool" where
  "mq_fresh a q \<longleftrightarrow> msgs q a = None"

lemma PostEvt_holds:
  assumes "holds q ds" "msgs q a = None" "lock_rc rc = 0"
  shows "\<exists>r q'. PostEvt rc (Some a) d q = Inr (r, q') \<and> holds q' (ds @ [d]) \<and>
    (r = IPACM_SUCCESS \<longleftrightarrow> signal_rc rc = 0 \<and> unlock_rc rc = 0)"
  using enqueue_holds[OF assms(1,2) refl, of d] assms(3) by (auto simp: PostEvt_def Let_def)

lemma PostEvt_dropped:
  assumes "holds q ds" "\<And>a'. a = Some a' \<Longrightarrow> msgs q a' = None \<and> lock_rc rc \<noteq> 0"
  shows "\<exists>q'. PostEvt rc a d q = Inr (IPACM_FAILURE, q') \<and> holds q' ds"
  using assms holds_alloc[OF assms(1)] by (cases a) (auto simp: PostEvt_def Let_def)

lemma Process_iter_Cons:
  assumes "holds q (d # ds)" "lock_rc rc = 0"
  shows "\<exists>q'. Process_iter rc q =
      Inr (if unlock_rc rc = 0 then Ran ProcessEvt_cb d else Returned, q') \<and> holds q' ds"
  using dequeue_holds_Cons[OF assms(1)] assms(2) by (auto simp: Process_iter_def)

lemma Process_iter_Nil:
  assumes "holds q []"
  shows "\<exists>r. Process_iter rc q = Inr (r, q) \<and> r \<in> {Returned, Waited} \<and>
    (r = Waited \<longleftrightarrow> lock_rc rc = 0 \<and> wait_rc rc = 0 \<and> unlock_rc rc = 0)"
  using dequeue_holds_Nil[OF assms] by (auto simp: Process_iter_def)

lemma Process_iter_nolock: "lock_rc rc \<noteq> 0 \<Longrightarrow> Process_iter rc q = Inr (Returned, q)"
  by (simp add: Process_iter_def)

interpretation mq: fifo_queue MessageQueue_new mq_put mq_get mq_fresh holds
proof unfold_locales
  show "holds MessageQueue_new []" by (rule holds_new)
next
  fix q xs c e
  assume "holds q xs" "mq_fresh c q"
  then show "\<exists>q'. mq_put c e q = Inr q' \<and> holds q' (xs @ [e])"
    using PostEvt_holds[of q xs c rc_ok e] by (auto simp: mq_put_def mq_fresh_def rc_ok_def)
next
  fix q
  assume "holds q []"
  then show "\<exists>q'. mq_get q = Inr (None, q') \<and> holds q' []"
    using Process_iter_Nil[of q rc_ok] by (auto simp: mq_get_def)
next
  fix q x xs
  assume "holds q (x # xs)"
  then show "\<exists>q'. mq_get q = Inr (Some x, q') \<and> holds q' xs"
    using Process_iter_Cons[of q x xs rc_ok] by (auto simp: mq_get_def rc_ok_def)
qed

section \<open>Producers and the consumer thread\<close>

text \<open>The queue, the events posted and processed so far, and whether the consumer thread still
  runs. Every pass of a producer or of the consumer is atomic under the mutex.\<close>

record mq_sys =
  mq :: MessageQueue
  posted :: "ipacm_cmd_q_data list"
  processed :: "ipacm_cmd_q_data list"
  alive :: bool

definition mq_init :: mq_sys where
  "mq_init = \<lparr>mq = MessageQueue_new, posted = [], processed = [], alive = True\<rparr>"

inductive mq_step :: "mq_sys \<Rightarrow> mq_sys \<Rightarrow> bool" where
  post: "msgs (mq s) a = None \<Longrightarrow> lock_rc rc = 0 \<Longrightarrow> PostEvt rc (Some a) d (mq s) = Inr (r, q) \<Longrightarrow>
     mq_step s (s\<lparr>mq := q, posted := posted s @ [d]\<rparr>)"
| post_drop: "(\<And>a'. a = Some a' \<Longrightarrow> msgs (mq s) a' = None \<and> lock_rc rc \<noteq> 0) \<Longrightarrow>
     PostEvt rc a d (mq s) = Inr (r, q) \<Longrightarrow> mq_step s (s\<lparr>mq := q\<rparr>)"
| run: "alive s \<Longrightarrow> Process_iter rc (mq s) = Inr (Ran cb d, q) \<Longrightarrow>
     mq_step s (s\<lparr>mq := q, processed := processed s @ [d]\<rparr>)"
| wait: "alive s \<Longrightarrow> Process_iter rc (mq s) = Inr (Waited, q) \<Longrightarrow> mq_step s (s\<lparr>mq := q\<rparr>)"
| stop: "alive s \<Longrightarrow> Process_iter rc (mq s) = Inr (Returned, q) \<Longrightarrow>
     mq_step s (s\<lparr>mq := q, alive := False\<rparr>)"

inductive mq_reach :: "mq_sys \<Rightarrow> bool" where
  start: "mq_reach mq_init"
| step: "mq_reach s \<Longrightarrow> mq_step s t \<Longrightarrow> mq_reach t"

text \<open>What is posted is what was processed, then at most one event that a stopping consumer lost,
  then what is queued.\<close>

definition mq_inv :: "mq_sys \<Rightarrow> bool" where
  "mq_inv s \<longleftrightarrow> (\<exists>lost ds. holds (mq s) ds \<and> posted s = processed s @ lost @ ds \<and>
     length lost \<le> 1 \<and> (alive s \<longrightarrow> lost = []))"

lemma Process_iter_cases:
  assumes "holds q ds" "Process_iter rc q = Inr (r, q')"
  shows "(r = Waited \<and> holds q' ds) \<or> (\<exists>d ds'. ds = d # ds' \<and> r = Ran ProcessEvt_cb d \<and> holds q' ds') \<or>
    (r = Returned \<and> (\<exists>lost ds'. ds = lost @ ds' \<and> length lost \<le> 1 \<and> holds q' ds'))"
proof (cases "lock_rc rc = 0")
  case False
  with assms have "r = Returned" "ds = [] @ ds" "holds q' ds" by (auto simp: Process_iter_nolock)
  then show ?thesis by (metis list.size(3) zero_le)
next
  case True
  show ?thesis
  proof (cases ds)
    case Nil
    then show ?thesis using Process_iter_Nil[of q rc] assms
      by (auto intro!: exI[of _ "[]"])
  next
    case (Cons d ds')
    then have q': "r = (if unlock_rc rc = 0 then Ran ProcessEvt_cb d else Returned)" "holds q' ds'"
      using Process_iter_Cons[of q d ds' rc] assms True by auto
    have "ds = [d] @ ds'" "length [d] \<le> 1" using Cons by auto
    with q' Cons show ?thesis by (cases "unlock_rc rc = 0") (simp, metis)
  qed
qed

lemma mq_step_inv: "mq_step s t \<Longrightarrow> mq_inv s \<Longrightarrow> mq_inv t"
proof (induction rule: mq_step.induct)
  case (post s a rc d r q)
  then show ?case using PostEvt_holds[of "mq s" _ a rc d] by (fastforce simp: mq_inv_def)
next
  case (post_drop a s rc d r q)
  then obtain lost ds where i: "holds (mq s) ds" "posted s = processed s @ lost @ ds"
     "length lost \<le> 1" "alive s \<longrightarrow> lost = []" by (auto simp: mq_inv_def)
  then have "holds q ds" using PostEvt_dropped[of "mq s" ds a rc d] post_drop by fastforce
  with i show ?case by (auto simp: mq_inv_def)
next
  case (run s rc cb d q)
  then show ?case using Process_iter_cases[of "mq s" _ rc] by (fastforce simp: mq_inv_def)
next
  case (wait s rc q)
  then show ?case using Process_iter_cases[of "mq s" _ rc] by (fastforce simp: mq_inv_def)
next
  case (stop s rc q)
  then obtain ds where i: "holds (mq s) ds" "posted s = processed s @ ds"
    by (auto simp: mq_inv_def)
  then obtain lost ds' where "ds = lost @ ds'" "length lost \<le> 1" "holds q ds'"
    using Process_iter_cases[OF i(1) stop(2)] by auto
  with i show ?case by (auto simp: mq_inv_def)
qed

lemma mq_reach_inv: "mq_reach s \<Longrightarrow> mq_inv s"
proof (induction rule: mq_reach.induct)
  case start
  show ?case using holds_new by (auto simp: mq_inv_def mq_init_def)
next
  case (step s t)
  then show ?case by (blast intro: mq_step_inv)
qed

section \<open>Properties\<close>

text \<open>C1. Events are processed in the order in which they were posted and none is lost while the
  consumer thread runs: in every state the producers and the consumer can reach, the posted events
  are the processed ones followed by those still in the queue; only a consumer that stopped
  (because a pthread call failed) can have lost an event, and then at most one.\<close>

theorem queue_fifo_no_loss:
  assumes "mq_reach s"
  shows "\<exists>lost ds. holds (mq s) ds \<and> posted s = processed s @ lost @ ds \<and> length lost \<le> 1 \<and>
    (alive s \<longrightarrow> lost = [])"
  using mq_reach_inv[OF assms] by (simp add: mq_inv_def)

definition ex_data :: ipacm_cmd_q_data where
  "ex_data = \<lparr>event = IPA_HANDLE_WAN_UP, evt_data = Some 7\<rparr>"

definition ex_posted :: mq_sys where
  "ex_posted = \<lparr>mq = \<lparr>Head = Some 0, Tail = Some 0, msgs = [0 \<mapsto>
      \<lparr>m_next = None, evt = \<lparr>callback_ptr = Some ProcessEvt_cb, data = ex_data\<rparr>\<rparr>]\<rparr>,
    posted = [ex_data], processed = [], alive = True\<rparr>"

lemma ex_posted_reach: "mq_reach ex_posted"
proof -
  have "mq_step mq_init (mq_init\<lparr>mq := mq ex_posted, posted := posted mq_init @ [ex_data]\<rparr>)"
    by (rule mq_step.post[of _ 0 rc_ok _ 0])
      (simp_all add: mq_init_def MessageQueue_new_def rc_ok_def PostEvt_def enqueue_def ex_posted_def)
  then show ?thesis
    using mq_reach.step[OF mq_reach.start] by (simp add: ex_posted_def mq_init_def)
qed

theorem queue_fifo_no_loss_witness:
  "mq_reach ex_posted \<and> (\<exists>lost ds. holds (mq ex_posted) ds \<and>
     posted ex_posted = processed ex_posted @ lost @ ds \<and> length lost \<le> 1 \<and>
     (alive ex_posted \<longrightarrow> lost = []))"
  using ex_posted_reach queue_fifo_no_loss[OF ex_posted_reach] by simp

text \<open>C2. No producer and no pass of the consumer touches a dead or NULL message, although \<open>Tail\<close>
  dangles whenever the queue has run empty: from every reachable state \<open>PostEvt\<close> with newly
  allocated memory and \<open>MessageQueue::Process\<close> run without a fault, whatever the pthread calls
  return.\<close>

theorem queue_no_fault:
  assumes "mq_reach s" "msgs (mq s) a = None"
  shows "(\<exists>r. PostEvt rc (Some a) d (mq s) = Inr r) \<and> (\<exists>r. Process_iter rc (mq s) = Inr r)"
proof
  from mq_reach_inv[OF assms(1)] obtain ds where ds: "holds (mq s) ds" by (auto simp: mq_inv_def)
  show "\<exists>r. PostEvt rc (Some a) d (mq s) = Inr r"
    using PostEvt_holds[OF ds assms(2), of rc d] PostEvt_dropped[OF ds, of "Some a" rc d] assms(2)
    by (cases "lock_rc rc = 0") auto
  show "\<exists>r. Process_iter rc (mq s) = Inr r"
    using Process_iter_nolock[of rc "mq s"] Process_iter_Nil[of "mq s" rc]
      Process_iter_Cons[of "mq s" _ _ rc] ds
    by (cases "lock_rc rc = 0"; cases ds) (simp_all, blast+)
qed

theorem queue_no_fault_witness:
  "mq_reach ex_posted \<and> msgs (mq ex_posted) 1 = None \<and>
   (\<exists>r. PostEvt rc_ok (Some 1) ex_data (mq ex_posted) = Inr r) \<and>
   (\<exists>r. Process_iter rc_ok (mq ex_posted) = Inr r)"
proof -
  have f: "msgs (mq ex_posted) 1 = None" by (simp add: ex_posted_def)
  show ?thesis using queue_no_fault[OF ex_posted_reach f] ex_posted_reach f by blast
qed

text \<open>C3. The pointer queue refines a first-in-first-out list: every script of posts (into memory
  that is free at that time) and consumer passes runs without a fault, each pass runs the event that is oldest
  in the list at that time and none exactly when the list is empty, and at the end the queue links the events of the list
  in their order.\<close>

theorem queue_refines_list:
  "\<exists>es q' ys. run_script mq_put mq_get mq_fresh ops MessageQueue_new = Inr (es, q') \<and>
     fifo_run es [] = Some ys \<and> holds q' ys"
  by (rule mq.script_from_empty)

end
