(* ===== verification/Evt_Dispatcher.thy ===== *)
theory Evt_Dispatcher
  imports Cmd_Queue
begin

text \<open>
  The event dispatcher \<^verbatim>\<open>IPACM_EvtDispatcher.cpp\<close>: a global singly linked list of (event, listener)
  registrations, \<open>registr\<close>, \<open>deregistr\<close> and \<open>ProcessEvt\<close>, which walks the list and calls the
  listeners of an event (\<open>PostEvt\<close> is in Cmd_Queue). List cells live in an explicit heap and every
  loop over \<open>next\<close> pointers is a partial function, so that termination and the absence of dangling
  reads are theorems. The registration contract is the locale \<open>listener_registry\<close>.
\<close>

type_synonym listener = nat

text \<open>The cells of the list are those of the interface manager as well (Iface_Manager), with the table index of an interface for the
  event: \<open>'k\<close> is the type of the key.\<close>

record 'k cmd_evts =
  cev :: 'k
  cobj :: listener
  cnext :: ptr

record 'k listener_list =
  dhead :: ptr
  cells :: "addr \<rightharpoonup> 'k cmd_evts"

record dispatcher = "ipa_cm_event_id listener_list" +
  ipacm_event_stats :: "ipa_cm_event_id \<Rightarrow> u32"

section \<open>Operations\<close>

text \<open>\<^verbatim>\<open>while(tmp->next) tmp = tmp->next;\<close>\<close>

partial_function (option) last_cell :: "(addr \<rightharpoonup> 'k cmd_evts) \<Rightarrow> addr \<Rightarrow> (fault + addr) option" where
  "last_cell h tmp =
     (case h tmp of
        None \<Rightarrow> Some (Inl UseAfterFree)
      | Some c \<Rightarrow> (case cnext c of None \<Rightarrow> Some (Inr tmp) | Some nx \<Rightarrow> last_cell h nx))"

text \<open>\<open>nw\<close> is what \<open>malloc\<close> returns.\<close>

definition registr ::
  "ptr \<Rightarrow> 'k \<Rightarrow> listener \<Rightarrow> ('k, 'm) listener_list_scheme \<Rightarrow> (fault + int \<times> ('k, 'm) listener_list_scheme) option" where
  "registr nw ev obj d =
     (case nw of
        None \<Rightarrow> Some (Inr (IPACM_FAILURE, d))
      | Some a \<Rightarrow>
          (let d1 = d\<lparr>cells := (cells d)(a \<mapsto> \<lparr>cev = ev, cobj = obj, cnext = None\<rparr>)\<rparr>
           in case dhead d1 of
                None \<Rightarrow> Some (Inr (IPACM_SUCCESS, d1\<lparr>dhead := Some a\<rparr>))
              | Some tmp \<Rightarrow>
                  (case last_cell (cells d1) tmp of
                     None \<Rightarrow> None
                   | Some (Inl e) \<Rightarrow> Some (Inl e)
                   | Some (Inr l) \<Rightarrow>
                       (case cells d1 l of
                          None \<Rightarrow> Some (Inl UseAfterFree)
                        | Some c \<Rightarrow>
                            Some (Inr (IPACM_SUCCESS,
                              d1\<lparr>cells := (cells d1)(l \<mapsto> c\<lparr>cnext := Some a\<rparr>)\<rparr>))))))"

text \<open>Unlink the cell \<open>tmp\<close> (whose successor is \<open>nx\<close>): at the head, at the end, in the middle.\<close>

definition unlink :: "addr \<Rightarrow> ptr \<Rightarrow> ptr \<Rightarrow> ('k, 'm) listener_list_scheme \<Rightarrow> fault + ('k, 'm) listener_list_scheme" where
  "unlink tmp nx prev d =
     (if dhead d = Some tmp then Inr (d\<lparr>dhead := nx\<rparr>)
      else case prev of
             None \<Rightarrow> Inl NullDeref
           | Some p \<Rightarrow>
               (case cells d p of
                  None \<Rightarrow> Inl UseAfterFree
                | Some c \<Rightarrow>
                    if nx = None then Inr (d\<lparr>cells := (cells d)(p \<mapsto> c\<lparr>cnext := None\<rparr>)\<rparr>)
                    else Inr (d\<lparr>cells := (cells d)(p \<mapsto> c\<lparr>cnext := nx\<rparr>)\<rparr>)))"

partial_function (option) dereg_loop ::
  "listener \<Rightarrow> ptr \<Rightarrow> ptr \<Rightarrow> ('k, 'm) listener_list_scheme \<Rightarrow> (fault + ('k, 'm) listener_list_scheme) option" where
  "dereg_loop param tmp prev d =
     (case tmp of
        None \<Rightarrow> Some (Inr d)
      | Some t \<Rightarrow>
          (case cells d t of
             None \<Rightarrow> Some (Inl UseAfterFree)
           | Some c \<Rightarrow>
               if cobj c = param then
                 (case unlink t (cnext c) prev d of
                    Inl e \<Rightarrow> Some (Inl e)
                  | Inr d1 \<Rightarrow>
                      (case cells d1 t of
                         None \<Rightarrow> Some (Inl UseAfterFree)
                       | Some c1 \<Rightarrow>
                           dereg_loop param (cnext c1) prev (d1\<lparr>cells := (cells d1)(t := None)\<rparr>)))
               else dereg_loop param (cnext c) tmp d))"

definition deregistr :: "listener \<Rightarrow> ('k, 'm) listener_list_scheme \<Rightarrow> (fault + int \<times> ('k, 'm) listener_list_scheme) option" where
  "deregistr param d =
     map_option (map_sum id (\<lambda>d'. (IPACM_SUCCESS, d'))) (dereg_loop param (dhead d) (dhead d) d)"

text \<open>
  \<open>ProcessEvt\<close>: \<open>cb\<close> stands for the virtual call \<open>obj->event_callback(event, evt_data)\<close>, which may
  change the dispatcher as well as its own state \<open>'w\<close>. The cell is copied before the call and the
  walk goes on from the copied \<open>next\<close>. At the end the payload of the event is freed; the result
  names the pointer that was freed.
\<close>

type_synonym 'w event_callback =
  "listener \<Rightarrow> ipa_cm_event_id \<Rightarrow> ptr \<Rightarrow> 'w \<times> dispatcher \<Rightarrow> fault + 'w \<times> dispatcher"

partial_function (option) process_loop ::
  "'w event_callback \<Rightarrow> ipacm_cmd_q_data \<Rightarrow> ptr \<Rightarrow> 'w \<times> dispatcher \<Rightarrow> (fault + 'w \<times> dispatcher) option"
  where
  "process_loop cb dat tmp s =
     (case tmp of
        None \<Rightarrow> Some (Inr s)
      | Some t \<Rightarrow>
          (case cells (snd s) t of
             None \<Rightarrow> Some (Inl UseAfterFree)
           | Some tmp1 \<Rightarrow>
               if event dat = cev tmp1 then
                 (case cb (cobj tmp1) (event dat) (evt_data dat)
                     (fst s, (snd s)\<lparr>ipacm_event_stats :=
                        (ipacm_event_stats (snd s))(event dat := ipacm_event_stats (snd s) (event dat) + 1)\<rparr>) of
                    Inl e \<Rightarrow> Some (Inl e)
                  | Inr s' \<Rightarrow> process_loop cb dat (cnext tmp1) s')
               else process_loop cb dat (cnext tmp1) s))"

definition ProcessEvt ::
  "'w event_callback \<Rightarrow> ipacm_cmd_q_data \<Rightarrow> 'w \<times> dispatcher \<Rightarrow> (fault + ('w \<times> dispatcher) \<times> ptr) option"
  where
  "ProcessEvt cb dat s =
     map_option (map_sum id (\<lambda>s'. (s', evt_data dat))) (process_loop cb dat (dhead (snd s)) s)"

definition dispatcher_init :: dispatcher where
  "dispatcher_init = \<lparr>dhead = None, cells = Map.empty, ipacm_event_stats = (\<lambda>_. 0)\<rparr>"

section \<open>Lists of cells\<close>

primrec cseg :: "(addr \<rightharpoonup> 'k cmd_evts) \<Rightarrow> ptr \<Rightarrow> addr list \<Rightarrow> ptr \<Rightarrow> bool" where
  "cseg h p [] q \<longleftrightarrow> p = q"
| "cseg h p (a # as) q \<longleftrightarrow>
     p = Some a \<and> (case h a of None \<Rightarrow> False | Some c \<Rightarrow> cseg h (cnext c) as q)"

definition reg_of :: "(addr \<rightharpoonup> 'k cmd_evts) \<Rightarrow> addr \<Rightarrow> ('k \<times> listener) option" where
  "reg_of h a = map_option (\<lambda>c. (cev c, cobj c)) (h a)"

text \<open>The dispatcher's list holds the registrations \<open>rs\<close>, in this order, in the cells \<open>as\<close>.\<close>

definition regs_at :: "('k, 'm) listener_list_scheme \<Rightarrow> addr list \<Rightarrow> ('k \<times> listener) list \<Rightarrow> bool" where
  "regs_at d as rs \<longleftrightarrow> cseg (cells d) (dhead d) as None \<and> distinct as \<and>
     map (reg_of (cells d)) as = map Some rs"

definition regs :: "('k, 'm) listener_list_scheme \<Rightarrow> ('k \<times> listener) list \<Rightarrow> bool" where
  "regs d rs \<longleftrightarrow> (\<exists>as. regs_at d as rs)"

lemma cseg_append [simp]:
  "cseg h p (as @ bs) q \<longleftrightarrow> (\<exists>r. cseg h p as r \<and> cseg h r bs q)"
  by (induction as arbitrary: p) (auto split: option.splits)

lemma cseg_upd_notin [simp]: "a \<notin> set as \<Longrightarrow> cseg (h(a := x)) p as q = cseg h p as q"
  by (induction as arbitrary: p) (auto split: option.splits)

lemma cseg_live: "cseg h p as q \<Longrightarrow> a \<in> set as \<Longrightarrow> \<exists>c. h a = Some c"
  by (induction as arbitrary: p) (auto split: option.splits)

lemma cseg_relink:
  assumes "cseg h p (ks @ [k]) q" "distinct (ks @ [k])" "h k = Some c"
  shows "cseg (h(k \<mapsto> c\<lparr>cnext := q'\<rparr>)) p (ks @ [k]) q'"
proof -
  from assms(1) have "cseg h p ks (Some k)" by auto
  with assms(2) have "cseg (h(k \<mapsto> c\<lparr>cnext := q'\<rparr>)) p ks (Some k)" by simp
  then show ?thesis by auto
qed

lemma reg_of_upd [simp]: "a \<noteq> b \<Longrightarrow> reg_of (h(b := x)) a = reg_of h a"
  by (simp add: reg_of_def)

lemma reg_of_relink [simp]: "h k = Some c \<Longrightarrow> reg_of (h(k \<mapsto> c\<lparr>cnext := q\<rparr>)) = reg_of h"
  by (auto simp: reg_of_def fun_eq_iff)

lemma map_reg_of_upd [simp]: "b \<notin> set as \<Longrightarrow> map (reg_of (h(b := x))) as = map (reg_of h) as"
  by (induction as) auto

lemma regs_at_fresh: "regs_at d as rs \<Longrightarrow> cells d a = None \<Longrightarrow> a \<notin> set as"
  using cseg_live by (fastforce simp: regs_at_def)

lemma regs_init: "regs dispatcher_init []"
  by (auto simp: regs_def regs_at_def dispatcher_init_def intro!: exI[of _ "[]"])

section \<open>Registration\<close>

lemma last_cell_seg: "cseg h (Some a) (as @ [l]) None \<Longrightarrow> last_cell h a = Some (Inr l)"
proof (induction as arbitrary: a)
  case Nil
  then obtain c where "h a = Some c" "a = l" "cnext c = None" by (auto split: option.splits)
  then show ?case by (simp add: last_cell.simps[of h l])
next
  case (Cons b as)
  then obtain c where c: "h a = Some c" "cseg h (cnext c) (as @ [l]) None"
    by (simp only: append_Cons cseg.simps) (auto split: option.splits simp del: cseg_append)
  then obtain n where n: "cnext c = Some n" by (cases as) (simp_all del: cseg_append)
  from Cons.IH[of n] c n have "last_cell h n = Some (Inr l)" by simp
  with c n show ?case by (simp add: last_cell.simps[of h a])
qed

lemma registr_regs_at:
  assumes r: "regs_at d as rs" and a: "cells d a = None"
  shows "\<exists>d'. registr (Some a) ev obj d = Some (Inr (IPACM_SUCCESS, d')) \<and>
    regs_at d' (as @ [a]) (rs @ [(ev, obj)]) \<and> listener_list.more d' = listener_list.more d"
proof -
  let ?h = "(cells d)(a \<mapsto> \<lparr>cev = ev, cobj = obj, cnext = None\<rparr>)"
  have fresh: "a \<notin> set as" using regs_at_fresh[OF r a] .
  have seg: "cseg ?h (dhead d) as None" using r fresh by (simp add: regs_at_def)
  have m: "map (reg_of ?h) as = map Some rs" using r fresh by (simp add: regs_at_def)
  show ?thesis
  proof (cases as rule: rev_cases)
    case Nil
    with r seg m show ?thesis by (auto simp: registr_def regs_at_def reg_of_def)
  next
    case (snoc bs l)
    obtain t where t: "dhead d = Some t" using seg snoc by (cases bs) auto
    have l: "last_cell ?h t = Some (Inr l)" using seg snoc t last_cell_seg[of ?h t bs l] by simp
    obtain c where c: "?h l = Some c" using cseg_live[OF seg, of l] snoc by auto
    let ?h' = "?h(l \<mapsto> c\<lparr>cnext := Some a\<rparr>)"
    have neq: "a \<noteq> l" using fresh snoc by auto
    have "cseg ?h' (dhead d) (bs @ [l]) (Some a)"
      using seg c snoc r by (intro cseg_relink) (auto simp: regs_at_def)
    then have "cseg ?h' (dhead d) (as @ [a]) None" using snoc neq by auto
    moreover have "map (reg_of ?h') (as @ [a]) = map Some (rs @ [(ev, obj)])"
    proof -
      have "reg_of ?h' = reg_of ?h" using c by (intro reg_of_relink)
      then show ?thesis using m by (simp add: reg_of_def[of ?h a])
    qed
    moreover have "registr (Some a) ev obj d = Some (Inr (IPACM_SUCCESS, d\<lparr>cells := ?h'\<rparr>))"
      using t l c by (simp add: registr_def)
    ultimately show ?thesis using r fresh by (auto simp: regs_at_def)
  qed
qed

lemma registr_fail: "registr None ev obj d = Some (Inr (IPACM_FAILURE, d))"
  by (simp add: registr_def)

section \<open>Deregistration\<close>

text \<open>The loop invariant: \<open>ks\<close> are the cells kept so far, \<open>as\<close> those still to visit, \<open>prev\<close> is the
  last cell kept (before the first one is kept it is the old head, which may be gone).\<close>

definition kept :: "listener \<Rightarrow> addr list \<Rightarrow> ('k \<times> listener) list \<Rightarrow> addr list" where
  "kept param as rs = map fst (filter (\<lambda>p. snd (snd p) \<noteq> param) (zip as rs))"

lemma kept_simps [simp]:
  "kept param [] rs = []" "kept param as [] = []"
  "kept param (a # as) (r # rs) = (if snd r = param then kept param as rs else a # kept param as rs)"
  by (simp_all add: kept_def)

lemma kept_append [simp]:
  "length as = length rs \<Longrightarrow> kept param (as @ bs) (rs @ ss) = kept param as rs @ kept param bs ss"
  by (simp add: kept_def)

lemma length_kept: "length as = length rs \<Longrightarrow> length (kept param as rs) = length (filter (\<lambda>r. snd r \<noteq> param) rs)"
  by (induction as rs rule: list_induct2) auto

lemma kept_all: "length as = length rs \<Longrightarrow> param \<notin> snd ` set rs \<Longrightarrow> kept param as rs = as"
  by (induction as rs rule: list_induct2) auto

lemma dereg_loop_spec:
  assumes "cseg (cells d) (dhead d) ks tmp" "cseg (cells d) tmp as None" "distinct (ks @ as)"
    and "ks \<noteq> [] \<Longrightarrow> prev = Some (last ks)"
    and "map (reg_of (cells d)) as = map Some rs"
  shows "\<exists>d' as'. dereg_loop param tmp prev d = Some (Inr d') \<and>
    cseg (cells d') (dhead d') (ks @ as') None \<and> set as' \<subseteq> set as \<and> distinct as' \<and>
    map (reg_of (cells d')) as' = map Some (filter (\<lambda>r. snd r \<noteq> param) rs) \<and>
    (\<forall>k \<in> set (ks @ as'). reg_of (cells d') k = reg_of (cells d) k) \<and>
    (\<forall>x \<in> set as - set as'. cells d' x = None) \<and>
    (\<forall>x. x \<notin> set (ks @ as) \<longrightarrow> cells d' x = cells d x) \<and>
    listener_list.more d' = listener_list.more d \<and> as' = kept param as rs"
  using assms
proof (induction as arbitrary: ks tmp prev d rs)
  case Nil
  then show ?case by (subst dereg_loop.simps) auto
next
  case (Cons a as)
  obtain c where tmp: "tmp = Some a" and c: "cells d a = Some c"
    and nxt: "cseg (cells d) (cnext c) as None"
    using Cons.prems(2) by (auto split: option.splits)
  obtain ev rs' where rs: "rs = (ev, cobj c) # rs'" and m: "map (reg_of (cells d)) as = map Some rs'"
    using Cons.prems(5) c by (cases rs) (auto simp: reg_of_def[of _ a])
  show ?case
  proof (cases "cobj c = param")
    case False
    have sg: "cseg (cells d) (dhead d) (ks @ [a]) (cnext c)" using Cons.prems(1) tmp c by auto
    have "distinct ((ks @ [a]) @ as)" using Cons.prems(3) by auto
    from Cons.IH[OF sg nxt this _ m, of tmp] tmp
    obtain d' as' where d': "dereg_loop param (cnext c) tmp d = Some (Inr d')"
      "cseg (cells d') (dhead d') ((ks @ [a]) @ as') None" "set as' \<subseteq> set as" "distinct as'"
      "map (reg_of (cells d')) as' = map Some (filter (\<lambda>r. snd r \<noteq> param) rs')"
      "\<forall>k \<in> set ((ks @ [a]) @ as'). reg_of (cells d') k = reg_of (cells d) k"
      "\<forall>x \<in> set as - set as'. cells d' x = None"
      "\<forall>x. x \<notin> set ((ks @ [a]) @ as) \<longrightarrow> cells d' x = cells d x"
      "listener_list.more d' = listener_list.more d" "as' = kept param as rs'" by auto
    have "a \<notin> set as'" using d'(3) Cons.prems(3) by auto
    moreover have "dereg_loop param tmp prev d = Some (Inr d')"
      using d'(1) False c tmp by (subst dereg_loop.simps) simp
    moreover have "reg_of (cells d') a = Some (ev, cobj c)"
      using d'(6) Cons.prems(5) rs by simp
    ultimately show ?thesis using d'(2-) False rs
      by (intro exI[of _ d'] exI[of _ "a # as'"]) auto
  next
    case True
    obtain d1 where d1: "unlink a (cnext c) prev d = Inr d1" "cells d1 a = Some c"
      "cseg (cells d1) (dhead d1) ks (cnext c)" "cseg (cells d1) (cnext c) as None"
      "reg_of (cells d1) = reg_of (cells d)" "listener_list.more d1 = listener_list.more d"
      "\<forall>x. x \<notin> set ks \<longrightarrow> cells d1 x = cells d x"
    proof (cases ks rule: rev_cases)
      case Nil
      then show ?thesis using that[of "d\<lparr>dhead := cnext c\<rparr>"] Cons.prems(1) tmp c nxt
        by (auto simp: unlink_def)
    next
      case (snoc bs k)
      obtain ck where ck: "cells d k = Some ck"
        using cseg_live[OF Cons.prems(1), of k] snoc by auto
      let ?d1 = "d\<lparr>cells := (cells d)(k \<mapsto> ck\<lparr>cnext := cnext c\<rparr>)\<rparr>"
      have "k \<noteq> a" "k \<notin> set as" using Cons.prems(3) snoc by auto
      moreover have "dhead d \<noteq> Some a" using Cons.prems(1,3) snoc by (cases bs) auto
      moreover have "prev = Some k" using Cons.prems(4) snoc by auto
      moreover have "cseg (cells ?d1) (dhead d) ks (cnext c)"
        using cseg_relink[of "cells d" "dhead d" bs k tmp ck "cnext c"] Cons.prems(1,3) snoc ck by auto
      ultimately show ?thesis using that[of ?d1] c nxt ck snoc by (auto simp: unlink_def)
    qed
    let ?d2 = "d1\<lparr>cells := (cells d1)(a := None)\<rparr>"
    have a: "a \<notin> set ks" "a \<notin> set as" using Cons.prems(3) by auto
    have sg: "cseg (cells ?d2) (dhead ?d2) ks (cnext c)" "cseg (cells ?d2) (cnext c) as None"
      "distinct (ks @ as)" "map (reg_of (cells ?d2)) as = map Some rs'"
      using d1 a m Cons.prems(3) by auto
    from Cons.IH[OF sg(1,2,3) Cons.prems(4) sg(4)]
    obtain d' as' where d': "dereg_loop param (cnext c) prev ?d2 = Some (Inr d')"
      "cseg (cells d') (dhead d') (ks @ as') None" "set as' \<subseteq> set as" "distinct as'"
      "map (reg_of (cells d')) as' = map Some (filter (\<lambda>r. snd r \<noteq> param) rs')"
      "\<forall>k \<in> set (ks @ as'). reg_of (cells d') k = reg_of (cells ?d2) k"
      "\<forall>x \<in> set as - set as'. cells d' x = None"
      "\<forall>x. x \<notin> set (ks @ as) \<longrightarrow> cells d' x = cells ?d2 x"
      "listener_list.more d' = listener_list.more ?d2" "as' = kept param as rs'" by blast
    have "dereg_loop param tmp prev d = Some (Inr d')"
      using d'(1) d1(1,2) True c tmp by (subst dereg_loop.simps) simp
    moreover have "cells d' a = None" using d'(8) a by simp
    moreover have "\<forall>k \<in> set (ks @ as'). reg_of (cells d') k = reg_of (cells d) k"
    proof
      fix k
      assume k: "k \<in> set (ks @ as')"
      then have "k \<noteq> a" using a d'(3) by auto
      then show "reg_of (cells d') k = reg_of (cells d) k" using d'(6) k d1(5) by simp
    qed
    ultimately show ?thesis using d' d1 True rs a
      by (intro exI[of _ d'] exI[of _ as']) auto
  qed
qed

lemma deregistr_regs_at:
  assumes "regs_at d as rs"
  shows "\<exists>d' as'. deregistr param d = Some (Inr (IPACM_SUCCESS, d')) \<and>
    regs_at d' as' (filter (\<lambda>r. snd r \<noteq> param) rs) \<and>
    (\<forall>a \<in> set as - set as'. cells d' a = None) \<and> set as' \<subseteq> set as \<and>
    (\<forall>a \<in> set as'. reg_of (cells d') a = reg_of (cells d) a) \<and>
    listener_list.more d' = listener_list.more d \<and> as' = kept param as rs"
  using dereg_loop_spec[of d "[]" "dhead d" as "dhead d" rs param] assms
  by (auto simp: regs_at_def deregistr_def)

lemma deregistr_regs:
  assumes "regs d rs"
  shows "\<exists>d'. deregistr param d = Some (Inr (IPACM_SUCCESS, d')) \<and>
    regs d' (filter (\<lambda>r. snd r \<noteq> param) rs)"
  using assms deregistr_regs_at[of d _ rs param] unfolding regs_def by blast

lemma registr_regs:
  assumes "regs d rs" "cells d a = None"
  shows "\<exists>d'. registr (Some a) ev obj d = Some (Inr (IPACM_SUCCESS, d')) \<and> regs d' (rs @ [(ev, obj)])"
  using assms registr_regs_at[of d _ rs a ev obj] unfolding regs_def by blast

section \<open>The registration contract\<close>

datatype ('c, 'k, 'o) reg_op = Reg 'c 'k 'o | Dereg 'o

text \<open>A script of registrations (each offers a cell, and is skipped unless the cell is free) and
  deregistrations; the result lists the operations that were carried out.\<close>

fun run_regs ::
  "('c \<Rightarrow> 'k \<Rightarrow> 'o \<Rightarrow> 'd \<Rightarrow> (fault + 'd) option) \<Rightarrow> ('o \<Rightarrow> 'd \<Rightarrow> (fault + 'd) option) \<Rightarrow>
   ('c \<Rightarrow> 'd \<Rightarrow> bool) \<Rightarrow> ('c, 'k, 'o) reg_op list \<Rightarrow> 'd \<Rightarrow>
   (fault + ('c, 'k, 'o) reg_op list \<times> 'd) option" where
  "run_regs reg dereg fresh [] d = Some (Inr ([], d))"
| "run_regs reg dereg fresh (op # ops) d =
     (case op of
        Reg c k ob \<Rightarrow>
          if fresh c d then
            (case reg c k ob d of
               None \<Rightarrow> None | Some (Inl e) \<Rightarrow> Some (Inl e)
             | Some (Inr d') \<Rightarrow>
                 map_option (map_sum id (\<lambda>(done, d''). (op # done, d''))) (run_regs reg dereg fresh ops d'))
          else run_regs reg dereg fresh ops d
      | Dereg ob \<Rightarrow>
          (case dereg ob d of
             None \<Rightarrow> None | Some (Inl e) \<Rightarrow> Some (Inl e)
           | Some (Inr d') \<Rightarrow>
               map_option (map_sum id (\<lambda>(done, d''). (op # done, d''))) (run_regs reg dereg fresh ops d')))"

text \<open>The abstract registry: a list of (event, listener) pairs.\<close>

fun reg_spec :: "('c, 'k, 'o) reg_op list \<Rightarrow> ('k \<times> 'o) list \<Rightarrow> ('k \<times> 'o) list" where
  "reg_spec [] rs = rs"
| "reg_spec (Reg c k ob # ops) rs = reg_spec ops (rs @ [(k, ob)])"
| "reg_spec (Dereg ob # ops) rs = reg_spec ops (filter (\<lambda>r. snd r \<noteq> ob) rs)"

locale listener_registry =
  fixes init :: "'d"
    and reg :: "'c \<Rightarrow> 'k \<Rightarrow> 'o \<Rightarrow> 'd \<Rightarrow> (fault + 'd) option"
    and dereg :: "'o \<Rightarrow> 'd \<Rightarrow> (fault + 'd) option"
    and fresh :: "'c \<Rightarrow> 'd \<Rightarrow> bool"
    and rep :: "'d \<Rightarrow> ('k \<times> 'o) list \<Rightarrow> bool"
  assumes rep_init: "rep init []"
    and reg_rep: "rep d rs \<Longrightarrow> fresh c d \<Longrightarrow> \<exists>d'. reg c k ob d = Some (Inr d') \<and> rep d' (rs @ [(k, ob)])"
    and dereg_rep: "rep d rs \<Longrightarrow> \<exists>d'. dereg ob d = Some (Inr d') \<and> rep d' (filter (\<lambda>r. snd r \<noteq> ob) rs)"
begin

lemma run_regs_rep:
  "rep d rs \<Longrightarrow> \<exists>done d'. run_regs reg dereg fresh ops d = Some (Inr (done, d')) \<and> rep d' (reg_spec done rs)"
proof (induction ops arbitrary: d rs)
  case Nil
  then show ?case by simp
next
  case (Cons op ops)
  show ?case
  proof (cases op)
    case (Reg c k ob)
    show ?thesis
    proof (cases "fresh c d")
      case True
      obtain d1 where d1: "reg c k ob d = Some (Inr d1)" "rep d1 (rs @ [(k, ob)])"
        using reg_rep[OF Cons.prems True] by blast
      with Cons.IH[OF d1(2)] Reg True show ?thesis by auto
    next
      case False
      with Cons.IH[OF Cons.prems] Reg show ?thesis by simp
    qed
  next
    case (Dereg ob)
    obtain d1 where d1: "dereg ob d = Some (Inr d1)" "rep d1 (filter (\<lambda>r. snd r \<noteq> ob) rs)"
      using dereg_rep[OF Cons.prems] by blast
    with Cons.IH[OF d1(2)] Dereg show ?thesis by auto
  qed
qed

lemma run_regs_init:
  "\<exists>done d'. run_regs reg dereg fresh ops init = Some (Inr (done, d')) \<and> rep d' (reg_spec done [])"
  by (rule run_regs_rep[OF rep_init])

end

definition reg_cell :: "addr \<Rightarrow> 'k \<Rightarrow> listener \<Rightarrow> ('k, 'm) listener_list_scheme \<Rightarrow> (fault + ('k, 'm) listener_list_scheme) option"
  where "reg_cell a ev obj d = map_option (map_sum id snd) (registr (Some a) ev obj d)"

definition dereg_cell :: "listener \<Rightarrow> ('k, 'm) listener_list_scheme \<Rightarrow> (fault + ('k, 'm) listener_list_scheme) option" where
  "dereg_cell obj d = map_option (map_sum id snd) (deregistr obj d)"

definition cell_fresh :: "addr \<Rightarrow> ('k, 'm) listener_list_scheme \<Rightarrow> bool" where
  "cell_fresh a d \<longleftrightarrow> cells d a = None"

lemma list_is_registry:
  assumes "regs d0 []"
  shows "listener_registry d0 reg_cell dereg_cell cell_fresh regs"
proof unfold_locales
  show "regs d0 []" by (rule assms)
next
  fix d :: "('a, 'b) listener_list_scheme" and rs c k ob
  assume "regs d rs" "cell_fresh c d"
  then show "\<exists>d'. reg_cell c k ob d = Some (Inr d') \<and> regs d' (rs @ [(k, ob)])"
    using registr_regs[of d rs c k ob] by (auto simp: reg_cell_def cell_fresh_def)
next
  fix d :: "('a, 'b) listener_list_scheme" and rs ob
  assume "regs d rs"
  then show "\<exists>d'. dereg_cell ob d = Some (Inr d') \<and> regs d' (filter (\<lambda>r. snd r \<noteq> ob) rs)"
    using deregistr_regs[of d rs ob] by (auto simp: dereg_cell_def)
qed

interpretation disp: listener_registry dispatcher_init reg_cell dereg_cell cell_fresh regs
  by (rule list_is_registry[OF regs_init])

section \<open>Sequences of registrations\<close>

text \<open>Operations that may not return or may fault in sequence.\<close>

definition obnd :: "('e + 'a) option \<Rightarrow> ('a \<Rightarrow> ('e + 'b) option) \<Rightarrow> ('e + 'b) option" where
  "obnd m f = (case m of None \<Rightarrow> None | Some (Inl e) \<Rightarrow> Some (Inl e) | Some (Inr x) \<Rightarrow> f x)"

lemma obnd_simps [simp]: "obnd None f = None" "obnd (Some (Inl e)) f = Some (Inl e)" "obnd (Some (Inr x)) f = f x"
  by (simp_all add: obnd_def)

text \<open>A sequence of \<^verbatim>\<open>registr\<close> calls for one object, whose results are ignored.\<close>

fun registr_all :: "(nat \<Rightarrow> ptr) \<Rightarrow> nat \<Rightarrow> 'k list \<Rightarrow> listener \<Rightarrow> ('k, 'm) listener_list_scheme \<Rightarrow>
    (fault + ('k, 'm) listener_list_scheme) option" where
  "registr_all cell n [] obj d = Some (Inr d)"
| "registr_all cell n (ev # evs) obj d = obnd (registr (cell n) ev obj d) (\<lambda>(r, d). registr_all cell (Suc n) evs obj d)"

lemma registr_keeps_free:
  assumes "registr (Some a) ev obj d = Some (Inr (r, d'))" "cells d b = None" "b \<noteq> a"
  shows "cells d' b = None"
  using assms by (auto simp: registr_def Let_def split: option.splits sum.splits if_splits)

text \<open>Allocations that succeed with cells that are free.\<close>

definition cells_ok :: "(nat \<Rightarrow> ptr) \<Rightarrow> ('k, 'm) listener_list_scheme \<Rightarrow> bool" where
  "cells_ok cell d \<longleftrightarrow> inj cell \<and> (\<forall>n. \<exists>a. cell n = Some a \<and> cells d a = None)"

lemma registr_all_regs:
  assumes "regs d rs" "inj cell" "\<And>k. n \<le> k \<Longrightarrow> \<exists>a. cell k = Some a \<and> cells d a = None"
  shows "\<exists>d'. registr_all cell n evs obj d = Some (Inr d') \<and> regs d' (rs @ map (\<lambda>e. (e, obj)) evs)"
  using assms(1,3)
proof (induction evs arbitrary: d n rs)
  case (Cons ev evs)
  obtain a where a: "cell n = Some a" "cells d a = None" using Cons.prems(2)[of n] by auto
  obtain d1 where d1: "registr (Some a) ev obj d = Some (Inr (IPACM_SUCCESS, d1))" "regs d1 (rs @ [(ev, obj)])"
    using registr_regs[OF Cons.prems(1) a(2)] by blast
  have "\<exists>b. cell k = Some b \<and> cells d1 b = None" if k: "Suc n \<le> k" for k
  proof -
    obtain b where b: "cell k = Some b" "cells d b = None" using Cons.prems(2)[of k] k by auto
    have "b \<noteq> a" using a(1) b(1) k injD[OF assms(2), of n k] by auto
    then show ?thesis using b registr_keeps_free[OF d1(1) b(2)] by blast
  qed
  from Cons.IH[OF d1(2) this] show ?case using a d1 by auto
qed simp

lemma registr_all_ok:
  assumes "regs d rs" "cells_ok cell d"
  shows "\<exists>d'. registr_all cell 0 evs obj d = Some (Inr d') \<and> regs d' (rs @ map (\<lambda>e. (e, obj)) evs)"
  using registr_all_regs[OF assms(1), of cell 0] assms(2) by (auto simp: cells_ok_def)

lemma registr_all_keeps_free:
  "registr_all cell n evs obj d = Some (Inr d') \<Longrightarrow> cells d b = None \<Longrightarrow> (\<And>k. cell k \<noteq> Some b) \<Longrightarrow> cells d' b = None"
proof (induction evs arbitrary: d n)
  case (Cons ev evs)
  from Cons.prems(1) obtain r d1 where 1: "registr (cell n) ev obj d = Some (Inr (r, d1))" "registr_all cell (Suc n) evs obj d1 = Some (Inr d')"
    by (auto simp: obnd_def split: option.splits sum.splits)
  have "cells d1 b = None"
  proof (cases "cell n")
    case None
    then show ?thesis using 1(1) Cons.prems(2) by (simp add: registr_fail)
  next
    case (Some a)
    then show ?thesis using registr_keeps_free[of a ev obj d r d1 b] 1(1) Cons.prems(2,3) by (metis)
  qed
  then show ?case using Cons.IH[OF 1(2)] Cons.prems(3) by blast
qed simp

text \<open>Removing a listener that is not registered changes nothing.\<close>

lemma dereg_loop_noop:
  "cseg (cells d) tmp as None \<Longrightarrow> map (reg_of (cells d)) as = map Some rs \<Longrightarrow> param \<notin> snd ` set rs \<Longrightarrow>
   dereg_loop param tmp prev d = Some (Inr d)"
proof (induction as arbitrary: tmp prev rs)
  case Nil
  then show ?case by (simp add: dereg_loop.simps)
next
  case (Cons a as)
  obtain c x xs where c: "cells d a = Some c" "tmp = Some a" "cseg (cells d) (cnext c) as None" "rs = x # xs" "reg_of (cells d) a = Some x"
    "map (reg_of (cells d)) as = map Some xs"
    using Cons.prems by (cases rs) (auto split: option.splits)
  have "cobj c \<noteq> param" using c Cons.prems(3) by (auto simp: reg_of_def)
  then show ?case using Cons.IH[OF c(3,6), of tmp] c Cons.prems(3) by (subst dereg_loop.simps) simp
qed

lemma deregistr_noop: "regs d rs \<Longrightarrow> param \<notin> snd ` set rs \<Longrightarrow> deregistr param d = Some (Inr (IPACM_SUCCESS, d))"
  using dereg_loop_noop[of d "dhead d" _ rs param "dhead d"] by (auto simp: deregistr_def regs_def regs_at_def)

section \<open>Dispatch\<close>

lemma process_loop_skip:
  assumes "cseg (cells d) tmp as q" "\<forall>a \<in> set as. \<forall>c. cells d a = Some c \<longrightarrow> cev c \<noteq> event dat"
  shows "process_loop cb dat tmp (w, d) = process_loop cb dat q (w, d)"
  using assms
proof (induction as arbitrary: tmp)
  case Nil
  then show ?case by simp
next
  case (Cons a as)
  obtain c where c: "tmp = Some a" "cells d a = Some c" "cseg (cells d) (cnext c) as q"
    using Cons.prems(1) by (auto split: option.splits)
  with Cons show ?case by (auto simp: process_loop.simps[of cb dat "Some a"])
qed

text \<open>
  What a callback may do to the dispatcher, for the event \<open>ev\<close> with payload \<open>p\<close>: register new listeners for other events, as the
  interface manager does when it opens an instance, and deregister its own listener, as an instance does that deletes itself;
  \<open>f l w\<close> is the state the callback of \<open>l\<close> leaves and whether \<open>l\<close> deregistered. \<open>J\<close> is what the callbacks keep of their own state and the registrations.
\<close>

definition callbacks_ok :: "('w \<Rightarrow> (ipa_cm_event_id \<times> listener) list \<Rightarrow> bool) \<Rightarrow> (listener \<Rightarrow> 'w \<Rightarrow> 'w \<times> bool) \<Rightarrow>
    ipa_cm_event_id \<Rightarrow> ptr \<Rightarrow> 'w event_callback \<Rightarrow> bool" where
  "callbacks_ok J f ev p cb \<longleftrightarrow>
     (\<forall>l w d as rs. regs_at d as rs \<and> J w rs \<and> (ev, l) \<in> set rs \<longrightarrow>
        (\<exists>d' bs ns. cb l ev p (w, d) = Inr (fst (f l w), d') \<and>
           regs_at d' ((if snd (f l w) then kept l as rs else as) @ bs) ((if snd (f l w) then filter (\<lambda>r. snd r \<noteq> l) rs else rs) @ ns) \<and>
           J (fst (f l w)) ((if snd (f l w) then filter (\<lambda>r. snd r \<noteq> l) rs else rs) @ ns) \<and>
           (\<forall>r \<in> set ns. fst r \<noteq> ev \<and> snd r \<notin> snd ` set rs) \<and> ipacm_event_stats d' = ipacm_event_stats d))"

text \<open>
  The walk over a list of registrations: the state at the end, the listeners called and those that deregistered. There is no result when a
  listener deregisters while the registration after the current one is also its own.
\<close>

function dispatch :: "(listener \<Rightarrow> 'w \<Rightarrow> 'w \<times> bool) \<Rightarrow> 'k \<Rightarrow> ('k \<times> listener) list \<Rightarrow> 'w \<Rightarrow> ('w \<times> listener list \<times> listener list) option" where
  "dispatch f ev [] w = Some (w, [], [])"
| "dispatch f ev ((e, l) # rs) w =
     (if e \<noteq> ev then dispatch f ev rs w
      else if snd (f l w) \<and> rs \<noteq> [] \<and> snd (hd rs) = l then None
      else map_option (\<lambda>(w', called, gone). (w', l # called, (if snd (f l w) then l # gone else gone)))
        (dispatch f ev (if snd (f l w) then filter (\<lambda>r. snd r \<noteq> l) rs else rs) (fst (f l w))))"
  by pat_completeness auto
termination
  by (relation "measure (\<lambda>(f, ev, rs, w). length rs)") (auto simp: less_Suc_eq_le)

lemma dispatch_gone: "dispatch f ev rs w = Some (w', called, gone) \<Longrightarrow> set gone \<subseteq> snd ` set rs"
  by (induction f ev rs w arbitrary: w' called gone rule: dispatch.induct) (force split: if_splits)+

definition cell_start :: "addr list \<Rightarrow> ptr" where
  "cell_start as = (case as of [] \<Rightarrow> None | a # _ \<Rightarrow> Some a)"

lemma cell_start_simps [simp]: "cell_start [] = None" "cell_start (a # as) = Some a"
  by (simp_all add: cell_start_def)

lemma cseg_start: "cseg h p as None \<Longrightarrow> p = cell_start as"
  by (cases as) auto

lemma regs_at_length: "regs_at d as rs \<Longrightarrow> length as = length rs"
  by (metis regs_at_def length_map)

lemma regs_at_stats [simp]: "regs_at (d\<lparr>ipacm_event_stats := st\<rparr>) as rs = regs_at d as rs"
  by (simp add: regs_at_def)

text \<open>The part of the list from the current cell on.\<close>

lemma regs_at_split:
  assumes "regs_at d (xs @ ys) (us @ vs)" "length xs = length us"
  shows "cseg (cells d) (cell_start ys) ys None" "map (reg_of (cells d)) ys = map Some vs"
proof -
  obtain r where "cseg (cells d) r ys None" using assms(1) by (auto simp: regs_at_def)
  then show "cseg (cells d) (cell_start ys) ys None" using cseg_start by fastforce
  show "map (reg_of (cells d)) ys = map Some vs" using assms by (auto simp: regs_at_def append_eq_append_conv)
qed

lemma process_loop_rest:
  assumes "regs_at d (xs @ zs) (us @ ts)" "length xs = length us" "\<forall>r \<in> set ts. fst r \<noteq> event dat"
  shows "process_loop cb dat (cell_start zs) (w, d) = Some (Inr (w, d))"
proof -
  note z = regs_at_split[OF assms(1,2)]
  have "\<forall>a \<in> set zs. \<forall>c. cells d a = Some c \<longrightarrow> cev c \<noteq> event dat"
  proof (intro ballI allI impI)
    fix a c
    assume "a \<in> set zs" "cells d a = Some c"
    then have "Some (cev c, cobj c) \<in> Some ` set ts"
      using z(2) by (metis (no_types, lifting) image_eqI list.set_map option.simps(9) reg_of_def)
    then show "cev c \<noteq> event dat" using assms(3) by auto
  qed
  then show ?thesis using process_loop_skip[OF z(1)] by (simp add: process_loop.simps[of _ _ None])
qed

lemma process_loop_dispatch:
  assumes cb: "callbacks_ok J f (event dat) (evt_data dat) cb"
    and "dispatch f (event dat) vs w = Some (w', called, gone)" and "regs_at d (xs @ ys @ zs) (us @ vs @ ts)"
    and "length xs = length us" "length ys = length vs" and "J w (us @ vs @ ts)" and "\<forall>r \<in> set ts. fst r \<noteq> event dat"
    and "snd ` set ts \<inter> snd ` set vs = {}" and "tmp = cell_start (ys @ zs) \<or> ys = [] \<and> tmp = None"
  shows "\<exists>d' ns. process_loop cb dat tmp (w, d) = Some (Inr (w', d')) \<and>
     regs d' (filter (\<lambda>r. snd r \<notin> set gone) (us @ vs) @ ts @ ns) \<and> (\<forall>r \<in> set ns. fst r \<noteq> event dat) \<and>
     ipacm_event_stats d' = (ipacm_event_stats d)(event dat := ipacm_event_stats d (event dat) + of_nat (length called))"
  using assms(2-)
proof (induction "length vs" arbitrary: vs w called gone d xs ys zs us ts tmp rule: less_induct)
  case less
  show ?case
  proof (cases vs)
    case Nil
    then have ys: "ys = []" and res: "w' = w" "called = []" "gone = []" using less.prems(1,4) by auto
    have "process_loop cb dat tmp (w, d) = Some (Inr (w, d))"
      using less.prems(8) process_loop_rest[of d xs zs us ts dat cb w] less.prems(2,3,6) ys Nil
      by (auto simp: process_loop.simps[of _ _ None])
    moreover have "regs d (us @ ts)" using less.prems(2) Nil by (auto simp: regs_def)
    ultimately show ?thesis using res Nil by (intro exI[of _ d] exI[of _ "[]"]) auto
  next
    case (Cons v vs')
    obtain e l where v: "v = (e, l)" by (cases v)
    obtain a ys' where ys: "ys = a # ys'" "length ys' = length vs'" using less.prems(4) Cons by (cases ys) auto
    have tmp: "tmp = Some a" using less.prems(8) ys by auto
    note sp = regs_at_split[OF less.prems(2,3)]
    obtain c where c: "cells d a = Some c" "cev c = e" "cobj c = l" "cnext c = cell_start (ys' @ zs)"
    proof -
      have "cseg (cells d) (Some a) (a # (ys' @ zs)) None" using sp(1) ys(1) by (simp del: cseg_append)
      then obtain c where c: "cells d a = Some c" "cseg (cells d) (cnext c) (ys' @ zs) None" by (auto split: option.splits simp del: cseg_append)
      then show ?thesis using that[of c] sp(2) ys Cons v cseg_start[OF c(2)] by (simp add: reg_of_def)
    qed
    show ?thesis
    proof (cases "e = event dat")
      case False
      have "process_loop cb dat tmp (w, d) = process_loop cb dat (cnext c) (w, d)"
        using tmp c False by (subst process_loop.simps) simp
      moreover have "dispatch f (event dat) vs' w = Some (w', called, gone)" using less.prems(1) Cons v False by simp
      ultimately show ?thesis
        using less.hyps[of vs' w called gone d "xs @ [a]" ys' zs "us @ [v]" ts "cnext c"] less.prems(2-7) Cons ys c v by auto
    next
      case True
      let ?d1 = "d\<lparr>ipacm_event_stats := (ipacm_event_stats d)(event dat := ipacm_event_stats d (event dat) + 1)\<rparr>"
      let ?gone = "snd (f l w)" and ?w = "fst (f l w)" and ?rs = "us @ vs @ ts" and ?as = "xs @ ys @ zs"
      have "(event dat, l) \<in> set ?rs" using Cons v True by simp
      then obtain d2 bs ns where d2: "cb l (event dat) (evt_data dat) (w, ?d1) = Inr (?w, d2)"
          "regs_at d2 ((if ?gone then kept l ?as ?rs else ?as) @ bs) ((if ?gone then filter (\<lambda>r. snd r \<noteq> l) ?rs else ?rs) @ ns)"
          "J ?w ((if ?gone then filter (\<lambda>r. snd r \<noteq> l) ?rs else ?rs) @ ns)"
          "\<forall>r \<in> set ns. fst r \<noteq> event dat \<and> snd r \<notin> snd ` set ?rs" "ipacm_event_stats d2 = ipacm_event_stats ?d1"
        using cb[unfolded callbacks_ok_def, rule_format, of ?d1 ?as ?rs w l] less.prems(2,5) by auto
      have step: "process_loop cb dat tmp (w, d) = process_loop cb dat (cnext c) (?w, d2)"
        using tmp c True d2(1) by (subst process_loop.simps) simp
      obtain called' gone' where rec: "dispatch f (event dat) (if ?gone then filter (\<lambda>r. snd r \<noteq> l) vs' else vs') ?w = Some (w', called', gone')"
          "called = l # called'" "gone = (if ?gone then l # gone' else gone')" and next_other: "?gone \<Longrightarrow> vs' \<noteq> [] \<Longrightarrow> snd (hd vs') \<noteq> l"
        using less.prems(1) Cons v True by (auto split: if_splits)
      have stats: "(ipacm_event_stats d2)(event dat := ipacm_event_stats d2 (event dat) + of_nat (length called')) =
          (ipacm_event_stats d)(event dat := ipacm_event_stats d (event dat) + of_nat (length called))"
        using d2(5) rec(2) by (simp add: add.assoc)
      have lz: "length zs = length ts" using regs_at_length[OF less.prems(2)] less.prems(3,4) by simp
      show ?thesis
      proof (cases ?gone)
        case False
        have "cnext c = cell_start (ys' @ zs @ bs) \<or> ys' = [] \<and> cnext c = None" using c(4) by (cases ys'; cases zs) auto
        moreover have "regs_at d2 ((xs @ [a]) @ ys' @ zs @ bs) ((us @ [v]) @ vs' @ ts @ ns)" "J ?w ((us @ [v]) @ vs' @ ts @ ns)"
          using d2(2,3) False Cons ys(1) by simp_all
        moreover have "\<forall>r \<in> set (ts @ ns). fst r \<noteq> event dat" "snd ` set (ts @ ns) \<inter> snd ` set vs' = {}"
          using less.prems(6,7) d2(4) Cons by auto
        moreover have "length vs' < length vs" "length (xs @ [a]) = length (us @ [v])" using Cons less.prems(3) by simp_all
        moreover have "dispatch f (event dat) vs' ?w = Some (w', called', gone')" using rec(1) False by simp
        ultimately obtain d' ms where d': "process_loop cb dat (cnext c) (?w, d2) = Some (Inr (w', d'))"
            "regs d' (filter (\<lambda>r. snd r \<notin> set gone') ((us @ [v]) @ vs') @ (ts @ ns) @ ms)" "\<forall>r \<in> set ms. fst r \<noteq> event dat"
            "ipacm_event_stats d' = (ipacm_event_stats d2)(event dat := ipacm_event_stats d2 (event dat) + of_nat (length called'))"
          using less.hyps[of vs' ?w called' gone' d2 "xs @ [a]" ys' "zs @ bs" "us @ [v]" "ts @ ns" "cnext c"] ys(2) by auto
        then show ?thesis using step stats rec(3) False Cons d2(4)
          by (intro exI[of _ d'] exI[of _ "ns @ ms"]) auto
      next
        case drop: True
        have nt: "l \<notin> snd ` set ts" using less.prems(7) Cons v by auto
        have k: "kept l ?as ?rs = kept l xs us @ kept l ys' vs' @ zs"
          using less.prems(3) ys lz nt Cons v by (simp add: kept_all)
        have fl: "filter (\<lambda>r. snd r \<noteq> l) ts = ts" using nt by (force simp: filter_id_conv)
        have "cnext c = cell_start (kept l ys' vs' @ zs @ bs) \<or> kept l ys' vs' = [] \<and> cnext c = None"
          using c(4) next_other[OF drop] ys(2) by (cases ys'; cases vs'; cases zs) auto
        moreover have "length (filter (\<lambda>r. snd r \<noteq> l) vs') < length vs" using Cons by (simp add: less_Suc_eq_le)
        moreover have "length (kept l xs us) = length (filter (\<lambda>r. snd r \<noteq> l) us)" "length (kept l ys' vs') = length (filter (\<lambda>r. snd r \<noteq> l) vs')"
          using less.prems(3) ys(2) by (simp_all add: length_kept)
        moreover have "snd ` set (ts @ ns) \<inter> snd ` set (filter (\<lambda>r. snd r \<noteq> l) vs') = {}" using less.prems(7) d2(4) Cons by auto
        moreover have "regs_at d2 (kept l xs us @ kept l ys' vs' @ zs @ bs) (filter (\<lambda>r. snd r \<noteq> l) us @ filter (\<lambda>r. snd r \<noteq> l) vs' @ ts @ ns)"
          "J ?w (filter (\<lambda>r. snd r \<noteq> l) us @ filter (\<lambda>r. snd r \<noteq> l) vs' @ ts @ ns)" using d2(2,3) drop k fl Cons v by simp_all
        moreover have "\<forall>r \<in> set (ts @ ns). fst r \<noteq> event dat" using less.prems(6) d2(4) by auto
        ultimately obtain d' ms where d': "process_loop cb dat (cnext c) (?w, d2) = Some (Inr (w', d'))"
            "regs d' (filter (\<lambda>r. snd r \<notin> set gone') (filter (\<lambda>r. snd r \<noteq> l) us @ filter (\<lambda>r. snd r \<noteq> l) vs') @ (ts @ ns) @ ms)"
            "\<forall>r \<in> set ms. fst r \<noteq> event dat"
            "ipacm_event_stats d' = (ipacm_event_stats d2)(event dat := ipacm_event_stats d2 (event dat) + of_nat (length called'))"
          using less.hyps[of "filter (\<lambda>r. snd r \<noteq> l) vs'" ?w called' gone' d2 "kept l xs us" "kept l ys' vs'" "zs @ bs"
              "filter (\<lambda>r. snd r \<noteq> l) us" "ts @ ns" "cnext c"] rec(1) drop by auto
        have "filter (\<lambda>r. snd r \<notin> set gone') (filter (\<lambda>r. snd r \<noteq> l) us @ filter (\<lambda>r. snd r \<noteq> l) vs') = filter (\<lambda>r. snd r \<notin> set gone) (us @ vs)"
          using rec(3) drop Cons v by (auto intro!: filter_cong)
        then show ?thesis using d' step stats d2(4) by (intro exI[of _ d'] exI[of _ "ns @ ms"]) auto
      qed
    qed
  qed
qed

text \<open>A cell of the deregistered listener is gone afterwards.\<close>

lemma deregistr_frees:
  assumes "regs_at d as rs" "i < length as" "snd (rs ! i) = l"
  shows "\<exists>d'. deregistr l d = Some (Inr (IPACM_SUCCESS, d')) \<and> cells d' (as ! i) = None"
proof -
  obtain d' as' where d': "deregistr l d = Some (Inr (IPACM_SUCCESS, d'))"
    "regs_at d' as' (filter (\<lambda>r. snd r \<noteq> l) rs)" "\<forall>a \<in> set as - set as'. cells d' a = None"
    "\<forall>a \<in> set as'. reg_of (cells d') a = reg_of (cells d) a"
    using deregistr_regs_at[OF assms(1), of l] by blast
  have "reg_of (cells d) (as ! i) = Some (rs ! i)"
    using assms by (metis (no_types, lifting) regs_at_def length_map nth_map)
  moreover have "\<forall>a \<in> set as'. \<exists>r. reg_of (cells d') a = Some r \<and> snd r \<noteq> l"
  proof
    fix a
    assume "a \<in> set as'"
    then have "reg_of (cells d') a \<in> Some ` set (filter (\<lambda>r. snd r \<noteq> l) rs)"
      using d'(2) by (metis (no_types, lifting) regs_at_def image_eqI list.set_map)
    then show "\<exists>r. reg_of (cells d') a = Some r \<and> snd r \<noteq> l" by auto
  qed
  ultimately have "as ! i \<notin> set as'" using assms(3) d'(4) by fastforce
  then show ?thesis using d' assms(2) by auto
qed

section \<open>Properties\<close>

text \<open>C4. The registration list refines an abstract list of (event, listener) pairs: every script of
  \<open>registr\<close> and \<open>deregistr\<close> calls from the empty dispatcher terminates without touching freed memory;
  \<open>registr\<close> appends its pair at the end and \<open>deregistr\<close> removes exactly the pairs of its listener and
  keeps the order of the others.\<close>

theorem dispatcher_refines_registry:
  "\<exists>done d'. run_regs reg_cell dereg_cell cell_fresh ops dispatcher_init = Some (Inr (done, d')) \<and>
     regs d' (reg_spec done [])"
  by (rule disp.run_regs_init)

text \<open>C5. \<open>ProcessEvt\<close> calls exactly the listeners registered for the event, once per registration and
  in the order of registration, also when callbacks register new listeners for other events or deregister their own listener: a listener
  that deregistered is not called again, the walk terminates, increments the event's counter (modulo \<open>2^32\<close>) by the
  number of calls and frees the payload; afterwards the registrations are the old ones without those of the listeners that deregistered, followed by new ones
  for other events. The walk needs that no listener deregisters while the next registration in the list is also its own (\<open>dispatch\<close> has a result).\<close>

theorem ProcessEvt_dispatches:
  assumes "regs d rs" and "J w rs" and "callbacks_ok J f (event dat) (evt_data dat) cb"
    and "dispatch f (event dat) rs w = Some (w', called, gone)"
  shows "\<exists>d' ns. ProcessEvt cb dat (w, d) = Some (Inr ((w', d'), evt_data dat)) \<and>
     regs d' (filter (\<lambda>r. snd r \<notin> set gone) rs @ ns) \<and> (\<forall>r \<in> set ns. fst r \<noteq> event dat) \<and>
     ipacm_event_stats d' = (ipacm_event_stats d)(event dat := ipacm_event_stats d (event dat) + of_nat (length called))"
proof -
  from assms(1) obtain as where as: "regs_at d as rs" by (auto simp: regs_def)
  then have "dhead d = cell_start as" using cseg_start by (auto simp: regs_at_def)
  moreover obtain d' ns where "process_loop cb dat (dhead d) (w, d) = Some (Inr (w', d'))"
      "regs d' (filter (\<lambda>r. snd r \<notin> set gone) rs @ ns)" "\<forall>r \<in> set ns. fst r \<noteq> event dat"
      "ipacm_event_stats d' = (ipacm_event_stats d)(event dat := ipacm_event_stats d (event dat) + of_nat (length called))"
    using process_loop_dispatch[OF assms(3,4), of d "[]" as "[]" "[]" "[]" "dhead d"] as assms(2) \<open>dhead d = cell_start as\<close> regs_at_length[OF as] by auto
  ultimately show ?thesis by (intro exI[of _ d'] exI[of _ ns]) (simp add: ProcessEvt_def)
qed

definition ex_disp :: dispatcher where
  "ex_disp = \<lparr>dhead = Some 1, cells =
     [1 \<mapsto> \<lparr>cev = IPA_LINK_DOWN_EVENT, cobj = 10, cnext = Some 2\<rparr>,
      2 \<mapsto> \<lparr>cev = IPA_HANDLE_WAN_UP, cobj = 10, cnext = Some 3\<rparr>,
      3 \<mapsto> \<lparr>cev = IPA_LINK_DOWN_EVENT, cobj = 20, cnext = None\<rparr>],
     ipacm_event_stats = (\<lambda>_. 0)\<rparr>"

lemma ex_disp_regs:
  "regs ex_disp [(IPA_LINK_DOWN_EVENT, 10), (IPA_HANDLE_WAN_UP, 10), (IPA_LINK_DOWN_EVENT, 20)]"
  by (auto simp: regs_def regs_at_def ex_disp_def reg_of_def intro!: exI[of _ "[1, 2, 3]"])

text \<open>Listener 10 creates listener 30, which registers for addresses, and listener 20 deletes itself.\<close>

definition ex_callback :: "listener list event_callback" where
  "ex_callback l e p s =
     (if l = 20 then (case deregistr l (snd s) of Some (Inr (_, d')) \<Rightarrow> Inr (fst s @ [l], d') | _ \<Rightarrow> Inl UseAfterFree)
      else if l = 10 \<and> 10 \<notin> set (fst s)
      then (case registr (if cells (snd s) 7 = None then Some 7 else None) IPA_ADDR_ADD_EVENT 30 (snd s) of
              Some (Inr (_, d')) \<Rightarrow> Inr (fst s @ [l], d') | _ \<Rightarrow> Inl UseAfterFree)
      else Inr (fst s @ [l], snd s))"

lemma ex_callbacks_ok:
  "callbacks_ok (\<lambda>w rs. 10 \<notin> set w \<longrightarrow> 30 \<notin> snd ` set rs) (\<lambda>l w. (w @ [l], l = 20)) IPA_LINK_DOWN_EVENT p ex_callback"
  unfolding callbacks_ok_def
proof (intro allI impI, elim conjE)
  fix l and w :: "listener list" and d :: dispatcher and as rs
  assume r: "regs_at d as rs" and inv: "10 \<notin> set w \<longrightarrow> (30::nat) \<notin> snd ` set rs" and m: "(IPA_LINK_DOWN_EVENT, l) \<in> set rs"
  let ?f = "\<lambda>l w. (w @ [l], l = (20::nat))"
  let ?rs = "if snd (?f l w) then filter (\<lambda>r. snd r \<noteq> l) rs else rs" and ?as = "if snd (?f l w) then kept l as rs else as"
  have stats: "ipacm_event_stats d' = ipacm_event_stats d" if "listener_list.more d' = listener_list.more d" for d' :: dispatcher
    using that by (cases d, cases d') simp
  consider (drop) "l = 20" | (reg) "l = 10" "10 \<notin> set w" "cells d 7 = None" | (other) "l \<noteq> 20" "\<not> (l = 10 \<and> 10 \<notin> set w \<and> cells d 7 = None)"
    by (cases "l = 20"; cases "l = 10 \<and> 10 \<notin> set w \<and> cells d 7 = None") auto
  then show "\<exists>d' bs ns. ex_callback l IPA_LINK_DOWN_EVENT p (w, d) = Inr (fst (?f l w), d') \<and> regs_at d' (?as @ bs) (?rs @ ns) \<and>
      (10 \<notin> set (fst (?f l w)) \<longrightarrow> 30 \<notin> snd ` set (?rs @ ns)) \<and>
      (\<forall>r \<in> set ns. fst r \<noteq> IPA_LINK_DOWN_EVENT \<and> snd r \<notin> snd ` set rs) \<and> ipacm_event_stats d' = ipacm_event_stats d"
  proof cases
    case drop
    obtain d' where d': "deregistr l d = Some (Inr (IPACM_SUCCESS, d'))" "regs_at d' (kept l as rs) (filter (\<lambda>r. snd r \<noteq> l) rs)"
      "listener_list.more d' = listener_list.more d" using deregistr_regs_at[OF r, of l] by blast
    show ?thesis using drop d'(1,2) stats[OF d'(3)] inv
      by (intro exI[of _ d'] exI[of _ "[]"]) (auto simp: ex_callback_def)
  next
    case reg
    obtain d' where d': "registr (Some 7) IPA_ADDR_ADD_EVENT 30 d = Some (Inr (IPACM_SUCCESS, d'))"
      "regs_at d' (as @ [7]) (rs @ [(IPA_ADDR_ADD_EVENT, 30)])" "listener_list.more d' = listener_list.more d"
      using registr_regs_at[OF r reg(3)] by blast
    show ?thesis using reg d'(1,2) stats[OF d'(3)] inv
      by (intro exI[of _ d'] exI[of _ "[7]"] exI[of _ "[(IPA_ADDR_ADD_EVENT, 30)]"]) (auto simp: ex_callback_def)
  next
    case other
    then show ?thesis using r inv
      by (intro exI[of _ d] exI[of _ "[]"]) (auto simp: ex_callback_def registr_fail)
  qed
qed

theorem ProcessEvt_dispatches_witness:
  "\<exists>d' ns. ProcessEvt ex_callback \<lparr>event = IPA_LINK_DOWN_EVENT, evt_data = Some 5\<rparr> ([], ex_disp) = Some (Inr (([10, 20], d'), Some 5)) \<and>
     regs d' ([(IPA_LINK_DOWN_EVENT, 10), (IPA_HANDLE_WAN_UP, 10)] @ ns) \<and> ipacm_event_stats d' IPA_LINK_DOWN_EVENT = 2"
  using ProcessEvt_dispatches[OF ex_disp_regs, of "\<lambda>w rs. 10 \<notin> set w \<longrightarrow> 30 \<notin> snd ` set rs" "[]" "\<lambda>l w. (w @ [l], l = 20)"
      "\<lparr>event = IPA_LINK_DOWN_EVENT, evt_data = Some 5\<rparr>" ex_callback "[10, 20]" "[10, 20]" "[20]"] ex_callbacks_ok[of "Some 5"]
  by (auto simp: ex_disp_def)

text \<open>C6. The walk of \<open>ProcessEvt\<close> reads freed memory when a callback deregisters its own listener (as
  the destructors of IPACM_Lan, IPACM_Wlan and IPACM_Wan do under \<open>delete this\<close>) and the next
  registration in the list belongs to the same listener: the copied \<open>next\<close> pointer then dangles.\<close>

theorem ProcessEvt_dangling_next:
  assumes "regs d (pre @ (e, l) # (e', l) # post)" "\<forall>r \<in> set pre. fst r \<noteq> e"
    and cb: "\<And>w d d' r. deregistr l d = Some (Inr (r, d')) \<Longrightarrow> cb l e p (w, d) = Inr (w, d')"
  shows "ProcessEvt cb \<lparr>event = e, evt_data = p\<rparr> (w, d) = Some (Inl UseAfterFree)"
proof -
  let ?rs = "pre @ (e, l) # (e', l) # post" and ?n = "length pre"
  let ?dat = "\<lparr>event = e, evt_data = p\<rparr>"
  from assms(1) obtain as where as: "regs_at d as ?rs" by (auto simp: regs_def)
  then have len: "length as = length ?rs" by (metis regs_at_def length_map)
  obtain as1 a b as2 where split: "as = as1 @ a # b # as2" "length as1 = ?n"
    using len by (metis append_take_drop_id add_leD1 diff_add_inverse length_Cons length_append
        length_drop length_take min.absorb2 le_add1 Suc_length_conv)
  have m: "map (reg_of (cells d)) as1 = map Some pre" "reg_of (cells d) a = Some (e, l)"
    using as split by (auto simp: regs_at_def)
  obtain ca where seg: "cseg (cells d) (dhead d) as1 (Some a)" "cells d a = Some ca"
      "cnext ca = Some b"
    using as split by (auto simp: regs_at_def split: option.splits)
  have "\<forall>x \<in> set as1. \<forall>c. cells d x = Some c \<longrightarrow> cev c \<noteq> e"
  proof (intro ballI allI impI)
    fix x c
    assume "x \<in> set as1" "cells d x = Some c"
    then have "Some (cev c, cobj c) \<in> Some ` set pre"
      using m(1) by (metis (no_types, lifting) image_eqI list.set_map option.simps(9) reg_of_def)
    then show "cev c \<noteq> e" using assms(2) by auto
  qed
  then have skip: "process_loop cb ?dat (dhead d) (w, d) = process_loop cb ?dat (Some a) (w, d)"
    by (intro process_loop_skip[OF seg(1)]) simp
  let ?d = "d\<lparr>ipacm_event_stats := (ipacm_event_stats d)(e := ipacm_event_stats d e + 1)\<rparr>"
  have "regs_at ?d as ?rs" using as by (simp add: regs_at_def)
  from deregistr_frees[OF this, of "Suc ?n" l] obtain d' where d':
      "deregistr l ?d = Some (Inr (IPACM_SUCCESS, d'))" "cells d' b = None"
    using split by (auto simp: nth_append)
  have "cev ca = e" "cobj ca = l" using m(2) seg(2) by (auto simp: reg_of_def)
  then have "process_loop cb ?dat (Some a) (w, d) = process_loop cb ?dat (Some b) (w, d')"
    using seg(2,3) cb[OF d'(1)] by (simp add: process_loop.simps[of cb ?dat "Some a"])
  also have "\<dots> = Some (Inl UseAfterFree)"
    using d'(2) by (simp add: process_loop.simps[of cb ?dat "Some b"])
  finally show ?thesis using skip by (simp add: ProcessEvt_def)
qed

definition ex_self_dereg :: "unit event_callback" where
  "ex_self_dereg l e p s =
     (case deregistr l (snd s) of Some (Inr (_, d')) \<Rightarrow> Inr (fst s, d') | _ \<Rightarrow> Inr s)"

theorem ProcessEvt_dangling_next_witness:
  "ProcessEvt ex_self_dereg \<lparr>event = IPA_LINK_DOWN_EVENT, evt_data = Some 5\<rparr> ((), ex_disp) =
     Some (Inl UseAfterFree)"
  by (rule ProcessEvt_dangling_next[of _ "[]" _ 10 IPA_HANDLE_WAN_UP "[(IPA_LINK_DOWN_EVENT, 20)]"])
    (simp_all add: ex_disp_regs ex_self_dereg_def)

end
