(* ===== verification/Ipacm_Config.thy ===== *)
theory Ipacm_Config
  imports Cmd_Queue
begin

text \<open>
  The configuration singleton \<^verbatim>\<open>IPACM_Config.h/.cpp\<close>: the interface, ALG and private-subnet tables
  built by \<open>Init\<close> from the parsed XML file, the list of NAT interfaces, the private subnets added and
  removed at run time, the resource-manager dependencies (with the ioctls they send to the kernel)
  and the extended properties. Interface names are the C strings in the fixed \<open>char\<close> arrays.
\<close>

section \<open>Data\<close>

datatype ipa_ip_type = IPA_IP_v4 | IPA_IP_v6 | IPA_IP_MAX

datatype ipacm_iface_type =
  LAN_IF | WLAN_IF | WAN_IF | VIRTUAL_IF | ETH_IF | EMBMS_IF | ODU_IF | UNKNOWN_IF

datatype ipa_rm_resource_name =
    IPA_RM_RESOURCE_Q6_PROD | IPA_RM_RESOURCE_USB_PROD | IPA_RM_RESOURCE_HSIC_PROD
  | IPA_RM_RESOURCE_WLAN_PROD | IPA_RM_RESOURCE_Q6_CONS | IPA_RM_RESOURCE_USB_CONS
  | IPA_RM_RESOURCE_WLAN_CONS | IPA_RM_RESOURCE_other nat

text \<open>The hardware clients and the routing tables the configuration names.\<close>

datatype ipa_client_type =
    IPA_CLIENT_WLAN1_PROD | IPA_CLIENT_USB_PROD | IPA_CLIENT_A5_WLAN_AMPDU_PROD
  | IPA_CLIENT_A2_EMBEDDED_PROD | IPA_CLIENT_A2_TETHERED_PROD | IPA_CLIENT_APPS_LAN_WAN_PROD
  | IPA_CLIENT_WLAN1_CONS | IPA_CLIENT_WLAN2_CONS | IPA_CLIENT_WLAN3_CONS | IPA_CLIENT_WLAN4_CONS
  | IPA_CLIENT_USB_CONS | IPA_CLIENT_A2_EMBEDDED_CONS | IPA_CLIENT_A2_TETHERED_CONS
  | IPA_CLIENT_APPS_WAN_CONS | IPA_CLIENT_other nat

datatype rt_tbl_id =
    rt_tbl_default_v4 | rt_tbl_lan_v4 | rt_tbl_wan_v4 | rt_tbl_v6 | rt_tbl_wan_v6 | rt_tbl_odu_v4
  | rt_tbl_odu_v6 | rt_tbl_wan_dl | rt_tbl_lan2lan_v4 | rt_tbl_lan2lan_v6
  | rt_tbl_eth_bridge_usb_wlan_v4 | rt_tbl_eth_bridge_wlan_wlan_v4
  | rt_tbl_eth_bridge_usb_wlan_v6 | rt_tbl_eth_bridge_wlan_wlan_v6

record ipacm_alg =
  alg_protocol :: u8
  alg_port :: u16

record ipa_private_subnet =
  subnet_addr :: u32
  subnet_mask :: u32

record ipa_rm_client =
  producer_rm1 :: ipa_rm_resource_name
  consumer_rm1 :: ipa_rm_resource_name
  producer_rm2 :: ipa_rm_resource_name
  consumer_rm2 :: ipa_rm_resource_name
  producer1_up :: bool
  consumer1_up :: bool
  rm_set :: bool
  rx_bypass_ipa :: bool

text \<open>An extended property of an interface: its IP type and the rest of the kernel's structure.\<close>

record ipa_ioc_ext_intf_prop =
  ext_ip :: ipa_ip_type
  ext_rest :: nat

record ipa_ifi_dev_name_t =
  iface_name :: string
  if_cat :: ipacm_iface_type
  netlink_interface_index :: int

text \<open>A table that was never allocated, or whose allocation failed, is empty; \<open>iface_table_freed\<close> and \<open>alg_table_freed\<close> say that the
  member points to memory that was given back.\<close>

record IPACM_Config =
  ipa_client_rm_map_tbl :: "ipa_client_type \<Rightarrow> ipa_rm_resource_name"
  ipa_rm_tbl :: "ipa_rm_client list"
  ipa_rm_a2_check :: int
  iface_table :: "ipa_ifi_dev_name_t list"
  iface_table_freed :: bool
  alg_table :: "ipacm_alg list"
  alg_table_freed :: bool
  private_subnet_table :: "ipa_private_subnet list"
  pNatIfaces :: "string list"
  ipa_virtual_iface_name :: string
  ipa_num_ipa_interfaces :: nat
  ipa_num_private_subnet :: nat
  ipa_num_alg_ports :: nat
  ipa_nat_max_entries :: int
  ipacm_odu_router_mode :: bool
  ipacm_odu_enable :: bool
  ipa_nat_iface_entries :: nat
  ipa_sw_rt_enable :: bool
  rt_tbl :: "rt_tbl_id \<Rightarrow> ipa_ip_type \<times> string"
  qmap_id :: u8
  ext_prop_v4 :: "ipa_ioc_ext_intf_prop list"
  ext_prop_v6 :: "ipa_ioc_ext_intf_prop list"

definition IPA_MAX_IFACE_ENTRIES :: nat where "IPA_MAX_IFACE_ENTRIES = 15"
definition IPA_MAX_ALG_ENTRIES :: nat where "IPA_MAX_ALG_ENTRIES = 20"
definition IPA_MAX_PRIVATE_SUBNET_ENTRIES :: nat where "IPA_MAX_PRIVATE_SUBNET_ENTRIES = 3"
definition IPA_MAX_RM_ENTRY :: nat where "IPA_MAX_RM_ENTRY = 6"
definition MAX_NUM_EXT_PROPS :: nat where "MAX_NUM_EXT_PROPS = 15"

definition zero_subnet :: ipa_private_subnet where
  "zero_subnet = \<lparr>subnet_addr = 0, subnet_mask = 0\<rparr>"

text \<open>A cleared row; \<open>rm0\<close> is the resource the kernel's header numbers 0.\<close>

definition zero_rm :: "ipa_rm_resource_name \<Rightarrow> ipa_rm_client" where
  "zero_rm rm0 = \<lparr>producer_rm1 = rm0, consumer_rm1 = rm0, producer_rm2 = rm0, consumer_rm2 = rm0,
     producer1_up = False, consumer1_up = False, rm_set = False, rx_bypass_ipa = False\<rparr>"

section \<open>Construction\<close>

text \<open>The constructor. The members it leaves out (the private-subnet table, the bridge name, the
  LAN-to-LAN routing tables) are written by \<open>Init\<close> before they are read; the empty \<open>pNatIfaces\<close> is
  the NULL that \<open>Init\<close> tests for, which the constructor does not store.\<close>

definition IPACM_Config_new :: "ipa_rm_resource_name \<Rightarrow> IPACM_Config" where
  "IPACM_Config_new rm0 = \<lparr>ipa_client_rm_map_tbl = (\<lambda>_. rm0),
     ipa_rm_tbl = replicate IPA_MAX_RM_ENTRY (zero_rm rm0), ipa_rm_a2_check = 0,
     iface_table = [], iface_table_freed = False, alg_table = [], alg_table_freed = False,
     private_subnet_table = replicate IPA_MAX_PRIVATE_SUBNET_ENTRIES zero_subnet,
     pNatIfaces = [], ipa_virtual_iface_name = [], ipa_num_ipa_interfaces = 0,
     ipa_num_private_subnet = 0, ipa_num_alg_ports = 0, ipa_nat_max_entries = 0,
     ipacm_odu_router_mode = False, ipacm_odu_enable = False, ipa_nat_iface_entries = 0,
     ipa_sw_rt_enable = False, rt_tbl = (\<lambda>_. (IPA_IP_v4, [])),
     qmap_id = NOT 0, ext_prop_v4 = [], ext_prop_v6 = []\<rparr>"

text \<open>What the XML reader returns (\<open>IPACM_conf_t\<close>).\<close>

record IPACM_conf_t =
  conf_ifaces :: "(string \<times> ipacm_iface_type) list"
  conf_subnets :: "ipa_private_subnet list"
  conf_algs :: "ipacm_alg list"
  conf_nat_max_entries :: int
  conf_odu_enable :: bool
  conf_router_mode_enable :: bool

text \<open>The dependencies \<open>Init\<close> writes into the first three rows of the resource-manager table.\<close>

definition set_rm_names ::
  "ipa_rm_resource_name \<Rightarrow> ipa_rm_resource_name \<Rightarrow> ipa_rm_resource_name \<Rightarrow> ipa_rm_resource_name \<Rightarrow>
   ipa_rm_client \<Rightarrow> ipa_rm_client" where
  "set_rm_names p1 c1 p2 c2 e =
     e\<lparr>producer_rm1 := p1, consumer_rm1 := c1, producer_rm2 := p2, consumer_rm2 := c2\<rparr>"

definition init_rm_tbl :: "ipa_rm_client list \<Rightarrow> ipa_rm_client list" where
  "init_rm_tbl t =
     t[0 := set_rm_names IPA_RM_RESOURCE_WLAN_PROD IPA_RM_RESOURCE_Q6_CONS
              IPA_RM_RESOURCE_Q6_PROD IPA_RM_RESOURCE_WLAN_CONS (t ! 0),
       1 := set_rm_names IPA_RM_RESOURCE_USB_PROD IPA_RM_RESOURCE_Q6_CONS
              IPA_RM_RESOURCE_Q6_PROD IPA_RM_RESOURCE_USB_CONS (t ! 1),
       2 := set_rm_names IPA_RM_RESOURCE_WLAN_PROD IPA_RM_RESOURCE_USB_CONS
              IPA_RM_RESOURCE_USB_PROD IPA_RM_RESOURCE_WLAN_CONS (t ! 2)]"

text \<open>The bridge interface is the last one of category VIRTUAL.\<close>

definition virtual_name :: "string \<Rightarrow> (string \<times> ipacm_iface_type) list \<Rightarrow> string" where
  "virtual_name old ifs = fold (\<lambda>(n, cat) v. if cat = VIRTUAL_IF then n else v) ifs old"

fun rt_tbl_names :: "rt_tbl_id \<Rightarrow> ipa_ip_type \<times> string" where
  "rt_tbl_names rt_tbl_default_v4 = (IPA_IP_v4, ''ipa_dflt_rt'')"
| "rt_tbl_names rt_tbl_lan_v4 = (IPA_IP_v4, ''COMRTBLLANv4'')"
| "rt_tbl_names rt_tbl_wan_v4 = (IPA_IP_v4, ''WANRTBLv4'')"
| "rt_tbl_names rt_tbl_v6 = (IPA_IP_v6, ''COMRTBLv6'')"
| "rt_tbl_names rt_tbl_wan_v6 = (IPA_IP_v6, ''WANRTBLv6'')"
| "rt_tbl_names rt_tbl_odu_v4 = (IPA_IP_v4, ''ODURTBLv4'')"
| "rt_tbl_names rt_tbl_odu_v6 = (IPA_IP_v6, ''ODURTBLv6'')"
| "rt_tbl_names rt_tbl_wan_dl = (IPA_IP_MAX, ''ipa_dflt_wan_rt'')"
| "rt_tbl_names rt_tbl_lan2lan_v4 = (IPA_IP_v4, ''LANTOLANRTBLv4'')"
| "rt_tbl_names rt_tbl_lan2lan_v6 = (IPA_IP_v6, ''LANTOLANRTBLv6'')"
| "rt_tbl_names rt_tbl_eth_bridge_usb_wlan_v4 = (IPA_IP_v4, ''ETH_BRIDGE_USB_WLAN_RTBLv4'')"
| "rt_tbl_names rt_tbl_eth_bridge_wlan_wlan_v4 = (IPA_IP_v4, ''ETH_BRIDGE_WLAN_WLAN_RTBLv4'')"
| "rt_tbl_names rt_tbl_eth_bridge_usb_wlan_v6 = (IPA_IP_v6, ''ETH_BRIDGE_USB_WLAN_RTBLv6'')"
| "rt_tbl_names rt_tbl_eth_bridge_wlan_wlan_v6 = (IPA_IP_v6, ''ETH_BRIDGE_WLAN_WLAN_RTBLv6'')"

fun client_rm_map :: "(ipa_client_type \<Rightarrow> ipa_rm_resource_name) \<Rightarrow> ipa_client_type \<Rightarrow> ipa_rm_resource_name"
  where
  "client_rm_map old IPA_CLIENT_WLAN1_PROD = IPA_RM_RESOURCE_WLAN_PROD"
| "client_rm_map old IPA_CLIENT_USB_PROD = IPA_RM_RESOURCE_USB_PROD"
| "client_rm_map old IPA_CLIENT_A5_WLAN_AMPDU_PROD = IPA_RM_RESOURCE_HSIC_PROD"
| "client_rm_map old IPA_CLIENT_A2_EMBEDDED_PROD = IPA_RM_RESOURCE_Q6_PROD"
| "client_rm_map old IPA_CLIENT_A2_TETHERED_PROD = IPA_RM_RESOURCE_Q6_PROD"
| "client_rm_map old IPA_CLIENT_APPS_LAN_WAN_PROD = IPA_RM_RESOURCE_Q6_PROD"
| "client_rm_map old IPA_CLIENT_WLAN1_CONS = IPA_RM_RESOURCE_WLAN_CONS"
| "client_rm_map old IPA_CLIENT_WLAN2_CONS = IPA_RM_RESOURCE_WLAN_CONS"
| "client_rm_map old IPA_CLIENT_WLAN3_CONS = IPA_RM_RESOURCE_WLAN_CONS"
| "client_rm_map old IPA_CLIENT_WLAN4_CONS = IPA_RM_RESOURCE_WLAN_CONS"
| "client_rm_map old IPA_CLIENT_USB_CONS = IPA_RM_RESOURCE_USB_CONS"
| "client_rm_map old IPA_CLIENT_A2_EMBEDDED_CONS = IPA_RM_RESOURCE_Q6_CONS"
| "client_rm_map old IPA_CLIENT_A2_TETHERED_CONS = IPA_RM_RESOURCE_Q6_CONS"
| "client_rm_map old IPA_CLIENT_APPS_WAN_CONS = IPA_RM_RESOURCE_Q6_CONS"
| "client_rm_map old (IPA_CLIENT_other n) = old (IPA_CLIENT_other n)"

text \<open>\<open>Init\<close>: \<open>mem\<close> says whether the four allocations (the parse buffer, the interface, ALG and NAT
  interface tables) succeed, \<open>xml\<close> is what the reader makes of the file. When the third allocation fails the interface
  table is freed, when the fourth fails both tables are, and the members keep the pointers, which the next \<open>Init\<close> frees again. The number
  of NAT interfaces stays as it was. The reader counts its entries without a bound; a count beyond one of the
  fixed arrays is an access out of bounds.\<close>

definition Init ::
  "bool list \<Rightarrow> IPACM_conf_t option \<Rightarrow> IPACM_Config \<Rightarrow> fault + int \<times> IPACM_Config" where
  "Init mem xml c =
     (if \<not> mem ! 0 then Inr (IPACM_FAILURE, c)
      else case xml of
        None \<Rightarrow> Inr (IPACM_FAILURE, c)
      | Some cfg \<Rightarrow>
          (let c1 = c\<lparr>ipa_num_ipa_interfaces := length (conf_ifaces cfg)\<rparr>
           in if iface_table_freed c1 then Inl UseAfterFree
              else if \<not> mem ! 1 then Inr (IPACM_FAILURE, c1\<lparr>iface_table := []\<rparr>)
              else if IPA_MAX_IFACE_ENTRIES < length (conf_ifaces cfg) \<or>
                      IPA_MAX_PRIVATE_SUBNET_ENTRIES < length (conf_subnets cfg) then Inl OutOfBounds
              else
               (let c2 = c1\<lparr>iface_table := map (\<lambda>(nm, cat). \<lparr>iface_name = nm, if_cat = cat, netlink_interface_index = 0\<rparr>) (conf_ifaces cfg),
                      ipa_virtual_iface_name := virtual_name (ipa_virtual_iface_name c1) (conf_ifaces cfg),
                      private_subnet_table := conf_subnets cfg @
                        replicate (IPA_MAX_PRIVATE_SUBNET_ENTRIES - length (conf_subnets cfg)) zero_subnet,
                      ipa_num_private_subnet := length (conf_subnets cfg),
                      ipa_num_alg_ports := length (conf_algs cfg)\<rparr>
                in if alg_table_freed c2 then Inl UseAfterFree
                   else if \<not> mem ! 2 then Inr (IPACM_FAILURE, c2\<lparr>alg_table := [], iface_table_freed := True\<rparr>)
                   else if IPA_MAX_ALG_ENTRIES < length (conf_algs cfg) then Inl OutOfBounds
                   else
                    (let c3 = c2\<lparr>alg_table := conf_algs cfg,
                           ipa_nat_max_entries := conf_nat_max_entries cfg,
                           ipacm_odu_enable := conf_odu_enable cfg,
                           ipacm_odu_router_mode := conf_router_mode_enable cfg\<rparr>
                     in if \<not> mem ! 3 then Inr (IPACM_FAILURE, c3\<lparr>pNatIfaces := [], iface_table_freed := True, alg_table_freed := True\<rparr>)
                        else Inr (IPACM_SUCCESS,
                              c3\<lparr>pNatIfaces := replicate (ipa_num_ipa_interfaces c3) [],
                                 rt_tbl := rt_tbl_names,
                                 ipa_client_rm_map_tbl := client_rm_map (ipa_client_rm_map_tbl c3),
                                 ipa_rm_tbl := init_rm_tbl (ipa_rm_tbl c3)\<rparr>)))))"

text \<open>\<open>GetInstance\<close>: the static pointer is \<open>None\<close>, or holds an object that is live or deleted. The
  result is whether a non-NULL pointer is returned. After a failed \<open>Init\<close> the object is deleted and
  the static pointer is not cleared.\<close>

datatype 'a instance_ptr = NoInstance | Live 'a | Dangling

definition Config_GetInstance ::
  "ipa_rm_resource_name \<Rightarrow> bool list \<Rightarrow> IPACM_conf_t option \<Rightarrow> IPACM_Config instance_ptr \<Rightarrow>
   fault + bool \<times> IPACM_Config instance_ptr" where
  "Config_GetInstance rm0 mem xml p =
     (case p of
        NoInstance \<Rightarrow>
          (case Init mem xml (IPACM_Config_new rm0) of
             Inl e \<Rightarrow> Inl e
           | Inr (r, c) \<Rightarrow> if r \<noteq> IPACM_SUCCESS then Inr (False, Dangling) else Inr (True, Live c))
      | Live c \<Rightarrow> Inr (True, Live c)
      | Dangling \<Rightarrow> Inr (True, Dangling))"

section \<open>Tables handed to other components\<close>

definition GetAlgPortCnt :: "IPACM_Config \<Rightarrow> nat" where
  "GetAlgPortCnt c = ipa_num_alg_ports c"

definition GetNatMaxEntries :: "IPACM_Config \<Rightarrow> int" where
  "GetNatMaxEntries c = ipa_nat_max_entries c"

definition GetNatIfacesCnt :: "IPACM_Config \<Rightarrow> nat" where
  "GetNatIfacesCnt c = ipa_nat_iface_entries c"

definition SetQmapId :: "u8 \<Rightarrow> IPACM_Config \<Rightarrow> IPACM_Config" where
  "SetQmapId i c = c\<lparr>qmap_id := i\<rparr>"

definition GetQmapId :: "IPACM_Config \<Rightarrow> u8" where
  "GetQmapId c = qmap_id c"

text \<open>Both copy loops read \<open>n\<close> rows whatever the length of the table is; \<open>None\<close> is the NULL buffer.\<close>

definition GetAlgPorts :: "int \<Rightarrow> ipacm_alg list option \<Rightarrow> IPACM_Config \<Rightarrow> fault + int \<times> ipacm_alg list" where
  "GetAlgPorts nPorts buf c =
     (case buf of
        None \<Rightarrow> Inr (-1, [])
      | Some b \<Rightarrow>
          if nPorts \<le> 0 then Inr (-1, b)
          else if alg_table_freed c then Inl UseAfterFree
          else if length (alg_table c) < nat nPorts \<or> length b < nat nPorts then Inl OutOfBounds
          else Inr (0, take (nat nPorts) (alg_table c) @ drop (nat nPorts) b))"

definition GetNatIfaces :: "int \<Rightarrow> string list option \<Rightarrow> IPACM_Config \<Rightarrow> fault + int \<times> string list" where
  "GetNatIfaces nIfaces buf c =
     (case buf of
        None \<Rightarrow> Inr (-1, [])
      | Some b \<Rightarrow>
          if nIfaces \<le> 0 then Inr (-1, b)
          else if length (pNatIfaces c) < nat nIfaces \<or> length b < nat nIfaces then Inl OutOfBounds
          else Inr (0, take (nat nIfaces) (pNatIfaces c) @ drop (nat nIfaces) b))"

definition AddNatIfaces :: "string \<Rightarrow> IPACM_Config \<Rightarrow> int \<times> IPACM_Config" where
  "AddNatIfaces dev c =
     (let c1 = c\<lparr>ipa_nat_iface_entries := ipa_nat_iface_entries c + 1\<rparr>
      in if ipa_nat_iface_entries c1 < ipa_num_ipa_interfaces c1
         then (0, c1\<lparr>pNatIfaces := (pNatIfaces c1)[ipa_nat_iface_entries c1 - 1 := dev]\<rparr>)
         else (0, c1))"

text \<open>The inner loop of \<open>DelNatIfaces\<close>: move row \<open>i+1\<close> to row \<open>i\<close> and clear it, up to the last row.\<close>

function shift_ifaces :: "nat \<Rightarrow> nat \<Rightarrow> string list \<Rightarrow> string list" where
  "shift_ifaces i n t = (if i < n - 1 then shift_ifaces (i + 1) n (t[i := t ! (i + 1), i + 1 := []]) else t)"
  by pat_completeness auto
termination
  by (relation "measure (\<lambda>(i, n, t). n - i)") auto

declare shift_ifaces.simps [simp del]

definition DelNatIfaces :: "string \<Rightarrow> IPACM_Config \<Rightarrow> fault + int \<times> IPACM_Config" where
  "DelNatIfaces dev c =
     (case find_slot (\<lambda>n. n = dev) (take (ipa_nat_iface_entries c) (pNatIfaces c)) of
        None \<Rightarrow> if length (pNatIfaces c) < ipa_nat_iface_entries c then Inl OutOfBounds else Inr (0, c)
      | Some i \<Rightarrow>
          if length (pNatIfaces c) < ipa_nat_iface_entries c then Inl OutOfBounds
          else Inr (0, c\<lparr>pNatIfaces := shift_ifaces i (ipa_nat_iface_entries c) ((pNatIfaces c)[i := []]),
                        ipa_nat_iface_entries := ipa_nat_iface_entries c - 1\<rparr>))"

section \<open>Private subnets\<close>

definition isPrivateSubnet :: "u32 \<Rightarrow> IPACM_Config \<Rightarrow> bool" where
  "isPrivateSubnet ip_addr c =
     (find_slot (\<lambda>s. subnet_addr s = (subnet_mask s AND ip_addr))
        (take (ipa_num_private_subnet c) (private_subnet_table c)) \<noteq> None)"

text \<open>The mask \<^verbatim>\<open>(~0 >> 8) << 8\<close> on \<open>uint32_t\<close>.\<close>

definition subnet24_mask :: u32 where
  "subnet24_mask = push_bit 8 (drop_bit 8 (NOT 0))"

text \<open>The event the two operations post: its identifier and the interface index of its payload.\<close>

type_synonym posted_evt = "ipa_cm_event_id \<times> int"

text \<open>\<open>mem\<close>: the allocation of the payload succeeds. When it fails the function returns
  \<open>IPACM_FAILURE\<close>, which as a \<open>bool\<close> is true, after the table has been changed.\<close>

definition AddPrivateSubnet ::
  "bool \<Rightarrow> u32 \<Rightarrow> int \<Rightarrow> IPACM_Config \<Rightarrow> bool \<times> posted_evt list \<times> IPACM_Config" where
  "AddPrivateSubnet mem ip_addr ipa_if_index c =
     (if find_slot (\<lambda>s. subnet_addr s = ip_addr)
           (take (ipa_num_private_subnet c) (private_subnet_table c)) \<noteq> None
      then (True, [], c)
      else if ipa_num_private_subnet c < IPA_MAX_PRIVATE_SUBNET_ENTRIES then
        (let c1 = c\<lparr>private_subnet_table := (private_subnet_table c)
                      [ipa_num_private_subnet c := \<lparr>subnet_addr = ip_addr, subnet_mask = subnet24_mask\<rparr>],
                    ipa_num_private_subnet := ipa_num_private_subnet c + 1\<rparr>
         in if \<not> mem then (True, [], c1)
            else (True, [(IPA_PRIVATE_SUBNET_CHANGE_EVENT, ipa_if_index)], c1))
      else (False, [], c))"

text \<open>The inner loop of \<open>DelPrivateSubnet\<close> moves the addresses down, and only the addresses.\<close>

function shift_subnets :: "nat \<Rightarrow> nat \<Rightarrow> ipa_private_subnet list \<Rightarrow> ipa_private_subnet list" where
  "shift_subnets i n t =
     (if i < n - 1
      then shift_subnets (i + 1) n (t[i := (t ! i)\<lparr>subnet_addr := subnet_addr (t ! (i + 1))\<rparr>])
      else t)"
  by pat_completeness auto
termination
  by (relation "measure (\<lambda>(i, n, t). n - i)") auto

declare shift_subnets.simps [simp del]

definition DelPrivateSubnet ::
  "bool \<Rightarrow> u32 \<Rightarrow> int \<Rightarrow> IPACM_Config \<Rightarrow> bool \<times> posted_evt list \<times> IPACM_Config" where
  "DelPrivateSubnet mem ip_addr ipa_if_index c =
     (case find_slot (\<lambda>s. subnet_addr s = ip_addr)
         (take (ipa_num_private_subnet c) (private_subnet_table c)) of
        None \<Rightarrow> (False, [], c)
      | Some i \<Rightarrow>
          (let c1 = c\<lparr>private_subnet_table :=
                        shift_subnets i (ipa_num_private_subnet c) (private_subnet_table c),
                      ipa_num_private_subnet := ipa_num_private_subnet c - 1\<rparr>
           in if \<not> mem then (True, [], c1)
              else (True, [(IPA_PRIVATE_SUBNET_CHANGE_EVENT, ipa_if_index)], c1)))"

section \<open>Resource-manager dependencies\<close>

text \<open>The ioctls sent to the IPA driver: \<open>AddDep p c\<close> is IPA_IOC_RM_ADD_DEPENDENCY with resource \<open>p\<close>
  depending on \<open>c\<close>. Their return values are only logged.\<close>

datatype rm_ioctl =
    AddDep ipa_rm_resource_name ipa_rm_resource_name
  | DelDep ipa_rm_resource_name ipa_rm_resource_name

definition add_deps :: "ipa_rm_client \<Rightarrow> rm_ioctl list" where
  "add_deps e = (if rx_bypass_ipa e then [] else [AddDep (producer_rm1 e) (consumer_rm1 e)]) @
     [AddDep (producer_rm2 e) (consumer_rm2 e)]"

definition del_deps :: "ipa_rm_client \<Rightarrow> rm_ioctl list" where
  "del_deps e = (if rx_bypass_ipa e then [] else [DelDep (producer_rm1 e) (consumer_rm1 e)]) @
     [DelDep (producer_rm2 e) (consumer_rm2 e)]"

text \<open>The two halves of the loop body of \<open>AddRmDepend\<close>, for one row.\<close>

definition add_rm_producer ::
  "ipa_rm_resource_name \<Rightarrow> bool \<Rightarrow> ipa_rm_client \<Rightarrow> ipa_rm_client \<times> rm_ioctl list" where
  "add_rm_producer rm1 bypass e =
     (if rm1 = producer_rm1 e then
        (let e1 = e\<lparr>producer1_up := True, rx_bypass_ipa := bypass\<rparr>
         in if consumer1_up e1 \<and> \<not> rm_set e1 then (e1\<lparr>rm_set := True\<rparr>, add_deps e1) else (e1, []))
      else (e, []))"

definition add_rm_consumer ::
  "ipa_rm_resource_name \<Rightarrow> ipa_rm_client \<Rightarrow> ipa_rm_client \<times> rm_ioctl list" where
  "add_rm_consumer rm1 e =
     (if rm1 = consumer_rm1 e then
        (let e1 = e\<lparr>consumer1_up := True\<rparr>
         in if producer1_up e1 \<and> \<not> rm_set e1 then (e1\<lparr>rm_set := True\<rparr>, add_deps e1) else (e1, []))
      else (e, []))"

definition add_rm_row ::
  "ipa_rm_resource_name \<Rightarrow> bool \<Rightarrow> ipa_rm_client \<Rightarrow> rm_ioctl list \<Rightarrow> ipa_rm_client \<times> rm_ioctl list" where
  "add_rm_row rm1 bypass e outs =
     (let (e1, o1) = add_rm_producer rm1 bypass e; (e2, o2) = add_rm_consumer rm1 e1
      in (e2, outs @ o1 @ o2))"

text \<open>The loop runs over the first \<open>IPA_MAX_PRIVATE_SUBNET_ENTRIES\<close> rows of the table.\<close>

definition AddRmDepend ::
  "ipa_rm_resource_name \<Rightarrow> bool \<Rightarrow> IPACM_Config \<Rightarrow> IPACM_Config \<times> rm_ioctl list" where
  "AddRmDepend rm1 bypass c =
     (let c1 = (if rm1 = IPA_RM_RESOURCE_Q6_CONS then c\<lparr>ipa_rm_a2_check := ipa_rm_a2_check c + 1\<rparr> else c);
          (rows, outs) = map_state (add_rm_row rm1 bypass)
             (take IPA_MAX_PRIVATE_SUBNET_ENTRIES (ipa_rm_tbl c1)) []
      in (c1\<lparr>ipa_rm_tbl := rows @ drop IPA_MAX_PRIVATE_SUBNET_ENTRIES (ipa_rm_tbl c1)\<rparr>, outs))"

definition del_rm_producer ::
  "ipa_rm_resource_name \<Rightarrow> ipa_rm_client \<Rightarrow> ipa_rm_client \<times> rm_ioctl list" where
  "del_rm_producer rm1 e =
     (if rm1 = producer_rm1 e then
        (let (e1, o1) = (if rm_set e then (e\<lparr>rm_set := False\<rparr>, del_deps e) else (e, []))
         in (e1\<lparr>producer1_up := False, rx_bypass_ipa := False\<rparr>, o1))
      else (e, []))"

definition del_rm_consumer ::
  "ipa_rm_resource_name \<Rightarrow> int \<Rightarrow> ipa_rm_client \<Rightarrow> ipa_rm_client \<times> rm_ioctl list" where
  "del_rm_consumer rm1 a2_check e =
     (if rm1 = consumer_rm1 e then
        (if consumer_rm1 e = IPA_RM_RESOURCE_Q6_CONS \<and> a2_check = 1 then (e, [])
         else (let (e1, o1) = (if rm_set e then (e\<lparr>rm_set := False\<rparr>, del_deps e) else (e, []))
               in (e1\<lparr>consumer1_up := False\<rparr>, o1)))
      else (e, []))"

definition del_rm_row ::
  "ipa_rm_resource_name \<Rightarrow> int \<Rightarrow> ipa_rm_client \<Rightarrow> rm_ioctl list \<Rightarrow> ipa_rm_client \<times> rm_ioctl list" where
  "del_rm_row rm1 a2_check e outs =
     (let (e1, o1) = del_rm_producer rm1 e; (e2, o2) = del_rm_consumer rm1 a2_check e1
      in (e2, outs @ o1 @ o2))"

definition DelRmDepend :: "ipa_rm_resource_name \<Rightarrow> IPACM_Config \<Rightarrow> IPACM_Config \<times> rm_ioctl list" where
  "DelRmDepend rm1 c =
     (let c1 = (if rm1 = IPA_RM_RESOURCE_Q6_CONS then c\<lparr>ipa_rm_a2_check := ipa_rm_a2_check c - 1\<rparr> else c);
          (rows, outs) = map_state (del_rm_row rm1 (ipa_rm_a2_check c1))
             (take IPA_MAX_PRIVATE_SUBNET_ENTRIES (ipa_rm_tbl c1)) []
      in (c1\<lparr>ipa_rm_tbl := rows @ drop IPA_MAX_PRIVATE_SUBNET_ENTRIES (ipa_rm_tbl c1)\<rparr>, outs))"

section \<open>Extended properties\<close>

text \<open>The loop of \<open>SetExtProp\<close> over the properties of one interface; it stops at the first one of
  an unexpected IP type.\<close>

fun set_ext_loop :: "ipa_ioc_ext_intf_prop list \<Rightarrow> IPACM_Config \<Rightarrow> int \<times> IPACM_Config" where
  "set_ext_loop [] c = (IPACM_SUCCESS, c)"
| "set_ext_loop (p # ps) c =
     (case ext_ip p of
        IPA_IP_v4 \<Rightarrow>
          if MAX_NUM_EXT_PROPS \<le> length (ext_prop_v4 c) then set_ext_loop ps c
          else set_ext_loop ps (c\<lparr>ext_prop_v4 := ext_prop_v4 c @ [p]\<rparr>)
      | IPA_IP_v6 \<Rightarrow>
          if MAX_NUM_EXT_PROPS \<le> length (ext_prop_v6 c) then set_ext_loop ps c
          else set_ext_loop ps (c\<lparr>ext_prop_v6 := ext_prop_v6 c @ [p]\<rparr>)
      | IPA_IP_MAX \<Rightarrow> (IPACM_FAILURE, c))"

definition SetExtProp :: "ipa_ioc_ext_intf_prop list option \<Rightarrow> IPACM_Config \<Rightarrow> int \<times> IPACM_Config" where
  "SetExtProp prop c =
     (case prop of
        None \<Rightarrow> (IPACM_FAILURE, c)
      | Some ps \<Rightarrow> if ps = [] then (IPACM_FAILURE, c) else set_ext_loop ps c)"

definition GetExtProp :: "ipa_ip_type \<Rightarrow> IPACM_Config \<Rightarrow> ipa_ioc_ext_intf_prop list option" where
  "GetExtProp t c =
     (case t of IPA_IP_v4 \<Rightarrow> Some (ext_prop_v4 c) | IPA_IP_v6 \<Rightarrow> Some (ext_prop_v6 c) | IPA_IP_MAX \<Rightarrow> None)"

definition DelExtProp :: "ipa_ip_type \<Rightarrow> IPACM_Config \<Rightarrow> int \<times> IPACM_Config" where
  "DelExtProp t c =
     (let c1 = (if t \<noteq> IPA_IP_v6 then c\<lparr>ext_prop_v4 := []\<rparr> else c);
          c2 = (if t \<noteq> IPA_IP_v4 then c1\<lparr>ext_prop_v6 := []\<rparr> else c1)
      in (IPACM_SUCCESS, c2))"

section \<open>NAT interfaces as a list\<close>

text \<open>The table of \<open>n\<close> interface names holds the list \<open>xs\<close>.\<close>

definition nat_ifaces :: "nat \<Rightarrow> IPACM_Config \<Rightarrow> string list \<Rightarrow> bool" where
  "nat_ifaces n c xs \<longleftrightarrow> length (pNatIfaces c) = n \<and> ipa_num_ipa_interfaces c = n \<and>
     ipa_nat_iface_entries c = length xs \<and> length xs \<le> n \<and> take (length xs) (pNatIfaces c) = xs"

lemma shift_ifaces_eq:
  "i < n \<Longrightarrow> n \<le> length t \<Longrightarrow> t ! i = [] \<Longrightarrow>
     shift_ifaces i n t = take i t @ drop (Suc i) (take n t) @ [] # drop n t"
proof (induction i n t rule: shift_ifaces.induct)
  case (1 i n t)
  show ?case
  proof (cases "i < n - 1")
    case False
    with 1 have "n = Suc i" by simp
    with 1 show ?thesis by (simp add: shift_ifaces.simps[of i] id_take_nth_drop[of i t, symmetric])
      (metis Suc_le_lessD id_take_nth_drop)
  next
    case True
    let ?t = "t[i := t ! (i + 1), i + 1 := []]"
    have len: "i + 1 < length t" using True 1 by simp
    have split: "t = take i t @ t ! i # t ! Suc i # drop (Suc (Suc i)) t"
      using len by (metis Cons_nth_drop_Suc Suc_eq_plus1 Suc_lessD append_take_drop_id)
    have up: "?t = take i t @ t ! Suc i # [] # drop (Suc (Suc i)) t"
    proof -
      have "length (take i t) = i" using len by simp
      then show ?thesis using split
        by (metis (no_types, lifting) Suc_eq_plus1 append_Cons append_Nil append_assoc length_append_singleton
            list_update_length)
    qed
    have "shift_ifaces i n t = shift_ifaces (i + 1) n ?t"
      using True by (simp add: shift_ifaces.simps[of i])
    also have "\<dots> = take (i + 1) ?t @ drop (Suc (i + 1)) (take n ?t) @ [] # drop n ?t"
      using True 1 by (intro "1.IH") auto
    also have "take (i + 1) ?t = take i t @ [t ! Suc i]" using len by (subst up) simp
    also have "drop (Suc (i + 1)) (take n ?t) = drop (Suc (Suc i)) (take n t)"
      using True by (simp add: drop_take)
    also have "drop n ?t = drop n t" using True by simp
    finally show ?thesis using True 1 by (simp add: Cons_nth_drop_Suc[of "Suc i" "take n t", symmetric])
  qed
qed

lemma AddNatIfaces_rep:
  assumes "nat_ifaces n c xs" "Suc (length xs) < n"
  shows "fst (AddNatIfaces dev c) = 0 \<and> nat_ifaces n (snd (AddNatIfaces dev c)) (xs @ [dev])"
  using assms by (auto simp: AddNatIfaces_def nat_ifaces_def Let_def take_Suc_conv_app_nth take_update_swap)

lemma DelNatIfaces_rep:
  assumes "nat_ifaces n c xs"
  shows "\<exists>c'. DelNatIfaces dev c = Inr (0, c') \<and> nat_ifaces n c' (remove1 dev xs)"
proof (cases "find_slot (\<lambda>m. m = dev) xs")
  case None
  then have "remove1 dev xs = xs" by (auto intro: remove1_idem)
  with None assms show ?thesis by (auto simp: DelNatIfaces_def nat_ifaces_def simp del: find_slot_None_iff)
next
  case (Some i)
  let ?t = "(pNatIfaces c)[i := []]"
  have i: "i < length xs" using Some by (rule find_slot_SomeD)
  note r = remove1_take_shift[OF Some]
  have "shift_ifaces i (length xs) ?t = take i ?t @ drop (Suc i) (take (length xs) ?t) @ [] # drop (length xs) ?t"
    using i assms by (intro shift_ifaces_eq) (auto simp: nat_ifaces_def)
  moreover have "take i ?t = take i xs" "drop (Suc i) (take (length xs) ?t) = drop (Suc i) xs"
    using assms i by (auto simp: nat_ifaces_def drop_take) (metis min.absorb1 less_imp_le_nat take_take, metis drop_take)
  ultimately have sh: "shift_ifaces i (length xs) ?t = remove1 dev xs @ [] # drop (length xs) (pNatIfaces c)"
    using r i by simp
  have len: "Suc (length (remove1 dev xs)) = length xs" using r i by simp
  show ?thesis using assms Some sh i len by (auto simp: DelNatIfaces_def nat_ifaces_def)
qed

text \<open>The two operations as the table contract names them.\<close>

definition add_nat_iface :: "string \<Rightarrow> IPACM_Config \<Rightarrow> fault + IPACM_Config" where
  "add_nat_iface dev c = Inr (snd (AddNatIfaces dev c))"

definition del_nat_iface :: "string \<Rightarrow> IPACM_Config \<Rightarrow> fault + IPACM_Config" where
  "del_nat_iface dev c = map_sum id snd (DelNatIfaces dev c)"

interpretation natif: bounded_table add_nat_iface del_nat_iface "nat_ifaces n" "\<lambda>x xs. xs @ [x]" "n - 1"
  for n
proof unfold_locales
  fix c xs x
  assume "nat_ifaces n c xs" "length xs < n - 1"
  then show "\<exists>c'. add_nat_iface x c = Inr c' \<and> nat_ifaces n c' (xs @ [x])"
    using AddNatIfaces_rep[of n c xs x] by (simp add: add_nat_iface_def)
next
  fix c xs x
  assume "nat_ifaces n c xs"
  then show "\<exists>c'. del_nat_iface x c = Inr c' \<and> nat_ifaces n c' (remove1 x xs)"
    using DelNatIfaces_rep[of n c xs x] by (auto simp: del_nat_iface_def)
qed

section \<open>Private subnets as a list of addresses\<close>

text \<open>The table holds the subnet addresses \<open>xs\<close>, all with the 24-bit mask that \<open>AddPrivateSubnet\<close>
  writes.\<close>

definition subnets :: "IPACM_Config \<Rightarrow> u32 list \<Rightarrow> bool" where
  "subnets c xs \<longleftrightarrow> length (private_subnet_table c) = IPA_MAX_PRIVATE_SUBNET_ENTRIES \<and>
     ipa_num_private_subnet c = length xs \<and> length xs \<le> IPA_MAX_PRIVATE_SUBNET_ENTRIES \<and>
     take (length xs) (private_subnet_table c) =
       map (\<lambda>a. \<lparr>subnet_addr = a, subnet_mask = subnet24_mask\<rparr>) xs"

abbreviation sn :: "u32 \<Rightarrow> ipa_private_subnet" where
  "sn a \<equiv> \<lparr>subnet_addr = a, subnet_mask = subnet24_mask\<rparr>"

lemma subnet24_mask_eq [simp]: "subnet24_mask = 0xFFFFFF00"
  by (simp add: subnet24_mask_def mask_eq_exp_minus_1 push_bit_eq_mult)

lemma find_slot_map: "find_slot P (map f xs) = find_slot (P \<circ> f) xs"
  by (induction xs) auto

lemma shift_subnets_eq:
  "n \<le> length t \<Longrightarrow> take n t = map sn xs \<Longrightarrow> i < n \<Longrightarrow>
     take (n - 1) (shift_subnets i n t) = map sn (take i xs @ drop (Suc i) xs) \<and>
     length (shift_subnets i n t) = length t"
proof (induction i n t arbitrary: xs rule: shift_subnets.induct)
  case (1 i n t)
  have len: "length xs = n" using 1 by (metis length_map length_take min.absorb2)
  have nth: "t ! j = sn (xs ! j)" if "j < n" for j
    using 1(3) that len by (metis nth_map nth_take)
  show ?case
  proof (cases "i < n - 1")
    case False
    with 1(4) have "n = Suc i" by simp
    moreover from this have "take i t = take i (map sn xs)" unfolding 1(3)[symmetric] by simp
    ultimately show ?thesis using len False by (simp add: shift_subnets.simps[of i] take_map)
  next
    case True
    let ?t = "t[i := (t ! i)\<lparr>subnet_addr := subnet_addr (t ! (i + 1))\<rparr>]"
    let ?xs = "xs[i := xs ! (i + 1)]"
    have eq: "take n ?t = map sn ?xs"
      using 1(3,4) True nth[of i] nth[of "Suc i"] by (simp add: take_update_swap map_update)
    have "take (n - 1) (shift_subnets (i + 1) n ?t) = map sn (take (i + 1) ?xs @ drop (Suc (i + 1)) ?xs) \<and>
        length (shift_subnets (i + 1) n ?t) = length ?t"
      using True 1(2) eq by (intro "1.IH") auto
    moreover have "take (i + 1) ?xs @ drop (Suc (i + 1)) ?xs = take i xs @ drop (Suc i) xs"
      using True len by (simp add: take_Suc_conv_app_nth Cons_nth_drop_Suc)
    ultimately have "take (n - 1) (shift_subnets (i + 1) n ?t) = map sn (take i xs @ drop (Suc i) xs) \<and>
        length (shift_subnets (i + 1) n ?t) = length t" by (simp only: length_list_update simp_thms)
    then show ?thesis using True by (simp only: shift_subnets.simps[of i n t] if_True simp_thms)
  qed
qed

text \<open>What \<open>AddPrivateSubnet\<close> does to the list: nothing for an address it holds.\<close>

definition ins_subnet :: "u32 \<Rightarrow> u32 list \<Rightarrow> u32 list" where
  "ins_subnet a xs = (if a \<in> set xs then xs else xs @ [a])"

lemma subnet_found:
  assumes "subnets c xs"
  shows "find_slot (\<lambda>s. subnet_addr s = a) (take (ipa_num_private_subnet c) (private_subnet_table c)) =
    find_slot (\<lambda>y. y = a) xs"
  using assms by (simp add: subnets_def find_slot_map o_def)

lemma AddPrivateSubnet_rep:
  assumes "subnets c xs" "AddPrivateSubnet mem a i c = (r, out, c')"
  shows "(a \<in> set xs \<or> length xs < IPA_MAX_PRIVATE_SUBNET_ENTRIES \<longrightarrow> r \<and> subnets c' (ins_subnet a xs)) \<and>
    (a \<notin> set xs \<and> length xs = IPA_MAX_PRIVATE_SUBNET_ENTRIES \<longrightarrow> \<not> r \<and> c' = c) \<and>
    (out = [] \<or> out = [(IPA_PRIVATE_SUBNET_CHANGE_EVENT, i)])"
  using assms subnet_found[OF assms(1), of a]
  by (auto simp: AddPrivateSubnet_def subnets_def ins_subnet_def Let_def take_Suc_conv_app_nth
        take_update_swap list_update_append split: if_splits)

lemma DelPrivateSubnet_rep:
  assumes "subnets c xs" "DelPrivateSubnet mem a i c = (r, out, c')"
  shows "r = (a \<in> set xs) \<and> subnets c' (remove1 a xs) \<and>
    (out = (if mem \<and> a \<in> set xs then [(IPA_PRIVATE_SUBNET_CHANGE_EVENT, i)] else []))"
proof (cases "find_slot (\<lambda>y. y = a) xs")
  case None
  then have "a \<notin> set xs" "remove1 a xs = xs" by (auto intro: remove1_idem)
  with None assms subnet_found[OF assms(1), of a] show ?thesis
    by (auto simp: DelPrivateSubnet_def simp del: find_slot_None_iff)
next
  case (Some k)
  have k: "k < length xs" "a \<in> set xs" using find_slot_SomeD[OF Some] by auto
  let ?sh = "shift_subnets k (length xs) (private_subnet_table c)"
  have "take (length xs - 1) ?sh = map sn (take k xs @ drop (Suc k) xs) \<and>
      length ?sh = length (private_subnet_table c)"
    using assms(1) k by (intro shift_subnets_eq) (auto simp: subnets_def)
  moreover have "length (remove1 a xs) = length xs - 1" using k by (simp add: length_remove1)
  moreover note remove1_take_shift[OF Some]
  ultimately show ?thesis using assms Some subnet_found[OF assms(1), of a] k
    by (auto simp: DelPrivateSubnet_def subnets_def Let_def split: if_splits)
qed

lemma isPrivateSubnet_rep:
  "subnets c xs \<Longrightarrow> isPrivateSubnet ip c \<longleftrightarrow> (0xFFFFFF00 AND ip) \<in> set xs"
  by (auto simp: isPrivateSubnet_def subnets_def)

definition add_subnet :: "u32 \<Rightarrow> IPACM_Config \<Rightarrow> fault + IPACM_Config" where
  "add_subnet a c = Inr (snd (snd (AddPrivateSubnet True a 0 c)))"

definition del_subnet :: "u32 \<Rightarrow> IPACM_Config \<Rightarrow> fault + IPACM_Config" where
  "del_subnet a c = Inr (snd (snd (DelPrivateSubnet True a 0 c)))"

interpretation subn: bounded_table add_subnet del_subnet subnets ins_subnet IPA_MAX_PRIVATE_SUBNET_ENTRIES
proof unfold_locales
  fix c xs x
  assume "subnets c xs" "length xs < IPA_MAX_PRIVATE_SUBNET_ENTRIES"
  then show "\<exists>c'. add_subnet x c = Inr c' \<and> subnets c' (ins_subnet x xs)"
    using AddPrivateSubnet_rep[of c xs True x 0] by (cases "AddPrivateSubnet True x 0 c") (auto simp: add_subnet_def)
next
  fix c xs x
  assume "subnets c xs"
  then show "\<exists>c'. del_subnet x c = Inr c' \<and> subnets c' (remove1 x xs)"
    using DelPrivateSubnet_rep[of c xs True x 0] by (cases "DelPrivateSubnet True x 0 c") (auto simp: del_subnet_def)
qed

section \<open>Resource-manager dependencies as a ledger\<close>

text \<open>The net number of times the dependency \<open>d\<close> stands after the ioctls \<open>out\<close>.\<close>

fun net :: "ipa_rm_resource_name \<times> ipa_rm_resource_name \<Rightarrow> rm_ioctl list \<Rightarrow> int" where
  "net d [] = 0"
| "net d (AddDep p q # out) = (if d = (p, q) then 1 else 0) + net d out"
| "net d (DelDep p q # out) = (if d = (p, q) then -1 else 0) + net d out"

lemma net_append [simp]: "net d (xs @ ys) = net d xs + net d ys"
  by (induction d xs rule: net.induct) auto

lemma net_concat: "net d (concat xss) = sum_list (map (net d) xss)"
  by (induction xss) auto

text \<open>What a row asks the kernel to hold: its two dependencies while it is set.\<close>

definition row_deps :: "ipa_rm_resource_name \<times> ipa_rm_resource_name \<Rightarrow> ipa_rm_client \<Rightarrow> int" where
  "row_deps d e = (if rm_set e then net d (add_deps e) else 0)"

lemma net_del_deps [simp]: "net d (del_deps e) = - net d (add_deps e)"
  by (simp add: add_deps_def del_deps_def)

text \<open>A row is set exactly when both its producer and its consumer are up, and while the producer is
  up the row remembers the bypass flag \<open>b\<close> of the producer.\<close>

definition row_inv :: "(ipa_rm_resource_name \<Rightarrow> bool) \<Rightarrow> ipa_rm_client \<Rightarrow> bool" where
  "row_inv b e \<longleftrightarrow> (rm_set e \<longleftrightarrow> producer1_up e \<and> consumer1_up e) \<and>
     (producer1_up e \<longrightarrow> rx_bypass_ipa e = b (producer_rm1 e))"

definition add_row :: "ipa_rm_resource_name \<Rightarrow> bool \<Rightarrow> ipa_rm_client \<Rightarrow> ipa_rm_client \<times> rm_ioctl list" where
  "add_row rm1 bypass e = add_rm_row rm1 bypass e []"

definition del_row :: "ipa_rm_resource_name \<Rightarrow> int \<Rightarrow> ipa_rm_client \<Rightarrow> ipa_rm_client \<times> rm_ioctl list" where
  "del_row rm1 a2 e = del_rm_row rm1 a2 e []"

lemma add_rm_row_out: "add_rm_row rm1 b e out = (fst (add_row rm1 b e), out @ snd (add_row rm1 b e))"
  by (simp add: add_row_def add_rm_row_def case_prod_beta)

lemma del_rm_row_out: "del_rm_row rm1 a2 e out = (fst (del_row rm1 a2 e), out @ snd (del_row rm1 a2 e))"
  by (simp add: del_row_def del_rm_row_def case_prod_beta)

lemmas rm_row_defs = add_row_def add_rm_row_def add_rm_producer_def add_rm_consumer_def
  del_row_def del_rm_row_def del_rm_producer_def del_rm_consumer_def Let_def

lemma add_deps_upd [simp]:
  "add_deps (e\<lparr>producer1_up := x\<rparr>) = add_deps e" "add_deps (e\<lparr>consumer1_up := x\<rparr>) = add_deps e"
  "add_deps (e\<lparr>rm_set := x\<rparr>) = add_deps e"
  "rx_bypass_ipa e = x \<Longrightarrow> add_deps (e\<lparr>producer1_up := y, rx_bypass_ipa := x\<rparr>) = add_deps e"
  by (simp_all add: add_deps_def)

text \<open>Each half of a loop body keeps the row invariant and changes the row's dependencies by exactly
  what it sends.\<close>

definition row_step ::
  "(ipa_rm_resource_name \<Rightarrow> bool) \<Rightarrow> ipa_rm_client \<Rightarrow> ipa_rm_client \<times> rm_ioctl list \<Rightarrow> bool" where
  "row_step b e r \<longleftrightarrow> row_inv b (fst r) \<and> (\<forall>d. row_deps d (fst r) = row_deps d e + net d (snd r))"

lemma half_steps:
  assumes "row_inv b e"
  shows "row_step b e (add_rm_producer rm1 (b rm1) e)" "row_step b e (add_rm_consumer rm1 e)"
    "row_step b e (del_rm_producer rm1 e)" "row_step b e (del_rm_consumer rm1 a2 e)"
  using assms
  by (auto simp: row_step_def row_inv_def row_deps_def add_rm_producer_def add_rm_consumer_def
      del_rm_producer_def del_rm_consumer_def Let_def)

lemma row_stepD:
  assumes "row_step b e r"
  shows "row_inv b (fst r)" "row_deps d (fst r) = row_deps d e + net d (snd r)"
  using assms unfolding row_step_def by blast+

lemma row_step_comp:
  "row_step b e r \<Longrightarrow> row_step b (fst r) r' \<Longrightarrow> row_step b e (fst r', snd r @ snd r')"
  by (simp add: row_step_def del: split_paired_All)

lemma add_row_step:
  assumes "row_inv b e"
  shows "row_step b e (add_row rm1 (b rm1) e)"
  using row_step_comp[OF half_steps(1)[OF assms] half_steps(2)[OF row_stepD(1)[OF half_steps(1)[OF assms]]]]
  by (simp add: add_row_def add_rm_row_def case_prod_beta)

lemma del_row_step:
  assumes "row_inv b e"
  shows "row_step b e (del_row rm1 a2 e)"
  using row_step_comp[OF half_steps(3)[OF assms] half_steps(4)[OF row_stepD(1)[OF half_steps(3)[OF assms]]]]
  by (simp add: del_row_def del_rm_row_def case_prod_beta)

lemma row_names [simp]:
  "producer_rm1 (fst (add_row r b e)) = producer_rm1 e" "consumer_rm1 (fst (add_row r b e)) = consumer_rm1 e"
  "producer_rm1 (fst (del_row r a e)) = producer_rm1 e" "consumer_rm1 (fst (del_row r a e)) = consumer_rm1 e"
  by (auto simp: rm_row_defs split: if_splits)

abbreviation monitored :: "IPACM_Config \<Rightarrow> ipa_rm_client list" where
  "monitored c \<equiv> take IPA_MAX_PRIVATE_SUBNET_ENTRIES (ipa_rm_tbl c)"

abbreviation deps :: "ipa_rm_resource_name \<times> ipa_rm_resource_name \<Rightarrow> IPACM_Config \<Rightarrow> int" where
  "deps d c \<equiv> sum_list (map (row_deps d) (monitored c))"

lemma AddRmDepend_rows:
  "AddRmDepend rm1 b c = (c', out) \<Longrightarrow>
     monitored c' = map (\<lambda>e. fst (add_row rm1 b e)) (monitored c) \<and>
     out = concat (map (\<lambda>e. snd (add_row rm1 b e)) (monitored c))"
  by (auto simp: AddRmDepend_def map_state_output[where f = "add_rm_row rm1 b", OF add_rm_row_out]
      Let_def min_def split: if_splits)

lemma DelRmDepend_rows:
  "DelRmDepend rm1 c = (c', out) \<Longrightarrow>
     \<exists>a2. monitored c' = map (\<lambda>e. fst (del_row rm1 a2 e)) (monitored c) \<and>
       out = concat (map (\<lambda>e. snd (del_row rm1 a2 e)) (monitored c)) \<and> a2 = ipa_rm_a2_check c' \<and>
       a2 = (if rm1 = IPA_RM_RESOURCE_Q6_CONS then ipa_rm_a2_check c - 1 else ipa_rm_a2_check c)"
  by (auto simp: DelRmDepend_def map_state_output[where f = "del_rm_row rm1 a2" for a2, OF del_rm_row_out]
      Let_def min_def split: if_splits)

lemma rows_step:
  assumes "\<forall>e \<in> set rs. row_inv b e"
    and "\<And>e. row_inv b e \<Longrightarrow> row_step b e (f e)"
  shows "(\<forall>e \<in> set (map (\<lambda>e. fst (f e)) rs). row_inv b e) \<and>
    sum_list (map (row_deps d) (map (\<lambda>e. fst (f e)) rs)) =
      sum_list (map (row_deps d) rs) + net d (concat (map (\<lambda>e. snd (f e)) rs))"
  using assms by (induction rs) (auto dest: row_stepD)

text \<open>A script of dependency requests, each producer always with the same bypass flag.\<close>

datatype rm_op = RmAdd ipa_rm_resource_name | RmDel ipa_rm_resource_name

fun run_rm :: "(ipa_rm_resource_name \<Rightarrow> bool) \<Rightarrow> rm_op list \<Rightarrow> IPACM_Config \<Rightarrow> IPACM_Config \<times> rm_ioctl list" where
  "run_rm b [] c = (c, [])"
| "run_rm b (op # ops) c =
     (let (c1, o1) = (case op of RmAdd r \<Rightarrow> AddRmDepend r (b r) c | RmDel r \<Rightarrow> DelRmDepend r c);
          (c2, o2) = run_rm b ops c1
      in (c2, o1 @ o2))"

lemma rm_op_step:
  assumes "\<forall>e \<in> set (monitored c). row_inv b e"
    and "(case op of RmAdd r \<Rightarrow> AddRmDepend r (b r) c | RmDel r \<Rightarrow> DelRmDepend r c) = (c1, o1)"
  shows "(\<forall>e \<in> set (monitored c1). row_inv b e) \<and> deps d c1 = deps d c + net d o1"
proof (cases op)
  case (RmAdd r)
  with assms(2) have "AddRmDepend r (b r) c = (c1, o1)" by simp
  note e = AddRmDepend_rows[OF this]
  show ?thesis using rows_step[OF assms(1), of "add_row r (b r)" d] add_row_step e by simp
next
  case (RmDel r)
  with assms(2) have "DelRmDepend r c = (c1, o1)" by simp
  from DelRmDepend_rows[OF this] obtain a2 where e:
    "monitored c1 = map (\<lambda>e. fst (del_row r a2 e)) (monitored c)"
    "o1 = concat (map (\<lambda>e. snd (del_row r a2 e)) (monitored c))" by blast
  show ?thesis using rows_step[OF assms(1), of "del_row r a2" d] del_row_step e by simp
qed

lemma run_rm_inv:
  assumes "\<forall>e \<in> set (monitored c). row_inv b e" "run_rm b ops c = (c', out)"
  shows "(\<forall>e \<in> set (monitored c'). row_inv b e) \<and> deps d c' = deps d c + net d out"
  using assms
proof (induction ops arbitrary: c out)
  case Nil
  then show ?case by simp
next
  case (Cons op ops)
  obtain c1 o1 where 1: "(case op of RmAdd r \<Rightarrow> AddRmDepend r (b r) c | RmDel r \<Rightarrow> DelRmDepend r c) = (c1, o1)"
    by (cases "case op of RmAdd r \<Rightarrow> AddRmDepend r (b r) c | RmDel r \<Rightarrow> DelRmDepend r c")
  obtain o2 where 2: "run_rm b ops c1 = (c', o2)" "out = o1 @ o2"
    using Cons.prems(2) 1 by (cases "run_rm b ops c1") auto
  note s = rm_op_step[OF Cons.prems(1) 1, of d]
  from Cons.IH[OF _ 2(1)] s 2(2) show ?case by simp
qed

section \<open>Extended properties\<close>

abbreviation of_ip :: "ipa_ip_type \<Rightarrow> ipa_ioc_ext_intf_prop list \<Rightarrow> ipa_ioc_ext_intf_prop list" where
  "of_ip t \<equiv> filter (\<lambda>p. ext_ip p = t)"

lemma set_ext_loop_eq:
  assumes "length (ext_prop_v4 c) \<le> MAX_NUM_EXT_PROPS" "length (ext_prop_v6 c) \<le> MAX_NUM_EXT_PROPS"
    and "qs = takeWhile (\<lambda>p. ext_ip p \<noteq> IPA_IP_MAX) ps"
  shows "set_ext_loop ps c = (if qs = ps then IPACM_SUCCESS else IPACM_FAILURE,
     c\<lparr>ext_prop_v4 := take MAX_NUM_EXT_PROPS (ext_prop_v4 c @ of_ip IPA_IP_v4 qs),
       ext_prop_v6 := take MAX_NUM_EXT_PROPS (ext_prop_v6 c @ of_ip IPA_IP_v6 qs)\<rparr>)"
  using assms
proof (induction ps c arbitrary: qs rule: set_ext_loop.induct)
  case (1 c)
  then show ?case by simp
next
  case (2 p ps c)
  let ?qs = "takeWhile (\<lambda>p. ext_ip p \<noteq> IPA_IP_MAX) ps"
  show ?case
  proof (cases "ext_ip p")
    case IPA_IP_v4
    then show ?thesis using 2(1,2)[of ?qs] 2(5-7) by (cases "MAX_NUM_EXT_PROPS \<le> length (ext_prop_v4 c)") auto
  next
    case IPA_IP_v6
    then show ?thesis using 2(3,4)[of ?qs] 2(5-7) by (cases "MAX_NUM_EXT_PROPS \<le> length (ext_prop_v6 c)") auto
  next
    case IPA_IP_MAX
    then show ?thesis using 2(5-7) by simp
  qed
qed

section \<open>The configuration after \<open>Init\<close>\<close>

lemma Init_success:
  assumes "Init mem (Some cfg) c = Inr (IPACM_SUCCESS, c0)"
  shows "pNatIfaces c0 = replicate (length (conf_ifaces cfg)) []"
    "ipa_num_ipa_interfaces c0 = length (conf_ifaces cfg)"
    "ipa_nat_iface_entries c0 = ipa_nat_iface_entries c"
    "ipa_num_private_subnet c0 = length (conf_subnets cfg)"
    "length (conf_subnets cfg) \<le> IPA_MAX_PRIVATE_SUBNET_ENTRIES"
    "private_subnet_table c0 = conf_subnets cfg @
       replicate (IPA_MAX_PRIVATE_SUBNET_ENTRIES - length (conf_subnets cfg)) zero_subnet"
    "alg_table c0 = conf_algs cfg" "ipa_num_alg_ports c0 = length (conf_algs cfg)"
    "ipa_rm_tbl c0 = init_rm_tbl (ipa_rm_tbl c)" "\<not> iface_table_freed c0" "\<not> alg_table_freed c0"
  using assms by (auto simp: Init_def Let_def split: if_splits)

lemma Init_nat_ifaces:
  assumes "Init mem (Some cfg) c = Inr (IPACM_SUCCESS, c0)" "ipa_nat_iface_entries c \<le> length (conf_ifaces cfg)"
  shows "nat_ifaces (length (conf_ifaces cfg)) c0 (replicate (ipa_nat_iface_entries c) [])"
  using Init_success[OF assms(1)] assms(2) by (simp add: nat_ifaces_def)

lemma Init_subnets:
  assumes "Init mem (Some cfg) c = Inr (IPACM_SUCCESS, c0)"
    and "\<forall>s \<in> set (conf_subnets cfg). subnet_mask s = subnet24_mask"
  shows "subnets c0 (map subnet_addr (conf_subnets cfg))"
proof -
  have "map sn (map subnet_addr (conf_subnets cfg)) = conf_subnets cfg"
    using assms(2) by (intro nth_equalityI) (auto simp: all_set_conv_all_nth)
  then show ?thesis using Init_success[OF assms(1)] by (simp add: subnets_def)
qed

lemma Init_rm_rows:
  assumes "Init mem xml (IPACM_Config_new rm0) = Inr (IPACM_SUCCESS, c0)"
  shows "(\<forall>e \<in> set (monitored c0). row_inv b e) \<and> deps d c0 = 0"
proof -
  obtain cfg where "xml = Some cfg" using assms by (cases xml) (auto simp: Init_def split: if_splits)
  with assms have "ipa_rm_tbl c0 = init_rm_tbl (replicate IPA_MAX_RM_ENTRY (zero_rm rm0))"
    using Init_success(9) by (fastforce simp: IPACM_Config_new_def)
  then show ?thesis
    by (simp add: init_rm_tbl_def IPA_MAX_RM_ENTRY_def IPA_MAX_PRIVATE_SUBNET_ENTRIES_def numeral_eq_Suc
        set_rm_names_def zero_rm_def row_inv_def row_deps_def)
qed

section \<open>Properties\<close>

text \<open>C7. The table of NAT interfaces behaves like a list: after a successful \<open>Init\<close> that read \<open>n\<close>
  interfaces, the first one or one that reads the configuration again, the list is as long as it was before (not longer than \<open>n\<close>), all its
  names having become empty; from there, every script of \<open>AddNatIfaces\<close> and \<open>DelNatIfaces\<close> that never holds \<open>n\<close> names or more
  runs without an access out of bounds, \<open>AddNatIfaces\<close> appends, \<open>DelNatIfaces\<close> removes the first
  occurrence and closes the gap, and \<open>GetNatIfaces\<close> called with \<open>GetNatIfacesCnt\<close> returns the list. Names have at
  most 15 characters, as those of the kernel, so that they fit into the arrays of 16.\<close>

theorem nat_ifaces_script:
  assumes "Init mem (Some cfg) c = Inr (IPACM_SUCCESS, c0)" and "ipa_nat_iface_entries c \<le> length (conf_ifaces cfg)"
    and "tbl_spec (\<lambda>x xs. xs @ [x]) (length (conf_ifaces cfg) - 1) ops (replicate (ipa_nat_iface_entries c) []) = Some ys"
  shows "\<exists>c'. run_tbl add_nat_iface del_nat_iface ops c0 = Inr c' \<and> GetNatIfacesCnt c' = length ys \<and>
     (ys \<noteq> [] \<longrightarrow> GetNatIfaces (int (length ys)) (Some (replicate (length ys) [])) c' = Inr (0, ys))"
proof -
  obtain c' where c': "run_tbl add_nat_iface del_nat_iface ops c0 = Inr c'"
      "nat_ifaces (length (conf_ifaces cfg)) c' ys"
    using natif.run_tbl_rep[OF Init_nat_ifaces[OF assms(1,2)] assms(3)] by blast
  then show ?thesis by (auto simp: nat_ifaces_def GetNatIfacesCnt_def GetNatIfaces_def)
qed

definition ex_cfg :: IPACM_conf_t where
  "ex_cfg = \<lparr>conf_ifaces = [(''rmnet0'', WAN_IF), (''wlan0'', WLAN_IF), (''rndis0'', LAN_IF)],
     conf_subnets = [\<lparr>subnet_addr = 0xC0A80100, subnet_mask = 0xFFFFFF00\<rparr>],
     conf_algs = [\<lparr>alg_protocol = 6, alg_port = 21\<rparr>], conf_nat_max_entries = 500,
     conf_odu_enable = False, conf_router_mode_enable = False\<rparr>"

definition ex_config :: IPACM_Config where
  "ex_config = (case Init [True, True, True, True] (Some ex_cfg) (IPACM_Config_new IPA_RM_RESOURCE_Q6_PROD) of
     Inr (r, c) \<Rightarrow> c | Inl _ \<Rightarrow> IPACM_Config_new IPA_RM_RESOURCE_Q6_PROD)"

lemma ex_config_Init:
  "Init [True, True, True, True] (Some ex_cfg) (IPACM_Config_new IPA_RM_RESOURCE_Q6_PROD) =
     Inr (IPACM_SUCCESS, ex_config)"
  by (simp add: ex_config_def Init_def ex_cfg_def Let_def IPA_MAX_IFACE_ENTRIES_def
      IPA_MAX_ALG_ENTRIES_def IPA_MAX_PRIVATE_SUBNET_ENTRIES_def IPACM_Config_new_def)

definition ex_config2 :: IPACM_Config where
  "ex_config2 = (case Init [True, True, True, True] (Some ex_cfg) (snd (AddNatIfaces ''wlan0'' ex_config)) of
     Inr (r, c) \<Rightarrow> c | Inl _ \<Rightarrow> ex_config)"

lemma ex_config2_Init:
  "Init [True, True, True, True] (Some ex_cfg) (snd (AddNatIfaces ''wlan0'' ex_config)) = Inr (IPACM_SUCCESS, ex_config2)"
  by (simp add: ex_config2_def ex_config_def AddNatIfaces_def Init_def ex_cfg_def Let_def IPA_MAX_IFACE_ENTRIES_def
      IPA_MAX_ALG_ENTRIES_def IPA_MAX_PRIVATE_SUBNET_ENTRIES_def IPACM_Config_new_def)

text \<open>The names are added after the first \<open>Init\<close>; and after a second one, which finds a name in the list.\<close>

theorem nat_ifaces_script_witness:
  "(\<exists>c'. run_tbl add_nat_iface del_nat_iface
       [TAdd ''wlan0'', TAdd ''rndis0'', TDel ''wlan0''] ex_config = Inr c' \<and>
     GetNatIfacesCnt c' = 1 \<and> GetNatIfaces 1 (Some [[]]) c' = Inr (0, [''rndis0''])) \<and>
   (\<exists>c'. run_tbl add_nat_iface del_nat_iface [TAdd ''rndis0''] ex_config2 = Inr c' \<and>
     GetNatIfacesCnt c' = 2 \<and> GetNatIfaces 2 (Some [[], []]) c' = Inr (0, [[], ''rndis0'']))"
proof
  show "\<exists>c'. run_tbl add_nat_iface del_nat_iface
       [TAdd ''wlan0'', TAdd ''rndis0'', TDel ''wlan0''] ex_config = Inr c' \<and>
     GetNatIfacesCnt c' = 1 \<and> GetNatIfaces 1 (Some [[]]) c' = Inr (0, [''rndis0''])"
    using nat_ifaces_script[OF ex_config_Init, of "[TAdd ''wlan0'', TAdd ''rndis0'', TDel ''wlan0'']" "[''rndis0'']"]
    by (simp add: ex_cfg_def IPACM_Config_new_def)
  have "ipa_nat_iface_entries (snd (AddNatIfaces ''wlan0'' ex_config)) = 1"
    by (simp add: AddNatIfaces_def ex_config_def Init_def ex_cfg_def Let_def IPA_MAX_IFACE_ENTRIES_def
        IPA_MAX_ALG_ENTRIES_def IPA_MAX_PRIVATE_SUBNET_ENTRIES_def IPACM_Config_new_def)
  then show "\<exists>c'. run_tbl add_nat_iface del_nat_iface [TAdd ''rndis0''] ex_config2 = Inr c' \<and>
     GetNatIfacesCnt c' = 2 \<and> GetNatIfaces 2 (Some [[], []]) c' = Inr (0, [[], ''rndis0''])"
    using nat_ifaces_script[OF ex_config2_Init, of "[TAdd ''rndis0'']" "[[], ''rndis0'']"] by (simp add: ex_cfg_def numeral_2_eq_2)
qed

text \<open>The capacity in \<open>nat_ifaces_script\<close> is one short of the table: with \<open>n - 1\<close> names stored, the next
  \<open>AddNatIfaces\<close> counts its name without storing it (the last of the \<open>n\<close> rows is never used), and one
  more call makes the count exceed the table, so that the copy of \<open>GetNatIfacesCnt\<close> rows reads out of
  bounds.\<close>

theorem nat_ifaces_overflow:
  assumes "nat_ifaces n c xs" and "Suc (length xs) = n"
    and "AddNatIfaces d1 c = (r1, c1)" and "AddNatIfaces d2 c1 = (r2, c2)"
  shows "pNatIfaces c1 = pNatIfaces c \<and> GetNatIfacesCnt c1 = n \<and>
    GetNatIfaces (int (GetNatIfacesCnt c2)) (Some (replicate (GetNatIfacesCnt c2) [])) c2 = Inl OutOfBounds"
  using assms by (auto simp: AddNatIfaces_def nat_ifaces_def GetNatIfacesCnt_def GetNatIfaces_def Let_def)

definition ex_full :: IPACM_Config where
  "ex_full = (IPACM_Config_new IPA_RM_RESOURCE_Q6_PROD)
     \<lparr>pNatIfaces := [[]], ipa_num_ipa_interfaces := 1\<rparr>"

theorem nat_ifaces_overflow_witness:
  "pNatIfaces (snd (AddNatIfaces ''wlan0'' ex_full)) = [[]]"
  using nat_ifaces_overflow[of 1 ex_full "[]" "''wlan0''" _ _ "''rndis0''",
      OF _ _ prod.collapse[symmetric] prod.collapse[symmetric]]
  by (simp add: nat_ifaces_def ex_full_def IPACM_Config_new_def)

text \<open>C8. Private subnets: after a successful \<open>Init\<close> whose subnets all have 24-bit masks, and any
  script of \<open>AddPrivateSubnet\<close> and \<open>DelPrivateSubnet\<close> that adds only while there is room,
  \<open>isPrivateSubnet\<close> accepts exactly the addresses whose 24-bit prefix is in the resulting list; the
  table never holds more than \<open>IPA_MAX_PRIVATE_SUBNET_ENTRIES\<close>.\<close>

theorem private_subnet_script:
  assumes "Init mem (Some cfg) c = Inr (IPACM_SUCCESS, c0)"
    and "\<forall>s \<in> set (conf_subnets cfg). subnet_mask s = subnet24_mask"
    and "tbl_spec ins_subnet IPA_MAX_PRIVATE_SUBNET_ENTRIES ops (map subnet_addr (conf_subnets cfg)) = Some ys"
  shows "\<exists>c'. run_tbl add_subnet del_subnet ops c0 = Inr c' \<and>
     ipa_num_private_subnet c' = length ys \<and> length ys \<le> IPA_MAX_PRIVATE_SUBNET_ENTRIES \<and>
     (\<forall>ip. isPrivateSubnet ip c' \<longleftrightarrow> (0xFFFFFF00 AND ip) \<in> set ys)"
proof -
  obtain c' where c': "run_tbl add_subnet del_subnet ops c0 = Inr c'" "subnets c' ys"
    using subn.run_tbl_rep[OF Init_subnets[OF assms(1,2)] assms(3)] by blast
  then show ?thesis using isPrivateSubnet_rep[OF c'(2)] by (auto simp: subnets_def)
qed

theorem private_subnet_script_witness:
  "\<exists>c'. run_tbl add_subnet del_subnet [TAdd 0xC0A82A00, TDel 0xC0A80100] ex_config = Inr c' \<and>
     isPrivateSubnet 0xC0A82A07 c' \<and> \<not> isPrivateSubnet 0xC0A80105 c'"
  using private_subnet_script[OF ex_config_Init, of "[TAdd 0xC0A82A00, TDel 0xC0A80100]" "[0xC0A82A00]"]
  by (auto simp: ex_cfg_def ins_subnet_def IPA_MAX_PRIVATE_SUBNET_ENTRIES_def)

text \<open>\<open>DelPrivateSubnet\<close> moves addresses but leaves every mask in its row, so that with unequal
  masks a subnet that moves up takes over the mask of the row before it.\<close>

theorem DelPrivateSubnet_masks_stay:
  assumes "DelPrivateSubnet mem a i c = (r, out, c')"
  shows "map subnet_mask (private_subnet_table c') = map subnet_mask (private_subnet_table c)"
proof -
  have "map subnet_mask (shift_subnets j n t) = map subnet_mask t" for j n t
  proof (induction j n t rule: shift_subnets.induct)
    case (1 j n t)
    then show ?case
      by (cases "j < length t") (simp_all add: shift_subnets.simps[of j] map_update list_update_same_conv list_update_beyond)
  qed
  then show ?thesis using assms by (auto simp: DelPrivateSubnet_def Let_def split: option.splits if_splits)
qed

definition ex_masks :: IPACM_Config where
  "ex_masks = (IPACM_Config_new IPA_RM_RESOURCE_Q6_PROD)\<lparr>private_subnet_table :=
       [\<lparr>subnet_addr = 0x0A000000, subnet_mask = 0xFF000000\<rparr>,
        \<lparr>subnet_addr = 0xC0A80100, subnet_mask = 0xFFFFFF00\<rparr>, zero_subnet],
     ipa_num_private_subnet := 2\<rparr>"

theorem DelPrivateSubnet_masks_stay_witness:
  "\<exists>r out c'. DelPrivateSubnet True 0x0A000000 3 ex_masks = (r, out, c') \<and>
     map subnet_mask (private_subnet_table c') = [0xFF000000, 0xFFFFFF00, 0]"
proof -
  obtain r out c' where d: "DelPrivateSubnet True 0x0A000000 3 ex_masks = (r, out, c')"
    by (cases "DelPrivateSubnet True 0x0A000000 3 ex_masks")
  moreover have "map subnet_mask (private_subnet_table ex_masks) = [0xFF000000, 0xFFFFFF00, 0]"
    by (simp add: ex_masks_def zero_subnet_def)
  ultimately show ?thesis using DelPrivateSubnet_masks_stay[OF d] by simp
qed

text \<open>C9. Resource-manager dependencies: for every sequence of \<open>AddRmDepend\<close> and \<open>DelRmDepend\<close> calls
  after a successful \<open>Init\<close>, with a fixed bypass flag per producer, each monitored row is set exactly
  when its producer and its consumer are both up, and the dependencies added minus the dependencies
  deleted through the ioctls are exactly those of the rows that are set: nothing is added twice,
  leaked, or deleted without having been added.\<close>

theorem rm_ledger:
  assumes "Init mem xml (IPACM_Config_new rm0) = Inr (IPACM_SUCCESS, c0)"
    and "run_rm b ops c0 = (c', out)"
  shows "(\<forall>e \<in> set (monitored c'). rm_set e \<longleftrightarrow> producer1_up e \<and> consumer1_up e) \<and>
    (\<forall>d. net d out = sum_list (map (row_deps d) (monitored c')))"
proof -
  have r: "\<forall>e \<in> set (monitored c0). row_inv b e" using Init_rm_rows[OF assms(1)] by blast
  have "\<forall>e \<in> set (monitored c'). row_inv b e" using run_rm_inv[OF r assms(2)] by blast
  moreover have "net d out = deps d c'" for d
    using run_rm_inv[OF r assms(2), of d] Init_rm_rows[OF assms(1), of b d] by simp
  ultimately show ?thesis by (simp add: row_inv_def)
qed

theorem rm_ledger_witness:
  "\<exists>c' out. run_rm (\<lambda>_. False) [RmAdd IPA_RM_RESOURCE_WLAN_PROD, RmAdd IPA_RM_RESOURCE_Q6_CONS] ex_config = (c', out) \<and>
     net (IPA_RM_RESOURCE_WLAN_PROD, IPA_RM_RESOURCE_Q6_CONS) out = 1 \<and>
     sum_list (map (row_deps (IPA_RM_RESOURCE_WLAN_PROD, IPA_RM_RESOURCE_Q6_CONS)) (monitored c')) = 1"
proof -
  let ?ops = "[RmAdd IPA_RM_RESOURCE_WLAN_PROD, RmAdd IPA_RM_RESOURCE_Q6_CONS]"
  let ?r = "run_rm (\<lambda>_. False) ?ops ex_config"
  have "net (IPA_RM_RESOURCE_WLAN_PROD, IPA_RM_RESOURCE_Q6_CONS) (snd ?r) = 1" by code_simp
  moreover have "?r = (fst ?r, snd ?r)" by simp
  ultimately show ?thesis using rm_ledger[OF ex_config_Init, of "\<lambda>_. False" ?ops "fst ?r" "snd ?r"]
    by (intro exI[of _ "fst ?r"] exI[of _ "snd ?r"]) simp
qed

text \<open>\<open>SetExtProp\<close> keeps the properties of each IP type in order, up to 15 of each, stops with
  IPACM_FAILURE at the first one of an unexpected type with those before it stored, and \<open>GetExtProp\<close>
  returns what was stored.\<close>

theorem SetExtProp_stores:
  assumes "length (ext_prop_v4 c) \<le> MAX_NUM_EXT_PROPS" and "length (ext_prop_v6 c) \<le> MAX_NUM_EXT_PROPS"
    and "ps \<noteq> []" and "SetExtProp (Some ps) c = (r, c')"
  shows "(r = IPACM_SUCCESS \<longleftrightarrow> (\<forall>p \<in> set ps. ext_ip p \<noteq> IPA_IP_MAX)) \<and>
    GetExtProp IPA_IP_v4 c' = Some (take 15 (ext_prop_v4 c @
      of_ip IPA_IP_v4 (takeWhile (\<lambda>p. ext_ip p \<noteq> IPA_IP_MAX) ps))) \<and>
    GetExtProp IPA_IP_v6 c' = Some (take 15 (ext_prop_v6 c @
      of_ip IPA_IP_v6 (takeWhile (\<lambda>p. ext_ip p \<noteq> IPA_IP_MAX) ps)))"
proof -
  have "set_ext_loop ps c = (r, c')" using assms(3,4) by (simp add: SetExtProp_def)
  with set_ext_loop_eq[OF assms(1,2) refl, of ps] show ?thesis
    by (auto simp: GetExtProp_def MAX_NUM_EXT_PROPS_def takeWhile_eq_all_conv split: if_splits)
qed

theorem SetExtProp_stores_witness:
  "GetExtProp IPA_IP_v6 (snd (SetExtProp (Some [\<lparr>ext_ip = IPA_IP_v6, ext_rest = 1\<rparr>,
     \<lparr>ext_ip = IPA_IP_MAX, ext_rest = 2\<rparr>]) ex_config)) = Some [\<lparr>ext_ip = IPA_IP_v6, ext_rest = 1\<rparr>]"
proof -
  have e: "ext_prop_v4 ex_config = []" "ext_prop_v6 ex_config = []"
    by (simp_all add: ex_config_def Init_def ex_cfg_def Let_def IPA_MAX_IFACE_ENTRIES_def
      IPA_MAX_ALG_ENTRIES_def IPA_MAX_PRIVATE_SUBNET_ENTRIES_def IPACM_Config_new_def)
  show ?thesis
    using SetExtProp_stores[OF _ _ _ surjective_pairing, of ex_config] by (simp add: e)
qed

end
