(* ===== verification/Nat_App.thy ===== *)
theory Nat_App
  imports Ipacm_Config
begin

text \<open>
  The NAT application object \<^verbatim>\<open>IPACM_Conntrack_NATApp.h/.cpp\<close>: the cache of connections, the temporary
  entries, the power-save clients, and every operation on them. The NAT driver library and
  libnetfilter_conntrack are a record of functions over an environment state, an argument of each
  operation that calls them, so the theorems hold for every behaviour of that code, or for every
  driver that satisfies the stated laws.
\<close>

section \<open>Data\<close>

definition MAX_TEMP_ENTRIES :: nat where "MAX_TEMP_ENTRIES = 25"
definition IPA_MAX_NUM_WIFI_CLIENTS :: nat where "IPA_MAX_NUM_WIFI_CLIENTS = 32"
definition INVALID_IP_ADDR :: u32 where "INVALID_IP_ADDR = 0"
definition IPPROTO_TCP :: u8 where "IPPROTO_TCP = 6"
definition IPPROTO_UDP :: u8 where "IPPROTO_UDP = 17"
definition AF_INET :: u8 where "AF_INET = 2"

text \<open>The member \<open>public_ip\<close> is 16 bits wide in the source.\<close>

record nat_table_entry =
  private_ip :: u32
  private_port :: u16
  target_ip :: u32
  target_port :: u16
  public_ip :: u16
  public_port :: u16
  protocol :: u8
  timestamp :: u32
  dst_nat :: bool
  enabled :: bool
  rule_hdl :: u32

record ipa_nat_ipv4_rule =
  r_target_ip :: u32
  r_private_ip :: u32
  r_target_port :: u16
  r_private_port :: u16
  r_public_port :: u16
  r_protocol :: u8

text \<open>The attributes of the conntrack object that a time-stamp update sends to the kernel.\<close>

record nf_conntrack =
  ATTR_L3PROTO :: u8
  ATTR_L4PROTO :: u8
  ATTR_TIMEOUT :: u32
  ATTR_IPV4_SRC :: u32
  ATTR_PORT_SRC :: u16
  ATTR_IPV4_DST :: u32
  ATTR_PORT_DST :: u16

text \<open>The library calls; the driver takes the number of entries as a \<open>uint16_t\<close>. An out parameter appears as an argument (its value before the call) and as
  a result (its value after it).\<close>

record 'd nat_env =
  ipa_nat_add_ipv4_tbl :: "u32 \<Rightarrow> u16 \<Rightarrow> u32 \<Rightarrow> 'd \<Rightarrow> int \<times> u32 \<times> 'd"
  ipa_nat_del_ipv4_tbl :: "u32 \<Rightarrow> 'd \<Rightarrow> int \<times> 'd"
  ipa_nat_add_ipv4_rule :: "u32 \<Rightarrow> ipa_nat_ipv4_rule \<Rightarrow> u32 \<Rightarrow> 'd \<Rightarrow> int \<times> u32 \<times> 'd"
  ipa_nat_del_ipv4_rule :: "u32 \<Rightarrow> u32 \<Rightarrow> 'd \<Rightarrow> int \<times> 'd"
  ipa_nat_query_timestamp :: "u32 \<Rightarrow> u32 \<Rightarrow> u32 \<Rightarrow> 'd \<Rightarrow> int \<times> u32 \<times> 'd"
  nfct_open :: "'d \<Rightarrow> ptr \<times> 'd"
  nfct_new :: "'d \<Rightarrow> ptr \<times> 'd"
  nfct_query :: "nf_conntrack \<Rightarrow> 'd \<Rightarrow> int \<times> 'd"

text \<open>The object. \<open>cache\<close> is the array of \<open>max_entries\<close> entries, \<open>pALGPorts\<close> that of \<open>nALGPort\<close> ports.\<close>

record natapp =
  cache :: "nat_table_entry list"
  temp :: "nat_table_entry list"
  pub_ip_addr :: u32
  pub_ip_addr_pre :: u32
  nat_table_hdl :: u32
  curCnt :: int
  max_entries :: int
  pALGPorts :: "ipacm_alg list"
  nALGPort :: nat
  tcp_timeout :: u32
  udp_timeout :: u32
  PwrSaveIfs :: "u32 list"
  ct :: ptr
  ct_hdl :: ptr

definition zero_entry :: nat_table_entry where
  "zero_entry = \<lparr>private_ip = 0, private_port = 0, target_ip = 0, target_port = 0, public_ip = 0,
     public_port = 0, protocol = 0, timestamp = 0, dst_nat = False, enabled = False, rule_hdl = 0\<rparr>"

text \<open>The comparison of two connections, and the test for an unused cache entry.\<close>

definition same_conn :: "nat_table_entry \<Rightarrow> nat_table_entry \<Rightarrow> bool" where
  "same_conn e r \<longleftrightarrow> private_ip e = private_ip r \<and> target_ip e = target_ip r \<and>
     private_port e = private_port r \<and> target_port e = target_port r \<and> protocol e = protocol r"

definition free_entry :: "nat_table_entry \<Rightarrow> bool" where
  "free_entry e \<longleftrightarrow> private_ip e = 0 \<and> target_ip e = 0 \<and> private_port e = 0 \<and> target_port e = 0 \<and> protocol e = 0"

definition invalid_conn :: "nat_table_entry \<Rightarrow> bool" where
  "invalid_conn r \<longleftrightarrow> private_ip r = 0 \<or> target_ip r = 0 \<or> private_port r = 0 \<or> target_port r = 0 \<or> protocol r = 0"

definition rule_of :: "nat_table_entry \<Rightarrow> ipa_nat_ipv4_rule" where
  "rule_of e = \<lparr>r_target_ip = target_ip e, r_private_ip = private_ip e, r_target_port = target_port e,
     r_private_port = private_port e, r_public_port = public_port e, r_protocol = protocol e\<rparr>"

section \<open>Construction\<close>

text \<open>The constructor does not write \<open>pub_ip_addr_pre\<close>, the timeouts and \<open>PwrSaveIfs\<close>: they have the
  values of \<open>mem\<close>, the memory the object is placed in.\<close>

definition NatApp_new :: "natapp \<Rightarrow> natapp" where
  "NatApp_new mem = mem\<lparr>max_entries := 0, cache := [], nat_table_hdl := 0, pub_ip_addr := 0,
     curCnt := 0, pALGPorts := [], nALGPort := 0, ct := None, ct_hdl := None,
     temp := replicate MAX_TEMP_ENTRIES zero_entry\<rparr>"

text \<open>\<open>Init\<close>: \<open>m1\<close> and \<open>m2\<close> say whether the two allocations succeed, \<open>cfg\<close> is what
  \<open>IPACM_Config::GetInstance\<close> returns.\<close>

definition NatApp_Init :: "bool \<Rightarrow> bool \<Rightarrow> IPACM_Config option \<Rightarrow> natapp \<Rightarrow> fault + int \<times> natapp" where
  "NatApp_Init m1 m2 cfg n =
     (case cfg of
        None \<Rightarrow> Inr (-1, n)
      | Some pConfig \<Rightarrow>
          (let n1 = n\<lparr>max_entries := GetNatMaxEntries pConfig\<rparr>
           in if \<not> m1 then Inr (-1, n1)
              else (let n2 = n1\<lparr>cache := replicate (nat (max_entries n1)) zero_entry,
                          nALGPort := GetAlgPortCnt pConfig\<rparr>
                    in if \<not> m2 then Inr (-1, n2)
                       else (case GetAlgPorts (int (nALGPort n2))
                                    (Some (replicate (nALGPort n2) \<lparr>alg_protocol = 0, alg_port = 0\<rparr>)) pConfig of
                               Inl e \<Rightarrow> Inl e
                             | Inr (r, ports) \<Rightarrow>
                                 if r \<noteq> 0 then Inr (-1, n2) else Inr (0, n2\<lparr>pALGPorts := ports\<rparr>)))))"

text \<open>\<open>GetInstance\<close>; after a failed \<open>Init\<close> the object is deleted and \<open>pInstance\<close> is not cleared.\<close>

definition NatApp_GetInstance ::
  "natapp \<Rightarrow> bool \<Rightarrow> bool \<Rightarrow> IPACM_Config option \<Rightarrow> natapp instance_ptr \<Rightarrow> fault + bool \<times> natapp instance_ptr" where
  "NatApp_GetInstance mem m1 m2 cfg p =
     (case p of
        NoInstance \<Rightarrow>
          (case NatApp_Init m1 m2 cfg (NatApp_new mem) of
             Inl e \<Rightarrow> Inl e
           | Inr (r, n) \<Rightarrow> if r \<noteq> 0 then Inr (False, Dangling) else Inr (True, Live n))
      | Live n \<Rightarrow> Inr (True, Live n)
      | Dangling \<Rightarrow> Inr (True, Dangling))"

section \<open>The NAT table\<close>

text \<open>One step of the loops that add cached entries back to the hardware table: an entry the driver
  refuses is dropped from the cache.\<close>

definition restore_entry ::
  "'d nat_env \<Rightarrow> u32 \<Rightarrow> nat_table_entry \<Rightarrow> int \<times> 'd \<Rightarrow> nat_table_entry \<times> int \<times> 'd" where
  "restore_entry env h e s =
     (let (cnt, d) = s; (ret, hdl, d') = ipa_nat_add_ipv4_rule env h (rule_of e) (rule_hdl e) d
      in if ret < 0 then (zero_entry, cnt - 1, d')
         else (e\<lparr>rule_hdl := hdl, enabled := True\<rparr>, cnt, d'))"

definition AddTable :: "'d nat_env \<Rightarrow> u32 \<Rightarrow> natapp \<times> 'd \<Rightarrow> int \<times> natapp \<times> 'd" where
  "AddTable env pub_ip s =
     (let (n, d) = s;
          (ret, h, d1) = ipa_nat_add_ipv4_tbl env pub_ip (of_int (max_entries n)) (nat_table_hdl n) d;
          n1 = n\<lparr>nat_table_hdl := h\<rparr>
      in if ret \<noteq> 0 then (ret, n1, d1)
         else (let (n2, d2) =
                 (if pub_ip = pub_ip_addr_pre n1
                  then (let (c, cnt, d') = map_state
                              (\<lambda>e s. if private_ip e \<noteq> 0 then restore_entry env h e s else (e, s))
                              (cache n1) (curCnt n1, d1)
                        in (n1\<lparr>cache := c, curCnt := cnt\<rparr>, d'))
                  else (n1, d1))
               in (0, n2\<lparr>pub_ip_addr := pub_ip\<rparr>, d2)))"

text \<open>\<open>Reset\<close>: the loop body is the comparison \<^verbatim>\<open>cache[cnt].enabled ==false;\<close>, which changes nothing.\<close>

definition Reset :: "natapp \<Rightarrow> natapp" where
  "Reset n = (let n1 = n\<lparr>nat_table_hdl := 0, pub_ip_addr := 0\<rparr>
              in n1\<lparr>cache := map (\<lambda>e. e) (cache n1)\<rparr>)"

definition DeleteTable :: "'d nat_env \<Rightarrow> u32 \<Rightarrow> natapp \<times> 'd \<Rightarrow> int \<times> natapp \<times> 'd" where
  "DeleteTable env pub_ip s =
     (let (n, d) = s
      in if nat_table_hdl n = 0 then (-1, n, d)
         else if pub_ip_addr n \<noteq> pub_ip then (-1, n, d)
         else (let (ret, d1) = ipa_nat_del_ipv4_tbl env (nat_table_hdl n) d
               in if ret \<noteq> 0 then (ret, n, d1)
                  else (0, Reset (n\<lparr>pub_ip_addr_pre := pub_ip_addr n\<rparr>), d1)))"

section \<open>Entries\<close>

definition ChkForDup :: "nat_table_entry \<Rightarrow> natapp \<Rightarrow> bool" where
  "ChkForDup rule n = (find_slot (\<lambda>e. same_conn e rule) (cache n) \<noteq> None)"

definition DeleteEntry :: "'d nat_env \<Rightarrow> nat_table_entry \<Rightarrow> natapp \<times> 'd \<Rightarrow> int \<times> natapp \<times> 'd" where
  "DeleteEntry env rule s =
     (let (n, d) = s
      in case find_slot (\<lambda>e. same_conn e rule) (cache n) of
           None \<Rightarrow> (0, n, d)
         | Some i \<Rightarrow>
             (let d1 = (if enabled (cache n ! i)
                        then snd (ipa_nat_del_ipv4_rule env (nat_table_hdl n) (rule_hdl (cache n ! i)) d)
                        else d)
              in (0, n\<lparr>cache := (cache n)[i := zero_entry], curCnt := curCnt n - 1\<rparr>, d1)))"

definition isAlgPort :: "u8 \<Rightarrow> u16 \<Rightarrow> natapp \<Rightarrow> bool" where
  "isAlgPort proto port n =
     (find_slot (\<lambda>a. proto = alg_protocol a \<and> port = alg_port a) (take (nALGPort n) (pALGPorts n)) \<noteq> None)"

definition isPwrSaveIf :: "u32 \<Rightarrow> natapp \<Rightarrow> bool" where
  "isPwrSaveIf ip_addr n = (find_slot (\<lambda>p. 0 \<noteq> p \<and> ip_addr = p) (PwrSaveIfs n) \<noteq> None)"

text \<open>What is written into the free slot; the driver call comes between the two updates.\<close>

definition fill_entry :: "nat_table_entry \<Rightarrow> nat_table_entry \<Rightarrow> nat_table_entry" where
  "fill_entry rule e = e\<lparr>private_ip := private_ip rule, target_ip := target_ip rule,
     target_port := target_port rule, private_port := private_port rule, protocol := protocol rule,
     timestamp := 0, public_port := public_port rule, dst_nat := dst_nat rule\<rparr>"

definition AddEntry :: "'d nat_env \<Rightarrow> nat_table_entry \<Rightarrow> natapp \<times> 'd \<Rightarrow> int \<times> natapp \<times> 'd" where
  "AddEntry env rule s =
     (let (n, d) = s
      in if nat_table_hdl n = 0 then (-1, n, d)
         else if isAlgPort (protocol rule) (private_port rule) n \<or> isAlgPort (protocol rule) (target_port rule) n
         then (-1, n, d)
         else if invalid_conn rule then (0, n, d)
         else if \<not> ChkForDup rule n then
           (case find_slot free_entry (cache n) of
              None \<Rightarrow> (-1, n, d)
            | Some cnt \<Rightarrow>
                (let e = cache n ! cnt
                 in if isPwrSaveIf (private_ip rule) n \<or> isPwrSaveIf (target_ip rule) n
                    then (0, n\<lparr>cache := (cache n)[cnt := fill_entry rule (e\<lparr>enabled := False, rule_hdl := 0\<rparr>)],
                               curCnt := curCnt n + 1\<rparr>, d)
                    else (let (ret, hdl, d1) = ipa_nat_add_ipv4_rule env (nat_table_hdl n) (rule_of rule) (rule_hdl e) d
                          in if ret < 0
                             then (-1, n\<lparr>cache := (cache n)[cnt := e\<lparr>rule_hdl := hdl\<rparr>]\<rparr>, d1)
                             else (0, n\<lparr>cache := (cache n)[cnt := fill_entry rule (e\<lparr>rule_hdl := hdl, enabled := True\<rparr>)],
                                        curCnt := curCnt n + 1\<rparr>, d1))))
         else (-1, n, d))"

section \<open>Time stamps\<close>

text \<open>Conversion to network byte order on the little-endian target.\<close>

definition htons :: "u16 \<Rightarrow> u16" where
  "htons w = push_bit 8 w OR drop_bit 8 w"

definition htonl :: "u32 \<Rightarrow> u32" where
  "htonl w = push_bit 24 w OR push_bit 8 (w AND 0xFF00) OR (drop_bit 8 w AND 0xFF00) OR drop_bit 24 w"

definition ct_of :: "nat_table_entry \<Rightarrow> natapp \<Rightarrow> nf_conntrack" where
  "ct_of rule n =
     (let c0 = \<lparr>ATTR_L3PROTO = AF_INET, ATTR_L4PROTO = protocol rule,
                ATTR_TIMEOUT = (if protocol rule = IPPROTO_UDP then udp_timeout n else tcp_timeout n),
                ATTR_IPV4_SRC = 0, ATTR_PORT_SRC = 0, ATTR_IPV4_DST = 0, ATTR_PORT_DST = 0\<rparr>
      in if \<not> dst_nat rule
         then c0\<lparr>ATTR_IPV4_SRC := htonl (private_ip rule), ATTR_PORT_SRC := htons (private_port rule),
                 ATTR_IPV4_DST := htonl (target_ip rule), ATTR_PORT_DST := htons (target_port rule)\<rparr>
         else c0\<lparr>ATTR_IPV4_SRC := htonl (target_ip rule), ATTR_PORT_SRC := htons (target_port rule),
                 ATTR_IPV4_DST := htonl (pub_ip_addr n), ATTR_PORT_DST := htons (public_port rule)\<rparr>)"

definition UpdateCTUdpTs ::
  "'d nat_env \<Rightarrow> nat_table_entry \<Rightarrow> u32 \<Rightarrow> natapp \<times> 'd \<Rightarrow> nat_table_entry \<times> natapp \<times> 'd" where
  "UpdateCTUdpTs env rule new_ts s =
     (let (n, d) = s;
          (n1, d1) = (case ct_hdl n of
                        Some p \<Rightarrow> (n, d)
                      | None \<Rightarrow> (let (p, d') = nfct_open env d in (n\<lparr>ct_hdl := p\<rparr>, d')))
      in if ct_hdl n1 = None then (rule, n1, d1)
         else (let (n2, d2) = (case ct n1 of
                                 Some p \<Rightarrow> (n1, d1)
                               | None \<Rightarrow> (let (p, d') = nfct_new env d1 in (n1\<lparr>ct := p\<rparr>, d')))
               in if ct n2 = None then (rule, n2, d2)
                  else (let (ret, d3) = nfct_query env (ct_of rule n2) d2
                        in if ret = -1 then (rule, n2, d3) else (rule\<lparr>timestamp := new_ts\<rparr>, n2, d3))))"

definition UpdateUDPTimeStamp :: "'d nat_env \<Rightarrow> natapp \<times> 'd \<Rightarrow> natapp \<times> 'd" where
  "UpdateUDPTimeStamp env s =
     (let (c, n, d) = map_state
            (\<lambda>e (n, d).
               if enabled e then
                 (let (ret, ts, d1) = ipa_nat_query_timestamp env (nat_table_hdl n) (rule_hdl e) 0 d
                  in if ret < 0 then (e, n, d1)
                     else if timestamp e = ts then (e, n, d1)
                     else UpdateCTUdpTs env e ts (n, d1))
               else (e, n, d))
            (cache (fst s)) s
      in (n\<lparr>cache := c\<rparr>, d))"

section \<open>Power save and client disconnection\<close>

definition UpdatePwrSaveIf :: "'d nat_env \<Rightarrow> u32 \<Rightarrow> natapp \<times> 'd \<Rightarrow> int \<times> natapp \<times> 'd" where
  "UpdatePwrSaveIf env client_lan_ip s =
     (let (n, d) = s
      in if client_lan_ip = INVALID_IP_ADDR then (-1, n, d)
         else if find_slot (\<lambda>p. p = client_lan_ip) (PwrSaveIfs n) \<noteq> None then (0, n, d)
         else (let n1 = n\<lparr>PwrSaveIfs := upd_first (\<lambda>p. p = 0) (\<lambda>_. client_lan_ip) (PwrSaveIfs n)\<rparr>;
                   (c, d1) = map_state
                     (\<lambda>e d. if private_ip e = client_lan_ip \<and> enabled e then
                              (let (ret, d') = ipa_nat_del_ipv4_rule env (nat_table_hdl n1) (rule_hdl e) d
                               in if ret < 0 then (e, d') else (e\<lparr>enabled := False, rule_hdl := 0\<rparr>, d'))
                            else (e, d))
                     (cache n1) d
               in (0, n1\<lparr>cache := c\<rparr>, d1)))"

definition clear_pwr_save :: "u32 \<Rightarrow> natapp \<Rightarrow> natapp" where
  "clear_pwr_save ip n = n\<lparr>PwrSaveIfs := upd_first (\<lambda>p. p = ip) (\<lambda>_. 0) (PwrSaveIfs n)\<rparr>"

definition ResetPwrSaveIf :: "'d nat_env \<Rightarrow> u32 \<Rightarrow> natapp \<times> 'd \<Rightarrow> int \<times> natapp \<times> 'd" where
  "ResetPwrSaveIf env client_lan_ip s =
     (let (n, d) = s
      in if client_lan_ip = INVALID_IP_ADDR then (-1, n, d)
         else (let n1 = clear_pwr_save client_lan_ip n;
                   (c, cnt, d1) = map_state
                     (\<lambda>e s. if private_ip e = client_lan_ip \<and> \<not> enabled e
                            then restore_entry env (nat_table_hdl n1) e s else (e, s))
                     (cache n1) (curCnt n1, d)
               in (-1, n1\<lparr>cache := c, curCnt := cnt\<rparr>, d1)))"

definition UpdateTcpUdpTo :: "u32 \<Rightarrow> int \<Rightarrow> natapp \<Rightarrow> natapp" where
  "UpdateTcpUdpTo new_value proto n =
     (if proto = uint IPPROTO_TCP then n\<lparr>tcp_timeout := new_value\<rparr>
      else if proto = uint IPPROTO_UDP then n\<lparr>udp_timeout := new_value\<rparr> else n)"

definition GetTableHdl :: "u32 \<Rightarrow> natapp \<Rightarrow> u32" where
  "GetTableHdl in_ip_addr n = (if in_ip_addr = pub_ip_addr n then nat_table_hdl n else -1)"

text \<open>The entries of a disconnected client are disabled, not removed.\<close>

definition DelEntriesOnClntDiscon :: "'d nat_env \<Rightarrow> u32 \<Rightarrow> natapp \<times> 'd \<Rightarrow> int \<times> natapp \<times> 'd" where
  "DelEntriesOnClntDiscon env ip_addr s =
     (let (n, d) = s
      in if ip_addr = INVALID_IP_ADDR then (-1, n, d)
         else (let n1 = clear_pwr_save ip_addr n;
                   (c, d1) = map_state
                     (\<lambda>e d. if private_ip e = ip_addr \<and> enabled e then
                              (let (ret, d') = ipa_nat_del_ipv4_rule env (nat_table_hdl n1) (rule_hdl e) d
                               in if ret < 0 then (e, d') else (e\<lparr>enabled := False\<rparr>, d'))
                            else (e, d))
                     (cache n1) d
               in (0, n1\<lparr>cache := c\<rparr>, d1)))"

definition DelEntriesOnSTAClntDiscon :: "'d nat_env \<Rightarrow> u32 \<Rightarrow> natapp \<times> 'd \<Rightarrow> int \<times> natapp \<times> 'd" where
  "DelEntriesOnSTAClntDiscon env ip_addr s =
     (let (n, d) = s
      in if ip_addr = INVALID_IP_ADDR then (-1, n, d)
         else (let (c, cnt, d1) = map_state
                     (\<lambda>e (cnt, d).
                        if target_ip e = ip_addr then
                          (if enabled e then
                             (let (ret, d') = ipa_nat_del_ipv4_rule env (nat_table_hdl n) (rule_hdl e) d
                              in if ret < 0 then (e, cnt, d') else (zero_entry, cnt - 1, d'))
                           else (zero_entry, cnt - 1, d))
                        else (e, cnt, d))
                     (cache n) (curCnt n, d)
               in (0, n\<lparr>cache := c, curCnt := cnt\<rparr>, d1)))"

section \<open>Temporary and cached entries\<close>

definition AddTempEntry :: "nat_table_entry \<Rightarrow> natapp \<Rightarrow> natapp" where
  "AddTempEntry new_entry n =
     n\<lparr>temp := upd_first (\<lambda>e. private_ip e = 0 \<and> target_ip e = 0) (\<lambda>_. new_entry) (temp n)\<rparr>"

definition DeleteTempEntry :: "nat_table_entry \<Rightarrow> natapp \<Rightarrow> natapp" where
  "DeleteTempEntry entry n =
     n\<lparr>temp := upd_first (\<lambda>e. same_conn e entry) (\<lambda>_. zero_entry) (temp n)\<rparr>"

text \<open>The comparison of the 16-bit \<open>public_ip\<close> with the 32-bit address widens the former.\<close>

definition FlushTempEntries :: "'d nat_env \<Rightarrow> u32 \<Rightarrow> bool \<Rightarrow> natapp \<times> 'd \<Rightarrow> natapp \<times> 'd" where
  "FlushTempEntries env ip_addr isAdd s =
     (let (t, n, d) = map_state
            (\<lambda>e (n, d).
               if private_ip e = ip_addr \<or> target_ip e = ip_addr then
                 (if isAdd \<and> ucast (public_ip e) = pub_ip_addr n then
                    (let (ret, n', d') = AddEntry env e (n, d)
                     in if ret \<noteq> 0 then (e, n', d') else (zero_entry, n', d'))
                  else (zero_entry, n, d))
               else (e, n, d))
            (temp (fst s)) s
      in (n\<lparr>temp := t\<rparr>, d))"

text \<open>The search of \<open>CacheEntry\<close> starts at \<open>cnt0\<close>, the value of the local variable the source does not
  initialise.\<close>

definition CacheEntry :: "int \<Rightarrow> nat_table_entry \<Rightarrow> natapp \<Rightarrow> fault + natapp" where
  "CacheEntry cnt0 rule n =
     (if invalid_conn rule then Inr n
      else if ChkForDup rule n then Inr n
      else if cnt0 < 0 then Inl OutOfBounds
      else if max_entries n < cnt0 then Inl OutOfBounds
      else (case find_slot free_entry (drop (nat cnt0) (cache n)) of
              None \<Rightarrow> Inr n
            | Some k \<Rightarrow>
                (let cnt = nat cnt0 + k
                 in Inr (n\<lparr>cache := (cache n)[cnt := fill_entry rule ((cache n ! cnt)\<lparr>enabled := False, rule_hdl := 0\<rparr>)],
                           curCnt := curCnt n + 1\<rparr>))))"

section \<open>The cache invariant\<close>

definition conn_key :: "nat_table_entry \<Rightarrow> u32 \<times> u32 \<times> u16 \<times> u16 \<times> u8" where
  "conn_key e = (private_ip e, target_ip e, private_port e, target_port e, protocol e)"

lemma same_conn_key: "same_conn e r \<longleftrightarrow> conn_key e = conn_key r"
  by (auto simp: same_conn_def conn_key_def)

text \<open>The connections in the cache, in the order of their slots.\<close>

definition conns :: "nat_table_entry list \<Rightarrow> (u32 \<times> u32 \<times> u16 \<times> u16 \<times> u8) list" where
  "conns c = map conn_key (occupied free_entry c)"

definition entry_ok :: "nat_table_entry \<Rightarrow> bool" where
  "entry_ok e \<longleftrightarrow> free_entry e \<and> \<not> enabled e \<or> \<not> invalid_conn e"

definition cache_ok :: "nat_table_entry list \<Rightarrow> int \<Rightarrow> bool" where
  "cache_ok c cnt \<longleftrightarrow> (\<forall>e \<in> set c. entry_ok e) \<and> distinct (conns c) \<and> cnt = int (length (conns c))"

definition nat_inv :: "natapp \<Rightarrow> bool" where
  "nat_inv n \<longleftrightarrow> length (temp n) = MAX_TEMP_ENTRIES \<and> length (PwrSaveIfs n) = IPA_MAX_NUM_WIFI_CLIENTS \<and>
     max_entries n = int (length (cache n)) \<and> cache_ok (cache n) (curCnt n)"

lemma conns_simps [simp]:
  "conns [] = []" "conns (xs @ ys) = conns xs @ conns ys"
  "conns (e # xs) = (if free_entry e then conns xs else conn_key e # conns xs)"
  by (simp_all add: conns_def)

lemma conns_set: "k \<in> set (conns c) \<longleftrightarrow> (\<exists>e \<in> set c. \<not> free_entry e \<and> conn_key e = k)"
  by (auto simp: conns_def)

lemma free_zero [simp]: "free_entry zero_entry" "\<not> enabled zero_entry" "entry_ok zero_entry"
  by (simp_all add: free_entry_def zero_entry_def entry_ok_def)

lemma valid_not_free: "\<not> invalid_conn e \<Longrightarrow> \<not> free_entry e"
  by (simp add: invalid_conn_def free_entry_def)

lemma entry_ok_used: "entry_ok e \<Longrightarrow> \<not> free_entry e \<or> enabled e \<Longrightarrow> \<not> invalid_conn e"
  by (auto simp: entry_ok_def)

lemma same_key_free: "conn_key e' = conn_key e \<Longrightarrow> free_entry e' = free_entry e"
  by (auto simp: conn_key_def free_entry_def)

lemma same_key_invalid: "conn_key e' = conn_key e \<Longrightarrow> invalid_conn e' = invalid_conn e"
  by (auto simp: conn_key_def invalid_conn_def)

text \<open>The three ways in which the operations change a slot: its connection stays, it is cleared, or a
  new connection takes it.\<close>

lemma cache_ok_keep [slot_intros]:
  assumes "cache_ok (pre @ e # post) cnt" "conn_key e' = conn_key e" "enabled e' \<longrightarrow> \<not> free_entry e"
  shows "cache_ok (pre @ e' # post) cnt"
  using assms same_key_free[OF assms(2)] same_key_invalid[OF assms(2)]
  by (auto simp: cache_ok_def entry_ok_def)

lemma cache_ok_clear [slot_intros]:
  assumes "cache_ok (pre @ e # post) cnt" "\<not> free_entry e"
  shows "cache_ok (pre @ zero_entry # post) (cnt - 1)"
  using assms by (auto simp: cache_ok_def)

lemma cache_ok_fill [slot_intros]:
  assumes "cache_ok (pre @ e # post) cnt" "free_entry e" "\<not> invalid_conn e'"
    and "conn_key e' \<notin> set (conns (pre @ e # post))"
  shows "cache_ok (pre @ e' # post) (cnt + 1)"
  using assms valid_not_free[OF assms(3)] by (auto simp: cache_ok_def entry_ok_def)

lemma cache_ok_slot: "cache_ok (pre @ e # post) cnt \<Longrightarrow> entry_ok e"
  by (simp add: cache_ok_def)

text \<open>The same for a slot named by its index.\<close>

lemma cache_ok_at:
  assumes "cache_ok c cnt" "i < length c"
  shows "conn_key e' = conn_key (c ! i) \<Longrightarrow> enabled e' \<longrightarrow> \<not> free_entry (c ! i) \<Longrightarrow> cache_ok (c[i := e']) cnt"
    and "\<not> free_entry (c ! i) \<Longrightarrow> cache_ok (c[i := zero_entry]) (cnt - 1)"
    and "free_entry (c ! i) \<Longrightarrow> \<not> invalid_conn e' \<Longrightarrow> conn_key e' \<notin> set (conns c) \<Longrightarrow>
      cache_ok (c[i := e']) (cnt + 1)"
    and "entry_ok (c ! i)"
proof -
  have c: "c = take i c @ c ! i # drop (Suc i) c" using assms(2) by (rule id_take_nth_drop)
  have u: "c[i := y] = take i c @ y # drop (Suc i) c" for y using assms(2) by (rule upd_conv_take_nth_drop)
  have ok: "cache_ok (take i c @ c ! i # drop (Suc i) c) cnt" using assms(1) c by metis
  show "conn_key e' = conn_key (c ! i) \<Longrightarrow> enabled e' \<longrightarrow> \<not> free_entry (c ! i) \<Longrightarrow> cache_ok (c[i := e']) cnt"
    unfolding u by (rule cache_ok_keep[OF ok])
  show "\<not> free_entry (c ! i) \<Longrightarrow> cache_ok (c[i := zero_entry]) (cnt - 1)"
    unfolding u by (rule cache_ok_clear[OF ok])
  show "free_entry (c ! i) \<Longrightarrow> \<not> invalid_conn e' \<Longrightarrow> conn_key e' \<notin> set (conns c) \<Longrightarrow>
      cache_ok (c[i := e']) (cnt + 1)"
    unfolding u using c by (intro cache_ok_fill[OF ok]) auto
  show "entry_ok (c ! i)" by (rule cache_ok_slot[OF ok])
qed

lemma cache_ok_bound: "cache_ok c cnt \<Longrightarrow> 0 \<le> cnt \<and> cnt \<le> int (length c)"
  using occupied_length_le[of free_entry c] by (simp add: cache_ok_def conns_def)

lemma private_used: "entry_ok e \<Longrightarrow> private_ip e \<noteq> 0 \<Longrightarrow> \<not> free_entry e"
  by (auto simp: free_entry_def)

lemma target_used: "target_ip e \<noteq> 0 \<Longrightarrow> \<not> free_entry e"
  by (auto simp: free_entry_def)

lemma ChkForDup_conns:
  assumes "\<not> free_entry rule"
  shows "ChkForDup rule n \<longleftrightarrow> conn_key rule \<in> set (conns (cache n))"
proof -
  have "\<not> free_entry e" if "conn_key e = conn_key rule" for e
    using same_key_free[OF that] assms by simp
  then show ?thesis by (auto simp: ChkForDup_def conns_set same_conn_key)
qed

lemma key_fill [simp]: "conn_key (fill_entry rule e) = conn_key rule"
  "enabled (fill_entry rule e) = enabled e" "rule_hdl (fill_entry rule e) = rule_hdl e"
  "rule_of (fill_entry rule e) = rule_of rule"
  by (simp_all add: fill_entry_def conn_key_def rule_of_def)

lemma fill_invalid [simp]: "invalid_conn (fill_entry rule e) = invalid_conn rule"
  by (rule same_key_invalid) simp

lemma key_upd [simp]:
  "conn_key (e\<lparr>rule_hdl := x\<rparr>) = conn_key e" "conn_key (e\<lparr>enabled := b\<rparr>) = conn_key e"
  "conn_key (e\<lparr>timestamp := t\<rparr>) = conn_key e"
  by (simp_all add: conn_key_def)

section \<open>Every operation keeps the invariant\<close>

text \<open>The loops over the cache: one step of the loop body on the slot \<open>e\<close> inside its cache.\<close>

definition loop_step ::
  "(nat_table_entry \<Rightarrow> 's \<Rightarrow> nat_table_entry \<times> 's) \<Rightarrow> ('s \<Rightarrow> int) \<Rightarrow> bool" where
  "loop_step f cnt \<longleftrightarrow> (\<forall>e s e' s'. entry_ok e \<longrightarrow> f e s = (e', s') \<longrightarrow>
     (conn_key e' = conn_key e \<and> (enabled e' \<longrightarrow> \<not> free_entry e) \<and> cnt s' = cnt s) \<or>
     (e' = zero_entry \<and> \<not> free_entry e \<and> cnt s' = cnt s - 1))"

lemma loop_cache_ok:
  assumes "loop_step f cnt" "cache_ok c (cnt s)" "map_state f c s = (c', s')"
  shows "cache_ok c' (cnt s') \<and> length c' = length c"
proof
  show "cache_ok c' (cnt s')"
  proof (rule map_state_whole[where I = "\<lambda>c s. cache_ok c (cnt s)" and f = f, OF _ assms(2,3)])
    fix pre e post s e' s'
    assume ok: "cache_ok (pre @ e # post) (cnt s)" and f: "f e s = (e', s')"
    have "(conn_key e' = conn_key e \<and> (enabled e' \<longrightarrow> \<not> free_entry e) \<and> cnt s' = cnt s) \<or>
        (e' = zero_entry \<and> \<not> free_entry e \<and> cnt s' = cnt s - 1)"
      using assms(1) cache_ok_slot[OF ok] f unfolding loop_step_def by blast
    then show "cache_ok (pre @ e' # post) (cnt s')"
      using cache_ok_keep[OF ok] cache_ok_clear[OF ok] by auto
  qed
  show "length c' = length c" using assms(3) length_map_state[of f c s] by simp
qed

lemma restore_step:
  assumes "\<And>e. P e \<Longrightarrow> private_ip e \<noteq> 0"
  shows "loop_step (\<lambda>e s. if P e then restore_entry env h e s else (e, s)) fst"
  using assms private_used valid_not_free
  by (auto simp: loop_step_def restore_entry_def Let_def entry_ok_def split: prod.splits if_splits)

lemma disable_step:
  assumes "\<And>e. enabled (g e) = False \<and> conn_key (g e) = conn_key e"
  shows "loop_step (\<lambda>e d. if P e \<and> enabled e then
        (let (ret, d') = ipa_nat_del_ipv4_rule env h (rule_hdl e) d in if ret < 0 then (e, d') else (g e, d'))
      else (e, d)) (\<lambda>_. cnt)"
  using assms entry_ok_used valid_not_free
  by (auto simp: loop_step_def Let_def split: prod.splits if_splits)

lemma sta_step:
  assumes "ip \<noteq> 0"
  shows "loop_step (\<lambda>e (cnt, d). if target_ip e = ip then
        (if enabled e then (let (ret, d') = ipa_nat_del_ipv4_rule env h (rule_hdl e) d
           in if ret < 0 then (e, cnt, d') else (zero_entry, cnt - 1, d'))
         else (zero_entry, cnt - 1, d)) else (e, cnt, d)) fst"
  using assms target_used entry_ok_used valid_not_free
  by (auto simp: loop_step_def Let_def split: prod.splits if_splits)

lemma UpdateCTUdpTs_entry:
  "UpdateCTUdpTs env e ts (n, d) = (e', n', d') \<Longrightarrow>
     (e' = e \<or> e' = e\<lparr>timestamp := ts\<rparr>) \<and> n'\<lparr>ct := x, ct_hdl := y\<rparr> = n\<lparr>ct := x, ct_hdl := y\<rparr>"
  by (auto simp: UpdateCTUdpTs_def Let_def split: prod.splits if_splits option.splits)

lemma nat_inv_cache:
  "nat_inv n \<Longrightarrow> cache_ok c cnt \<Longrightarrow> length c = length (cache n) \<Longrightarrow> nat_inv (n\<lparr>cache := c, curCnt := cnt\<rparr>)"
  by (simp add: nat_inv_def)

lemma AddTable_eq:
  assumes "ipa_nat_add_ipv4_tbl env ip (of_int (max_entries n)) (nat_table_hdl n) d = (ret, h, d1)"
    and "map_state (\<lambda>e s. if private_ip e \<noteq> 0 then restore_entry env h e s else (e, s))
      (cache n) (curCnt n, d1) = (c, cnt, d2)"
  shows "AddTable env ip (n, d) =
    (if ret \<noteq> 0 then (ret, n\<lparr>nat_table_hdl := h\<rparr>, d1)
     else if ip = pub_ip_addr_pre n
     then (0, n\<lparr>nat_table_hdl := h, cache := c, curCnt := cnt, pub_ip_addr := ip\<rparr>, d2)
     else (0, n\<lparr>nat_table_hdl := h, pub_ip_addr := ip\<rparr>, d1))"
  using assms by (simp add: AddTable_def Let_def)

lemma AddTable_inv:
  assumes "nat_inv n" "AddTable env ip (n, d) = (r, n', d')"
  shows "nat_inv n'"
proof -
  obtain ret h d1 where t: "ipa_nat_add_ipv4_tbl env ip (of_int (max_entries n)) (nat_table_hdl n) d = (ret, h, d1)"
    by (metis prod_cases3)
  let ?f = "\<lambda>e s. if private_ip e \<noteq> 0 then restore_entry env h e s else (e, s)"
  obtain c cnt d2 where m: "map_state ?f (cache n) (curCnt n, d1) = (c, cnt, d2)"
    using prod_cases3 by blast
  have st: "loop_step ?f fst" by (rule restore_step)
  have "cache_ok c cnt \<and> length c = length (cache n)"
    using loop_cache_ok[OF st _ m] assms(1) by (simp add: nat_inv_def)
  then show ?thesis using assms AddTable_eq[OF t m] by (auto simp: nat_inv_def split: if_splits)
qed

lemma DeleteTable_inv:
  "nat_inv n \<Longrightarrow> DeleteTable env ip (n, d) = (r, n', d') \<Longrightarrow> nat_inv n'"
  by (auto simp: DeleteTable_def Reset_def nat_inv_def Let_def split: if_splits prod.splits)

lemma DeleteEntry_inv:
  assumes "nat_inv n" "\<not> free_entry rule" "DeleteEntry env rule (n, d) = (r, n', d')"
  shows "nat_inv n'"
proof (cases "find_slot (\<lambda>e. same_conn e rule) (cache n)")
  case None
  then show ?thesis using assms by (simp add: DeleteEntry_def del: find_slot_None_iff)
next
  case (Some i)
  have i: "i < length (cache n)" "same_conn (cache n ! i) rule" using find_slot_SomeD[OF Some] by auto
  have "\<not> free_entry (cache n ! i)"
    using i(2) assms(2) same_key_free[of "cache n ! i" rule] by (simp add: same_conn_key)
  then have "cache_ok ((cache n)[i := zero_entry]) (curCnt n - 1)"
    using assms(1) cache_ok_at(2)[OF _ i(1)] by (simp add: nat_inv_def)
  then show ?thesis using assms(1,3) Some by (auto simp: DeleteEntry_def Let_def nat_inv_def)
qed

lemma AddEntry_inv:
  assumes "nat_inv n" "AddEntry env rule (n, d) = (r, n', d')"
  shows "nat_inv n'"
proof (cases "find_slot free_entry (cache n)")
  case None
  then show ?thesis using assms by (auto simp: AddEntry_def Let_def simp del: find_slot_None_iff split: if_splits)
next
  case (Some i)
  have i: "i < length (cache n)" "free_entry (cache n ! i)" using find_slot_SomeD[OF Some] by auto
  have ok: "cache_ok (cache n) (curCnt n)" using assms(1) by (simp add: nat_inv_def)
  have fill: "cache_ok ((cache n)[i := fill_entry rule e']) (curCnt n + 1)"
    if "\<not> invalid_conn rule" "\<not> ChkForDup rule n" for e'
    using that i(2) ChkForDup_conns[OF valid_not_free] by (intro cache_ok_at(3)[OF ok i(1)]) auto
  have keep: "cache_ok ((cache n)[i := (cache n ! i)\<lparr>rule_hdl := x\<rparr>]) (curCnt n)" for x
    using cache_ok_at(4)[OF ok i(1)] i(2) valid_not_free
    by (intro cache_ok_at(1)[OF ok i(1)]) (auto simp: entry_ok_def)
  show ?thesis using assms Some fill keep
    by (auto simp: AddEntry_def Let_def nat_inv_def split: if_splits prod.splits)
qed

lemma stamp_step:
  "loop_step (\<lambda>e (n, d).
     if enabled e then
       (let (ret, ts, d1) = ipa_nat_query_timestamp env (nat_table_hdl n) (rule_hdl e) 0 d
        in if ret < 0 then (e, n, d1) else if timestamp e = ts then (e, n, d1)
           else UpdateCTUdpTs env e ts (n, d1))
     else (e, n, d)) (\<lambda>s. curCnt (fst s))"
  unfolding loop_step_def
proof (intro allI impI)
  fix e s e' s'
  assume e: "entry_ok e" and f: "(case s of (n, d) \<Rightarrow>
     if enabled e then
       (let (ret, ts, d1) = ipa_nat_query_timestamp env (nat_table_hdl n) (rule_hdl e) 0 d
        in if ret < 0 then (e, n, d1) else if timestamp e = ts then (e, n, d1)
           else UpdateCTUdpTs env e ts (n, d1))
     else (e, n, d)) = (e', s')"
  obtain n d where s: "s = (n, d)" by fastforce
  obtain n' d' where s': "s' = (n', d')" by fastforce
  have "(e' = e \<or> (\<exists>ts. e' = e\<lparr>timestamp := ts\<rparr>)) \<and> curCnt n' = curCnt n"
  proof -
    have u: "curCnt n' = curCnt n" if "UpdateCTUdpTs env e ts (n, d1) = (e', n', d')" for ts d1
      using that by (auto simp: UpdateCTUdpTs_def Let_def split: prod.splits if_splits option.splits)
    show ?thesis using f unfolding s s'
      by (auto simp: Let_def split: prod.splits if_splits dest: UpdateCTUdpTs_entry u)
  qed
  then show "(conn_key e' = conn_key e \<and> (enabled e' \<longrightarrow> \<not> free_entry e) \<and>
      curCnt (fst s') = curCnt (fst s)) \<or> (e' = zero_entry \<and> \<not> free_entry e \<and> curCnt (fst s') = curCnt (fst s) - 1)"
    using e entry_ok_used valid_not_free s s' by auto
qed

lemma UpdateCTUdpTs_frame:
  assumes "UpdateCTUdpTs env e ts (n, d) = (e', n', d')"
  shows "curCnt n' = curCnt n" "temp n' = temp n" "PwrSaveIfs n' = PwrSaveIfs n" "max_entries n' = max_entries n"
    "nat_table_hdl n' = nat_table_hdl n"
  using assms by (auto simp: UpdateCTUdpTs_def Let_def split: prod.splits if_splits option.splits)

lemma UpdateUDPTimeStamp_inv:
  assumes "nat_inv n" "UpdateUDPTimeStamp env (n, d) = (n', d')"
  shows "nat_inv n'"
proof -
  let ?f = "\<lambda>e (n, d).
     if enabled e then
       (let (ret, ts, d1) = ipa_nat_query_timestamp env (nat_table_hdl n) (rule_hdl e) 0 d
        in if ret < 0 then (e, n, d1) else if timestamp e = ts then (e, n, d1)
           else UpdateCTUdpTs env e ts (n, d1))
     else (e, n, d)"
  obtain c n1 d1 where m: "map_state ?f (cache n) (n, d) = (c, n1, d1)" using prod_cases3 by blast
  have c: "cache_ok c (curCnt n1) \<and> length c = length (cache n)"
    using loop_cache_ok[OF stamp_step _ m] assms(1) by (simp add: nat_inv_def)
  let ?I = "\<lambda>s. temp (fst s) = temp n \<and> PwrSaveIfs (fst s) = PwrSaveIfs n \<and> max_entries (fst s) = max_entries n"
  have "list_all2 (\<lambda>_ _. True) (cache n) c \<and> ?I (n1, d1)"
    by (rule map_state_rel[where I = ?I, OF _ _ m])
      (auto simp: Let_def split: prod.splits if_splits dest: UpdateCTUdpTs_frame)
  then show ?thesis using c m assms by (auto simp: UpdateUDPTimeStamp_def nat_inv_def)
qed

lemma UpdatePwrSaveIf_eq:
  assumes "map_state (\<lambda>e d. if private_ip e = ip \<and> enabled e then
      (let (ret, d') = ipa_nat_del_ipv4_rule env (nat_table_hdl n) (rule_hdl e) d
       in if ret < 0 then (e, d') else (e\<lparr>enabled := False, rule_hdl := 0\<rparr>, d')) else (e, d)) (cache n) d = (c, d1)"
  shows "UpdatePwrSaveIf env ip (n, d) =
    (if ip = 0 then (-1, n, d) else if ip \<in> set (PwrSaveIfs n) then (0, n, d)
     else (0, n\<lparr>PwrSaveIfs := upd_first (\<lambda>p. p = 0) (\<lambda>_. ip) (PwrSaveIfs n), cache := c\<rparr>, d1))"
  using assms by (auto simp: UpdatePwrSaveIf_def Let_def INVALID_IP_ADDR_def cong: if_cong)

lemma UpdatePwrSaveIf_inv:
  assumes "nat_inv n" "UpdatePwrSaveIf env ip (n, d) = (r, n', d')"
  shows "nat_inv n'"
proof -
  let ?f = "\<lambda>e d. if private_ip e = ip \<and> enabled e then
      (let (ret, d') = ipa_nat_del_ipv4_rule env (nat_table_hdl n) (rule_hdl e) d
       in if ret < 0 then (e, d') else (e\<lparr>enabled := False, rule_hdl := 0\<rparr>, d')) else (e, d)"
  obtain c d1 where m: "map_state ?f (cache n) d = (c, d1)" by fastforce
  have "loop_step ?f (\<lambda>_. curCnt n)" by (rule disable_step) simp
  from loop_cache_ok[OF this _ m] have "cache_ok c (curCnt n) \<and> length c = length (cache n)"
    using assms(1) by (simp add: nat_inv_def)
  then show ?thesis using UpdatePwrSaveIf_eq[OF m] assms by (auto simp: nat_inv_def split: if_splits)
qed

lemma clear_pwr_save_inv [simp]: "nat_inv (clear_pwr_save ip n) = nat_inv n"
  by (simp add: clear_pwr_save_def nat_inv_def)

lemma clear_pwr_save_fields [simp]:
  "cache (clear_pwr_save ip n) = cache n" "curCnt (clear_pwr_save ip n) = curCnt n"
  "nat_table_hdl (clear_pwr_save ip n) = nat_table_hdl n"
  by (simp_all add: clear_pwr_save_def)

lemma ResetPwrSaveIf_eq:
  assumes "map_state (\<lambda>e s. if private_ip e = ip \<and> \<not> enabled e then restore_entry env (nat_table_hdl n) e s else (e, s))
      (cache n) (curCnt n, d) = (c, cnt, d1)" "ip \<noteq> 0"
  shows "ResetPwrSaveIf env ip (n, d) = (-1, (clear_pwr_save ip n)\<lparr>cache := c, curCnt := cnt\<rparr>, d1)"
  using assms by (simp add: ResetPwrSaveIf_def Let_def INVALID_IP_ADDR_def cong: if_cong)

lemma ResetPwrSaveIf_inv:
  assumes "nat_inv n" "ResetPwrSaveIf env ip (n, d) = (r, n', d')"
  shows "nat_inv n'"
proof (cases "ip = 0")
  case True
  then show ?thesis using assms by (simp add: ResetPwrSaveIf_def INVALID_IP_ADDR_def)
next
  case False
  let ?f = "\<lambda>e s. if private_ip e = ip \<and> \<not> enabled e then restore_entry env (nat_table_hdl n) e s else (e, s)"
  obtain c cnt d1 where m: "map_state ?f (cache n) (curCnt n, d) = (c, cnt, d1)" using prod_cases3 by blast
  have "loop_step ?f fst" by (rule restore_step) (use False in auto)
  from loop_cache_ok[OF this _ m] have "cache_ok c cnt \<and> length c = length (cache n)"
    using assms(1) by (simp add: nat_inv_def)
  then have "nat_inv ((clear_pwr_save ip n)\<lparr>cache := c, curCnt := cnt\<rparr>)"
    using assms(1) by (intro nat_inv_cache) auto
  then show ?thesis using ResetPwrSaveIf_eq[OF m False] assms(2) by simp
qed

lemma DelEntriesOnClntDiscon_eq:
  assumes "map_state (\<lambda>e d. if private_ip e = ip \<and> enabled e then
      (let (ret, d') = ipa_nat_del_ipv4_rule env (nat_table_hdl n) (rule_hdl e) d
       in if ret < 0 then (e, d') else (e\<lparr>enabled := False\<rparr>, d')) else (e, d)) (cache n) d = (c, d1)"
  shows "DelEntriesOnClntDiscon env ip (n, d) =
    (if ip = 0 then (-1, n, d) else (0, (clear_pwr_save ip n)\<lparr>cache := c\<rparr>, d1))"
  using assms by (auto simp: DelEntriesOnClntDiscon_def Let_def INVALID_IP_ADDR_def cong: if_cong)

lemma DelEntriesOnClntDiscon_inv:
  assumes "nat_inv n" "DelEntriesOnClntDiscon env ip (n, d) = (r, n', d')"
  shows "nat_inv n'"
proof -
  let ?f = "\<lambda>e d. if private_ip e = ip \<and> enabled e then
      (let (ret, d') = ipa_nat_del_ipv4_rule env (nat_table_hdl n) (rule_hdl e) d
       in if ret < 0 then (e, d') else (e\<lparr>enabled := False\<rparr>, d')) else (e, d)"
  obtain c d1 where m: "map_state ?f (cache n) d = (c, d1)" by fastforce
  have "loop_step ?f (\<lambda>_. curCnt n)" by (rule disable_step) simp
  from loop_cache_ok[OF this _ m] have "cache_ok c (curCnt n) \<and> length c = length (cache n)"
    using assms(1) by (simp add: nat_inv_def)
  then have "nat_inv ((clear_pwr_save ip n)\<lparr>cache := c, curCnt := curCnt n\<rparr>)"
    using assms(1) by (intro nat_inv_cache) auto
  then show ?thesis using DelEntriesOnClntDiscon_eq[OF m] assms by (auto simp: nat_inv_def split: if_splits)
qed

lemma DelEntriesOnSTAClntDiscon_inv:
  assumes "nat_inv n" "DelEntriesOnSTAClntDiscon env ip (n, d) = (r, n', d')"
  shows "nat_inv n'"
proof (cases "ip = 0")
  case True
  then show ?thesis using assms by (simp add: DelEntriesOnSTAClntDiscon_def INVALID_IP_ADDR_def)
next
  case False
  let ?f = "\<lambda>e (cnt, d). if target_ip e = ip then
        (if enabled e then (let (ret, d') = ipa_nat_del_ipv4_rule env (nat_table_hdl n) (rule_hdl e) d
           in if ret < 0 then (e, cnt, d') else (zero_entry, cnt - 1, d'))
         else (zero_entry, cnt - 1, d)) else (e, cnt, d)"
  obtain c cnt d1 where m: "map_state ?f (cache n) (curCnt n, d) = (c, cnt, d1)" using prod_cases3 by blast
  from loop_cache_ok[OF sta_step[OF False] _ m] have "cache_ok c cnt \<and> length c = length (cache n)"
    using assms(1) by (simp add: nat_inv_def)
  then show ?thesis using m assms False
    by (auto simp: DelEntriesOnSTAClntDiscon_def Let_def nat_inv_def INVALID_IP_ADDR_def)
qed

lemma AddEntry_frame:
  assumes "AddEntry env e (n, d) = (r, n', d')"
  shows "temp n' = temp n" "pub_ip_addr n' = pub_ip_addr n" "nat_table_hdl n' = nat_table_hdl n"
  using assms by (auto simp: AddEntry_def Let_def split: if_splits prod.splits option.splits)

lemma FlushTempEntries_inv:
  assumes "nat_inv n" "FlushTempEntries env ip add (n, d) = (n', d')"
  shows "nat_inv n'"
proof -
  let ?f = "\<lambda>e (n, d). if private_ip e = ip \<or> target_ip e = ip then
       (if add \<and> ucast (public_ip e) = pub_ip_addr n then
          (let (ret, n', d') = AddEntry env e (n, d) in if ret \<noteq> 0 then (e, n', d') else (zero_entry, n', d'))
        else (zero_entry, n, d)) else (e, n, d)"
  obtain t n1 d1 where m: "map_state ?f (temp n) (n, d) = (t, n1, d1)" using prod_cases3 by blast
  have "list_all2 (\<lambda>_ _. True) (temp n) t \<and> nat_inv (fst (n1, d1))"
    by (rule map_state_rel[where I = "\<lambda>s. nat_inv (fst s)", OF _ _ m])
      (use assms(1) in \<open>auto simp: Let_def split: prod.splits if_splits dest: AddEntry_inv\<close>)
  then show ?thesis using m assms by (auto simp: FlushTempEntries_def nat_inv_def dest: list_all2_lengthD)
qed

lemma CacheEntry_inv:
  assumes "nat_inv n" "0 \<le> cnt0" "cnt0 \<le> max_entries n"
  shows "\<exists>n'. CacheEntry cnt0 rule n = Inr n' \<and> nat_inv n' \<and> max_entries n' = max_entries n"
proof (cases "find_slot free_entry (drop (nat cnt0) (cache n))")
  case None
  then show ?thesis using assms by (auto simp: CacheEntry_def nat_inv_def simp del: find_slot_None_iff)
next
  case (Some k)
  let ?i = "nat cnt0 + k"
  have i: "?i < length (cache n)" "free_entry (cache n ! ?i)" using find_slot_SomeD[OF Some] by (auto simp: add.commute)
  have ok: "cache_ok (cache n) (curCnt n)" using assms(1) by (simp add: nat_inv_def)
  have fill: "cache_ok ((cache n)[?i := fill_entry rule e']) (curCnt n + 1)"
    if "\<not> invalid_conn rule" "\<not> ChkForDup rule n" for e'
    using that i(2) ChkForDup_conns[OF valid_not_free] by (intro cache_ok_at(3)[OF ok i(1)]) auto
  show ?thesis using assms Some fill by (auto simp: CacheEntry_def Let_def nat_inv_def)
qed

section \<open>Sequences of operations\<close>

text \<open>The public operations of the class that change its state. A call of \<open>CacheEntry\<close> comes with the value its
  uninitialised counter happens to have.\<close>

datatype nat_op =
    O_AddTable u32 | O_DeleteTable u32 | O_AddEntry nat_table_entry | O_DeleteEntry nat_table_entry
  | O_UpdateUDPTimeStamp | O_UpdatePwrSaveIf u32 | O_ResetPwrSaveIf u32
  | O_DelEntriesOnClntDiscon u32 | O_DelEntriesOnSTAClntDiscon u32 | O_UpdateTcpUdpTo u32 int
  | O_AddTempEntry nat_table_entry | O_DeleteTempEntry nat_table_entry
  | O_FlushTempEntries u32 bool | O_CacheEntry int nat_table_entry

fun nat_exec :: "'d nat_env \<Rightarrow> nat_op \<Rightarrow> natapp \<times> 'd \<Rightarrow> fault + natapp \<times> 'd" where
  "nat_exec env (O_AddTable ip) s = Inr (snd (AddTable env ip s))"
| "nat_exec env (O_DeleteTable ip) s = Inr (snd (DeleteTable env ip s))"
| "nat_exec env (O_AddEntry e) s = Inr (snd (AddEntry env e s))"
| "nat_exec env (O_DeleteEntry e) s = Inr (snd (DeleteEntry env e s))"
| "nat_exec env O_UpdateUDPTimeStamp s = Inr (UpdateUDPTimeStamp env s)"
| "nat_exec env (O_UpdatePwrSaveIf ip) s = Inr (snd (UpdatePwrSaveIf env ip s))"
| "nat_exec env (O_ResetPwrSaveIf ip) s = Inr (snd (ResetPwrSaveIf env ip s))"
| "nat_exec env (O_DelEntriesOnClntDiscon ip) s = Inr (snd (DelEntriesOnClntDiscon env ip s))"
| "nat_exec env (O_DelEntriesOnSTAClntDiscon ip) s = Inr (snd (DelEntriesOnSTAClntDiscon env ip s))"
| "nat_exec env (O_UpdateTcpUdpTo v p) s = Inr (UpdateTcpUdpTo v p (fst s), snd s)"
| "nat_exec env (O_AddTempEntry e) s = Inr (AddTempEntry e (fst s), snd s)"
| "nat_exec env (O_DeleteTempEntry e) s = Inr (DeleteTempEntry e (fst s), snd s)"
| "nat_exec env (O_FlushTempEntries ip add) s = Inr (FlushTempEntries env ip add s)"
| "nat_exec env (O_CacheEntry cnt0 e) s = map_sum id (\<lambda>n. (n, snd s)) (CacheEntry cnt0 e (fst s))"

text \<open>What the operations need: \<open>DeleteEntry\<close> is asked for a connection that is not all zero, and the counter of \<open>CacheEntry\<close>
  starts within the cache of \<open>m\<close> entries or at its end.\<close>

fun op_ok :: "int \<Rightarrow> nat_op \<Rightarrow> bool" where
  "op_ok m (O_DeleteEntry e) = (\<not> free_entry e)"
| "op_ok m (O_CacheEntry cnt0 e) = (0 \<le> cnt0 \<and> cnt0 \<le> m)"
| "op_ok m _ = True"

lemma triple: "x = (fst x, fst (snd x), snd (snd x))"
  by simp

lemmas nat_op_invs = AddTable_inv[OF _ triple] DeleteTable_inv[OF _ triple] AddEntry_inv[OF _ triple]
  DeleteEntry_inv[OF _ _ triple] UpdatePwrSaveIf_inv[OF _ triple] ResetPwrSaveIf_inv[OF _ triple]
  DelEntriesOnClntDiscon_inv[OF _ triple] DelEntriesOnSTAClntDiscon_inv[OF _ triple]
  UpdateUDPTimeStamp_inv[OF _ surjective_pairing] FlushTempEntries_inv[OF _ surjective_pairing]

lemma nat_inv_other [simp]:
  "nat_inv (UpdateTcpUdpTo v q n) = nat_inv n" "nat_inv (AddTempEntry e n) = nat_inv n"
  "nat_inv (DeleteTempEntry e n) = nat_inv n"
  by (simp_all add: nat_inv_def UpdateTcpUdpTo_def AddTempEntry_def DeleteTempEntry_def)

text \<open>No operation changes the size of the cache.\<close>

lemma AddEntry_max: "max_entries (fst (snd (AddEntry env e s))) = max_entries (fst s)"
  by (auto simp: AddEntry_def Let_def split: prod.split option.split)

lemma UpdateUDPTimeStamp_max: "max_entries (fst (UpdateUDPTimeStamp env s)) = max_entries (fst s)"
proof -
  let ?f = "\<lambda>e (n, d).
     if enabled e then
       (let (ret, ts, d1) = ipa_nat_query_timestamp env (nat_table_hdl n) (rule_hdl e) 0 d
        in if ret < 0 then (e, n, d1) else if timestamp e = ts then (e, n, d1)
           else UpdateCTUdpTs env e ts (n, d1))
     else (e, n, d)"
  obtain c n1 d1 where m: "map_state ?f (cache (fst s)) s = (c, n1, d1)" using prod_cases3 by blast
  have "list_all2 (\<lambda>_ _. True) (cache (fst s)) c \<and> max_entries (fst (n1, d1)) = max_entries (fst s)"
    by (rule map_state_rel[where I = "\<lambda>t. max_entries (fst t) = max_entries (fst s)", OF _ _ m])
      (auto simp: Let_def split: prod.splits if_splits dest: UpdateCTUdpTs_frame)
  then show ?thesis using m by (auto simp: UpdateUDPTimeStamp_def)
qed

lemma FlushTempEntries_max: "max_entries (fst (FlushTempEntries env ip add s)) = max_entries (fst s)"
proof -
  let ?f = "\<lambda>e (n, d). if private_ip e = ip \<or> target_ip e = ip then
       (if add \<and> ucast (public_ip e) = pub_ip_addr n then
          (let (ret, n', d') = AddEntry env e (n, d) in if ret \<noteq> 0 then (e, n', d') else (zero_entry, n', d'))
        else (zero_entry, n, d)) else (e, n, d)"
  obtain t n1 d1 where m: "map_state ?f (temp (fst s)) s = (t, n1, d1)" using prod_cases3 by blast
  have "max_entries n' = max_entries n" if "AddEntry env e (n, d) = (r, n', d')" for e n d r n' d'
    using AddEntry_max[of env e "(n, d)"] that by simp
  then have "list_all2 (\<lambda>_ _. True) (temp (fst s)) t \<and> max_entries (fst (n1, d1)) = max_entries (fst s)"
    by (intro map_state_rel[where I = "\<lambda>t. max_entries (fst t) = max_entries (fst s)", OF _ _ m])
      (auto simp: Let_def split: prod.splits if_splits)
  then show ?thesis using m by (auto simp: FlushTempEntries_def)
qed

lemma nat_exec_max:
  assumes "nat_exec env op s = Inr s'"
  shows "max_entries (fst s') = max_entries (fst s)"
proof (cases op)
  case (O_CacheEntry k e)
  then show ?thesis using assms by (auto simp: CacheEntry_def Let_def split: if_splits option.splits)
qed (use assms in \<open>auto simp: AddEntry_max UpdateUDPTimeStamp_max FlushTempEntries_max AddTable_def DeleteTable_def Reset_def DeleteEntry_def
    UpdatePwrSaveIf_def ResetPwrSaveIf_def clear_pwr_save_def DelEntriesOnClntDiscon_def DelEntriesOnSTAClntDiscon_def UpdateTcpUdpTo_def
    AddTempEntry_def DeleteTempEntry_def Let_def split: prod.split option.split\<close>)

lemma nat_exec_inv:
  assumes "nat_inv n" "op_ok (max_entries n) op"
  shows "\<exists>s'. nat_exec env op (n, d) = Inr s' \<and> nat_inv (fst s')"
proof (cases op)
  case (O_CacheEntry k e)
  then show ?thesis using CacheEntry_inv[OF assms(1), of k e] assms(2) by auto
qed (use assms in \<open>simp_all add: nat_op_invs\<close>)

interpretation nats: guarded_ops "nat_exec env" "\<lambda>s. nat_inv (fst s) \<and> max_entries (fst s) = m" "op_ok m" for env m
proof unfold_locales
  fix s :: "natapp \<times> 'a" and op
  assume "nat_inv (fst s) \<and> max_entries (fst s) = m" "op_ok m op"
  then show "\<exists>s'. nat_exec env op s = Inr s' \<and> nat_inv (fst s') \<and> max_entries (fst s') = m"
    using nat_exec_inv[of "fst s" op env "snd s"] nat_exec_max[of env op s] by fastforce
qed

lemma NatApp_Init_inv:
  assumes "NatApp_Init m1 m2 cfg (NatApp_new mem) = Inr (0, n)"
    and "length (PwrSaveIfs mem) = IPA_MAX_NUM_WIFI_CLIENTS" and "0 \<le> GetNatMaxEntries (the cfg)"
  shows "nat_inv n"
proof -
  have "conns (replicate k zero_entry) = []" for k by (simp add: conns_def occupied_def)
  then show ?thesis using assms
    by (auto simp: NatApp_Init_def NatApp_new_def Let_def nat_inv_def cache_ok_def
        split: option.splits if_splits sum.splits)
qed

section \<open>Agreement with the hardware table\<close>

text \<open>The rules the driver holds in a table, and what is relied on of the driver: an added rule gets a
  handle that is not in use, a rule that is in the table can be deleted, a failed call and a query
  change no rule, and a new table is empty.\<close>

type_synonym 'd nat_rules = "'d \<Rightarrow> u32 \<Rightarrow> u32 \<rightharpoonup> ipa_nat_ipv4_rule"

definition nat_driver :: "'d nat_env \<Rightarrow> 'd nat_rules \<Rightarrow> bool" where
  "nat_driver env rules \<longleftrightarrow>
     (\<forall>h r x d ret hdl d'. ipa_nat_add_ipv4_rule env h r x d = (ret, hdl, d') \<longrightarrow>
        (if ret < 0 then rules d' h = rules d h
         else rules d h hdl = None \<and> rules d' h = (rules d h)(hdl \<mapsto> r))) \<and>
     (\<forall>h k d ret d'. ipa_nat_del_ipv4_rule env h k d = (ret, d') \<longrightarrow> rules d h k \<noteq> None \<longrightarrow>
        0 \<le> ret \<and> rules d' h = (rules d h)(k := None)) \<and>
     (\<forall>h k x d ret ts d'. ipa_nat_query_timestamp env h k x d = (ret, ts, d') \<longrightarrow> rules d' h = rules d h) \<and>
     (\<forall>d h. rules (snd (nfct_open env d)) h = rules d h) \<and> (\<forall>d h. rules (snd (nfct_new env d)) h = rules d h) \<and>
     (\<forall>x d h. rules (snd (nfct_query env x d)) h = rules d h) \<and>
     (\<forall>ip k x d h d'. ipa_nat_add_ipv4_tbl env ip k x d = (0, h, d') \<longrightarrow> rules d' h = Map.empty)"

text \<open>The rules that the enabled entries of the cache stand for.\<close>

definition installed :: "nat_table_entry list \<Rightarrow> (u32 \<times> ipa_nat_ipv4_rule) list" where
  "installed c = map (\<lambda>e. (rule_hdl e, rule_of e)) (filter enabled c)"

definition in_sync :: "nat_table_entry list \<Rightarrow> (u32 \<rightharpoonup> ipa_nat_ipv4_rule) \<Rightarrow> bool" where
  "in_sync c m \<longleftrightarrow> distinct (map fst (installed c)) \<and> m = map_of (installed c)"

lemma installed_simps [simp]:
  "installed [] = []" "installed (xs @ ys) = installed xs @ installed ys"
  "installed (e # xs) = (if enabled e then (rule_hdl e, rule_of e) # installed xs else installed xs)"
  by (simp_all add: installed_def)

lemma map_of_mid: "k \<notin> fst ` set xs \<Longrightarrow> map_of (xs @ (k, v) # ys) = (map_of (xs @ ys))(k \<mapsto> v)"
  by (induction xs) (auto simp: fun_upd_twist)

lemma map_of_None: "k \<notin> fst ` set xs \<Longrightarrow> map_of xs k = None"
  by (simp add: map_of_eq_None_iff)

text \<open>The three ways the operations change the enabled state of a slot.\<close>

lemma sync_disable:
  assumes "in_sync (pre @ e # post) m" "enabled e" "\<not> enabled e'"
  shows "in_sync (pre @ e' # post) (m(rule_hdl e := None))"
proof -
  have n: "rule_hdl e \<notin> fst ` set (installed pre)" "rule_hdl e \<notin> fst ` set (installed post)"
    using assms(1,2) by (auto simp: in_sync_def)
  have "map_of (installed (pre @ post)) (rule_hdl e) = None"
    using n by (intro map_of_None) auto
  then have "(map_of (installed (pre @ e # post)))(rule_hdl e := None) = map_of (installed (pre @ post))"
    using assms(2) map_of_mid[OF n(1), of "rule_of e" "installed post"]
    by (auto simp: fun_eq_iff map_add_def)
  then show ?thesis using assms by (auto simp: in_sync_def)
qed

lemma sync_enable:
  assumes "in_sync (pre @ e # post) m" "\<not> enabled e" "enabled e'" "m (rule_hdl e') = None"
  shows "in_sync (pre @ e' # post) (m(rule_hdl e' \<mapsto> rule_of e'))"
proof -
  have "map_of (installed (pre @ post)) (rule_hdl e') = None" using assms by (simp add: in_sync_def)
  then have n: "rule_hdl e' \<notin> fst ` set (installed (pre @ post))"
    by (auto simp: map_of_eq_None_iff)
  then have "map_of (installed (pre @ e' # post)) = m(rule_hdl e' \<mapsto> rule_of e')"
    using assms map_of_mid[of "rule_hdl e'" "installed pre" "rule_of e'" "installed post"]
    by (simp add: in_sync_def image_Un)
  then show ?thesis using assms n by (auto simp: in_sync_def)
qed

lemma sync_same:
  assumes "in_sync (pre @ e # post) m" "enabled e' = enabled e"
    and "enabled e \<Longrightarrow> rule_hdl e' = rule_hdl e \<and> rule_of e' = rule_of e"
  shows "in_sync (pre @ e' # post) m"
  using assms by (cases "enabled e") (auto simp: in_sync_def)

lemma sync_slot:
  "in_sync (pre @ e # post) m \<Longrightarrow> enabled e \<Longrightarrow> m (rule_hdl e) = Some (rule_of e)"
  by (auto simp: in_sync_def map_add_Some_iff)
     (metis (no_types, lifting) disjoint_iff image_eqI map_of_SomeD fst_conv)

lemma nat_driver_add:
  assumes "nat_driver env rules" "ipa_nat_add_ipv4_rule env h r x d = (ret, hdl, d')"
  shows "ret < 0 \<Longrightarrow> rules d' h = rules d h"
    "\<not> ret < 0 \<Longrightarrow> rules d h hdl = None \<and> rules d' h = (rules d h)(hdl \<mapsto> r)"
proof -
  have "if ret < 0 then rules d' h = rules d h else rules d h hdl = None \<and> rules d' h = (rules d h)(hdl \<mapsto> r)"
    by (rule assms(1)[unfolded nat_driver_def, THEN conjunct1, rule_format, OF assms(2)])
  then show "ret < 0 \<Longrightarrow> rules d' h = rules d h"
    "\<not> ret < 0 \<Longrightarrow> rules d h hdl = None \<and> rules d' h = (rules d h)(hdl \<mapsto> r)" by simp_all
qed

lemma nat_driver_del:
  assumes "nat_driver env rules" "ipa_nat_del_ipv4_rule env h k d = (ret, d')" "rules d h k = Some r"
  shows "0 \<le> ret" "rules d' h = (rules d h)(k := None)"
proof -
  have "0 \<le> ret \<and> rules d' h = (rules d h)(k := None)"
    using assms(1)[unfolded nat_driver_def, THEN conjunct2, THEN conjunct1, rule_format, OF assms(2)] assms(3)
    by simp
  then show "0 \<le> ret" "rules d' h = (rules d h)(k := None)" by simp_all
qed

lemma nat_driver_other:
  assumes "nat_driver env rules"
  shows "ipa_nat_query_timestamp env h k x d = (ret, ts, d') \<Longrightarrow> rules d' h = rules d h"
    "nfct_open env d = (p, d') \<Longrightarrow> rules d' h = rules d h" "nfct_new env d = (p, d') \<Longrightarrow> rules d' h = rules d h"
    "nfct_query env q d = (ret, d') \<Longrightarrow> rules d' h = rules d h"
    "ipa_nat_add_ipv4_tbl env ip c x d = (0, h, d') \<Longrightarrow> rules d' h = Map.empty"
proof -
  note r = assms[unfolded nat_driver_def, THEN conjunct2, THEN conjunct2]
  show "ipa_nat_query_timestamp env h k x d = (ret, ts, d') \<Longrightarrow> rules d' h = rules d h"
    using r[THEN conjunct1] by blast
  show "nfct_open env d = (p, d') \<Longrightarrow> rules d' h = rules d h"
    using r[THEN conjunct2, THEN conjunct1, rule_format, of d h] by simp
  show "nfct_new env d = (p, d') \<Longrightarrow> rules d' h = rules d h"
    using r[THEN conjunct2, THEN conjunct2, THEN conjunct1, rule_format, of d h] by simp
  show "nfct_query env q d = (ret, d') \<Longrightarrow> rules d' h = rules d h"
    using r[THEN conjunct2, THEN conjunct2, THEN conjunct2, THEN conjunct1, rule_format, of q d h] by simp
  show "ipa_nat_add_ipv4_tbl env ip c x d = (0, h, d') \<Longrightarrow> rules d' h = Map.empty"
    using r[THEN conjunct2, THEN conjunct2, THEN conjunct2, THEN conjunct2] by blast
qed

definition synced :: "'d nat_rules \<Rightarrow> natapp \<times> 'd \<Rightarrow> bool" where
  "synced rules s \<longleftrightarrow> in_sync (cache (fst s)) (rules (snd s) (nat_table_hdl (fst s)))"

lemma sync_upd_at:
  assumes "i < length c" "in_sync c m"
  shows "enabled (c ! i) \<Longrightarrow> \<not> enabled e' \<Longrightarrow> in_sync (c[i := e']) (m(rule_hdl (c ! i) := None))"
    "\<not> enabled (c ! i) \<Longrightarrow> enabled e' \<Longrightarrow> m (rule_hdl e') = None \<Longrightarrow>
       in_sync (c[i := e']) (m(rule_hdl e' \<mapsto> rule_of e'))"
    "\<not> enabled (c ! i) \<Longrightarrow> \<not> enabled e' \<Longrightarrow> in_sync (c[i := e']) m"
    "enabled (c ! i) \<Longrightarrow> m (rule_hdl (c ! i)) = Some (rule_of (c ! i))"
proof -
  obtain pre e post where s: "c = pre @ e # post" "c ! i = e" "\<And>y. c[i := y] = pre @ y # post"
    using id_take_nth_drop[OF assms(1)] upd_conv_take_nth_drop[OF assms(1)] by metis
  have sy: "in_sync (pre @ e # post) m" using assms(2) s(1) by simp
  show "enabled (c ! i) \<Longrightarrow> \<not> enabled e' \<Longrightarrow> in_sync (c[i := e']) (m(rule_hdl (c ! i) := None))"
    using sync_disable[OF sy, of e'] unfolding s(2,3) by blast
  show "\<not> enabled (c ! i) \<Longrightarrow> enabled e' \<Longrightarrow> m (rule_hdl e') = None \<Longrightarrow>
       in_sync (c[i := e']) (m(rule_hdl e' \<mapsto> rule_of e'))"
    using sync_enable[OF sy, of e'] unfolding s(2,3) by blast
  show "\<not> enabled (c ! i) \<Longrightarrow> \<not> enabled e' \<Longrightarrow> in_sync (c[i := e']) m"
    using sync_same[OF sy, of e'] unfolding s(2,3) by blast
  show "enabled (c ! i) \<Longrightarrow> m (rule_hdl (c ! i)) = Some (rule_of (c ! i))"
    using sync_slot[OF sy] unfolding s(2) by blast
qed

lemmas sync_upd = sync_upd_at[OF find_slot_SomeD(1)]

lemma rule_of_upd [simp]:
  "rule_of (e\<lparr>rule_hdl := x\<rparr>) = rule_of e" "rule_of (e\<lparr>enabled := b\<rparr>) = rule_of e"
  "rule_of (e\<lparr>timestamp := t\<rparr>) = rule_of e"
  by (simp_all add: rule_of_def)

lemma sync_restore_loop:
  assumes drv: "nat_driver env rules" and "in_sync c (rules d h)"
    and "map_state (\<lambda>e s. if P e \<and> \<not> enabled e then restore_entry env h e s else (e, s)) c (cnt, d) = (c', cnt', d')"
  shows "in_sync c' (rules d' h)"
proof -
  let ?f = "\<lambda>e s. if P e \<and> \<not> enabled e then restore_entry env h e s else (e, s)"
  have "in_sync c' (rules (snd (cnt', d')) h)"
  proof (rule map_state_whole[where I = "\<lambda>c s. in_sync c (rules (snd s) h)" and f = ?f, OF _ _ assms(3)])
    fix pre e post s e' s'
    assume sy: "in_sync (pre @ e # post) (rules (snd s) h)" and f: "?f e s = (e', s')"
    obtain k d where s: "s = (k, d)" by fastforce
    obtain ret hdl d1 where a: "ipa_nat_add_ipv4_rule env h (rule_of e) (rule_hdl e) d = (ret, hdl, d1)"
      using prod_cases3 by blast
    note dl = nat_driver_add[OF drv a]
    show "in_sync (pre @ e' # post) (rules (snd s') h)"
    proof (cases "P e \<and> \<not> enabled e \<and> \<not> ret < 0")
      case True
      then show ?thesis using sync_enable[OF sy, of e'] f dl(2) by (auto simp: s a restore_entry_def)
    next
      case False
      then show ?thesis using sync_same[OF sy, of e'] f dl(1) by (auto simp: s a restore_entry_def split: if_splits)
    qed
  qed (use assms(2) in simp)
  then show ?thesis by simp
qed

lemma sync_disable_loop:
  assumes drv: "nat_driver env rules" and "in_sync c (rules d h)" and g: "\<And>e. \<not> enabled (g e)"
    and "map_state (\<lambda>e d. if P e \<and> enabled e then
        (let (ret, d') = ipa_nat_del_ipv4_rule env h (rule_hdl e) d in if ret < 0 then (e, d') else (g e, d'))
      else (e, d)) c d = (c', d')"
  shows "in_sync c' (rules d' h)"
proof -
  let ?f = "\<lambda>e d. if P e \<and> enabled e then
      (let (ret, d') = ipa_nat_del_ipv4_rule env h (rule_hdl e) d in if ret < 0 then (e, d') else (g e, d'))
    else (e, d)"
  show ?thesis
  proof (rule map_state_whole[where I = "\<lambda>c d. in_sync c (rules d h)" and f = ?f, OF _ assms(2,4)])
    fix pre e post d e' d'
    assume sy: "in_sync (pre @ e # post) (rules d h)" and f: "?f e d = (e', d')"
    obtain ret d1 where a: "ipa_nat_del_ipv4_rule env h (rule_hdl e) d = (ret, d1)" by fastforce
    show "in_sync (pre @ e' # post) (rules d' h)"
    proof (cases "P e \<and> enabled e")
      case True
      note dl = nat_driver_del[OF drv a sync_slot[OF sy]]
      show ?thesis using True f dl sync_disable[OF sy, of "g e"] g by (auto simp: a split: if_splits)
    next
      case False
      then show ?thesis using f sy by auto
    qed
  qed
qed

lemma sync_sta_loop:
  assumes drv: "nat_driver env rules" and "in_sync c (rules d h)"
    and "map_state (\<lambda>e (cnt, d). if target_ip e = ip then
        (if enabled e then (let (ret, d') = ipa_nat_del_ipv4_rule env h (rule_hdl e) d
           in if ret < 0 then (e, cnt, d') else (zero_entry, cnt - 1, d'))
         else (zero_entry, cnt - 1, d)) else (e, cnt, d)) c (cnt, d) = (c', cnt', d')"
  shows "in_sync c' (rules d' h)"
proof -
  let ?f = "\<lambda>e (cnt, d). if target_ip e = ip then
        (if enabled e then (let (ret, d') = ipa_nat_del_ipv4_rule env h (rule_hdl e) d
           in if ret < 0 then (e, cnt, d') else (zero_entry, cnt - 1, d'))
         else (zero_entry, cnt - 1, d)) else (e, cnt, d)"
  have "in_sync c' (rules (snd (cnt', d')) h)"
  proof (rule map_state_whole[where I = "\<lambda>c s. in_sync c (rules (snd s) h)" and f = ?f, OF _ _ assms(3)])
    fix pre e post s e' s'
    assume sy: "in_sync (pre @ e # post) (rules (snd s) h)" and f: "?f e s = (e', s')"
    obtain k d where s: "s = (k, d)" by fastforce
    obtain ret d1 where a: "ipa_nat_del_ipv4_rule env h (rule_hdl e) d = (ret, d1)" by fastforce
    have sy': "in_sync (pre @ e # post) (rules d h)" using sy s by simp
    show "in_sync (pre @ e' # post) (rules (snd s') h)"
    proof (cases "target_ip e = ip \<and> enabled e")
      case True
      note dl = nat_driver_del[OF drv a sync_slot[OF sy']]
      show ?thesis using True f dl sync_disable[OF sy', of zero_entry] by (auto simp: a s split: if_splits)
    next
      case False
      then show ?thesis using f sync_same[OF sy', of e'] by (auto simp: s split: if_splits)
    qed
  qed (use assms(2) in simp)
  then show ?thesis by simp
qed

lemma free_slot_disabled:
  assumes "nat_inv n" "find_slot free_entry (cache n) = Some i"
  shows "\<not> enabled (cache n ! i)"
  using find_slot_SomeD[OF assms(2)] assms(1) valid_not_free
  by (auto simp: nat_inv_def cache_ok_def entry_ok_def)

lemma AddEntry_sync:
  assumes drv: "nat_driver env rules" and "nat_inv n" "synced rules (n, d)" "AddEntry env rule (n, d) = (r, n', d')"
  shows "synced rules (n', d')"
proof (cases "find_slot free_entry (cache n)")
  case None
  then show ?thesis using assms by (auto simp: AddEntry_def Let_def simp del: find_slot_None_iff split: if_splits)
next
  case (Some i)
  note off = free_slot_disabled[OF assms(2) Some]
  have sy: "in_sync (cache n) (rules d (nat_table_hdl n))" using assms(3) by (simp add: synced_def)
  obtain ret hdl d1 where a: "ipa_nat_add_ipv4_rule env (nat_table_hdl n) (rule_of rule) (rule_hdl (cache n ! i)) d =
      (ret, hdl, d1)" using prod_cases3 by blast
  note dl = nat_driver_add[OF drv a]
  have "in_sync ((cache n)[i := fill_entry rule ((cache n ! i)\<lparr>rule_hdl := hdl, enabled := True\<rparr>)]) (rules d1 (nat_table_hdl n))"
    if "\<not> ret < 0" using sync_upd(2)[OF Some sy off, of "fill_entry rule ((cache n ! i)\<lparr>rule_hdl := hdl, enabled := True\<rparr>)"] dl(2)[OF that] by simp
  moreover have "in_sync ((cache n)[i := (cache n ! i)\<lparr>rule_hdl := hdl\<rparr>]) (rules d1 (nat_table_hdl n))" if "ret < 0"
    using sync_upd(3)[OF Some sy off] dl(1)[OF that] off by simp
  moreover have "in_sync ((cache n)[i := fill_entry rule ((cache n ! i)\<lparr>enabled := False, rule_hdl := 0\<rparr>)]) (rules d (nat_table_hdl n))"
    using sync_upd(3)[OF Some sy off] by simp
  ultimately show ?thesis using assms(3,4) Some a
    by (auto simp: AddEntry_def Let_def synced_def split: if_splits)
qed

lemma DeleteEntry_sync:
  assumes drv: "nat_driver env rules" and "synced rules (n, d)" "DeleteEntry env rule (n, d) = (r, n', d')"
  shows "synced rules (n', d')"
proof (cases "find_slot (\<lambda>e. same_conn e rule) (cache n)")
  case None
  then show ?thesis using assms by (simp add: DeleteEntry_def del: find_slot_None_iff)
next
  case (Some i)
  have sy: "in_sync (cache n) (rules d (nat_table_hdl n))" using assms(2) by (simp add: synced_def)
  obtain ret d1 where a: "ipa_nat_del_ipv4_rule env (nat_table_hdl n) (rule_hdl (cache n ! i)) d = (ret, d1)"
    by fastforce
  show ?thesis
  proof (cases "enabled (cache n ! i)")
    case True
    then show ?thesis using assms(3) Some a sync_upd(1)[OF Some sy True, of zero_entry]
        nat_driver_del(2)[OF drv a sync_upd(4)[OF Some sy True]]
      by (auto simp: DeleteEntry_def Let_def synced_def)
  next
    case False
    then show ?thesis using assms(3) Some sync_upd(3)[OF Some sy False, of zero_entry]
      by (auto simp: DeleteEntry_def Let_def synced_def)
  qed
qed

lemma UpdatePwrSaveIf_sync:
  assumes drv: "nat_driver env rules" and "synced rules (n, d)" "UpdatePwrSaveIf env ip (n, d) = (r, n', d')"
  shows "synced rules (n', d')"
proof -
  let ?g = "\<lambda>e. e\<lparr>enabled := False, rule_hdl := 0\<rparr>"
  let ?f = "\<lambda>e d. if private_ip e = ip \<and> enabled e then
      (let (ret, d') = ipa_nat_del_ipv4_rule env (nat_table_hdl n) (rule_hdl e) d
       in if ret < 0 then (e, d') else (?g e, d')) else (e, d)"
  obtain c d1 where m: "map_state ?f (cache n) d = (c, d1)" by fastforce
  have "in_sync c (rules d1 (nat_table_hdl n))"
    by (rule sync_disable_loop[OF drv _ _ m]) (use assms(2) in \<open>auto simp: synced_def\<close>)
  then show ?thesis using UpdatePwrSaveIf_eq[OF m] assms(2,3) by (auto simp: synced_def split: if_splits)
qed

lemma ResetPwrSaveIf_sync:
  assumes drv: "nat_driver env rules" and "synced rules (n, d)" "ResetPwrSaveIf env ip (n, d) = (r, n', d')"
  shows "synced rules (n', d')"
proof (cases "ip = 0")
  case True
  then show ?thesis using assms by (simp add: ResetPwrSaveIf_def INVALID_IP_ADDR_def)
next
  case False
  let ?f = "\<lambda>e s. if private_ip e = ip \<and> \<not> enabled e then restore_entry env (nat_table_hdl n) e s else (e, s)"
  obtain c cnt d1 where m: "map_state ?f (cache n) (curCnt n, d) = (c, cnt, d1)" using prod_cases3 by blast
  have "in_sync c (rules d1 (nat_table_hdl n))"
    by (rule sync_restore_loop[OF drv _ m]) (use assms(2) in \<open>auto simp: synced_def\<close>)
  then show ?thesis using ResetPwrSaveIf_eq[OF m False] assms(3) by (auto simp: synced_def)
qed

lemma DelEntriesOnClntDiscon_sync:
  assumes drv: "nat_driver env rules" and "synced rules (n, d)" "DelEntriesOnClntDiscon env ip (n, d) = (r, n', d')"
  shows "synced rules (n', d')"
proof -
  let ?f = "\<lambda>e d. if private_ip e = ip \<and> enabled e then
      (let (ret, d') = ipa_nat_del_ipv4_rule env (nat_table_hdl n) (rule_hdl e) d
       in if ret < 0 then (e, d') else (e\<lparr>enabled := False\<rparr>, d')) else (e, d)"
  obtain c d1 where m: "map_state ?f (cache n) d = (c, d1)" by fastforce
  have "in_sync c (rules d1 (nat_table_hdl n))"
    by (rule sync_disable_loop[OF drv _ _ m]) (use assms(2) in \<open>auto simp: synced_def\<close>)
  then show ?thesis using DelEntriesOnClntDiscon_eq[OF m] assms(2,3) by (auto simp: synced_def split: if_splits)
qed

lemma DelEntriesOnSTAClntDiscon_sync:
  assumes drv: "nat_driver env rules" and "synced rules (n, d)"
    and "DelEntriesOnSTAClntDiscon env ip (n, d) = (r, n', d')"
  shows "synced rules (n', d')"
proof -
  let ?f = "\<lambda>e (cnt, d). if target_ip e = ip then
        (if enabled e then (let (ret, d') = ipa_nat_del_ipv4_rule env (nat_table_hdl n) (rule_hdl e) d
           in if ret < 0 then (e, cnt, d') else (zero_entry, cnt - 1, d'))
         else (zero_entry, cnt - 1, d)) else (e, cnt, d)"
  obtain c cnt d1 where m: "map_state ?f (cache n) (curCnt n, d) = (c, cnt, d1)" using prod_cases3 by blast
  have "in_sync c (rules d1 (nat_table_hdl n))"
    by (rule sync_sta_loop[OF drv _ m]) (use assms(2) in \<open>simp add: synced_def\<close>)
  then show ?thesis using m assms(2,3)
    by (auto simp: DelEntriesOnSTAClntDiscon_def Let_def synced_def split: if_splits)
qed

lemma FlushTempEntries_sync:
  assumes drv: "nat_driver env rules" and "nat_inv n" "synced rules (n, d)" "FlushTempEntries env ip add (n, d) = (n', d')"
  shows "synced rules (n', d')"
proof -
  let ?f = "\<lambda>e (n, d). if private_ip e = ip \<or> target_ip e = ip then
       (if add \<and> ucast (public_ip e) = pub_ip_addr n then
          (let (ret, n', d') = AddEntry env e (n, d) in if ret \<noteq> 0 then (e, n', d') else (zero_entry, n', d'))
        else (zero_entry, n, d)) else (e, n, d)"
  obtain t n1 d1 where m: "map_state ?f (temp n) (n, d) = (t, n1, d1)" using prod_cases3 by blast
  have "list_all2 (\<lambda>_ _. True) (temp n) t \<and> (nat_inv (fst (n1, d1)) \<and> synced rules (n1, d1))"
    by (rule map_state_rel[where I = "\<lambda>s. nat_inv (fst s) \<and> synced rules s", OF _ _ m])
      (use assms in \<open>auto simp: Let_def split: prod.splits if_splits dest: AddEntry_inv AddEntry_sync[OF drv]\<close>)
  then show ?thesis using m assms by (auto simp: FlushTempEntries_def synced_def)
qed

lemma CacheEntry_sync:
  assumes "nat_inv n" "synced rules (n, d)" "CacheEntry cnt0 rule n = Inr n'"
  shows "synced rules (n', d)"
proof (cases "find_slot free_entry (drop (nat cnt0) (cache n))")
  case None
  then show ?thesis using assms by (auto simp: CacheEntry_def simp del: find_slot_None_iff split: if_splits)
next
  case (Some k)
  have sy: "in_sync (cache n) (rules d (nat_table_hdl n))" using assms(2) by (simp add: synced_def)
  have i: "nat cnt0 + k < length (cache n)" "free_entry (cache n ! (nat cnt0 + k))" using find_slot_SomeD[OF Some] by (auto simp: add.commute)
  then have off: "\<not> enabled (cache n ! (nat cnt0 + k))"
    using assms(1) valid_not_free by (auto simp: nat_inv_def cache_ok_def entry_ok_def)
  show ?thesis using assms Some sync_upd_at(3)[OF i(1) sy off]
    by (auto simp: CacheEntry_def Let_def synced_def split: if_splits)
qed

lemma UpdateCTUdpTs_rules:
  assumes "nat_driver env rules" "UpdateCTUdpTs env e ts (n, d) = (e', n', d')"
  shows "rules d' h = rules d h"
  using assms(2) nat_driver_other(2-4)[OF assms(1)]
  by (auto simp: UpdateCTUdpTs_def Let_def split: prod.splits if_splits option.splits)

lemma UpdateUDPTimeStamp_sync:
  assumes drv: "nat_driver env rules" and "synced rules (n, d)" "UpdateUDPTimeStamp env (n, d) = (n', d')"
  shows "synced rules (n', d')"
proof -
  let ?f = "\<lambda>e (n, d).
     if enabled e then
       (let (ret, ts, d1) = ipa_nat_query_timestamp env (nat_table_hdl n) (rule_hdl e) 0 d
        in if ret < 0 then (e, n, d1) else if timestamp e = ts then (e, n, d1)
           else UpdateCTUdpTs env e ts (n, d1))
     else (e, n, d)"
  let ?h = "nat_table_hdl n"
  let ?I = "\<lambda>c s. in_sync c (rules (snd s) ?h) \<and> nat_table_hdl (fst s) = ?h"
  obtain c n1 d1 where m: "map_state ?f (cache n) (n, d) = (c, n1, d1)" using prod_cases3 by blast
  have "?I c (n1, d1)"
  proof (rule map_state_whole[where I = ?I and f = ?f, OF _ _ m])
    fix pre e post s e' s'
    assume I: "?I (pre @ e # post) s" and f: "?f e s = (e', s')"
    obtain k d2 where s: "s = (k, d2)" by fastforce
    obtain k' d3 where s': "s' = (k', d3)" by fastforce
    obtain ret ts d4 where q: "ipa_nat_query_timestamp env (nat_table_hdl k) (rule_hdl e) 0 d2 = (ret, ts, d4)"
      using prod_cases3 by blast
    have "rules d4 ?h = rules d2 ?h" using nat_driver_other(1)[OF drv q] I s by simp
    then have "rules d3 ?h = rules d2 ?h \<and> nat_table_hdl k' = nat_table_hdl k \<and>
        (e' = e \<or> (\<exists>t. e' = e\<lparr>timestamp := t\<rparr>))"
      using f q UpdateCTUdpTs_rules[OF drv, of e ts k d4 e' k' d3] UpdateCTUdpTs_frame(5)[of env e ts k d4 e' k' d3]
        UpdateCTUdpTs_entry[of env e ts k d4 e' k' d3]
      by (simp add: s s' split: if_splits; blast)
    then show "?I (pre @ e' # post) s'" using I sync_same[of pre e post _ e'] s s' by auto
  qed (use assms(2) in \<open>simp add: synced_def\<close>)
  then show ?thesis using m assms(3) by (auto simp: UpdateUDPTimeStamp_def synced_def)
qed

lemma sync_restore_all:
  assumes drv: "nat_driver env rules" and "rules d h = Map.empty" and "\<forall>e \<in> set c. entry_ok e"
    and "map_state (\<lambda>e s. if private_ip e \<noteq> 0 then restore_entry env h e s else (e, s)) c (cnt, d) = (c', cnt', d')"
  shows "in_sync c' (rules d' h) \<and> (\<forall>e \<in> set c'. \<not> free_entry e \<longrightarrow> enabled e)"
proof -
  let ?f = "\<lambda>e s. if private_ip e \<noteq> 0 then restore_entry env h e s else (e, s)"
  let ?J = "\<lambda>pre post s. in_sync pre (rules (snd s) h) \<and> (\<forall>e \<in> set pre. \<not> free_entry e \<longrightarrow> enabled e) \<and>
     (\<forall>e \<in> set post. entry_ok e)"
  have "?J ([] @ c') [] (cnt', d')"
  proof (rule map_state_split[where J = ?J and f = ?f, OF _ _ assms(4)])
    fix pre e post s e' s'
    assume J: "?J pre (e # post) s" and f: "?f e s = (e', s')"
    obtain k d where s: "s = (k, d)" by fastforce
    obtain ret hdl d1 where a: "ipa_nat_add_ipv4_rule env h (rule_of e) (rule_hdl e) d = (ret, hdl, d1)"
      using prod_cases3 by blast
    note dl = nat_driver_add[OF drv a]
    have sy: "in_sync (pre @ zero_entry # []) (rules d h)" using J s by (simp add: in_sync_def)
    show "?J (pre @ [e']) post s'"
    proof (cases "private_ip e \<noteq> 0 \<and> \<not> ret < 0")
      case True
      then show ?thesis using J sync_enable[OF sy, of e'] f dl(2) by (auto simp: s a restore_entry_def)
    next
      case False
      have "free_entry e \<and> \<not> enabled e" if "private_ip e = 0"
        using that J by (auto simp: entry_ok_def invalid_conn_def)
      then have "free_entry e' \<and> \<not> enabled e'" using False f by (auto simp: s a restore_entry_def split: if_splits)
      moreover have "rules (snd s') h = rules d h" using False f dl(1) by (auto simp: s a restore_entry_def split: if_splits)
      ultimately show ?thesis using J s by (auto simp: in_sync_def)
    qed
  qed (use assms(2,3) in \<open>simp add: in_sync_def\<close>)
  then show ?thesis by simp
qed

text \<open>The operations other than the creation and deletion of the table.\<close>

fun table_op :: "nat_op \<Rightarrow> bool" where
  "table_op (O_AddTable _) = True"
| "table_op (O_DeleteTable _) = True"
| "table_op _ = False"

lemmas nat_op_syncs = AddEntry_sync[OF _ _ _ triple] DeleteEntry_sync[OF _ _ triple]
  UpdatePwrSaveIf_sync[OF _ _ triple] ResetPwrSaveIf_sync[OF _ _ triple]
  DelEntriesOnClntDiscon_sync[OF _ _ triple] DelEntriesOnSTAClntDiscon_sync[OF _ _ triple]
  UpdateUDPTimeStamp_sync[OF _ _ surjective_pairing] FlushTempEntries_sync[OF _ _ _ surjective_pairing]

lemma synced_other [simp]:
  "synced rules (UpdateTcpUdpTo v q n, d) = synced rules (n, d)" "synced rules (AddTempEntry e n, d) = synced rules (n, d)"
  "synced rules (DeleteTempEntry e n, d) = synced rules (n, d)"
  by (simp_all add: synced_def UpdateTcpUdpTo_def AddTempEntry_def DeleteTempEntry_def)

lemma nat_exec_sync:
  assumes "nat_driver env rules" "nat_inv n" "synced rules (n, d)" "\<not> table_op op" "nat_exec env op (n, d) = Inr s'"
  shows "synced rules s'"
proof (cases op)
  case (O_CacheEntry k e)
  then show ?thesis using CacheEntry_sync[OF assms(2,3), of k e] assms(5)
    by (cases "CacheEntry k e n") auto
qed (use assms nat_op_syncs in auto)

interpretation sync: guarded_ops "nat_exec env"
  "\<lambda>s. (nat_inv (fst s) \<and> max_entries (fst s) = m) \<and> (nat_driver env rules \<longrightarrow> synced rules s)" "\<lambda>op. op_ok m op \<and> \<not> table_op op"
  for env rules m
proof unfold_locales
  fix s :: "natapp \<times> 'a" and op
  assume s: "(nat_inv (fst s) \<and> max_entries (fst s) = m) \<and> (nat_driver env rules \<longrightarrow> synced rules s)" and op: "op_ok m op \<and> \<not> table_op op"
  obtain s' where "nat_exec env op s = Inr s' \<and> nat_inv (fst s') \<and> max_entries (fst s') = m"
    using nats.exec_inv[of s m op env] s op by blast
  then show "\<exists>s'. nat_exec env op s = Inr s' \<and> (nat_inv (fst s') \<and> max_entries (fst s') = m) \<and> (nat_driver env rules \<longrightarrow> synced rules s')"
    using nat_exec_sync[of env rules "fst s" "snd s" op s'] s op by auto
qed

section \<open>Properties\<close>

text \<open>A driver that satisfies the laws, for concrete runs: it holds the rules of one table and hands out
  handles in order.\<close>

definition ex_env :: "((u32 \<rightharpoonup> ipa_nat_ipv4_rule) \<times> u32) nat_env" where
  "ex_env = \<lparr>ipa_nat_add_ipv4_tbl = (\<lambda>ip k x d. (0, 1, (Map.empty, 1))),
     ipa_nat_del_ipv4_tbl = (\<lambda>h d. (0, (Map.empty, 1))),
     ipa_nat_add_ipv4_rule = (\<lambda>h r x d. if fst d (snd d) = None
       then (0, snd d, ((fst d)(snd d \<mapsto> r), snd d + 1)) else (-1, x, d)),
     ipa_nat_del_ipv4_rule = (\<lambda>h k d. if fst d k = None then (-1, d) else (0, ((fst d)(k := None), snd d))),
     ipa_nat_query_timestamp = (\<lambda>h k x d. (-1, x, d)),
     nfct_open = (\<lambda>d. (None, d)), nfct_new = (\<lambda>d. (None, d)), nfct_query = (\<lambda>c d. (-1, d))\<rparr>"

abbreviation ex_rules :: "((u32 \<rightharpoonup> ipa_nat_ipv4_rule) \<times> u32) nat_rules" where
  "ex_rules \<equiv> (\<lambda>d h. fst d)"

lemma ex_env_driver: "nat_driver ex_env ex_rules"
  unfolding nat_driver_def by (auto simp: ex_env_def split: if_splits)

definition ex_conn :: nat_table_entry where
  "ex_conn = zero_entry\<lparr>private_ip := 0xC0A80105, private_port := 1000, target_ip := 0x08080808,
     target_port := 53, protocol := 17, public_port := 1000, public_ip := 0x1234\<rparr>"

definition ex_nat :: natapp where
  "ex_nat = \<lparr>cache = replicate 2 zero_entry, temp = replicate 25 zero_entry, pub_ip_addr = 0x0A0B0C0D,
     pub_ip_addr_pre = 0, nat_table_hdl = 1, curCnt = 0, max_entries = 2,
     pALGPorts = [\<lparr>alg_protocol = 6, alg_port = 21\<rparr>], nALGPort = 1, tcp_timeout = 0, udp_timeout = 0,
     PwrSaveIfs = replicate 32 0, ct = None, ct_hdl = None\<rparr>"

lemma ex_nat_inv: "nat_inv ex_nat"
  by (simp add: nat_inv_def ex_nat_def MAX_TEMP_ENTRIES_def IPA_MAX_NUM_WIFI_CLIENTS_def cache_ok_def
      numeral_eq_Suc)

lemma ex_nat_synced: "synced ex_rules (ex_nat, (Map.empty, 1))"
  by (simp add: synced_def in_sync_def ex_nat_def numeral_eq_Suc)

lemma ex_AddTable: "\<exists>n' d'. AddTable ex_env ip (n, d) = (0, n', d')"
proof -
  have t: "ipa_nat_add_ipv4_tbl ex_env ip (of_int (max_entries n)) (nat_table_hdl n) d = (0, 1, (Map.empty, 1))"
    by (simp add: ex_env_def)
  obtain c cnt d2 where m: "map_state (\<lambda>e s. if private_ip e \<noteq> 0 then restore_entry ex_env 1 e s else (e, s))
      (cache n) (curCnt n, (Map.empty, 1)) = (c, cnt, d2)" using prod_cases3 by blast
  from AddTable_eq[OF t m] show ?thesis by auto
qed

lemma ex_AddEntry: "\<exists>n' d'. AddEntry ex_env ex_conn (ex_nat, (Map.empty, 1)) = (0, n', d')"
proof -
  have "fst (AddEntry ex_env ex_conn (ex_nat, (Map.empty, 1))) = 0" by code_simp
  then show ?thesis by (metis prod.collapse)
qed

text \<open>C16. The connection cache, for every behaviour of the driver and of conntrack: after a successful
  \<open>Init\<close> any sequence of the object's operations runs without an access out of bounds, no two entries
  are for the same connection, \<open>curCnt\<close> is the number of connections and at most \<open>max_entries\<close>, and
  every enabled entry is a complete connection. The caller must not ask for the deletion of an
  all-zero connection. The counter of \<open>CacheEntry\<close>, which the source does not initialise, is arbitrary but starts between the first slot
  and the end of the cache; from any other value the source reads and writes outside the cache.\<close>

theorem nat_cache_invariant:
  assumes "NatApp_Init m1 m2 cfg (NatApp_new mem) = Inr (0, n)"
    and "length (PwrSaveIfs mem) = IPA_MAX_NUM_WIFI_CLIENTS" and "0 \<le> GetNatMaxEntries (the cfg)"
    and "\<forall>op \<in> set ops. op_ok (max_entries n) op"
  shows "\<exists>n' d'. run_ops (nat_exec env) ops (n, d) = Inr (n', d') \<and> distinct (conns (cache n')) \<and>
     curCnt n' = int (length (conns (cache n'))) \<and> curCnt n' \<le> max_entries n' \<and> max_entries n' = max_entries n \<and>
     (\<forall>e \<in> set (cache n'). enabled e \<longrightarrow> \<not> invalid_conn e)"
proof -
  have n: "nat_inv (fst (n, d)) \<and> max_entries (fst (n, d)) = max_entries n" using NatApp_Init_inv[OF assms(1-3)] by simp
  obtain n' d' where r: "run_ops (nat_exec env) ops (n, d) = Inr (n', d')" "nat_inv n'" "max_entries n' = max_entries n"
    using nats.run_inv[OF n assms(4), of env] by auto
  then show ?thesis using cache_ok_bound[of "cache n'" "curCnt n'"]
    by (auto simp: nat_inv_def cache_ok_def entry_ok_def)
qed

theorem nat_cache_invariant_witness:
  "\<exists>n n' d'. NatApp_Init True True (Some ex_config) (NatApp_new ex_nat) = Inr (0, n) \<and>
     run_ops (nat_exec ex_env) [O_CacheEntry 250 ex_conn, O_AddTable 7, O_AddEntry ex_conn, O_AddEntry ex_conn, O_DeleteEntry ex_conn]
       (n, (Map.empty, 1)) = Inr (n', d') \<and> distinct (conns (cache n')) \<and> curCnt n' \<le> max_entries n'"
proof -
  have c: "GetNatMaxEntries ex_config = 500" "GetAlgPortCnt ex_config = 1"
    "alg_table ex_config = [\<lparr>alg_protocol = 6, alg_port = 21\<rparr>]" "\<not> alg_table_freed ex_config"
    by (simp_all add: ex_config_def Init_def ex_cfg_def Let_def IPA_MAX_IFACE_ENTRIES_def
      IPA_MAX_ALG_ENTRIES_def IPA_MAX_PRIVATE_SUBNET_ENTRIES_def GetNatMaxEntries_def GetAlgPortCnt_def IPACM_Config_new_def)
  obtain n where n: "NatApp_Init True True (Some ex_config) (NatApp_new ex_nat) = Inr (0, n)" "max_entries n = 500"
    by (simp add: NatApp_Init_def Let_def c GetAlgPorts_def)
  show ?thesis
    using nat_cache_invariant[OF n(1), of "[O_CacheEntry 250 ex_conn, O_AddTable 7, O_AddEntry ex_conn, O_AddEntry ex_conn, O_DeleteEntry ex_conn]"
        ex_env "(Map.empty, 1)"] n c
    by (auto simp: ex_nat_def IPA_MAX_NUM_WIFI_CLIENTS_def ex_conn_def free_entry_def)
qed

text \<open>C17. Agreement with the hardware: with a driver that satisfies \<open>nat_driver\<close>, any sequence of
  operations other than the creation and deletion of the table keeps the rules in the hardware table
  exactly those of the enabled cache entries, each under its own handle.\<close>

theorem nat_hardware_agreement:
  assumes "nat_driver env rules" and "nat_inv n" and "synced rules (n, d)"
    and "\<forall>op \<in> set ops. op_ok (max_entries n) op \<and> \<not> table_op op"
  shows "\<exists>n' d'. run_ops (nat_exec env) ops (n, d) = Inr (n', d') \<and>
     distinct (map rule_hdl (filter enabled (cache n'))) \<and>
     rules d' (nat_table_hdl n') = map_of (map (\<lambda>e. (rule_hdl e, rule_of e)) (filter enabled (cache n')))"
proof -
  have "(nat_inv (fst (n, d)) \<and> max_entries (fst (n, d)) = max_entries n) \<and> (nat_driver env rules \<longrightarrow> synced rules (n, d))" using assms by simp
  from sync.run_inv[OF this assms(4)] obtain n' d' where
    "run_ops (nat_exec env) ops (n, d) = Inr (n', d')" "synced rules (n', d')" using assms(1) by auto
  then show ?thesis by (auto simp: synced_def in_sync_def installed_def o_def)
qed

theorem nat_hardware_agreement_witness:
  "\<exists>n' d'. run_ops (nat_exec ex_env) [O_AddEntry ex_conn, O_UpdatePwrSaveIf 0xC0A80105] (ex_nat, (Map.empty, 1)) =
     Inr (n', d') \<and>
     fst d' = map_of (map (\<lambda>e. (rule_hdl e, rule_of e)) (filter enabled (cache n')))"
  using nat_hardware_agreement[OF ex_env_driver ex_nat_inv ex_nat_synced,
      of "[O_AddEntry ex_conn, O_UpdatePwrSaveIf 0xC0A80105]"] by auto

text \<open>The driver calls for a list of entries, with their answers; and what the answers make of the cache: an entry that satisfies \<open>P\<close>
  is enabled under the new handle, or wiped when the driver refuses the rule.\<close>

fun add_rules :: "'d nat_env \<Rightarrow> u32 \<Rightarrow> nat_table_entry list \<Rightarrow> 'd \<Rightarrow> (int \<times> u32) list \<times> 'd" where
  "add_rules env h [] d = ([], d)"
| "add_rules env h (e # es) d =
     (let (ret, hdl, d1) = ipa_nat_add_ipv4_rule env h (rule_of e) (rule_hdl e) d; (as, d2) = add_rules env h es d1 in ((ret, hdl) # as, d2))"

fun resume :: "(nat_table_entry \<Rightarrow> bool) \<Rightarrow> (int \<times> u32) list \<Rightarrow> nat_table_entry list \<Rightarrow> nat_table_entry list" where
  "resume P as [] = []"
| "resume P [] (e # es) = e # resume P [] es"
| "resume P (a # as) (e # es) =
     (if P e then (if fst a < 0 then zero_entry else e\<lparr>rule_hdl := snd a, enabled := True\<rparr>) # resume P as es
      else e # resume P (a # as) es)"

lemma resume_loop:
  assumes "map_state (\<lambda>e s. if P e then restore_entry env h e s else (e, s)) c (cnt, d) = (c', cnt', d')"
  shows "\<exists>as. add_rules env h (filter P c) d = (as, d') \<and> c' = resume P as c \<and> cnt' = cnt - int (length (filter (\<lambda>a. fst a < 0) as))"
  using assms
proof (induction c arbitrary: cnt d c' cnt' d')
  case (Cons e es)
  show ?case
  proof (cases "P e")
    case True
    obtain ret hdl d1 where a: "ipa_nat_add_ipv4_rule env h (rule_of e) (rule_hdl e) d = (ret, hdl, d1)" using prod_cases3 by blast
    let ?cnt = "if ret < 0 then cnt - 1 else cnt"
    obtain c1 cnt1 d2 where m: "map_state (\<lambda>e s. if P e then restore_entry env h e s else (e, s)) es (?cnt, d1) = (c1, cnt1, d2)"
      using prod_cases3 by blast
    obtain as where "add_rules env h (filter P es) d1 = (as, d2)" "c1 = resume P as es"
        "cnt1 = ?cnt - int (length (filter (\<lambda>a. fst a < 0) as))" using Cons.IH[OF m] by blast
    then show ?thesis using Cons.prems a m True
      by (intro exI[of _ "(ret, hdl) # as"]) (auto simp: restore_entry_def split: if_splits)
  next
    case False
    obtain c1 cnt1 d2 where m: "map_state (\<lambda>e s. if P e then restore_entry env h e s else (e, s)) es (cnt, d) = (c1, cnt1, d2)"
      using prod_cases3 by blast
    then obtain as where "add_rules env h (filter P es) d = (as, d2)" "c1 = resume P as es"
        "cnt1 = cnt - int (length (filter (\<lambda>a. fst a < 0) as))" using Cons.IH[OF m] by blast
    then show ?thesis using Cons.prems m False by (intro exI[of _ as], cases as) (auto split: if_splits)
  qed
qed simp

lemma AddTable_restore_all:
  assumes "nat_driver env rules" and "nat_inv n" and "ip = pub_ip_addr_pre n"
    and "AddTable env ip (n, d) = (0, n', d')"
  shows "synced rules (n', d') \<and> (\<forall>e \<in> set (cache n'). \<not> free_entry e \<longrightarrow> enabled e) \<and>
     nat_inv n' \<and> pub_ip_addr n' = ip"
proof -
  obtain ret h d1 where t: "ipa_nat_add_ipv4_tbl env ip (of_int (max_entries n)) (nat_table_hdl n) d = (ret, h, d1)"
    using prod_cases3 by blast
  obtain c cnt d2 where m: "map_state (\<lambda>e s. if private_ip e \<noteq> 0 then restore_entry env h e s else (e, s))
      (cache n) (curCnt n, d1) = (c, cnt, d2)" using prod_cases3 by blast
  note eq = AddTable_eq[OF t m]
  have ret: "ret = 0" using eq assms(4) by (auto split: if_splits)
  have "rules d1 h = Map.empty" using nat_driver_other(5)[OF assms(1)] t ret by simp
  moreover have "\<forall>e \<in> set (cache n). entry_ok e" using assms(2) by (simp add: nat_inv_def cache_ok_def)
  ultimately have "in_sync c (rules d2 h) \<and> (\<forall>e \<in> set c. \<not> free_entry e \<longrightarrow> enabled e)"
    using sync_restore_all[OF assms(1) _ _ m] by blast
  then show ?thesis using eq ret assms(3,4) AddTable_inv[OF assms(2,4)] by (auto simp: synced_def)
qed

text \<open>\<open>AddTable\<close> for the address the last table had restores the cache: every connection that is
  still cached is enabled, and the new hardware table holds exactly their rules.\<close>

theorem AddTable_restores:
  assumes "nat_driver env rules" and "nat_inv n" and "ip = pub_ip_addr_pre n"
    and "AddTable env ip (n, d) = (0, n', d')"
  shows "synced rules (n', d') \<and> (\<forall>e \<in> set (cache n'). \<not> free_entry e \<longrightarrow> enabled e) \<and>
     nat_inv n' \<and> pub_ip_addr n' = ip"
  by (rule AddTable_restore_all[OF assms])

theorem AddTable_restores_witness:
  "\<exists>n' d'. AddTable ex_env 0x0A0B0C0D (ex_nat\<lparr>pub_ip_addr_pre := 0x0A0B0C0D, cache := [ex_conn, zero_entry],
     curCnt := 1\<rparr>, (Map.empty, 1)) = (0, n', d') \<and> (\<forall>e \<in> set (cache n'). \<not> free_entry e \<longrightarrow> enabled e)"
proof -
  let ?n = "ex_nat\<lparr>pub_ip_addr_pre := 0x0A0B0C0D, cache := [ex_conn, zero_entry], curCnt := 1\<rparr>"
  have "nat_inv ?n"
    by (simp add: nat_inv_def cache_ok_def ex_nat_def ex_conn_def entry_ok_def invalid_conn_def free_entry_def
        zero_entry_def MAX_TEMP_ENTRIES_def IPA_MAX_NUM_WIFI_CLIENTS_def)
  moreover obtain n' d' where "AddTable ex_env 0x0A0B0C0D (?n, (Map.empty, 1)) = (0, n', d')"
    using ex_AddTable by blast
  ultimately show ?thesis using AddTable_restores[OF ex_env_driver, of ?n] by simp
qed

text \<open>\<open>DeleteTable\<close> does not clear the \<open>enabled\<close> bits (the assignment in \<open>Reset\<close> is written as a
  comparison): when a table for another address is created afterwards, every entry that was enabled
  is still in the cache as enabled although the new hardware table holds no rule for it.\<close>

theorem DeleteTable_leaves_enabled:
  assumes "nat_driver env rules" and "DeleteTable env ip1 (n, d) = (0, n1, d1)"
    and "AddTable env ip2 (n1, d1) = (0, n2, d2)" and "ip2 \<noteq> ip1" and "e \<in> set (cache n)" and "enabled e"
  shows "e \<in> set (cache n2) \<and> rules d2 (nat_table_hdl n2) (rule_hdl e) = None"
proof -
  have n1: "cache n1 = cache n" "pub_ip_addr_pre n1 = ip1"
    using assms(2) by (auto simp: DeleteTable_def Reset_def Let_def split: if_splits prod.splits)
  obtain ret h d3 where t: "ipa_nat_add_ipv4_tbl env ip2 (of_int (max_entries n1)) (nat_table_hdl n1) d1 = (ret, h, d3)"
    using prod_cases3 by blast
  have r: "ret = 0" "n2 = n1\<lparr>nat_table_hdl := h, pub_ip_addr := ip2\<rparr>" "d2 = d3"
    using assms(3,4) n1 t by (auto simp: AddTable_def Let_def split: if_splits)
  have "rules d3 h = Map.empty" using nat_driver_other(5)[OF assms(1)] t r(1) by simp
  then show ?thesis using n1 r assms(5) by simp
qed

theorem DeleteTable_leaves_enabled_witness:
  "\<exists>n1 d1 n2 d2. DeleteTable ex_env 0x0A0B0C0D (ex_nat\<lparr>cache := [ex_conn\<lparr>enabled := True, rule_hdl := 1\<rparr>]\<rparr>,
       ([1 \<mapsto> rule_of ex_conn], 2)) = (0, n1, d1) \<and> AddTable ex_env 5 (n1, d1) = (0, n2, d2) \<and>
     ex_conn\<lparr>enabled := True, rule_hdl := 1\<rparr> \<in> set (cache n2) \<and> ex_rules d2 (nat_table_hdl n2) 1 = None"
proof -
  let ?n = "ex_nat\<lparr>cache := [ex_conn\<lparr>enabled := True, rule_hdl := 1\<rparr>]\<rparr>"
  let ?d = "([1 \<mapsto> rule_of ex_conn], 2 :: u32)"
  obtain n1 d1 where 1: "DeleteTable ex_env 0x0A0B0C0D (?n, ?d) = (0, n1, d1)"
    by (simp add: DeleteTable_def ex_nat_def ex_env_def)
  obtain n2 d2 where 2: "AddTable ex_env 5 (n1, d1) = (0, n2, d2)"
    using ex_AddTable by blast
  from DeleteTable_leaves_enabled[OF ex_env_driver 1 2, of "ex_conn\<lparr>enabled := True, rule_hdl := 1\<rparr>"] 1 2
  show ?thesis by (intro exI[of _ n1] exI[of _ d1] exI[of _ n2] exI[of _ d2]) simp
qed

text \<open>The slot that \<open>AddEntry\<close> fills, and what it leaves alone.\<close>

lemma conns_set_upd:
  assumes "free_entry (c ! i)" "i < length c"
  shows "\<not> free_entry e' \<Longrightarrow> set (conns (c[i := e'])) = insert (conn_key e') (set (conns c))"
    "free_entry e' \<Longrightarrow> conns (c[i := e']) = conns c"
proof -
  have c: "c = take i c @ c ! i # drop (Suc i) c" using assms(2) by (rule id_take_nth_drop)
  have u: "c[i := e'] = take i c @ e' # drop (Suc i) c" using assms(2) by (rule upd_conv_take_nth_drop)
  have "conns c = conns (take i c) @ conns (drop (Suc i) c)" using assms(1) by (subst c) simp
  then show "\<not> free_entry e' \<Longrightarrow> set (conns (c[i := e'])) = insert (conn_key e') (set (conns c))"
    "free_entry e' \<Longrightarrow> conns (c[i := e']) = conns c" by (auto simp: u)
qed

lemma free_fill [simp]: "free_entry (fill_entry rule e) = free_entry rule"
  by (rule same_key_free) simp

lemma free_upd [simp]:
  "free_entry (e\<lparr>rule_hdl := x\<rparr>) = free_entry e"
  by (simp add: free_entry_def)

lemma AddEntry_cases:
  assumes "nat_inv n" and "AddEntry env rule (n, d) = (r, n', d')"
  shows "if r = 0 \<and> \<not> invalid_conn rule
     then nat_table_hdl n \<noteq> 0 \<and> \<not> isAlgPort (protocol rule) (private_port rule) n \<and>
       \<not> isAlgPort (protocol rule) (target_port rule) n \<and> curCnt n < max_entries n \<and>
       conn_key rule \<notin> set (conns (cache n)) \<and> curCnt n' = curCnt n + 1 \<and>
       set (conns (cache n')) = insert (conn_key rule) (set (conns (cache n)))
     else conns (cache n') = conns (cache n) \<and> curCnt n' = curCnt n"
proof (cases "find_slot free_entry (cache n)")
  case None
  then show ?thesis using assms(2)
    by (auto simp: AddEntry_def Let_def simp del: find_slot_None_iff split: if_splits)
next
  case (Some i)
  have i: "free_entry (cache n ! i)" "i < length (cache n)" using find_slot_SomeD[OF Some] by auto
  have inv': "nat_inv n'" by (rule AddEntry_inv[OF assms])
  have dup: "\<not> invalid_conn rule \<Longrightarrow> ChkForDup rule n \<longleftrightarrow> conn_key rule \<in> set (conns (cache n))"
    using ChkForDup_conns valid_not_free by blast
  have room: "curCnt n < max_entries n" if "curCnt n' = curCnt n + 1" "length (cache n') = length (cache n)"
    using that inv' assms(1) cache_ok_bound[of "cache n'" "curCnt n'"] by (simp add: nat_inv_def)
  have len: "length (cache n') = length (cache n)"
    using assms(2) Some by (auto simp: AddEntry_def Let_def split: if_splits prod.splits)
  show ?thesis using assms(2) Some conns_set_upd[OF i] dup room len valid_not_free[of rule] i(1)
    by (auto simp: AddEntry_def Let_def split: if_splits prod.splits)
qed

text \<open>C18. What \<open>AddEntry\<close> does on every path: it changes the set of cached connections only when it
  succeeds for a complete connection, which then was not cached before, uses no ALG port, found room
  and is the one connection added; in all other cases (no table, ALG port, incomplete connection,
  duplicate, cache full, refusal by the driver) the cached connections and their count stay as they are.\<close>

theorem AddEntry_effect:
  assumes "nat_inv n" and "AddEntry env rule (n, d) = (r, n', d')"
  shows "if r = 0 \<and> \<not> invalid_conn rule
     then nat_table_hdl n \<noteq> 0 \<and> \<not> isAlgPort (protocol rule) (private_port rule) n \<and>
       \<not> isAlgPort (protocol rule) (target_port rule) n \<and> curCnt n < max_entries n \<and>
       conn_key rule \<notin> set (conns (cache n)) \<and> curCnt n' = curCnt n + 1 \<and>
       set (conns (cache n')) = insert (conn_key rule) (set (conns (cache n)))
     else conns (cache n') = conns (cache n) \<and> curCnt n' = curCnt n"
  by (rule AddEntry_cases[OF assms])

theorem AddEntry_effect_witness:
  "\<exists>n' d'. AddEntry ex_env ex_conn (ex_nat, (Map.empty, 1)) = (0, n', d') \<and>
     set (conns (cache n')) = {conn_key ex_conn} \<and> curCnt n' = 1"
proof -
  obtain n' d' where a: "AddEntry ex_env ex_conn (ex_nat, (Map.empty, 1)) = (0, n', d')"
    using ex_AddEntry by blast
  have v: "\<not> invalid_conn ex_conn" by (simp add: ex_conn_def invalid_conn_def)
  have "conns (cache ex_nat) = []" "curCnt ex_nat = 0" by (simp_all add: ex_nat_def numeral_eq_Suc)
  with AddEntry_effect[OF ex_nat_inv a] v a show ?thesis by auto
qed

text \<open>The cache after an addition that succeeded: one free slot holds the connection.\<close>

lemma AddEntry_success_slot:
  assumes "nat_inv n" "AddEntry env rule (n, d) = (0, n', d')" "\<not> invalid_conn rule"
  obtains i e' where "i < length (cache n)" "free_entry (cache n ! i)" "cache n' = (cache n)[i := e']"
    "conn_key e' = conn_key rule" "curCnt n' = curCnt n + 1" "conn_key rule \<notin> set (conns (cache n))"
proof (cases "find_slot free_entry (cache n)")
  case None
  then show ?thesis using assms(2,3)
    by (auto simp: AddEntry_def Let_def simp del: find_slot_None_iff split: if_splits)
next
  case (Some i)
  have "i < length (cache n)" "free_entry (cache n ! i)" using find_slot_SomeD[OF Some] by auto
  then show ?thesis using assms(2,3) Some that[of i "cache n' ! i"] ChkForDup_conns[OF valid_not_free[OF assms(3)]]
    by (auto simp: AddEntry_def Let_def split: if_splits prod.splits)
qed

lemma AddEntry_undo:
  assumes "nat_inv n" and "\<not> invalid_conn rule" and "AddEntry env rule (n, d) = (0, n1, d1)"
    and "DeleteEntry env rule (n1, d1) = (r, n2, d2)"
  shows "conns (cache n2) = conns (cache n) \<and> curCnt n2 = curCnt n \<and> \<not> ChkForDup rule n2"
proof -
  obtain i e' where s: "i < length (cache n)" "free_entry (cache n ! i)" "cache n1 = (cache n)[i := e']"
    "conn_key e' = conn_key rule" "curCnt n1 = curCnt n + 1" and new: "conn_key rule \<notin> set (conns (cache n))"
    by (rule AddEntry_success_slot[OF assms(1,3,2)])
  have nf: "\<not> free_entry rule" using assms(2) by (rule valid_not_free)
  have other: "\<not> same_conn (cache n1 ! j) rule" if "j < length (cache n)" "j \<noteq> i" for j
  proof
    assume "same_conn (cache n1 ! j) rule"
    then have k: "conn_key (cache n ! j) = conn_key rule" using that s(3) by (simp add: same_conn_key)
    then have "\<not> free_entry (cache n ! j)" using nf same_key_free by blast
    then show False using new k that by (auto simp: conns_set)
  qed
  have "same_conn (cache n1 ! i) rule" using s by (simp add: same_conn_key)
  then have "find_slot (\<lambda>e. same_conn e rule) (cache n1) = Some i"
    using s(1,3) other by (auto simp: find_slot_Some_iff)
  then have n2: "cache n2 = (cache n)[i := zero_entry]" "curCnt n2 = curCnt n"
    using assms(4) s by (auto simp: DeleteEntry_def Let_def)
  then have "conns (cache n2) = conns (cache n)" using conns_set_upd(2)[OF s(2,1)] by simp
  then show ?thesis using n2(2) ChkForDup_conns[OF nf] new by simp
qed

text \<open>Because \<open>public_ip\<close> has 16 bits, the comparison in \<open>FlushTempEntries\<close> fails for every public
  address of at least \<open>2^16\<close>, that is for every real one: flushing with \<open>isAdd\<close> set does what it does
  without, it discards the temporary entries of the client and adds none.\<close>

theorem FlushTempEntries_never_adds:
  assumes "2 ^ 16 \<le> uint (pub_ip_addr n)"
  shows "FlushTempEntries env ip True (n, d) = FlushTempEntries env ip False (n, d) \<and>
     cache (fst (FlushTempEntries env ip True (n, d))) = cache n \<and> snd (FlushTempEntries env ip True (n, d)) = d"
proof -
  have ne: "ucast w \<noteq> pub_ip_addr n" for w :: u16
  proof
    assume "ucast w = pub_ip_addr n"
    moreover have "uint (ucast w :: u32) = uint w" by (simp add: uint_up_ucast is_up)
    ultimately have "uint (pub_ip_addr n) = uint w" by simp
    then show False using assms uint_lt2p[of w] by simp
  qed
  let ?g = "\<lambda>e. if private_ip e = ip \<or> target_ip e = ip then zero_entry else e"
  have "map_state (\<lambda>e (n, d). if private_ip e = ip \<or> target_ip e = ip then
       (if add \<and> ucast (public_ip e) = pub_ip_addr n then
          (let (ret, n', d') = AddEntry env e (n, d) in if ret \<noteq> 0 then (e, n', d') else (zero_entry, n', d'))
        else (zero_entry, n, d)) else (e, n, d)) xs (n, d) = (map ?g xs, n, d)" for add xs
    using ne by (induction xs) auto
  then show ?thesis by (simp add: FlushTempEntries_def)
qed

theorem FlushTempEntries_never_adds_witness:
  "FlushTempEntries ex_env 0xC0A80105 True (AddTempEntry ex_conn ex_nat, (Map.empty, 1)) =
   FlushTempEntries ex_env 0xC0A80105 False (AddTempEntry ex_conn ex_nat, (Map.empty, 1))"
  using FlushTempEntries_never_adds[of "AddTempEntry ex_conn ex_nat" ex_env "0xC0A80105" "(Map.empty, 1)"]
  by (simp add: AddTempEntry_def ex_nat_def)

lemma conns_keys:
  "list_all2 (\<lambda>x y. conn_key y = conn_key x) c c' \<Longrightarrow> conns c' = conns c"
  by (induction rule: list_all2_induct) (auto dest: same_key_free)

lemma in_sync_rule:
  assumes "in_sync c m" "m k = Some r"
  shows "\<exists>e \<in> set c. enabled e \<and> rule_of e = r"
  using assms map_of_SomeD[of "installed c" k r] by (auto simp: in_sync_def installed_def)

text \<open>A client that enters power save is parked: with room in the list of such clients and a driver
  that satisfies the laws, \<open>UpdatePwrSaveIf\<close> returns 0, records the client, leaves no enabled entry and
  no hardware rule with its private address, and keeps all its connections in the cache.\<close>

theorem UpdatePwrSaveIf_parks:
  assumes "nat_driver env rules" and "synced rules (n, d)" and "ip \<noteq> 0" and "ip \<notin> set (PwrSaveIfs n)"
    and "0 \<in> set (PwrSaveIfs n)" and "UpdatePwrSaveIf env ip (n, d) = (r, n', d')"
  shows "r = 0 \<and> isPwrSaveIf ip n' \<and> (\<forall>e \<in> set (cache n'). private_ip e = ip \<longrightarrow> \<not> enabled e) \<and>
     (\<forall>k x. rules d' (nat_table_hdl n') k = Some x \<longrightarrow> r_private_ip x \<noteq> ip) \<and>
     conns (cache n') = conns (cache n)"
proof -
  let ?f = "\<lambda>e d. if private_ip e = ip \<and> enabled e then
      (let (ret, d') = ipa_nat_del_ipv4_rule env (nat_table_hdl n) (rule_hdl e) d
       in if ret < 0 then (e, d') else (e\<lparr>enabled := False, rule_hdl := 0\<rparr>, d')) else (e, d)"
  let ?h = "nat_table_hdl n"
  let ?J = "\<lambda>pre post d. in_sync (pre @ post) (rules d ?h) \<and> (\<forall>e \<in> set pre. private_ip e = ip \<longrightarrow> \<not> enabled e)"
  obtain c d1 where m: "map_state ?f (cache n) d = (c, d1)" by fastforce
  have "?J ([] @ c) [] d1"
  proof (rule map_state_split[where J = ?J and f = ?f, OF _ _ m])
    fix pre e post d e' d'
    assume J: "?J pre (e # post) d" and f: "?f e d = (e', d')"
    obtain ret d2 where a: "ipa_nat_del_ipv4_rule env ?h (rule_hdl e) d = (ret, d2)" by fastforce
    show "?J (pre @ [e']) post d'"
    proof (cases "private_ip e = ip \<and> enabled e")
      case True
      have "in_sync (pre @ e # post) (rules d ?h)" using J by blast
      note dl = nat_driver_del[OF assms(1) a sync_slot[OF this]]
      show ?thesis using True J f dl sync_disable[of pre e post "rules d ?h" e'] by (auto simp: a split: if_splits)
    next
      case False
      then show ?thesis using J f by auto
    qed
  qed (use assms(2) in \<open>simp add: synced_def\<close>)
  then have c: "in_sync c (rules d1 ?h)" "\<forall>e \<in> set c. private_ip e = ip \<longrightarrow> \<not> enabled e" by simp_all
  have "list_all2 (\<lambda>x y. conn_key y = conn_key x) (cache n) c \<and> True"
    by (rule map_state_rel[OF _ _ m]) (auto simp: Let_def split: prod.splits if_splits)
  then have k: "conns c = conns (cache n)" using conns_keys by blast
  have hw: "r_private_ip x \<noteq> ip" if "rules d1 ?h k = Some x" for k x
    using in_sync_rule[OF c(1) that] c(2) by (auto simp: rule_of_def)
  obtain ys z zs where u: "upd_first (\<lambda>p. p = 0) (\<lambda>_. ip) (PwrSaveIfs n) = ys @ ip # zs"
    using upd_first_split[of "PwrSaveIfs n" "\<lambda>p. p = 0" "\<lambda>_. ip"] assms(5) by metis
  show ?thesis using UpdatePwrSaveIf_eq[OF m] assms(3-6) c k hw u by (auto simp: isPwrSaveIf_def)
qed

definition ex_busy :: natapp where
  "ex_busy = ex_nat\<lparr>cache := [ex_conn\<lparr>enabled := True, rule_hdl := 1\<rparr>, zero_entry], curCnt := 1\<rparr>"

lemma ex_busy_synced: "synced ex_rules (ex_busy, ([1 \<mapsto> rule_of ex_conn], 2))"
  by (simp add: synced_def in_sync_def ex_busy_def)

lemma ex_busy_inv: "nat_inv ex_busy"
  by (simp add: ex_busy_def ex_conn_def zero_entry_def nat_inv_def ex_nat_def MAX_TEMP_ENTRIES_def
      IPA_MAX_NUM_WIFI_CLIENTS_def cache_ok_def entry_ok_def free_entry_def invalid_conn_def)

theorem UpdatePwrSaveIf_parks_witness:
  "\<exists>r n' d'. UpdatePwrSaveIf ex_env 0xC0A80105 (ex_busy, ([1 \<mapsto> rule_of ex_conn], 2)) = (r, n', d') \<and> r = 0 \<and>
     conns (cache n') = [conn_key ex_conn] \<and> isPwrSaveIf 0xC0A80105 n'"
proof -
  obtain r n' d' where u: "UpdatePwrSaveIf ex_env 0xC0A80105 (ex_busy, ([1 \<mapsto> rule_of ex_conn], 2)) = (r, n', d')"
    using prod_cases3 by blast
  have c: "conns (cache ex_busy) = [conn_key ex_conn]" "PwrSaveIfs ex_busy = replicate 32 0"
    by (simp_all add: ex_busy_def ex_conn_def free_entry_def conn_key_def ex_nat_def zero_entry_def)
  show ?thesis using UpdatePwrSaveIf_parks[OF ex_env_driver ex_busy_synced _ _ _ u] u c by auto
qed

text \<open>The entries \<open>ResetPwrSaveIf\<close> brings back.\<close>

definition parked :: "u32 \<Rightarrow> nat_table_entry \<Rightarrow> bool" where
  "parked ip e \<longleftrightarrow> private_ip e = ip \<and> \<not> enabled e"

lemma upd_first_removes:
  "distinct (filter (\<lambda>p. p \<noteq> 0) xs) \<Longrightarrow> ip \<noteq> 0 \<Longrightarrow> q \<noteq> 0 \<Longrightarrow>
   q \<in> set (upd_first (\<lambda>p. p = ip) (\<lambda>_. 0 :: u32) xs) \<longleftrightarrow> q \<in> set xs \<and> q \<noteq> ip"
  by (induction xs) (auto simp: scan_simps split: if_splits)

lemma isPwrSaveIf_set: "isPwrSaveIf q n \<longleftrightarrow> q \<noteq> 0 \<and> q \<in> set (PwrSaveIfs n)"
  by (auto simp: isPwrSaveIf_def)

text \<open>C19. \<open>ResetPwrSaveIf\<close> takes a client out of power save: its slot in the list of such clients is cleared and no other is; the driver is
  called exactly for the client's entries that were not enabled, in their order, and each of them is then enabled under the handle it
  answers or, when it refuses the rule, wiped from the cache, which the count follows; all other entries are untouched. With a driver that satisfies
  \<open>nat_driver\<close>, every connection of the client that is cached afterwards is enabled and its rule is in the hardware. The result is -1 in every
  case, success included. No client is in the list of power-save clients twice.\<close>

theorem ResetPwrSaveIf_resumes:
  assumes "nat_driver env rules" and "nat_inv n" and "synced rules (n, d)" and "ip \<noteq> 0" and "distinct (filter (\<lambda>p. p \<noteq> 0) (PwrSaveIfs n))"
    and "ResetPwrSaveIf env ip (n, d) = (r, n', d')"
  shows "r = -1 \<and> (\<forall>q. isPwrSaveIf q n' = (isPwrSaveIf q n \<and> q \<noteq> ip)) \<and>
     (\<exists>as. add_rules env (nat_table_hdl n) (filter (parked ip) (cache n)) d = (as, d') \<and> cache n' = resume (parked ip) as (cache n) \<and>
        curCnt n' = curCnt n - int (length (filter (\<lambda>a. fst a < 0) as))) \<and>
     (\<forall>e \<in> set (cache n'). private_ip e = ip \<longrightarrow> enabled e \<and> rules d' (nat_table_hdl n') (rule_hdl e) = Some (rule_of e))"
proof -
  let ?f = "\<lambda>e s. if parked ip e then restore_entry env (nat_table_hdl n) e s else (e, s)"
  obtain c cnt d1 where m: "map_state ?f (cache n) (curCnt n, d) = (c, cnt, d1)" using prod_cases3 by blast
  have "list_all2 (\<lambda>e e'. private_ip e' = ip \<longrightarrow> enabled e') (cache n) c \<and> True"
    by (rule map_state_rel[OF _ _ m])
      (use assms(4) in \<open>auto simp: restore_entry_def parked_def Let_def zero_entry_def split: prod.splits if_splits\<close>)
  then have en: "\<forall>e \<in> set c. private_ip e = ip \<longrightarrow> enabled e" by (auto simp: list_all2_conv_all_nth in_set_conv_nth)
  note eq = ResetPwrSaveIf_eq[OF m[unfolded parked_def] assms(4)]
  have n': "cache n' = c" "curCnt n' = cnt" "d' = d1" "r = -1" "PwrSaveIfs n' = upd_first (\<lambda>p. p = ip) (\<lambda>_. 0) (PwrSaveIfs n)"
    using eq assms(6) by (auto simp: clear_pwr_save_def)
  have sy: "in_sync (cache n') (rules d' (nat_table_hdl n'))"
    using ResetPwrSaveIf_sync[OF assms(1,3,6)] by (simp add: synced_def)
  have hw: "rules d' (nat_table_hdl n') (rule_hdl e) = Some (rule_of e)" if "e \<in> set (cache n')" "enabled e" for e
    using that sy sync_slot by (metis split_list)
  have pw: "isPwrSaveIf q n' = (isPwrSaveIf q n \<and> q \<noteq> ip)" for q
    using upd_first_removes[OF assms(5,4), of q] n'(5) by (auto simp: isPwrSaveIf_set)
  show ?thesis using resume_loop[OF m] en hw pw n' by auto
qed

definition ex_parked :: natapp where
  "ex_parked = ex_nat\<lparr>cache := [ex_conn, zero_entry], curCnt := 1, PwrSaveIfs := 0xC0A80105 # replicate 31 0\<rparr>"

lemma ex_parked_ok: "nat_inv ex_parked" "synced ex_rules (ex_parked, (Map.empty, 1))"
  by (simp_all add: synced_def in_sync_def ex_parked_def ex_conn_def zero_entry_def nat_inv_def ex_nat_def MAX_TEMP_ENTRIES_def
      IPA_MAX_NUM_WIFI_CLIENTS_def cache_ok_def entry_ok_def free_entry_def invalid_conn_def)

theorem ResetPwrSaveIf_resumes_witness:
  "\<exists>r n' d'. ResetPwrSaveIf ex_env 0xC0A80105 (ex_parked, (Map.empty, 1)) = (r, n', d') \<and> \<not> isPwrSaveIf 0xC0A80105 n' \<and>
     cache n' = [ex_conn\<lparr>rule_hdl := 1, enabled := True\<rparr>, zero_entry] \<and> curCnt n' = 1 \<and> fst d' 1 = Some (rule_of ex_conn)"
proof -
  obtain r n' d' where u: "ResetPwrSaveIf ex_env 0xC0A80105 (ex_parked, (Map.empty, 1)) = (r, n', d')"
    using prod_cases3 by blast
  have d: "distinct (filter (\<lambda>p. p \<noteq> 0) (PwrSaveIfs ex_parked))" by (simp add: ex_parked_def)
  have p: "filter (parked 0xC0A80105) (cache ex_parked) = [ex_conn]" "nat_table_hdl ex_parked = 1" "curCnt ex_parked = 1"
    by (simp_all add: ex_parked_def parked_def ex_conn_def zero_entry_def ex_nat_def)
  have a: "add_rules ex_env 1 [ex_conn] (Map.empty, 1) = ([(0, 1)], ([1 \<mapsto> rule_of ex_conn], 2))"
    by (simp add: ex_env_def)
  have c: "resume (parked 0xC0A80105) [(0, 1)] (cache ex_parked) = [ex_conn\<lparr>rule_hdl := 1, enabled := True\<rparr>, zero_entry]"
    by (simp add: ex_parked_def parked_def ex_conn_def zero_entry_def)
  show ?thesis using ResetPwrSaveIf_resumes[OF ex_env_driver ex_parked_ok _ d u] u p a c by auto
qed

text \<open>A configuration without ALG ports makes the NAT object unusable: \<open>GetAlgPorts\<close> refuses a count
  of zero, so \<open>Init\<close> fails, \<open>GetInstance\<close> deletes the object and returns NULL, and every later call
  returns the pointer to the deleted object.\<close>

theorem NatApp_without_ALG_dangles:
  assumes "GetAlgPortCnt cfg = 0"
  shows "NatApp_GetInstance mem True True (Some cfg) NoInstance = Inr (False, Dangling) \<and>
     NatApp_GetInstance mem' m1 m2 cfg' Dangling = Inr (True, Dangling)"
  using assms by (simp add: NatApp_GetInstance_def NatApp_Init_def GetAlgPorts_def Let_def)

theorem NatApp_without_ALG_dangles_witness:
  "NatApp_GetInstance ex_nat True True (Some (IPACM_Config_new IPA_RM_RESOURCE_Q6_PROD)) NoInstance = Inr (False, Dangling)"
  using NatApp_without_ALG_dangles[of "IPACM_Config_new IPA_RM_RESOURCE_Q6_PROD" ex_nat]
  by (simp add: IPACM_Config_new_def GetAlgPortCnt_def)

end
