(* ===== verification/Conntrack_Listener.thy ===== *)
theory Conntrack_Listener
  imports Nat_App
begin

text \<open>
  The conntrack listener \<^verbatim>\<open>IPACM_ConntrackListener.h/.cpp\<close>: it turns conntrack messages, WAN up and
  down events and client address events into operations of the NAT object. The build does not define
  \<open>CT_OPT\<close>. Calls that leave the component (threads, the filters of IPACM_ConntrackClient, the release
  of a conntrack object) are recorded as actions. The global \<open>CtList\<close> is this listener, the only
  instance the program creates.
\<close>

section \<open>Data\<close>

definition MAX_NAT_IFACES :: nat where "MAX_NAT_IFACES = 50"
definition MAX_STA_CLNT_IFACES :: nat where "MAX_STA_CLNT_IFACES = 10"

definition IPS_SRC_NAT :: u32 where "IPS_SRC_NAT = 0x10"
definition IPS_DST_NAT :: u32 where "IPS_DST_NAT = 0x20"
definition TCP_CONNTRACK_ESTABLISHED :: u8 where "TCP_CONNTRACK_ESTABLISHED = 3"
definition TCP_CONNTRACK_FIN_WAIT :: u8 where "TCP_CONNTRACK_FIN_WAIT = 4"

datatype nf_conntrack_msg_type = NFCT_T_NEW | NFCT_T_UPDATE | NFCT_T_DESTROY

text \<open>The attributes the listener reads from a conntrack object, in network byte order.\<close>

record ct_attrs =
  ATTR_STATUS :: u32
  ATTR_ORIG_L4PROTO :: u8
  ATTR_REPL_L4PROTO :: u8
  ATTR_ORIG_IPV4_SRC :: u32
  ATTR_ORIG_IPV4_DST :: u32
  ATTR_ORIG_PORT_SRC :: u16
  ATTR_ORIG_PORT_DST :: u16
  ATTR_REPL_IPV4_SRC :: u32
  ATTR_REPL_PORT_SRC :: u16
  ATTR_REPL_PORT_DST :: u16
  ATTR_TCP_STATE :: u8

record ipacm_event_iface_up =
  up_ifname :: string
  up_ipv4_addr :: u32
  up_is_sta :: bool

record ipacm_event_data_all =
  all_iptype :: ipa_ip_type
  all_if_index :: int
  all_ipv4_addr :: u32

datatype ct_thread =
  TCPRegisterWithConnTrack | UDPRegisterWithConnTrack | UDPConnTimeoutUpdate | TCPUDP_Timeout_monitor

datatype ct_action =
    Spawn ct_thread
  | UpdateUDPFilters ipacm_event_iface_up bool
  | UpdateTCPFilters ipacm_event_iface_up bool
  | NfctDestroy

record ct_listener =
  isCTReg :: bool
  isNatThreadStart :: bool
  WanUp :: bool
  nat_inst :: "natapp option"
  NatIfaceCnt :: nat
  StaClntCnt :: int
  ct_pNatIfaces :: "string list option"
  nat_iface_ipv4_addr :: "u32 list"
  nonnat_iface_ipv4_addr :: "u32 list"
  sta_clnt_ipv4_addr :: "u32 list"
  pConfig :: bool
  wan_ifname :: string
  wan_ipaddr :: u32
  isStaMode :: bool

text \<open>The constructor; \<open>mem\<close> gives the members it leaves out (\<open>wan_ifname\<close>, \<open>wan_ipaddr\<close>,
  \<open>isStaMode\<close>), \<open>inst\<close> is what \<open>NatApp::GetInstance\<close> returns. It registers for six events.\<close>

definition ct_events :: "ipa_cm_event_id list" where
  "ct_events = [IPA_HANDLE_WAN_UP, IPA_HANDLE_WAN_DOWN, IPA_PROCESS_CT_MESSAGE,
     IPA_PROCESS_CT_MESSAGE_V6, IPA_HANDLE_WLAN_UP, IPA_HANDLE_LAN_UP]"

definition ct_listener_new :: "ct_listener \<Rightarrow> natapp option \<Rightarrow> ct_listener" where
  "ct_listener_new mem inst = mem\<lparr>isNatThreadStart := False, isCTReg := False, WanUp := False,
     nat_inst := inst, NatIfaceCnt := 0, StaClntCnt := 0, ct_pNatIfaces := None, pConfig := False,
     nat_iface_ipv4_addr := replicate MAX_NAT_IFACES 0,
     nonnat_iface_ipv4_addr := replicate MAX_NAT_IFACES 0,
     sta_clnt_ipv4_addr := replicate MAX_STA_CLNT_IFACES 0\<rparr>"

section \<open>Calls of the NAT object\<close>

text \<open>A call through \<open>nat_inst\<close>.\<close>

definition nat_call :: "'d nat_env \<Rightarrow> nat_op \<Rightarrow> ct_listener \<times> 'd \<Rightarrow> fault + ct_listener \<times> 'd" where
  "nat_call env op s =
     (let (l, d) = s
      in case nat_inst l of
           None \<Rightarrow> Inl NullDeref
         | Some n \<Rightarrow> map_sum id (\<lambda>(n', d'). (l\<lparr>nat_inst := Some n'\<rparr>, d')) (nat_exec env op (n, d)))"

section \<open>Client addresses\<close>

text \<open>\<open>ifname\<close> is the name the kernel gives for the interface index, \<open>None\<close> when the socket or the
  ioctl fails; \<open>mem\<close> says whether the allocation succeeds; \<open>cfg\<close> is the configuration singleton.\<close>

definition nat_iface_found ::
  "'d nat_env \<Rightarrow> u32 \<Rightarrow> ct_listener \<times> 'd \<Rightarrow> fault + bool \<times> ct_listener \<times> 'd" where
  "nat_iface_found env ip s =
     (let (l, d) = s
      in case find_slot (\<lambda>a. a = ip \<or> a = 0) (nat_iface_ipv4_addr l) of
           None \<Rightarrow> Inr (False, l, d)
         | Some j \<Rightarrow>
             if nat_iface_ipv4_addr l ! j = ip then Inr (True, l, d)
             else (case nat_call env (O_ResetPwrSaveIf ip)
                          (l\<lparr>nat_iface_ipv4_addr := (nat_iface_ipv4_addr l)[j := ip]\<rparr>, d) of
                     Inl e \<Rightarrow> Inl e
                   | Inr s1 \<Rightarrow> map_sum id (\<lambda>s2. (True, s2)) (nat_call env (O_FlushTempEntries ip True) s1)))"

definition nonnat_iface_add :: "'d nat_env \<Rightarrow> u32 \<Rightarrow> ct_listener \<times> 'd \<Rightarrow> fault + ct_listener \<times> 'd" where
  "nonnat_iface_add env ip s =
     (let (l, d) = s
      in case find_slot (\<lambda>a. a = 0) (nonnat_iface_ipv4_addr l) of
           None \<Rightarrow> Inr (l, d)
         | Some i \<Rightarrow>
             nat_call env (O_FlushTempEntries ip False)
               (l\<lparr>nonnat_iface_ipv4_addr := (nonnat_iface_ipv4_addr l)[i := ip]\<rparr>, d))"

definition HandleNeighIpAddrAddEvt ::
  "'d nat_env \<Rightarrow> bool \<Rightarrow> string option \<Rightarrow> IPACM_Config option \<Rightarrow> ipacm_event_data_all \<Rightarrow>
   ct_listener \<times> 'd \<Rightarrow> fault + ct_listener \<times> 'd" where
  "HandleNeighIpAddrAddEvt env mem ifname cfg dat s =
     (let (l, d) = s; ip = all_ipv4_addr dat
      in if ip = 0 \<or> all_iptype dat \<noteq> IPA_IP_v4 then Inr (l, d)
         else (case cfg of
                 None \<Rightarrow> Inr (l, d)
               | Some c \<Rightarrow>
                   (let cnt = GetNatIfacesCnt c;
                        l1 = l\<lparr>pConfig := True, NatIfaceCnt := cnt, ct_pNatIfaces := None\<rparr>
                    in if \<not> mem then Inr (l1, d)
                       else (case GetNatIfaces (int cnt) (Some (replicate cnt [])) c of
                               Inl e \<Rightarrow> Inl e
                             | Inr (r, names) \<Rightarrow>
                                 (let l2 = l1\<lparr>ct_pNatIfaces := Some names\<rparr>
                                  in if r \<noteq> 0 then Inr (l2, d)
                                     else (case ifname of
                                             None \<Rightarrow> Inr (l2, d)
                                           | Some nm \<Rightarrow>
                                               (case (if find_slot (\<lambda>x. nm = x) (take cnt names) \<noteq> None
                                                      then nat_iface_found env ip (l2, d) else Inr (False, l2, d)) of
                                                  Inl e \<Rightarrow> Inl e
                                                | Inr (isNatIface, l3, d3) \<Rightarrow>
                                                    if isNatIface then Inr (l3, d3)
                                                    else nonnat_iface_add env ip (l3, d3))))))))"

definition HandleNeighIpAddrDelEvt ::
  "'d nat_env \<Rightarrow> u32 \<Rightarrow> ct_listener \<times> 'd \<Rightarrow> fault + ct_listener \<times> 'd" where
  "HandleNeighIpAddrDelEvt env ipv4_addr s =
     (let (l, d) = s
      in if ipv4_addr = 0 then Inr (l, d)
         else (let clear = map (\<lambda>a. if a = ipv4_addr then 0 else a);
                   l1 = l\<lparr>nat_iface_ipv4_addr := clear (nat_iface_ipv4_addr l),
                          nonnat_iface_ipv4_addr := clear (nonnat_iface_ipv4_addr l)\<rparr>
               in case nat_call env (O_FlushTempEntries ipv4_addr False) (l1, d) of
                    Inl e \<Rightarrow> Inl e
                  | Inr s1 \<Rightarrow> nat_call env (O_DelEntriesOnClntDiscon ipv4_addr) s1))"

section \<open>WAN events\<close>

text \<open>\<open>r1\<close> and \<open>r2\<close> are what the two \<open>pthread_create\<close> calls return.\<close>

definition CreateConnTrackThreads :: "int \<Rightarrow> int \<Rightarrow> ct_listener \<Rightarrow> int \<times> ct_action list \<times> ct_listener" where
  "CreateConnTrackThreads r1 r2 l =
     (if \<not> isCTReg l then
        (if r1 \<noteq> 0 then (-1, [], l)
         else if r2 \<noteq> 0 then (-1, [Spawn TCPRegisterWithConnTrack], l)
         else (0, [Spawn TCPRegisterWithConnTrack, Spawn UDPRegisterWithConnTrack], l\<lparr>isCTReg := True\<rparr>))
      else (0, [], l))"

definition CreateNatThreads :: "int \<Rightarrow> int \<Rightarrow> ct_listener \<Rightarrow> int \<times> ct_action list \<times> ct_listener" where
  "CreateNatThreads r1 r2 l =
     (if \<not> isNatThreadStart l then
        (if r1 \<noteq> 0 then (-1, [], l)
         else if r2 \<noteq> 0 then (-1, [Spawn UDPConnTimeoutUpdate], l)
         else (0, [Spawn UDPConnTimeoutUpdate, Spawn TCPUDP_Timeout_monitor], l\<lparr>isNatThreadStart := True\<rparr>))
      else (0, [], l))"

definition TriggerWANUp ::
  "'d nat_env \<Rightarrow> int \<Rightarrow> int \<Rightarrow> ipacm_event_iface_up \<Rightarrow> ct_listener \<times> 'd \<Rightarrow>
   fault + ct_action list \<times> ct_listener \<times> 'd" where
  "TriggerWANUp env r1 r2 wanup_data s =
     (let (l, d) = s
      in if up_ipv4_addr wanup_data = 0 then Inr ([], l, d)
         else (let l1 = l\<lparr>WanUp := True, isStaMode := up_is_sta wanup_data,
                          wan_ipaddr := up_ipv4_addr wanup_data, wan_ifname := up_ifname wanup_data\<rparr>
               in case (if nat_inst l1 \<noteq> None
                        then nat_call env (O_AddTable (up_ipv4_addr wanup_data)) (l1, d) else Inr (l1, d)) of
                    Inl e \<Rightarrow> Inl e
                  | Inr (l2, d2) \<Rightarrow> (let (_, acts, l3) = CreateNatThreads r1 r2 l2 in Inr (acts, l3, d2))))"

definition TriggerWANDown :: "'d nat_env \<Rightarrow> u32 \<Rightarrow> ct_listener \<times> 'd \<Rightarrow> fault + ct_listener \<times> 'd" where
  "TriggerWANDown env wan_addr s =
     (let (l, d) = s; l1 = l\<lparr>WanUp := False\<rparr>
      in if nat_inst l1 \<noteq> None then nat_call env (O_DeleteTable wan_addr) (l1, d) else Inr (l1, d))"

section \<open>Conntrack messages\<close>

text \<open>Which side of the connection is translated; \<open>None\<close> is an early return. When the kernel reports
  neither kind of NAT but one end is the WAN address, the rule is marked with that address, cut to the
  16 bits of its member.\<close>

datatype nat_kind = DST_NAT | SRC_NAT

definition ntohl :: "u32 \<Rightarrow> u32" where "ntohl w = htonl w"
definition ntohs :: "u16 \<Rightarrow> u16" where "ntohs w = htons w"

definition ct_kind :: "ct_attrs \<Rightarrow> u32 \<Rightarrow> nat_table_entry \<Rightarrow> (nat_kind \<times> nat_table_entry) option" where
  "ct_kind c wan rule =
     (if IPS_DST_NAT AND ATTR_STATUS c \<noteq> 0 then Some (DST_NAT, rule)
      else if IPS_SRC_NAT AND ATTR_STATUS c \<noteq> 0 then Some (SRC_NAT, rule)
      else (let orig_src_ip = ntohl (ATTR_ORIG_IPV4_SRC c); orig_dst_ip = ntohl (ATTR_ORIG_IPV4_DST c)
            in if orig_src_ip = 0 then None
               else if orig_dst_ip = 0 then None
               else if orig_src_ip = wan then Some (SRC_NAT, rule\<lparr>public_ip := ucast wan\<rparr>)
               else if orig_dst_ip = wan then Some (DST_NAT, rule\<lparr>public_ip := ucast wan\<rparr>)
               else None))"

text \<open>The tuple of the connection.\<close>

definition ct_tuple :: "ct_attrs \<Rightarrow> nat_kind \<Rightarrow> nat_table_entry \<Rightarrow> nat_table_entry" where
  "ct_tuple c kind rule =
     (case kind of
        DST_NAT \<Rightarrow> rule\<lparr>dst_nat := True, target_ip := ntohl (ATTR_ORIG_IPV4_SRC c),
          target_port := ntohs (ATTR_ORIG_PORT_SRC c), public_port := ntohs (ATTR_ORIG_PORT_DST c),
          private_ip := ntohl (ATTR_REPL_IPV4_SRC c), private_port := ntohs (ATTR_REPL_PORT_SRC c)\<rparr>
      | SRC_NAT \<Rightarrow> rule\<lparr>dst_nat := False, target_ip := ntohl (ATTR_ORIG_IPV4_DST c),
          target_port := ntohs (ATTR_ORIG_PORT_DST c), public_port := ntohs (ATTR_REPL_PORT_DST c),
          private_ip := ntohl (ATTR_ORIG_IPV4_SRC c), private_port := ntohs (ATTR_ORIG_PORT_SRC c)\<rparr>)"

text \<open>Whether the connection is one of a NAT client: \<open>None\<close> ignores it, otherwise the result says
  whether it is kept as a temporary entry, and the rule with the port of an embedded connection
  replaced.\<close>

definition ct_client ::
  "IPACM_Config option \<Rightarrow> ct_listener \<Rightarrow> nat_table_entry \<Rightarrow> (bool \<times> nat_table_entry) option" where
  "ct_client cfg l rule =
     (if private_ip rule \<noteq> wan_ipaddr l then
        (case find_slot (\<lambda>a. a \<noteq> 0 \<and> (private_ip rule = a \<or> target_ip rule = a)) (nat_iface_ipv4_addr l) of
           Some _ \<Rightarrow> Some (False, rule)
         | None \<Rightarrow>
             (case cfg of
                None \<Rightarrow> None
              | Some c \<Rightarrow>
                  if isPrivateSubnet (private_ip rule) c \<or> isPrivateSubnet (target_ip rule) c
                  then Some (True, rule) else None))
      else if isStaMode l then None
      else Some (False, rule\<lparr>private_port := public_port rule\<rparr>))"

text \<open>In STA mode the target must be one of the known clients of its subnet.\<close>

definition ct_sta_ok :: "ct_listener \<Rightarrow> nat_table_entry \<Rightarrow> bool" where
  "ct_sta_ok l rule =
     (if \<not> isStaMode l \<or> StaClntCnt l = 0 then True
      else if (sta_clnt_ipv4_addr l ! 0 AND 0xFFFFFF00) \<noteq> (target_ip rule AND 0xFFFFFF00) then True
      else find_slot (\<lambda>a. target_ip rule = a) (take (nat (StaClntCnt l)) (sta_clnt_ipv4_addr l)) \<noteq> None)"

text \<open>The operation for the state of the connection; \<open>cnt0\<close> is the indeterminate start index of \<open>CacheEntry\<close>.\<close>

definition ct_op :: "int \<Rightarrow> ct_attrs \<Rightarrow> nf_conntrack_msg_type \<Rightarrow> bool \<Rightarrow> bool \<Rightarrow> nat_table_entry \<Rightarrow> nat_op option" where
  "ct_op cnt0 c ty wan_up isTempEntry rule =
     (let add = (if \<not> wan_up then O_CacheEntry cnt0 rule else if isTempEntry then O_AddTempEntry rule
                 else O_AddEntry rule);
          del = (if isTempEntry then O_DeleteTempEntry rule else O_DeleteEntry rule)
      in if protocol rule = IPPROTO_TCP then
           (if ATTR_TCP_STATE c = TCP_CONNTRACK_ESTABLISHED then Some add
            else if ATTR_TCP_STATE c = TCP_CONNTRACK_FIN_WAIT \<or> ty = NFCT_T_DESTROY then Some del
            else None)
         else if protocol rule = IPPROTO_UDP then
           (if ty = NFCT_T_NEW then Some add else if ty = NFCT_T_DESTROY then Some del else None)
         else None)"

definition ProcessTCPorUDPMsg ::
  "'d nat_env \<Rightarrow> int \<Rightarrow> IPACM_Config option \<Rightarrow> ct_attrs \<Rightarrow> nf_conntrack_msg_type \<Rightarrow> u8 \<Rightarrow>
   ct_listener \<times> 'd \<Rightarrow> fault + ct_listener \<times> 'd" where
  "ProcessTCPorUDPMsg env cnt0 cfg c ty l4proto s =
     (let (l, d) = s
      in case ct_kind c (wan_ipaddr l) (zero_entry\<lparr>protocol := ATTR_REPL_L4PROTO c\<rparr>) of
           None \<Rightarrow> Inr (l, d)
         | Some (kind, rule) \<Rightarrow>
             (case ct_client cfg l (ct_tuple c kind rule) of
                None \<Rightarrow> Inr (l, d)
              | Some (isTempEntry, rule') \<Rightarrow>
                  if \<not> ct_sta_ok l rule' then Inr (l, d)
                  else if nat_inst l = None then Inr (l, d)
                  else (case ct_op cnt0 c ty (WanUp l) isTempEntry rule' of
                          None \<Rightarrow> Inr (l, d)
                        | Some op \<Rightarrow> nat_call env op (l, d))))"

definition ProcessCTMessage ::
  "'d nat_env \<Rightarrow> int \<Rightarrow> IPACM_Config option \<Rightarrow> ct_attrs \<Rightarrow> nf_conntrack_msg_type \<Rightarrow>
   ct_listener \<times> 'd \<Rightarrow> fault + ct_action list \<times> ct_listener \<times> 'd" where
  "ProcessCTMessage env cnt0 cfg c ty s =
     (let l4proto = ATTR_ORIG_L4PROTO c
      in case (if l4proto \<noteq> IPPROTO_UDP \<and> l4proto \<noteq> IPPROTO_TCP then Inr s
               else ProcessTCPorUDPMsg env cnt0 cfg c ty l4proto s) of
           Inl e \<Rightarrow> Inl e
         | Inr s' \<Rightarrow> Inr ([NfctDestroy], s'))"

section \<open>STA clients\<close>

definition HandleSTAClientAddEvt :: "u32 \<Rightarrow> ct_listener \<Rightarrow> ct_listener" where
  "HandleSTAClientAddEvt clnt_ip_addr l =
     (if int MAX_STA_CLNT_IFACES \<le> StaClntCnt l then l
      else (case find_slot (\<lambda>a. a \<noteq> 0 \<and> a = clnt_ip_addr \<or> a = 0) (sta_clnt_ipv4_addr l) of
              None \<Rightarrow> l
            | Some i \<Rightarrow>
                if sta_clnt_ipv4_addr l ! i \<noteq> 0 then l
                else l\<lparr>sta_clnt_ipv4_addr := (sta_clnt_ipv4_addr l)[i := clnt_ip_addr],
                       StaClntCnt := StaClntCnt l + 1\<rparr>))"

definition HandleSTAClientDelEvt :: "'d nat_env \<Rightarrow> u32 \<Rightarrow> ct_listener \<times> 'd \<Rightarrow> fault + ct_listener \<times> 'd" where
  "HandleSTAClientDelEvt env clnt_ip_addr s =
     (let (l, d) = s
      in case find_slot (\<lambda>a. a \<noteq> 0 \<and> a = clnt_ip_addr) (sta_clnt_ipv4_addr l) of
           None \<Rightarrow> Inr (l, d)
         | Some i \<Rightarrow>
             map_sum id (\<lambda>(l1, d1). (l1\<lparr>StaClntCnt := StaClntCnt l1 - 1\<rparr>, d1))
               (nat_call env (O_DelEntriesOnSTAClntDiscon clnt_ip_addr)
                  (l\<lparr>sta_clnt_ipv4_addr := (sta_clnt_ipv4_addr l)[i := 0]\<rparr>, d)))"

section \<open>Events\<close>

text \<open>The payload a pointer of the event refers to; an event that comes with another payload than its
  own would read memory of the wrong type.\<close>

datatype ct_payload = P_ct ct_attrs nf_conntrack_msg_type | P_iface_up ipacm_event_iface_up

definition event_callback ::
  "'d nat_env \<Rightarrow> int \<Rightarrow> IPACM_Config option \<Rightarrow> (nat \<Rightarrow> int) \<Rightarrow> ipa_cm_event_id \<Rightarrow> ct_payload option \<Rightarrow>
   ct_listener \<times> 'd \<Rightarrow> fault + ct_action list \<times> ct_listener \<times> 'd" where
  "event_callback env cnt0 cfg rc ev dat s =
     (case dat of
        None \<Rightarrow> Inr ([], s)
      | Some p \<Rightarrow>
          if ev = IPA_PROCESS_CT_MESSAGE then
            (case p of P_ct c ty \<Rightarrow> ProcessCTMessage env cnt0 cfg c ty s | _ \<Rightarrow> Inl OutOfBounds)
          else if ev = IPA_HANDLE_WAN_UP then
            (case p of
               P_iface_up u \<Rightarrow>
                 (let (_, acts, l1) = CreateConnTrackThreads (rc 0) (rc 1) (fst s)
                  in if \<not> WanUp l1
                     then map_sum id (\<lambda>(a, s'). (acts @ a, s')) (TriggerWANUp env (rc 2) (rc 3) u (l1, snd s))
                     else Inr (acts, l1, snd s))
             | _ \<Rightarrow> Inl OutOfBounds)
          else if ev = IPA_HANDLE_WAN_DOWN then
            (case p of
               P_iface_up u \<Rightarrow>
                 if WanUp (fst s) then map_sum id (\<lambda>s'. ([], s')) (TriggerWANDown env (up_ipv4_addr u) s)
                 else Inr ([], s)
             | _ \<Rightarrow> Inl OutOfBounds)
          else if ev = IPA_HANDLE_WLAN_UP \<or> ev = IPA_HANDLE_LAN_UP then
            (case p of
               P_iface_up u \<Rightarrow>
                 (let (_, acts, l1) = CreateConnTrackThreads (rc 0) (rc 1) (fst s)
                  in Inr (acts @ [UpdateUDPFilters u False, UpdateTCPFilters u False], l1, snd s))
             | _ \<Rightarrow> Inl OutOfBounds)
          else Inr ([], s))"

section \<open>Invariant of the listener\<close>

text \<open>\<open>m\<close> is the size of the cache of the NAT object.\<close>

definition ct_inv :: "int \<Rightarrow> ct_listener \<Rightarrow> bool" where
  "ct_inv m l \<longleftrightarrow> length (nat_iface_ipv4_addr l) = MAX_NAT_IFACES \<and>
     length (nonnat_iface_ipv4_addr l) = MAX_NAT_IFACES \<and>
     length (sta_clnt_ipv4_addr l) = MAX_STA_CLNT_IFACES \<and>
     StaClntCnt l = int (length (occupied (\<lambda>a. a = 0) (sta_clnt_ipv4_addr l))) \<and>
     (\<exists>n. nat_inst l = Some n \<and> nat_inv n \<and> max_entries n = m)"

lemma ct_inv_nat: "ct_inv m l \<Longrightarrow> nat_inv n \<Longrightarrow> max_entries n = m \<Longrightarrow> ct_inv m (l\<lparr>nat_inst := Some n\<rparr>)"
  by (simp add: ct_inv_def)

text \<open>The interface to the NAT object: an allowed call returns, and changes nothing of the listener but
  the object.\<close>

lemma nat_call_nat:
  assumes "nat_inst l = Some n" "nat_inv n" "op_ok (max_entries n) op"
  shows "\<exists>n' d'. nat_call env op (l, d) = Inr (l\<lparr>nat_inst := Some n'\<rparr>, d') \<and> nat_inv n' \<and> max_entries n' = max_entries n"
proof -
  have "nat_call env op (l, d) = map_sum id (\<lambda>(n', d'). (l\<lparr>nat_inst := Some n'\<rparr>, d')) (nat_exec env op (n, d))"
    using assms(1) by (simp add: nat_call_def)
  moreover obtain s' where "nat_exec env op (n, d) = Inr s'" "nat_inv (fst s')" "max_entries (fst s') = max_entries n"
    using nats.exec_inv[of "(n, d)" "max_entries n" op env] assms(2,3) by auto
  ultimately show ?thesis by (cases s') auto
qed

lemma nat_call_inv:
  assumes "ct_inv m l" "op_ok m op"
  shows "\<exists>n' d'. nat_call env op (l, d) = Inr (l\<lparr>nat_inst := Some n'\<rparr>, d') \<and> nat_inv n' \<and> max_entries n' = m"
  using assms nat_call_nat[of l _ op env d] by (auto simp: ct_inv_def)

lemma nat_call_ct_inv:
  assumes "ct_inv m l" "op_ok m op"
  shows "\<exists>l' d'. nat_call env op (l, d) = Inr (l', d') \<and> ct_inv m l' \<and> sta_clnt_ipv4_addr l' = sta_clnt_ipv4_addr l \<and>
    nat_iface_ipv4_addr l' = nat_iface_ipv4_addr l \<and> nonnat_iface_ipv4_addr l' = nonnat_iface_ipv4_addr l \<and>
    StaClntCnt l' = StaClntCnt l \<and> WanUp l' = WanUp l"
  using nat_call_inv[OF assms, of env d] ct_inv_nat[OF assms(1)] by auto

lemma ct_inv_upd [simp]:
  "length xs = length (nat_iface_ipv4_addr l) \<Longrightarrow> ct_inv m (l\<lparr>nat_iface_ipv4_addr := xs\<rparr>) = ct_inv m l"
  "length xs = length (nonnat_iface_ipv4_addr l) \<Longrightarrow> ct_inv m (l\<lparr>nonnat_iface_ipv4_addr := xs\<rparr>) = ct_inv m l"
  "ct_inv m (l\<lparr>pConfig := b\<rparr>) = ct_inv m l" "ct_inv m (l\<lparr>NatIfaceCnt := k\<rparr>) = ct_inv m l"
  "ct_inv m (l\<lparr>ct_pNatIfaces := p\<rparr>) = ct_inv m l" "ct_inv m (l\<lparr>WanUp := b\<rparr>) = ct_inv m l"
  "ct_inv m (l\<lparr>isStaMode := b\<rparr>) = ct_inv m l" "ct_inv m (l\<lparr>wan_ipaddr := a\<rparr>) = ct_inv m l"
  "ct_inv m (l\<lparr>wan_ifname := nm\<rparr>) = ct_inv m l" "ct_inv m (l\<lparr>isCTReg := b\<rparr>) = ct_inv m l"
  "ct_inv m (l\<lparr>isNatThreadStart := b\<rparr>) = ct_inv m l"
  by (auto simp: ct_inv_def)

lemma nat_iface_found_inv:
  assumes "ct_inv m l"
  shows "\<exists>b l' d'. nat_iface_found env ip (l, d) = Inr (b, l', d') \<and> ct_inv m l'"
proof (cases "find_slot (\<lambda>a. a = ip \<or> a = 0) (nat_iface_ipv4_addr l)")
  case None
  then show ?thesis using assms by (auto simp: nat_iface_found_def simp del: find_slot_None_iff)
next
  case (Some j)
  let ?l = "l\<lparr>nat_iface_ipv4_addr := (nat_iface_ipv4_addr l)[j := ip]\<rparr>"
  have "ct_inv m ?l" using assms by simp
  then obtain l1 d1 where 1: "nat_call env (O_ResetPwrSaveIf ip) (?l, d) = Inr (l1, d1)" "ct_inv m l1"
    using nat_call_ct_inv[of m ?l "O_ResetPwrSaveIf ip" env d] by auto
  obtain l2 d2 where 2: "nat_call env (O_FlushTempEntries ip True) (l1, d1) = Inr (l2, d2)" "ct_inv m l2"
    using nat_call_ct_inv[OF 1(2), of "O_FlushTempEntries ip True" env d1] by auto
  show ?thesis using Some assms 1 2 by (auto simp: nat_iface_found_def)
qed

lemma nonnat_iface_add_inv:
  assumes "ct_inv m l"
  shows "\<exists>l' d'. nonnat_iface_add env ip (l, d) = Inr (l', d') \<and> ct_inv m l'"
proof (cases "find_slot (\<lambda>a. a = 0) (nonnat_iface_ipv4_addr l)")
  case None
  then show ?thesis using assms by (auto simp: nonnat_iface_add_def simp del: find_slot_None_iff)
next
  case (Some i)
  let ?l = "l\<lparr>nonnat_iface_ipv4_addr := (nonnat_iface_ipv4_addr l)[i := ip]\<rparr>"
  have "ct_inv m ?l" using assms by simp
  from nat_call_ct_inv[OF this, of "O_FlushTempEntries ip False" env d] Some show ?thesis
    by (auto simp: nonnat_iface_add_def)
qed

lemma HandleNeighIpAddrAddEvt_inv:
  assumes "ct_inv m l" "\<forall>c. cfg = Some c \<longrightarrow> GetNatIfacesCnt c \<le> length (pNatIfaces c)"
  shows "\<exists>l' d'. HandleNeighIpAddrAddEvt env mem ifname cfg dat (l, d) = Inr (l', d') \<and> ct_inv m l'"
proof (cases cfg)
  case None
  then show ?thesis using assms by (simp add: HandleNeighIpAddrAddEvt_def Let_def)
next
  case (Some c)
  let ?l = "\<lambda>names. l\<lparr>pConfig := True, NatIfaceCnt := GetNatIfacesCnt c, ct_pNatIfaces := Some names\<rparr>"
  let ?ip = "all_ipv4_addr dat"
  obtain r names where g: "GetNatIfaces (int (GetNatIfacesCnt c)) (Some (replicate (GetNatIfacesCnt c) [])) c = Inr (r, names)"
    using assms(2) Some by (cases "GetNatIfacesCnt c = 0") (auto simp: GetNatIfaces_def)
  have l: "ct_inv m (?l names)" using assms(1) by simp
  obtain b k e where f: "nat_iface_found env ?ip (?l names, d) = Inr (b, k, e)" "ct_inv m k"
    using nat_iface_found_inv[OF l, of env ?ip d] by auto
  show ?thesis
    using assms(1) Some g f l nonnat_iface_add_inv[OF f(2), of env ?ip e] nonnat_iface_add_inv[OF l, of env ?ip d]
    by (auto simp: HandleNeighIpAddrAddEvt_def Let_def split: option.split)
qed

lemma HandleNeighIpAddrDelEvt_inv:
  assumes "ct_inv m l"
  shows "\<exists>l' d'. HandleNeighIpAddrDelEvt env ip (l, d) = Inr (l', d') \<and> ct_inv m l'"
proof -
  let ?c = "map (\<lambda>a. if a = ip then 0 else a)"
  let ?l = "l\<lparr>nat_iface_ipv4_addr := ?c (nat_iface_ipv4_addr l), nonnat_iface_ipv4_addr := ?c (nonnat_iface_ipv4_addr l)\<rparr>"
  have "ct_inv m ?l" using assms by simp
  then obtain l1 d1 where 1: "nat_call env (O_FlushTempEntries ip False) (?l, d) = Inr (l1, d1)" "ct_inv m l1"
    using nat_call_ct_inv[of m ?l "O_FlushTempEntries ip False" env d] by auto
  from nat_call_ct_inv[OF this(2), of "O_DelEntriesOnClntDiscon ip" env d1] 1 assms show ?thesis
    by (auto simp: HandleNeighIpAddrDelEvt_def Let_def)
qed

lemma CreateConnTrackThreads_inv:
  "CreateConnTrackThreads r1 r2 l = (r, acts, l') \<Longrightarrow> ct_inv m l \<Longrightarrow> ct_inv m l'"
  by (auto simp: CreateConnTrackThreads_def split: if_splits)

lemma TriggerWANUp_inv:
  assumes "ct_inv m l"
  shows "\<exists>acts l' d'. TriggerWANUp env r1 r2 u (l, d) = Inr (acts, l', d') \<and> ct_inv m l'"
proof -
  let ?l = "l\<lparr>WanUp := True, isStaMode := up_is_sta u, wan_ipaddr := up_ipv4_addr u, wan_ifname := up_ifname u\<rparr>"
  have l: "ct_inv m ?l" using assms by simp
  then obtain l1 d1 where "nat_call env (O_AddTable (up_ipv4_addr u)) (?l, d) = Inr (l1, d1)" "ct_inv m l1"
    using nat_call_ct_inv[of m ?l "O_AddTable (up_ipv4_addr u)" env d] by auto
  then show ?thesis using assms l by (auto simp: TriggerWANUp_def Let_def CreateNatThreads_def)
qed

lemma TriggerWANUp_returns: "\<exists>acts l' d'. TriggerWANUp env r1 r2 u (l, d) = Inr (acts, l', d')"
  by (cases "nat_inst l")
    (auto simp: TriggerWANUp_def CreateNatThreads_def nat_call_def case_prod_beta Let_def)

lemma TriggerWANDown_inv:
  assumes "ct_inv m l"
  shows "\<exists>l' d'. TriggerWANDown env a (l, d) = Inr (l', d') \<and> ct_inv m l'"
  using nat_call_ct_inv[of m "l\<lparr>WanUp := False\<rparr>" "O_DeleteTable a" env d] assms
  by (auto simp: TriggerWANDown_def Let_def)

lemma ct_tuple_protocol [simp]: "protocol (ct_tuple c kind rule) = protocol rule"
  by (cases kind) (simp_all add: ct_tuple_def)

lemma ct_client_protocol: "ct_client cfg l rule = Some (b, rule') \<Longrightarrow> protocol rule' = protocol rule"
  by (auto simp: ct_client_def split: if_splits option.splits)

lemma ct_op_ok: "ct_op cnt0 c ty w t rule = Some op \<Longrightarrow> 0 \<le> cnt0 \<Longrightarrow> cnt0 \<le> m \<Longrightarrow> op_ok m op"
  by (auto simp: ct_op_def Let_def free_entry_def IPPROTO_TCP_def IPPROTO_UDP_def split: if_splits)

lemma ProcessTCPorUDPMsg_inv:
  assumes "ct_inv m l" "0 \<le> cnt0" "cnt0 \<le> m"
  shows "\<exists>l' d'. ProcessTCPorUDPMsg env cnt0 cfg c ty p (l, d) = Inr (l', d') \<and> ct_inv m l'"
proof -
  have "\<exists>l' d'. nat_call env op (l, d) = Inr (l', d') \<and> ct_inv m l'" if "ct_op cnt0 c ty w t rule = Some op" for w t rule op
    using nat_call_ct_inv[OF assms(1) ct_op_ok[OF that assms(2,3)], of env d] by blast
  then show ?thesis using assms by (auto simp: ProcessTCPorUDPMsg_def Let_def split: option.split)
qed

lemma ProcessCTMessage_inv:
  assumes "ct_inv m l" "0 \<le> cnt0" "cnt0 \<le> m"
  shows "\<exists>acts l' d'. ProcessCTMessage env cnt0 cfg c ty (l, d) = Inr (acts, l', d') \<and> ct_inv m l'"
  using assms ProcessTCPorUDPMsg_inv[OF assms, of env cfg c ty "ATTR_ORIG_L4PROTO c" d]
  by (auto simp: ProcessCTMessage_def Let_def)

lemma occupied_upd:
  assumes "i < length xs"
  shows "int (length (occupied f (xs[i := y]))) =
    int (length (occupied f xs)) - (if f (xs ! i) then 0 else 1) + (if f y then 0 else 1)"
proof -
  have c: "xs = take i xs @ xs ! i # drop (Suc i) xs" using assms by (rule id_take_nth_drop)
  have u: "xs[i := y] = take i xs @ y # drop (Suc i) xs" using assms by (rule upd_conv_take_nth_drop)
  have "length (occupied f xs) = length (occupied f (take i xs @ xs ! i # drop (Suc i) xs))" using c by metis
  then show ?thesis by (simp add: u)
qed

lemma HandleSTAClientAddEvt_inv:
  assumes "ct_inv m l" "ip \<noteq> 0"
  shows "ct_inv m (HandleSTAClientAddEvt ip l)"
proof (cases "find_slot (\<lambda>a. a \<noteq> 0 \<and> a = ip \<or> a = 0) (sta_clnt_ipv4_addr l)")
  case None
  then show ?thesis using assms by (simp add: HandleSTAClientAddEvt_def del: find_slot_None_iff)
next
  case (Some i)
  then show ?thesis using assms find_slot_SomeD[OF Some] occupied_upd[of i "sta_clnt_ipv4_addr l" "\<lambda>a. a = 0" ip]
    by (auto simp: HandleSTAClientAddEvt_def ct_inv_def)
qed

lemma HandleSTAClientDelEvt_inv:
  assumes "ct_inv m l"
  shows "\<exists>l' d'. HandleSTAClientDelEvt env ip (l, d) = Inr (l', d') \<and> ct_inv m l'"
proof (cases "find_slot (\<lambda>a. a \<noteq> 0 \<and> a = ip) (sta_clnt_ipv4_addr l)")
  case None
  then show ?thesis using assms by (simp add: HandleSTAClientDelEvt_def del: find_slot_None_iff)
next
  case (Some i)
  have i: "i < length (sta_clnt_ipv4_addr l)" "sta_clnt_ipv4_addr l ! i \<noteq> 0" using find_slot_SomeD[OF Some] by auto
  let ?l = "l\<lparr>sta_clnt_ipv4_addr := (sta_clnt_ipv4_addr l)[i := 0]\<rparr>"
  obtain n where n: "nat_inst l = Some n" "nat_inv n" "max_entries n = m" using assms by (auto simp: ct_inv_def)
  obtain n' d' where e: "nat_call env (O_DelEntriesOnSTAClntDiscon ip) (?l, d) = Inr (?l\<lparr>nat_inst := Some n'\<rparr>, d')"
      "nat_inv n'" "max_entries n' = m" using nat_call_nat[of ?l n "O_DelEntriesOnSTAClntDiscon ip" env d] n by auto
  show ?thesis using assms Some e i occupied_upd[OF i(1), of "\<lambda>a. a = 0" 0]
    by (auto simp: HandleSTAClientDelEvt_def ct_inv_def)
qed

section \<open>Sequences of events\<close>

text \<open>An event comes with the indeterminate start index of \<open>CacheEntry\<close> and the results of the calls it makes.\<close>

datatype ct_evt =
    E_event int ipa_cm_event_id "ct_payload option" "nat \<Rightarrow> int"
  | E_neigh_add bool "string option" ipacm_event_data_all
  | E_neigh_del u32
  | E_sta_add u32
  | E_sta_del u32

fun ct_exec :: "'d nat_env \<Rightarrow> IPACM_Config option \<Rightarrow> ct_evt \<Rightarrow> ct_listener \<times> 'd \<Rightarrow> fault + ct_listener \<times> 'd" where
  "ct_exec env cfg (E_event cnt0 ev p rc) s = map_sum id snd (event_callback env cnt0 cfg rc ev p s)"
| "ct_exec env cfg (E_neigh_add mem nm dat) s = HandleNeighIpAddrAddEvt env mem nm cfg dat s"
| "ct_exec env cfg (E_neigh_del ip) s = HandleNeighIpAddrDelEvt env ip s"
| "ct_exec env cfg (E_sta_add ip) s = Inr (HandleSTAClientAddEvt ip (fst s), snd s)"
| "ct_exec env cfg (E_sta_del ip) s = HandleSTAClientDelEvt env ip s"

text \<open>What is needed of the events: the payload belongs to the event, a STA client has
  a nonzero address, and the start index of \<open>CacheEntry\<close> is within the cache of \<open>m\<close> entries or at its end.\<close>

fun ct_evt_ok :: "int \<Rightarrow> ct_evt \<Rightarrow> bool" where
  "ct_evt_ok m (E_event cnt0 ev p rc) =
     (case p of None \<Rightarrow> True
      | Some (P_ct c ty) \<Rightarrow> 0 \<le> cnt0 \<and> cnt0 \<le> m \<and> ev \<notin> {IPA_HANDLE_WAN_UP, IPA_HANDLE_WAN_DOWN, IPA_HANDLE_WLAN_UP, IPA_HANDLE_LAN_UP}
      | Some (P_iface_up u) \<Rightarrow> ev \<noteq> IPA_PROCESS_CT_MESSAGE)"
| "ct_evt_ok m (E_sta_add ip) = (ip \<noteq> 0)"
| "ct_evt_ok m _ = True"

lemma event_callback_inv:
  assumes "ct_inv m l" "ct_evt_ok m (E_event cnt0 ev p rc)"
  shows "\<exists>acts l' d'. event_callback env cnt0 cfg rc ev p (l, d) = Inr (acts, l', d') \<and> ct_inv m l'"
proof -
  obtain r acts l1 where t: "CreateConnTrackThreads (rc 0) (rc 1) l = (r, acts, l1)" using prod_cases3 by blast
  have l1: "ct_inv m l1" by (rule CreateConnTrackThreads_inv[OF t assms(1)])
  show ?thesis
  proof (cases p)
    case None
    then show ?thesis using assms by (simp add: event_callback_def)
  next
    case (Some q)
    show ?thesis
    proof (cases q)
      case (P_ct c ty)
      then show ?thesis using Some assms ProcessCTMessage_inv[OF assms(1), of cnt0 env cfg c ty d]
        by (auto simp: event_callback_def)
    next
      case (P_iface_up u)
      then show ?thesis using Some assms t l1 TriggerWANUp_inv[OF l1, of env "rc 2" "rc 3" u d]
          TriggerWANDown_inv[OF assms(1), of env "up_ipv4_addr u" d]
        by (auto simp: event_callback_def)
    qed
  qed
qed

interpretation ctl: guarded_ops "ct_exec env cfg"
  "\<lambda>s. ct_inv m (fst s) \<and> (\<forall>c. cfg = Some c \<longrightarrow> GetNatIfacesCnt c \<le> length (pNatIfaces c))" "ct_evt_ok m"
  for env cfg m
proof unfold_locales
  fix s :: "ct_listener \<times> 'a" and op
  assume s: "ct_inv m (fst s) \<and> (\<forall>c. cfg = Some c \<longrightarrow> GetNatIfacesCnt c \<le> length (pNatIfaces c))" and ok: "ct_evt_ok m op"
  obtain l d where ld: "s = (l, d)" by fastforce
  have l: "ct_inv m l" using s ld by simp
  show "\<exists>s'. ct_exec env cfg op s = Inr s' \<and> ct_inv m (fst s') \<and>
      (\<forall>c. cfg = Some c \<longrightarrow> GetNatIfacesCnt c \<le> length (pNatIfaces c))"
  proof (cases op)
    case (E_event cnt0 ev p rc)
    then show ?thesis using event_callback_inv[OF l, of cnt0 ev p rc env cfg d] ok s by (auto simp: ld)
  next
    case (E_neigh_add mem nm dat)
    then show ?thesis using HandleNeighIpAddrAddEvt_inv[OF l, of cfg env mem nm dat d] s by (auto simp: ld)
  next
    case (E_neigh_del ip)
    then show ?thesis using HandleNeighIpAddrDelEvt_inv[OF l, of env ip d] s by (auto simp: ld)
  next
    case (E_sta_add ip)
    then show ?thesis using HandleSTAClientAddEvt_inv[OF l, of ip] ok s by (auto simp: ld)
  next
    case (E_sta_del ip)
    then show ?thesis using HandleSTAClientDelEvt_inv[OF l, of env ip d] s by (auto simp: ld)
  qed
qed

section \<open>What a conntrack message can do\<close>

text \<open>The rule and the operation of a message that is not ignored.\<close>

definition ct_decision ::
  "IPACM_Config option \<Rightarrow> ct_attrs \<Rightarrow> nf_conntrack_msg_type \<Rightarrow> ct_listener \<Rightarrow> (bool \<times> nat_table_entry) option" where
  "ct_decision cfg c ty l =
     (case ct_kind c (wan_ipaddr l) (zero_entry\<lparr>protocol := ATTR_REPL_L4PROTO c\<rparr>) of
        None \<Rightarrow> None
      | Some (kind, rule) \<Rightarrow>
          (case ct_client cfg l (ct_tuple c kind rule) of
             None \<Rightarrow> None
           | Some (t, rule') \<Rightarrow> if ct_sta_ok l rule' then Some (t, rule') else None))"

lemma ProcessTCPorUDPMsg_decision:
  "ProcessTCPorUDPMsg env cnt0 cfg c ty p (l, d) =
     (case ct_decision cfg c ty l of
        None \<Rightarrow> Inr (l, d)
      | Some (t, rule) \<Rightarrow>
          if nat_inst l = None then Inr (l, d)
          else (case ct_op cnt0 c ty (WanUp l) t rule of None \<Rightarrow> Inr (l, d) | Some op \<Rightarrow> nat_call env op (l, d)))"
  by (simp add: ProcessTCPorUDPMsg_def ct_decision_def split: option.split)

lemma ct_kind_protocol: "ct_kind c wan rule = Some (k, rule') \<Longrightarrow> protocol rule' = protocol rule"
  by (auto simp: ct_kind_def Let_def split: if_splits)

lemma ct_decision_protocol: "ct_decision cfg c ty l = Some (t, rule) \<Longrightarrow> protocol rule = ATTR_REPL_L4PROTO c"
  by (auto simp: ct_decision_def dest!: ct_kind_protocol ct_client_protocol split: option.splits if_splits)

text \<open>The decision does not look at the TCP state, the message type or the NAT object.\<close>

lemma ct_parts_frame [simp]:
  "ct_kind (c\<lparr>ATTR_TCP_STATE := x\<rparr>) = ct_kind c" "ct_tuple (c\<lparr>ATTR_TCP_STATE := x\<rparr>) = ct_tuple c"
  "ct_client cfg (l\<lparr>nat_inst := n\<rparr>) = ct_client cfg l" "ct_sta_ok (l\<lparr>nat_inst := n\<rparr>) = ct_sta_ok l"
  by (simp_all add: fun_eq_iff ct_kind_def ct_tuple_def ct_client_def ct_sta_ok_def
      split: nat_kind.split option.split)

lemma ct_decision_state:
  "ct_decision cfg (c\<lparr>ATTR_TCP_STATE := x\<rparr>) ty l = ct_decision cfg c ty' l"
  by (simp add: ct_decision_def split: option.split)

lemma ct_decision_nat [simp]: "ct_decision cfg c ty (l\<lparr>nat_inst := n\<rparr>) = ct_decision cfg c ty l"
  by (simp add: ct_decision_def split: option.split)

section \<open>Properties\<close>

text \<open>C20. The listener, for every behaviour of the driver: created with a NAT object that satisfies its
  invariant, it handles any sequence of its events and client calls without a fault, the NAT cache
  never holds a connection twice or more than its maximum, and \<open>StaClntCnt\<close> is the number of stored STA
  clients, at most \<open>MAX_STA_CLNT_IFACES\<close>. Each event comes with its own payload, a STA client has a
  nonzero address, the configuration lists no more NAT interfaces than it stores, and the counter of \<open>CacheEntry\<close>,
  which the source does not initialise, starts between the first slot and the end of the cache (from any other value the source
  reads and writes outside it).\<close>

theorem listener_invariant:
  assumes "nat_inv n" and "\<forall>c. cfg = Some c \<longrightarrow> GetNatIfacesCnt c \<le> length (pNatIfaces c)"
    and "\<forall>e \<in> set evs. ct_evt_ok (max_entries n) e"
  shows "\<exists>l' d' n'. run_ops (ct_exec env cfg) evs (ct_listener_new mem (Some n), d) = Inr (l', d') \<and>
     nat_inst l' = Some n' \<and> distinct (conns (cache n')) \<and> int (length (conns (cache n'))) \<le> max_entries n' \<and>
     StaClntCnt l' = int (length (occupied (\<lambda>a. a = 0) (sta_clnt_ipv4_addr l'))) \<and>
     StaClntCnt l' \<le> int MAX_STA_CLNT_IFACES"
proof -
  have "occupied (\<lambda>a. a = 0) (replicate k (0 :: u32)) = []" for k by (simp add: occupied_def)
  then have "ct_inv (max_entries n) (ct_listener_new mem (Some n))"
    using assms(1) by (simp add: ct_inv_def ct_listener_new_def)
  with assms(2) obtain l' d' where r: "run_ops (ct_exec env cfg) evs (ct_listener_new mem (Some n), d) = Inr (l', d')" "ct_inv (max_entries n) l'"
    using ctl.run_inv[of "max_entries n" "(ct_listener_new mem (Some n), d)" cfg evs env] assms(3) by auto
  then obtain n' where "nat_inst l' = Some n'" "nat_inv n'" by (auto simp: ct_inv_def)
  then show ?thesis
    using r cache_ok_bound[of "cache n'" "curCnt n'"] occupied_length_le[of "\<lambda>a. a = 0" "sta_clnt_ipv4_addr l'"]
    by (auto simp: nat_inv_def cache_ok_def ct_inv_def)
qed

definition ex_ct :: ct_attrs where
  "ex_ct = \<lparr>ATTR_STATUS = 0x10, ATTR_ORIG_L4PROTO = 6, ATTR_REPL_L4PROTO = 6, ATTR_ORIG_IPV4_SRC = 0x0501A8C0,
     ATTR_ORIG_IPV4_DST = 0x08080808, ATTR_ORIG_PORT_SRC = 0x5000, ATTR_ORIG_PORT_DST = 0x5000,
     ATTR_REPL_IPV4_SRC = 0x08080808, ATTR_REPL_PORT_SRC = 0x5000, ATTR_REPL_PORT_DST = 0x5000,
     ATTR_TCP_STATE = 3\<rparr>"

definition ex_listener :: ct_listener where
  "ex_listener = \<lparr>isCTReg = True, isNatThreadStart = True, WanUp = True, nat_inst = Some ex_nat, NatIfaceCnt = 0,
     StaClntCnt = 0, ct_pNatIfaces = None, nat_iface_ipv4_addr = 0xC0A80105 # replicate 49 0,
     nonnat_iface_ipv4_addr = replicate 50 0, sta_clnt_ipv4_addr = replicate 10 0, pConfig = True,
     wan_ifname = ''rmnet0'', wan_ipaddr = 0x0A0B0C0D, isStaMode = False\<rparr>"

theorem listener_invariant_witness:
  "\<exists>l' d' n'. run_ops (ct_exec ex_env None) [E_event 1 IPA_PROCESS_CT_MESSAGE (Some (P_ct ex_ct NFCT_T_NEW)) (\<lambda>_. 0),
       E_sta_add 7, E_neigh_del 0xC0A80105] (ct_listener_new ex_listener (Some ex_nat), (Map.empty, 1)) = Inr (l', d') \<and>
     nat_inst l' = Some n' \<and> distinct (conns (cache n'))"
  using listener_invariant[OF ex_nat_inv, of None "[E_event 1 IPA_PROCESS_CT_MESSAGE (Some (P_ct ex_ct NFCT_T_NEW)) (\<lambda>_. 0),
       E_sta_add 7, E_neigh_del 0xC0A80105]" ex_env ex_listener "(Map.empty, 1)"] by (auto simp: ex_nat_def)

text \<open>C21. Only connections of known clients reach the NAT object: a conntrack message changes the
  listener or the environment only when its protocol is TCP or UDP and the private end of the
  connection is the WAN address itself outside STA mode, or one end is a registered NAT client, or the
  configuration says that one end lies in a private subnet.\<close>

theorem ct_message_scope:
  assumes "ProcessTCPorUDPMsg env cnt0 cfg c ty p (l, d) = Inr (l', d')" and "(l', d') \<noteq> (l, d)"
  shows "\<exists>kind rule. ct_kind c (wan_ipaddr l) (zero_entry\<lparr>protocol := ATTR_REPL_L4PROTO c\<rparr>) = Some (kind, rule) \<and>
     (ATTR_REPL_L4PROTO c = IPPROTO_TCP \<or> ATTR_REPL_L4PROTO c = IPPROTO_UDP) \<and>
     (private_ip (ct_tuple c kind rule) = wan_ipaddr l \<and> \<not> isStaMode l \<or>
      (\<exists>a \<in> set (nat_iface_ipv4_addr l). a \<noteq> 0 \<and> (private_ip (ct_tuple c kind rule) = a \<or> target_ip (ct_tuple c kind rule) = a)) \<or>
      (\<exists>g. cfg = Some g \<and> (isPrivateSubnet (private_ip (ct_tuple c kind rule)) g \<or> isPrivateSubnet (target_ip (ct_tuple c kind rule)) g)))"
proof -
  obtain t rule op where d: "ct_decision cfg c ty l = Some (t, rule)" "ct_op cnt0 c ty (WanUp l) t rule = Some op"
    using assms by (auto simp: ProcessTCPorUDPMsg_decision split: option.splits if_splits)
  have "ATTR_REPL_L4PROTO c = IPPROTO_TCP \<or> ATTR_REPL_L4PROTO c = IPPROTO_UDP"
    using d(2) ct_decision_protocol[OF d(1)] by (auto simp: ct_op_def Let_def split: if_splits)
  moreover obtain kind r where k: "ct_kind c (wan_ipaddr l) (zero_entry\<lparr>protocol := ATTR_REPL_L4PROTO c\<rparr>) = Some (kind, r)"
      "ct_client cfg l (ct_tuple c kind r) = Some (t, rule)"
    using d(1) by (auto simp: ct_decision_def split: option.splits if_splits)
  ultimately show ?thesis using k(2)
    by (intro exI[of _ kind] exI[of _ r])
      (auto simp: ct_client_def k(1) dest: find_slot_SomeD split: if_splits option.splits)
qed

theorem ct_message_scope_witness:
  "\<exists>l' d'. ProcessTCPorUDPMsg ex_env 0 None ex_ct NFCT_T_NEW 6 (ex_listener, (Map.empty, 1)) = Inr (l', d') \<and>
     (l', d') \<noteq> (ex_listener, (Map.empty, 1)) \<and>
     (\<exists>kind rule. ct_kind ex_ct (wan_ipaddr ex_listener) (zero_entry\<lparr>protocol := ATTR_REPL_L4PROTO ex_ct\<rparr>) = Some (kind, rule))"
proof -
  let ?r = "ProcessTCPorUDPMsg ex_env 0 None ex_ct NFCT_T_NEW 6 (ex_listener, (Map.empty, 1))"
  have "(case ?r of Inl _ \<Rightarrow> False | Inr (l', d') \<Rightarrow> snd d' = 2)" by code_simp
  then obtain l' d' where r: "?r = Inr (l', d')" "snd d' = 2" by (auto split: sum.splits)
  then have "(l', d') \<noteq> (ex_listener, (Map.empty, 1))" by auto
  with ct_message_scope[OF r(1)] r(1) show ?thesis by blast
qed

lemma nat_call_AddEntry:
  "nat_inst l = Some n \<Longrightarrow> nat_call env (O_AddEntry e) (l, d) =
     Inr (l\<lparr>nat_inst := Some (fst (snd (AddEntry env e (n, d))))\<rparr>, snd (snd (AddEntry env e (n, d))))"
  by (simp add: nat_call_def case_prod_beta)

lemma nat_call_DeleteEntry:
  "nat_inst l = Some n \<Longrightarrow> nat_call env (O_DeleteEntry e) (l, d) =
     Inr (l\<lparr>nat_inst := Some (fst (snd (DeleteEntry env e (n, d))))\<rparr>, snd (snd (DeleteEntry env e (n, d))))"
  by (simp add: nat_call_def case_prod_beta)

lemma nat_call_AddTempEntry:
  "nat_inst l = Some n \<Longrightarrow> nat_call env (O_AddTempEntry e) (l, d) =
     Inr (l\<lparr>nat_inst := Some (AddTempEntry e n)\<rparr>, d)"
  by (simp add: nat_call_def)

text \<open>C22. A TCP connection leaves no trace: while the WAN is up, when the message that reports it as
  established makes the NAT object accept the connection, the later message for the same tuple in
  state FIN_WAIT restores the cached connections and their count, whatever the driver answers.\<close>

theorem tcp_connection_roundtrip:
  assumes "nat_inst l = Some n" and "nat_inv n" and "WanUp l"
    and "ATTR_REPL_L4PROTO c = IPPROTO_TCP" and "ATTR_TCP_STATE c = TCP_CONNTRACK_ESTABLISHED"
    and "ProcessTCPorUDPMsg env cnt0 cfg c ty p (l, d) = Inr (l1, d1)"
    and "nat_inst l1 = Some n1" and "conns (cache n1) \<noteq> conns (cache n)"
    and "ProcessTCPorUDPMsg env cnt0 cfg (c\<lparr>ATTR_TCP_STATE := TCP_CONNTRACK_FIN_WAIT\<rparr>) ty' p' (l1, d1) = Inr (l2, d2)"
  shows "\<exists>n2. nat_inst l2 = Some n2 \<and> conns (cache n2) = conns (cache n) \<and> curCnt n2 = curCnt n"
proof -
  obtain t rule where de: "ct_decision cfg c ty l = Some (t, rule)"
    using assms(1,6,7,8) by (auto simp: ProcessTCPorUDPMsg_decision split: option.splits)
  have pr: "protocol rule = IPPROTO_TCP" using ct_decision_protocol[OF de] assms(4) by simp
  have t: "\<not> t"
    using assms(1,3,5-8) de pr by (auto simp: ProcessTCPorUDPMsg_decision ct_op_def nat_call_AddTempEntry AddTempEntry_def)
  obtain r k e where a: "AddEntry env rule (n, d) = (r, k, e)" using prod_cases3 by blast
  have 1: "l1 = l\<lparr>nat_inst := Some k\<rparr>" "d1 = e" "n1 = k"
    using assms(1,3,5-7) de pr t a by (auto simp: ProcessTCPorUDPMsg_decision ct_op_def nat_call_AddEntry)
  have acc: "r = 0" "\<not> invalid_conn rule" using AddEntry_cases[OF assms(2) a] assms(8) 1 by (auto split: if_splits)
  obtain r2 n2 e2 where del: "DeleteEntry env rule (k, e) = (r2, n2, e2)" using prod_cases3 by blast
  have "ct_decision cfg (c\<lparr>ATTR_TCP_STATE := TCP_CONNTRACK_FIN_WAIT\<rparr>) ty' l1 = Some (False, rule)"
    using de t ct_decision_state[where cfg = cfg and c = c and x = TCP_CONNTRACK_FIN_WAIT and ty = ty' and l = l and ty' = ty] by (simp add: 1)
  then have "nat_inst l2 = Some n2"
    using assms(9) pr del
    by (auto simp: ProcessTCPorUDPMsg_decision ct_op_def TCP_CONNTRACK_FIN_WAIT_def TCP_CONNTRACK_ESTABLISHED_def
        nat_call_DeleteEntry 1)
  then show ?thesis using AddEntry_undo[OF assms(2) acc(2), of env d k e r2 n2 e2] a acc(1) del by auto
qed

theorem tcp_connection_roundtrip_witness:
  "\<exists>l1 d1 l2 d2 n2. ProcessTCPorUDPMsg ex_env 0 None ex_ct NFCT_T_UPDATE 6 (ex_listener, (Map.empty, 1)) = Inr (l1, d1) \<and>
     ProcessTCPorUDPMsg ex_env 0 None (ex_ct\<lparr>ATTR_TCP_STATE := TCP_CONNTRACK_FIN_WAIT\<rparr>) NFCT_T_UPDATE 6 (l1, d1) = Inr (l2, d2) \<and>
     nat_inst l2 = Some n2 \<and> conns (cache n2) = []"
proof -
  let ?r = "ProcessTCPorUDPMsg ex_env 0 None ex_ct NFCT_T_UPDATE 6 (ex_listener, (Map.empty, 1))"
  let ?q = "\<lambda>s. ProcessTCPorUDPMsg ex_env 0 None (ex_ct\<lparr>ATTR_TCP_STATE := TCP_CONNTRACK_FIN_WAIT\<rparr>) NFCT_T_UPDATE 6 s"
  have "(case ?r of Inl _ \<Rightarrow> False | Inr s \<Rightarrow> \<not> isl (?q s) \<and>
      (case nat_inst (fst s) of None \<Rightarrow> False | Some n1 \<Rightarrow> length (conns (cache n1)) = 1))" by code_simp
  then obtain s where s: "?r = Inr s" "\<not> isl (?q s)"
      "case nat_inst (fst s) of None \<Rightarrow> False | Some n1 \<Rightarrow> length (conns (cache n1)) = 1"
    by (auto split: sum.splits)
  obtain l1 d1 where ld: "s = (l1, d1)" by (cases s)
  obtain s2 where "?q s = Inr s2" using s(2) by (cases "?q s") auto
  moreover obtain l2 d2 where "s2 = (l2, d2)" by (cases s2)
  moreover obtain n1 where "nat_inst l1 = Some n1" "length (conns (cache n1)) = 1"
    using s(3) ld by (auto split: option.splits)
  ultimately have r: "?r = Inr (l1, d1)" "nat_inst l1 = Some n1" "length (conns (cache n1)) = 1" "?q (l1, d1) = Inr (l2, d2)"
    using s(1) ld by simp_all
  have e: "nat_inst ex_listener = Some ex_nat" "WanUp ex_listener" "conns (cache ex_nat) = []"
    by (simp_all add: ex_listener_def ex_nat_def numeral_eq_Suc)
  have "conns (cache n1) \<noteq> conns (cache ex_nat)" using r(3) e(3) by auto
  with tcp_connection_roundtrip[OF e(1) ex_nat_inv e(2) _ _ r(1,2) _ r(4)] r e(3) show ?thesis
    by (auto simp: ex_ct_def IPPROTO_TCP_def TCP_CONNTRACK_ESTABLISHED_def)
qed

text \<open>The list of STA clients is searched as if it had no gaps: after three clients of one subnet
  connect and the second disconnects, the third is still stored but the search stops before its slot,
  so that in STA mode its connections are ignored.\<close>

theorem sta_client_missed:
  assumes "sta_clnt_ipv4_addr l = replicate MAX_STA_CLNT_IFACES 0" and "StaClntCnt l = 0" and "isStaMode l"
    and "distinct [x, y, z]" and "x \<noteq> 0" and "y \<noteq> 0" and "z \<noteq> 0" and "(x AND 0xFFFFFF00) = (z AND 0xFFFFFF00)"
    and "HandleSTAClientDelEvt env y
       (HandleSTAClientAddEvt z (HandleSTAClientAddEvt y (HandleSTAClientAddEvt x l)), d) = Inr (l', d')"
    and "target_ip rule = z"
  shows "z \<in> set (sta_clnt_ipv4_addr l') \<and> \<not> ct_sta_ok l' rule"
proof -
  have r: "replicate MAX_STA_CLNT_IFACES (0 :: u32) = [0, 0, 0, 0, 0, 0, 0, 0, 0, 0]"
    by (simp add: MAX_STA_CLNT_IFACES_def numeral_eq_Suc)
  let ?l = "HandleSTAClientAddEvt z (HandleSTAClientAddEvt y (HandleSTAClientAddEvt x l))"
  have l3: "?l = l\<lparr>sta_clnt_ipv4_addr := [x, y, z, 0, 0, 0, 0, 0, 0, 0], StaClntCnt := 3\<rparr>"
    using assms(1-7) r by (simp add: HandleSTAClientAddEvt_def MAX_STA_CLNT_IFACES_def)
  have "sta_clnt_ipv4_addr l' = [x, 0, z, 0, 0, 0, 0, 0, 0, 0] \<and> StaClntCnt l' = 2 \<and> isStaMode l'"
    using assms(3-7,9) by (auto simp: HandleSTAClientDelEvt_def l3 nat_call_def case_prod_beta split: option.splits)
  then show ?thesis using assms(4,7,8,10) by (auto simp: ct_sta_ok_def numeral_eq_Suc)
qed

theorem sta_client_missed_witness:
  "\<exists>l' d'. HandleSTAClientDelEvt ex_env 0xC0A82B03 (HandleSTAClientAddEvt 0xC0A82B04 (HandleSTAClientAddEvt 0xC0A82B03
       (HandleSTAClientAddEvt 0xC0A82B02 (ex_listener\<lparr>isStaMode := True\<rparr>))), (Map.empty, 1)) = Inr (l', d') \<and>
     \<not> ct_sta_ok l' (zero_entry\<lparr>target_ip := 0xC0A82B04\<rparr>)"
proof -
  let ?l = "ex_listener\<lparr>isStaMode := True\<rparr>"
  let ?r = "HandleSTAClientDelEvt ex_env 0xC0A82B03 (HandleSTAClientAddEvt 0xC0A82B04 (HandleSTAClientAddEvt 0xC0A82B03
       (HandleSTAClientAddEvt 0xC0A82B02 ?l)), (Map.empty, 1))"
  have "\<not> isl ?r" by code_simp
  then obtain s where "?r = Inr s" by (cases ?r) auto
  moreover obtain l' d' where "s = (l', d')" by (cases s)
  ultimately have r: "?r = Inr (l', d')" by simp
  from sta_client_missed[OF _ _ _ _ _ _ _ _ r, of "zero_entry\<lparr>target_ip := 0xC0A82B04\<rparr>"] r show ?thesis
    by (auto simp: ex_listener_def MAX_STA_CLNT_IFACES_def)
qed

text \<open>C23. When the WAN goes down and up again with the same address, and the driver deletes the table that is in use and creates a new one for
  the address and the size of the cache, the hardware is restored: the rules of all cached connections are offered to the new table
  in the order of the cache, each entry is enabled under the handle the driver answers or, when it refuses the rule, wiped, and afterwards
  every cached connection is enabled and the rules in the new table are exactly theirs. The driver satisfies \<open>nat_driver\<close>.\<close>

theorem wan_cycle_restores:
  assumes "nat_driver env rules" and "nat_inst l = Some n" and "nat_inv n"
    and "nat_table_hdl n \<noteq> 0" and "pub_ip_addr n = ip" and "ip \<noteq> 0"
    and "ipa_nat_del_ipv4_tbl env (nat_table_hdl n) d = (0, e1)"
    and "ipa_nat_add_ipv4_tbl env ip (of_int (max_entries n)) 0 e1 = (0, h, e2)"
    and "TriggerWANDown env ip (l, d) = Inr (l1, d1)" and "up_ipv4_addr u = ip"
    and "TriggerWANUp env r1 r2 u (l1, d1) = Inr (acts, l2, d2)"
  shows "\<exists>n2 as. nat_inst l2 = Some n2 \<and> WanUp l2 \<and> nat_table_hdl n2 = h \<and> synced rules (n2, d2) \<and>
     (\<forall>e \<in> set (cache n2). \<not> free_entry e \<longrightarrow> enabled e) \<and>
     add_rules env h (filter (\<lambda>e. private_ip e \<noteq> 0) (cache n)) e2 = (as, d2) \<and>
     cache n2 = resume (\<lambda>e. private_ip e \<noteq> 0) as (cache n)"
proof -
  let ?n1 = "Reset (n\<lparr>pub_ip_addr_pre := ip\<rparr>)"
  have n1: "cache ?n1 = cache n" "max_entries ?n1 = max_entries n" "nat_table_hdl ?n1 = 0" "ip = pub_ip_addr_pre ?n1"
    by (simp_all add: Reset_def)
  have del: "DeleteTable env ip (n, d) = (0, ?n1, e1)"
    using assms(4,5,7) by (simp add: DeleteTable_def)
  have l1: "nat_inst l1 = Some ?n1" "d1 = e1"
    using assms(2,9) del by (auto simp: TriggerWANDown_def nat_call_def Let_def)
  have inv1: "nat_inv ?n1" using DeleteTable_inv[OF assms(3) del] .
  have t: "ipa_nat_add_ipv4_tbl env ip (of_int (max_entries ?n1)) (nat_table_hdl ?n1) e1 = (0, h, e2)" using assms(8) n1 by simp
  obtain c cnt f where m: "map_state (\<lambda>e s. if private_ip e \<noteq> 0 then restore_entry env h e s else (e, s)) (cache ?n1) (curCnt ?n1, e2) = (c, cnt, f)"
    using prod_cases3 by blast
  obtain k where add: "AddTable env ip (?n1, e1) = (0, k, f)" "cache k = c" "nat_table_hdl k = h"
    using AddTable_eq[OF t m] n1(4) by auto
  have res: "synced rules (k, f) \<and> (\<forall>e \<in> set (cache k). \<not> free_entry e \<longrightarrow> enabled e)"
    using AddTable_restore_all[OF assms(1) inv1 n1(4) add(1)] by blast
  have "nat_inst l2 = Some k \<and> d2 = f \<and> WanUp l2"
    using assms(6,10,11) l1 add(1) by (auto simp: TriggerWANUp_def nat_call_def Let_def CreateNatThreads_def split: if_splits)
  then show ?thesis using res add(2,3) resume_loop[OF m] n1(1) by auto
qed

text \<open>A listener with a connection that is in the hardware table.\<close>

definition ex_busy_listener :: ct_listener where
  "ex_busy_listener = ex_listener\<lparr>nat_inst := Some ex_busy\<rparr>"

theorem wan_cycle_restores_witness:
  "\<exists>l1 d1 acts l2 d2 n2. TriggerWANDown ex_env 0x0A0B0C0D (ex_busy_listener, ([1 \<mapsto> rule_of ex_conn], 2)) = Inr (l1, d1) \<and>
     TriggerWANUp ex_env 0 0 \<lparr>up_ifname = ''rmnet0'', up_ipv4_addr = 0x0A0B0C0D, up_is_sta = False\<rparr> (l1, d1) = Inr (acts, l2, d2) \<and>
     nat_inst l2 = Some n2 \<and> WanUp l2 \<and> cache n2 = [ex_conn\<lparr>enabled := True, rule_hdl := 1\<rparr>, zero_entry] \<and> fst d2 1 = Some (rule_of ex_conn)"
proof -
  let ?u = "\<lparr>up_ifname = ''rmnet0'', up_ipv4_addr = 0x0A0B0C0D :: u32, up_is_sta = False\<rparr>" and ?d = "([1 \<mapsto> rule_of ex_conn], 2)"
  have e: "nat_inst ex_busy_listener = Some ex_busy" "nat_table_hdl ex_busy \<noteq> 0" "pub_ip_addr ex_busy = 0x0A0B0C0D"
    by (simp_all add: ex_busy_listener_def ex_busy_def ex_nat_def)
  obtain l1 d1 where 1: "TriggerWANDown ex_env 0x0A0B0C0D (ex_busy_listener, ?d) = Inr (l1, d1)"
    using e by (auto simp: TriggerWANDown_def nat_call_def Let_def case_prod_beta)
  obtain acts l2 d2 where 2: "TriggerWANUp ex_env 0 0 ?u (l1, d1) = Inr (acts, l2, d2)"
    using TriggerWANUp_returns[of ex_env 0 0 ?u l1 d1] by (elim exE)
  have t: "ipa_nat_del_ipv4_tbl ex_env (nat_table_hdl ex_busy) ?d = (0, (Map.empty, 1))"
    "ipa_nat_add_ipv4_tbl ex_env 0x0A0B0C0D (of_int (max_entries ex_busy)) 0 (Map.empty, 1) = (0, 1, (Map.empty, 1))"
    by (simp_all add: ex_env_def)
  obtain n2 as where n2: "nat_inst l2 = Some n2" "WanUp l2" "add_rules ex_env 1 (filter (\<lambda>e. private_ip e \<noteq> 0) (cache ex_busy)) (Map.empty, 1) = (as, d2)"
      "cache n2 = resume (\<lambda>e. private_ip e \<noteq> 0) as (cache ex_busy)"
    using wan_cycle_restores[OF ex_env_driver e(1) ex_busy_inv e(2,3) _ t 1 _ 2] by auto
  have c: "cache ex_busy = [ex_conn\<lparr>enabled := True, rule_hdl := 1\<rparr>, zero_entry]" "private_ip ex_conn \<noteq> 0" "private_ip zero_entry = 0"
    by (simp_all add: ex_busy_def ex_conn_def zero_entry_def)
  have "as = [(0, 1)]" "fst d2 1 = Some (rule_of ex_conn)" using n2(3) c by (auto simp: ex_env_def)
  then have "cache n2 = [ex_conn\<lparr>enabled := True, rule_hdl := 1\<rparr>, zero_entry]" using n2(4) c by simp
  then show ?thesis using 1 2 n2(1,2) \<open>fst d2 1 = Some (rule_of ex_conn)\<close>
    by (intro exI[of _ l1] exI[of _ d1] exI[of _ acts] exI[of _ l2] exI[of _ d2] exI[of _ n2]) simp
qed

end
