(* ===== verification/Ipacm_Iface.thy ===== *)
theory Ipacm_Iface
  imports Ipacm_Config Evt_Dispatcher
begin

text \<open>
  What \<^verbatim>\<open>IPACM_Iface.cpp\<close> offers to every interface: the map from the kernel's interface numbers to the rows of the interface
  table, which is filled as interfaces appear, the addresses an interface already has, and string copies into buffers.
  The contract of the map is the locale \<open>iface_directory\<close>.
\<close>

section \<open>Interface numbers\<close>

definition INVALID_IFACE :: int where "INVALID_IFACE = - 1"

definition IPA_IFACE_NAME_LEN :: nat where "IPA_IFACE_NAME_LEN = 16"

text \<open>\<open>strncmp(a, b, IPA_IFACE_NAME_LEN) == 0\<close>\<close>

definition same_name :: "string \<Rightarrow> string \<Rightarrow> bool" where
  "same_name a b \<longleftrightarrow> take IPA_IFACE_NAME_LEN a = take IPA_IFACE_NAME_LEN b"

text \<open>\<open>names\<close> is what \<^verbatim>\<open>SIOCGIFNAME\<close> answers, \<open>None\<close> when the socket or the call fails. The loops run over
  \<^verbatim>\<open>ipa_num_ipa_interfaces\<close> rows.\<close>

definition iface_ipa_index_query :: "(int \<Rightarrow> string option) \<Rightarrow> int \<Rightarrow> IPACM_Config \<Rightarrow> fault + int \<times> IPACM_Config" where
  "iface_ipa_index_query names interface_index c =
     (let rows = take (ipa_num_ipa_interfaces c) (iface_table c);
          short = length (iface_table c) < ipa_num_ipa_interfaces c
      in if iface_table_freed c then Inl UseAfterFree
         else if iface_table c = [] then Inr (INVALID_IFACE, c)
         else case find_slot (\<lambda>r. interface_index = netlink_interface_index r) rows of
           Some i \<Rightarrow> Inr (int i, c)
         | None \<Rightarrow>
             if short then Inl OutOfBounds
             else case names interface_index of
               None \<Rightarrow> Inr (IPACM_FAILURE, c)
             | Some nm \<Rightarrow>
                 (case find_slot (\<lambda>r. same_name nm (iface_name r)) rows of
                    None \<Rightarrow> Inr (INVALID_IFACE, c)
                  | Some i \<Rightarrow> Inr (int i, c\<lparr>iface_table := (iface_table c)[i :=
                        (iface_table c ! i)\<lparr>netlink_interface_index := interface_index\<rparr>]\<rparr>)))"

text \<open>Reading a row; the callers do not check for \<open>INVALID_IFACE\<close>.\<close>

definition iface_row :: "int \<Rightarrow> IPACM_Config \<Rightarrow> fault + ipa_ifi_dev_name_t" where
  "iface_row i c = (if iface_table_freed c then Inl UseAfterFree
     else if 0 \<le> i \<and> nat i < length (iface_table c) then Inr (iface_table c ! nat i) else Inl OutOfBounds)"

section \<open>Addresses\<close>

text \<open>Addresses in network byte order; \<open>ntohl\<close> on a little endian machine.\<close>

definition ntohl :: "u32 \<Rightarrow> u32" where
  "ntohl w = push_bit 24 (w AND 0xFF) OR push_bit 8 (w AND 0xFF00) OR drop_bit 8 (w AND 0xFF0000) OR drop_bit 24 w"

datatype sockaddr = AF_INET u32 | AF_INET6 "u32 list" | AF_other

record ifaddrs =
  ifa_name :: string
  ifa_up :: bool
  ifa_addr :: "sockaddr option"

text \<open>The members of a posted \<^verbatim>\<open>ipacm_event_data_addr\<close> that are written.\<close>

datatype addr_event = AddrV4 int u32 | AddrV6 int "u32 list"

text \<open>The loop over the addresses; \<open>mem k\<close> says whether the allocation number \<open>k\<close> succeeds.\<close>

fun addr_loop :: "(nat \<Rightarrow> bool) \<Rightarrow> nat \<Rightarrow> string \<Rightarrow> int \<Rightarrow> ifaddrs list \<Rightarrow> addr_event list" where
  "addr_loop mem k nm idx [] = []"
| "addr_loop mem k nm idx (ifa # ifas) =
     (case ifa_addr ifa of
        None \<Rightarrow> addr_loop mem k nm idx ifas
      | Some sa \<Rightarrow>
          if \<not> ifa_up ifa then addr_loop mem k nm idx ifas
          else if nm = ifa_name ifa
          then (case sa of
              AF_INET a \<Rightarrow> if mem k then AddrV4 idx (ntohl a) # addr_loop mem (Suc k) nm idx ifas else []
            | AF_INET6 as \<Rightarrow> if mem k then AddrV6 idx (map ntohl as) # addr_loop mem (Suc k) nm idx ifas else []
            | AF_other \<Rightarrow> addr_loop mem k nm idx ifas)
          else addr_loop mem k nm idx ifas)"

definition iface_addr_query :: "(int \<Rightarrow> string option) \<Rightarrow> (nat \<Rightarrow> bool) \<Rightarrow> ifaddrs list option \<Rightarrow> int \<Rightarrow> addr_event list" where
  "iface_addr_query names mem addrs interface_index =
     (case names interface_index of
        None \<Rightarrow> []
      | Some nm \<Rightarrow> (case addrs of None \<Rightarrow> [] | Some as \<Rightarrow> addr_loop mem 0 nm interface_index as))"

text \<open>With enough memory the events are the addresses of the interface, in the kernel's order.\<close>

definition addr_of :: "int \<Rightarrow> sockaddr \<Rightarrow> addr_event option" where
  "addr_of idx sa = (case sa of AF_INET a \<Rightarrow> Some (AddrV4 idx (ntohl a)) | AF_INET6 as \<Rightarrow> Some (AddrV6 idx (map ntohl as)) | AF_other \<Rightarrow> None)"

lemma addr_loop_all:
  assumes "\<And>k. mem k"
  shows "addr_loop mem k nm idx ifas =
     List.map_filter (\<lambda>ifa. if ifa_up ifa \<and> nm = ifa_name ifa then Option.bind (ifa_addr ifa) (addr_of idx) else None) ifas"
  by (induction ifas arbitrary: k)
    (auto simp: map_filter_simps assms addr_of_def split: option.splits sockaddr.splits)

section \<open>Strings\<close>

text \<open>Buffers are lists of bytes, strings end with a zero byte; a write behind the buffer is a fault.\<close>

definition c_strlen :: "u8 list \<Rightarrow> nat" where
  "c_strlen b = length (takeWhile (\<lambda>x. x \<noteq> 0) b)"

definition put_bytes :: "nat \<Rightarrow> u8 list \<Rightarrow> u8 list \<Rightarrow> fault + u8 list" where
  "put_bytes off xs b = (if off + length xs \<le> length b then Inr (take off b @ xs @ drop (off + length xs) b) else Inl OutOfBounds)"

definition strlcpy :: "u8 list \<Rightarrow> u8 list \<Rightarrow> nat \<Rightarrow> fault + nat \<times> u8 list" where
  "strlcpy dest src n =
     (let ret = c_strlen src
      in if n > 0
         then let len = (if n \<le> ret then n - 1 else ret)
              in bnd (put_bytes len [0] dest) (\<lambda>dest. bnd (put_bytes 0 (take len src) dest) (\<lambda>dest. Inr (ret, dest)))
         else Inr (ret, dest))"

definition strlcat :: "u8 list \<Rightarrow> u8 list \<Rightarrow> nat \<Rightarrow> fault + nat \<times> u8 list" where
  "strlcat dest src n =
     (let dsize = c_strlen dest; len = c_strlen src; ret = dsize + len
      in if dsize < n
         then let n = n - dsize; len = (if n \<le> len then n - 1 else len)
              in bnd (put_bytes (dsize + len) [0] dest) (\<lambda>dest. bnd (put_bytes dsize (take len src) dest) (\<lambda>dest. Inr (ret, dest)))
         else Inr (ret, dest))"

text \<open>The string in a buffer.\<close>

definition c_str :: "u8 list \<Rightarrow> u8 list" where
  "c_str b = takeWhile (\<lambda>x. x \<noteq> 0) b"

lemma c_str_facts: "length (c_str b) = c_strlen b" "c_strlen b \<le> length b" "take (c_strlen b) b = c_str b" "0 \<notin> set (c_str b)"
  by (auto simp: c_str_def c_strlen_def length_takeWhile_le takeWhile_eq_take[symmetric] dest: set_takeWhileD)

lemma c_str_put: "0 \<notin> set xs \<Longrightarrow> c_str (xs @ 0 # ys) = xs"
  by (induction xs) (auto simp: c_str_def)

lemma strlcpy_spec:
  assumes n: "0 < n" "n \<le> length dest"
  shows "\<exists>dest'. strlcpy dest src n = Inr (c_strlen src, dest') \<and> length dest' = length dest \<and>
     c_str dest' = take (n - 1) (c_str src) \<and> drop n dest' = drop n dest"
proof -
  define l where "l = (if n \<le> c_strlen src then n - 1 else c_strlen src)"
  have l: "l < n" "l \<le> c_strlen src" using n by (auto simp: l_def)
  have lsrc: "length (take l src) = l" using l c_str_facts(2)[of src] by simp
  let ?mid = "take l dest @ [0] @ drop (Suc l) dest" and ?fin = "take l src @ 0 # drop (Suc l) dest"
  have "put_bytes l [0] dest = Inr ?mid" "put_bytes 0 (take l src) ?mid = Inr ?fin"
    using l n(2) lsrc by (simp_all add: put_bytes_def)
  then have r: "strlcpy dest src n = Inr (c_strlen src, ?fin)" using n(1) by (simp add: strlcpy_def Let_def l_def[symmetric])
  have t: "take l src = take l (c_str src)" using l c_str_facts(3)[of src] by (metis min.absorb1 take_take)
  have "0 \<notin> set (take l (c_str src))" using c_str_facts(4) by (auto dest: in_set_takeD)
  then have "c_str ?fin = take l (c_str src)" unfolding t by (rule c_str_put)
  also have "\<dots> = take (n - 1) (c_str src)" using c_str_facts(1)[of src] by (auto simp: l_def)
  finally have "c_str ?fin = take (n - 1) (c_str src)" .
  moreover have "length ?fin = length dest" "drop n ?fin = drop n dest" using l n(2) lsrc by (auto simp: drop_Cons')
  ultimately show ?thesis using r by blast
qed

lemma strlcat_spec:
  assumes n: "n \<le> length dest" "c_strlen dest < n"
  shows "\<exists>dest'. strlcat dest src n = Inr (c_strlen dest + c_strlen src, dest') \<and> length dest' = length dest \<and>
     c_str dest' = take (n - 1) (c_str dest @ c_str src) \<and> drop n dest' = drop n dest"
proof -
  define d l where "d = c_strlen dest" and "l = (if n - d \<le> c_strlen src then n - d - 1 else c_strlen src)"
  have dl: "d + l < n" using n(2) by (auto simp: d_def l_def)
  have ls: "l \<le> c_strlen src" by (auto simp: l_def)
  let ?mid = "take (d + l) dest @ [0] @ drop (Suc (d + l)) dest"
  let ?fin = "take d dest @ take l src @ 0 # drop (Suc (d + l)) dest"
  have lsrc: "length (take l src) = l" using ls c_str_facts(2)[of src] by simp
  have "take d ?mid = take d dest" "drop (d + l) ?mid = 0 # drop (Suc (d + l)) dest" using dl n(1) by (simp_all add: min_def)
  then have p2: "put_bytes d (take l src) ?mid = Inr ?fin" using dl n(1) lsrc by (simp add: put_bytes_def)
  have p1: "put_bytes (d + l) [0] dest = Inr ?mid" using dl n(1) by (simp add: put_bytes_def)
  have r: "strlcat dest src n = Inr (d + c_strlen src, ?fin)"
    using n(2) p1 p2 by (simp add: strlcat_def Let_def d_def[symmetric] l_def[symmetric])
  have "take l src = take l (c_str src)" using ls c_str_facts(3)[of src] by (metis min.absorb1 take_take)
  then have e: "?fin = (c_str dest @ take l (c_str src)) @ 0 # drop (Suc (d + l)) dest" using c_str_facts(3)[of dest] by (simp add: d_def)
  have "0 \<notin> set (c_str dest @ take l (c_str src))" using c_str_facts(4) by (auto dest: in_set_takeD)
  then have "c_str ?fin = c_str dest @ take l (c_str src)" unfolding e by (rule c_str_put)
  also have "\<dots> = take (n - 1) (c_str dest @ c_str src)" using n(2) c_str_facts(1) by (auto simp: l_def d_def)
  finally have c: "c_str ?fin = take (n - 1) (c_str dest @ c_str src)" .
  have "length ?fin = length dest" "drop n ?fin = drop n dest" using dl n(1) lsrc by (auto simp: drop_Cons' )
  with r c show ?thesis by (auto simp: d_def)
qed


section \<open>The directory of interfaces\<close>

text \<open>A table whose names differ and whose kernel numbers are right; 0 is no interface number.\<close>

definition cfg_ok :: "(int \<Rightarrow> string option) \<Rightarrow> IPACM_Config \<Rightarrow> bool" where
  "cfg_ok names c \<longleftrightarrow> \<not> iface_table_freed c \<and> iface_table c \<noteq> [] \<and> ipa_num_ipa_interfaces c = length (iface_table c) \<and>
     distinct (map (\<lambda>r. take IPA_IFACE_NAME_LEN (iface_name r)) (iface_table c)) \<and>
     (\<forall>r \<in> set (iface_table c). netlink_interface_index r \<noteq> 0 \<longrightarrow>
        (\<exists>nm. names (netlink_interface_index r) = Some nm \<and> same_name nm (iface_name r)))"

text \<open>The row of a kernel interface, and what of the configuration does not depend on the kernel numbers.\<close>

definition row_of :: "(int \<Rightarrow> string option) \<Rightarrow> IPACM_Config \<Rightarrow> int \<Rightarrow> nat option" where
  "row_of names c k = (case names k of None \<Rightarrow> None | Some nm \<Rightarrow> find_slot (\<lambda>r. same_name nm (iface_name r)) (iface_table c))"

definition cfg_view :: "IPACM_Config \<Rightarrow> IPACM_Config" where
  "cfg_view c = c\<lparr>iface_table := map (\<lambda>r. r\<lparr>netlink_interface_index := 0\<rparr>) (iface_table c)\<rparr>"

definition row_index :: "nat option \<Rightarrow> int" where
  "row_index r = (case r of None \<Rightarrow> INVALID_IFACE | Some i \<Rightarrow> int i)"

lemma find_same_name:
  assumes "distinct (map (\<lambda>r. take IPA_IFACE_NAME_LEN (iface_name r)) t)" "i < length t" "same_name nm (iface_name (t ! i))"
  shows "find_slot (\<lambda>r. same_name nm (iface_name r)) t = Some i"
proof -
  have "take IPA_IFACE_NAME_LEN (iface_name (t ! j)) \<noteq> take IPA_IFACE_NAME_LEN (iface_name (t ! i))" if "j < i" for j
    using assms(1,2) that nth_eq_iff_index_eq[OF assms(1), of j i] by simp
  then show ?thesis using assms(2,3) unfolding find_slot_Some_iff same_name_def by metis
qed

lemma cfg_ok_upd:
  assumes "cfg_ok names c" "i < length (iface_table c)" "names k = Some nm" "same_name nm (iface_name (iface_table c ! i))"
  shows "cfg_ok names (c\<lparr>iface_table := (iface_table c)[i := (iface_table c ! i)\<lparr>netlink_interface_index := k\<rparr>]\<rparr>)"
proof -
  let ?t = "(iface_table c)[i := (iface_table c ! i)\<lparr>netlink_interface_index := k\<rparr>]"
  have "map (\<lambda>r. take IPA_IFACE_NAME_LEN (iface_name r)) ?t = map (\<lambda>r. take IPA_IFACE_NAME_LEN (iface_name r)) (iface_table c)"
    using assms(2) by (auto simp: list_eq_iff_nth_eq nth_list_update)
  moreover have "r \<in> set ?t \<Longrightarrow> r \<in> set (iface_table c) \<or> r = (iface_table c ! i)\<lparr>netlink_interface_index := k\<rparr>" for r
    using set_update_subset_insert[of "iface_table c" i] by blast
  ultimately show ?thesis using assms by (fastforce simp: cfg_ok_def)
qed

lemma cfg_view_upd: "cfg_view (c\<lparr>iface_table := (iface_table c)[i := (iface_table c ! i)\<lparr>netlink_interface_index := k\<rparr>]\<rparr>) = cfg_view c"
proof -
  have "map (\<lambda>r. r\<lparr>netlink_interface_index := 0\<rparr>) ((iface_table c)[i := (iface_table c ! i)\<lparr>netlink_interface_index := k\<rparr>]) =
      map (\<lambda>r. r\<lparr>netlink_interface_index := 0\<rparr>) (iface_table c)"
    by (cases "i < length (iface_table c)") (auto simp: list_eq_iff_nth_eq nth_list_update)
  then show ?thesis by (simp add: cfg_view_def)
qed

lemma cfg_view_eq:
  assumes "cfg_view c' = cfg_view c"
  shows "length (iface_table c') = length (iface_table c)" "map iface_name (iface_table c') = map iface_name (iface_table c)"
    "map if_cat (iface_table c') = map if_cat (iface_table c)" "ipa_virtual_iface_name c' = ipa_virtual_iface_name c"
    "row_of names c' k = row_of names c k"
proof -
  let ?z = "\<lambda>r. r\<lparr>netlink_interface_index := 0\<rparr>"
  have t: "map ?z (iface_table c') = map ?z (iface_table c)" using arg_cong[OF assms, of iface_table] by (simp add: cfg_view_def)
  from arg_cong[OF t, of length] show "length (iface_table c') = length (iface_table c)" by simp
  from arg_cong[OF t, of "map iface_name"] show n: "map iface_name (iface_table c') = map iface_name (iface_table c)" by (simp add: o_def)
  from arg_cong[OF t, of "map if_cat"] show "map if_cat (iface_table c') = map if_cat (iface_table c)" by (simp add: o_def)
  from arg_cong[OF assms, of ipa_virtual_iface_name] show "ipa_virtual_iface_name c' = ipa_virtual_iface_name c" by (simp add: cfg_view_def)
  have "find_slot (\<lambda>r. P (iface_name r)) xs = find_slot P (map iface_name xs)" for P and xs :: "ipa_ifi_dev_name_t list"
    by (induction xs) auto
  with n show "row_of names c' k = row_of names c k" by (simp add: row_of_def split: option.split)
qed

text \<open>The contract of the directory: it answers with the row of the interface, and asking changes nothing else.\<close>

locale iface_directory =
  fixes query :: "int \<Rightarrow> 'c \<Rightarrow> fault + int \<times> 'c"
    and ok :: "'c \<Rightarrow> bool"
    and row :: "'c \<Rightarrow> int \<Rightarrow> nat option"
    and view :: "'c \<Rightarrow> 'v"
  assumes query_row: "ok c \<Longrightarrow> k \<noteq> 0 \<Longrightarrow> \<exists>c'. query k c = Inr (row_index (row c k), c') \<and> ok c' \<and> view c' = view c"
    and row_view: "view c' = view c \<Longrightarrow> row c' = row c"
begin

text \<open>Answers do not depend on what was asked before.\<close>

fun ask :: "int list \<Rightarrow> 'c \<Rightarrow> fault + int list \<times> 'c" where
  "ask [] c = Inr ([], c)"
| "ask (k # ks) c = bnd (query k c) (\<lambda>(i, c). bnd (ask ks c) (\<lambda>(is, c). Inr (i # is, c)))"

lemma ask_rows:
  "ok c \<Longrightarrow> 0 \<notin> set ks \<Longrightarrow> \<exists>c'. ask ks c = Inr (map (\<lambda>k. row_index (row c k)) ks, c') \<and> ok c' \<and> view c' = view c"
proof (induction ks arbitrary: c)
  case (Cons k ks)
  obtain c1 where 1: "query k c = Inr (row_index (row c k), c1)" "ok c1" "view c1 = view c" using query_row[of c k] Cons.prems by auto
  with Cons.IH[OF 1(2)] Cons.prems(2) show ?case using row_view[OF 1(3)] by auto
qed simp

end

interpretation dir: iface_directory "iface_ipa_index_query names" "cfg_ok names" "row_of names" cfg_view for names
proof unfold_locales
  fix c :: IPACM_Config and k :: int
  assume ok: "cfg_ok names c" and k: "k \<noteq> 0"
  let ?t = "iface_table c"
  have t: "take (ipa_num_ipa_interfaces c) ?t = ?t" "?t \<noteq> []" "\<not> length ?t < ipa_num_ipa_interfaces c" "\<not> iface_table_freed c"
    using ok by (auto simp: cfg_ok_def)
  have dis: "distinct (map (\<lambda>r. take IPA_IFACE_NAME_LEN (iface_name r)) ?t)" using ok by (simp add: cfg_ok_def)
  show "\<exists>c'. iface_ipa_index_query names k c = Inr (row_index (row_of names c k), c') \<and> cfg_ok names c' \<and> cfg_view c' = cfg_view c"
  proof (cases "find_slot (\<lambda>r. k = netlink_interface_index r) ?t")
    case (Some i)
    then have i: "i < length ?t" "netlink_interface_index (?t ! i) = k" by (auto simp: find_slot_Some_iff)
    then obtain nm where nm: "names k = Some nm" "same_name nm (iface_name (?t ! i))"
      using ok k nth_mem[OF i(1)] unfolding cfg_ok_def by metis
    then have "row_of names c k = Some i" using find_same_name[OF dis i(1)] by (simp add: row_of_def)
    then show ?thesis using Some ok t by (simp add: iface_ipa_index_query_def row_index_def)
  next
    case None
    show ?thesis
    proof (cases "row_of names c k")
      case None2: None
      then show ?thesis using None ok t
        by (auto simp: iface_ipa_index_query_def row_of_def row_index_def INVALID_IFACE_def Let_def simp del: find_slot_None_iff
            split: option.splits)
    next
      case (Some i)
      then obtain nm where nm: "names k = Some nm" "find_slot (\<lambda>r. same_name nm (iface_name r)) ?t = Some i"
        by (auto simp: row_of_def split: option.splits)
      then have i: "i < length ?t" "same_name nm (iface_name (?t ! i))" by (auto simp: find_slot_Some_iff)
      show ?thesis using None Some nm t cfg_ok_upd[OF ok i(1) nm(1) i(2)] cfg_view_upd[of c i k]
        by (simp add: iface_ipa_index_query_def row_index_def Let_def del: find_slot_None_iff)
    qed
  qed
next
  fix c c' :: IPACM_Config
  assume "cfg_view c' = cfg_view c"
  then show "row_of names c' = row_of names c" by (intro ext) (rule cfg_view_eq(5))
qed


text \<open>Interfaces that are in the table: the answer is a row that can be read.\<close>

definition known :: "(int \<Rightarrow> string option) \<Rightarrow> IPACM_Config \<Rightarrow> int \<Rightarrow> bool" where
  "known names c k \<longleftrightarrow> k \<noteq> 0 \<and> row_of names c k \<noteq> None"

lemma row_of_less: "row_of names c k = Some j \<Longrightarrow> j < length (iface_table c)"
  by (auto simp: row_of_def find_slot_Some_iff split: option.splits)

lemma known_row:
  assumes ok: "cfg_ok names c" and k: "known names c k"
  shows "\<exists>j c'. row_of names c k = Some j \<and> j < length (iface_table c) \<and> iface_ipa_index_query names k c = Inr (int j, c') \<and>
     cfg_ok names c' \<and> cfg_view c' = cfg_view c \<and> iface_row (int j) c' = Inr (iface_table c' ! j) \<and>
     iface_name (iface_table c' ! j) = iface_name (iface_table c ! j) \<and> if_cat (iface_table c' ! j) = if_cat (iface_table c ! j)"
proof -
  obtain j where j: "row_of names c k = Some j" and k0: "k \<noteq> 0" using k by (auto simp: known_def)
  obtain c' where c': "iface_ipa_index_query names k c = Inr (int j, c')" "cfg_ok names c'" "cfg_view c' = cfg_view c"
    using dir.query_row[OF ok k0] j by (auto simp: row_index_def)
  note e = cfg_view_eq[OF c'(3)]
  have l: "j < length (iface_table c)" using row_of_less[OF j] .
  have "iface_name (iface_table c' ! j) = iface_name (iface_table c ! j)" "if_cat (iface_table c' ! j) = if_cat (iface_table c ! j)"
    using arg_cong[OF e(2), of "\<lambda>xs. xs ! j"] arg_cong[OF e(3), of "\<lambda>xs. xs ! j"] l e(1) by auto
  moreover have "\<not> iface_table_freed c'" using c'(2) by (simp add: cfg_ok_def)
  ultimately show ?thesis using j c' l e(1) by (simp add: iface_row_def)
qed

text \<open>Only the table matters.\<close>

lemma cfg_ok_cong:
  assumes "map (\<lambda>r. (iface_name r, netlink_interface_index r)) (iface_table c') = map (\<lambda>r. (iface_name r, netlink_interface_index r)) (iface_table c)"
    and "ipa_num_ipa_interfaces c' = ipa_num_ipa_interfaces c" "iface_table_freed c' = iface_table_freed c"
  shows "cfg_ok names c' = cfg_ok names c" "row_of names c' k = row_of names c k"
proof -
  let ?f = "\<lambda>r. (iface_name r, netlink_interface_index r)"
  have a: "cfg_ok names c \<longleftrightarrow> \<not> iface_table_freed c \<and> map ?f (iface_table c) \<noteq> [] \<and> ipa_num_ipa_interfaces c = length (map ?f (iface_table c)) \<and>
      distinct (map (\<lambda>p. take IPA_IFACE_NAME_LEN (fst p)) (map ?f (iface_table c))) \<and>
      (\<forall>p \<in> set (map ?f (iface_table c)). snd p \<noteq> 0 \<longrightarrow> (\<exists>nm. names (snd p) = Some nm \<and> same_name nm (fst p)))" for c
    by (simp add: cfg_ok_def o_def)
  show "cfg_ok names c' = cfg_ok names c" unfolding a assms by (rule refl)
  have "find_slot (\<lambda>r. P (iface_name r)) xs = find_slot (\<lambda>p. P (fst p)) (map ?f xs)" for P and xs :: "ipa_ifi_dev_name_t list"
    by (induction xs) auto
  then show "row_of names c' k = row_of names c k" by (simp add: row_of_def assms split: option.split)
qed

end
