(* ===== verification/Ipacm_Neighbor.thy ===== *)
theory Ipacm_Neighbor
  imports Ipacm_Iface
begin

text \<open>
  The neighbour listener \<^verbatim>\<open>IPACM_Neighbor.cpp\<close>. The kernel reports clients behind the bridge on the bridge interface; the
  listener remembers on which interface it saw each MAC address, replaces the interface in such reports, and forwards them. It
  also remembers IPv4 addresses, to announce them again when a client comes back.
\<close>

section \<open>State\<close>

definition IPA_MAX_NUM_NEIGHBOR_CLIENTS :: nat where "IPA_MAX_NUM_NEIGHBOR_CLIENTS = 17"

type_synonym mac = "u8 list"

record ipa_neighbor_client =
  nb_mac_addr :: mac
  nb_iface_index :: int
  nb_v4_addr :: u32
  nb_ipa_if_num :: int

record IPACM_Neighbor =
  num_neighbor_client :: nat
  neighbor_client :: "ipa_neighbor_client list"

text \<open>The constructor sets the number of clients only (\<open>mem\<close> is what is in the array) and registers for three events.\<close>

definition Neighbor_new :: "ipa_neighbor_client list \<Rightarrow> IPACM_Neighbor" where
  "Neighbor_new mem = \<lparr>num_neighbor_client = 0, neighbor_client = mem\<rparr>"

definition IPACM_Neighbor_new :: "(nat \<Rightarrow> ptr) \<Rightarrow> listener \<Rightarrow> ipa_neighbor_client list \<Rightarrow> dispatcher \<Rightarrow> (fault + IPACM_Neighbor \<times> dispatcher) option" where
  "IPACM_Neighbor_new cell this mem d =
     obnd (registr_all cell 0 [IPA_WLAN_CLIENT_ADD_EVENT_EX, IPA_NEW_NEIGH_EVENT, IPA_DEL_NEIGH_EVENT] this d) (\<lambda>d. Some (Inr (Neighbor_new mem, d)))"

text \<open>\<^verbatim>\<open>ipacm_event_data_all\<close>\<close>

record neigh_data =
  nd_iptype :: ipa_ip_type
  nd_if_index :: int
  nd_ipv4_addr :: u32
  nd_ipv6_addr :: "u32 list"
  nd_mac_addr :: mac

type_synonym neigh_post = "ipa_cm_event_id \<times> neigh_data"

datatype neigh_event = WlanClientAddEx int "mac option list" | NeighEvent ipa_cm_event_id neigh_data

text \<open>What an event needs of the environment: the kernel's interface names, whether the allocation succeeds, and the contents of
  memory the code does not initialise (the rest of an allocated event, and the local MAC address).\<close>

record neigh_env =
  ne_names :: "int \<Rightarrow> string option"
  ne_mem :: bool
  ne_junk :: neigh_data
  ne_mac :: mac

section \<open>Operations\<close>

definition is_bridge :: "int \<Rightarrow> IPACM_Config \<Rightarrow> fault + bool" where
  "is_bridge i c = bnd (iface_row i c) (\<lambda>r. Inr (ipa_virtual_iface_name c = iface_name r))"

text \<open>Search for a MAC address among the clients seen so far.\<close>

definition find_client :: "mac \<Rightarrow> IPACM_Neighbor \<Rightarrow> nat option" where
  "find_client m s = find_slot (\<lambda>c. nb_mac_addr c = m) (take (num_neighbor_client s) (neighbor_client s))"

definition upd_client :: "nat \<Rightarrow> (ipa_neighbor_client \<Rightarrow> ipa_neighbor_client) \<Rightarrow> IPACM_Neighbor \<Rightarrow> IPACM_Neighbor" where
  "upd_client i f s = s\<lparr>neighbor_client := (neighbor_client s)[i := f (neighbor_client s ! i)]\<rparr>"

definition add_client :: "ipa_neighbor_client \<Rightarrow> IPACM_Neighbor \<Rightarrow> fault + IPACM_Neighbor" where
  "add_client cl s =
     (let n = num_neighbor_client s
      in if n < IPA_MAX_NUM_NEIGHBOR_CLIENTS
         then if n < length (neighbor_client s)
              then Inr (s\<lparr>neighbor_client := (neighbor_client s)[n := cl], num_neighbor_client := n + 1\<rparr>)
              else Inl OutOfBounds
         else Inr s)"

text \<open>After posting, the code looks the interface of the posted event up again and prints its name.\<close>

definition log_iface :: "neigh_env \<Rightarrow> int \<Rightarrow> IPACM_Config \<Rightarrow> fault + IPACM_Config" where
  "log_iface env k c = bnd (iface_ipa_index_query (ne_names env) k c) (\<lambda>(i, c). bnd (iface_row i c) (\<lambda>r. Inr c))"

text \<open>A client that was seen before is back on an interface other than the bridge.\<close>

definition client_back :: "neigh_env \<Rightarrow> nat \<Rightarrow> int \<Rightarrow> int \<Rightarrow> IPACM_Config \<times> IPACM_Neighbor \<Rightarrow>
    fault + neigh_post list \<times> IPACM_Config \<times> IPACM_Neighbor" where
  "client_back env i if_index ipa_interface_index st =
     (case st of (c, s) \<Rightarrow>
      bnd (is_bridge ipa_interface_index c) (\<lambda>b.
      if b then Inr ([], c, s)
      else let s = (if if_index \<noteq> nb_iface_index (neighbor_client s ! i) then upd_client i (\<lambda>cl. cl\<lparr>nb_iface_index := if_index\<rparr>) s else s);
               cl = neighbor_client s ! i
           in if ipa_interface_index \<noteq> nb_ipa_if_num cl then Inr ([], c, s)
              else if nb_v4_addr cl \<noteq> 0
              then if \<not> ne_mem env then Inr ([], c, s)
                   else let dat = (ne_junk env)\<lparr>nd_iptype := IPA_IP_v4, nd_if_index := nb_iface_index cl, nd_ipv4_addr := nb_v4_addr cl,
                              nd_mac_addr := nb_mac_addr cl\<rparr>
                        in bnd (log_iface env (nd_if_index dat) c) (\<lambda>c. Inr ([(IPA_NEIGH_CLIENT_IP_ADDR_ADD_EVENT, dat)], c, s))
              else Inr ([], c, s)))"

definition wlan_client_add_ex :: "neigh_env \<Rightarrow> int \<Rightarrow> mac option list \<Rightarrow> IPACM_Config \<times> IPACM_Neighbor \<Rightarrow>
    fault + neigh_post list \<times> IPACM_Config \<times> IPACM_Neighbor" where
  "wlan_client_add_ex env if_index attribs st =
     (case st of (c, s) \<Rightarrow>
      bnd (iface_ipa_index_query (ne_names env) if_index c) (\<lambda>(ipa_interface_index, c).
      let client_mac_addr = fold (\<lambda>a m. case a of Some x \<Rightarrow> x | None \<Rightarrow> m) attribs (ne_mac env)
      in case find_client client_mac_addr s of
           None \<Rightarrow> Inr ([], c, s)
         | Some i \<Rightarrow> client_back env i if_index ipa_interface_index (c, s)))"

definition client_event :: "ipa_cm_event_id \<Rightarrow> ipa_cm_event_id" where
  "client_event ev = (if ev = IPA_NEW_NEIGH_EVENT then IPA_NEIGH_CLIENT_IP_ADDR_ADD_EVENT else IPA_NEIGH_CLIENT_IP_ADDR_DEL_EVENT)"

text \<open>An event with an address on the bridge: \<open>v4\<close> says whether the address is cached.\<close>

definition neigh_bridge :: "neigh_env \<Rightarrow> bool \<Rightarrow> ipa_cm_event_id \<Rightarrow> neigh_data \<Rightarrow> IPACM_Config \<times> IPACM_Neighbor \<Rightarrow>
    fault + neigh_post list \<times> neigh_data \<times> IPACM_Config \<times> IPACM_Neighbor" where
  "neigh_bridge env v4 ev dat st =
     (case st of (c, s) \<Rightarrow>
      (case find_client (nd_mac_addr dat) s of
         None \<Rightarrow> Inr ([], dat, c, s)
       | Some i \<Rightarrow>
           let dat = dat\<lparr>nd_if_index := nb_iface_index (neighbor_client s ! i)\<rparr>;
               s = (if v4 then upd_client i (\<lambda>cl. cl\<lparr>nb_v4_addr := nd_ipv4_addr dat\<rparr>) s else s)
           in if \<not> ne_mem env then Inr ([], dat, c, s)
              else bnd (log_iface env (nd_if_index dat) c) (\<lambda>c. Inr ([(client_event ev, dat)], dat, c, s))))"

text \<open>An IPv4 address on another interface is forwarded and cached.\<close>

definition neigh_v4 :: "neigh_env \<Rightarrow> ipa_cm_event_id \<Rightarrow> neigh_data \<Rightarrow> int \<Rightarrow> IPACM_Neighbor \<Rightarrow> fault + neigh_post list \<times> IPACM_Neighbor" where
  "neigh_v4 env ev dat ipa_interface_index s =
     (if \<not> ne_mem env then Inr ([], s)
      else let cl = \<lparr>nb_mac_addr = nd_mac_addr dat, nb_iface_index = nd_if_index dat, nb_v4_addr = nd_ipv4_addr dat,
                     nb_ipa_if_num = ipa_interface_index\<rparr>
      in case find_client (nd_mac_addr dat) s of
           Some i \<Rightarrow> Inr ([(client_event ev, dat)], upd_client i (\<lambda>old. cl\<lparr>nb_mac_addr := nb_mac_addr old\<rparr>) s)
         | None \<Rightarrow> bnd (add_client cl s) (\<lambda>s. Inr ([(client_event ev, dat)], s)))"

text \<open>An event without an address.\<close>

definition neigh_no_addr :: "neigh_env \<Rightarrow> neigh_data \<Rightarrow> int \<Rightarrow> IPACM_Config \<times> IPACM_Neighbor \<Rightarrow>
    fault + neigh_post list \<times> IPACM_Config \<times> IPACM_Neighbor" where
  "neigh_no_addr env dat ipa_interface_index st =
     (case st of (c, s) \<Rightarrow>
      (case find_client (nd_mac_addr dat) s of
         Some i \<Rightarrow> client_back env i (nd_if_index dat) ipa_interface_index (c, s)
       | None \<Rightarrow> bnd (is_bridge ipa_interface_index c) (\<lambda>b.
           if b then Inr ([], c, s)
           else bnd (add_client \<lparr>nb_mac_addr = nd_mac_addr dat, nb_iface_index = nd_if_index dat, nb_v4_addr = 0,
                       nb_ipa_if_num = ipa_interface_index\<rparr> s) (\<lambda>s. Inr ([], c, s)))))"

text \<open>The default branch of \<^verbatim>\<open>event_callback\<close>; the event's own data may be changed.\<close>

definition neigh_evt :: "neigh_env \<Rightarrow> ipa_cm_event_id \<Rightarrow> neigh_data \<Rightarrow> IPACM_Config \<times> IPACM_Neighbor \<Rightarrow>
    fault + neigh_post list \<times> neigh_data \<times> IPACM_Config \<times> IPACM_Neighbor" where
  "neigh_evt env ev dat st =
     (case st of (c, s) \<Rightarrow>
      bnd (iface_ipa_index_query (ne_names env) (nd_if_index dat) c) (\<lambda>(ipa_interface_index, c).
      if nd_iptype dat = IPA_IP_v4
      then if nd_ipv4_addr dat = 0 then Inr ([], dat, c, s)
           else bnd (is_bridge ipa_interface_index c) (\<lambda>b.
             if b then neigh_bridge env True ev dat (c, s)
             else bnd (neigh_v4 env ev dat ipa_interface_index s) (\<lambda>(ps, s). Inr (ps, dat, c, s)))
      else if list_ex (\<lambda>w. w \<noteq> 0) (nd_ipv6_addr dat)
      then bnd (is_bridge ipa_interface_index c) (\<lambda>b.
             if b then neigh_bridge env False ev dat (c, s)
             else if ne_mem env then Inr ([(client_event ev, dat)], dat, c, s) else Inr ([], dat, c, s))
      else bnd (neigh_no_addr env dat ipa_interface_index (c, s)) (\<lambda>(ps, c, s). Inr (ps, dat, c, s))))"

definition Neighbor_event_callback :: "neigh_env \<Rightarrow> neigh_event \<Rightarrow> IPACM_Config \<times> IPACM_Neighbor \<Rightarrow>
    fault + neigh_post list \<times> IPACM_Config \<times> IPACM_Neighbor" where
  "Neighbor_event_callback env e st =
     (case e of
        WlanClientAddEx if_index attribs \<Rightarrow> wlan_client_add_ex env if_index attribs st
      | NeighEvent ev dat \<Rightarrow> bnd (neigh_evt env ev dat st) (\<lambda>(ps, dat, c, s). Inr (ps, c, s)))"


section \<open>The cache of clients\<close>

definition nb_inv :: "IPACM_Neighbor \<Rightarrow> bool" where
  "nb_inv s \<longleftrightarrow> length (neighbor_client s) = IPA_MAX_NUM_NEIGHBOR_CLIENTS \<and> num_neighbor_client s \<le> IPA_MAX_NUM_NEIGHBOR_CLIENTS \<and>
     distinct (map nb_mac_addr (take (num_neighbor_client s) (neighbor_client s)))"

definition seen :: "IPACM_Neighbor \<Rightarrow> mac \<rightharpoonup> ipa_neighbor_client" where
  "seen s m = map_option (\<lambda>i. neighbor_client s ! i) (find_client m s)"

lemma find_client_Some:
  assumes "find_client m s = Some i"
  shows "i < num_neighbor_client s" "i < length (neighbor_client s)" "nb_mac_addr (neighbor_client s ! i) = m"
    "seen s m = Some (neighbor_client s ! i)"
  using assms by (auto simp: find_client_def seen_def find_slot_Some_iff)

lemma find_client_index:
  assumes "nb_inv s" "i < num_neighbor_client s"
  shows "find_client (nb_mac_addr (neighbor_client s ! i)) s = Some i"
proof -
  let ?t = "take (num_neighbor_client s) (neighbor_client s)"
  have d: "distinct (map nb_mac_addr ?t)" and i: "i < length ?t" using assms by (auto simp: nb_inv_def)
  have "nb_mac_addr (?t ! j) \<noteq> nb_mac_addr (?t ! i)" if "j < i" for j using nth_eq_iff_index_eq[OF d, of j i] i that by simp
  then show ?thesis using i assms(2) unfolding find_client_def find_slot_Some_iff by simp
qed

text \<open>The cache as a map: changing a client that was seen, and adding one.\<close>

lemma upd_client_map:
  assumes inv: "nb_inv s" and i: "find_client m s = Some i" and f: "\<And>cl. nb_mac_addr (f cl) = nb_mac_addr cl"
  shows "nb_inv (upd_client i f s)" "seen (upd_client i f s) = (seen s)(m \<mapsto> f (neighbor_client s ! i))"
    "find_client m' (upd_client i f s) = find_client m' s" "num_neighbor_client (upd_client i f s) = num_neighbor_client s"
proof -
  note I = find_client_Some[OF i]
  let ?n = "num_neighbor_client s" and ?a = "neighbor_client s"
  have t: "map nb_mac_addr (take ?n (?a[i := f (?a ! i)])) = map nb_mac_addr (take ?n ?a)"
    using I(2) by (intro nth_equalityI) (auto simp: nth_list_update f)
  then show "nb_inv (upd_client i f s)" using inv by (simp add: nb_inv_def upd_client_def)
  have fs: "find_slot (\<lambda>c. nb_mac_addr c = x) xs = find_slot (\<lambda>y. y = x) (map nb_mac_addr xs)" for x xs by (induction xs) auto
  show fc: "find_client m' (upd_client i f s) = find_client m' s" for m'
    using t unfolding find_client_def fs by (simp add: upd_client_def)
  show "num_neighbor_client (upd_client i f s) = num_neighbor_client s" by (simp add: upd_client_def)
  show "seen (upd_client i f s) = (seen s)(m \<mapsto> f (?a ! i))"
  proof
    fix x
    show "seen (upd_client i f s) x = ((seen s)(m \<mapsto> f (?a ! i))) x"
    proof (cases "find_client x s")
      case None
      then show ?thesis using fc[of x] i by (auto simp: seen_def)
    next
      case (Some j)
      have "j = i \<longleftrightarrow> x = m" using find_client_Some(3) Some i by (metis option.inject)
      then show ?thesis using Some fc[of x] I(2) by (cases "j = i") (simp_all add: seen_def upd_client_def)
    qed
  qed
qed

lemma seen_mac: "seen s m = Some cl \<Longrightarrow> nb_mac_addr cl = m"
  using find_client_Some(3) by (auto simp: seen_def)

lemma seen_dom: "dom (seen s) = set (map nb_mac_addr (take (num_neighbor_client s) (neighbor_client s)))" (is "_ = set (map _ ?t)")
proof (intro set_eqI iffI)
  fix m assume "m \<in> dom (seen s)"
  then obtain i where "find_client m s = Some i" by (auto simp: seen_def)
  then have "i < length ?t" "nb_mac_addr (?t ! i) = m" by (auto simp: find_client_def find_slot_Some_iff)
  then show "m \<in> set (map nb_mac_addr ?t)" using nth_mem[of i ?t] by auto
next
  fix m assume "m \<in> set (map nb_mac_addr ?t)"
  then obtain x where "x \<in> set ?t" "nb_mac_addr x = m" by auto
  then obtain i where "find_client m s = Some i" using find_slot_ex[of x ?t "\<lambda>c. nb_mac_addr c = m"] by (auto simp: find_client_def)
  then show "m \<in> dom (seen s)" by (auto simp: seen_def)
qed

lemma seen_card:
  assumes "nb_inv s"
  shows "card (dom (seen s)) = num_neighbor_client s" "finite (dom (seen s))"
  using assms distinct_card[of "map nb_mac_addr (take (num_neighbor_client s) (neighbor_client s))"]
  unfolding seen_dom by (simp_all add: nb_inv_def min_def)

lemma add_client_map:
  assumes inv: "nb_inv s" and m: "find_client (nb_mac_addr cl) s = None"
  shows "\<exists>s'. add_client cl s = Inr s' \<and> nb_inv s' \<and>
     seen s' = (if card (dom (seen s)) < IPA_MAX_NUM_NEIGHBOR_CLIENTS then (seen s)(nb_mac_addr cl \<mapsto> cl) else seen s)"
proof (cases "num_neighbor_client s < IPA_MAX_NUM_NEIGHBOR_CLIENTS")
  case True
  let ?n = "num_neighbor_client s" and ?a = "neighbor_client s"
  let ?s = "s\<lparr>neighbor_client := ?a[?n := cl], num_neighbor_client := ?n + 1\<rparr>"
  have n: "?n < length ?a" using inv True by (simp add: nb_inv_def)
  have t: "take (Suc ?n) (?a[?n := cl]) = take ?n ?a @ [cl]" using n by (simp add: take_Suc_conv_app_nth)
  have nm: "nb_mac_addr cl \<notin> set (map nb_mac_addr (take ?n ?a))" using m by (auto simp: find_client_def)
  have i: "nb_inv ?s" using inv True t nm by (simp add: nb_inv_def)
  have "seen ?s = (seen s)(nb_mac_addr cl \<mapsto> cl)"
  proof
    fix x
    have f: "find_slot P (xs @ [y]) = (case find_slot P xs of Some i \<Rightarrow> Some i | None \<Rightarrow> if P y then Some (length xs) else None)" for P xs and y :: 'b
    proof (induction xs)
      case (Cons a xs)
      then show ?case by (cases "find_slot P xs") (simp_all del: find_slot_None_iff)
    qed simp
    show "seen ?s x = ((seen s)(nb_mac_addr cl \<mapsto> cl)) x"
    proof (cases "find_client x s")
      case None
      then show ?thesis using t n f[of "\<lambda>c. nb_mac_addr c = x" "take ?n ?a" cl] by (auto simp: seen_def find_client_def simp del: find_slot_None_iff)
    next
      case (Some j)
      then have "find_client x ?s = Some j" using t f[of "\<lambda>c. nb_mac_addr c = x" "take ?n ?a" cl] by (simp add: find_client_def)
      moreover have "x \<noteq> nb_mac_addr cl" using Some m by auto
      ultimately show ?thesis using Some find_client_Some(1)[OF Some] by (simp add: seen_def)
    qed
  qed
  then show ?thesis using True n i seen_card(1)[OF inv] by (simp add: add_client_def Let_def)
qed (use inv seen_card(1)[OF inv] in \<open>simp add: add_client_def\<close>)


section \<open>Where clients are\<close>

text \<open>The reference: the interface each MAC address was last reported on, other than the bridge, as long as there is room.\<close>

definition put_loc :: "mac \<Rightarrow> int \<Rightarrow> (mac \<rightharpoonup> int) \<Rightarrow> (mac \<rightharpoonup> int)" where
  "put_loc m k locs = (if locs m = None \<and> IPA_MAX_NUM_NEIGHBOR_CLIENTS \<le> card (dom locs) then locs else locs(m \<mapsto> k))"

definition has_addr :: "neigh_data \<Rightarrow> bool" where
  "has_addr dat \<longleftrightarrow> (if nd_iptype dat = IPA_IP_v4 then nd_ipv4_addr dat \<noteq> 0 else list_ex (\<lambda>w. w \<noteq> 0) (nd_ipv6_addr dat))"

definition on_bridge :: "(int \<Rightarrow> string option) \<Rightarrow> IPACM_Config \<Rightarrow> int \<Rightarrow> bool" where
  "on_bridge names c k \<longleftrightarrow> (\<exists>i. row_of names c k = Some i \<and> iface_name (iface_table c ! i) = ipa_virtual_iface_name c)"

fun locate :: "(int \<Rightarrow> bool) \<Rightarrow> neigh_env \<times> neigh_event \<Rightarrow> (mac \<rightharpoonup> int) \<Rightarrow> (mac \<rightharpoonup> int)" where
  "locate br (env, NeighEvent ev dat) locs =
     (if br (nd_if_index dat) then locs
      else if has_addr dat then (if nd_iptype dat = IPA_IP_v4 \<and> ne_mem env then put_loc (nd_mac_addr dat) (nd_if_index dat) locs else locs)
      else if nd_iptype dat = IPA_IP_v4 then locs
      else put_loc (nd_mac_addr dat) (nd_if_index dat) locs)"
| "locate br (env, WlanClientAddEx k attribs) locs =
     (let m = fold (\<lambda>a m. case a of Some x \<Rightarrow> x | None \<Rightarrow> m) attribs (ne_mac env)
      in if br k \<or> locs m = None then locs else locs(m \<mapsto> k))"

fun event_iface :: "neigh_event \<Rightarrow> int" where
  "event_iface (NeighEvent ev dat) = nd_if_index dat"
| "event_iface (WlanClientAddEx k attribs) = k"

definition nb_rel :: "(int \<Rightarrow> string option) \<Rightarrow> IPACM_Config \<Rightarrow> (mac \<rightharpoonup> int) \<Rightarrow> IPACM_Config \<times> IPACM_Neighbor \<Rightarrow> bool" where
  "nb_rel names c0 locs st \<longleftrightarrow> cfg_ok names (fst st) \<and> cfg_view (fst st) = cfg_view c0 \<and> nb_inv (snd st) \<and>
     (\<lambda>m. map_option nb_iface_index (seen (snd st) m)) = locs \<and> (\<forall>k \<in> ran locs. known names c0 k)"

lemma known_query:
  assumes ok: "cfg_ok names c" "cfg_view c = cfg_view c0" and k: "known names c0 k"
  shows "\<exists>i c'. iface_ipa_index_query names k c = Inr (i, c') \<and> cfg_ok names c' \<and> cfg_view c' = cfg_view c0 \<and>
     is_bridge i c' = Inr (on_bridge names c0 k) \<and> (\<exists>r. iface_row i c' = Inr r)"
proof -
  have "known names c k" using k cfg_view_eq(5)[OF ok(2)] by (simp add: known_def)
  then obtain j c' where c': "row_of names c k = Some j" "iface_ipa_index_query names k c = Inr (int j, c')" "cfg_ok names c'"
    "cfg_view c' = cfg_view c" "iface_row (int j) c' = Inr (iface_table c' ! j)" "iface_name (iface_table c' ! j) = iface_name (iface_table c ! j)"
    "j < length (iface_table c)"
    using known_row[OF ok(1)] by blast
  note e = cfg_view_eq[OF ok(2)]
  have "iface_name (iface_table c ! j) = iface_name (iface_table c0 ! j)" using arg_cong[OF e(2), of "\<lambda>xs. xs ! j"] c'(7) e(1) by simp
  then show ?thesis using c' e(4,5) ok(2) cfg_view_eq(4)[OF c'(4)] by (auto simp: is_bridge_def on_bridge_def)
qed

lemma log_iface_ok:
  assumes "cfg_ok names c" "cfg_view c = cfg_view c0" "known names c0 k" "ne_names env = names"
  shows "\<exists>c'. log_iface env k c = Inr c' \<and> cfg_ok names c' \<and> cfg_view c' = cfg_view c0"
  using known_query[OF assms(1-3)] assms(4) by (auto simp: log_iface_def)

text \<open>Updates of the cache against updates of the reference.\<close>

lemma rel_upd:
  assumes r: "nb_rel names c0 locs (c, s)" and i: "find_client m s = Some i" and f: "\<And>cl. nb_mac_addr (f cl) = nb_mac_addr cl"
    and k: "nb_iface_index (f (neighbor_client s ! i)) = k" "known names c0 k"
  shows "nb_rel names c0 (locs(m \<mapsto> k)) (c, upd_client i f s)"
proof -
  have inv: "nb_inv s" using r by (simp add: nb_rel_def)
  note u = upd_client_map[OF inv i f]
  have "(\<lambda>x. map_option nb_iface_index (seen (upd_client i f s) x)) = locs(m \<mapsto> k)"
    using r k(1) unfolding u(2) nb_rel_def by (auto simp: fun_eq_iff)
  moreover have "ran (locs(m \<mapsto> k)) \<subseteq> insert k (ran locs)" by (auto simp: ran_def)
  ultimately show ?thesis using r u(1) k(2) unfolding nb_rel_def by auto
qed

lemma rel_add:
  assumes r: "nb_rel names c0 locs (c, s)" and n: "find_client (nb_mac_addr cl) s = None" and k: "known names c0 (nb_iface_index cl)"
  shows "\<exists>s'. add_client cl s = Inr s' \<and> nb_rel names c0 (put_loc (nb_mac_addr cl) (nb_iface_index cl) locs) (c, s')"
proof -
  have inv: "nb_inv s" using r by (simp add: nb_rel_def)
  have l: "locs = (\<lambda>m. map_option nb_iface_index (seen s m))" using r by (auto simp: nb_rel_def)
  have d: "dom locs = dom (seen s)" by (auto simp: l)
  have none: "locs (nb_mac_addr cl) = None" using n by (simp add: l seen_def)
  obtain s' where s': "add_client cl s = Inr s'" "nb_inv s'"
    "seen s' = (if card (dom (seen s)) < IPA_MAX_NUM_NEIGHBOR_CLIENTS then (seen s)(nb_mac_addr cl \<mapsto> cl) else seen s)"
    using add_client_map[OF inv n] by blast
  have "(\<lambda>m. map_option nb_iface_index (seen s' m)) = put_loc (nb_mac_addr cl) (nb_iface_index cl) locs"
    using none d[unfolded l] by (auto simp: put_loc_def s'(3) l fun_eq_iff)
  moreover have "ran (put_loc (nb_mac_addr cl) (nb_iface_index cl) locs) \<subseteq> insert (nb_iface_index cl) (ran locs)"
    by (auto simp: ran_def put_loc_def)
  ultimately show ?thesis using r s' k unfolding nb_rel_def by auto
qed

lemma rel_found:
  assumes r: "nb_rel names c0 locs (c, s)" and i: "find_client m s = Some i"
  shows "locs m = Some (nb_iface_index (neighbor_client s ! i))" "known names c0 (nb_iface_index (neighbor_client s ! i))"
proof -
  show l: "locs m = Some (nb_iface_index (neighbor_client s ! i))" using r i by (auto simp: nb_rel_def seen_def)
  then show "known names c0 (nb_iface_index (neighbor_client s ! i))" using r ranI[of locs m] unfolding nb_rel_def by blast
qed

lemma rel_none: "nb_rel names c0 locs (c, s) \<Longrightarrow> find_client m s = None \<longleftrightarrow> locs m = None"
  by (auto simp: nb_rel_def seen_def)


section \<open>Every event\<close>

lemma client_back_rel:
  assumes r: "nb_rel names c0 locs (c, s)" and e: "ne_names env = names" and i: "find_client m s = Some i"
    and b: "is_bridge idx c = Inr br" and k: "known names c0 k"
  shows "\<exists>ps c' s'. client_back env i k idx (c, s) = Inr (ps, c', s') \<and> nb_rel names c0 (if br then locs else locs(m \<mapsto> k)) (c', s')"
proof (cases br)
  case True
  then show ?thesis using r b by (simp add: client_back_def)
next
  case False
  define s1 where "s1 = (if k \<noteq> nb_iface_index (neighbor_client s ! i) then upd_client i (\<lambda>cl. cl\<lparr>nb_iface_index := k\<rparr>) s else s)"
  have r1: "nb_rel names c0 (locs(m \<mapsto> k)) (c, s1)"
  proof (cases "k = nb_iface_index (neighbor_client s ! i)")
    case True
    then have "locs(m \<mapsto> k) = locs" using rel_found(1)[OF r i] by (simp add: fun_upd_idem)
    then show ?thesis using r True by (simp add: s1_def)
  qed (use rel_upd[OF r i, of "\<lambda>cl. cl\<lparr>nb_iface_index := k\<rparr>" k] k in \<open>simp add: s1_def\<close>)
  have i1: "find_client m s1 = Some i"
    using upd_client_map(3)[OF _ i, of "\<lambda>cl. cl\<lparr>nb_iface_index := k\<rparr>"] r i by (simp add: s1_def nb_rel_def)
  have cf: "cfg_ok names c" "cfg_view c = cfg_view c0" using r by (auto simp: nb_rel_def)
  obtain c' where c': "log_iface env (nb_iface_index (neighbor_client s1 ! i)) c = Inr c'" "cfg_ok names c'" "cfg_view c' = cfg_view c0"
    using log_iface_ok[OF cf rel_found(2)[OF r1 i1] e] by blast
  have "nb_rel names c0 (locs(m \<mapsto> k)) (c', s1)" using r1 c'(2,3) by (simp add: nb_rel_def)
  then show ?thesis using r1 False b c'(1) by (simp add: client_back_def Let_def s1_def[symmetric])
qed

lemma neigh_bridge_rel:
  assumes r: "nb_rel names c0 locs (c, s)" and e: "ne_names env = names"
  shows "\<exists>ps dat' c' s'. neigh_bridge env v4 ev dat (c, s) = Inr (ps, dat', c', s') \<and> nb_rel names c0 locs (c', s') \<and>
     (ne_mem env \<longrightarrow> ps = (case locs (nd_mac_addr dat) of None \<Rightarrow> [] | Some j \<Rightarrow> [(client_event ev, dat\<lparr>nd_if_index := j\<rparr>)]))"
proof (cases "find_client (nd_mac_addr dat) s")
  case None
  then have "locs (nd_mac_addr dat) = None" using rel_none[OF r, of "nd_mac_addr dat"] by simp
  then show ?thesis using None r by (simp add: neigh_bridge_def del: find_slot_None_iff)
next
  case (Some i)
  let ?j = "nb_iface_index (neighbor_client s ! i)"
  note f = rel_found[OF r Some]
  define s1 where "s1 = (if v4 then upd_client i (\<lambda>cl. cl\<lparr>nb_v4_addr := nd_ipv4_addr dat\<rparr>) s else s)"
  have "locs(nd_mac_addr dat \<mapsto> ?j) = locs" using f(1) by (simp add: fun_upd_idem)
  then have r1: "nb_rel names c0 locs (c, s1)"
    using r rel_upd[OF r Some, of "\<lambda>cl. cl\<lparr>nb_v4_addr := nd_ipv4_addr dat\<rparr>" ?j] f(2) by (simp add: s1_def)
  have cf: "cfg_ok names c" "cfg_view c = cfg_view c0" using r by (auto simp: nb_rel_def)
  obtain c' where c': "log_iface env ?j c = Inr c'" "cfg_ok names c'" "cfg_view c' = cfg_view c0" using log_iface_ok[OF cf f(2) e] by blast
  have "nb_rel names c0 locs (c', s1)" using r1 c'(2,3) by (simp add: nb_rel_def)
  then show ?thesis using Some r1 c'(1) f(1) by (cases v4) (simp_all add: neigh_bridge_def Let_def s1_def)
qed

lemma put_loc_found: "locs m = Some j \<Longrightarrow> put_loc m k locs = locs(m \<mapsto> k)"
  by (simp add: put_loc_def)

lemma neigh_v4_rel:
  assumes r: "nb_rel names c0 locs (c, s)" and k: "known names c0 (nd_if_index dat)"
  shows "\<exists>ps s'. neigh_v4 env ev dat idx s = Inr (ps, s') \<and>
     nb_rel names c0 (if ne_mem env then put_loc (nd_mac_addr dat) (nd_if_index dat) locs else locs) (c, s')"
proof (cases "ne_mem env")
  case True
  let ?cl = "\<lparr>nb_mac_addr = nd_mac_addr dat, nb_iface_index = nd_if_index dat, nb_v4_addr = nd_ipv4_addr dat, nb_ipa_if_num = idx\<rparr>"
  show ?thesis
  proof (cases "find_client (nd_mac_addr dat) s")
    case None
    then show ?thesis using rel_add[OF r, of ?cl] k True by (auto simp: neigh_v4_def)
  next
    case (Some i)
    have "nb_rel names c0 (put_loc (nd_mac_addr dat) (nd_if_index dat) locs) (c, upd_client i (\<lambda>old. ?cl\<lparr>nb_mac_addr := nb_mac_addr old\<rparr>) s)"
      using rel_upd[OF r Some, of "\<lambda>old. ?cl\<lparr>nb_mac_addr := nb_mac_addr old\<rparr>" "nd_if_index dat"] k put_loc_found[of locs "nd_mac_addr dat", OF rel_found(1)[OF r Some]] by simp
    then show ?thesis using Some True by (simp add: neigh_v4_def)
  qed
qed (use r in \<open>simp add: neigh_v4_def\<close>)

lemma neigh_no_addr_rel:
  assumes r: "nb_rel names c0 locs (c, s)" and e: "ne_names env = names" and b: "is_bridge idx c = Inr br"
    and k: "known names c0 (nd_if_index dat)"
  shows "\<exists>ps c' s'. neigh_no_addr env dat idx (c, s) = Inr (ps, c', s') \<and>
     nb_rel names c0 (if br then locs else put_loc (nd_mac_addr dat) (nd_if_index dat) locs) (c', s')"
proof (cases "find_client (nd_mac_addr dat) s")
  case (Some i)
  then show ?thesis using client_back_rel[OF r e Some b k] put_loc_found[of locs "nd_mac_addr dat", OF rel_found(1)[OF r Some]]
    by (cases br) (simp_all add: neigh_no_addr_def)
next
  case None
  then show ?thesis using r b k
      rel_add[OF r, of "\<lparr>nb_mac_addr = nd_mac_addr dat, nb_iface_index = nd_if_index dat, nb_v4_addr = 0, nb_ipa_if_num = idx\<rparr>"]
    by (auto simp: neigh_no_addr_def)
qed

text \<open>An event that names an interface of the table is handled without a fault, and keeps cache and reference together.\<close>

lemma neigh_evt_rel:
  assumes r: "nb_rel names c0 locs (c, s)" and e: "ne_names env = names" and k: "known names c0 (nd_if_index dat)"
  shows "\<exists>ps dat' c' s'. neigh_evt env ev dat (c, s) = Inr (ps, dat', c', s') \<and>
     nb_rel names c0 (locate (on_bridge names c0) (env, NeighEvent ev dat) locs) (c', s') \<and>
     (on_bridge names c0 (nd_if_index dat) \<and> has_addr dat \<and> ne_mem env \<longrightarrow>
        ps = (case locs (nd_mac_addr dat) of None \<Rightarrow> [] | Some j \<Rightarrow> [(client_event ev, dat\<lparr>nd_if_index := j\<rparr>)]))"
proof -
  have cf: "cfg_ok names c" "cfg_view c = cfg_view c0" using r by (auto simp: nb_rel_def)
  obtain idx c1 where q: "iface_ipa_index_query names (nd_if_index dat) c = Inr (idx, c1)" "cfg_ok names c1" "cfg_view c1 = cfg_view c0"
    "is_bridge idx c1 = Inr (on_bridge names c0 (nd_if_index dat))" using known_query[OF cf k] by blast
  have r1: "nb_rel names c0 locs (c1, s)" using r q by (simp add: nb_rel_def)
  note start = neigh_evt_def prod.case e q(1) bnd_simps
  let ?m = "nd_mac_addr dat" and ?br = "on_bridge names c0 (nd_if_index dat)"
  consider (v4zero) "nd_iptype dat = IPA_IP_v4" "nd_ipv4_addr dat = 0" | (bridge) "has_addr dat" ?br
    | (v4) "nd_iptype dat = IPA_IP_v4" "nd_ipv4_addr dat \<noteq> 0" "\<not> ?br"
    | (v6) "nd_iptype dat \<noteq> IPA_IP_v4" "list_ex (\<lambda>w. w \<noteq> 0) (nd_ipv6_addr dat)" "\<not> ?br"
    | (none) "nd_iptype dat \<noteq> IPA_IP_v4" "\<not> list_ex (\<lambda>w. w \<noteq> 0) (nd_ipv6_addr dat)"
    unfolding has_addr_def by metis
  then show ?thesis
  proof cases
    case v4zero
    then show ?thesis unfolding start using r1 by (simp add: has_addr_def)
  next
    case bridge
    have "\<exists>ps dat' c' s'. neigh_bridge env (nd_iptype dat = IPA_IP_v4) ev dat (c1, s) = Inr (ps, dat', c', s') \<and> nb_rel names c0 locs (c', s') \<and>
       (ne_mem env \<longrightarrow> ps = (case locs ?m of None \<Rightarrow> [] | Some j \<Rightarrow> [(client_event ev, dat\<lparr>nd_if_index := j\<rparr>)]))"
      by (rule neigh_bridge_rel[OF r1 e])
    then show ?thesis unfolding start using bridge q(4) by (auto simp: has_addr_def)
  next
    case v4
    let ?cl = "\<lparr>nb_mac_addr = ?m, nb_iface_index = nd_if_index dat, nb_v4_addr = nd_ipv4_addr dat, nb_ipa_if_num = idx\<rparr>"
    have "\<exists>ps s'. neigh_v4 env ev dat idx s = Inr (ps, s') \<and>
       nb_rel names c0 (if ne_mem env then put_loc ?m (nd_if_index dat) locs else locs) (c1, s')"
      by (rule neigh_v4_rel[OF r1 k])
    then show ?thesis unfolding start using v4 q(4) by (auto simp: has_addr_def)
  next
    case v6
    then show ?thesis unfolding start using q(4) r1 by (cases "ne_mem env") (simp_all add: has_addr_def)
  next
    case none
    have "\<exists>ps c' s'. neigh_no_addr env dat idx (c1, s) = Inr (ps, c', s') \<and>
       nb_rel names c0 (if ?br then locs else put_loc ?m (nd_if_index dat) locs) (c', s')"
      by (rule neigh_no_addr_rel[OF r1 e q(4) k])
    then show ?thesis unfolding start using none by (auto simp: has_addr_def)
  qed
qed


lemma Neighbor_event_callback_rel:
  assumes r: "nb_rel names c0 locs (c, s)" and e: "ne_names env = names" and k: "known names c0 (event_iface nev)"
  shows "\<exists>ps c' s'. Neighbor_event_callback env nev (c, s) = Inr (ps, c', s') \<and>
     nb_rel names c0 (locate (on_bridge names c0) (env, nev) locs) (c', s')"
proof (cases nev)
  case (NeighEvent ev dat)
  then have "known names c0 (nd_if_index dat)" using k by simp
  from neigh_evt_rel[OF r e this, of ev] show ?thesis using NeighEvent by (auto simp: Neighbor_event_callback_def simp del: locate.simps)
next
  case (WlanClientAddEx x attribs)
  let ?m = "fold (\<lambda>a m. case a of Some x \<Rightarrow> x | None \<Rightarrow> m) attribs (ne_mac env)"
  have cf: "cfg_ok names c" "cfg_view c = cfg_view c0" and x: "known names c0 x" using r k WlanClientAddEx by (auto simp: nb_rel_def)
  obtain idx c1 where q: "iface_ipa_index_query names x c = Inr (idx, c1)" "cfg_ok names c1" "cfg_view c1 = cfg_view c0"
    "is_bridge idx c1 = Inr (on_bridge names c0 x)" using known_query[OF cf x] by blast
  have r1: "nb_rel names c0 locs (c1, s)" using r q by (simp add: nb_rel_def)
  note start = Neighbor_event_callback_def wlan_client_add_ex_def Let_def
  show ?thesis
  proof (cases "find_client ?m s")
    case None
    then have "locs ?m = None" using rel_none[OF r, of ?m] by simp
    then show ?thesis using None WlanClientAddEx e q(1) r1 by (simp add: start)
  next
    case (Some i)
    then show ?thesis using client_back_rel[OF r1 e Some q(4) x] rel_found(1)[OF r Some] WlanClientAddEx e q(1)
      by (cases "on_bridge names c0 x") (simp_all add: start)
  qed
qed


section \<open>Runs\<close>

lemma IPACM_Neighbor_new_registers:
  assumes "regs d rs" "cells_ok cell d"
  shows "\<exists>d'. IPACM_Neighbor_new cell this mem d = Some (Inr (Neighbor_new mem, d')) \<and>
     regs d' (rs @ [(IPA_WLAN_CLIENT_ADD_EVENT_EX, this), (IPA_NEW_NEIGH_EVENT, this), (IPA_DEL_NEIGH_EVENT, this)])"
  using registr_all_ok[OF assms, of "[IPA_WLAN_CLIENT_ADD_EVENT_EX, IPA_NEW_NEIGH_EVENT, IPA_DEL_NEIGH_EVENT]" this]
  by (auto simp: IPACM_Neighbor_new_def)

text \<open>A run of the listener over events, each with its environment, collecting what it posts.\<close>

fun nb_run :: "(neigh_env \<times> neigh_event) list \<Rightarrow> IPACM_Config \<times> IPACM_Neighbor \<Rightarrow>
    fault + neigh_post list \<times> IPACM_Config \<times> IPACM_Neighbor" where
  "nb_run [] st = Inr ([], st)"
| "nb_run ((env, nev) # es) st =
     bnd (Neighbor_event_callback env nev st) (\<lambda>(ps, st). bnd (nb_run es st) (\<lambda>(qs, st). Inr (ps @ qs, st)))"

lemma nb_run_rel:
  assumes "nb_rel names c0 locs (c, s)" "\<And>env nev. (env, nev) \<in> set es \<Longrightarrow> ne_names env = names \<and> known names c0 (event_iface nev)"
  shows "\<exists>ps c' s'. nb_run es (c, s) = Inr (ps, c', s') \<and> nb_rel names c0 (fold (locate (on_bridge names c0)) es locs) (c', s')"
  using assms
proof (induction es arbitrary: locs c s)
  case (Cons a es)
  obtain env nev where a: "a = (env, nev)" by (cases a)
  have "ne_names env = names" "known names c0 (event_iface nev)" using Cons.prems(2)[of env nev] a by auto
  from Neighbor_event_callback_rel[OF Cons.prems(1) this] obtain ps c1 s1 where
    1: "Neighbor_event_callback env nev (c, s) = Inr (ps, c1, s1)" "nb_rel names c0 (locate (on_bridge names c0) a locs) (c1, s1)"
    using a by blast
  have "\<And>env nev. (env, nev) \<in> set es \<Longrightarrow> ne_names env = names \<and> known names c0 (event_iface nev)"
    using Cons.prems(2) by auto
  from Cons.IH[OF 1(2) this] show ?case using 1(1) a by auto
qed simp

lemma nb_rel_init:
  assumes "cfg_ok names c" "length mem = IPA_MAX_NUM_NEIGHBOR_CLIENTS"
  shows "nb_rel names c Map.empty (c, Neighbor_new mem)"
  using assms by (simp add: nb_rel_def nb_inv_def Neighbor_new_def seen_def find_client_def)

lemma nb_rel_macs:
  assumes "nb_rel names c0 locs (c, s)"
  shows "set (map nb_mac_addr (take (num_neighbor_client s) (neighbor_client s))) = dom locs"
proof -
  have "(\<lambda>m. map_option nb_iface_index (seen s m)) = locs" using assms by (auto simp: nb_rel_def)
  then show ?thesis unfolding seen_dom[symmetric] by auto
qed

lemma nb_rel_card:
  assumes "nb_rel names c0 locs (c, s)"
  shows "num_neighbor_client s = card (dom locs)" "num_neighbor_client s \<le> IPA_MAX_NUM_NEIGHBOR_CLIENTS"
proof -
  have i: "nb_inv s" and l: "(\<lambda>m. map_option nb_iface_index (seen s m)) = locs" using assms by (auto simp: nb_rel_def)
  have "dom locs = dom (seen s)" unfolding l[symmetric] by auto
  then show "num_neighbor_client s = card (dom locs)" using seen_card(1)[OF i] by simp
  show "num_neighbor_client s \<le> IPA_MAX_NUM_NEIGHBOR_CLIENTS" using i by (simp add: nb_inv_def)
qed


text \<open>C10. The neighbour listener resolves clients behind the bridge. From its constructor, it handles every sequence of events that name
  interfaces of the table without a fault; afterwards it holds at most 17 clients with distinct MAC addresses, exactly those of the
  reference, and an event with an address on the bridge posts one event, of the right kind and with the interface replaced by the one the
  reference has for the MAC address, when the reference has one, and nothing otherwise.\<close>

theorem neighbor_bridge_resolution:
  assumes ok: "cfg_ok names c" and mem: "length mem = IPA_MAX_NUM_NEIGHBOR_CLIENTS"
    and es: "\<forall>(env, nev) \<in> set es. ne_names env = names \<and> known names c (event_iface nev)"
    and locs: "locs = fold (locate (on_bridge names c)) es Map.empty"
  shows "\<exists>ps c' s'. nb_run es (c, Neighbor_new mem) = Inr (ps, c', s') \<and>
     num_neighbor_client s' = card (dom locs) \<and> card (dom locs) \<le> IPA_MAX_NUM_NEIGHBOR_CLIENTS \<and>
     set (map nb_mac_addr (take (num_neighbor_client s') (neighbor_client s'))) = dom locs \<and>
     (\<forall>env ev dat. ne_names env = names \<and> ne_mem env \<and> known names c (nd_if_index dat) \<and> on_bridge names c (nd_if_index dat) \<and> has_addr dat \<longrightarrow>
        (\<exists>st. Neighbor_event_callback env (NeighEvent ev dat) (c', s') =
           Inr (case locs (nd_mac_addr dat) of None \<Rightarrow> [] | Some j \<Rightarrow> [(client_event ev, dat\<lparr>nd_if_index := j\<rparr>)], st)))"
proof -
  have "\<And>env nev. (env, nev) \<in> set es \<Longrightarrow> ne_names env = names \<and> known names c (event_iface nev)" using es by auto
  from nb_run_rel[OF nb_rel_init[OF ok mem] this] obtain ps c' s' where
    run: "nb_run es (c, Neighbor_new mem) = Inr (ps, c', s')" and r: "nb_rel names c locs (c', s')"
    using locs by blast
  have post: "\<exists>st. Neighbor_event_callback env (NeighEvent ev dat) (c', s') =
      Inr (case locs (nd_mac_addr dat) of None \<Rightarrow> [] | Some j \<Rightarrow> [(client_event ev, dat\<lparr>nd_if_index := j\<rparr>)], st)"
    if "ne_names env = names" "ne_mem env" "known names c (nd_if_index dat)" "on_bridge names c (nd_if_index dat)" "has_addr dat" for env ev dat
    using neigh_evt_rel[OF r that(1,3), of ev] that(2,4,5) by (auto simp: Neighbor_event_callback_def)
  have "set (map nb_mac_addr (take (num_neighbor_client s') (neighbor_client s'))) = dom locs"
    by (rule nb_rel_macs[OF r])
  with run post nb_rel_card[OF r] show ?thesis by simp
qed


text \<open>A phone with a wireless interface and a bridge, and a client that connects over the former and gets its address on the latter.\<close>

definition w_names :: "int \<Rightarrow> string option" where
  "w_names k = (if k = 5 then Some ''wlan0'' else if k = 7 then Some ''bridge0'' else None)"

definition w_cfg :: IPACM_Config where
  "w_cfg = (IPACM_Config_new IPA_RM_RESOURCE_Q6_PROD)\<lparr>
     iface_table := [\<lparr>iface_name = ''wlan0'', if_cat = WLAN_IF, netlink_interface_index = 0\<rparr>,
                     \<lparr>iface_name = ''bridge0'', if_cat = VIRTUAL_IF, netlink_interface_index = 0\<rparr>],
     ipa_num_ipa_interfaces := 2, ipa_virtual_iface_name := ''bridge0''\<rparr>"

definition w_dat :: "int \<Rightarrow> u32 list \<Rightarrow> neigh_data" where
  "w_dat k a = \<lparr>nd_iptype = IPA_IP_v6, nd_if_index = k, nd_ipv4_addr = 0, nd_ipv6_addr = a, nd_mac_addr = [2, 0, 0, 0, 0, 1]\<rparr>"

definition w_env :: neigh_env where
  "w_env = \<lparr>ne_names = w_names, ne_mem = True, ne_junk = w_dat 0 [], ne_mac = []\<rparr>"

lemma w_rows:
  "row_of w_names w_cfg 5 = Some 0" "row_of w_names w_cfg 7 = Some 1" "cfg_ok w_names w_cfg"
  "on_bridge w_names w_cfg 7" "\<not> on_bridge w_names w_cfg 5"
  by (simp_all add: row_of_def w_names_def w_cfg_def same_name_def IPA_IFACE_NAME_LEN_def cfg_ok_def on_bridge_def IPACM_Config_new_def)

theorem neighbor_bridge_resolution_witness:
  "\<exists>ps c' s'. nb_run [(w_env, NeighEvent IPA_NEW_NEIGH_EVENT (w_dat 5 [0, 0, 0, 0]))]
        (w_cfg, Neighbor_new (replicate 17 \<lparr>nb_mac_addr = [], nb_iface_index = 0, nb_v4_addr = 0, nb_ipa_if_num = 0\<rparr>)) = Inr (ps, c', s') \<and>
     num_neighbor_client s' = 1 \<and>
     (\<exists>st. Neighbor_event_callback w_env (NeighEvent IPA_NEW_NEIGH_EVENT (w_dat 7 [1, 0, 0, 2])) (c', s') =
        Inr ([(IPA_NEIGH_CLIENT_IP_ADDR_ADD_EVENT, w_dat 5 [1, 0, 0, 2])], st))"
proof -
  let ?es = "[(w_env, NeighEvent IPA_NEW_NEIGH_EVENT (w_dat 5 [0, 0, 0, 0]))]"
  let ?mem = "replicate 17 \<lparr>nb_mac_addr = [], nb_iface_index = 0, nb_v4_addr = 0, nb_ipa_if_num = 0\<rparr>"
  have l: "fold (locate (on_bridge w_names w_cfg)) ?es Map.empty = [[2, 0, 0, 0, 0, 1] \<mapsto> 5]"
    using w_rows(5) by (simp add: w_env_def w_dat_def has_addr_def put_loc_def IPA_MAX_NUM_NEIGHBOR_CLIENTS_def)
  have kn: "known w_names w_cfg 5" "known w_names w_cfg 7" using w_rows by (auto simp: known_def)
  have w: "ne_names w_env = w_names" "ne_mem w_env" "has_addr (w_dat 7 [1, 0, 0, 2])" "nd_if_index (w_dat k a) = k" "nd_mac_addr (w_dat k a) = [2, 0, 0, 0, 0, 1]"
    "(w_dat k a)\<lparr>nd_if_index := j\<rparr> = w_dat j a" for k a j
    by (simp_all add: w_env_def w_dat_def has_addr_def)
  from neighbor_bridge_resolution[OF w_rows(3), of ?mem ?es] kn w(1) w(4) obtain ps c' s' where
    r: "nb_run ?es (w_cfg, Neighbor_new ?mem) = Inr (ps, c', s')" "num_neighbor_client s' = 1" and
    p: "\<forall>env ev dat. ne_names env = w_names \<and> ne_mem env \<and> known w_names w_cfg (nd_if_index dat) \<and> on_bridge w_names w_cfg (nd_if_index dat) \<and> has_addr dat \<longrightarrow>
        (\<exists>st. Neighbor_event_callback env (NeighEvent ev dat) (c', s') =
           Inr (case [[2, 0, 0, 0, 0, 1] \<mapsto> 5] (nd_mac_addr dat) of None \<Rightarrow> [] | Some j \<Rightarrow> [(client_event ev, dat\<lparr>nd_if_index := j\<rparr>)], st))"
    unfolding l by (auto simp: IPA_MAX_NUM_NEIGHBOR_CLIENTS_def)
  from p[rule_format, of w_env "w_dat 7 [1, 0, 0, 2]" IPA_NEW_NEIGH_EVENT] w w_rows(4) kn(2) r show ?thesis
    by (simp add: client_event_def)
qed

end
