(* ===== verification/Iface_Manager.thy ===== *)
theory Iface_Manager
  imports Ipacm_Iface
begin

text \<open>
  The interface manager \<^verbatim>\<open>IPACM_IfaceManager.cpp\<close>. When an interface comes up it creates the object that serves the interface,
  unless there is one, registers it with the dispatcher for the events of its category and enters it in a list of instances; the
  destructors of \<^verbatim>\<open>IPACM_Lan\<close>, \<^verbatim>\<open>IPACM_Wlan\<close> and \<^verbatim>\<open>IPACM_Wan\<close> undo both. The Android build is modelled
  (\<^verbatim>\<open>FEATURE_IPA_ANDROID\<close>, without \<^verbatim>\<open>FEATURE_ETH_BRIDGE_LE\<close>).
\<close>

section \<open>State\<close>

datatype ipacm_wan_iface_type = Q6_WAN | WLAN_WAN | ECM_WAN

record ipacm_ifacemgr_data =
  ifm_if_index :: int
  ifm_if_type :: ipacm_wan_iface_type
  ifm_mac_addr :: "u8 list"

text \<open>The objects the manager creates, with the arguments of their constructors.\<close>

datatype iface_class = IPACM_Lan int | IPACM_Wlan int | IPACM_Wan int ipacm_wan_iface_type "u8 list option"

text \<open>The instance list (a list like the dispatcher's, with the table index for the event), the dispatcher, the configuration, the
  objects that are alive, those of them whose \<^verbatim>\<open>is_active\<close> is false, and the counter
  \<^verbatim>\<open>IPACM_Wlan::num_wlan_ap_iface\<close>.\<close>

record ifmgr =
  im_cfg :: IPACM_Config
  im_instances :: "int listener_list"
  im_disp :: dispatcher
  im_objs :: "listener \<rightharpoonup> iface_class"
  im_inactive :: "listener set"
  num_wlan_ap_iface :: int

text \<open>
  What an event needs of the environment: the kernel's interface names and addresses, the results of the allocations (the new object,
  the cells of the registrations, the cell of the instance, the address events), what a constructor does to the configuration,
  whether the constructor of \<^verbatim>\<open>IPACM_Wlan\<close> gets as far as counting the interface, and what \<^verbatim>\<open>IPACM_Config::Init\<close> reads.
\<close>

record ifmgr_env =
  ie_names :: "int \<Rightarrow> string option"
  ie_addrs :: "ifaddrs list option"
  ie_mem :: "nat \<Rightarrow> bool"
  ie_new :: listener
  ie_cell :: "nat \<Rightarrow> ptr"
  ie_inst :: ptr
  ie_ctor :: "iface_class \<Rightarrow> IPACM_Config \<Rightarrow> IPACM_Config"
  ie_wlan_up :: bool
  ie_init :: "bool list \<times> IPACM_conf_t option"

section \<open>Lists of listeners\<close>

text \<open>\<open>IPACM_IfaceManager::registr\<close> and \<open>deregistr\<close>: the code is the dispatcher's, on the list of instances.\<close>

definition instance_registr :: "ptr \<Rightarrow> int \<Rightarrow> listener \<Rightarrow> int listener_list \<Rightarrow> (fault + int \<times> int listener_list) option" where
  "instance_registr nw ipa_if_index obj l = registr nw ipa_if_index obj l"

definition instance_deregistr :: "listener \<Rightarrow> int listener_list \<Rightarrow> (fault + int \<times> int listener_list) option" where
  "instance_deregistr param l = deregistr param l"

partial_function (option) search_loop :: "int \<Rightarrow> ptr \<Rightarrow> (addr \<rightharpoonup> int cmd_evts) \<Rightarrow> (fault + bool) option" where
  "search_loop i tmp h =
     (case tmp of
        None \<Rightarrow> Some (Inr False)
      | Some t \<Rightarrow>
          (case h t of
             None \<Rightarrow> Some (Inl UseAfterFree)
           | Some c \<Rightarrow> if i = cev c then Some (Inr True) else search_loop i (cnext c) h))"

text \<open>Either way the name of the interface is printed.\<close>

definition SearchInstance :: "int \<Rightarrow> ifmgr \<Rightarrow> (fault + bool) option" where
  "SearchInstance ipa_if_index st =
     obnd (search_loop ipa_if_index (dhead (im_instances st)) (cells (im_instances st))) (\<lambda>found.
     obnd (Some (iface_row ipa_if_index (im_cfg st))) (\<lambda>r. Some (Inr found)))"

section \<open>Destructors\<close>

definition Iface_dtor :: "listener \<Rightarrow> ifmgr \<Rightarrow> (fault + ifmgr) option" where
  "Iface_dtor obj st =
     obnd (deregistr obj (im_disp st)) (\<lambda>(r, d).
     obnd (instance_deregistr obj (im_instances st)) (\<lambda>(r, l). Some (Inr (st\<lparr>im_disp := d, im_instances := l\<rparr>))))"

text \<open>\<^verbatim>\<open>delete\<close>: the destructor of \<^verbatim>\<open>IPACM_Wlan\<close> is followed by that of its base class \<^verbatim>\<open>IPACM_Lan\<close>.\<close>

definition delete_iface :: "listener \<Rightarrow> ifmgr \<Rightarrow> (fault + ifmgr) option" where
  "delete_iface obj st =
     (case im_objs st obj of
        None \<Rightarrow> Some (Inl UseAfterFree)
      | Some cls \<Rightarrow>
          obnd (Iface_dtor obj st) (\<lambda>st.
          obnd (case cls of IPACM_Wlan i \<Rightarrow> Iface_dtor obj st | _ \<Rightarrow> Some (Inr st)) (\<lambda>st.
          Some (Inr (st\<lparr>im_objs := (im_objs st)(obj := None)\<rparr>)))))"

fun class_index :: "iface_class \<Rightarrow> int" where
  "class_index (IPACM_Lan i) = i"
| "class_index (IPACM_Wlan i) = i"
| "class_index (IPACM_Wan i t m) = i"

definition set_cat :: "int \<Rightarrow> ipacm_iface_type \<Rightarrow> IPACM_Config \<Rightarrow> IPACM_Config" where
  "set_cat i cat c = c\<lparr>iface_table := (iface_table c)[nat i := (iface_table c ! nat i)\<lparr>if_cat := cat\<rparr>]\<rparr>"

text \<open>
  The end of an instance, which takes two events for \<^verbatim>\<open>IPACM_Lan\<close> and \<^verbatim>\<open>IPACM_Wlan\<close>. When its interface goes down (or the category
  changed) the name leaves the list of NAT interfaces; an access point and a station also set the category of the interface back to
  unknown. An \<^verbatim>\<open>IPACM_Wan\<close> then deletes itself; the others become inactive, ignore every further event and wait for
  \<^verbatim>\<open>IPA_LAN_DELETE_SELF\<close>, which they have posted to themselves. The name \<open>dev_name\<close> is the member the constructor copied from the table.
  The rules in hardware, which the handlers also take down, are not part of the manager's state.
\<close>

fun resets_cat :: "iface_class \<Rightarrow> bool" where
  "resets_cat (IPACM_Lan i) = False"
| "resets_cat (IPACM_Wlan i) = True"
| "resets_cat (IPACM_Wan i t m) = (t = WLAN_WAN)"

definition iface_down :: "string \<Rightarrow> listener \<Rightarrow> ifmgr \<Rightarrow> (fault + ifmgr) option" where
  "iface_down dev_name obj st =
     (case im_objs st obj of
        None \<Rightarrow> Some (Inl UseAfterFree)
      | Some cls \<Rightarrow>
          if obj \<in> im_inactive st then Some (Inr st)
          else obnd (Some (iface_row (class_index cls) (im_cfg st))) (\<lambda>r.
            obnd (Some (DelNatIfaces dev_name
               (if resets_cat cls then set_cat (class_index cls) UNKNOWN_IF (im_cfg st) else im_cfg st))) (\<lambda>(r, c).
            case cls of
              IPACM_Wan i t m \<Rightarrow> delete_iface obj (st\<lparr>im_cfg := c\<rparr>)
            | _ \<Rightarrow> Some (Inr (st\<lparr>im_cfg := c, im_inactive := insert obj (im_inactive st)\<rparr>)))))"

text \<open>\<^verbatim>\<open>IPA_LAN_DELETE_SELF\<close>: \<^verbatim>\<open>IPACM_Wlan\<close> counts down before it deletes itself.\<close>

definition iface_delete_self :: "listener \<Rightarrow> ifmgr \<Rightarrow> (fault + ifmgr) option" where
  "iface_delete_self obj st =
     (case im_objs st obj of
        None \<Rightarrow> Some (Inl UseAfterFree)
      | Some (IPACM_Wan i t m) \<Rightarrow> Some (Inr st)
      | Some (IPACM_Lan i) \<Rightarrow> obnd (Some (iface_row i (im_cfg st))) (\<lambda>r. delete_iface obj st)
      | Some (IPACM_Wlan i) \<Rightarrow>
          obnd (Some (iface_row i (im_cfg st))) (\<lambda>r. delete_iface obj (st\<lparr>num_wlan_ap_iface := num_wlan_ap_iface st - 1\<rparr>)))"

section \<open>Creation\<close>

definition lan_events :: "ipa_cm_event_id list" where
  "lan_events = [IPA_ADDR_ADD_EVENT, IPA_NEIGH_CLIENT_IP_ADDR_ADD_EVENT, IPA_SW_ROUTING_ENABLE, IPA_SW_ROUTING_DISABLE,
     IPA_HANDLE_WAN_UP_TETHER, IPA_HANDLE_WAN_UP_V6_TETHER, IPA_HANDLE_WAN_DOWN_TETHER, IPA_HANDLE_WAN_DOWN_V6_TETHER,
     IPA_CFG_CHANGE_EVENT, IPA_PRIVATE_SUBNET_CHANGE_EVENT, IPA_TETHERING_STATS_UPDATE_EVENT, IPA_LINK_DOWN_EVENT,
     IPA_LAN_DELETE_SELF]"

definition eth_events :: "ipa_cm_event_id list" where
  "eth_events = [IPA_ADDR_ADD_EVENT, IPA_NEIGH_CLIENT_IP_ADDR_ADD_EVENT, IPA_SW_ROUTING_ENABLE, IPA_SW_ROUTING_DISABLE,
     IPA_HANDLE_WAN_UP, IPA_HANDLE_WAN_UP_V6, IPA_HANDLE_WAN_DOWN, IPA_HANDLE_WAN_DOWN_V6, IPA_LINK_DOWN_EVENT, IPA_LAN_DELETE_SELF]"

definition odu_bridge_events :: "ipa_cm_event_id list" where
  "odu_bridge_events = [IPA_ADDR_ADD_EVENT, IPA_NEIGH_CLIENT_IP_ADDR_ADD_EVENT, IPA_SW_ROUTING_ENABLE, IPA_SW_ROUTING_DISABLE,
     IPA_LINK_DOWN_EVENT, IPA_LAN_DELETE_SELF]"

definition wlan_events :: "ipa_cm_event_id list" where
  "wlan_events = [IPA_ADDR_ADD_EVENT, IPA_ROUTE_DEL_EVENT, IPA_WLAN_CLIENT_ADD_EVENT, IPA_WLAN_CLIENT_ADD_EVENT_EX,
     IPA_WLAN_CLIENT_DEL_EVENT, IPA_WLAN_CLIENT_POWER_SAVE_EVENT, IPA_WLAN_CLIENT_RECOVER_EVENT, IPA_NEIGH_CLIENT_IP_ADDR_ADD_EVENT,
     IPA_SW_ROUTING_ENABLE, IPA_SW_ROUTING_DISABLE, IPA_HANDLE_WAN_UP_TETHER, IPA_HANDLE_WAN_UP_V6_TETHER,
     IPA_HANDLE_WAN_DOWN_TETHER, IPA_HANDLE_WAN_DOWN_V6_TETHER, IPA_PRIVATE_SUBNET_CHANGE_EVENT, IPA_WLAN_LINK_DOWN_EVENT,
     IPA_LAN_DELETE_SELF, IPA_TETHERING_STATS_UPDATE_EVENT]"

definition wan_events :: "ipacm_wan_iface_type \<Rightarrow> ipa_cm_event_id list" where
  "wan_events is_sta_mode =
     [IPA_ADDR_ADD_EVENT, IPA_WAN_UPSTREAM_ROUTE_ADD_EVENT, IPA_WAN_UPSTREAM_ROUTE_DEL_EVENT] @
     (if is_sta_mode = Q6_WAN then [IPA_NETWORK_STATS_UPDATE_EVENT] else []) @
     [IPA_FIREWALL_CHANGE_EVENT, IPA_NEIGH_CLIENT_IP_ADDR_ADD_EVENT, IPA_SW_ROUTING_ENABLE, IPA_SW_ROUTING_DISABLE, IPA_CFG_CHANGE_EVENT] @
     [if is_sta_mode = WLAN_WAN then IPA_WLAN_LINK_DOWN_EVENT else IPA_LINK_DOWN_EVENT]"

definition embms_events :: "ipa_cm_event_id list" where
  "embms_events = [IPA_LINK_DOWN_EVENT]"

text \<open>
  \<^verbatim>\<open>new\<close>. The constructor of \<^verbatim>\<open>IPACM_Wlan\<close> deletes the object again when there are two of them already; the caller gets
  its address all the same.
\<close>

definition new_iface :: "ifmgr_env \<Rightarrow> iface_class \<Rightarrow> ifmgr \<Rightarrow> (fault + ifmgr) option" where
  "new_iface env cls st =
     (let st = st\<lparr>im_objs := (im_objs st)(ie_new env \<mapsto> cls), im_cfg := ie_ctor env cls (im_cfg st),
            im_inactive := im_inactive st - {ie_new env}\<rparr>
      in case cls of
           IPACM_Wlan i \<Rightarrow>
             if num_wlan_ap_iface st < 0 \<or> num_wlan_ap_iface st > 1 then delete_iface (ie_new env) st
             else if ie_wlan_up env then Some (Inr (st\<lparr>num_wlan_ap_iface := num_wlan_ap_iface st + 1\<rparr>))
             else Some (Inr st)
         | _ \<Rightarrow> Some (Inr st))"

text \<open>Create, register for events, enter in the list.\<close>

definition open_instance :: "ifmgr_env \<Rightarrow> int \<Rightarrow> iface_class \<Rightarrow> ipa_cm_event_id list \<Rightarrow> ifmgr \<Rightarrow> (fault + ifmgr) option" where
  "open_instance env i cls evs st =
     obnd (new_iface env cls st) (\<lambda>st.
     obnd (registr_all (ie_cell env) 0 evs (ie_new env) (im_disp st)) (\<lambda>d.
     obnd (instance_registr (ie_inst env) i (ie_new env) (im_instances st)) (\<lambda>(r, l).
     Some (Inr (st\<lparr>im_disp := d, im_instances := l\<rparr>)))))"

text \<open>The cases of the switch: the object, its events, and whether the addresses are queried afterwards.\<close>

definition iface_plan :: "IPACM_Config \<Rightarrow> int \<Rightarrow> ipacm_ifacemgr_data \<Rightarrow> ipacm_iface_type \<Rightarrow> (iface_class \<times> ipa_cm_event_id list \<times> bool) option" where
  "iface_plan c i param cat =
     (case cat of
        LAN_IF \<Rightarrow> Some (IPACM_Lan i, lan_events, True)
      | ETH_IF \<Rightarrow> Some (IPACM_Lan i, eth_events, True)
      | ODU_IF \<Rightarrow> Some (IPACM_Lan i, if ipacm_odu_router_mode c then eth_events else odu_bridge_events, True)
      | WLAN_IF \<Rightarrow> Some (IPACM_Wlan i, wlan_events, True)
      | WAN_IF \<Rightarrow>
          if \<not> ipacm_odu_enable c \<or> ipacm_odu_router_mode c
          then Some (IPACM_Wan i (ifm_if_type param) (if ifm_if_type param = WLAN_WAN then Some (ifm_mac_addr param) else None),
                 wan_events (ifm_if_type param), True)
          else None
      | EMBMS_IF \<Rightarrow> Some (IPACM_Wan i (ifm_if_type param) None, embms_events, False)
      | _ \<Rightarrow> None)"

definition create_iface_instance :: "ifmgr_env \<Rightarrow> ipacm_ifacemgr_data \<Rightarrow> ifmgr \<Rightarrow> (fault + addr_event list \<times> ifmgr) option" where
  "create_iface_instance env param st =
     obnd (Some (iface_ipa_index_query (ie_names env) (ifm_if_index param) (im_cfg st))) (\<lambda>(i, c).
     let st = st\<lparr>im_cfg := c\<rparr>
     in if i = INVALID_IFACE then Some (Inr ([], st))
        else obnd (SearchInstance i st) (\<lambda>found.
          if found then Some (Inr ([], st))
          else obnd (Some (iface_row i c)) (\<lambda>r.
            case iface_plan c i param (if_cat r) of
              None \<Rightarrow> Some (Inr ([], st))
            | Some (cls, evs, addr) \<Rightarrow>
                obnd (open_instance env i cls evs st) (\<lambda>st.
                Some (Inr (if addr then iface_addr_query (ie_names env) (ie_mem env) (ie_addrs env) (ifm_if_index param) else [], st))))))"

section \<open>Events\<close>

definition link_up :: "ifmgr_env \<Rightarrow> ipa_cm_event_id \<Rightarrow> int \<Rightarrow> u8 list \<Rightarrow> ifmgr \<Rightarrow> (fault + addr_event list \<times> ifmgr) option" where
  "link_up env ev if_index mac st =
     obnd (Some (iface_ipa_index_query (ie_names env) if_index (im_cfg st))) (\<lambda>(i, c).
     let st = st\<lparr>im_cfg := c\<rparr>;
         create = (\<lambda>ty m st. create_iface_instance env \<lparr>ifm_if_index = if_index, ifm_if_type = ty, ifm_mac_addr = m\<rparr> st);
         none = replicate 6 0
     in if ev = IPA_WAN_EMBMS_LINK_UP_EVENT \<and> \<not> ipacm_odu_enable c then Some (Inr ([], st))
        else obnd (Some (iface_row i c)) (\<lambda>r.
          if ev = IPA_LINK_UP_EVENT then
            (if if_cat r = EMBMS_IF then Some (Inr ([], st))
             else if if_cat r = WAN_IF then create Q6_WAN none st
             else Some (Inr ([], st)))
          else if ev = IPA_USB_LINK_UP_EVENT then create (if if_cat r = WAN_IF then ECM_WAN else Q6_WAN) none st
          else if ev = IPA_WLAN_AP_LINK_UP_EVENT then
            (if if_cat r = UNKNOWN_IF then create Q6_WAN none (st\<lparr>im_cfg := set_cat i WLAN_IF c\<rparr>) else Some (Inr ([], st)))
          else if ev = IPA_WLAN_STA_LINK_UP_EVENT then
            (if if_cat r = UNKNOWN_IF then create WLAN_WAN mac (st\<lparr>im_cfg := set_cat i WAN_IF c\<rparr>) else Some (Inr ([], st)))
          else
            (if if_cat r = WAN_IF then create Q6_WAN none (st\<lparr>im_cfg := set_cat i EMBMS_IF c\<rparr>) else Some (Inr ([], st)))))"

definition IfaceManager_event_callback :: "ifmgr_env \<Rightarrow> ipa_cm_event_id \<Rightarrow> int \<Rightarrow> u8 list \<Rightarrow> ifmgr \<Rightarrow> (fault + addr_event list \<times> ifmgr) option" where
  "IfaceManager_event_callback env ev if_index mac st =
     (if ev = IPA_CFG_CHANGE_EVENT then
        obnd (Some (Init (fst (ie_init env)) (snd (ie_init env)) (im_cfg st))) (\<lambda>(r, c). Some (Inr ([], st\<lparr>im_cfg := c\<rparr>)))
      else if ev \<in> {IPA_LINK_UP_EVENT, IPA_USB_LINK_UP_EVENT, IPA_WLAN_AP_LINK_UP_EVENT, IPA_WLAN_STA_LINK_UP_EVENT, IPA_WAN_EMBMS_LINK_UP_EVENT}
      then link_up env ev if_index mac st
      else Some (Inr ([], st)))"

text \<open>The constructor, for the manager at address \<open>this\<close>.\<close>

definition ifmgr_events :: "ipa_cm_event_id list" where
  "ifmgr_events = [IPA_CFG_CHANGE_EVENT, IPA_LINK_UP_EVENT, IPA_WLAN_AP_LINK_UP_EVENT, IPA_USB_LINK_UP_EVENT, IPA_WAN_EMBMS_LINK_UP_EVENT]"

definition IfaceManager_new :: "(nat \<Rightarrow> ptr) \<Rightarrow> listener \<Rightarrow> IPACM_Config \<Rightarrow> dispatcher \<Rightarrow> (fault + ifmgr) option" where
  "IfaceManager_new cell this c d =
     obnd (registr_all cell 0 ifmgr_events this d) (\<lambda>d.
     Some (Inr \<lparr>im_cfg = c, im_instances = \<lparr>dhead = None, cells = Map.empty\<rparr>, im_disp = d, im_objs = Map.empty,
        im_inactive = {}, num_wlan_ap_iface = 0\<rparr>))"


section \<open>Contracts of the operations\<close>

interpretation inst: listener_registry "\<lparr>dhead = None, cells = Map.empty\<rparr> :: int listener_list" reg_cell dereg_cell cell_fresh regs
  by (rule list_is_registry) (auto simp: regs_def regs_at_def intro!: exI[of _ "[]"])

lemma search_loop_regs:
  "cseg h p as None \<Longrightarrow> map (reg_of h) as = map Some is \<Longrightarrow> search_loop i p h = Some (Inr (i \<in> fst ` set is))"
proof (induction as arbitrary: p "is")
  case Nil
  then show ?case by (simp add: search_loop.simps)
next
  case (Cons a as)
  obtain c x xs where c: "h a = Some c" "p = Some a" "cseg h (cnext c) as None" "is = x # xs" "reg_of h a = Some x"
    "map (reg_of h) as = map Some xs"
    using Cons.prems by (cases "is") (auto split: option.splits)
  have "x = (cev c, cobj c)" using c by (simp add: reg_of_def)
  then show ?case using Cons.IH[OF c(3,6)] c by (subst search_loop.simps) simp
qed

lemma SearchInstance_regs:
  assumes "regs (im_instances st) is" "iface_row i (im_cfg st) = Inr r"
  shows "SearchInstance i st = Some (Inr (i \<in> fst ` set is))"
  using assms search_loop_regs[of "cells (im_instances st)" "dhead (im_instances st)" _ "is" i]
  by (auto simp: SearchInstance_def regs_def regs_at_def)

lemma Iface_dtor_regs:
  assumes "regs (im_disp st) rs" "regs (im_instances st) is"
  shows "\<exists>d l. Iface_dtor obj st = Some (Inr (st\<lparr>im_disp := d, im_instances := l\<rparr>)) \<and>
     regs d (filter (\<lambda>r. snd r \<noteq> obj) rs) \<and> regs l (filter (\<lambda>r. snd r \<noteq> obj) is)"
proof -
  obtain d where "deregistr obj (im_disp st) = Some (Inr (IPACM_SUCCESS, d))" "regs d (filter (\<lambda>r. snd r \<noteq> obj) rs)"
    using deregistr_regs[OF assms(1), of obj] by blast
  moreover obtain l where "deregistr obj (im_instances st) = Some (Inr (IPACM_SUCCESS, l))" "regs l (filter (\<lambda>r. snd r \<noteq> obj) is)"
    using deregistr_regs[OF assms(2), of obj] by blast
  ultimately show ?thesis by (intro exI[of _ d] exI[of _ l]) (simp add: Iface_dtor_def instance_deregistr_def)
qed

lemma delete_iface_regs:
  assumes r: "regs (im_disp st) rs" "regs (im_instances st) is" and o: "im_objs st obj = Some cls"
  shows "\<exists>d l. delete_iface obj st = Some (Inr (st\<lparr>im_disp := d, im_instances := l, im_objs := (im_objs st)(obj := None)\<rparr>)) \<and>
     regs d (filter (\<lambda>r. snd r \<noteq> obj) rs) \<and> regs l (filter (\<lambda>r. snd r \<noteq> obj) is)"
proof -
  obtain d l where 1: "Iface_dtor obj st = Some (Inr (st\<lparr>im_disp := d, im_instances := l\<rparr>))"
    "regs d (filter (\<lambda>r. snd r \<noteq> obj) rs)" "regs l (filter (\<lambda>r. snd r \<noteq> obj) is)" using Iface_dtor_regs[OF r] by blast
  let ?s = "st\<lparr>im_disp := d, im_instances := l\<rparr>"
  have "regs (im_disp ?s) (filter (\<lambda>r. snd r \<noteq> obj) rs)" "regs (im_instances ?s) (filter (\<lambda>r. snd r \<noteq> obj) is)" using 1 by auto
  from Iface_dtor_regs[OF this, of obj] obtain d' l' where 2: "Iface_dtor obj ?s = Some (Inr (?s\<lparr>im_disp := d', im_instances := l'\<rparr>))"
    "regs d' (filter (\<lambda>r. snd r \<noteq> obj) rs)" "regs l' (filter (\<lambda>r. snd r \<noteq> obj) is)" by auto
  show ?thesis using o 1 2 by (cases cls) (auto simp: delete_iface_def)
qed

section \<open>The invariant\<close>

fun class_events :: "iface_class \<Rightarrow> ipa_cm_event_id list set" where
  "class_events (IPACM_Lan i) = {lan_events, eth_events, odu_bridge_events}"
| "class_events (IPACM_Wlan i) = {wlan_events}"
| "class_events (IPACM_Wan i t m) = {wan_events t, embms_events}"

text \<open>
  The dispatcher holds the registrations \<open>rs\<close> and the instance list \<open>insts\<close>: one instance per interface, each alive and
  serving that interface, registered exactly for events of its class, and no registration of anything else but the other
  listeners \<open>ext\<close>.
\<close>

definition im_inv :: "listener set \<Rightarrow> ifmgr \<Rightarrow> (ipa_cm_event_id \<times> listener) list \<Rightarrow> (int \<times> listener) list \<Rightarrow> bool" where
  "im_inv ext st rs insts \<longleftrightarrow> regs (im_disp st) rs \<and> regs (im_instances st) insts \<and>
     distinct (map fst insts) \<and> distinct (map snd insts) \<and> snd ` set insts = dom (im_objs st) \<and>
     (\<forall>(i, ob) \<in> set insts. \<forall>cls. im_objs st ob = Some cls \<longrightarrow>
        class_index cls = i \<and> map fst (filter (\<lambda>r. snd r = ob) rs) \<in> class_events cls) \<and>
     snd ` set rs \<subseteq> dom (im_objs st) \<union> ext \<and> ext \<inter> dom (im_objs st) = {}"

text \<open>Memory for the event: free cells, and a new address for the object.\<close>

definition alloc_ok :: "listener set \<Rightarrow> ifmgr_env \<Rightarrow> ifmgr \<Rightarrow> bool" where
  "alloc_ok ext env st \<longleftrightarrow> cells_ok (ie_cell env) (im_disp st) \<and> (\<exists>a. ie_inst env = Some a \<and> cells (im_instances st) a = None) \<and>
     im_objs st (ie_new env) = None \<and> ie_new env \<notin> ext"

lemma open_instance_ok:
  assumes inv: "im_inv ext st rs insts" and al: "alloc_ok ext env st" and i: "i \<notin> fst ` set insts" "class_index cls = i"
    and evs: "evs \<in> class_events cls" and w: "\<And>k. cls = IPACM_Wlan k \<Longrightarrow> num_wlan_ap_iface st \<in> {0, 1}"
  shows "\<exists>st'. open_instance env i cls evs st = Some (Inr st') \<and> im_cfg st' = ie_ctor env cls (im_cfg st) \<and>
     im_objs st' = (im_objs st)(ie_new env \<mapsto> cls) \<and>
     im_inv ext st' (rs @ map (\<lambda>e. (e, ie_new env)) evs) (insts @ [(i, ie_new env)])"
proof -
  let ?n = "ie_new env"
  define nw where "nw = (case cls of IPACM_Wlan k \<Rightarrow> if ie_wlan_up env then num_wlan_ap_iface st + 1 else num_wlan_ap_iface st
      | _ \<Rightarrow> num_wlan_ap_iface st)"
  have new: "new_iface env cls st = Some (Inr (st\<lparr>im_objs := (im_objs st)(?n \<mapsto> cls), im_cfg := ie_ctor env cls (im_cfg st),
      im_inactive := im_inactive st - {?n}, num_wlan_ap_iface := nw\<rparr>))"
  proof (cases cls)
    case (IPACM_Wlan k)
    then have "\<not> (num_wlan_ap_iface st < 0 \<or> num_wlan_ap_iface st > 1)" using w by auto
    then show ?thesis using IPACM_Wlan by (cases st) (simp add: new_iface_def Let_def nw_def)
  qed (cases st; simp add: new_iface_def nw_def)+
  obtain d where d: "registr_all (ie_cell env) 0 evs ?n (im_disp st) = Some (Inr d)" "regs d (rs @ map (\<lambda>e. (e, ?n)) evs)"
    using registr_all_ok[of "im_disp st" rs "ie_cell env" evs ?n] inv al by (auto simp: im_inv_def alloc_ok_def)
  obtain a where a: "ie_inst env = Some a" "cells (im_instances st) a = None" using al by (auto simp: alloc_ok_def)
  obtain l where l: "instance_registr (Some a) i ?n (im_instances st) = Some (Inr (IPACM_SUCCESS, l))" "regs l (insts @ [(i, ?n)])"
    using registr_regs[of "im_instances st" insts a i ?n] inv a by (auto simp: im_inv_def instance_registr_def)
  have fresh: "?n \<notin> snd ` set insts" "?n \<notin> snd ` set rs" "?n \<notin> ext" using inv al by (auto simp: im_inv_def alloc_ok_def)
  have old: "filter (\<lambda>r. snd r = ob) (rs @ map (\<lambda>e. (e, ?n)) evs) = filter (\<lambda>r. snd r = ob) rs" if "ob \<noteq> ?n" for ob
    using that by (auto simp: filter_empty_conv)
  have this_obj: "map fst (filter (\<lambda>r. snd r = ?n) (rs @ map (\<lambda>e. (e, ?n)) evs)) = evs"
  proof -
    have "filter (\<lambda>r. snd r = ?n) rs = []" using fresh(2) by (force simp: filter_empty_conv)
    moreover have "filter (\<lambda>r. snd r = ?n) (map (\<lambda>e. (e, ?n)) evs) = map (\<lambda>e. (e, ?n)) evs" by (simp add: filter_True)
    ultimately show ?thesis by (simp add: o_def)
  qed
  let ?s = "st\<lparr>im_objs := (im_objs st)(?n \<mapsto> cls), im_cfg := ie_ctor env cls (im_cfg st), im_inactive := im_inactive st - {?n}, num_wlan_ap_iface := nw,
      im_disp := d, im_instances := l\<rparr>"
  have "\<forall>(j, ob) \<in> set (insts @ [(i, ?n)]). \<forall>c. im_objs ?s ob = Some c \<longrightarrow>
      class_index c = j \<and> map fst (filter (\<lambda>r. snd r = ob) (rs @ map (\<lambda>e. (e, ?n)) evs)) \<in> class_events c"
  proof (intro ballI, clarify)
    fix j ob c
    assume m: "(j, ob) \<in> set (insts @ [(i, ?n)])" and c: "im_objs ?s ob = Some c"
    show "class_index c = j \<and> map fst (filter (\<lambda>r. snd r = ob) (rs @ map (\<lambda>e. (e, ?n)) evs)) \<in> class_events c"
    proof (cases "ob = ?n")
      case True
      then have "j = i" "c = cls" using m fresh(1) c by (force, simp)
      then show ?thesis using True this_obj evs i(2) by simp
    next
      case False
      then show ?thesis using m c old[OF False] inv by (force simp: im_inv_def)
    qed
  qed
  then have "im_inv ext ?s (rs @ map (\<lambda>e. (e, ?n)) evs) (insts @ [(i, ?n)])"
    using inv d(2) l(2) i(1) fresh unfolding im_inv_def by auto
  then show ?thesis using new d(1) l(1) a(1) by (intro exI[of _ ?s]) (simp add: open_instance_def)
qed


section \<open>Every event\<close>

text \<open>The constructors leave the interface table alone.\<close>

definition ctor_ok :: "ifmgr_env \<Rightarrow> bool" where
  "ctor_ok env \<longleftrightarrow> (\<forall>cls c. iface_table (ie_ctor env cls c) = iface_table c \<and>
     ipa_num_ipa_interfaces (ie_ctor env cls c) = ipa_num_ipa_interfaces c \<and> iface_table_freed (ie_ctor env cls c) = iface_table_freed c)"

lemma ctor_ok_cfg: "ctor_ok env \<Longrightarrow> cfg_ok names (ie_ctor env cls c) = cfg_ok names c"
  by (rule cfg_ok_cong(1)) (auto simp: ctor_ok_def)

lemma im_inv_cfg [simp]: "im_inv ext (st\<lparr>im_cfg := c\<rparr>) rs insts = im_inv ext st rs insts" "alloc_ok ext env (st\<lparr>im_cfg := c\<rparr>) = alloc_ok ext env st"
  by (simp_all add: im_inv_def alloc_ok_def)

lemma odu_view:
  assumes "cfg_view c' = cfg_view c"
  shows "ipacm_odu_enable c' = ipacm_odu_enable c" "ipacm_odu_router_mode c' = ipacm_odu_router_mode c"
  using arg_cong[OF assms, of ipacm_odu_enable] arg_cong[OF assms, of ipacm_odu_router_mode] by (simp_all add: cfg_view_def)

lemma iface_plan_view:
  assumes "cfg_view c' = cfg_view c"
  shows "iface_plan c' = iface_plan c"
  by (intro ext) (simp add: iface_plan_def odu_view[OF assms])

lemma iface_plan_class:
  assumes "iface_plan c i param cat = Some (cls, evs, addr)"
  shows "class_index cls = i" "evs \<in> class_events cls" "cls = IPACM_Wlan n \<Longrightarrow> cat = WLAN_IF"
  using assms by (auto simp: iface_plan_def split: ipacm_iface_type.splits if_splits)

definition plans :: "IPACM_Config \<Rightarrow> ipacm_iface_type \<Rightarrow> bool" where
  "plans c cat \<longleftrightarrow> cat \<in> {LAN_IF, ETH_IF, ODU_IF, WLAN_IF, EMBMS_IF} \<or> cat = WAN_IF \<and> (\<not> ipacm_odu_enable c \<or> ipacm_odu_router_mode c)"

lemma iface_plan_plans: "iface_plan c i param cat \<noteq> None \<longleftrightarrow> plans c cat"
  by (cases cat) (auto simp: iface_plan_def plans_def)

lemma create_ok:
  assumes inv: "im_inv ext st rs insts" and al: "alloc_ok ext env st" and ok: "cfg_ok names (im_cfg st)"
    and kn: "known names (im_cfg st) (ifm_if_index param)" and e: "ie_names env = names" and ct: "ctor_ok env"
    and j: "row_of names (im_cfg st) (ifm_if_index param) = Some j"
    and w: "if_cat (iface_table (im_cfg st) ! j) = WLAN_IF \<Longrightarrow> num_wlan_ap_iface st \<in> {0, 1}"
  shows "\<exists>posts st' rs'. create_iface_instance env param st = Some (Inr (posts, st')) \<and> cfg_ok names (im_cfg st') \<and>
     im_inv ext st' rs' (if int j \<notin> fst ` set insts \<and> iface_plan (im_cfg st) (int j) param (if_cat (iface_table (im_cfg st) ! j)) \<noteq> None
       then insts @ [(int j, ie_new env)] else insts)"
proof -
  let ?k = "ifm_if_index param" and ?cat = "if_cat (iface_table (im_cfg st) ! j)"
  obtain c' where c': "iface_ipa_index_query names ?k (im_cfg st) = Inr (int j, c')" "cfg_ok names c'" "cfg_view c' = cfg_view (im_cfg st)"
    "iface_row (int j) c' = Inr (iface_table c' ! j)" "if_cat (iface_table c' ! j) = ?cat"
    using known_row[OF ok kn] j by auto
  let ?s = "st\<lparr>im_cfg := c'\<rparr>"
  have s: "SearchInstance (int j) ?s = Some (Inr (int j \<in> fst ` set insts))"
    using SearchInstance_regs[of ?s insts "int j"] inv c'(4) by (simp add: im_inv_def)
  have "int j \<noteq> INVALID_IFACE" by (simp add: INVALID_IFACE_def)
  note start = create_iface_instance_def e c'(1) this s c'(4)
  show ?thesis
  proof (cases "int j \<in> fst ` set insts")
    case True
    then show ?thesis using inv c'(2) by (auto simp: start)
  next
    case False
    show ?thesis
    proof (cases "iface_plan (im_cfg st) (int j) param ?cat")
      case None
      then show ?thesis using False inv c'(2,5) iface_plan_view[OF c'(3)] by (auto simp: start)
    next
      case (Some p)
      then obtain cls evs addr where p: "iface_plan (im_cfg st) (int j) param ?cat = Some (cls, evs, addr)" by (cases p) auto
      note cl = iface_plan_class[OF p]
      have inv': "im_inv ext ?s rs insts" "alloc_ok ext env ?s" using inv al by simp_all
      obtain st' where st': "open_instance env (int j) cls evs ?s = Some (Inr st')" "im_cfg st' = ie_ctor env cls c'"
        "im_inv ext st' (rs @ map (\<lambda>e. (e, ie_new env)) evs) (insts @ [(int j, ie_new env)])"
        using open_instance_ok[OF inv' False cl(1,2)] cl(3) w by auto
      then show ?thesis using False p c'(2,5) iface_plan_view[OF c'(3)] ctor_ok_cfg[OF ct] by (auto simp: start)
    qed
  qed
qed


text \<open>Which events open an instance for an interface of a category.\<close>

definition opens :: "IPACM_Config \<Rightarrow> ipa_cm_event_id \<Rightarrow> ipacm_iface_type \<Rightarrow> bool" where
  "opens c ev cat \<longleftrightarrow>
     (let wan = (\<not> ipacm_odu_enable c \<or> ipacm_odu_router_mode c)
      in ev = IPA_LINK_UP_EVENT \<and> cat = WAN_IF \<and> wan \<or>
         ev = IPA_USB_LINK_UP_EVENT \<and> (cat \<in> {LAN_IF, ETH_IF, ODU_IF, WLAN_IF, EMBMS_IF} \<or> cat = WAN_IF \<and> wan) \<or>
         ev = IPA_WLAN_AP_LINK_UP_EVENT \<and> cat = UNKNOWN_IF \<or>
         ev = IPA_WLAN_STA_LINK_UP_EVENT \<and> cat = UNKNOWN_IF \<and> wan \<or>
         ev = IPA_WAN_EMBMS_LINK_UP_EVENT \<and> ipacm_odu_enable c \<and> cat = WAN_IF)"

text \<open>An event the manager can handle: memory, a known interface, no third access point; or a configuration that can be read again.\<close>

definition env_ok :: "listener set \<Rightarrow> (int \<Rightarrow> string option) \<Rightarrow> ifmgr_env \<Rightarrow> ipa_cm_event_id \<Rightarrow> int \<Rightarrow> ifmgr \<Rightarrow> bool" where
  "env_ok ext names env ev k st \<longleftrightarrow> alloc_ok ext env st \<and> ie_names env = names \<and> ctor_ok env \<and>
     (if ev = IPA_CFG_CHANGE_EVENT
      then \<exists>c. Init (fst (ie_init env)) (snd (ie_init env)) (im_cfg st) = Inr (IPACM_SUCCESS, c) \<and> cfg_ok names c
      else known names (im_cfg st) k \<and> (num_wlan_ap_iface st \<in> {0, 1} \<or>
        (\<forall>j. row_of names (im_cfg st) k = Some j \<longrightarrow> if_cat (iface_table (im_cfg st) ! j) \<notin> {WLAN_IF, UNKNOWN_IF})))"

lemma set_cat_facts:
  assumes "j < length (iface_table c)"
  shows "cfg_ok names (set_cat (int j) cat c) = cfg_ok names c" "row_of names (set_cat (int j) cat c) k = row_of names c k"
    "if_cat (iface_table (set_cat (int j) cat c) ! j) = cat" "known names (set_cat (int j) cat c) k = known names c k"
    "ipacm_odu_enable (set_cat (int j) cat c) = ipacm_odu_enable c" "ipacm_odu_router_mode (set_cat (int j) cat c) = ipacm_odu_router_mode c"
proof -
  have m: "map (\<lambda>r. (iface_name r, netlink_interface_index r)) (iface_table (set_cat (int j) cat c)) =
      map (\<lambda>r. (iface_name r, netlink_interface_index r)) (iface_table c)"
    using assms by (auto simp: set_cat_def list_eq_iff_nth_eq nth_list_update)
  then show "cfg_ok names (set_cat (int j) cat c) = cfg_ok names c" "row_of names (set_cat (int j) cat c) k = row_of names c k"
    using cfg_ok_cong[OF m, of names] by (simp_all add: set_cat_def)
  then show "known names (set_cat (int j) cat c) k = known names c k" by (simp add: known_def)
qed (use assms in \<open>simp_all add: set_cat_def\<close>)

text \<open>What a handler leaves: the instances \<open>insts\<close>, and again a table that can be asked.\<close>

definition leaves :: "listener set \<Rightarrow> (int \<Rightarrow> string option) \<Rightarrow> (int \<times> listener) list \<Rightarrow> (fault + addr_event list \<times> ifmgr) option \<Rightarrow> bool" where
  "leaves ext names insts res \<longleftrightarrow> (\<exists>posts st' rs'. res = Some (Inr (posts, st')) \<and> cfg_ok names (im_cfg st') \<and> im_inv ext st' rs' insts)"

lemma leaves_same: "im_inv ext st rs insts \<Longrightarrow> cfg_ok names (im_cfg st) \<Longrightarrow> leaves ext names insts (Some (Inr ([], st)))"
  by (auto simp: leaves_def)

lemma link_up_ok:
  assumes inv: "im_inv ext st rs insts" and ok: "cfg_ok names (im_cfg st)" and env: "env_ok ext names env ev k st"
    and ev: "ev \<in> {IPA_LINK_UP_EVENT, IPA_USB_LINK_UP_EVENT, IPA_WLAN_AP_LINK_UP_EVENT, IPA_WLAN_STA_LINK_UP_EVENT, IPA_WAN_EMBMS_LINK_UP_EVENT}"
    and j: "row_of names (im_cfg st) k = Some j"
  shows "leaves ext names (if int j \<notin> fst ` set insts \<and> opens (im_cfg st) ev (if_cat (iface_table (im_cfg st) ! j))
       then insts @ [(int j, ie_new env)] else insts) (link_up env ev k mac st)"
proof -
  let ?cat = "if_cat (iface_table (im_cfg st) ! j)"
  have al: "alloc_ok ext env st" and e: "ie_names env = names" and ct: "ctor_ok env" and kn: "known names (im_cfg st) k"
    and w: "?cat \<in> {WLAN_IF, UNKNOWN_IF} \<Longrightarrow> num_wlan_ap_iface st \<in> {0, 1}" using env ev j by (auto simp: env_ok_def)
  obtain c' where c': "iface_ipa_index_query names k (im_cfg st) = Inr (int j, c')" "cfg_ok names c'" "cfg_view c' = cfg_view (im_cfg st)"
    "iface_row (int j) c' = Inr (iface_table c' ! j)" "if_cat (iface_table c' ! j) = ?cat"
    using known_row[OF ok kn] j by auto
  have row: "row_of names c' k = Some j" using j cfg_view_eq(5)[OF c'(3)] by simp
  have kn': "known names c' k" using kn row by (simp add: known_def)
  let ?p = "\<lambda>ty m. \<lparr>ifm_if_index = k, ifm_if_type = ty, ifm_mac_addr = m\<rparr>"
  have same: "leaves ext names insts (Some (Inr ([], st\<lparr>im_cfg := c'\<rparr>)))" using leaves_same[of ext "st\<lparr>im_cfg := c'\<rparr>"] inv c'(2) by simp
  have create: "leaves ext names (if int j \<notin> fst ` set insts \<and> plans c cat then insts @ [(int j, ie_new env)] else insts)
      (create_iface_instance env (?p ty m) (st\<lparr>im_cfg := c\<rparr>))"
    if "cfg_ok names c" "known names c k" "row_of names c k = Some j" "if_cat (iface_table c ! j) = cat"
      "cat = WLAN_IF \<Longrightarrow> num_wlan_ap_iface st \<in> {0, 1}" for c ty m cat
  proof -
    have I: "im_inv ext (st\<lparr>im_cfg := c\<rparr>) rs insts" "alloc_ok ext env (st\<lparr>im_cfg := c\<rparr>)" using inv al by simp_all
    have H: "cfg_ok names (im_cfg (st\<lparr>im_cfg := c\<rparr>))" "known names (im_cfg (st\<lparr>im_cfg := c\<rparr>)) (ifm_if_index (?p ty m))"
      "row_of names (im_cfg (st\<lparr>im_cfg := c\<rparr>)) (ifm_if_index (?p ty m)) = Some j" using that(1-3) by simp_all
    have W: "if_cat (iface_table (im_cfg (st\<lparr>im_cfg := c\<rparr>)) ! j) = WLAN_IF \<Longrightarrow> num_wlan_ap_iface (st\<lparr>im_cfg := c\<rparr>) \<in> {0, 1}"
      using that(4,5) by simp
    have c: "im_cfg (st\<lparr>im_cfg := c\<rparr>) = c" by simp
    show ?thesis unfolding leaves_def by (rule create_ok[OF I H(1,2) e ct H(3) W, unfolded c that(4) iface_plan_plans])
  qed
  have plain: "leaves ext names (if int j \<notin> fst ` set insts \<and> plans c' ?cat then insts @ [(int j, ie_new env)] else insts)
      (create_iface_instance env (?p ty m) (st\<lparr>im_cfg := c'\<rparr>))" for ty m
    using create[of c' ?cat ty m] c'(2,5) kn' row w by simp
  have "j < length (iface_table c')" using row_of_less[OF row] .
  note sc = set_cat_facts[OF this]
  have changed: "leaves ext names (if int j \<notin> fst ` set insts \<and> plans (set_cat (int j) cat c') cat
        then insts @ [(int j, ie_new env)] else insts)
      (create_iface_instance env (?p ty m) (st\<lparr>im_cfg := set_cat (int j) cat c'\<rparr>))"
    if "cat = WLAN_IF \<Longrightarrow> num_wlan_ap_iface st \<in> {0, 1}" for ty m cat
    using create[of "set_cat (int j) cat c'" cat ty m] sc c'(2) kn' row that by simp
  note odu = odu_view[OF c'(3)]
  note start = link_up_def e c'(1,4,5) Let_def opens_def odu
  from ev consider (up) "ev = IPA_LINK_UP_EVENT" | (usb) "ev = IPA_USB_LINK_UP_EVENT" | (ap) "ev = IPA_WLAN_AP_LINK_UP_EVENT"
    | (sta) "ev = IPA_WLAN_STA_LINK_UP_EVENT" | (embms) "ev = IPA_WAN_EMBMS_LINK_UP_EVENT" by auto
  then show ?thesis
  proof cases
    case up
    then show ?thesis using same plain[of Q6_WAN "replicate 6 0"] by (cases ?cat) (simp_all add: start plans_def)
  next
    case usb
    then show ?thesis using plain[of "if ?cat = WAN_IF then ECM_WAN else Q6_WAN" "replicate 6 0"]
      by (cases ?cat) (simp_all add: start plans_def)
  next
    case ap
    then show ?thesis using same changed[of WLAN_IF Q6_WAN "replicate 6 0"] w by (cases ?cat) (simp_all add: start plans_def)
  next
    case sta
    then show ?thesis using same changed[of WAN_IF WLAN_WAN mac] sc(5,6) by (cases ?cat) (simp_all add: start plans_def)
  next
    case embms
    then show ?thesis using same changed[of EMBMS_IF Q6_WAN "replicate 6 0"] by (cases ?cat) (simp_all add: start plans_def)
  qed
qed


lemma event_callback_ok:
  assumes inv: "im_inv ext st rs insts" and ok: "cfg_ok names (im_cfg st)" and env: "env_ok ext names env ev k st"
  shows "leaves ext names
     (case row_of names (im_cfg st) k of
        None \<Rightarrow> insts
      | Some j \<Rightarrow> if int j \<notin> fst ` set insts \<and> opens (im_cfg st) ev (if_cat (iface_table (im_cfg st) ! j)) then insts @ [(int j, ie_new env)] else insts)
     (IfaceManager_event_callback env ev k mac st)"
proof -
  let ?ups = "{IPA_LINK_UP_EVENT, IPA_USB_LINK_UP_EVENT, IPA_WLAN_AP_LINK_UP_EVENT, IPA_WLAN_STA_LINK_UP_EVENT, IPA_WAN_EMBMS_LINK_UP_EVENT}"
  consider (cfg) "ev = IPA_CFG_CHANGE_EVENT" | (up) "ev \<in> ?ups" | (other) "ev \<noteq> IPA_CFG_CHANGE_EVENT" "ev \<notin> ?ups" by blast
  then show ?thesis
  proof cases
    case cfg
    obtain c where c: "Init (fst (ie_init env)) (snd (ie_init env)) (im_cfg st) = Inr (IPACM_SUCCESS, c)" "cfg_ok names c"
      using env cfg by (auto simp: env_ok_def)
    have "\<not> opens d ev cat" for d cat using cfg by (simp add: opens_def)
    then show ?thesis using c cfg inv leaves_same[of ext "st\<lparr>im_cfg := c\<rparr>" rs insts names]
      by (simp add: IfaceManager_event_callback_def split: option.split)
  next
    case up
    then obtain j where j: "row_of names (im_cfg st) k = Some j" using env by (auto simp: env_ok_def known_def)
    have "IfaceManager_event_callback env ev k mac st = link_up env ev k mac st" using up by (auto simp: IfaceManager_event_callback_def)
    then show ?thesis using link_up_ok[OF inv ok env up j, of mac] j by simp
  next
    case other
    then have "\<not> opens d ev cat" for d cat by (auto simp: opens_def)
    then show ?thesis using other leaves_same[OF inv ok] by (simp add: IfaceManager_event_callback_def split: option.split)
  qed
qed

lemma filter_fst_snd: "filter (\<lambda>r. snd r = ob) (filter (\<lambda>r. snd r \<noteq> obj) rs) = (if ob = obj then [] else filter (\<lambda>r. snd r = ob) rs)"
  by (induction rs) auto

text \<open>Deleting an instance keeps the invariant for the others.\<close>

lemma delete_iface_ok:
  assumes inv: "im_inv ext st rs insts" and o: "im_objs st obj \<noteq> None"
  shows "\<exists>d l. delete_iface obj st = Some (Inr (st\<lparr>im_disp := d, im_instances := l, im_objs := (im_objs st)(obj := None)\<rparr>)) \<and>
     im_inv ext (st\<lparr>im_disp := d, im_instances := l, im_objs := (im_objs st)(obj := None)\<rparr>)
       (filter (\<lambda>r. snd r \<noteq> obj) rs) (filter (\<lambda>r. snd r \<noteq> obj) insts)"
proof -
  obtain cls where c: "im_objs st obj = Some cls" using o by auto
  have r: "regs (im_disp st) rs" "regs (im_instances st) insts" using inv by (auto simp: im_inv_def)
  obtain d l where dl: "delete_iface obj st = Some (Inr (st\<lparr>im_disp := d, im_instances := l, im_objs := (im_objs st)(obj := None)\<rparr>))"
    "regs d (filter (\<lambda>r. snd r \<noteq> obj) rs)" "regs l (filter (\<lambda>r. snd r \<noteq> obj) insts)"
    using delete_iface_regs[OF r c] by blast
  let ?s = "st\<lparr>im_disp := d, im_instances := l, im_objs := (im_objs st)(obj := None)\<rparr>"
  have "distinct (map fst (filter (\<lambda>r. snd r \<noteq> obj) insts))" "distinct (map snd (filter (\<lambda>r. snd r \<noteq> obj) insts))"
    using inv by (auto simp: im_inv_def distinct_map_filter)
  moreover have "snd ` set (filter (\<lambda>r. snd r \<noteq> obj) insts) = dom (im_objs ?s)"
    using inv by (auto simp: im_inv_def)
  moreover have "\<forall>(i, ob) \<in> set (filter (\<lambda>r. snd r \<noteq> obj) insts). \<forall>cls. im_objs ?s ob = Some cls \<longrightarrow>
      class_index cls = i \<and> map fst (filter (\<lambda>r. snd r = ob) (filter (\<lambda>r. snd r \<noteq> obj) rs)) \<in> class_events cls"
    using inv unfolding filter_fst_snd by (force simp: im_inv_def)
  moreover have "snd ` set (filter (\<lambda>r. snd r \<noteq> obj) rs) \<subseteq> dom (im_objs ?s) \<union> ext" "ext \<inter> dom (im_objs ?s) = {}"
    using inv by (auto simp: im_inv_def)
  ultimately have "im_inv ext ?s (filter (\<lambda>r. snd r \<noteq> obj) rs) (filter (\<lambda>r. snd r \<noteq> obj) insts)"
    using dl(2,3) unfolding im_inv_def by (intro conjI) auto
  then show ?thesis using dl(1) by blast
qed

text \<open>An instance that can be closed: it is alive, its row is still in the table and the list of NAT interfaces is within its array.\<close>

definition closable :: "listener \<Rightarrow> iface_class \<Rightarrow> ifmgr \<Rightarrow> bool" where
  "closable obj cls st \<longleftrightarrow> im_objs st obj = Some cls \<and> 0 \<le> class_index cls \<and> nat (class_index cls) < length (iface_table (im_cfg st)) \<and>
     ipa_nat_iface_entries (im_cfg st) \<le> length (pNatIfaces (im_cfg st))"

lemma DelNatIfaces_table:
  assumes "DelNatIfaces dev c = Inr (r, c')"
  shows "iface_table c' = iface_table c" "ipa_num_ipa_interfaces c' = ipa_num_ipa_interfaces c" "iface_table_freed c' = iface_table_freed c"
  using assms by (auto simp: DelNatIfaces_def split: option.splits if_splits)

lemma DelNatIfaces_runs:
  "ipa_nat_iface_entries c \<le> length (pNatIfaces c) \<Longrightarrow> \<exists>r c'. DelNatIfaces dev c = Inr (r, c')"
  by (auto simp: DelNatIfaces_def split: option.splits)

text \<open>What the link-down handler does to the configuration.\<close>

definition cfg_down :: "string \<Rightarrow> iface_class \<Rightarrow> IPACM_Config \<Rightarrow> IPACM_Config \<Rightarrow> bool" where
  "cfg_down dev cls c c' \<longleftrightarrow> (\<exists>r. DelNatIfaces dev (if resets_cat cls then set_cat (class_index cls) UNKNOWN_IF c else c) = Inr (r, c'))"

lemma cfg_down_ok:
  assumes "closable obj cls st" "cfg_ok names (im_cfg st)" "cfg_down dev cls (im_cfg st) c'"
  shows "cfg_ok names c'"
proof -
  let ?c = "if resets_cat cls then set_cat (class_index cls) UNKNOWN_IF (im_cfg st) else im_cfg st"
  obtain r where r: "DelNatIfaces dev ?c = Inr (r, c')" using assms(3) by (auto simp: cfg_down_def)
  obtain j where j: "class_index cls = int j" "j < length (iface_table (im_cfg st))" using assms(1) by (auto simp: closable_def intro: that nonneg_int_cases)
  have "cfg_ok names ?c" using assms(2) set_cat_facts(1)[OF j(2), of names UNKNOWN_IF] j(1) by simp
  then show ?thesis using cfg_ok_cong(1)[of c' ?c names] DelNatIfaces_table[OF r] by simp
qed

lemma iface_row_closable: "cfg_ok names (im_cfg st) \<Longrightarrow> closable obj cls st \<Longrightarrow> \<exists>r. iface_row (class_index cls) (im_cfg st) = Inr r"
  by (auto simp: iface_row_def closable_def cfg_ok_def)

lemma iface_down_ok:
  assumes inv: "im_inv ext st rs insts" and ok: "cfg_ok names (im_cfg st)" and cl: "closable obj cls st" and act: "obj \<notin> im_inactive st"
  shows "\<exists>st'. iface_down dev obj st = Some (Inr st') \<and> cfg_down dev cls (im_cfg st) (im_cfg st') \<and> cfg_ok names (im_cfg st') \<and>
     (case cls of
        IPACM_Wan i t m \<Rightarrow> im_objs st' = (im_objs st)(obj := None) \<and>
          im_inv ext st' (filter (\<lambda>r. snd r \<noteq> obj) rs) (filter (\<lambda>r. snd r \<noteq> obj) insts)
      | _ \<Rightarrow> im_objs st' = im_objs st \<and> obj \<in> im_inactive st' \<and> im_inv ext st' rs insts)"
proof -
  obtain row where row: "iface_row (class_index cls) (im_cfg st) = Inr row" using iface_row_closable[OF ok cl] by blast
  let ?c = "if resets_cat cls then set_cat (class_index cls) UNKNOWN_IF (im_cfg st) else im_cfg st"
  have "ipa_nat_iface_entries ?c \<le> length (pNatIfaces ?c)" using cl by (simp add: closable_def set_cat_def)
  then obtain r c' where c': "DelNatIfaces dev ?c = Inr (r, c')" using DelNatIfaces_runs by blast
  have d: "cfg_down dev cls (im_cfg st) c'" using c' by (auto simp: cfg_down_def)
  note cok = cfg_down_ok[OF cl ok d]
  have o: "im_objs st obj = Some cls" using cl by (simp add: closable_def)
  have inv': "im_inv ext (st\<lparr>im_cfg := c'\<rparr>) rs insts" "im_objs (st\<lparr>im_cfg := c'\<rparr>) obj \<noteq> None" using inv o by simp_all
  note del = delete_iface_ok[OF inv']
  have "im_inv ext (st\<lparr>im_cfg := c', im_inactive := insert obj (im_inactive st)\<rparr>) rs insts" using inv by (simp add: im_inv_def)
  then show ?thesis using o act row c' d cok del by (cases cls) (auto simp: iface_down_def)
qed

lemma iface_delete_self_ok:
  assumes inv: "im_inv ext st rs insts" and ok: "cfg_ok names (im_cfg st)" and cl: "closable obj cls st" and w: "\<And>i t m. cls \<noteq> IPACM_Wan i t m"
  shows "\<exists>st'. iface_delete_self obj st = Some (Inr st') \<and> im_cfg st' = im_cfg st \<and> im_objs st' = (im_objs st)(obj := None) \<and>
     im_inv ext st' (filter (\<lambda>r. snd r \<noteq> obj) rs) (filter (\<lambda>r. snd r \<noteq> obj) insts) \<and>
     num_wlan_ap_iface st' = num_wlan_ap_iface st - (case cls of IPACM_Wlan i \<Rightarrow> 1 | _ \<Rightarrow> 0)"
proof -
  obtain row where row: "iface_row (class_index cls) (im_cfg st) = Inr row" using iface_row_closable[OF ok cl] by blast
  have o: "im_objs st obj = Some cls" using cl by (simp add: closable_def)
  let ?s = "st\<lparr>num_wlan_ap_iface := num_wlan_ap_iface st - 1\<rparr>"
  have inv': "im_inv ext ?s rs insts" "im_objs ?s obj \<noteq> None" using inv o by (simp_all add: im_inv_def)
  have o': "im_objs st obj \<noteq> None" using o by simp
  show ?thesis using o row delete_iface_ok[OF inv o'] delete_iface_ok[OF inv'] w by (cases cls) (auto simp: iface_delete_self_def)
qed

section \<open>Reachable states\<close>

text \<open>The manager is created while other listeners may be registered already; then events arrive and instances close.\<close>

inductive ifmgr_reach :: "listener set \<Rightarrow> (int \<Rightarrow> string option) \<Rightarrow> ifmgr \<Rightarrow> bool" for ext names where
  created: "regs d rs \<Longrightarrow> snd ` set rs \<subseteq> ext \<Longrightarrow> this \<in> ext \<Longrightarrow> cells_ok cell d \<Longrightarrow> cfg_ok names c \<Longrightarrow>
     IfaceManager_new cell this c d = Some (Inr st) \<Longrightarrow> ifmgr_reach ext names st"
| event: "ifmgr_reach ext names st \<Longrightarrow> env_ok ext names env ev k st \<Longrightarrow>
     IfaceManager_event_callback env ev k mac st = Some (Inr (posts, st')) \<Longrightarrow> ifmgr_reach ext names st'"
| down: "ifmgr_reach ext names st \<Longrightarrow> closable obj cls st \<Longrightarrow> iface_down dev obj st = Some (Inr st') \<Longrightarrow> ifmgr_reach ext names st'"
| delete_self: "ifmgr_reach ext names st \<Longrightarrow> closable obj cls st \<Longrightarrow> obj \<in> im_inactive st \<Longrightarrow>
     iface_delete_self obj st = Some (Inr st') \<Longrightarrow> ifmgr_reach ext names st'"

lemma IfaceManager_new_ok:
  assumes "regs d rs" "snd ` set rs \<subseteq> ext" "this \<in> ext" "cells_ok cell d"
  shows "\<exists>st. IfaceManager_new cell this c d = Some (Inr st) \<and> im_cfg st = c \<and> im_inv ext st (rs @ map (\<lambda>e. (e, this)) ifmgr_events) []"
proof -
  obtain d' where "registr_all cell 0 ifmgr_events this d = Some (Inr d')" "regs d' (rs @ map (\<lambda>e. (e, this)) ifmgr_events)"
    using registr_all_ok[OF assms(1,4)] by blast
  then show ?thesis using assms(2,3) inst.rep_init by (auto simp: IfaceManager_new_def im_inv_def)
qed

lemma ifmgr_reach_inv:
  assumes "ifmgr_reach ext names st"
  shows "cfg_ok names (im_cfg st) \<and> (\<exists>rs insts. im_inv ext st rs insts)"
  using assms
proof induction
  case (created d rs this cell c st)
  then show ?case using IfaceManager_new_ok[OF created.hyps(1-4), of c] by auto
next
  case (event st env ev k mac posts st')
  then obtain rs insts where "im_inv ext st rs insts" "cfg_ok names (im_cfg st)" by auto
  from event_callback_ok[OF this event.hyps(2), of mac] show ?case using event.hyps(3) by (auto simp: leaves_def)
next
  case (down st obj cls dev st')
  then obtain rs insts where inv: "im_inv ext st rs insts" "cfg_ok names (im_cfg st)" by auto
  show ?case
  proof (cases "obj \<in> im_inactive st")
    case True
    then have "st' = st" using down.hyps(2,3) by (simp add: iface_down_def closable_def)
    then show ?thesis using inv by blast
  next
    case False
    from iface_down_ok[OF inv down.hyps(2) this, of dev] show ?thesis using down.hyps(3) by (cases cls) auto
  qed
next
  case (delete_self st obj cls st')
  then obtain rs insts where inv: "im_inv ext st rs insts" "cfg_ok names (im_cfg st)" by auto
  show ?case
  proof (cases "\<exists>i t m. cls = IPACM_Wan i t m")
    case True
    then have "st' = st" using delete_self.hyps(2,4) by (auto simp: iface_delete_self_def closable_def)
    then show ?thesis using inv by blast
  next
    case False
    then show ?thesis using iface_delete_self_ok[OF inv delete_self.hyps(2)] delete_self.hyps(4) inv(2) by auto
  qed
qed


text \<open>C11. The interface manager never faults on an event it can handle, and keeps one instance per interface. In every reachable
  state the instance list names each interface at most once, every instance is alive, serves its interface and is registered
  with the dispatcher exactly for the events of its class, and no other object but the other listeners is. A link-up event
  opens an instance exactly when the category of the interface calls for it and there is none. When an interface goes down its name
  leaves the list of NAT interfaces, the category of an access point or station becomes unknown again, an \<^verbatim>\<open>IPACM_Wan\<close> is removed with
  its registrations and the others become inactive; \<^verbatim>\<open>IPA_LAN_DELETE_SELF\<close> then removes those with their registrations. The events the
  manager can handle (\<open>env_ok\<close>) have memory for the object and its cells, name an interface of the table and are no third access
  point, and a configuration read again is read without error; constructors leave the interface table alone. An instance can be closed
  (\<open>closable\<close>) when its row is in the table and the count of NAT interfaces is within its array.\<close>

theorem ifmgr_one_instance:
  assumes "ifmgr_reach ext names st"
  shows "\<exists>rs insts. im_inv ext st rs insts \<and>
     (\<forall>env ev k mac. env_ok ext names env ev k st \<longrightarrow>
        leaves ext names
          (case row_of names (im_cfg st) k of
             None \<Rightarrow> insts
           | Some j \<Rightarrow> if int j \<notin> fst ` set insts \<and> opens (im_cfg st) ev (if_cat (iface_table (im_cfg st) ! j))
               then insts @ [(int j, ie_new env)] else insts)
          (IfaceManager_event_callback env ev k mac st)) \<and>
     (\<forall>dev obj cls. closable obj cls st \<and> obj \<notin> im_inactive st \<longrightarrow>
        (\<exists>st'. iface_down dev obj st = Some (Inr st') \<and> cfg_down dev cls (im_cfg st) (im_cfg st') \<and> cfg_ok names (im_cfg st') \<and>
           (case cls of
              IPACM_Wan i t m \<Rightarrow> im_objs st' = (im_objs st)(obj := None) \<and>
                im_inv ext st' (filter (\<lambda>r. snd r \<noteq> obj) rs) (filter (\<lambda>r. snd r \<noteq> obj) insts)
            | _ \<Rightarrow> im_objs st' = im_objs st \<and> obj \<in> im_inactive st' \<and> im_inv ext st' rs insts))) \<and>
     (\<forall>obj cls. closable obj cls st \<and> (\<forall>i t m. cls \<noteq> IPACM_Wan i t m) \<longrightarrow>
        (\<exists>st'. iface_delete_self obj st = Some (Inr st') \<and> im_cfg st' = im_cfg st \<and> im_objs st' = (im_objs st)(obj := None) \<and>
           im_inv ext st' (filter (\<lambda>r. snd r \<noteq> obj) rs) (filter (\<lambda>r. snd r \<noteq> obj) insts) \<and>
           num_wlan_ap_iface st' = num_wlan_ap_iface st - (case cls of IPACM_Wlan i \<Rightarrow> 1 | _ \<Rightarrow> 0)))"
proof -
  obtain rs insts where inv: "im_inv ext st rs insts" and ok: "cfg_ok names (im_cfg st)" using ifmgr_reach_inv[OF assms] by blast
  show ?thesis
  proof (rule exI[of _ rs], rule exI[of _ insts], intro conjI allI impI)
    show "im_inv ext st rs insts" by (rule inv)
  qed (blast intro: event_callback_ok[OF inv ok] iface_down_ok[OF inv ok] iface_delete_self_ok[OF inv ok])+
qed

text \<open>A phone whose wireless interface comes up.\<close>

definition ex_names :: "int \<Rightarrow> string option" where
  "ex_names k = (if k = 5 then Some ''wlan0'' else None)"

definition ex_ifcfg :: "ipacm_iface_type \<Rightarrow> IPACM_Config" where
  "ex_ifcfg cat = (IPACM_Config_new IPA_RM_RESOURCE_Q6_PROD)\<lparr>
     iface_table := [\<lparr>iface_name = ''wlan0'', if_cat = cat, netlink_interface_index = 0\<rparr>], ipa_num_ipa_interfaces := 1\<rparr>"

definition ex_ifenv :: ifmgr_env where
  "ex_ifenv = \<lparr>ie_names = ex_names, ie_addrs = None, ie_mem = (\<lambda>_. True), ie_new = 1, ie_cell = (\<lambda>n. Some (2 * n + 1)), ie_inst = Some 0,
     ie_ctor = (\<lambda>cls c. c), ie_wlan_up = True, ie_init = ([], None)\<rparr>"

lemma ex_ifcfg_facts:
  "cfg_ok ex_names (ex_ifcfg cat)" "row_of ex_names (ex_ifcfg cat) 5 = Some 0" "known ex_names (ex_ifcfg cat) 5"
  "if_cat (iface_table (ex_ifcfg cat) ! 0) = cat" "ctor_ok ex_ifenv"
  by (simp_all add: cfg_ok_def row_of_def known_def ex_names_def ex_ifcfg_def same_name_def IPA_IFACE_NAME_LEN_def ctor_ok_def ex_ifenv_def
      IPACM_Config_new_def)

definition ex_apcfg :: IPACM_Config where
  "ex_apcfg = (ex_ifcfg WLAN_IF)\<lparr>iface_table := [\<lparr>iface_name = ''wlan0'', if_cat = WLAN_IF, netlink_interface_index = 5\<rparr>]\<rparr>"

theorem ifmgr_one_instance_witness:
  "\<exists>st posts st1 st2 rs. IfaceManager_new (\<lambda>n. Some (2 * n)) 0 (ex_ifcfg UNKNOWN_IF) dispatcher_init = Some (Inr st) \<and>
     IfaceManager_event_callback ex_ifenv IPA_WLAN_AP_LINK_UP_EVENT 5 [] st = Some (Inr (posts, st1)) \<and> im_inv {0} st1 rs [(0, 1)] \<and>
     iface_down ''wlan0'' 1 st1 = Some (Inr st2) \<and> im_inv {0} st2 rs [(0, 1)] \<and> if_cat (iface_table (im_cfg st2) ! 0) = UNKNOWN_IF"
proof -
  let ?cell = "\<lambda>n::nat. Some (2 * n)"
  have c: "cells_ok ?cell dispatcher_init" by (simp add: cells_ok_def dispatcher_init_def inj_def)
  obtain d where d: "registr_all ?cell 0 ifmgr_events 0 dispatcher_init = Some (Inr d)" "regs d (map (\<lambda>e. (e, 0)) ifmgr_events)"
    using registr_all_ok[OF regs_init c] by fastforce
  define st where "st = \<lparr>im_cfg = ex_ifcfg UNKNOWN_IF, im_instances = \<lparr>dhead = None, cells = Map.empty\<rparr>, im_disp = d,
      im_objs = Map.empty, im_inactive = {}, num_wlan_ap_iface = 0\<rparr>"
  have st: "IfaceManager_new ?cell 0 (ex_ifcfg UNKNOWN_IF) dispatcher_init = Some (Inr st)" using d by (simp add: IfaceManager_new_def st_def)
  have reach: "ifmgr_reach {0} ex_names st"
    by (rule ifmgr_reach.created[OF regs_init _ _ c ex_ifcfg_facts(1) st]) auto
  have free: "cells d (2 * n + 1) = None" for n
    by (rule registr_all_keeps_free[OF d(1)]) (auto simp: dispatcher_init_def, presburger)
  then have cells: "cells_ok (ie_cell ex_ifenv) d" by (simp add: cells_ok_def ex_ifenv_def inj_def)
  then have "alloc_ok {0} ex_ifenv st" by (simp add: alloc_ok_def ex_ifenv_def st_def)
  then have env: "env_ok {0} ex_names ex_ifenv IPA_WLAN_AP_LINK_UP_EVENT 5 st"
    using ex_ifcfg_facts by (simp add: env_ok_def st_def) (simp add: ex_ifenv_def)
  obtain d1 where d1: "registr_all (ie_cell ex_ifenv) 0 wlan_events 1 d = Some (Inr d1)"
    using registr_all_ok[OF d(2) cells] by blast
  define st1 where "st1 = \<lparr>im_cfg = ex_apcfg, im_instances = \<lparr>dhead = Some 0, cells = [0 \<mapsto> \<lparr>cev = 0, cobj = 1, cnext = None\<rparr>]\<rparr>, im_disp = d1,
      im_objs = [1 \<mapsto> IPACM_Wlan 0], im_inactive = {}, num_wlan_ap_iface = 1\<rparr>"
  have cb: "IfaceManager_event_callback ex_ifenv IPA_WLAN_AP_LINK_UP_EVENT 5 [] st = Some (Inr ([], st1))"
    using d1 by (simp add: IfaceManager_event_callback_def link_up_def create_iface_instance_def iface_ipa_index_query_def iface_row_def
        st_def st1_def ex_ifcfg_def ex_apcfg_def ex_names_def ex_ifenv_def IPACM_Config_new_def Let_def set_cat_def INVALID_IFACE_def
        SearchInstance_def search_loop.simps iface_plan_def open_instance_def new_iface_def instance_registr_def registr_def
        iface_addr_query_def same_name_def IPA_IFACE_NAME_LEN_def)
  obtain rs insts where t: "im_inv {0} st rs insts" "leaves {0} ex_names
      (case row_of ex_names (im_cfg st) 5 of None \<Rightarrow> insts
       | Some j \<Rightarrow> if int j \<notin> fst ` set insts \<and> opens (im_cfg st) IPA_WLAN_AP_LINK_UP_EVENT (if_cat (iface_table (im_cfg st) ! j))
           then insts @ [(int j, ie_new ex_ifenv)] else insts)
      (IfaceManager_event_callback ex_ifenv IPA_WLAN_AP_LINK_UP_EVENT 5 [] st)"
    using ifmgr_one_instance[OF reach] env by blast
  have "ifmgr_reach {0} ex_names st1" by (rule ifmgr_reach.event[OF reach env cb])
  moreover have "closable 1 (IPACM_Wlan 0) st1" "1 \<notin> im_inactive st1"
    by (simp_all add: closable_def st1_def ex_apcfg_def ex_ifcfg_def IPACM_Config_new_def)
  ultimately obtain rs1 insts1 st2 where u: "im_inv {0} st1 rs1 insts1" "iface_down ''wlan0'' 1 st1 = Some (Inr st2)"
      "cfg_down ''wlan0'' (IPACM_Wlan 0) (im_cfg st1) (im_cfg st2)" "im_inv {0} st2 rs1 insts1"
    using ifmgr_one_instance[of "{0}" ex_names st1] by fastforce
  have one: "snd ` set insts1 = {1}" "distinct (map snd insts1)" using u(1) by (auto simp: im_inv_def st1_def)
  have "i = 0" if "(i, ob) \<in> set insts1" for i ob
  proof -
    have "ob = 1" using one(1) that by force
    then show ?thesis using u(1) that by (force simp: im_inv_def st1_def)
  qed
  then have "insts1 = [(0, 1)]" using one by (cases insts1; cases "tl insts1") auto
  moreover have "if_cat (iface_table (im_cfg st2) ! 0) = UNKNOWN_IF"
    using u(3) by (auto simp: cfg_down_def st1_def set_cat_def ex_apcfg_def dest: DelNatIfaces_table(1))
  ultimately show ?thesis using st cb u by blast
qed

section \<open>A third access point\<close>

text \<open>C12. When two access points are open, a third interface that comes up as an access point leaves the dispatcher with a dangling
  listener: the constructor deletes the object, but the caller registers its address for all the events of an access point and
  enters it in the instance list.\<close>

theorem third_wlan_dangles:
  assumes inv: "im_inv ext st rs insts" and al: "alloc_ok ext env st" and e: "ie_names env = names" and ct: "ctor_ok env"
    and ok: "cfg_ok names (im_cfg st)" and kn: "known names (im_cfg st) k" and j: "row_of names (im_cfg st) k = Some j"
    and cat: "if_cat (iface_table (im_cfg st) ! j) = UNKNOWN_IF" and new: "int j \<notin> fst ` set insts" and two: "num_wlan_ap_iface st = 2"
  shows "\<exists>posts st'. IfaceManager_event_callback env IPA_WLAN_AP_LINK_UP_EVENT k mac st = Some (Inr (posts, st')) \<and>
     im_objs st' (ie_new env) = None \<and> regs (im_disp st') (rs @ map (\<lambda>e. (e, ie_new env)) wlan_events) \<and>
     regs (im_instances st') (insts @ [(int j, ie_new env)])"
proof -
  let ?n = "ie_new env"
  obtain c1 where c1: "iface_ipa_index_query names k (im_cfg st) = Inr (int j, c1)" "cfg_ok names c1" "cfg_view c1 = cfg_view (im_cfg st)"
    "iface_row (int j) c1 = Inr (iface_table c1 ! j)" "if_cat (iface_table c1 ! j) = UNKNOWN_IF"
    using known_row[OF ok kn] j cat by auto
  have row: "row_of names c1 k = Some j" using j cfg_view_eq(5)[OF c1(3)] by simp
  note sc = set_cat_facts[OF row_of_less[OF row]]
  let ?c = "set_cat (int j) WLAN_IF c1"
  have "known names ?c k" using kn row sc(2)[of names WLAN_IF k] by (simp add: known_def)
  moreover have "cfg_ok names ?c" using sc(1) c1(2) by simp
  ultimately obtain c2 where c2: "iface_ipa_index_query names k ?c = Inr (int j, c2)" "iface_row (int j) c2 = Inr (iface_table c2 ! j)"
    "if_cat (iface_table c2 ! j) = WLAN_IF" using known_row[of names ?c k] row sc(2,3) by auto
  let ?s = "st\<lparr>im_cfg := c2\<rparr>"
  have s: "SearchInstance (int j) ?s = Some (Inr False)"
    using SearchInstance_regs[of ?s insts "int j"] inv c2(2) new by (simp add: im_inv_def)
  have r: "regs (im_disp st) rs" "regs (im_instances st) insts" and fresh: "?n \<notin> snd ` set rs" "?n \<notin> snd ` set insts"
    using inv al by (auto simp: im_inv_def alloc_ok_def)
  note noop = deregistr_noop[OF r(1) fresh(1)] deregistr_noop[OF r(2) fresh(2)]
  have nw: "new_iface env (IPACM_Wlan (int j)) ?s = Some (Inr (?s\<lparr>im_cfg := ie_ctor env (IPACM_Wlan (int j)) c2, im_objs := (im_objs st)(?n := None),
      im_inactive := im_inactive st - {?n}\<rparr>))"
    using noop two by (simp add: new_iface_def delete_iface_def Iface_dtor_def instance_deregistr_def)
  obtain d where d: "registr_all (ie_cell env) 0 wlan_events ?n (im_disp st) = Some (Inr d)" "regs d (rs @ map (\<lambda>e. (e, ?n)) wlan_events)"
    using registr_all_ok[OF r(1), of "ie_cell env"] al unfolding alloc_ok_def by blast
  obtain a l where l: "ie_inst env = Some a" "instance_registr (Some a) (int j) ?n (im_instances st) = Some (Inr (IPACM_SUCCESS, l))"
    "regs l (insts @ [(int j, ?n)])"
    using al registr_regs[OF r(2)] unfolding alloc_ok_def instance_registr_def by metis
  have op: "open_instance env (int j) (IPACM_Wlan (int j)) wlan_events ?s =
      Some (Inr (?s\<lparr>im_cfg := ie_ctor env (IPACM_Wlan (int j)) c2, im_objs := (im_objs st)(?n := None),
        im_inactive := im_inactive st - {?n}, im_disp := d, im_instances := l\<rparr>))"
    using nw d(1) l(1,2) by (simp add: open_instance_def)
  have "int j \<noteq> INVALID_IFACE" by (simp add: INVALID_IFACE_def)
  then show ?thesis using c1 c2 s op d(2) l(3) e
    by (simp add: IfaceManager_event_callback_def link_up_def Let_def create_iface_instance_def iface_plan_def)
qed

theorem third_wlan_dangles_witness:
  "\<exists>posts st'. IfaceManager_event_callback ex_ifenv IPA_WLAN_AP_LINK_UP_EVENT 5 []
       \<lparr>im_cfg = ex_ifcfg UNKNOWN_IF, im_instances = \<lparr>dhead = None, cells = Map.empty\<rparr>, im_disp = dispatcher_init, im_objs = Map.empty,
        im_inactive = {}, num_wlan_ap_iface = 2\<rparr> = Some (Inr (posts, st')) \<and>
     im_objs st' 1 = None \<and> regs (im_disp st') (map (\<lambda>e. (e, 1)) wlan_events)"
proof -
  let ?st = "\<lparr>im_cfg = ex_ifcfg UNKNOWN_IF, im_instances = \<lparr>dhead = None, cells = Map.empty\<rparr>, im_disp = dispatcher_init, im_objs = Map.empty,
        im_inactive = {}, num_wlan_ap_iface = 2\<rparr>"
  have inv: "im_inv {} ?st [] []" using regs_init inst.rep_init by (simp add: im_inv_def)
  have al: "alloc_ok {} ex_ifenv ?st" by (simp add: alloc_ok_def cells_ok_def ex_ifenv_def dispatcher_init_def inj_def)
  have n: "ie_names ex_ifenv = ex_names" "ie_new ex_ifenv = 1" by (simp_all add: ex_ifenv_def)
  from third_wlan_dangles[OF inv al n(1) ex_ifcfg_facts(5), of 5 0 "[]"] ex_ifcfg_facts n(2) show ?thesis by auto
qed

end
