(* ===== verification/Ipa_Rules.thy ===== *)
theory Ipa_Rules
  imports Ipacm_Config
begin

text \<open>
  The classes \<^verbatim>\<open>IPACM_Routing\<close> and \<^verbatim>\<open>IPACM_Header\<close>, through which the interface objects add rules and headers to the hardware and
  delete them by handle. The kernel driver is a parameter: its state has any type, its ioctls are functions on it. The second half
  says what the driver promises and what the hardware then holds: \<open>hold w0 L H w\<close> says that in the state \<open>w\<close> it holds the rules \<open>L\<close>
  and the headers \<open>H\<close> of the client, besides what it held in \<open>w0\<close>, and besides that nothing unless a call has failed since.
\<close>

section \<open>The kernel driver\<close>

text \<open>A routing rule: table, target pipe, header, the attributes (of the property, or none) and the destination address.\<close>

record rt_rule =
  rt_tbl_of :: rt_tbl_id
  rt_dst :: ipa_client_type
  rt_hdr_hdl :: u32
  rt_attrib :: "nat option"
  rt_dst_addr :: "u32 list"

record hdr_add =
  hdr_name :: "u8 list"
  hdr_bytes :: "u8 list"
  hdr_len :: nat

text \<open>The ioctls \<^verbatim>\<open>IPA_IOC_COPY_HDR\<close>, \<^verbatim>\<open>ADD_HDR\<close>, \<^verbatim>\<open>DEL_HDR\<close>, \<^verbatim>\<open>ADD_RT_RULE\<close> and \<^verbatim>\<open>DEL_RT_RULE\<close> as functions of the state \<open>'h\<close> of
  the driver: the result of the call, and the handle and status it writes; and allocation.\<close>

record 'h ipa_dev =
  ioc_copy_hdr :: "string \<Rightarrow> 'h \<Rightarrow> (u8 list \<times> nat) option"
  ioc_add_hdr :: "hdr_add \<Rightarrow> 'h \<Rightarrow> (int \<times> u32 \<times> int) \<times> 'h"
  ioc_del_hdr :: "u32 \<Rightarrow> 'h \<Rightarrow> (int \<times> int) \<times> 'h"
  ioc_add_rt_rule :: "rt_rule \<Rightarrow> 'h \<Rightarrow> (int \<times> u32 \<times> int) \<times> 'h"
  ioc_del_rt_rule :: "u32 \<Rightarrow> ipa_ip_type \<Rightarrow> 'h \<Rightarrow> (int \<times> int) \<times> 'h"
  dev_alloc :: "nat \<Rightarrow> bool"
  dev_opened :: bool
  dev_name_max :: nat
  dev_hdr_max :: nat

text \<open>\<^verbatim>\<open>IPACM_Routing\<close> and \<^verbatim>\<open>IPACM_Header\<close>. \<open>mem\<close> says whether the allocation in the function succeeds.\<close>

text \<open>When the call succeeds the caller can read the handle and the status of the rule.\<close>

definition AddRoutingRule :: "'h ipa_dev \<Rightarrow> rt_rule \<Rightarrow> 'h \<Rightarrow> (u32 \<times> int) option \<times> 'h" where
  "AddRoutingRule dev r h =
     (if \<not> dev_opened dev then (None, h)
      else case ioc_add_rt_rule dev r h of ((rc, hdl, status), h) \<Rightarrow> (if rc \<noteq> 0 then None else Some (hdl, status), h))"

definition DeleteRoutingRule :: "'h ipa_dev \<Rightarrow> u32 \<Rightarrow> ipa_ip_type \<Rightarrow> 'h \<Rightarrow> (bool \<times> int) \<times> 'h" where
  "DeleteRoutingRule dev hdl ip h =
     (if \<not> dev_opened dev then ((False, -1), h)
      else case ioc_del_rt_rule dev hdl ip h of ((rc, status), h) \<Rightarrow> ((rc = 0, status), h))"

text \<open>The assignment of the failure follows the jump, so that the result is never a failure of the driver.\<close>

definition DeleteRoutingHdl :: "'h ipa_dev \<Rightarrow> u32 \<Rightarrow> ipa_ip_type \<Rightarrow> 'h \<Rightarrow> bool \<times> 'h" where
  "DeleteRoutingHdl dev hdl ip h =
     (if hdl = 0 then (True, h)
      else if \<not> dev_alloc dev 0 then (False, h)
      else case DeleteRoutingRule dev hdl ip h of ((ok, status), h) \<Rightarrow> (True, h))"

definition AddHeader :: "'h ipa_dev \<Rightarrow> hdr_add \<Rightarrow> 'h \<Rightarrow> (bool \<times> u32 \<times> int) \<times> 'h" where
  "AddHeader dev a h = (case ioc_add_hdr dev a h of ((rc, hdl, status), h) \<Rightarrow> ((rc \<noteq> -1, hdl, status), h))"

definition DeleteHeaderHdl :: "'h ipa_dev \<Rightarrow> u32 \<Rightarrow> 'h \<Rightarrow> bool \<times> 'h" where
  "DeleteHeaderHdl dev hdl h =
     (if hdl = 0 then (False, h)
      else if \<not> dev_alloc dev 0 then (False, h)
      else case ioc_del_hdr dev hdl h of ((rc, status), h) \<Rightarrow> (rc \<noteq> -1 \<and> status = 0, h))"

text \<open>Delete the rules with the handles in order, until one deletion fails.\<close>

fun del_hdls :: "'h ipa_dev \<Rightarrow> ipa_ip_type \<Rightarrow> u32 list \<Rightarrow> 'h \<Rightarrow> bool \<times> 'h" where
  "del_hdls dev ip [] h = (True, h)"
| "del_hdls dev ip (x # xs) h = (case DeleteRoutingHdl dev x ip h of (ok, h) \<Rightarrow> if ok then del_hdls dev ip xs h else (False, h))"

section \<open>What the hardware holds\<close>

text \<open>What can be observed of the driver: its rules, its headers, and how many calls have failed.\<close>

record hw =
  hw_rules :: "u32 \<rightharpoonup> rt_rule"
  hw_hdrs :: "u32 set"
  hw_fails :: nat

definition hw_fail :: "hw \<Rightarrow> hw" where
  "hw_fail w = w\<lparr>hw_fails := Suc (hw_fails w)\<rparr>"

text \<open>The driver as documented: a call that adds gives a new handle, a call that deletes something deletes it, or the call fails and
  changes nothing; the partial headers of the transmit properties exist. Memory is available. A routing rule that is not installed makes
  the call fail: the driver does not report it in the status of the rule alone, which \<^verbatim>\<open>IPACM_Wlan\<close> does not read.\<close>

definition rt_add_ok :: "'h ipa_dev \<Rightarrow> ('h \<Rightarrow> hw) \<Rightarrow> bool" where
  "rt_add_ok dev obs \<longleftrightarrow> (\<forall>r h. case ioc_add_rt_rule dev r h of ((rc, hl, st), h') \<Rightarrow>
     if rc = 0 then st = 0 \<and> hl \<noteq> 0 \<and> hw_rules (obs h) hl = None \<and> obs h' = (obs h)\<lparr>hw_rules := (hw_rules (obs h))(hl \<mapsto> r)\<rparr>
     else obs h' = hw_fail (obs h))"

definition rt_del_ok :: "'h ipa_dev \<Rightarrow> ('h \<Rightarrow> hw) \<Rightarrow> bool" where
  "rt_del_ok dev obs \<longleftrightarrow> (\<forall>hl ip h. hw_rules (obs h) hl \<noteq> None \<longrightarrow> (case ioc_del_rt_rule dev hl ip h of ((rc, st), h') \<Rightarrow>
     if rc = 0 \<and> st = 0 then obs h' = (obs h)\<lparr>hw_rules := (hw_rules (obs h))(hl := None)\<rparr> else obs h' = hw_fail (obs h)))"

definition hdr_add_ok :: "'h ipa_dev \<Rightarrow> ('h \<Rightarrow> hw) \<Rightarrow> bool" where
  "hdr_add_ok dev obs \<longleftrightarrow> (\<forall>a h. case ioc_add_hdr dev a h of ((rc, hl, st), h') \<Rightarrow>
     if rc \<noteq> -1 \<and> st = 0 then hl \<noteq> 0 \<and> hl \<notin> hw_hdrs (obs h) \<and> obs h' = (obs h)\<lparr>hw_hdrs := insert hl (hw_hdrs (obs h))\<rparr>
     else obs h' = hw_fail (obs h))"

definition hdr_del_ok :: "'h ipa_dev \<Rightarrow> ('h \<Rightarrow> hw) \<Rightarrow> bool" where
  "hdr_del_ok dev obs \<longleftrightarrow> (\<forall>hl h. hl \<in> hw_hdrs (obs h) \<longrightarrow> (case ioc_del_hdr dev hl h of ((rc, st), h') \<Rightarrow>
     if rc \<noteq> -1 \<and> st = 0 then obs h' = (obs h)\<lparr>hw_hdrs := hw_hdrs (obs h) - {hl}\<rparr> else obs h' = hw_fail (obs h)))"

definition dev_ok :: "'h ipa_dev \<Rightarrow> ('h \<Rightarrow> hw) \<Rightarrow> bool" where
  "dev_ok dev obs \<longleftrightarrow> dev_opened dev \<and> (\<forall>n. dev_alloc dev n) \<and> 15 \<le> dev_name_max dev \<and>
     rt_add_ok dev obs \<and> rt_del_ok dev obs \<and> hdr_add_ok dev obs \<and> hdr_del_ok dev obs \<and>
     (\<forall>nm h. \<exists>bytes len. ioc_copy_hdr dev nm h = Some (bytes, len) \<and> len \<le> dev_hdr_max dev)"

text \<open>The hardware holds the rules \<open>L\<close> and the headers \<open>H\<close> besides the rules \<open>R\<close> and headers \<open>S\<close>.\<close>

definition held :: "(u32 \<rightharpoonup> rt_rule) \<Rightarrow> u32 set \<Rightarrow> (u32 \<times> rt_rule) list \<Rightarrow> u32 list \<Rightarrow> hw \<Rightarrow> bool" where
  "held R S L H w \<longleftrightarrow>
     hw_rules w = R ++ map_of L \<and> distinct (map fst L) \<and> fst ` set L \<inter> dom R = {} \<and> 0 \<notin> fst ` set L \<and>
     hw_hdrs w = S \<union> set H \<and> distinct H \<and> S \<inter> set H = {} \<and> 0 \<notin> set H"

text \<open>These are what it held in \<open>w0\<close>, and more than that only when calls have failed since.\<close>

definition grown :: "hw \<Rightarrow> (u32 \<rightharpoonup> rt_rule) \<Rightarrow> u32 set \<Rightarrow> hw \<Rightarrow> bool" where
  "grown w0 R S w \<longleftrightarrow> hw_rules w0 \<subseteq>\<^sub>m R \<and> hw_hdrs w0 \<subseteq> S \<and> hw_fails w0 \<le> hw_fails w \<and>
     (hw_fails w = hw_fails w0 \<longrightarrow> R = hw_rules w0 \<and> S = hw_hdrs w0)"

definition hold :: "hw \<Rightarrow> (u32 \<times> rt_rule) list \<Rightarrow> u32 list \<Rightarrow> hw \<Rightarrow> bool" where
  "hold w0 L H w \<longleftrightarrow> (\<exists>R S. grown w0 R S w \<and> held R S L H w)"

lemma hold_start: "hold w [] [] w"
  by (auto simp: hold_def grown_def held_def)

lemma held_perm:
  assumes "mset L' = mset L" "mset H' = mset H" "held R S L H w"
  shows "held R S L' H' w"
proof -
  have s: "set L' = set L" "set H' = set H" using assms(1,2) by (metis set_mset_mset)+
  have d: "distinct (map fst L') = distinct (map fst L)" using assms(1) by (intro mset_eq_imp_distinct_iff) simp
  have h: "distinct H' = distinct H" using assms(2) by (rule mset_eq_imp_distinct_iff)
  have m: "map_of L' = map_of L" using map_of_inject_set[of L' L] s d assms(3) by (simp add: held_def)
  show ?thesis using assms(3) unfolding held_def s d h m .
qed

lemma hold_perm: "hold w0 L H w \<Longrightarrow> mset L' = mset L \<Longrightarrow> mset H' = mset H \<Longrightarrow> hold w0 L' H' w"
  unfolding hold_def using held_perm by metis

lemma hold_more:
  assumes "hold w0 L H w"
  shows "hw_fails w0 \<le> hw_fails w" "hold w0 L H (hw_fail w)" "hw_fails w0 < hw_fails (hw_fail w)"
proof -
  obtain R S where r: "grown w0 R S w" "held R S L H w" using assms by (auto simp: hold_def)
  then show "hw_fails w0 \<le> hw_fails w" "hw_fails w0 < hw_fails (hw_fail w)" by (simp_all add: grown_def hw_fail_def)
  have "grown w0 R S (hw_fail w)" "held R S L H (hw_fail w)" using r by (simp_all add: grown_def held_def hw_fail_def)
  then show "hold w0 L H (hw_fail w)" unfolding hold_def by blast
qed

lemma held_live:
  assumes "held R S L H w"
  shows "(k, r) \<in> set L \<Longrightarrow> k \<noteq> 0 \<and> hw_rules w k = Some r" "x \<in> set H \<Longrightarrow> x \<noteq> 0 \<and> x \<in> hw_hdrs w"
proof -
  assume k: "(k, r) \<in> set L"
  then have "map_of L k = Some r" using assms by (simp add: held_def)
  moreover have "k \<in> fst ` set L" using k by force
  ultimately show "k \<noteq> 0 \<and> hw_rules w k = Some r" using assms by (auto simp: held_def)
next
  assume "x \<in> set H"
  then show "x \<noteq> 0 \<and> x \<in> hw_hdrs w" using assms by (auto simp: held_def)
qed

lemma hold_live:
  assumes "hold w0 L H w"
  shows "(k, r) \<in> set L \<Longrightarrow> k \<noteq> 0 \<and> hw_rules w k = Some r" "x \<in> set H \<Longrightarrow> x \<noteq> 0 \<and> x \<in> hw_hdrs w"
  using assms held_live unfolding hold_def by blast+

lemma hold_add_rule:
  assumes "hold w0 L H w" "hl \<noteq> 0" "hw_rules w hl = None"
  shows "hold w0 ((hl, r) # L) H (w\<lparr>hw_rules := (hw_rules w)(hl \<mapsto> r)\<rparr>)"
proof -
  obtain R S where g: "grown w0 R S w" "held R S L H w" using assms(1) by (auto simp: hold_def)
  have "R hl = None" "map_of L hl = None" using assms(3) g(2) by (auto simp: held_def map_add_None)
  then have n: "hl \<notin> dom R" "hl \<notin> fst ` set L" by (auto simp: map_of_eq_None_iff)
  have "held R S ((hl, r) # L) H (w\<lparr>hw_rules := (hw_rules w)(hl \<mapsto> r)\<rparr>)" using g(2) n assms(2) by (auto simp: held_def)
  moreover have "grown w0 R S (w\<lparr>hw_rules := (hw_rules w)(hl \<mapsto> r)\<rparr>)" using g(1) by (simp add: grown_def)
  ultimately show ?thesis unfolding hold_def by blast
qed

lemma hold_add_hdr:
  assumes "hold w0 L H w" "hl \<noteq> 0" "hl \<notin> hw_hdrs w"
  shows "hold w0 L (hl # H) (w\<lparr>hw_hdrs := insert hl (hw_hdrs w)\<rparr>)"
proof -
  obtain R S where g: "grown w0 R S w" "held R S L H w" using assms(1) by (auto simp: hold_def)
  have "held R S L (hl # H) (w\<lparr>hw_hdrs := insert hl (hw_hdrs w)\<rparr>)" using g(2) assms(2,3) by (auto simp: held_def)
  moreover have "grown w0 R S (w\<lparr>hw_hdrs := insert hl (hw_hdrs w)\<rparr>)" using g(1) by (simp add: grown_def)
  ultimately show ?thesis unfolding hold_def by blast
qed

lemma hold_del_rule:
  assumes "hold w0 ((hl, r) # L) H w"
  shows "hold w0 L H (w\<lparr>hw_rules := (hw_rules w)(hl := None)\<rparr>)"
proof -
  obtain R S where g: "grown w0 R S w" "held R S ((hl, r) # L) H w" using assms(1) by (auto simp: hold_def)
  have "map_of L hl = None" "R hl = None" using g(2) by (auto simp: held_def map_of_eq_None_iff)
  then have "(hw_rules w)(hl := None) = R ++ map_of L" using g(2) by (auto simp: held_def fun_eq_iff map_add_def split: option.split)
  then have "held R S L H (w\<lparr>hw_rules := (hw_rules w)(hl := None)\<rparr>)" using g(2) by (simp add: held_def)
  moreover have "grown w0 R S (w\<lparr>hw_rules := (hw_rules w)(hl := None)\<rparr>)" using g(1) by (simp add: grown_def)
  ultimately show ?thesis unfolding hold_def by blast
qed

lemma hold_del_hdr:
  assumes "hold w0 L (x # H) w"
  shows "hold w0 L H (w\<lparr>hw_hdrs := hw_hdrs w - {x}\<rparr>)"
proof -
  obtain R S where g: "grown w0 R S w" "held R S L (x # H) w" using assms(1) by (auto simp: hold_def)
  have "hw_hdrs w - {x} = S \<union> set H" using g(2) by (auto simp: held_def)
  then have "held R S L H (w\<lparr>hw_hdrs := hw_hdrs w - {x}\<rparr>)" using g(2) by (simp add: held_def)
  moreover have "grown w0 R S (w\<lparr>hw_hdrs := hw_hdrs w - {x}\<rparr>)" using g(1) by (simp add: grown_def)
  ultimately show ?thesis unfolding hold_def by blast
qed

text \<open>Other rules, which were there at the start, are removed.\<close>

lemma hold_restrict:
  assumes "hold w0 L H w" "D \<subseteq> dom (hw_rules w0)"
  shows "hold (w0\<lparr>hw_rules := hw_rules w0 |` (- D)\<rparr>) L H (w\<lparr>hw_rules := hw_rules w |` (- D)\<rparr>)"
proof -
  obtain R S where g: "grown w0 R S w" "held R S L H w" using assms(1) by (auto simp: hold_def)
  have le: "hw_rules w0 \<subseteq>\<^sub>m R" using g(1) by (simp add: grown_def)
  have "D \<subseteq> dom R" using assms(2) map_le_implies_dom_le[OF le] by blast
  then have "D \<inter> dom (map_of L) = {}" using g(2) by (auto simp: held_def dom_map_of_conv_image_fst)
  then have "(R ++ map_of L) |` (- D) = (R |` (- D)) ++ map_of L" by (auto simp: fun_eq_iff restrict_map_def map_add_def split: option.split)
  then have "held (R |` (- D)) S L H (w\<lparr>hw_rules := hw_rules w |` (- D)\<rparr>)" using g(2) by (auto simp: held_def)
  moreover have "hw_rules w0 |` (- D) \<subseteq>\<^sub>m R |` (- D)" using le by (auto simp: map_le_def restrict_map_def)
  then have "grown (w0\<lparr>hw_rules := hw_rules w0 |` (- D)\<rparr>) (R |` (- D)) S (w\<lparr>hw_rules := hw_rules w |` (- D)\<rparr>)" using g(1) by (simp add: grown_def)
  ultimately show ?thesis unfolding hold_def by blast
qed

text \<open>After a failure, rules and headers may be forgotten.\<close>

lemma hold_forget:
  assumes "hold w0 (M @ L) (K @ H) w" "hw_fails w0 < hw_fails w"
  shows "hold w0 L H w"
proof -
  obtain R S where g: "grown w0 R S w" "held R S (M @ L) (K @ H) w" using assms(1) by (auto simp: hold_def)
  let ?R = "R ++ map_of M" and ?S = "S \<union> set K"
  have d: "dom (map_of M) \<inter> dom (map_of L) = {}" "dom R \<inter> dom (map_of M) = {}"
    using g(2) by (auto simp: held_def dom_map_of_conv_image_fst)
  have "hw_rules w = R ++ (map_of L ++ map_of M)" using g(2) by (simp add: held_def)
  then have "hw_rules w = ?R ++ map_of L" unfolding map_add_comm[OF d(1), symmetric] by simp
  moreover have "fst ` set L \<inter> dom ?R = {}" using g(2) d(1) by (auto simp: held_def dom_map_of_conv_image_fst)
  ultimately have "held ?R ?S L H w" using g(2) by (auto simp: held_def)
  moreover have "R \<subseteq>\<^sub>m ?R" using d(2) by (metis map_add_comm map_le_map_add)
  then have "grown w0 ?R ?S w" using g(1) assms(2) map_le_trans by (auto simp: grown_def)
  ultimately show ?thesis unfolding hold_def by blast
qed


section \<open>Calls of the driver\<close>

lemma dev_okD:
  assumes "dev_ok dev obs"
  shows "dev_opened dev" "dev_alloc dev n" "15 \<le> dev_name_max dev"
    "\<exists>bytes len. ioc_copy_hdr dev nm h = Some (bytes, len) \<and> len \<le> dev_hdr_max dev"
    "rt_add_ok dev obs" "rt_del_ok dev obs" "hdr_add_ok dev obs" "hdr_del_ok dev obs"
  using assms by (simp_all add: dev_ok_def)

lemma AddRoutingRule_hold:
  assumes dev: "dev_ok dev obs" and h: "hold w0 L H (obs h)" and r: "AddRoutingRule dev r h = (res, h')"
  shows "case res of Some (hl, st) \<Rightarrow> hold w0 ((hl, r) # L) H (obs h') | None \<Rightarrow> hold w0 L H (obs h') \<and> hw_fails w0 < hw_fails (obs h')"
proof -
  obtain rc hl st where c: "ioc_add_rt_rule dev r h = ((rc, hl, st), h')" "res = (if rc \<noteq> 0 then None else Some (hl, st))"
    using r dev_okD(1)[OF dev] by (auto simp: AddRoutingRule_def split: prod.splits)
  have "if rc = 0 then st = 0 \<and> hl \<noteq> 0 \<and> hw_rules (obs h) hl = None \<and> obs h' = (obs h)\<lparr>hw_rules := (hw_rules (obs h))(hl \<mapsto> r)\<rparr>
      else obs h' = hw_fail (obs h)" using dev_okD(5)[OF dev, unfolded rt_add_ok_def, rule_format, of h r] c(1) by simp
  then show ?thesis using c(2) hold_more[OF h] hold_add_rule[OF h] by (auto split: if_splits)
qed

lemma DeleteRoutingHdl_hold:
  assumes dev: "dev_ok dev obs" and h: "hold w0 ((hl, r) # L) H (obs h)"
  shows "\<exists>h'. DeleteRoutingHdl dev hl ip h = (True, h') \<and> hold w0 L H (obs h')"
proof -
  have l: "hl \<noteq> 0" "hw_rules (obs h) hl \<noteq> None" using hold_live(1)[OF h, of hl r] by auto
  obtain rc st h' where c: "ioc_del_rt_rule dev hl ip h = ((rc, st), h')" by (metis prod.collapse)
  have "if rc = 0 \<and> st = 0 then obs h' = (obs h)\<lparr>hw_rules := (hw_rules (obs h))(hl := None)\<rparr> else obs h' = hw_fail (obs h)"
    using dev_okD(6)[OF dev, unfolded rt_del_ok_def, rule_format, OF l(2), of ip] c by simp
  then have "hold w0 L H (obs h')"
    using hold_del_rule[OF h] hold_forget[of w0 "[(hl, r)]" L "[]" H "hw_fail (obs h)"] hold_more[OF h] by (auto split: if_splits)
  then show ?thesis using c l(1) dev_okD(1,2)[OF dev] by (simp add: DeleteRoutingHdl_def DeleteRoutingRule_def)
qed

lemma del_hdls_hold:
  assumes dev: "dev_ok dev obs" and h: "hold w0 (M @ L) H (obs h)"
  shows "\<exists>h'. del_hdls dev ip (map fst M) h = (True, h') \<and> hold w0 L H (obs h')"
  using h
proof (induction M arbitrary: h)
  case (Cons m M)
  obtain hl r where m: "m = (hl, r)" by (cases m)
  obtain h1 where 1: "DeleteRoutingHdl dev hl ip h = (True, h1)" "hold w0 (M @ L) H (obs h1)"
    using DeleteRoutingHdl_hold[OF dev, of w0 hl r "M @ L" H h ip] Cons.prems m by auto
  from Cons.IH[OF 1(2)] show ?case using 1(1) m by auto
qed simp

lemma AddHeader_hold:
  assumes dev: "dev_ok dev obs" and h: "hold w0 L H (obs h)" and r: "AddHeader dev a h = ((ok, hl, st), h')"
  shows "if ok \<and> st = 0 then hold w0 L (hl # H) (obs h') else hold w0 L H (obs h') \<and> hw_fails w0 < hw_fails (obs h')"
proof -
  obtain rc where c: "ioc_add_hdr dev a h = ((rc, hl, st), h')" "ok = (rc \<noteq> -1)" using r by (auto simp: AddHeader_def split: prod.splits)
  have "if rc \<noteq> -1 \<and> st = 0 then hl \<noteq> 0 \<and> hl \<notin> hw_hdrs (obs h) \<and> obs h' = (obs h)\<lparr>hw_hdrs := insert hl (hw_hdrs (obs h))\<rparr>
      else obs h' = hw_fail (obs h)" using dev_okD(7)[OF dev, unfolded hdr_add_ok_def, rule_format, of h a] c(1) by simp
  then show ?thesis using c(2) hold_more[OF h] hold_add_hdr[OF h] by (auto split: if_splits)
qed

lemma DeleteHeaderHdl_hold:
  assumes dev: "dev_ok dev obs" and h: "hold w0 L (x # H) (obs h)" and r: "DeleteHeaderHdl dev x h = (ok, h')"
  shows "hold w0 L (if ok then H else x # H) (obs h')"
proof -
  have l: "x \<noteq> 0" "x \<in> hw_hdrs (obs h)" using hold_live(2)[OF h, of x] by auto
  obtain rc st where c: "ioc_del_hdr dev x h = ((rc, st), h')" "ok = (rc \<noteq> -1 \<and> st = 0)"
    using r l(1) dev_okD(2)[OF dev] by (auto simp: DeleteHeaderHdl_def split: prod.splits)
  have "if rc \<noteq> -1 \<and> st = 0 then obs h' = (obs h)\<lparr>hw_hdrs := hw_hdrs (obs h) - {x}\<rparr> else obs h' = hw_fail (obs h)"
    using dev_okD(8)[OF dev, unfolded hdr_del_ok_def, rule_format, OF l(2)] c(1) by simp
  then show ?thesis using c(2) hold_more[OF h] hold_del_hdr[OF h] by (auto split: if_splits)
qed

end
