(* ===== verification/Wlan_Clients.thy ===== *)
theory Wlan_Clients
  imports Ipacm_Iface Nat_App Ipa_Rules
begin

text \<open>
  The clients of an access point: the part of \<^verbatim>\<open>IPACM_Wlan.cpp\<close> and \<^verbatim>\<open>IPACM_Wlan.h\<close> that keeps a table of the stations
  connected to a wireless interface and gives each of them headers and routing rules in the hardware, through
  the classes of \<open>Ipa_Rules\<close>. Calls of the conntrack listener
  and of the NAT application and events for the LAN-to-LAN module are recorded.
\<close>

section \<open>State\<close>

definition IPV6_NUM_ADDR :: nat where "IPV6_NUM_ADDR = 3"

text \<open>A property of the transmit end point: the family it serves, the pipe, the name of its partial header, and the matching
  attributes, which are only copied.\<close>

record ipa_ioc_tx_intf_prop =
  tx_ip :: ipa_ip_type
  tx_dst_pipe :: ipa_client_type
  tx_hdr_name :: string
  tx_attrib :: nat

datatype wlan_attrib = WLAN_HDR_ATTRIB_MAC_ADDR nat "u8 list" | WLAN_HDR_ATTRIB_STA_ID nat "u8 list" | WLAN_HDR_ATTRIB_other

record wlan_client_rt_hdl =
  wifi_rt_rule_hdl_v4 :: u32
  wifi_rt_rule_hdl_v6 :: "u32 list"
  wifi_rt_rule_hdl_v6_wan :: "u32 list"

record ipa_wlan_client =
  p_hdr_info :: "wlan_attrib list"
  wc_mac :: "u8 list"
  wc_v4_addr :: u32
  wc_v6_addr :: "u32 list list"
  hdr_hdl_v4 :: u32
  hdr_hdl_v6 :: u32
  route_rule_set_v4 :: bool
  route_rule_set_v6 :: nat
  ipv4_set :: bool
  ipv6_set :: nat
  ipv4_header_set :: bool
  ipv6_header_set :: bool
  power_save_set :: bool
  wifi_rt_hdl :: "wlan_client_rt_hdl list"

text \<open>The members of \<^verbatim>\<open>IPACM_Wlan\<close> that concern clients, and the static counter of all access points. \<open>tx_prop\<close> is the list of
  properties, \<open>None\<close> for NULL.\<close>

record IPACM_Wlan_clients =
  wl_ipa_if_num :: int
  wl_ip_type :: "ipa_ip_type option"
  is_active :: bool
  tx_prop :: "ipa_ioc_tx_intf_prop list option"
  num_wifi_client :: nat
  total_num_wifi_clients :: nat
  header_name_count :: nat
  wlan_client :: "ipa_wlan_client list"

definition txs :: "IPACM_Wlan_clients \<Rightarrow> ipa_ioc_tx_intf_prop list" where
  "txs s = (case tx_prop s of None \<Rightarrow> [] | Some ts \<Rightarrow> ts)"

text \<open>What the class asks of others.\<close>

datatype wlan_call =
    CtList_NeighIpAddrDel u32 | CtList_NeighIpAddrAdd u32 | Nat_UpdatePwrSaveIf u32 | Nat_ResetPwrSaveIf u32
  | Post_lan_client ipa_cm_event_id ipa_ip_type u32 "u32 list" "u8 list"

section \<open>The table of clients\<close>

definition get_wlan_client_index :: "u8 list \<Rightarrow> IPACM_Wlan_clients \<Rightarrow> nat option" where
  "get_wlan_client_index mac s = find_slot (\<lambda>c. wc_mac c = mac) (take (num_wifi_client s) (wlan_client s))"

definition upd_wlan :: "nat \<Rightarrow> (ipa_wlan_client \<Rightarrow> ipa_wlan_client) \<Rightarrow> IPACM_Wlan_clients \<Rightarrow> IPACM_Wlan_clients" where
  "upd_wlan i f s = s\<lparr>wlan_client := (wlan_client s)[i := f (wlan_client s ! i)]\<rparr>"

text \<open>The indices of the properties of a family, and the handles of a client's rules for it, in the order of the loops.\<close>

definition tx_of :: "ipa_ip_type \<Rightarrow> ipa_ioc_tx_intf_prop list \<Rightarrow> nat list" where
  "tx_of ip ts = filter (\<lambda>t. tx_ip (ts ! t) = ip) [0..<length ts]"

definition v4_hdls :: "ipa_ioc_tx_intf_prop list \<Rightarrow> ipa_wlan_client \<Rightarrow> u32 list" where
  "v4_hdls ts c = (if route_rule_set_v4 c then map (\<lambda>t. wifi_rt_rule_hdl_v4 (wifi_rt_hdl c ! t)) (tx_of IPA_IP_v4 ts) else [])"

definition v6_hdls :: "ipa_ioc_tx_intf_prop list \<Rightarrow> ipa_wlan_client \<Rightarrow> u32 list" where
  "v6_hdls ts c = concat (map (\<lambda>t. concat (map (\<lambda>n. [wifi_rt_rule_hdl_v6 (wifi_rt_hdl c ! t) ! n, wifi_rt_rule_hdl_v6_wan (wifi_rt_hdl c ! t) ! n])
     [0..<route_rule_set_v6 c])) (tx_of IPA_IP_v6 ts))"

definition delete_default_qos_rtrules :: "'h ipa_dev \<Rightarrow> nat \<Rightarrow> ipa_ip_type \<Rightarrow> IPACM_Wlan_clients \<times> 'h \<Rightarrow> int \<times> IPACM_Wlan_clients \<times> 'h" where
  "delete_default_qos_rtrules dev i ip st =
     (case st of (s, h) \<Rightarrow>
      let c = wlan_client s ! i
      in if ip = IPA_IP_v4
         then (case del_hdls dev IPA_IP_v4 (v4_hdls (txs s) c) h of (ok, h) \<Rightarrow>
                 if ok then (IPACM_SUCCESS, upd_wlan i (\<lambda>c. c\<lparr>route_rule_set_v4 := False\<rparr>) s, h) else (IPACM_FAILURE, s, h))
         else if ip = IPA_IP_v6
         then (case del_hdls dev IPA_IP_v6 (v6_hdls (txs s) c) h of (ok, h) \<Rightarrow>
                 if ok then (IPACM_SUCCESS, upd_wlan i (\<lambda>c. c\<lparr>route_rule_set_v6 := 0\<rparr>) s, h) else (IPACM_FAILURE, s, h))
         else (IPACM_SUCCESS, s, h))"

section \<open>A new client\<close>

text \<open>Attributes are written into the header at the offsets of the event, which are not checked.\<close>

fun put_attribs :: "wlan_attrib list \<Rightarrow> u8 list \<Rightarrow> u8 list \<Rightarrow> fault + u8 list \<times> u8 list" where
  "put_attribs [] mac hdr = Inr (mac, hdr)"
| "put_attribs (WLAN_HDR_ATTRIB_MAC_ADDR off m # as) mac hdr = bnd (put_bytes off m hdr) (\<lambda>hdr. put_attribs as m hdr)"
| "put_attribs (WLAN_HDR_ATTRIB_STA_ID off b # as) mac hdr = bnd (put_bytes off b hdr) (\<lambda>hdr. put_attribs as mac hdr)"
| "put_attribs (WLAN_HDR_ATTRIB_other # as) mac hdr = put_attribs as mac hdr"

text \<open>\<^verbatim>\<open>snprintf(index, 2, "%d", n)\<close> keeps the first digit only.\<close>

fun first_digit :: "nat \<Rightarrow> u8" where
  "first_digit n = (if n < 10 then 48 + of_nat n else first_digit (n div 10))"

declare first_digit.simps [simp del]

definition WLAN_HDR_NAME :: "ipa_ip_type \<Rightarrow> u8 list" where
  "WLAN_HDR_NAME ip = [73, 69, 69, 69, 56, 48, 50, 95, 51, 95, 118, if ip = IPA_IP_v4 then 52 else 54]"

text \<open>The name: interface number, the name of the partial header, and the counter.\<close>

definition hdr_name_of :: "nat \<Rightarrow> ipa_ip_type \<Rightarrow> nat \<Rightarrow> nat \<Rightarrow> fault + u8 list option" where
  "hdr_name_of name_max ip if_num cnt =
     bnd (strlcpy (replicate name_max 0) [first_digit if_num, 0] name_max) (\<lambda>(r, nm).
     bnd (strlcat nm (WLAN_HDR_NAME ip @ [0]) name_max) (\<lambda>(r, nm).
     if r > name_max then Inr None
     else bnd (strlcat nm [first_digit cnt, 0] name_max) (\<lambda>(r, nm). Inr (if r > name_max then None else Some nm))))"

text \<open>The header of one family, for the property \<open>t\<close>: the buffer is reused, the client's MAC address is set on the way. The result
  is the handle, \<open>None\<close> after a failure.\<close>

definition add_client_header :: "'h ipa_dev \<Rightarrow> wlan_attrib list \<Rightarrow> ipa_ip_type \<Rightarrow> nat \<Rightarrow> u8 list \<Rightarrow> IPACM_Wlan_clients \<times> 'h \<Rightarrow>
    fault + u32 option \<times> u8 list \<times> IPACM_Wlan_clients \<times> 'h" where
  "add_client_header dev attribs ip t buf st =
     (case st of (s, h) \<Rightarrow>
      (case ioc_copy_hdr dev (tx_hdr_name (txs s ! t)) h of
         None \<Rightarrow> Inr (None, buf, s, h)
       | Some (bytes, len) \<Rightarrow>
           if len > dev_hdr_max dev then Inr (None, buf, s, h)
           else bnd (put_bytes 0 (take len bytes) buf) (\<lambda>buf.
           let i = num_wifi_client s
           in bnd (put_attribs attribs (wc_mac (wlan_client s ! i)) buf) (\<lambda>(mac, buf).
              let s = upd_wlan i (\<lambda>c. c\<lparr>wc_mac := mac\<rparr>) s
              in bnd (hdr_name_of (dev_name_max dev) ip (nat (wl_ipa_if_num s)) (header_name_count s)) (\<lambda>nm.
                 case nm of
                   None \<Rightarrow> Inr (None, buf, s, h)
                 | Some name \<Rightarrow>
                     (case AddHeader dev \<lparr>hdr_name = name, hdr_bytes = buf, hdr_len = len\<rparr> h of ((ok, hdl, status), h) \<Rightarrow>
                        Inr (if ok \<and> status = 0 then Some hdl else None, buf, s, h)))))))"

definition set_header :: "ipa_ip_type \<Rightarrow> u32 \<Rightarrow> ipa_wlan_client \<Rightarrow> ipa_wlan_client" where
  "set_header ip hdl c =
     (if ip = IPA_IP_v4 then c\<lparr>hdr_hdl_v4 := hdl, ipv4_header_set := True\<rparr> else c\<lparr>hdr_hdl_v6 := hdl, ipv6_header_set := True\<rparr>)"

text \<open>The loop over the properties for one family; \<^verbatim>\<open>break\<close> leaves it after the first one of the family. The flag says that it was not
  left for \<^verbatim>\<open>fail\<close>.\<close>

definition add_family_header :: "'h ipa_dev \<Rightarrow> wlan_attrib list \<Rightarrow> ipa_ip_type \<Rightarrow> u8 list \<Rightarrow> IPACM_Wlan_clients \<times> 'h \<Rightarrow>
    fault + bool \<times> u8 list \<times> IPACM_Wlan_clients \<times> 'h" where
  "add_family_header dev attribs ip buf st =
     (case tx_of ip (txs (fst st)) of
        [] \<Rightarrow> Inr (True, buf, st)
      | t # _ \<Rightarrow> bnd (add_client_header dev attribs ip t buf st) (\<lambda>(r, buf, s, h).
          case r of
            None \<Rightarrow> Inr (False, buf, s, h)
          | Some hdl \<Rightarrow> Inr (True, buf, upd_wlan (num_wifi_client s) (set_header ip hdl) s, h)))"

definition handle_wlan_client_init_ex :: "'h ipa_dev \<Rightarrow> wlan_attrib list \<Rightarrow> IPACM_Wlan_clients \<times> 'h \<Rightarrow> fault + int \<times> IPACM_Wlan_clients \<times> 'h" where
  "handle_wlan_client_init_ex dev attribs st =
     (case st of (s, h) \<Rightarrow>
      if num_wifi_client s \<ge> IPA_MAX_NUM_WIFI_CLIENTS \<or> total_num_wifi_clients s \<ge> IPA_MAX_NUM_WIFI_CLIENTS then Inr (IPACM_FAILURE, s, h)
      else if tx_prop s = None then Inr (IPACM_SUCCESS, s, h)
      else if \<not> dev_alloc dev 0 then Inr (IPACM_FAILURE, s, h)
      else if \<not> dev_alloc dev 1 then Inl NullDeref
      else
        let i = num_wifi_client s;
            s = upd_wlan i (\<lambda>c. c\<lparr>p_hdr_info := attribs\<rparr>) s;
            buf = replicate (dev_hdr_max dev) 0
        in bnd (add_family_header dev attribs IPA_IP_v4 buf (s, h)) (\<lambda>(ok, buf, s, h).
           if \<not> ok then Inr (IPACM_FAILURE, s, h)
           else bnd (add_family_header dev attribs IPA_IP_v6 buf (s, h)) (\<lambda>(ok, buf, s, h).
           if \<not> ok then Inr (IPACM_FAILURE, s, h)
           else Inr (IPACM_SUCCESS,
             (upd_wlan i (\<lambda>c. c\<lparr>route_rule_set_v4 := False, route_rule_set_v6 := 0, ipv4_set := False, ipv6_set := 0, power_save_set := False\<rparr>) s)
               \<lparr>num_wifi_client := num_wifi_client s + 1, header_name_count := header_name_count s + 1,
                total_num_wifi_clients := total_num_wifi_clients s + 1\<rparr>, h))))"

section \<open>Addresses\<close>

definition handle_wlan_client_ipaddr :: "'h ipa_dev \<Rightarrow> ipa_ip_type \<Rightarrow> u32 \<Rightarrow> u32 list \<Rightarrow> u8 list \<Rightarrow> IPACM_Wlan_clients \<times> 'h \<Rightarrow>
    int \<times> wlan_call list \<times> IPACM_Wlan_clients \<times> 'h" where
  "handle_wlan_client_ipaddr dev iptype v4 v6 mac st =
     (case st of (s, h) \<Rightarrow>
      (case get_wlan_client_index mac s of
         None \<Rightarrow> (IPACM_FAILURE, [], s, h)
       | Some i \<Rightarrow>
           let c = wlan_client s ! i
           in if iptype = IPA_IP_v4
              then if v4 \<noteq> 0
                   then if \<not> ipv4_set c then (IPACM_SUCCESS, [], upd_wlan i (\<lambda>c. c\<lparr>wc_v4_addr := v4, ipv4_set := True\<rparr>) s, h)
                        else if v4 = wc_v4_addr c then (IPACM_FAILURE, [], s, h)
                        else (case delete_default_qos_rtrules dev i IPA_IP_v4 (s, h) of (r, s, h) \<Rightarrow>
                          (IPACM_SUCCESS, [CtList_NeighIpAddrDel (wc_v4_addr c)],
                             upd_wlan i (\<lambda>c. c\<lparr>route_rule_set_v4 := False, wc_v4_addr := v4\<rparr>) s, h))
                   else (IPACM_FAILURE, [], s, h)
              else if list_ex (\<lambda>w. w \<noteq> 0) v6
              then if ipv6_set c < IPV6_NUM_ADDR
                   then if v6 \<in> set (take (ipv6_set c) (wc_v6_addr c)) then (IPACM_FAILURE, [], s, h)
                        else (IPACM_SUCCESS, [], upd_wlan i (\<lambda>c. c\<lparr>wc_v6_addr := (wc_v6_addr c)[ipv6_set c := v6], ipv6_set := ipv6_set c + 1\<rparr>) s, h)
                   else (IPACM_FAILURE, [], s, h)
              else (IPACM_SUCCESS, [], s, h)))"

section \<open>Routing rules\<close>

definition v4_rule :: "ipa_ioc_tx_intf_prop list \<Rightarrow> ipa_wlan_client \<Rightarrow> nat \<Rightarrow> rt_rule" where
  "v4_rule ts c t = \<lparr>rt_tbl_of = rt_tbl_lan_v4, rt_dst = tx_dst_pipe (ts ! t), rt_hdr_hdl = hdr_hdl_v4 c, rt_attrib = Some (tx_attrib (ts ! t)),
     rt_dst_addr = [wc_v4_addr c]\<rparr>"

definition v6_rule :: "ipa_client_type \<Rightarrow> ipa_wlan_client \<Rightarrow> nat \<Rightarrow> rt_rule" where
  "v6_rule apps_lan_cons c n = \<lparr>rt_tbl_of = rt_tbl_v6, rt_dst = apps_lan_cons, rt_hdr_hdl = 0, rt_attrib = None,
     rt_dst_addr = wc_v6_addr c ! n\<rparr>"

definition v6_wan_rule :: "ipa_ioc_tx_intf_prop list \<Rightarrow> ipa_wlan_client \<Rightarrow> nat \<Rightarrow> nat \<Rightarrow> rt_rule" where
  "v6_wan_rule ts c t n = \<lparr>rt_tbl_of = rt_tbl_wan_v6, rt_dst = tx_dst_pipe (ts ! t), rt_hdr_hdl = hdr_hdl_v6 c, rt_attrib = Some (tx_attrib (ts ! t)),
     rt_dst_addr = wc_v6_addr c ! n\<rparr>"

text \<open>\<^verbatim>\<open>IPA_CLIENT_APPS_LAN_CONS\<close> is a pipe of the kernel that the configuration does not name.\<close>

definition IPA_CLIENT_APPS_LAN_CONS :: ipa_client_type where "IPA_CLIENT_APPS_LAN_CONS = IPA_CLIENT_other 0"

definition upd_rt :: "nat \<Rightarrow> (wlan_client_rt_hdl \<Rightarrow> wlan_client_rt_hdl) \<Rightarrow> ipa_wlan_client \<Rightarrow> ipa_wlan_client" where
  "upd_rt t f c = c\<lparr>wifi_rt_hdl := (wifi_rt_hdl c)[t := f (wifi_rt_hdl c ! t)]\<rparr>"

text \<open>The status of a rule is not read.\<close>

fun add_v4_rules :: "'h ipa_dev \<Rightarrow> ipa_ioc_tx_intf_prop list \<Rightarrow> nat list \<Rightarrow> ipa_wlan_client \<times> 'h \<Rightarrow> bool \<times> ipa_wlan_client \<times> 'h" where
  "add_v4_rules dev ts [] st = (True, st)"
| "add_v4_rules dev ts (t # tt) (c, h) =
     (case AddRoutingRule dev (v4_rule ts c t) h of
        (None, h) \<Rightarrow> (False, c, h)
      | (Some (hdl, status), h) \<Rightarrow> add_v4_rules dev ts tt (upd_rt t (\<lambda>r. r\<lparr>wifi_rt_rule_hdl_v4 := hdl\<rparr>) c, h))"

fun add_v6_rules :: "'h ipa_dev \<Rightarrow> ipa_ioc_tx_intf_prop list \<Rightarrow> (nat \<times> nat) list \<Rightarrow> ipa_wlan_client \<times> 'h \<Rightarrow> bool \<times> ipa_wlan_client \<times> 'h" where
  "add_v6_rules dev ts [] st = (True, st)"
| "add_v6_rules dev ts ((t, n) # tt) (c, h) =
     (case AddRoutingRule dev (v6_rule IPA_CLIENT_APPS_LAN_CONS c n) h of
        (None, h) \<Rightarrow> (False, c, h)
      | (Some (hdl, status), h) \<Rightarrow>
          let c = upd_rt t (\<lambda>r. r\<lparr>wifi_rt_rule_hdl_v6 := (wifi_rt_rule_hdl_v6 r)[n := hdl]\<rparr>) c
          in case AddRoutingRule dev (v6_wan_rule ts c t n) h of
               (None, h) \<Rightarrow> (False, c, h)
             | (Some (hdl, status), h) \<Rightarrow>
                 add_v6_rules dev ts tt (upd_rt t (\<lambda>r. r\<lparr>wifi_rt_rule_hdl_v6_wan := (wifi_rt_rule_hdl_v6_wan r)[n := hdl]\<rparr>) c, h))"

definition handle_wlan_client_route_rule :: "'h ipa_dev \<Rightarrow> u8 list \<Rightarrow> ipa_ip_type \<Rightarrow> IPACM_Wlan_clients \<times> 'h \<Rightarrow> int \<times> IPACM_Wlan_clients \<times> 'h" where
  "handle_wlan_client_route_rule dev mac iptype st =
     (case st of (s, h) \<Rightarrow>
      if tx_prop s = None then (IPACM_SUCCESS, s, h)
      else case get_wlan_client_index mac s of
         None \<Rightarrow> (IPACM_SUCCESS, s, h)
       | Some i \<Rightarrow>
           let c = wlan_client s ! i; ts = txs s
           in if power_save_set c then (IPACM_SUCCESS, s, h)
              else if iptype = IPA_IP_v4 \<and> \<not> route_rule_set_v4 c \<and> ipv4_set c
              then if \<not> dev_alloc dev 0 then (IPACM_FAILURE, s, h)
                   else (case add_v4_rules dev ts (tx_of IPA_IP_v4 ts) (c, h) of (ok, c, h) \<Rightarrow>
                     if ok then (IPACM_SUCCESS, upd_wlan i (\<lambda>_. c\<lparr>route_rule_set_v4 := True\<rparr>) s, h)
                     else (IPACM_FAILURE, upd_wlan i (\<lambda>_. c) s, h))
              else if iptype = IPA_IP_v6 \<and> route_rule_set_v6 c < ipv6_set c
              then if \<not> dev_alloc dev 0 then (IPACM_FAILURE, s, h)
                   else (case add_v6_rules dev ts (List.product (tx_of IPA_IP_v6 ts) [route_rule_set_v6 c..<ipv6_set c]) (c, h) of (ok, c, h) \<Rightarrow>
                     if ok then (IPACM_SUCCESS, upd_wlan i (\<lambda>_. c\<lparr>route_rule_set_v6 := ipv6_set c\<rparr>) s, h)
                     else (IPACM_FAILURE, upd_wlan i (\<lambda>_. c) s, h))
              else (IPACM_SUCCESS, s, h))"

section \<open>Power save, departure, reset\<close>

definition handle_wlan_client_pwrsave :: "'h ipa_dev \<Rightarrow> u8 list \<Rightarrow> IPACM_Wlan_clients \<times> 'h \<Rightarrow> wlan_call list \<times> IPACM_Wlan_clients \<times> 'h" where
  "handle_wlan_client_pwrsave dev mac st =
     (case st of (s, h) \<Rightarrow>
      (case get_wlan_client_index mac s of
         None \<Rightarrow> ([], s, h)
       | Some i \<Rightarrow>
           let c = wlan_client s ! i
           in if power_save_set c then ([], s, h)
              else (case delete_default_qos_rtrules dev i IPA_IP_v4 (s, h) of (r, st) \<Rightarrow>
                   (case delete_default_qos_rtrules dev i IPA_IP_v6 st of (r, s, h) \<Rightarrow>
                     (if ipv4_set c then [Nat_UpdatePwrSaveIf (wc_v4_addr c)] else [], upd_wlan i (\<lambda>c. c\<lparr>power_save_set := True\<rparr>) s, h)))))"

text \<open>One step of the loop that closes the gap: what is copied from the next slot, \<open>power_save_set\<close> not among it.\<close>

definition copy_first :: "nat \<Rightarrow> 'a list \<Rightarrow> 'a list \<Rightarrow> 'a list" where
  "copy_first n src dst = take n src @ drop n dst"

definition shift_client :: "nat \<Rightarrow> ipa_wlan_client \<Rightarrow> ipa_wlan_client \<Rightarrow> ipa_wlan_client" where
  "shift_client num_tx nx c =
     c\<lparr>p_hdr_info := p_hdr_info nx, wc_mac := wc_mac nx, hdr_hdl_v4 := hdr_hdl_v4 nx, hdr_hdl_v6 := hdr_hdl_v6 nx, wc_v4_addr := wc_v4_addr nx,
       ipv4_set := ipv4_set nx, ipv6_set := ipv6_set nx, ipv4_header_set := ipv4_header_set nx, ipv6_header_set := ipv6_header_set nx,
       route_rule_set_v4 := route_rule_set_v4 nx, route_rule_set_v6 := route_rule_set_v6 nx,
       wc_v6_addr := copy_first (ipv6_set nx) (wc_v6_addr nx) (wc_v6_addr c),
       wifi_rt_hdl := map (\<lambda>t. if t < num_tx
         then let rn = wifi_rt_hdl nx ! t; rc = wifi_rt_hdl c ! t
              in rc\<lparr>wifi_rt_rule_hdl_v4 := wifi_rt_rule_hdl_v4 rn,
                    wifi_rt_rule_hdl_v6 := copy_first (route_rule_set_v6 nx) (wifi_rt_rule_hdl_v6 rn) (wifi_rt_rule_hdl_v6 rc),
                    wifi_rt_rule_hdl_v6_wan := copy_first (route_rule_set_v6 nx) (wifi_rt_rule_hdl_v6_wan rn) (wifi_rt_rule_hdl_v6_wan rc)\<rparr>
         else wifi_rt_hdl c ! t) [0..<length (wifi_rt_hdl c)]\<rparr>"

function shift_clients :: "nat \<Rightarrow> nat \<Rightarrow> nat \<Rightarrow> ipa_wlan_client list \<Rightarrow> ipa_wlan_client list" where
  "shift_clients num_tx i lim cs =
     (if i < lim then shift_clients num_tx (Suc i) lim (cs[i := shift_client num_tx (cs ! Suc i) (cs ! i)]) else cs)"
  by pat_completeness auto
termination by (relation "measure (\<lambda>(num_tx, i, lim, cs). lim - i)") auto

declare shift_clients.simps [simp del]

definition handle_wlan_client_down_evt :: "'h ipa_dev \<Rightarrow> u8 list \<Rightarrow> IPACM_Wlan_clients \<times> 'h \<Rightarrow> int \<times> wlan_call list \<times> IPACM_Wlan_clients \<times> 'h" where
  "handle_wlan_client_down_evt dev mac st =
     (case st of (s, h) \<Rightarrow>
      (case get_wlan_client_index mac s of
         None \<Rightarrow> (IPACM_SUCCESS, [], s, h)
       | Some i \<Rightarrow>
           let c = wlan_client s ! i; calls = (if ipv4_set c then [CtList_NeighIpAddrDel (wc_v4_addr c)] else [])
           in case delete_default_qos_rtrules dev i IPA_IP_v4 (s, h) of (r, s, h) \<Rightarrow>
              if r \<noteq> IPACM_SUCCESS then (IPACM_FAILURE, calls, s, h)
              else case delete_default_qos_rtrules dev i IPA_IP_v6 (s, h) of (r, s, h) \<Rightarrow>
              if r \<noteq> IPACM_SUCCESS then (IPACM_FAILURE, calls, s, h)
              else case (if ipv4_header_set c then DeleteHeaderHdl dev (hdr_hdl_v4 c) h else (True, h)) of (ok, h) \<Rightarrow>
              if \<not> ok then (IPACM_FAILURE, calls, s, h)
              else let s = upd_wlan i (\<lambda>c. c\<lparr>ipv4_header_set := False\<rparr>) s
              in case (if ipv6_header_set c then DeleteHeaderHdl dev (hdr_hdl_v6 c) h else (True, h)) of (ok, h) \<Rightarrow>
              if \<not> ok then (IPACM_FAILURE, calls, s, h)
              else let s = upd_wlan i (\<lambda>c. c\<lparr>ipv4_set := False, ipv6_set := 0, ipv4_header_set := False, ipv6_header_set := False,
                         route_rule_set_v4 := False, route_rule_set_v6 := 0\<rparr>) s
              in (IPACM_SUCCESS, calls,
                  s\<lparr>wlan_client := shift_clients (length (txs s)) i (num_wifi_client s - 1) (wlan_client s),
                    num_wifi_client := num_wifi_client s - 1, total_num_wifi_clients := total_num_wifi_clients s - 1\<rparr>, h)))"

text \<open>Events for the LAN-to-LAN module; \<open>None\<close> is \<^verbatim>\<open>IPACM_IP_NULL\<close>.\<close>

definition serves :: "ipa_ip_type \<Rightarrow> IPACM_Wlan_clients \<Rightarrow> bool" where
  "serves ip s \<longleftrightarrow> wl_ip_type s = Some ip \<or> wl_ip_type s = Some IPA_IP_MAX"

definition handle_lan2lan_msg_post :: "'h ipa_dev \<Rightarrow> u8 list \<Rightarrow> ipa_cm_event_id \<Rightarrow> ipa_ip_type \<Rightarrow> IPACM_Wlan_clients \<Rightarrow> int \<times> wlan_call list" where
  "handle_lan2lan_msg_post dev mac ev iptype s =
     (case get_wlan_client_index mac s of
        None \<Rightarrow> (IPACM_SUCCESS, [])
      | Some i \<Rightarrow>
          let c = wlan_client s ! i; z4 = replicate 4 0; zmac = replicate 6 0
          in if ipv4_set c \<and> iptype = IPA_IP_v4
             then if \<not> serves IPA_IP_v4 s then (IPACM_FAILURE, [])
                  else if \<not> dev_alloc dev 0 then (IPACM_FAILURE, [])
                  else (IPACM_SUCCESS, [Post_lan_client ev IPA_IP_v4 (wc_v4_addr c) z4 zmac])
             else if ipv6_set c > 0 \<and> iptype = IPA_IP_v6
             then if \<not> serves IPA_IP_v6 s then (IPACM_FAILURE, [])
                  else let good = takeWhile (dev_alloc dev) [0..<ipv6_set c]
                       in (if length good = ipv6_set c then IPACM_SUCCESS else IPACM_FAILURE,
                           map (\<lambda>n. Post_lan_client ev IPA_IP_v6 0 (wc_v6_addr c ! n) zmac) good)
             else (IPACM_SUCCESS, []))"

definition handle_lan2lan_client_active :: "'h ipa_dev \<Rightarrow> ipa_ip_type \<Rightarrow> u32 \<Rightarrow> u32 list \<Rightarrow> u8 list \<Rightarrow> IPACM_Wlan_clients \<Rightarrow> int \<times> wlan_call list" where
  "handle_lan2lan_client_active dev iptype v4 v6 mac s =
     (if iptype = IPA_IP_v4 \<and> \<not> serves IPA_IP_v4 s then (IPACM_FAILURE, [])
      else if iptype = IPA_IP_v6 \<and> \<not> serves IPA_IP_v6 s then (IPACM_FAILURE, [])
      else if \<not> dev_alloc dev 0 then (IPACM_FAILURE, [])
      else (IPACM_SUCCESS, [Post_lan_client IPA_LAN_CLIENT_ACTIVE iptype v4 v6 mac]))"

text \<open>The loop over the clients from index \<open>i\<close> on; \<open>k\<close> clients are left.\<close>

fun reset_rt_loop :: "'h ipa_dev \<Rightarrow> ipa_ip_type \<Rightarrow> nat \<Rightarrow> nat \<Rightarrow> IPACM_Wlan_clients \<times> 'h \<Rightarrow> int \<times> wlan_call list \<times> IPACM_Wlan_clients \<times> 'h" where
  "reset_rt_loop dev iptype 0 i st = (IPACM_SUCCESS, [], st)"
| "reset_rt_loop dev iptype (Suc k) i st =
     (case delete_default_qos_rtrules dev i iptype st of (r, s, h) \<Rightarrow>
        if r \<noteq> IPACM_SUCCESS then (r, [], s, h)
        else case handle_lan2lan_msg_post dev (wc_mac (wlan_client s ! i)) IPA_LAN_CLIENT_DISCONNECT iptype s of (r, calls) \<Rightarrow>
        if r \<noteq> IPACM_SUCCESS then (r, calls, s, h)
        else let s = upd_wlan i (\<lambda>c. if iptype = IPA_IP_v4 then c\<lparr>ipv4_set := False\<rparr> else c\<lparr>ipv6_set := 0\<rparr>) s
        in case reset_rt_loop dev iptype k (Suc i) (s, h) of (r, calls', st) \<Rightarrow> (r, calls @ calls', st))"

definition handle_wlan_client_reset_rt :: "'h ipa_dev \<Rightarrow> ipa_ip_type \<Rightarrow> IPACM_Wlan_clients \<times> 'h \<Rightarrow> int \<times> wlan_call list \<times> IPACM_Wlan_clients \<times> 'h" where
  "handle_wlan_client_reset_rt dev iptype st = reset_rt_loop dev iptype (num_wifi_client (fst st)) 0 st"

text \<open>The loop of \<^verbatim>\<open>handle_down_evt\<close> that removes what the clients have in the hardware when the interface goes down.
  The flag says that it was not left for \<^verbatim>\<open>fail\<close>.\<close>

fun clean_clients :: "'h ipa_dev \<Rightarrow> nat \<Rightarrow> nat \<Rightarrow> IPACM_Wlan_clients \<times> 'h \<Rightarrow> bool \<times> wlan_call list \<times> IPACM_Wlan_clients \<times> 'h" where
  "clean_clients dev 0 i st = (True, [], st)"
| "clean_clients dev (Suc k) i (s, h) =
     (let c = wlan_client s ! i; calls = (if ipv4_set c then [CtList_NeighIpAddrDel (wc_v4_addr c)] else [])
      in case delete_default_qos_rtrules dev i IPA_IP_v4 (s, h) of (r, s, h) \<Rightarrow>
         if r \<noteq> IPACM_SUCCESS then (False, calls, s, h)
         else case delete_default_qos_rtrules dev i IPA_IP_v6 (s, h) of (r, s, h) \<Rightarrow>
         if r \<noteq> IPACM_SUCCESS then (False, calls, s, h)
         else let calls = calls @ snd (handle_lan2lan_msg_post dev (wc_mac c) IPA_LAN_CLIENT_DISCONNECT IPA_IP_v4 s) @
                snd (handle_lan2lan_msg_post dev (wc_mac c) IPA_LAN_CLIENT_DISCONNECT IPA_IP_v6 s)
         in case (if ipv4_header_set c then DeleteHeaderHdl dev (hdr_hdl_v4 c) h else (True, h)) of (ok, h) \<Rightarrow>
         if \<not> ok then (False, calls, s, h)
         else case (if ipv6_header_set c then DeleteHeaderHdl dev (hdr_hdl_v6 c) h else (True, h)) of (ok, h) \<Rightarrow>
         if \<not> ok then (False, calls, s, h)
         else case clean_clients dev k (Suc i) (s, h) of (ok, calls', st) \<Rightarrow> (ok, calls @ calls', st))"

text \<open>The interface goes down. Without an address on the interface the function jumps to \<^verbatim>\<open>fail\<close> at once; otherwise it first removes the filter
  rules and default routing rules of the interface itself (\<open>own\<close>: whether that succeeds, and the driver afterwards) and then what the clients have. At
  \<^verbatim>\<open>fail\<close> the table of clients is freed and the object becomes inactive, in every case.\<close>

definition wlan_handle_down_evt :: "'h ipa_dev \<Rightarrow> ('h \<Rightarrow> bool \<times> 'h) \<Rightarrow> IPACM_Wlan_clients \<times> 'h \<Rightarrow> int \<times> wlan_call list \<times> IPACM_Wlan_clients \<times> 'h" where
  "wlan_handle_down_evt dev own st =
     (case st of (s, h) \<Rightarrow>
      let closed = (\<lambda>s. s\<lparr>wlan_client := [], is_active := False\<rparr>)
      in if wl_ip_type s = None then (IPACM_SUCCESS, [], closed s, h)
         else case own h of (ok, h) \<Rightarrow>
           if \<not> ok then (IPACM_FAILURE, [], closed s, h)
           else case clean_clients dev (num_wifi_client s) 0 (s, h) of (ok, calls, s, h) \<Rightarrow>
             (if ok then IPACM_SUCCESS else IPACM_FAILURE, calls, closed s, h))"

section \<open>Events\<close>

text \<open>The cases of \<^verbatim>\<open>IPACM_Wlan::event_callback\<close> that concern clients. All but the last name an interface of the kernel; the event is
  for this object when the table index of the interface is its own. The last one names a table index.\<close>

datatype wlan_event =
    ClientAddEx int "wlan_attrib list" | ClientDel int "u8 list" | ClientPowerSave int "u8 list" | ClientRecover int "u8 list"
  | NeighClientIpAddrAdd int ipa_ip_type u32 "u32 list" "u8 list" | WanDownV6Tether int

fun wlan_own_event :: "'h ipa_dev \<Rightarrow> wlan_event \<Rightarrow> IPACM_Wlan_clients \<times> 'h \<Rightarrow> fault + wlan_call list \<times> IPACM_Wlan_clients \<times> 'h" where
  "wlan_own_event dev (ClientAddEx k attribs) st = bnd (handle_wlan_client_init_ex dev attribs st) (\<lambda>(r, st). Inr ([], st))"
| "wlan_own_event dev (ClientDel k mac) st =
     (let m4 = snd (handle_lan2lan_msg_post dev mac IPA_LAN_CLIENT_DISCONNECT IPA_IP_v4 (fst st));
          m6 = snd (handle_lan2lan_msg_post dev mac IPA_LAN_CLIENT_DISCONNECT IPA_IP_v6 (fst st))
      in case handle_wlan_client_down_evt dev mac st of (r, calls, st) \<Rightarrow> Inr (m4 @ m6 @ calls, st))"
| "wlan_own_event dev (ClientPowerSave k mac) st =
     (let m4 = snd (handle_lan2lan_msg_post dev mac IPA_LAN_CLIENT_POWER_SAVE IPA_IP_v4 (fst st));
          m6 = snd (handle_lan2lan_msg_post dev mac IPA_LAN_CLIENT_POWER_SAVE IPA_IP_v6 (fst st))
      in case handle_wlan_client_pwrsave dev mac st of (calls, st) \<Rightarrow> Inr (m4 @ m6 @ calls, st))"
| "wlan_own_event dev (ClientRecover k mac) (s, h) =
     (let m4 = snd (handle_lan2lan_msg_post dev mac IPA_LAN_CLIENT_POWER_RECOVER IPA_IP_v4 s);
          m6 = snd (handle_lan2lan_msg_post dev mac IPA_LAN_CLIENT_POWER_RECOVER IPA_IP_v6 s)
      in case get_wlan_client_index mac s of
           None \<Rightarrow> Inr (m4 @ m6, s, h)
         | Some i \<Rightarrow>
             if \<not> power_save_set (wlan_client s ! i) then Inr (m4 @ m6, s, h)
             else
               let s = upd_wlan i (\<lambda>c. c\<lparr>power_save_set := False\<rparr>) s; c = wlan_client s ! i;
                   st1 = (if ipv4_set c then snd (handle_wlan_client_route_rule dev mac IPA_IP_v4 (s, h)) else (s, h));
                   calls = (if ipv4_set c then [Nat_ResetPwrSaveIf (wc_v4_addr c)] else []);
                   st2 = (if ipv6_set c \<noteq> 0 then snd (handle_wlan_client_route_rule dev mac IPA_IP_v6 st1) else st1)
               in Inr (m4 @ m6 @ calls, st2))"
| "wlan_own_event dev (NeighClientIpAddrAdd k iptype v4 v6 mac) st =
     (case handle_wlan_client_ipaddr dev iptype v4 v6 mac st of (r, calls, st) \<Rightarrow>
        if r = IPACM_FAILURE then Inr (calls, st)
        else let act = snd (handle_lan2lan_client_active dev iptype v4 v6 mac (fst st));
                 st = snd (handle_wlan_client_route_rule dev mac iptype st)
             in Inr (calls @ act @ (if iptype = IPA_IP_v4 then [CtList_NeighIpAddrAdd v4] else []), st))"
| "wlan_own_event dev (WanDownV6Tether k) st = (case handle_wlan_client_reset_rt dev IPA_IP_v6 st of (r, calls, st) \<Rightarrow> Inr (calls, st))"

fun wlan_event_iface :: "wlan_event \<Rightarrow> int option" where
  "wlan_event_iface (ClientAddEx k attribs) = Some k"
| "wlan_event_iface (ClientDel k mac) = Some k"
| "wlan_event_iface (ClientPowerSave k mac) = Some k"
| "wlan_event_iface (ClientRecover k mac) = Some k"
| "wlan_event_iface (NeighClientIpAddrAdd k iptype v4 v6 mac) = Some k"
| "wlan_event_iface (WanDownV6Tether k) = None"

definition Wlan_event_callback :: "'h ipa_dev \<Rightarrow> (int \<Rightarrow> string option) \<Rightarrow> wlan_event \<Rightarrow> IPACM_Config \<times> IPACM_Wlan_clients \<times> 'h \<Rightarrow>
    fault + wlan_call list \<times> IPACM_Config \<times> IPACM_Wlan_clients \<times> 'h" where
  "Wlan_event_callback dev names ev st =
     (case st of (c, st) \<Rightarrow>
      let own = (\<lambda>c. bnd (wlan_own_event dev ev st) (\<lambda>(calls, st). Inr (calls, c, st)))
      in if \<not> is_active (fst st) then Inr ([], c, st)
         else case ev of
           WanDownV6Tether k \<Rightarrow> if k = wl_ipa_if_num (fst st) then own c else Inr ([], c, st)
         | _ \<Rightarrow> bnd (iface_ipa_index_query names (the (wlan_event_iface ev)) c) (\<lambda>(i, c).
             if i = wl_ipa_if_num (fst st) then own c else Inr ([], c, st)))"

end
