(* ===== verification/Wlan_Clients_Inv.thy ===== *)
theory Wlan_Clients_Inv
  imports Wlan_Clients
begin

text \<open>
  The table of wireless clients against the hardware: the routing rules and headers in the hardware are those of the clients in
  the table, with the contents that the table prescribes, besides what was there before and what failing calls left behind.
\<close>

section \<open>What a client has in the hardware\<close>

definition v4_rules_of :: "ipa_ioc_tx_intf_prop list \<Rightarrow> ipa_wlan_client \<Rightarrow> nat list \<Rightarrow> (u32 \<times> rt_rule) list" where
  "v4_rules_of ts c tt = map (\<lambda>t. (wifi_rt_rule_hdl_v4 (wifi_rt_hdl c ! t), v4_rule ts c t)) tt"

definition v6_rules_at :: "ipa_ioc_tx_intf_prop list \<Rightarrow> ipa_wlan_client \<Rightarrow> nat \<times> nat \<Rightarrow> (u32 \<times> rt_rule) list" where
  "v6_rules_at ts c = (\<lambda>(t, n). [(wifi_rt_rule_hdl_v6 (wifi_rt_hdl c ! t) ! n, v6_rule IPA_CLIENT_APPS_LAN_CONS c n),
     (wifi_rt_rule_hdl_v6_wan (wifi_rt_hdl c ! t) ! n, v6_wan_rule ts c t n)])"

definition v6_rules_of :: "ipa_ioc_tx_intf_prop list \<Rightarrow> ipa_wlan_client \<Rightarrow> (nat \<times> nat) list \<Rightarrow> (u32 \<times> rt_rule) list" where
  "v6_rules_of ts c pp = concat (map (v6_rules_at ts c) pp)"

definition client_v4 :: "ipa_ioc_tx_intf_prop list \<Rightarrow> ipa_wlan_client \<Rightarrow> (u32 \<times> rt_rule) list" where
  "client_v4 ts c = (if route_rule_set_v4 c then v4_rules_of ts c (tx_of IPA_IP_v4 ts) else [])"

definition client_v6 :: "ipa_ioc_tx_intf_prop list \<Rightarrow> ipa_wlan_client \<Rightarrow> (u32 \<times> rt_rule) list" where
  "client_v6 ts c = v6_rules_of ts c (List.product (tx_of IPA_IP_v6 ts) [0..<route_rule_set_v6 c])"

definition client_rules :: "ipa_ioc_tx_intf_prop list \<Rightarrow> ipa_wlan_client \<Rightarrow> (u32 \<times> rt_rule) list" where
  "client_rules ts c = client_v4 ts c @ client_v6 ts c"

definition client_hdrs :: "ipa_wlan_client \<Rightarrow> u32 list" where
  "client_hdrs c = (if ipv4_header_set c then [hdr_hdl_v4 c] else []) @ (if ipv6_header_set c then [hdr_hdl_v6 c] else [])"

definition clients :: "IPACM_Wlan_clients \<Rightarrow> ipa_wlan_client list" where
  "clients s = take (num_wifi_client s) (wlan_client s)"

definition rules_of :: "IPACM_Wlan_clients \<Rightarrow> (u32 \<times> rt_rule) list" where
  "rules_of s = concat (map (client_rules (txs s)) (clients s))"

definition hdrs_of :: "IPACM_Wlan_clients \<Rightarrow> u32 list" where
  "hdrs_of s = concat (map client_hdrs (clients s))"

text \<open>The shape of a slot, used or not: the arrays have their sizes, there are rules only for addresses, and a header only for a
  family that the interface has.\<close>

definition slot_ok :: "ipa_ioc_tx_intf_prop list \<Rightarrow> ipa_wlan_client \<Rightarrow> bool" where
  "slot_ok ts c \<longleftrightarrow> length (wifi_rt_hdl c) = length ts \<and>
     (\<forall>t < length ts. length (wifi_rt_rule_hdl_v6 (wifi_rt_hdl c ! t)) = IPV6_NUM_ADDR \<and> length (wifi_rt_rule_hdl_v6_wan (wifi_rt_hdl c ! t)) = IPV6_NUM_ADDR) \<and>
     length (wc_v6_addr c) = IPV6_NUM_ADDR \<and> (route_rule_set_v4 c \<longrightarrow> ipv4_set c) \<and> route_rule_set_v6 c \<le> ipv6_set c \<and> ipv6_set c \<le> IPV6_NUM_ADDR \<and>
     (ipv4_header_set c \<longrightarrow> tx_of IPA_IP_v4 ts \<noteq> []) \<and> (ipv6_header_set c \<longrightarrow> tx_of IPA_IP_v6 ts \<noteq> [])"

definition wl_shape :: "IPACM_Wlan_clients \<Rightarrow> bool" where
  "wl_shape s \<longleftrightarrow> length (wlan_client s) = IPA_MAX_NUM_WIFI_CLIENTS \<and> num_wifi_client s \<le> total_num_wifi_clients s \<and>
     total_num_wifi_clients s \<le> IPA_MAX_NUM_WIFI_CLIENTS \<and> (\<forall>c \<in> set (wlan_client s). slot_ok (txs s) c)"

definition wl_inv :: "hw \<Rightarrow> IPACM_Wlan_clients \<Rightarrow> hw \<Rightarrow> bool" where
  "wl_inv w0 s w \<longleftrightarrow> wl_shape s \<and> hold w0 (rules_of s) (hdrs_of s) w"

section \<open>One slot and the others\<close>

definition others :: "nat \<Rightarrow> IPACM_Wlan_clients \<Rightarrow> ipa_wlan_client list" where
  "others i s = take i (clients s) @ drop (Suc i) (clients s)"

definition other_rules :: "nat \<Rightarrow> IPACM_Wlan_clients \<Rightarrow> (u32 \<times> rt_rule) list" where
  "other_rules i s = concat (map (client_rules (txs s)) (others i s))"

definition other_hdrs :: "nat \<Rightarrow> IPACM_Wlan_clients \<Rightarrow> u32 list" where
  "other_hdrs i s = concat (map client_hdrs (others i s))"

lemma upd_wlan_sel [simp]:
  "num_wifi_client (upd_wlan i f s) = num_wifi_client s" "total_num_wifi_clients (upd_wlan i f s) = total_num_wifi_clients s"
  "tx_prop (upd_wlan i f s) = tx_prop s" "txs (upd_wlan i f s) = txs s" "wl_ipa_if_num (upd_wlan i f s) = wl_ipa_if_num s"
  "header_name_count (upd_wlan i f s) = header_name_count s" "length (wlan_client (upd_wlan i f s)) = length (wlan_client s)"
  "wl_ip_type (upd_wlan i f s) = wl_ip_type s"
  by (simp_all add: upd_wlan_def txs_def)

lemma upd_wlan_nth:
  "i < length (wlan_client s) \<Longrightarrow> wlan_client (upd_wlan i f s) ! i = f (wlan_client s ! i)"
  "i \<noteq> j \<Longrightarrow> wlan_client (upd_wlan i f s) ! j = wlan_client s ! j"
  by (simp_all add: upd_wlan_def)

lemma upd_wlan_upd_wlan:
  "i < length (wlan_client s) \<Longrightarrow> upd_wlan i g (upd_wlan i f s) = upd_wlan i (\<lambda>c. g (f c)) s"
  by (simp add: upd_wlan_def)

lemma others_upd [simp]: "others i (upd_wlan i f s) = others i s"
  by (simp add: others_def clients_def upd_wlan_def take_update_swap list_update_beyond)

lemma other_upd [simp]: "other_rules i (upd_wlan i f s) = other_rules i s" "other_hdrs i (upd_wlan i f s) = other_hdrs i s"
  by (simp_all add: other_rules_def other_hdrs_def)

lemma mset_concat_slot:
  "i < length xs \<Longrightarrow> mset (concat (map f xs)) = mset (f (xs ! i) @ concat (map f (take i xs @ drop (Suc i) xs)))"
  by (subst id_take_nth_drop[of i xs]) simp_all

lemma wl_shapeD:
  assumes "wl_shape s"
  shows "num_wifi_client s \<le> length (wlan_client s)" "length (clients s) = num_wifi_client s"
    "i < length (wlan_client s) \<Longrightarrow> slot_ok (txs s) (wlan_client s ! i)"
    "i < num_wifi_client s \<Longrightarrow> i < length (wlan_client s)" "i < num_wifi_client s \<Longrightarrow> clients s ! i = wlan_client s ! i"
  using assms by (auto simp: wl_shape_def clients_def)

lemma wl_shape_upd:
  assumes "wl_shape s" "slot_ok (txs s) (f (wlan_client s ! i))"
  shows "wl_shape (upd_wlan i f s)"
proof -
  have "slot_ok (txs s) c" if c: "c \<in> set (wlan_client (upd_wlan i f s))" for c
    using assms c set_update_subset_insert[of "wlan_client s" i "f (wlan_client s ! i)"] by (auto simp: wl_shape_def upd_wlan_def)
  then show ?thesis using assms(1) by (simp add: wl_shape_def)
qed

lemma hold_slot:
  assumes "wl_shape s" "i < num_wifi_client s"
  shows "hold w0 (rules_of s) (hdrs_of s) w \<longleftrightarrow>
    hold w0 (client_rules (txs s) (wlan_client s ! i) @ other_rules i s) (client_hdrs (wlan_client s ! i) @ other_hdrs i s) w"
proof -
  have i: "i < length (clients s)" "clients s ! i = wlan_client s ! i" using wl_shapeD(2,5)[OF assms(1)] assms(2) by simp_all
  have "mset (rules_of s) = mset (client_rules (txs s) (wlan_client s ! i) @ other_rules i s)"
    "mset (hdrs_of s) = mset (client_hdrs (wlan_client s ! i) @ other_hdrs i s)"
    unfolding rules_of_def hdrs_of_def other_rules_def other_hdrs_def others_def using mset_concat_slot[OF i(1)] i(2) by metis+
  then show ?thesis using hold_perm by metis
qed

text \<open>The invariant as seen from one slot.\<close>

definition at_slot :: "hw \<Rightarrow> nat \<Rightarrow> IPACM_Wlan_clients \<Rightarrow> hw \<Rightarrow> bool" where
  "at_slot w0 i s w \<longleftrightarrow> hold w0 (client_rules (txs s) (wlan_client s ! i) @ other_rules i s) (client_hdrs (wlan_client s ! i) @ other_hdrs i s) w"

lemma wl_inv_slot: "wl_inv w0 s w \<Longrightarrow> i < num_wifi_client s \<Longrightarrow> at_slot w0 i s w"
  unfolding at_slot_def wl_inv_def using hold_slot[of s i w0 w] by blast

lemma wl_inv_upd:
  assumes "wl_shape s" "i < num_wifi_client s" "slot_ok (txs s) (f (wlan_client s ! i))"
    "hold w0 (client_rules (txs s) (f (wlan_client s ! i)) @ other_rules i s) (client_hdrs (f (wlan_client s ! i)) @ other_hdrs i s) w"
  shows "wl_inv w0 (upd_wlan i f s) w"
proof -
  have sh: "wl_shape (upd_wlan i f s)" using wl_shape_upd assms(1,3) .
  then show ?thesis unfolding wl_inv_def using hold_slot[OF sh, of i] assms(2,4) upd_wlan_nth(1) wl_shapeD(4)[OF assms(1,2)] by simp
qed

text \<open>An update that keeps what the client has in the hardware.\<close>

lemma wl_inv_same:
  assumes "wl_inv w0 s w" "i < num_wifi_client s" "slot_ok (txs s) (f (wlan_client s ! i))"
    "client_rules (txs s) (f (wlan_client s ! i)) = client_rules (txs s) (wlan_client s ! i)"
    "client_hdrs (f (wlan_client s ! i)) = client_hdrs (wlan_client s ! i)"
  shows "wl_inv w0 (upd_wlan i f s) w"
proof (rule wl_inv_upd)
  show "wl_shape s" using assms(1) by (simp add: wl_inv_def)
qed (use assms wl_inv_slot[OF assms(1,2)] in \<open>simp_all add: at_slot_def\<close>)

section \<open>Deleting the rules of a client\<close>

lemma product_Nil [simp]: "List.product xs [] = []"
  by (induction xs) simp_all

lemma v4_hdls_rules: "v4_hdls ts c = map fst (client_v4 ts c)"
  by (simp add: v4_hdls_def client_v4_def v4_rules_of_def)

lemma concat_concat: "concat (concat xss) = concat (map concat xss)"
  by (induction xss) simp_all

lemma v6_hdls_rules: "v6_hdls ts c = map fst (client_v6 ts c)"
  by (simp add: v6_hdls_def client_v6_def v6_rules_of_def v6_rules_at_def product_concat_map map_concat concat_concat o_def)

lemma client_rules_simps [simp]:
  "client_v4 ts (c\<lparr>route_rule_set_v6 := n\<rparr>) = client_v4 ts c" "client_v6 ts (c\<lparr>route_rule_set_v4 := b\<rparr>) = client_v6 ts c"
  "client_v4 ts (c\<lparr>route_rule_set_v4 := False\<rparr>) = []" "client_v6 ts (c\<lparr>route_rule_set_v6 := 0\<rparr>) = []"
  "client_hdrs (c\<lparr>route_rule_set_v4 := b\<rparr>) = client_hdrs c" "client_hdrs (c\<lparr>route_rule_set_v6 := n\<rparr>) = client_hdrs c"
  by (simp_all add: client_v4_def client_v6_def v4_rules_of_def v6_rules_of_def v6_rules_at_def v4_rule_def v6_rule_def v6_wan_rule_def
      client_hdrs_def product_concat_map)

lemma slot_ok_flags:
  assumes "slot_ok ts c"
  shows "slot_ok ts (c\<lparr>route_rule_set_v4 := False\<rparr>)" "slot_ok ts (c\<lparr>route_rule_set_v6 := 0\<rparr>)"
  using assms by (simp_all add: slot_ok_def)

definition drop_rules :: "ipa_ip_type \<Rightarrow> ipa_wlan_client \<Rightarrow> ipa_wlan_client" where
  "drop_rules ip c = (if ip = IPA_IP_v4 then c\<lparr>route_rule_set_v4 := False\<rparr> else if ip = IPA_IP_v6 then c\<lparr>route_rule_set_v6 := 0\<rparr> else c)"

lemma drop_rules_simps:
  "drop_rules IPA_IP_v4 = (\<lambda>c. c\<lparr>route_rule_set_v4 := False\<rparr>)" "drop_rules IPA_IP_v6 = (\<lambda>c. c\<lparr>route_rule_set_v6 := 0\<rparr>)"
  "ip \<noteq> IPA_IP_v4 \<Longrightarrow> ip \<noteq> IPA_IP_v6 \<Longrightarrow> drop_rules ip = (\<lambda>c. c)"
  by (simp_all add: drop_rules_def fun_eq_iff)

lemma drop_rules_facts:
  "client_hdrs (drop_rules ip c) = client_hdrs c" "slot_ok ts c \<Longrightarrow> slot_ok ts (drop_rules ip c)"
  using slot_ok_flags by (simp_all add: drop_rules_def)

text \<open>The deletion for one slot, whatever else is in the hardware.\<close>

lemma delete_default_qos_rtrules_hold:
  assumes dev: "dev_ok dev obs" and at: "hold w0 (client_rules (txs s) (wlan_client s ! i) @ L) H (obs h)"
  shows "\<exists>h'. delete_default_qos_rtrules dev i ip (s, h) = (IPACM_SUCCESS, upd_wlan i (drop_rules ip) s, h') \<and>
    hold w0 (client_rules (txs s) (drop_rules ip (wlan_client s ! i)) @ L) H (obs h')"
proof -
  let ?c = "wlan_client s ! i" and ?ts = "txs s"
  consider "ip = IPA_IP_v4" | "ip = IPA_IP_v6" | "ip \<noteq> IPA_IP_v4" "ip \<noteq> IPA_IP_v6" by blast
  then show ?thesis
  proof cases
    case 1
    obtain h' where "del_hdls dev IPA_IP_v4 (v4_hdls ?ts ?c) h = (True, h')" "hold w0 (client_v6 ?ts ?c @ L) H (obs h')"
      using del_hdls_hold[OF dev, of w0 "client_v4 ?ts ?c" _ _ h IPA_IP_v4] at unfolding v4_hdls_rules client_rules_def by auto
    then show ?thesis using 1 unfolding delete_default_qos_rtrules_def by (simp add: drop_rules_simps client_rules_def)
  next
    case 2
    have "hold w0 (client_v6 ?ts ?c @ client_v4 ?ts ?c @ L) H (obs h)" by (rule hold_perm[OF at]) (simp_all add: client_rules_def)
    then obtain h' where "del_hdls dev IPA_IP_v6 (v6_hdls ?ts ?c) h = (True, h')" "hold w0 (client_v4 ?ts ?c @ L) H (obs h')"
      using del_hdls_hold[OF dev, of w0 "client_v6 ?ts ?c" _ _ h IPA_IP_v6] unfolding v6_hdls_rules by auto
    then show ?thesis using 2 unfolding delete_default_qos_rtrules_def by (simp add: drop_rules_simps client_rules_def)
  next
    case 3
    then have "upd_wlan i (drop_rules ip) s = s" "drop_rules ip ?c = ?c" by (simp_all add: drop_rules_def upd_wlan_def)
    then show ?thesis using 3 at by (simp add: delete_default_qos_rtrules_def)
  qed
qed

lemma delete_default_qos_rtrules_inv:
  assumes dev: "dev_ok dev obs" and inv: "wl_inv w0 s (obs h)" and i: "i < num_wifi_client s"
  shows "\<exists>h'. delete_default_qos_rtrules dev i ip (s, h) = (IPACM_SUCCESS, upd_wlan i (drop_rules ip) s, h') \<and>
    wl_inv w0 (upd_wlan i (drop_rules ip) s) (obs h')"
proof -
  have sh: "wl_shape s" using inv by (simp add: wl_inv_def)
  have ok: "slot_ok (txs s) (wlan_client s ! i)" using wl_shapeD(3,4)[OF sh] i by simp
  obtain h' where h': "delete_default_qos_rtrules dev i ip (s, h) = (IPACM_SUCCESS, upd_wlan i (drop_rules ip) s, h')"
    "hold w0 (client_rules (txs s) (drop_rules ip (wlan_client s ! i)) @ other_rules i s) (client_hdrs (wlan_client s ! i) @ other_hdrs i s) (obs h')"
    using delete_default_qos_rtrules_hold[OF dev] wl_inv_slot[OF inv i] unfolding at_slot_def by blast
  have "wl_inv w0 (upd_wlan i (drop_rules ip) s) (obs h')"
    by (rule wl_inv_upd[OF sh i]) (use drop_rules_facts(2)[OF ok] h'(2) in \<open>simp_all add: drop_rules_facts(1)\<close>)
  then show ?thesis using h'(1) by blast
qed

section \<open>Adding rules\<close>

text \<open>Two clients that differ at most in the handles of rules, and in these only at the positions \<open>P4\<close> and \<open>P6\<close>.\<close>

definition same_but :: "nat set \<Rightarrow> (nat \<times> nat) set \<Rightarrow> ipa_wlan_client \<Rightarrow> ipa_wlan_client \<Rightarrow> bool" where
  "same_but P4 P6 c c' \<longleftrightarrow> c' = c\<lparr>wifi_rt_hdl := wifi_rt_hdl c'\<rparr> \<and> length (wifi_rt_hdl c') = length (wifi_rt_hdl c) \<and>
     (\<forall>t. length (wifi_rt_rule_hdl_v6 (wifi_rt_hdl c' ! t)) = length (wifi_rt_rule_hdl_v6 (wifi_rt_hdl c ! t)) \<and>
          length (wifi_rt_rule_hdl_v6_wan (wifi_rt_hdl c' ! t)) = length (wifi_rt_rule_hdl_v6_wan (wifi_rt_hdl c ! t)) \<and>
          (t \<notin> P4 \<longrightarrow> wifi_rt_rule_hdl_v4 (wifi_rt_hdl c' ! t) = wifi_rt_rule_hdl_v4 (wifi_rt_hdl c ! t)) \<and>
          (\<forall>n. (t, n) \<notin> P6 \<longrightarrow> wifi_rt_rule_hdl_v6 (wifi_rt_hdl c' ! t) ! n = wifi_rt_rule_hdl_v6 (wifi_rt_hdl c ! t) ! n \<and>
             wifi_rt_rule_hdl_v6_wan (wifi_rt_hdl c' ! t) ! n = wifi_rt_rule_hdl_v6_wan (wifi_rt_hdl c ! t) ! n))"

lemma same_but_refl [simp]: "same_but P4 P6 c c"
  by (simp add: same_but_def)

lemma same_but_trans:
  assumes "same_but P4 P6 c c'" "same_but P4 P6 c' c''" shows "same_but P4 P6 c c''"
proof -
  have "c'' = c\<lparr>wifi_rt_hdl := wifi_rt_hdl c''\<rparr>" using assms unfolding same_but_def
    by (metis ipa_wlan_client.surjective ipa_wlan_client.update_convs(14))
  then show ?thesis using assms unfolding same_but_def by simp
qed

lemma same_but_mono: "same_but P4 P6 c c' \<Longrightarrow> P4 \<subseteq> Q4 \<Longrightarrow> P6 \<subseteq> Q6 \<Longrightarrow> same_but Q4 Q6 c c'"
  unfolding same_but_def by blast

lemma same_but_sel:
  assumes "same_but P4 P6 c c'"
  shows "v4_rule ts c' = v4_rule ts c" "v6_rule d c' = v6_rule d c" "v6_wan_rule ts c' = v6_wan_rule ts c" "client_hdrs c' = client_hdrs c"
    "route_rule_set_v4 c' = route_rule_set_v4 c" "route_rule_set_v6 c' = route_rule_set_v6 c" "ipv6_set c' = ipv6_set c"
    "slot_ok ts c' = slot_ok ts c" "ipv4_set c' = ipv4_set c"
proof -
  obtain r where r: "c' = c\<lparr>wifi_rt_hdl := r\<rparr>" using assms unfolding same_but_def by blast
  show "v4_rule ts c' = v4_rule ts c" "v6_rule d c' = v6_rule d c" "v6_wan_rule ts c' = v6_wan_rule ts c" "client_hdrs c' = client_hdrs c"
    "route_rule_set_v4 c' = route_rule_set_v4 c" "route_rule_set_v6 c' = route_rule_set_v6 c" "ipv6_set c' = ipv6_set c" "ipv4_set c' = ipv4_set c"
    unfolding r by (simp_all add: v4_rule_def v6_rule_def v6_wan_rule_def client_hdrs_def fun_eq_iff)
  show "slot_ok ts c' = slot_ok ts c" using assms unfolding same_but_def slot_ok_def r by simp
qed

lemma same_but_rules:
  assumes "same_but P4 P6 c c'"
  shows "set tt \<inter> P4 = {} \<Longrightarrow> v4_rules_of ts c' tt = v4_rules_of ts c tt" "set pp \<inter> P6 = {} \<Longrightarrow> v6_rules_of ts c' pp = v6_rules_of ts c pp"
proof -
  assume "set tt \<inter> P4 = {}"
  then show "v4_rules_of ts c' tt = v4_rules_of ts c tt" unfolding v4_rules_of_def same_but_sel[OF assms]
    using assms by (auto simp: same_but_def)
next
  assume "set pp \<inter> P6 = {}"
  then have "v6_rules_at ts c' x = v6_rules_at ts c x" if "x \<in> set pp" for x
    using assms that by (cases x) (auto simp: v6_rules_at_def same_but_sel[OF assms] same_but_def)
  then show "v6_rules_of ts c' pp = v6_rules_of ts c pp" unfolding v6_rules_of_def by (metis map_cong)
qed

lemma same_but_upd_v4: "t < length (wifi_rt_hdl c) \<Longrightarrow> same_but {t} {} c (upd_rt t (\<lambda>r. r\<lparr>wifi_rt_rule_hdl_v4 := x\<rparr>) c)"
  by (auto simp: same_but_def upd_rt_def nth_list_update)

lemma same_but_upd_v6:
  "same_but {} {(t, n)} c (upd_rt t (\<lambda>r. r\<lparr>wifi_rt_rule_hdl_v6 := (wifi_rt_rule_hdl_v6 r)[n := x]\<rparr>) c)"
  "same_but {} {(t, n)} c (upd_rt t (\<lambda>r. r\<lparr>wifi_rt_rule_hdl_v6_wan := (wifi_rt_rule_hdl_v6_wan r)[n := x]\<rparr>) c)"
  by (cases "t < length (wifi_rt_hdl c)"; auto simp: same_but_def upd_rt_def nth_list_update list_update_beyond)+

lemma add_v4_rules_hold:
  assumes dev: "dev_ok dev obs" and h: "hold w0 L H (obs h)" and r: "add_v4_rules dev ts tt (c, h) = (ok, c', h')"
    and tt: "distinct tt" "\<forall>t \<in> set tt. t < length (wifi_rt_hdl c)"
  shows "same_but (set tt) {} c c' \<and>
    (if ok then hold w0 (v4_rules_of ts c' tt @ L) H (obs h') else hold w0 L H (obs h') \<and> hw_fails w0 < hw_fails (obs h'))"
  using h r tt
proof (induction tt arbitrary: c h L)
  case Nil
  then show ?case by (simp add: v4_rules_of_def)
next
  case (Cons t tt)
  obtain res h1 where 1: "AddRoutingRule dev (v4_rule ts c t) h = (res, h1)" by (cases "AddRoutingRule dev (v4_rule ts c t) h")
  show ?case
  proof (cases res)
    case None
    then show ?thesis using Cons.prems(2) 1 AddRoutingRule_hold[OF dev Cons.prems(1) 1] by auto
  next
    case (Some p)
    obtain x st where p [simp]: "p = (x, st)" by (cases p)
    let ?c = "upd_rt t (\<lambda>r. r\<lparr>wifi_rt_rule_hdl_v4 := x\<rparr>) c"
    have h1: "hold w0 ((x, v4_rule ts c t) # L) H (obs h1)" using AddRoutingRule_hold[OF dev Cons.prems(1) 1] Some by simp
    have s1: "same_but {t} {} c ?c" and x: "wifi_rt_rule_hdl_v4 (wifi_rt_hdl ?c ! t) = x"
      using Cons.prems(4) by (simp_all add: same_but_upd_v4) (simp add: upd_rt_def)
    have r1: "add_v4_rules dev ts tt (?c, h1) = (ok, c', h')" using Cons.prems(2) 1 Some by simp
    have len: "\<forall>u \<in> set tt. u < length (wifi_rt_hdl ?c)" using Cons.prems(4) by (simp add: upd_rt_def)
    note ih = Cons.IH[OF h1 r1 _ len]
    have s2: "same_but (set tt) {} ?c c'" using ih Cons.prems(3) by simp
    have s: "same_but (set (t # tt)) {} c c'" using same_but_trans same_but_mono[OF s1] same_but_mono[OF s2] by (metis insert_subset list.set_intros(1) empty_subsetI set_subset_Cons subset_refl)
    have "wifi_rt_rule_hdl_v4 (wifi_rt_hdl c' ! t) = x" using s2 x Cons.prems(3) by (simp add: same_but_def)
    then have e: "v4_rules_of ts c' (t # tt) = (x, v4_rule ts c t) # v4_rules_of ts c' tt"
      by (simp add: v4_rules_of_def same_but_sel(1)[OF s])
    show ?thesis
    proof (cases ok)
      case True
      then have "hold w0 (v4_rules_of ts c' tt @ (x, v4_rule ts c t) # L) H (obs h')" using ih Cons.prems(3) by simp
      then have "hold w0 (v4_rules_of ts c' (t # tt) @ L) H (obs h')" unfolding e by (rule hold_perm) simp_all
      then show ?thesis using True s by simp
    next
      case False
      then have f: "hold w0 ([(x, v4_rule ts c t)] @ L) ([] @ H) (obs h')" "hw_fails w0 < hw_fails (obs h')" using ih Cons.prems(3) by simp_all
      show ?thesis using False s f(2) hold_forget[OF f] by simp
    qed
  qed
qed

lemma v6_rules_Cons: "v6_rules_of ts c (p # pp) = v6_rules_at ts c p @ v6_rules_of ts c pp"
  by (simp add: v6_rules_of_def)

text \<open>One round of the loop: the two rules for the address \<open>n\<close> on the property \<open>t\<close>.\<close>

lemma add_v6_pair_hold:
  assumes dev: "dev_ok dev obs" and h: "hold w0 L H (obs h)" and r: "add_v6_rules dev ts ((t, n) # pp) (c, h) = (ok, c', h')"
    and len: "t < length (wifi_rt_hdl c)" "n < length (wifi_rt_rule_hdl_v6 (wifi_rt_hdl c ! t))" "n < length (wifi_rt_rule_hdl_v6_wan (wifi_rt_hdl c ! t))"
  shows "(\<not> ok \<and> same_but {} {(t, n)} c c' \<and> hold w0 L H (obs h') \<and> hw_fails w0 < hw_fails (obs h')) \<or>
    (\<exists>c2 h2. same_but {} {(t, n)} c c2 \<and> hold w0 (v6_rules_at ts c2 (t, n) @ L) H (obs h2) \<and> add_v6_rules dev ts pp (c2, h2) = (ok, c', h'))"
proof -
  let ?r1 = "v6_rule IPA_CLIENT_APPS_LAN_CONS c n"
  obtain res1 h1 where 1: "AddRoutingRule dev ?r1 h = (res1, h1)" by (cases "AddRoutingRule dev ?r1 h")
  show ?thesis
  proof (cases res1)
    case None
    then show ?thesis using r 1 AddRoutingRule_hold[OF dev h 1] by auto
  next
    case (Some p)
    obtain x st where p [simp]: "p = (x, st)" by (cases p)
    let ?c1 = "upd_rt t (\<lambda>r. r\<lparr>wifi_rt_rule_hdl_v6 := (wifi_rt_rule_hdl_v6 r)[n := x]\<rparr>) c"
    have h1: "hold w0 ((x, ?r1) # L) H (obs h1)" using AddRoutingRule_hold[OF dev h 1] Some by simp
    have s1: "same_but {} {(t, n)} c ?c1" by (rule same_but_upd_v6)
    let ?r2 = "v6_wan_rule ts ?c1 t n"
    obtain res2 h2 where 2: "AddRoutingRule dev ?r2 h1 = (res2, h2)" by (cases "AddRoutingRule dev ?r2 h1")
    show ?thesis
    proof (cases res2)
      case None
      then have f: "hold w0 ([(x, ?r1)] @ L) ([] @ H) (obs h2)" "hw_fails w0 < hw_fails (obs h2)" using AddRoutingRule_hold[OF dev h1 2] by simp_all
      from hold_forget[OF f] show ?thesis using r 1 2 None Some f(2) s1 by (auto simp: Let_def)
    next
      case (Some q)
      obtain y st' where q [simp]: "q = (y, st')" by (cases q)
      let ?c2 = "upd_rt t (\<lambda>r. r\<lparr>wifi_rt_rule_hdl_v6_wan := (wifi_rt_rule_hdl_v6_wan r)[n := y]\<rparr>) ?c1"
      have h2: "hold w0 ((y, ?r2) # (x, ?r1) # L) H (obs h2)" using AddRoutingRule_hold[OF dev h1 2] Some by simp
      have s2: "same_but {} {(t, n)} c ?c2" using same_but_trans[OF s1 same_but_upd_v6(2)] .
      have "v6_rules_at ts ?c2 (t, n) = [(x, ?r1), (y, ?r2)]"
        unfolding v6_rules_at_def using same_but_sel(2,3)[OF s2] same_but_sel(3)[OF s1] len by (simp add: upd_rt_def)
      then have "hold w0 (v6_rules_at ts ?c2 (t, n) @ L) H (obs h2)" using hold_perm[OF h2] by simp
      then show ?thesis using s2 r 1 2 Some \<open>res1 = Some p\<close> by (auto simp: Let_def)
    qed
  qed
qed

lemma add_v6_rules_hold:
  assumes dev: "dev_ok dev obs" and h: "hold w0 L H (obs h)" and r: "add_v6_rules dev ts pp (c, h) = (ok, c', h')"
    and pp: "distinct pp" "slot_ok ts c" "\<forall>(t, n) \<in> set pp. t < length ts \<and> n < IPV6_NUM_ADDR"
  shows "same_but {} (set pp) c c' \<and>
    (if ok then hold w0 (v6_rules_of ts c' pp @ L) H (obs h') else hold w0 L H (obs h') \<and> hw_fails w0 < hw_fails (obs h'))"
  using h r pp
proof (induction pp arbitrary: c h L)
  case Nil
  then show ?case by (simp add: v6_rules_of_def)
next
  case (Cons p pp)
  obtain t n where p: "p = (t, n)" by (cases p)
  have len: "t < length (wifi_rt_hdl c)" "n < length (wifi_rt_rule_hdl_v6 (wifi_rt_hdl c ! t))" "n < length (wifi_rt_rule_hdl_v6_wan (wifi_rt_hdl c ! t))"
    using Cons.prems(4,5) p by (auto simp: slot_ok_def)
  consider "\<not> ok" "same_but {} {(t, n)} c c'" "hold w0 L H (obs h')" "hw_fails w0 < hw_fails (obs h')" |
    c2 h2 where "same_but {} {(t, n)} c c2" "hold w0 (v6_rules_at ts c2 (t, n) @ L) H (obs h2)" "add_v6_rules dev ts pp (c2, h2) = (ok, c', h')"
    using add_v6_pair_hold[OF dev Cons.prems(1) Cons.prems(2)[unfolded p] len] by metis
  then show ?case
  proof cases
    case 1
    then show ?thesis using same_but_mono[of "{}" "{(t, n)}" c c' "{}" "set (p # pp)"] p by simp
  next
    case 2
    have ok2: "slot_ok ts c2" using same_but_sel(8)[OF 2(1)] Cons.prems(4) by simp
    note ih = Cons.IH[OF 2(2,3) _ ok2]
    have s2: "same_but {} (set pp) c2 c'" using ih Cons.prems(3,5) by simp
    have s: "same_but {} (set (p # pp)) c c'"
      by (rule same_but_trans[OF same_but_mono[OF 2(1)] same_but_mono[OF s2]]) (auto simp: p)
    have "v6_rules_of ts c' [p] = v6_rules_of ts c2 [p]" using same_but_rules(2)[OF s2] Cons.prems(3) by simp
    then have e: "v6_rules_at ts c' p = v6_rules_at ts c2 p" by (simp add: v6_rules_of_def)
    show ?thesis
    proof (cases ok)
      case True
      then have "hold w0 (v6_rules_of ts c' pp @ v6_rules_at ts c2 p @ L) H (obs h')" using ih Cons.prems(3,5) p by simp
      then have "hold w0 (v6_rules_of ts c' (p # pp) @ L) H (obs h')" unfolding v6_rules_Cons e by (rule hold_perm) simp_all
      then show ?thesis using True s by simp
    next
      case False
      then have f: "hold w0 (v6_rules_at ts c2 p @ L) ([] @ H) (obs h')" "hw_fails w0 < hw_fails (obs h')" using ih Cons.prems(3,5) p by simp_all
      show ?thesis using False s f(2) hold_forget[OF f] by simp
    qed
  qed
qed

lemma tx_of_facts: "distinct (tx_of ip ts)" "t \<in> set (tx_of ip ts) \<Longrightarrow> t < length ts"
  by (simp_all add: tx_of_def)

lemma product_split:
  "m \<le> n \<Longrightarrow> mset (v6_rules_of ts c (List.product xs [0..<n])) = mset (v6_rules_of ts c (List.product xs [0..<m])) + mset (v6_rules_of ts c (List.product xs [m..<n]))"
proof (induction xs)
  case (Cons x xs)
  have "[0..<n] = [0..<m] @ [m..<n]" using Cons.prems by (metis le_add_diff_inverse upt_add_eq_append zero_le)
  then show ?case using Cons by (simp add: v6_rules_of_def)
qed (simp add: v6_rules_of_def)

section \<open>Every operation keeps the table and the hardware together\<close>

lemma get_wlan_client_index_SomeD:
  assumes "get_wlan_client_index mac s = Some i"
  shows "i < num_wifi_client s" "wc_mac (wlan_client s ! i) = mac"
  using find_slot_SomeD[OF assms[unfolded get_wlan_client_index_def]] by auto

lemma add_v4_client:
  assumes dev: "dev_ok dev obs" and inv: "wl_inv w0 s (obs h)" and i: "i < num_wifi_client s"
    and n: "\<not> route_rule_set_v4 (wlan_client s ! i)" "ipv4_set (wlan_client s ! i)"
    and r: "add_v4_rules dev (txs s) (tx_of IPA_IP_v4 (txs s)) (wlan_client s ! i, h) = (ok, c', h')"
  shows "wl_inv w0 (upd_wlan i (\<lambda>_. if ok then c'\<lparr>route_rule_set_v4 := True\<rparr> else c') s) (obs h')" (is ?inv)
    "\<not> ok \<Longrightarrow> hw_fails w0 < hw_fails (obs h')" "same_but (set (tx_of IPA_IP_v4 (txs s))) {} (wlan_client s ! i) c'"
proof -
  let ?c = "wlan_client s ! i" and ?ts = "txs s"
  have sh: "wl_shape s" using inv by (simp add: wl_inv_def)
  have ok: "slot_ok ?ts ?c" using wl_shapeD(3,4)[OF sh] i by simp
  have at: "hold w0 (client_v6 ?ts ?c @ other_rules i s) (client_hdrs ?c @ other_hdrs i s) (obs h)"
    using wl_inv_slot[OF inv i] n by (simp add: at_slot_def client_rules_def client_v4_def)
  have "\<forall>t \<in> set (tx_of IPA_IP_v4 ?ts). t < length (wifi_rt_hdl ?c)" using ok tx_of_facts(2) by (auto simp: slot_ok_def)
  note a = add_v4_rules_hold[OF dev at r tx_of_facts(1) this]
  have sb: "same_but (set (tx_of IPA_IP_v4 ?ts)) {} ?c c'" using a by simp
  have e: "client_v6 ?ts c' = client_v6 ?ts ?c" "client_hdrs c' = client_hdrs ?c" "slot_ok ?ts c'" "route_rule_set_v4 c' = route_rule_set_v4 ?c" "ipv4_set c' = ipv4_set ?c"
    using same_but_rules(2)[OF sb] same_but_sel[OF sb] ok by (simp_all add: client_v6_def)
  show "\<not> ok \<Longrightarrow> hw_fails w0 < hw_fails (obs h')" "same_but (set (tx_of IPA_IP_v4 ?ts)) {} ?c c'" using a sb by simp_all
  show ?inv
  proof (rule wl_inv_upd[OF sh i])
    show "slot_ok ?ts (if ok then c'\<lparr>route_rule_set_v4 := True\<rparr> else c')" using e n(2) by (simp add: slot_ok_def)
    have "client_v4 ?ts (c'\<lparr>route_rule_set_v4 := True\<rparr>) = v4_rules_of ?ts c' (tx_of IPA_IP_v4 ?ts)"
      by (simp add: client_v4_def v4_rules_of_def v4_rule_def)
    then show "hold w0 (client_rules ?ts (if ok then c'\<lparr>route_rule_set_v4 := True\<rparr> else c') @ other_rules i s)
        (client_hdrs (if ok then c'\<lparr>route_rule_set_v4 := True\<rparr> else c') @ other_hdrs i s) (obs h')"
      using a n e by (auto simp: client_rules_def client_v4_def split: if_splits)
  qed
qed

lemma add_v6_client:
  assumes dev: "dev_ok dev obs" and inv: "wl_inv w0 s (obs h)" and i: "i < num_wifi_client s"
    and r: "add_v6_rules dev (txs s) (List.product (tx_of IPA_IP_v6 (txs s)) [route_rule_set_v6 (wlan_client s ! i)..<ipv6_set (wlan_client s ! i)])
      (wlan_client s ! i, h) = (ok, c', h')"
  shows "wl_inv w0 (upd_wlan i (\<lambda>_. if ok then c'\<lparr>route_rule_set_v6 := ipv6_set c'\<rparr> else c') s) (obs h')"
proof -
  let ?c = "wlan_client s ! i" and ?ts = "txs s"
  let ?m = "route_rule_set_v6 ?c" and ?n = "ipv6_set ?c"
  let ?pp = "List.product (tx_of IPA_IP_v6 ?ts) [?m..<?n]" and ?qq = "List.product (tx_of IPA_IP_v6 ?ts) [0..<?m]"
  let ?c' = "if ok then c'\<lparr>route_rule_set_v6 := ipv6_set c'\<rparr> else c'"
  have sh: "wl_shape s" using inv by (simp add: wl_inv_def)
  have ok: "slot_ok ?ts ?c" using wl_shapeD(3,4)[OF sh] i by simp
  have mn: "?m \<le> ?n" "?n \<le> IPV6_NUM_ADDR" using ok by (simp_all add: slot_ok_def)
  have at: "hold w0 (client_v4 ?ts ?c @ client_v6 ?ts ?c @ other_rules i s) (client_hdrs ?c @ other_hdrs i s) (obs h)"
    using wl_inv_slot[OF inv i] by (simp add: at_slot_def client_rules_def)
  have d: "distinct ?pp" by (simp add: distinct_product tx_of_facts(1))
  have b: "\<forall>(t, n) \<in> set ?pp. t < length ?ts \<and> n < IPV6_NUM_ADDR" using tx_of_facts(2) mn by auto
  note a = add_v6_rules_hold[OF dev at r d ok b]
  have sb: "same_but {} (set ?pp) ?c c'" using a by simp
  have dj: "set ?qq \<inter> set ?pp = {}" by auto
  have e: "v6_rules_of ?ts c' ?qq = client_v6 ?ts ?c" "client_hdrs c' = client_hdrs ?c" "slot_ok ?ts c'" "client_v4 ?ts c' = client_v4 ?ts ?c"
    "route_rule_set_v6 c' = ?m" "ipv6_set c' = ?n"
    using same_but_rules[OF sb] same_but_sel[OF sb] ok dj by (simp_all add: client_v6_def client_v4_def)
  have hd: "client_hdrs ?c' = client_hdrs ?c" "client_v4 ?ts ?c' = client_v4 ?ts ?c" using e by simp_all
  show ?thesis
  proof (rule wl_inv_upd[OF sh i])
    show "slot_ok ?ts ?c'" using e(3) by (auto simp: slot_ok_def)
    show "hold w0 (client_rules ?ts ?c' @ other_rules i s) (client_hdrs ?c' @ other_hdrs i s) (obs h')"
    proof (cases ok)
      case True
      then have h: "hold w0 (v6_rules_of ?ts c' ?pp @ client_v4 ?ts ?c @ client_v6 ?ts ?c @ other_rules i s) (client_hdrs ?c @ other_hdrs i s) (obs h')"
        using a by simp
      have "client_v6 ?ts ?c' = v6_rules_of ?ts c' (List.product (tx_of IPA_IP_v6 ?ts) [0..<?n])"
        using True e(6) by (simp add: client_v6_def v6_rules_of_def v6_rules_at_def v6_rule_def v6_wan_rule_def)
      then have "mset (client_v6 ?ts ?c') = mset (client_v6 ?ts ?c) + mset (v6_rules_of ?ts c' ?pp)" using product_split[OF mn(1)] e(1) by simp
      then show ?thesis unfolding hd client_rules_def by (intro hold_perm[OF h]) simp_all
    next
      case False
      then show ?thesis using a e by (simp add: client_rules_def client_v6_def)
    qed
  qed
qed

lemma handle_wlan_client_route_rule_inv:
  assumes dev: "dev_ok dev obs" and inv: "wl_inv w0 s (obs h)" and r: "handle_wlan_client_route_rule dev mac ip (s, h) = (res, s', h')"
  shows "wl_inv w0 s' (obs h')"
proof (cases "tx_prop s = None \<or> get_wlan_client_index mac s = None")
  case True
  then show ?thesis using r inv by (auto simp: handle_wlan_client_route_rule_def split: if_splits)
next
  case False
  then obtain i where i: "tx_prop s \<noteq> None" "get_wlan_client_index mac s = Some i" by auto
  let ?c = "wlan_client s ! i" and ?ts = "txs s"
  note n = get_wlan_client_index_SomeD(1)[OF i(2)]
  show ?thesis
  proof (cases "power_save_set ?c")
    case True
    then show ?thesis using r i inv by (simp add: handle_wlan_client_route_rule_def Let_def)
  next
    case p: False
    consider "ip = IPA_IP_v4" "\<not> route_rule_set_v4 ?c" "ipv4_set ?c" | "ip = IPA_IP_v6" "route_rule_set_v6 ?c < ipv6_set ?c" |
      "\<not> (ip = IPA_IP_v4 \<and> \<not> route_rule_set_v4 ?c \<and> ipv4_set ?c)" "\<not> (ip = IPA_IP_v6 \<and> route_rule_set_v6 ?c < ipv6_set ?c)" by blast
    then show ?thesis
    proof cases
      case 1
      obtain ok c' h1 where a: "add_v4_rules dev ?ts (tx_of IPA_IP_v4 ?ts) (?c, h) = (ok, c', h1)" by (metis prod_cases3)
      show ?thesis using add_v4_client(1)[OF dev inv n 1(2,3) a] r i p 1 a dev_okD(2)[OF dev]
        by (simp add: handle_wlan_client_route_rule_def Let_def split: if_splits)
    next
      case 2
      obtain ok c' h1 where a: "add_v6_rules dev ?ts (List.product (tx_of IPA_IP_v6 ?ts) [route_rule_set_v6 ?c..<ipv6_set ?c]) (?c, h) = (ok, c', h1)"
        by (metis prod_cases3)
      show ?thesis using add_v6_client[OF dev inv n a] r i p 2 a dev_okD(2)[OF dev]
        by (simp add: handle_wlan_client_route_rule_def Let_def split: if_splits)
    next
      case 3
      then have "(res, s', h') = (IPACM_SUCCESS, s, h)" using r i p unfolding handle_wlan_client_route_rule_def by (auto simp: Let_def 3 split: if_splits)
      then show ?thesis using inv by simp
    qed
  qed
qed

text \<open>An update of addresses: rules stay as they are where they do not depend on what changes.\<close>

lemma set_v4_addr_inv:
  assumes inv: "wl_inv w0 s w" and i: "i < num_wifi_client s" and n: "\<not> route_rule_set_v4 (wlan_client s ! i)"
  shows "wl_inv w0 (upd_wlan i (\<lambda>c. c\<lparr>wc_v4_addr := a, ipv4_set := b\<rparr>) s) w"
    "wl_inv w0 (upd_wlan i (\<lambda>c. c\<lparr>route_rule_set_v4 := False, wc_v4_addr := a\<rparr>) s) w"
proof -
  have sh: "wl_shape s" using inv by (simp add: wl_inv_def)
  have ok: "slot_ok (txs s) (wlan_client s ! i)" using wl_shapeD(3,4)[OF sh] i by simp
  note defs = client_rules_def client_v4_def client_v6_def v6_rules_of_def v6_rules_at_def v6_rule_def v6_wan_rule_def client_hdrs_def
  show "wl_inv w0 (upd_wlan i (\<lambda>c. c\<lparr>wc_v4_addr := a, ipv4_set := b\<rparr>) s) w"
    by (rule wl_inv_same[OF inv i]) (use ok n in \<open>simp_all add: slot_ok_def defs\<close>)
  show "wl_inv w0 (upd_wlan i (\<lambda>c. c\<lparr>route_rule_set_v4 := False, wc_v4_addr := a\<rparr>) s) w"
    by (rule wl_inv_same[OF inv i]) (use ok n in \<open>simp_all add: slot_ok_def defs\<close>)
qed

lemma add_v6_addr_inv:
  assumes inv: "wl_inv w0 s w" and i: "i < num_wifi_client s" and n: "ipv6_set (wlan_client s ! i) < IPV6_NUM_ADDR"
  shows "wl_inv w0 (upd_wlan i (\<lambda>c. c\<lparr>wc_v6_addr := (wc_v6_addr c)[ipv6_set c := v6], ipv6_set := ipv6_set c + 1\<rparr>) s) w"
proof (rule wl_inv_same[OF inv i])
  let ?c = "wlan_client s ! i"
  let ?c' = "?c\<lparr>wc_v6_addr := (wc_v6_addr ?c)[ipv6_set ?c := v6], ipv6_set := ipv6_set ?c + 1\<rparr>"
  have sh: "wl_shape s" using inv by (simp add: wl_inv_def)
  have ok: "slot_ok (txs s) ?c" using wl_shapeD(3,4)[OF sh] i by simp
  then show "slot_ok (txs s) ?c'" using n by (simp add: slot_ok_def)
  have "v6_rules_at (txs s) ?c' p = v6_rules_at (txs s) ?c p" if "snd p < route_rule_set_v6 ?c" for p
    using that ok by (cases p) (simp add: v6_rules_at_def v6_rule_def v6_wan_rule_def slot_ok_def)
  then have "client_v6 (txs s) ?c' = client_v6 (txs s) ?c" unfolding client_v6_def v6_rules_of_def by (auto intro!: arg_cong[where f = concat])
  then show "client_rules (txs s) ?c' = client_rules (txs s) ?c" by (simp add: client_rules_def client_v4_def v4_rules_of_def v4_rule_def)
qed (simp add: client_hdrs_def)

lemma upd_wlan_index:
  assumes "\<And>c. wc_mac (f c) = wc_mac c"
  shows "get_wlan_client_index mac (upd_wlan i f s) = get_wlan_client_index mac s"
proof -
  have m: "map wc_mac (xs[i := f (xs ! i)]) = map wc_mac xs" for xs
    by (cases "i < length xs") (auto simp: map_update assms list_update_same_conv list_update_beyond)
  have f: "find_slot (\<lambda>c. wc_mac c = mac) xs = find_slot (\<lambda>m. m = mac) (map wc_mac xs)" for xs by (induction xs) simp_all
  show ?thesis unfolding get_wlan_client_index_def f take_map[symmetric] by (simp add: upd_wlan_def m)
qed

lemma handle_wlan_client_ipaddr_inv:
  assumes dev: "dev_ok dev obs" and inv: "wl_inv w0 s (obs h)" and r: "handle_wlan_client_ipaddr dev ip v4 v6 mac (s, h) = (res, calls, s', h')"
  shows "wl_inv w0 s' (obs h')"
proof (cases "get_wlan_client_index mac s")
  case None
  then show ?thesis using r inv by (simp add: handle_wlan_client_ipaddr_def del: find_slot_None_iff)
next
  case (Some i)
  let ?c = "wlan_client s ! i"
  note n = get_wlan_client_index_SomeD(1)[OF Some]
  show ?thesis
  proof (cases "ip = IPA_IP_v4 \<and> v4 \<noteq> 0 \<and> (ipv4_set ?c \<longrightarrow> v4 \<noteq> wc_v4_addr ?c)")
    case True
    obtain h1 where d: "delete_default_qos_rtrules dev i IPA_IP_v4 (s, h) = (IPACM_SUCCESS, upd_wlan i (drop_rules IPA_IP_v4) s, h1)"
      "wl_inv w0 (upd_wlan i (drop_rules IPA_IP_v4) s) (obs h1)" using delete_default_qos_rtrules_inv[OF dev inv n] by blast
    show ?thesis
    proof (cases "ipv4_set ?c")
      case t: True
      have "i < length (wlan_client s)" using inv n wl_shapeD(4) by (auto simp: wl_inv_def)
      then have "\<not> route_rule_set_v4 (wlan_client (upd_wlan i (drop_rules IPA_IP_v4) s) ! i)" by (simp add: upd_wlan_nth drop_rules_def)
      then show ?thesis using set_v4_addr_inv(2)[OF d(2), of i v4] n r Some True t d(1) by (auto simp: handle_wlan_client_ipaddr_def Let_def)
    next
      case False
      have "\<not> route_rule_set_v4 ?c" using False wl_shapeD(3,4)[of s i] inv n by (auto simp: wl_inv_def slot_ok_def)
      then show ?thesis using set_v4_addr_inv(1)[OF inv n] r Some True False by (auto simp: handle_wlan_client_ipaddr_def Let_def)
    qed
  next
    case False
    then show ?thesis using r Some inv add_v6_addr_inv[OF inv n] by (auto simp: handle_wlan_client_ipaddr_def Let_def split: if_splits)
  qed
qed

lemma power_save_inv:
  assumes inv: "wl_inv w0 s w" and i: "i < num_wifi_client s"
  shows "wl_inv w0 (upd_wlan i (\<lambda>c. c\<lparr>power_save_set := b\<rparr>) s) w"
proof -
  have ok: "slot_ok (txs s) (wlan_client s ! i)" using wl_shapeD(3,4)[of s i] inv i by (simp add: wl_inv_def)
  show ?thesis
    by (rule wl_inv_same[OF inv i]) (use ok in \<open>simp_all add: slot_ok_def client_rules_def client_v4_def client_v6_def v4_rules_of_def v4_rule_def
      v6_rules_of_def v6_rules_at_def v6_rule_def v6_wan_rule_def client_hdrs_def\<close>)
qed

text \<open>Both families deleted, one after the other.\<close>

lemma delete_both_inv:
  assumes dev: "dev_ok dev obs" and inv: "wl_inv w0 s (obs h)" and i: "i < num_wifi_client s"
  shows "\<exists>h1 h2. delete_default_qos_rtrules dev i IPA_IP_v4 (s, h) = (IPACM_SUCCESS, upd_wlan i (drop_rules IPA_IP_v4) s, h1) \<and>
    delete_default_qos_rtrules dev i IPA_IP_v6 (upd_wlan i (drop_rules IPA_IP_v4) s, h1) =
      (IPACM_SUCCESS, upd_wlan i (\<lambda>c. c\<lparr>route_rule_set_v4 := False, route_rule_set_v6 := 0\<rparr>) s, h2) \<and>
    wl_inv w0 (upd_wlan i (\<lambda>c. c\<lparr>route_rule_set_v4 := False, route_rule_set_v6 := 0\<rparr>) s) (obs h2)"
proof -
  let ?s1 = "upd_wlan i (drop_rules IPA_IP_v4) s"
  have "i < length (wlan_client s)" using inv i wl_shapeD(4) by (auto simp: wl_inv_def)
  then have e: "upd_wlan i (drop_rules IPA_IP_v6) ?s1 = upd_wlan i (\<lambda>c. c\<lparr>route_rule_set_v4 := False, route_rule_set_v6 := 0\<rparr>) s"
    by (simp add: upd_wlan_upd_wlan drop_rules_simps)
  obtain h1 where 1: "delete_default_qos_rtrules dev i IPA_IP_v4 (s, h) = (IPACM_SUCCESS, ?s1, h1)" "wl_inv w0 ?s1 (obs h1)"
    using delete_default_qos_rtrules_inv[OF dev inv i] by blast
  obtain h2 where "delete_default_qos_rtrules dev i IPA_IP_v6 (?s1, h1) = (IPACM_SUCCESS, upd_wlan i (drop_rules IPA_IP_v6) ?s1, h2)"
    "wl_inv w0 (upd_wlan i (drop_rules IPA_IP_v6) ?s1) (obs h2)" using delete_default_qos_rtrules_inv[OF dev 1(2), of i] i by auto
  then show ?thesis using 1(1) unfolding e by blast
qed

lemma handle_wlan_client_pwrsave_inv:
  assumes dev: "dev_ok dev obs" and inv: "wl_inv w0 s (obs h)" and r: "handle_wlan_client_pwrsave dev mac (s, h) = (calls, s', h')"
  shows "wl_inv w0 s' (obs h')"
proof (cases "get_wlan_client_index mac s")
  case None
  then show ?thesis using r inv by (simp add: handle_wlan_client_pwrsave_def)
next
  case (Some i)
  note n = get_wlan_client_index_SomeD(1)[OF Some]
  obtain h1 h2 where d: "delete_default_qos_rtrules dev i IPA_IP_v4 (s, h) = (IPACM_SUCCESS, upd_wlan i (drop_rules IPA_IP_v4) s, h1)"
    "delete_default_qos_rtrules dev i IPA_IP_v6 (upd_wlan i (drop_rules IPA_IP_v4) s, h1) =
      (IPACM_SUCCESS, upd_wlan i (\<lambda>c. c\<lparr>route_rule_set_v4 := False, route_rule_set_v6 := 0\<rparr>) s, h2)"
    "wl_inv w0 (upd_wlan i (\<lambda>c. c\<lparr>route_rule_set_v4 := False, route_rule_set_v6 := 0\<rparr>) s) (obs h2)"
    using delete_both_inv[OF dev inv n] by blast
  show ?thesis using power_save_inv[OF d(3), of i] n r Some d(1,2) inv
    by (auto simp: handle_wlan_client_pwrsave_def Let_def split: if_splits)
qed

subsection \<open>Departure\<close>

lemma shift_clients_nth:
  assumes "lim < length cs"
  shows "length (shift_clients k i lim cs) = length cs \<and>
    (\<forall>j. shift_clients k i lim cs ! j = (if i \<le> j \<and> j < lim then shift_client k (cs ! Suc j) (cs ! j) else cs ! j))"
  using assms
proof (induction k i lim cs rule: shift_clients.induct)
  case (1 k i lim cs)
  show ?case
  proof (cases "i < lim")
    case True
    let ?cs = "cs[i := shift_client k (cs ! Suc i) (cs ! i)]"
    have ih: "length (shift_clients k (Suc i) lim ?cs) = length cs"
      "shift_clients k (Suc i) lim ?cs ! j = (if Suc i \<le> j \<and> j < lim then shift_client k (?cs ! Suc j) (?cs ! j) else ?cs ! j)" for j
      using 1(1)[OF True] 1(2) by simp_all
    show ?thesis unfolding shift_clients.simps[of k i lim cs] using True 1(2) ih
      by (auto simp: nth_list_update not_less_eq_eq le_less_Suc_eq)
  next
    case False
    then show ?thesis by (auto simp: shift_clients.simps)
  qed
qed

lemma copy_first_nth: "n \<le> length src \<Longrightarrow> j < n \<Longrightarrow> copy_first n src dst ! j = src ! j"
  by (simp add: copy_first_def nth_append)

lemma length_copy_first: "length src = length dst \<Longrightarrow> length (copy_first n src dst) = length dst"
  by (simp add: copy_first_def)

lemma shift_client_facts:
  assumes nx: "slot_ok ts nx" and c: "slot_ok ts c"
  shows "slot_ok ts (shift_client (length ts) nx c)" "client_rules ts (shift_client (length ts) nx c) = client_rules ts nx"
    "client_hdrs (shift_client (length ts) nx c) = client_hdrs nx"
proof -
  let ?c = "shift_client (length ts) nx c" and ?m = "route_rule_set_v6 nx"
  have len: "length (wifi_rt_hdl c) = length ts" "length (wifi_rt_hdl nx) = length ts" "?m \<le> ipv6_set nx" "ipv6_set nx \<le> IPV6_NUM_ADDR"
    "length (wc_v6_addr nx) = IPV6_NUM_ADDR" using nx c by (simp_all add: slot_ok_def)
  have rt: "wifi_rt_hdl ?c ! t = (wifi_rt_hdl c ! t)\<lparr>wifi_rt_rule_hdl_v4 := wifi_rt_rule_hdl_v4 (wifi_rt_hdl nx ! t),
      wifi_rt_rule_hdl_v6 := copy_first ?m (wifi_rt_rule_hdl_v6 (wifi_rt_hdl nx ! t)) (wifi_rt_rule_hdl_v6 (wifi_rt_hdl c ! t)),
      wifi_rt_rule_hdl_v6_wan := copy_first ?m (wifi_rt_rule_hdl_v6_wan (wifi_rt_hdl nx ! t)) (wifi_rt_rule_hdl_v6_wan (wifi_rt_hdl c ! t))\<rparr>"
    if "t < length ts" for t using that len(1) by (simp add: shift_client_def Let_def)
  show "client_hdrs ?c = client_hdrs nx" by (simp add: shift_client_def client_hdrs_def)
  show "slot_ok ts ?c" using nx c rt unfolding slot_ok_def by (simp add: shift_client_def length_copy_first)
  have v4: "v4_rule ts ?c = v4_rule ts nx" by (simp add: shift_client_def v4_rule_def fun_eq_iff)
  have "client_v4 ts ?c = client_v4 ts nx" unfolding client_v4_def v4_rules_of_def v4
    using rt tx_of_facts(2) by (auto simp: shift_client_def)
  moreover have "v6_rules_at ts ?c p = v6_rules_at ts nx p" if p: "p \<in> set (List.product (tx_of IPA_IP_v6 ts) [0..<?m])" for p
  proof -
    obtain t n where e: "p = (t, n)" "t < length ts" "n < ?m" using p tx_of_facts(2) by auto
    have l: "length (wifi_rt_rule_hdl_v6 (wifi_rt_hdl nx ! t)) = IPV6_NUM_ADDR" "length (wifi_rt_rule_hdl_v6_wan (wifi_rt_hdl nx ! t)) = IPV6_NUM_ADDR"
      using nx e(2) by (simp_all add: slot_ok_def)
    have a: "wc_v6_addr ?c ! n = wc_v6_addr nx ! n" using copy_first_nth[of "ipv6_set nx" "wc_v6_addr nx" n] len e(3) by (simp add: shift_client_def)
    have "hdr_hdl_v6 ?c = hdr_hdl_v6 nx" by (simp add: shift_client_def)
    then show ?thesis unfolding e(1) v6_rules_at_def v6_rule_def v6_wan_rule_def using a rt[OF e(2)] l le_trans[OF len(3,4)] e(3) by (simp add: copy_first_nth)
  qed
  then have "client_v6 ts ?c = client_v6 ts nx" unfolding client_v6_def v6_rules_of_def
    by (auto simp: shift_client_def intro!: arg_cong[where f = concat])
  ultimately show "client_rules ts ?c = client_rules ts nx" by (simp add: client_rules_def)
qed

lemma shift_clients_map:
  assumes n: "n \<le> length cs" "i < n" and ok: "\<forall>c \<in> set cs. slot_ok ts c"
    and f: "\<And>nx c. slot_ok ts nx \<Longrightarrow> slot_ok ts c \<Longrightarrow> f (shift_client (length ts) nx c) = f nx"
  shows "map f (take (n - 1) (shift_clients (length ts) i (n - 1) cs)) = map f (take i (take n cs) @ drop (Suc i) (take n cs))"
proof (rule nth_equalityI)
  have lim: "n - 1 < length cs" using n by simp
  note sc = shift_clients_nth[OF lim, of "length ts" i]
  show "length (map f (take (n - 1) (shift_clients (length ts) i (n - 1) cs))) = length (map f (take i (take n cs) @ drop (Suc i) (take n cs)))"
    using sc n by simp
  fix j assume "j < length (map f (take (n - 1) (shift_clients (length ts) i (n - 1) cs)))"
  then have j: "j < n - 1" using sc n by simp
  then have "slot_ok ts (cs ! Suc j)" "slot_ok ts (cs ! j)" using ok n by simp_all
  moreover have "map f (take (n - 1) (shift_clients (length ts) i (n - 1) cs)) ! j = f (shift_clients (length ts) i (n - 1) cs ! j)"
    using j sc n by simp
  ultimately show "map f (take (n - 1) (shift_clients (length ts) i (n - 1) cs)) ! j = map f (take i (take n cs) @ drop (Suc i) (take n cs)) ! j"
    using j sc n f by (auto simp: nth_append min_def)
qed

lemma shift_clients_slots:
  assumes "lim < length cs" "\<forall>c \<in> set cs. slot_ok ts c" "c \<in> set (shift_clients (length ts) i lim cs)"
  shows "slot_ok ts c"
proof -
  note sc = shift_clients_nth[OF assms(1), of "length ts" i]
  obtain j where j: "j < length cs" "c = shift_clients (length ts) i lim cs ! j" using assms(3) sc by (metis in_set_conv_nth)
  show ?thesis
  proof (cases "i \<le> j \<and> j < lim")
    case True
    then show ?thesis using j sc shift_client_facts(1)[of ts "cs ! Suc j" "cs ! j"] assms(1,2) by simp
  next
    case False
    then show ?thesis using j sc assms(2) by auto
  qed
qed

text \<open>Closing the gap: the slots of the others move down, with their rules and headers.\<close>

lemma close_gap_inv:
  assumes sh: "wl_shape s" and i: "i < num_wifi_client s" and h: "hold w0 (other_rules i s) (other_hdrs i s) w"
  shows "wl_inv w0 (s\<lparr>wlan_client := shift_clients (length (txs s)) i (num_wifi_client s - 1) (wlan_client s),
    num_wifi_client := num_wifi_client s - 1, total_num_wifi_clients := total_num_wifi_clients s - 1\<rparr>) w" (is "wl_inv w0 ?s w")
proof -
  let ?cs = "wlan_client s" and ?n = "num_wifi_client s"
  have n: "?n \<le> length ?cs" and ok: "\<forall>c \<in> set ?cs. slot_ok (txs s) c" using sh wl_shapeD(1) by (auto simp: wl_shape_def)
  have lim: "?n - 1 < length ?cs" using n i by simp
  have t: "txs ?s = txs s" by (simp add: txs_def)
  have "rules_of ?s = other_rules i s" unfolding rules_of_def other_rules_def t clients_def others_def
    using shift_clients_map[OF n i ok, of "client_rules (txs s)"] shift_client_facts(2) by simp
  moreover have "hdrs_of ?s = other_hdrs i s" unfolding hdrs_of_def other_hdrs_def clients_def others_def
    using shift_clients_map[OF n i ok, of client_hdrs] shift_client_facts(3) by simp
  moreover have "wl_shape ?s" using sh i shift_clients_nth[OF lim] shift_clients_slots[OF lim ok] unfolding wl_shape_def t by auto
  ultimately show ?thesis using h by (simp add: wl_inv_def)
qed

text \<open>The header of one family deleted and its flag reset, or the call failed and the flag stays.\<close>

lemma client_hdrs_drop:
  "mset (client_hdrs c) = (if ipv4_header_set c then {#hdr_hdl_v4 c#} else {#}) + mset (client_hdrs (c\<lparr>ipv4_header_set := False\<rparr>))"
  "mset (client_hdrs c) = (if ipv6_header_set c then {#hdr_hdl_v6 c#} else {#}) + mset (client_hdrs (c\<lparr>ipv6_header_set := False\<rparr>))"
  by (simp_all add: client_hdrs_def)

lemma delete_header_inv:
  assumes dev: "dev_ok dev obs" and inv: "wl_inv w0 s (obs h)" and i: "i < num_wifi_client s"
    and m: "mset (client_hdrs (wlan_client s ! i)) = (if b then {#x#} else {#}) + mset (client_hdrs (f (wlan_client s ! i)))"
    and f: "slot_ok (txs s) (f (wlan_client s ! i))" "client_rules (txs s) (f (wlan_client s ! i)) = client_rules (txs s) (wlan_client s ! i)"
    and r: "(if b then DeleteHeaderHdl dev x h else (True, h)) = (ok, h')"
  shows "wl_inv w0 (if ok then upd_wlan i f s else s) (obs h')"
proof -
  let ?c = "wlan_client s ! i"
  have sh: "wl_shape s" using inv by (simp add: wl_inv_def)
  have at: "hold w0 (client_rules (txs s) ?c @ other_rules i s) (client_hdrs ?c @ other_hdrs i s) (obs h)"
    using wl_inv_slot[OF inv i] by (simp add: at_slot_def)
  note upd = wl_inv_upd[where f = f, OF sh i f(1), unfolded f(2)]
  show ?thesis
  proof (cases b)
    case True
    let ?H = "client_hdrs (f ?c) @ other_hdrs i s"
    have "hold w0 (client_rules (txs s) ?c @ other_rules i s) (x # ?H) (obs h)" by (rule hold_perm[OF at]) (use m True in simp_all)
    from DeleteHeaderHdl_hold[OF dev this] r True
    have d: "hold w0 (client_rules (txs s) ?c @ other_rules i s) (if ok then ?H else x # ?H) (obs h')" by simp
    show ?thesis
    proof (cases ok)
      case True
      then show ?thesis using upd d by simp
    next
      case False
      then have "hold w0 (client_rules (txs s) ?c @ other_rules i s) (x # ?H) (obs h')" using d by simp
      then have "hold w0 (client_rules (txs s) ?c @ other_rules i s) (client_hdrs ?c @ other_hdrs i s) (obs h')"
        by (rule hold_perm) (use m \<open>b\<close> in simp_all)
      then have "hold w0 (rules_of s) (hdrs_of s) (obs h')" using hold_slot[OF sh i] by simp
      then show ?thesis using False sh by (simp add: wl_inv_def)
    qed
  next
    case False
    then have "hold w0 (client_rules (txs s) ?c @ other_rules i s) (client_hdrs (f ?c) @ other_hdrs i s) (obs h)"
      by (intro hold_perm[OF at]) (use m in simp_all)
    then show ?thesis using upd r False by simp
  qed
qed

lemma handle_wlan_client_down_evt_inv:
  assumes dev: "dev_ok dev obs" and inv: "wl_inv w0 s (obs h)" and r: "handle_wlan_client_down_evt dev mac (s, h) = (res, calls, s', h')"
  shows "wl_inv w0 s' (obs h')"
proof (cases "get_wlan_client_index mac s")
  case None
  then show ?thesis using r inv by (simp add: handle_wlan_client_down_evt_def)
next
  case (Some i)
  note n = get_wlan_client_index_SomeD(1)[OF Some]
  let ?c = "wlan_client s ! i"
  let ?s2 = "upd_wlan i (\<lambda>c. c\<lparr>route_rule_set_v4 := False, route_rule_set_v6 := 0\<rparr>) s"
  let ?f4 = "\<lambda>c. c\<lparr>ipv4_header_set := False\<rparr>" and ?f6 = "\<lambda>c. c\<lparr>ipv6_header_set := False\<rparr>"
  have sh: "wl_shape s" and len: "i < length (wlan_client s)" using inv n wl_shapeD(4) by (auto simp: wl_inv_def)
  have ok: "slot_ok (txs s) ?c" using wl_shapeD(3)[OF sh len] .
  obtain h1 h2 where d: "delete_default_qos_rtrules dev i IPA_IP_v4 (s, h) = (IPACM_SUCCESS, upd_wlan i (drop_rules IPA_IP_v4) s, h1)"
    "delete_default_qos_rtrules dev i IPA_IP_v6 (upd_wlan i (drop_rules IPA_IP_v4) s, h1) = (IPACM_SUCCESS, ?s2, h2)" "wl_inv w0 ?s2 (obs h2)"
    using delete_both_inv[OF dev inv n] by blast
  obtain ok4 h3 where 4: "(if ipv4_header_set ?c then DeleteHeaderHdl dev (hdr_hdl_v4 ?c) h2 else (True, h2)) = (ok4, h3)" by (cases "if ipv4_header_set ?c then DeleteHeaderHdl dev (hdr_hdl_v4 ?c) h2 else (True, h2)") 
  let ?s3 = "upd_wlan i ?f4 ?s2"
  have i4: "wl_inv w0 (if ok4 then ?s3 else ?s2) (obs h3)"
  proof (rule delete_header_inv[OF dev d(3) _ _ _ _ 4])
    show "mset (client_hdrs (wlan_client ?s2 ! i)) = (if ipv4_header_set ?c then {#hdr_hdl_v4 ?c#} else {#}) + mset (client_hdrs (?f4 (wlan_client ?s2 ! i)))"
      using len by (simp add: upd_wlan_nth client_hdrs_def)
  qed (use n ok len in \<open>simp_all add: upd_wlan_nth slot_ok_def client_rules_def client_v4_def client_v6_def v6_rules_of_def\<close>)
  show ?thesis
  proof (cases ok4)
    case False
    then show ?thesis using r Some d(1,2) 4 i4 by (simp add: handle_wlan_client_down_evt_def Let_def)
  next
    case True
    then have i3: "wl_inv w0 ?s3 (obs h3)" using i4 by simp
    obtain ok6 h4 where 6: "(if ipv6_header_set ?c then DeleteHeaderHdl dev (hdr_hdl_v6 ?c) h3 else (True, h3)) = (ok6, h4)" by (cases "if ipv6_header_set ?c then DeleteHeaderHdl dev (hdr_hdl_v6 ?c) h3 else (True, h3)")
    let ?s4 = "upd_wlan i ?f6 ?s3"
    have i6: "wl_inv w0 (if ok6 then ?s4 else ?s3) (obs h4)"
    proof (rule delete_header_inv[OF dev i3 _ _ _ _ 6])
      show "mset (client_hdrs (wlan_client ?s3 ! i)) = (if ipv6_header_set ?c then {#hdr_hdl_v6 ?c#} else {#}) + mset (client_hdrs (?f6 (wlan_client ?s3 ! i)))"
        using len by (simp add: upd_wlan_nth client_hdrs_def)
    qed (use n ok len in \<open>simp_all add: upd_wlan_nth slot_ok_def client_rules_def client_v4_def client_v6_def v6_rules_of_def\<close>)
    show ?thesis
    proof (cases ok6)
      case False
      then show ?thesis using r Some d(1,2) 4 6 i6 True by (simp add: handle_wlan_client_down_evt_def Let_def)
    next
      case t6: True
      let ?g = "\<lambda>c. c\<lparr>ipv4_set := False, ipv6_set := 0, ipv4_header_set := False, ipv6_header_set := False, route_rule_set_v4 := False, route_rule_set_v6 := 0\<rparr>"
      let ?s5 = "upd_wlan i ?g ?s3"
      have "hold w0 (other_rules i s) (other_hdrs i s) (obs h4)"
        using wl_inv_slot[of w0 ?s4 "obs h4" i] i6 t6 n len
        by (simp add: at_slot_def upd_wlan_nth client_rules_def client_v4_def client_v6_def v6_rules_of_def client_hdrs_def)
      then have "hold w0 (other_rules i ?s5) (other_hdrs i ?s5) (obs h4)" by simp
      moreover have "wl_shape ?s5" by (rule wl_shape_upd) (use i3 ok len in \<open>simp_all add: wl_inv_def upd_wlan_nth slot_ok_def\<close>)
      ultimately show ?thesis using close_gap_inv[of ?s5 i w0 "obs h4"] n r Some d(1,2) 4 6 True t6
        by (auto simp: handle_wlan_client_down_evt_def Let_def)
    qed
  qed
qed

section \<open>Reset\<close>

lemma reset_addr_inv:
  assumes inv: "wl_inv w0 s w" and i: "i < num_wifi_client s"
    and n: "ip = IPA_IP_v4 \<Longrightarrow> \<not> route_rule_set_v4 (wlan_client s ! i)" "ip \<noteq> IPA_IP_v4 \<Longrightarrow> route_rule_set_v6 (wlan_client s ! i) = 0"
  shows "wl_inv w0 (upd_wlan i (\<lambda>c. if ip = IPA_IP_v4 then c\<lparr>ipv4_set := False\<rparr> else c\<lparr>ipv6_set := 0\<rparr>) s) w"
proof -
  have ok: "slot_ok (txs s) (wlan_client s ! i)" using wl_shapeD(3,4)[of s i] inv i by (simp add: wl_inv_def)
  show ?thesis by (rule wl_inv_same[OF inv i]) (use ok n in \<open>auto simp: slot_ok_def client_rules_def client_v4_def client_v6_def v4_rules_of_def v4_rule_def
      v6_rules_of_def v6_rules_at_def v6_rule_def v6_wan_rule_def client_hdrs_def\<close>)
qed

lemma reset_rt_loop_inv:
  assumes dev: "dev_ok dev obs" and inv: "wl_inv w0 s (obs h)" and r: "reset_rt_loop dev ip k i (s, h) = (res, calls, s', h')"
    and k: "i + k = num_wifi_client s" and ip: "ip = IPA_IP_v4 \<or> ip = IPA_IP_v6"
  shows "wl_inv w0 s' (obs h')"
  using inv r k
proof (induction k arbitrary: i s h res calls s' h')
  case (Suc k)
  let ?s1 = "upd_wlan i (drop_rules ip) s"
  have i: "i < num_wifi_client s" and len: "i < length (wlan_client s)"
    using Suc.prems(1,3) wl_shapeD(4)[of s i] by (auto simp: wl_inv_def)
  obtain h1 where 1: "delete_default_qos_rtrules dev i ip (s, h) = (IPACM_SUCCESS, ?s1, h1)" "wl_inv w0 ?s1 (obs h1)"
    using delete_default_qos_rtrules_inv[OF dev Suc.prems(1) i] by blast
  let ?s2 = "upd_wlan i (\<lambda>c. if ip = IPA_IP_v4 then c\<lparr>ipv4_set := False\<rparr> else c\<lparr>ipv6_set := 0\<rparr>) ?s1"
  have 2: "wl_inv w0 ?s2 (obs h1)"
    by (rule reset_addr_inv[OF 1(2)]) (use i ip len in \<open>auto simp: upd_wlan_nth drop_rules_def\<close>)
  obtain r2 c2 where p: "handle_lan2lan_msg_post dev (wc_mac (wlan_client ?s1 ! i)) IPA_LAN_CLIENT_DISCONNECT ip ?s1 = (r2, c2)" by (metis surj_pair)
  show ?case
  proof (cases "r2 = IPACM_SUCCESS")
    case True
    obtain r3 c3 s3 h3 where l: "reset_rt_loop dev ip k (Suc i) (?s2, h1) = (r3, c3, s3, h3)" by (metis prod_cases4)
    show ?thesis using Suc.IH[OF 2 l] Suc.prems(2,3) 1(1) p True l by (simp add: Let_def)
  next
    case False
    then show ?thesis using Suc.prems(2) 1 p by simp
  qed
qed simp

section \<open>The interface goes down\<close>

lemma client_rules_none: "client_rules ts (drop_rules IPA_IP_v6 (drop_rules IPA_IP_v4 c)) = []"
  by (simp add: drop_rules_simps client_rules_def)

lemma delete_header_hold:
  assumes dev: "dev_ok dev obs" and h: "hold w0 L ((if b then [x] else []) @ H) (obs h)"
    and r: "(if b then DeleteHeaderHdl dev x h else (True, h)) = (ok, h')"
  shows "hold w0 L (if ok then H else (if b then [x] else []) @ H) (obs h')"
  using DeleteHeaderHdl_hold[OF dev, of w0 L x H h ok h'] h r by (auto split: if_splits)

text \<open>From the slot \<open>i\<close> on: the rules and headers of these clients are gone, or a deletion of a header has failed.\<close>

lemma clean_clients_hold:
  assumes dev: "dev_ok dev obs" and r: "clean_clients dev k i (s, h) = (ok, calls, s', h')" and len: "i + k \<le> length (wlan_client s)"
    and h: "hold w0 (concat (map (client_rules (txs s)) (take k (drop i (wlan_client s))))) (concat (map client_hdrs (take k (drop i (wlan_client s))))) (obs h)"
  shows "ok \<Longrightarrow> hold w0 [] [] (obs h')"
  using r len h
proof (induction k arbitrary: i s h calls)
  case (Suc k)
  let ?c = "wlan_client s ! i" and ?cs = "take k (drop (Suc i) (wlan_client s))"
  let ?L = "concat (map (client_rules (txs s)) ?cs)" and ?H = "concat (map client_hdrs ?cs)"
  let ?s1 = "upd_wlan i (drop_rules IPA_IP_v4) s" let ?s2 = "upd_wlan i (drop_rules IPA_IP_v6) ?s1"
  have i: "i < length (wlan_client s)" using Suc.prems(3) by simp
  have "take (Suc k) (drop i (wlan_client s)) = ?c # ?cs" using i by (metis Cons_nth_drop_Suc take_Suc_Cons)
  then have at: "hold w0 (client_rules (txs s) ?c @ ?L) (client_hdrs ?c @ ?H) (obs h)" using Suc.prems(4) by simp
  obtain h1 where 1: "delete_default_qos_rtrules dev i IPA_IP_v4 (s, h) = (IPACM_SUCCESS, ?s1, h1)"
    "hold w0 (client_rules (txs s) (drop_rules IPA_IP_v4 ?c) @ ?L) (client_hdrs ?c @ ?H) (obs h1)"
    using delete_default_qos_rtrules_hold[OF dev at] by blast
  have c1: "wlan_client ?s1 ! i = drop_rules IPA_IP_v4 ?c" using i by (simp add: upd_wlan_nth)
  obtain h2 where 2: "delete_default_qos_rtrules dev i IPA_IP_v6 (?s1, h1) = (IPACM_SUCCESS, ?s2, h2)" "hold w0 ?L (client_hdrs ?c @ ?H) (obs h2)"
    using delete_default_qos_rtrules_hold[OF dev, of w0 ?s1 i ?L "client_hdrs ?c @ ?H" h1 IPA_IP_v6] 1(2) unfolding c1 upd_wlan_sel client_rules_none by auto
  let ?H6 = "(if ipv6_header_set ?c then [hdr_hdl_v6 ?c] else []) @ ?H"
  obtain ok4 h3 where 4: "(if ipv4_header_set ?c then DeleteHeaderHdl dev (hdr_hdl_v4 ?c) h2 else (True, h2)) = (ok4, h3)" by (metis surj_pair)
  obtain ok6 h4 where 6: "(if ipv6_header_set ?c then DeleteHeaderHdl dev (hdr_hdl_v6 ?c) h3 else (True, h3)) = (ok6, h4)" by (metis surj_pair)
  have ok: ok4 ok6 using Suc.prems(1,2) 1(1) 2(1) 4 6 by (auto simp: Let_def split: if_splits)
  have "hold w0 ?L ?H6 (obs h3)" using delete_header_hold[OF dev _ 4, of w0 ?L ?H6] 2(2) ok by (simp add: client_hdrs_def)
  then have 5: "hold w0 ?L ?H (obs h4)" using delete_header_hold[OF dev _ 6, of w0 ?L ?H] ok by simp
  obtain ok' calls' s5 h5 where rec: "clean_clients dev k (Suc i) (?s2, h4) = (ok', calls', s5, h5)" by (metis prod_cases4)
  have e: "(ok', s5, h5) = (ok, s', h')" using Suc.prems(2) 1(1) 2(1) 4 6 ok rec by (simp add: Let_def)
  have d: "drop (Suc i) (wlan_client ?s2) = drop (Suc i) (wlan_client s)" by (simp add: upd_wlan_def)
  show ?case using Suc.IH[of "Suc i" ?s2 h4 calls'] Suc.prems(1,3) rec e 5 by (simp add: d)
qed simp

lemma clean_clients_inv:
  assumes dev: "dev_ok dev obs" and inv: "wl_inv w0 s (obs h)" and r: "clean_clients dev (num_wifi_client s) 0 (s, h) = (True, calls, s', h')"
  shows "hold w0 [] [] (obs h')"
proof -
  have "num_wifi_client s \<le> length (wlan_client s)" using inv wl_shapeD(1) by (auto simp: wl_inv_def)
  then show ?thesis using clean_clients_hold[OF dev r, of w0] inv by (simp add: wl_inv_def rules_of_def hdrs_of_def clients_def)
qed

lemma wlan_handle_down_evt_inv:
  assumes dev: "dev_ok dev obs" and inv: "wl_inv w0 s (obs h)" and ip: "wl_ip_type s \<noteq> None" and own: "own h = (True, h1)"
    and D: "D \<subseteq> dom (hw_rules w0)" "obs h1 = (obs h)\<lparr>hw_rules := hw_rules (obs h) |` (- D)\<rparr>"
    and r: "wlan_handle_down_evt dev own (s, h) = (IPACM_SUCCESS, calls, s', h')"
  shows "hold (w0\<lparr>hw_rules := hw_rules w0 |` (- D)\<rparr>) [] [] (obs h')"
proof -
  obtain ok calls' s2 h2 where c: "clean_clients dev (num_wifi_client s) 0 (s, h1) = (ok, calls', s2, h2)" by (metis prod_cases4)
  then have e: ok "h2 = h'" using r ip own by (auto simp: wlan_handle_down_evt_def Let_def split: if_splits)
  have "wl_inv (w0\<lparr>hw_rules := hw_rules w0 |` (- D)\<rparr>) s (obs h1)" using inv hold_restrict[OF _ D(1)] by (simp add: wl_inv_def D(2))
  from clean_clients_inv[OF dev this] show ?thesis using c e by simp
qed

section \<open>A new client\<close>

text \<open>The attributes of an event lie within the header.\<close>

fun attrib_ok :: "nat \<Rightarrow> wlan_attrib \<Rightarrow> bool" where
  "attrib_ok k (WLAN_HDR_ATTRIB_MAC_ADDR off m) \<longleftrightarrow> off + length m \<le> k"
| "attrib_ok k (WLAN_HDR_ATTRIB_STA_ID off b) \<longleftrightarrow> off + length b \<le> k"
| "attrib_ok k WLAN_HDR_ATTRIB_other \<longleftrightarrow> True"

lemma put_bytes_ok: "off + length xs \<le> length b \<Longrightarrow> \<exists>b'. put_bytes off xs b = Inr b' \<and> length b' = length b"
  by (auto simp: put_bytes_def)

lemma put_attribs_ok:
  "list_all (attrib_ok (length hdr)) as \<Longrightarrow> \<exists>mac' hdr'. put_attribs as mac hdr = Inr (mac', hdr') \<and> length hdr' = length hdr"
proof (induction as mac hdr rule: put_attribs.induct)
  case (2 off m as mac hdr)
  obtain b where b: "put_bytes off m hdr = Inr b" "length b = length hdr" using put_bytes_ok[of off m hdr] 2(2) by auto
  then show ?case using 2(1)[of b] 2(2) by auto
next
  case (3 off m as mac hdr)
  obtain b where b: "put_bytes off m hdr = Inr b" "length b = length hdr" using put_bytes_ok[of off m hdr] 3(2) by auto
  then show ?case using 3(1)[of b] 3(2) by auto
qed simp_all

lemma c_strlen_snoc: "c_strlen (xs @ [0]) \<le> length xs"
  by (induction xs) (simp_all add: c_strlen_def)

lemma hdr_name_of_ok:
  assumes "15 \<le> k"
  shows "\<exists>nm. hdr_name_of k ip m n = Inr (Some nm)"
proof -
  have s: "c_strlen [first_digit j, 0] \<le> 1" for j using c_strlen_snoc[of "[first_digit j]"] by simp
  have w: "c_strlen (WLAN_HDR_NAME ip @ [0]) \<le> 12" using c_strlen_snoc[of "WLAN_HDR_NAME ip"] by (simp add: WLAN_HDR_NAME_def)
  obtain n1 where 1: "strlcpy (replicate k 0) [first_digit m, 0] k = Inr (c_strlen [first_digit m, 0], n1)" "length n1 = k"
    "c_str n1 = take (k - 1) (c_str [first_digit m, 0])"
    using strlcpy_spec[of k "replicate k 0" "[first_digit m, 0]"] assms by auto
  have l1: "c_strlen n1 \<le> 1" using 1(3) s[of m] c_str_facts(1) by (metis (no_types, lifting) le_trans length_take min.cobounded1)
  obtain n2 where 2: "strlcat n1 (WLAN_HDR_NAME ip @ [0]) k = Inr (c_strlen n1 + c_strlen (WLAN_HDR_NAME ip @ [0]), n2)" "length n2 = k"
    "c_str n2 = take (k - 1) (c_str n1 @ c_str (WLAN_HDR_NAME ip @ [0]))"
    using strlcat_spec[of k n1 "WLAN_HDR_NAME ip @ [0]"] l1 1(2) assms by auto
  have "length (c_str n2) \<le> c_strlen n1 + c_strlen (WLAN_HDR_NAME ip @ [0])" using 2(3) by (simp add: c_str_facts(1))
  then have l2: "c_strlen n2 \<le> 13" using l1 w by (simp add: c_str_facts(1))
  obtain n3 where 3: "strlcat n2 [first_digit n, 0] k = Inr (c_strlen n2 + c_strlen [first_digit n, 0], n3)"
    using strlcat_spec[of k n2 "[first_digit n, 0]"] l2 2(2) assms by auto
  show ?thesis using 1(1) 2(1) 3 l1 l2 w s[of n] assms by (auto simp: hdr_name_of_def)
qed

lemma add_client_header_hold:
  assumes dev: "dev_ok dev obs" and h: "hold w0 L H (obs h)" and b: "length buf = dev_hdr_max dev" "list_all (attrib_ok (dev_hdr_max dev)) attribs"
  shows "\<exists>r buf' mac h'. add_client_header dev attribs ip t buf (s, h) =
      Inr (r, buf', upd_wlan (num_wifi_client s) (\<lambda>c. c\<lparr>wc_mac := mac\<rparr>) s, h') \<and> length buf' = dev_hdr_max dev \<and>
    (case r of Some hl \<Rightarrow> hold w0 L (hl # H) (obs h') | None \<Rightarrow> hold w0 L H (obs h') \<and> hw_fails w0 < hw_fails (obs h'))"
proof -
  let ?i = "num_wifi_client s"
  obtain bytes len where c: "ioc_copy_hdr dev (tx_hdr_name (txs s ! t)) h = Some (bytes, len)" "len \<le> dev_hdr_max dev"
    using dev_okD(4)[OF dev] by blast
  obtain b1 where b1: "put_bytes 0 (take len bytes) buf = Inr b1" "length b1 = dev_hdr_max dev"
    using put_bytes_ok[of 0 "take len bytes" buf] c(2) b(1) by (auto simp: min_le_iff_disj)
  obtain mac b2 where b2: "put_attribs attribs (wc_mac (wlan_client s ! ?i)) b1 = Inr (mac, b2)" "length b2 = dev_hdr_max dev"
    using put_attribs_ok[of b1 attribs "wc_mac (wlan_client s ! ?i)"] b1(2) b(2) by auto
  obtain nm where nm: "hdr_name_of (dev_name_max dev) ip (nat (wl_ipa_if_num s)) (header_name_count s) = Inr (Some nm)"
    using hdr_name_of_ok dev_okD(3)[OF dev] by blast
  obtain ok hl st h' where a: "AddHeader dev \<lparr>hdr_name = nm, hdr_bytes = b2, hdr_len = len\<rparr> h = ((ok, hl, st), h')" by (metis surj_pair)
  show ?thesis using c b1 b2 nm a AddHeader_hold[OF dev h a] by (auto simp: add_client_header_def Let_def split: if_splits)
qed

text \<open>The headers of one family: what the slot behind the last client becomes.\<close>

definition init_slot :: "bool \<Rightarrow> bool \<Rightarrow> (ipa_wlan_client \<Rightarrow> ipa_wlan_client) \<Rightarrow> u8 list \<Rightarrow> ipa_wlan_client \<Rightarrow> ipa_wlan_client" where
  "init_slot none ok g mac c = (if none then c else if ok then g (c\<lparr>wc_mac := mac\<rparr>) else c\<lparr>wc_mac := mac\<rparr>)"

definition new_hdrs :: "bool \<Rightarrow> bool \<Rightarrow> u32 \<Rightarrow> u32 list" where
  "new_hdrs none ok hl = (if ok \<and> \<not> none then [hl] else [])"

lemma add_family_header_hold:
  assumes dev: "dev_ok dev obs" and h: "hold w0 L H (obs h)" and b: "length buf = dev_hdr_max dev" "list_all (attrib_ok (dev_hdr_max dev)) attribs"
    and i: "num_wifi_client s < length (wlan_client s)"
  obtains ok buf' mac hl h' where
    "add_family_header dev attribs ip buf (s, h) =
      Inr (ok, buf', upd_wlan (num_wifi_client s) (init_slot (tx_of ip (txs s) = []) ok (set_header ip hl) mac) s, h')"
    "length buf' = dev_hdr_max dev" "hold w0 L (new_hdrs (tx_of ip (txs s) = []) ok hl @ H) (obs h')" "\<not> ok \<Longrightarrow> hw_fails w0 < hw_fails (obs h')"
proof (cases "tx_of ip (txs s)")
  case Nil
  have e: "upd_wlan (num_wifi_client s) (init_slot True True (set_header ip 0) []) s = s" by (simp add: upd_wlan_def init_slot_def)
  show ?thesis by (rule that[of True buf 0 "[]" h]) (use Nil h b in \<open>simp_all add: e add_family_header_def new_hdrs_def\<close>)
next
  case (Cons t tt)
  let ?i = "num_wifi_client s"
  obtain r buf' mac h' where a: "add_client_header dev attribs ip t buf (s, h) = Inr (r, buf', upd_wlan ?i (\<lambda>c. c\<lparr>wc_mac := mac\<rparr>) s, h')"
    "length buf' = dev_hdr_max dev" "case r of Some hl \<Rightarrow> hold w0 L (hl # H) (obs h') | None \<Rightarrow> hold w0 L H (obs h') \<and> hw_fails w0 < hw_fails (obs h')"
    using add_client_header_hold[OF dev h b] by blast
  have e: "upd_wlan ?i (set_header ip hl) (upd_wlan ?i (\<lambda>c. c\<lparr>wc_mac := mac\<rparr>) s) = upd_wlan ?i (init_slot False True (set_header ip hl) mac) s"
    "upd_wlan ?i (\<lambda>c. c\<lparr>wc_mac := mac\<rparr>) s = upd_wlan ?i (init_slot False False (set_header ip hl) mac) s" for hl
    using i by (simp_all add: upd_wlan_def init_slot_def)
  show ?thesis
  proof (cases r)
    case None
    show ?thesis by (rule that[of False buf' 0 mac h']) (use a Cons None e(2)[of 0] in \<open>simp_all add: add_family_header_def new_hdrs_def\<close>)
  next
    case (Some hl)
    show ?thesis by (rule that[of True buf' hl mac h']) (use a Cons Some in \<open>simp_all add: add_family_header_def e(1) new_hdrs_def\<close>)
  qed
qed

lemma clients_beyond [simp]: "num_wifi_client s \<le> i \<Longrightarrow> clients (upd_wlan i f s) = clients s"
  by (simp add: clients_def upd_wlan_def)

lemma beyond_eqs [simp]:
  "num_wifi_client s \<le> i \<Longrightarrow> rules_of (upd_wlan i f s) = rules_of s" "num_wifi_client s \<le> i \<Longrightarrow> hdrs_of (upd_wlan i f s) = hdrs_of s"
  by (simp_all add: rules_of_def hdrs_of_def)

text \<open>What a new client is given.\<close>

definition fresh_client :: "ipa_wlan_client \<Rightarrow> ipa_wlan_client" where
  "fresh_client c = c\<lparr>route_rule_set_v4 := False, route_rule_set_v6 := 0, ipv4_set := False, ipv6_set := 0, power_save_set := False\<rparr>"

lemma fresh_client_eq:
  "fresh_client = (\<lambda>c. c\<lparr>route_rule_set_v4 := False, route_rule_set_v6 := 0, ipv4_set := False, ipv6_set := 0, power_save_set := False\<rparr>)"
  by (simp add: fresh_client_def fun_eq_iff)

definition count_client :: "IPACM_Wlan_clients \<Rightarrow> IPACM_Wlan_clients" where
  "count_client s = s\<lparr>num_wifi_client := num_wifi_client s + 1, header_name_count := header_name_count s + 1,
     total_num_wifi_clients := total_num_wifi_clients s + 1\<rparr>"

lemma count_client_inv:
  assumes sh: "wl_shape s" and t: "total_num_wifi_clients s < IPA_MAX_NUM_WIFI_CLIENTS"
    and c: "client_rules (txs s) (wlan_client s ! num_wifi_client s) = []"
    and h: "hold w0 (rules_of s) (client_hdrs (wlan_client s ! num_wifi_client s) @ hdrs_of s) w"
  shows "wl_inv w0 (count_client s) w"
proof -
  have l: "num_wifi_client s < length (wlan_client s)" using sh t by (simp add: wl_shape_def)
  have e: "txs (count_client s) = txs s" "clients (count_client s) = clients s @ [wlan_client s ! num_wifi_client s]"
    using l by (simp_all add: count_client_def txs_def clients_def take_Suc_conv_app_nth)
  have "rules_of (count_client s) = rules_of s" "hdrs_of (count_client s) = hdrs_of s @ client_hdrs (wlan_client s ! num_wifi_client s)"
    by (simp_all add: rules_of_def hdrs_of_def e c)
  then have "hold w0 (rules_of (count_client s)) (hdrs_of (count_client s)) w" by (intro hold_perm[OF h]) simp_all
  moreover have "wl_shape (count_client s)" using sh t unfolding wl_shape_def e(1) by (simp add: count_client_def)
  ultimately show ?thesis by (simp add: wl_inv_def)
qed

lemma handle_wlan_client_init_ex_inv:
  assumes dev: "dev_ok dev obs" and inv: "wl_inv w0 s (obs h)" and att: "list_all (attrib_ok (dev_hdr_max dev)) attribs"
  shows "\<exists>res s' h'. handle_wlan_client_init_ex dev attribs (s, h) = Inr (res, s', h') \<and> wl_inv w0 s' (obs h')"
proof (cases "num_wifi_client s \<ge> IPA_MAX_NUM_WIFI_CLIENTS \<or> total_num_wifi_clients s \<ge> IPA_MAX_NUM_WIFI_CLIENTS \<or> tx_prop s = None")
  case True
  then show ?thesis using inv by (auto simp: handle_wlan_client_init_ex_def)
next
  case False
  let ?i = "num_wifi_client s"
  let ?s0 = "upd_wlan ?i (\<lambda>c. c\<lparr>p_hdr_info := attribs\<rparr>) s" and ?buf = "replicate (dev_hdr_max dev) 0"
  let ?n4 = "tx_of IPA_IP_v4 (txs s) = []" and ?n6 = "tx_of IPA_IP_v6 (txs s) = []"
  have sh: "wl_shape s" and h0: "hold w0 (rules_of s) (hdrs_of s) (obs h)" using inv by (simp_all add: wl_inv_def)
  have len: "?i < length (wlan_client s)" using sh False by (simp add: wl_shape_def)
  have ok: "slot_ok (txs s) (wlan_client s ! ?i)" using wl_shapeD(3)[OF sh len] .
  obtain ok4 b4 x4 m4 h4 where 4: "add_family_header dev attribs IPA_IP_v4 ?buf (?s0, h) =
      Inr (ok4, b4, upd_wlan ?i (init_slot ?n4 ok4 (set_header IPA_IP_v4 x4) m4) ?s0, h4)" "length b4 = dev_hdr_max dev"
    "hold w0 (rules_of s) (new_hdrs ?n4 ok4 x4 @ hdrs_of s) (obs h4)" "\<not> ok4 \<Longrightarrow> hw_fails w0 < hw_fails (obs h4)"
    by (rule add_family_header_hold[OF dev h0 _ att, of ?buf ?s0 IPA_IP_v4]) (use len in simp_all)
  let ?s1 = "upd_wlan ?i (init_slot ?n4 ok4 (set_header IPA_IP_v4 x4) m4) ?s0"
  obtain ok6 b6 x6 m6 h6 where 6: "add_family_header dev attribs IPA_IP_v6 b4 (?s1, h4) =
      Inr (ok6, b6, upd_wlan ?i (init_slot ?n6 ok6 (set_header IPA_IP_v6 x6) m6) ?s1, h6)"
    "hold w0 (rules_of s) (new_hdrs ?n6 ok6 x6 @ new_hdrs ?n4 ok4 x4 @ hdrs_of s) (obs h6)" "\<not> ok6 \<Longrightarrow> hw_fails w0 < hw_fails (obs h6)"
    by (rule add_family_header_hold[OF dev 4(3,2) att, of ?s1 IPA_IP_v6]) (use len in simp_all)
  let ?s2 = "upd_wlan ?i (init_slot ?n6 ok6 (set_header IPA_IP_v6 x6) m6) ?s1"
  let ?s3 = "upd_wlan ?i fresh_client ?s2"
  define c1 where "c1 = init_slot ?n4 ok4 (set_header IPA_IP_v4 x4) m4 ((wlan_client s ! ?i)\<lparr>p_hdr_info := attribs\<rparr>)"
  define c2 where "c2 = init_slot ?n6 ok6 (set_header IPA_IP_v6 x6) m6 c1"
  have ok1: "slot_ok (txs s) c1" "slot_ok (txs s) c2" "slot_ok (txs s) (fresh_client c2)"
    using ok by (auto simp: c1_def c2_def slot_ok_def init_slot_def set_header_def fresh_client_def)
  have sh0: "wl_shape ?s0" by (rule wl_shape_upd[OF sh]) (use ok in \<open>simp add: slot_ok_def\<close>)
  have sh1: "wl_shape ?s1" by (rule wl_shape_upd[OF sh0]) (use ok1 len in \<open>simp add: upd_wlan_nth c1_def\<close>)
  have sh2: "wl_shape ?s2" by (rule wl_shape_upd[OF sh1]) (use ok1 len in \<open>simp add: upd_wlan_nth c1_def c2_def\<close>)
  have sh3: "wl_shape ?s3" by (rule wl_shape_upd[OF sh2]) (use ok1 len in \<open>simp add: upd_wlan_nth c1_def c2_def\<close>)
  have r: "handle_wlan_client_init_ex dev attribs (s, h) = (if \<not> ok4 then Inr (IPACM_FAILURE, ?s1, h4)
      else if \<not> ok6 then Inr (IPACM_FAILURE, ?s2, h6) else Inr (IPACM_SUCCESS, count_client ?s3, h6))"
    using False dev_okD(2)[OF dev] 4(1) 6(1)
    unfolding handle_wlan_client_init_ex_def fresh_client_eq[symmetric] count_client_def by (cases ok4; cases ok6; auto simp: Let_def)
  consider "\<not> ok4" | "ok4" "\<not> ok6" | "ok4" "ok6" by blast
  then show ?thesis
  proof cases
    case 1
    have "wl_inv w0 ?s1 (obs h4)" using sh1 4(3) 1 by (simp add: wl_inv_def new_hdrs_def)
    then show ?thesis using r 1 by auto
  next
    case 2
    have f: "hold w0 ([] @ rules_of s) (new_hdrs ?n4 ok4 x4 @ hdrs_of s) (obs h6)" using 6(2) 2 by (simp add: new_hdrs_def)
    have "wl_inv w0 ?s2 (obs h6)" using sh2 hold_forget[OF f 6(3)[OF 2(2)]] by (simp add: wl_inv_def)
    then show ?thesis using r 2 by auto
  next
    case 3
    have c: "wlan_client ?s3 ! ?i = fresh_client c2" using len by (simp add: upd_wlan_nth c1_def c2_def)
    have "client_hdrs (fresh_client c2) = new_hdrs ?n4 True x4 @ new_hdrs ?n6 True x6"
      using ok 3 by (auto simp: client_hdrs_def fresh_client_def c1_def c2_def init_slot_def set_header_def new_hdrs_def slot_ok_def)
    then have "hold w0 (rules_of ?s3) (client_hdrs (wlan_client ?s3 ! ?i) @ hdrs_of ?s3) (obs h6)" unfolding c
      by (intro hold_perm[OF 6(2)]) (use 3 in simp_all)
    moreover have "client_rules (txs ?s3) (wlan_client ?s3 ! ?i) = []" unfolding c
      by (simp add: client_rules_def client_v4_def client_v6_def v6_rules_of_def fresh_client_def)
    ultimately have "wl_inv w0 (count_client ?s3) (obs h6)" using count_client_inv[OF sh3] False by simp
    then show ?thesis using r 3 by auto
  qed
qed

section \<open>Events\<close>

definition wlan_event_ok :: "'h ipa_dev \<Rightarrow> wlan_event \<Rightarrow> bool" where
  "wlan_event_ok dev ev \<longleftrightarrow> wlan_event_iface ev \<noteq> Some 0 \<and> (case ev of ClientAddEx k attribs \<Rightarrow> list_all (attrib_ok (dev_hdr_max dev)) attribs | _ \<Rightarrow> True)"

lemma recover_inv:
  assumes dev: "dev_ok dev obs" and inv: "wl_inv w0 s (obs h)" and r: "wlan_own_event dev (ClientRecover k mac) (s, h) = Inr (calls, s', h')"
  shows "wl_inv w0 s' (obs h')"
proof (cases "get_wlan_client_index mac s")
  case None
  then show ?thesis using r inv by (simp add: Let_def)
next
  case (Some i)
  note n = get_wlan_client_index_SomeD(1)[OF Some]
  show ?thesis
  proof (cases "power_save_set (wlan_client s ! i)")
    case False
    then show ?thesis using r inv Some by (simp add: Let_def)
  next
    case True
    let ?s = "upd_wlan i (\<lambda>c. c\<lparr>power_save_set := False\<rparr>) s" let ?c = "wlan_client ?s ! i"
    define st1 where "st1 = (if ipv4_set ?c then snd (handle_wlan_client_route_rule dev mac IPA_IP_v4 (?s, h)) else (?s, h))"
    define st2 where "st2 = (if ipv6_set ?c \<noteq> 0 then snd (handle_wlan_client_route_rule dev mac IPA_IP_v6 st1) else st1)"
    have 0: "wl_inv w0 ?s (obs h)" using power_save_inv[OF inv n] .
    have route: "wl_inv w0 (fst (snd (handle_wlan_client_route_rule dev mac ip st))) (obs (snd (snd (handle_wlan_client_route_rule dev mac ip st))))"
      if "wl_inv w0 (fst st) (obs (snd st))" for ip st
      using handle_wlan_client_route_rule_inv[OF dev that, of mac ip] by (metis prod.collapse)
    have 1: "wl_inv w0 (fst st1) (obs (snd st1))" using 0 route[of "(?s, h)" IPA_IP_v4] by (simp add: st1_def)
    have "wl_inv w0 (fst st2) (obs (snd st2))" using 1 route[OF 1, of IPA_IP_v6] by (simp add: st2_def)
    moreover have "st2 = (s', h')" using r Some True by (auto simp: Let_def st1_def st2_def split: if_splits)
    ultimately show ?thesis by simp
  qed
qed

lemma wlan_own_event_inv:
  assumes dev: "dev_ok dev obs" and inv: "wl_inv w0 s (obs h)" and ev: "wlan_event_ok dev ev"
  shows "\<exists>calls s' h'. wlan_own_event dev ev (s, h) = Inr (calls, s', h') \<and> wl_inv w0 s' (obs h')"
proof (cases ev)
  case (ClientAddEx k attribs)
  then have "list_all (attrib_ok (dev_hdr_max dev)) attribs" using ev by (simp add: wlan_event_ok_def)
  from handle_wlan_client_init_ex_inv[OF dev inv this] show ?thesis using ClientAddEx by auto
next
  case (ClientDel k mac)
  obtain res calls s' h' where r: "handle_wlan_client_down_evt dev mac (s, h) = (res, calls, s', h')" by (metis prod_cases4)
  from handle_wlan_client_down_evt_inv[OF dev inv r] show ?thesis using ClientDel r by (simp add: Let_def)
next
  case (ClientPowerSave k mac)
  obtain calls s' h' where r: "handle_wlan_client_pwrsave dev mac (s, h) = (calls, s', h')" by (metis prod_cases3)
  from handle_wlan_client_pwrsave_inv[OF dev inv r] show ?thesis using ClientPowerSave r by (simp add: Let_def)
next
  case (ClientRecover k mac)
  have "\<exists>calls s' h'. wlan_own_event dev (ClientRecover k mac) (s, h) = Inr (calls, s', h')"
    by (auto simp: Let_def split: option.splits)
  then show ?thesis using recover_inv[OF dev inv] ClientRecover by metis
next
  case (NeighClientIpAddrAdd k ip v4 v6 mac)
  obtain res calls s1 h1 where r: "handle_wlan_client_ipaddr dev ip v4 v6 mac (s, h) = (res, calls, s1, h1)" by (metis prod_cases4)
  have 1: "wl_inv w0 s1 (obs h1)" using handle_wlan_client_ipaddr_inv[OF dev inv r] .
  obtain res2 s2 h2 where 2: "handle_wlan_client_route_rule dev mac ip (s1, h1) = (res2, s2, h2)" by (metis prod_cases3)
  show ?thesis using 1 handle_wlan_client_route_rule_inv[OF dev 1 2] NeighClientIpAddrAdd r 2 by (simp add: Let_def)
next
  case (WanDownV6Tether k)
  obtain res calls s' h' where r: "reset_rt_loop dev IPA_IP_v6 (num_wifi_client s) 0 (s, h) = (res, calls, s', h')" by (metis prod_cases4)
  from reset_rt_loop_inv[OF dev inv r] show ?thesis using WanDownV6Tether r by (simp add: handle_wlan_client_reset_rt_def)
qed

lemma Wlan_event_callback_inv:
  assumes dev: "dev_ok dev obs" and cfg: "cfg_ok names c" and inv: "wl_inv w0 s (obs h)" and ev: "wlan_event_ok dev ev"
  shows "\<exists>calls c' s' h'. Wlan_event_callback dev names ev (c, s, h) = Inr (calls, c', s', h') \<and> cfg_ok names c' \<and> cfg_view c' = cfg_view c \<and> wl_inv w0 s' (obs h')"
proof -
  obtain calls s' h' where own: "wlan_own_event dev ev (s, h) = Inr (calls, s', h')" "wl_inv w0 s' (obs h')"
    using wlan_own_event_inv[OF dev inv ev] by blast
  show ?thesis
  proof (cases "wlan_event_iface ev")
    case None
    then obtain k where "ev = WanDownV6Tether k" by (cases ev) auto
    then show ?thesis using own cfg inv by (simp add: Wlan_event_callback_def Let_def)
  next
    case (Some k)
    then have "k \<noteq> 0" using ev by (auto simp: wlan_event_ok_def)
    then obtain c' where q: "iface_ipa_index_query names k c = Inr (row_index (row_of names c k), c')" "cfg_ok names c'" "cfg_view c' = cfg_view c"
      using dir.query_row[OF cfg] by blast
    have e: "(case ev of WanDownV6Tether k \<Rightarrow> A k | _ \<Rightarrow> B) = B" for A and B :: "fault + wlan_call list \<times> IPACM_Config \<times> IPACM_Wlan_clients \<times> 'a"
      using Some by (cases ev) auto
    show ?thesis using own cfg inv q Some by (simp add: Wlan_event_callback_def Let_def e)
  qed
qed

end
