(* ===== verification/Wlan_Props.thy ===== *)
theory Wlan_Props
  imports Wlan_Clients_Inv
begin

text \<open>
  What the object of an access point promises: for every sequence of events the hardware holds exactly the rules and headers of
  the clients in its table; an address is routed as soon as it is known; and the flag for power save does not follow its client.
\<close>

section \<open>Sequences of events\<close>

fun wlan_run :: "'h ipa_dev \<Rightarrow> (int \<Rightarrow> string option) \<Rightarrow> wlan_event list \<Rightarrow> IPACM_Config \<times> IPACM_Wlan_clients \<times> 'h \<Rightarrow>
    fault + wlan_call list \<times> IPACM_Config \<times> IPACM_Wlan_clients \<times> 'h" where
  "wlan_run dev names [] st = Inr ([], st)"
| "wlan_run dev names (ev # evs) st =
     bnd (Wlan_event_callback dev names ev st) (\<lambda>(calls, st). bnd (wlan_run dev names evs st) (\<lambda>(calls', st). Inr (calls @ calls', st)))"

lemma wlan_run_inv:
  assumes dev: "dev_ok dev obs" and cfg: "cfg_ok names c" and inv: "wl_inv w0 s (obs h)" and evs: "\<forall>ev \<in> set evs. wlan_event_ok dev ev"
  shows "\<exists>calls c' s' h'. wlan_run dev names evs (c, s, h) = Inr (calls, c', s', h') \<and> cfg_view c' = cfg_view c \<and> wl_inv w0 s' (obs h')"
  using cfg inv evs
proof (induction evs arbitrary: c s h)
  case (Cons ev evs)
  obtain calls c1 s1 h1 where 1: "Wlan_event_callback dev names ev (c, s, h) = Inr (calls, c1, s1, h1)" "cfg_ok names c1" "cfg_view c1 = cfg_view c"
    "wl_inv w0 s1 (obs h1)" using Wlan_event_callback_inv[OF dev Cons.prems(1,2), of ev] Cons.prems(3) by auto
  obtain calls2 c2 s2 h2 where "wlan_run dev names evs (c1, s1, h1) = Inr (calls2, c2, s2, h2)" "cfg_view c2 = cfg_view c1" "wl_inv w0 s2 (obs h2)"
    using Cons.IH[OF 1(2,4)] Cons.prems(3) by auto
  then show ?case using 1(1,3) by simp
qed simp

text \<open>An object without clients.\<close>

definition no_clients :: "IPACM_Wlan_clients \<Rightarrow> bool" where
  "no_clients s \<longleftrightarrow> wl_shape s \<and> num_wifi_client s = 0"

lemma wl_inv_start: "no_clients s \<Longrightarrow> wl_inv w s w"
  by (simp add: no_clients_def wl_inv_def rules_of_def hdrs_of_def clients_def hold_start)

lemma wl_invD:
  assumes "wl_inv w0 s w"
  shows "(k, r) \<in> set (rules_of s) \<Longrightarrow> hw_rules w k = Some r" "set (hdrs_of s) \<subseteq> hw_hdrs w"
    "distinct (map fst (rules_of s))" "distinct (hdrs_of s)"
    "hw_fails w = hw_fails w0 \<Longrightarrow> hw_rules w = hw_rules w0 ++ map_of (rules_of s) \<and> hw_hdrs w = hw_hdrs w0 \<union> set (hdrs_of s)"
proof -
  obtain R S where g: "grown w0 R S w" "held R S (rules_of s) (hdrs_of s) w" using assms by (auto simp: wl_inv_def hold_def)
  show "(k, r) \<in> set (rules_of s) \<Longrightarrow> hw_rules w k = Some r" "set (hdrs_of s) \<subseteq> hw_hdrs w" using held_live[OF g(2)] by blast+
  show "distinct (map fst (rules_of s))" "distinct (hdrs_of s)" using g(2) by (simp_all add: held_def)
  show "hw_fails w = hw_fails w0 \<Longrightarrow> hw_rules w = hw_rules w0 ++ map_of (rules_of s) \<and> hw_hdrs w = hw_hdrs w0 \<union> set (hdrs_of s)"
    using g by (simp add: grown_def held_def)
qed

lemma wlan_handle_down_evt_closed:
  assumes "wlan_handle_down_evt dev own (s, h) = (r, calls, s', h')"
  shows "\<not> is_active s'" "wl_ip_type s = None \<Longrightarrow> h' = h"
  using assms by (auto simp: wlan_handle_down_evt_def Let_def split: if_splits prod.splits)

text \<open>C13. From an object without clients, every sequence of events (with attributes that lie within the header, which the code does not check, and interfaces of the
  kernel) is handled without a fault. Afterwards every rule that the table of clients prescribes (with its table, pipe, header and
  address) is in the hardware under the handle that the table records, and so is every header; no handle is recorded twice. As long as
  no call of the driver has failed, the hardware holds nothing else besides what it held before. When the interface goes down with an address
  on it, and removing the interface's own rules \<open>D\<close> and every call of the driver succeeds, the hardware then holds exactly what it held before without those; without an
  address on the interface nothing is removed. In both cases the object ignores every event from then on. The driver reports a rule it does not install by
  failing the call, not in the status of the rule alone.\<close>

theorem wlan_hardware_agreement:
  assumes "dev_ok dev obs" "cfg_ok names c" "no_clients s" "\<forall>ev \<in> set evs. wlan_event_ok dev ev"
  shows "\<exists>calls c' s' h'. wlan_run dev names evs (c, s, h) = Inr (calls, c', s', h') \<and>
    num_wifi_client s' \<le> IPA_MAX_NUM_WIFI_CLIENTS \<and>
    (\<forall>(k, r) \<in> set (rules_of s'). hw_rules (obs h') k = Some r) \<and> set (hdrs_of s') \<subseteq> hw_hdrs (obs h') \<and>
    distinct (map fst (rules_of s')) \<and> distinct (hdrs_of s') \<and>
    (hw_fails (obs h') = hw_fails (obs h) \<longrightarrow>
       hw_rules (obs h') = hw_rules (obs h) ++ map_of (rules_of s') \<and> hw_hdrs (obs h') = hw_hdrs (obs h) \<union> set (hdrs_of s')) \<and>
    (\<forall>own D h1 calls2 s2 h2. wl_ip_type s' \<noteq> None \<and> own h' = (True, h1) \<and>
       D \<subseteq> dom (hw_rules (obs h)) \<and> obs h1 = (obs h')\<lparr>hw_rules := hw_rules (obs h') |` (- D)\<rparr> \<and>
       wlan_handle_down_evt dev own (s', h') = (IPACM_SUCCESS, calls2, s2, h2) \<and> hw_fails (obs h2) = hw_fails (obs h) \<longrightarrow>
       hw_rules (obs h2) = hw_rules (obs h) |` (- D) \<and> hw_hdrs (obs h2) = hw_hdrs (obs h)) \<and>
    (\<forall>own r calls2 s2 h2. wlan_handle_down_evt dev own (s', h') = (r, calls2, s2, h2) \<longrightarrow>
       (wl_ip_type s' = None \<longrightarrow> h2 = h') \<and> (\<forall>ev c3 h3. Wlan_event_callback dev names ev (c3, s2, h3) = Inr ([], c3, s2, h3)))"
proof -
  obtain calls c' s' h' where r: "wlan_run dev names evs (c, s, h) = Inr (calls, c', s', h')" "wl_inv (obs h) s' (obs h')"
    using wlan_run_inv[OF assms(1,2) wl_inv_start[OF assms(3)] assms(4)] by blast
  have n: "num_wifi_client s' \<le> IPA_MAX_NUM_WIFI_CLIENTS" using r(2) by (simp add: wl_inv_def wl_shape_def)
  have down: "hw_rules (obs h2) = hw_rules (obs h) |` (- D) \<and> hw_hdrs (obs h2) = hw_hdrs (obs h)"
    if "wl_ip_type s' \<noteq> None" "own h' = (True, h1)" "D \<subseteq> dom (hw_rules (obs h))" "obs h1 = (obs h')\<lparr>hw_rules := hw_rules (obs h') |` (- D)\<rparr>"
      "wlan_handle_down_evt dev own (s', h') = (IPACM_SUCCESS, calls2, s2, h2)" "hw_fails (obs h2) = hw_fails (obs h)" for own D h1 calls2 s2 h2
    using wlan_handle_down_evt_inv[OF assms(1) r(2) that(1-5)] that(6) by (auto simp: hold_def grown_def held_def)
  have closed: "(wl_ip_type s' = None \<longrightarrow> h2 = h') \<and> (\<forall>ev c3 h3. Wlan_event_callback dev names ev (c3, s2, h3) = Inr ([], c3, s2, h3))"
    if "wlan_handle_down_evt dev own (s', h') = (r2, calls2, s2, h2)" for own r2 calls2 s2 h2
    using wlan_handle_down_evt_closed[OF that] by (auto simp: Wlan_event_callback_def)
  note hw = wl_invD[OF r(2)]
  have rules: "\<forall>(k, r) \<in> set (rules_of s'). hw_rules (obs h') k = Some r" using hw(1) by auto
  have all: "hw_fails (obs h') = hw_fails (obs h) \<longrightarrow>
      hw_rules (obs h') = hw_rules (obs h) ++ map_of (rules_of s') \<and> hw_hdrs (obs h') = hw_hdrs (obs h) \<union> set (hdrs_of s')" using hw(5) by blast
  show ?thesis
    by (rule exI[of _ calls], rule exI[of _ c'], rule exI[of _ s'], rule exI[of _ h'], intro conjI, (rule r(1) n rules hw(2-4) all)+,
        use down in blast, use closed in blast)
qed

section \<open>An address is routed\<close>

text \<open>The rules of one client in the hardware.\<close>

lemma wl_inv_client_rule:
  assumes inv: "wl_inv w0 s w" and i: "i < num_wifi_client s" and r: "(k, r) \<in> set (client_rules (txs s) (wlan_client s ! i))"
  shows "hw_rules w k = Some r"
proof -
  have "wl_shape s" using inv by (simp add: wl_inv_def)
  then have "wlan_client s ! i \<in> set (clients s)" using wl_shapeD(2,5) i by (metis nth_mem)
  then show ?thesis using wl_invD(1)[OF inv] r by (auto simp: rules_of_def)
qed

text \<open>The table after a new address: with an old one its rules are deleted first.\<close>

definition set_new_v4 :: "bool \<Rightarrow> u32 \<Rightarrow> ipa_wlan_client \<Rightarrow> ipa_wlan_client" where
  "set_new_v4 old v4 c = (if old then c\<lparr>route_rule_set_v4 := False, wc_v4_addr := v4\<rparr> else c\<lparr>wc_v4_addr := v4, ipv4_set := True\<rparr>)"

lemma new_v4_addr:
  assumes dev: "dev_ok dev obs" and inv: "wl_inv w0 s (obs h)" and i: "get_wlan_client_index mac s = Some i"
    and c: "v4 \<noteq> 0" "ipv4_set (wlan_client s ! i) \<longrightarrow> v4 \<noteq> wc_v4_addr (wlan_client s ! i)"
  shows "\<exists>calls h1. handle_wlan_client_ipaddr dev IPA_IP_v4 v4 v6 mac (s, h) =
    (IPACM_SUCCESS, calls, upd_wlan i (set_new_v4 (ipv4_set (wlan_client s ! i)) v4) s, h1)"
proof (cases "ipv4_set (wlan_client s ! i)")
  case True
  note n = get_wlan_client_index_SomeD(1)[OF i]
  have len: "i < length (wlan_client s)" using inv n wl_shapeD(4) by (auto simp: wl_inv_def)
  obtain h1 where "delete_default_qos_rtrules dev i IPA_IP_v4 (s, h) = (IPACM_SUCCESS, upd_wlan i (drop_rules IPA_IP_v4) s, h1)"
    using delete_default_qos_rtrules_inv[OF dev inv n] by blast
  moreover have "upd_wlan i (\<lambda>c. c\<lparr>route_rule_set_v4 := False, wc_v4_addr := v4\<rparr>) (upd_wlan i (drop_rules IPA_IP_v4) s) =
      upd_wlan i (set_new_v4 True v4) s"
    using len by (simp add: upd_wlan_def drop_rules_simps set_new_v4_def)
  ultimately show ?thesis using i c True by (simp add: handle_wlan_client_ipaddr_def Let_def)
next
  case False
  then have "upd_wlan i (set_new_v4 False v4) s = upd_wlan i (\<lambda>c. c\<lparr>wc_v4_addr := v4, ipv4_set := True\<rparr>) s" by (simp add: upd_wlan_def set_new_v4_def)
  then show ?thesis using False i c by (simp add: handle_wlan_client_ipaddr_def Let_def)
qed

text \<open>C14. A client that is not in power save reports a new IPv4 address, and no call of the driver has failed: then the address is in
  the table and the hardware has a rule for it on every transmit property of the family, with the client's header.\<close>

theorem wlan_address_routed:
  assumes dev: "dev_ok dev obs" and inv: "wl_inv w0 s (obs h)" and i: "get_wlan_client_index mac s = Some i"
    and c: "tx_prop s \<noteq> None" "\<not> power_save_set (wlan_client s ! i)" "v4 \<noteq> 0" "ipv4_set (wlan_client s ! i) \<longrightarrow> v4 \<noteq> wc_v4_addr (wlan_client s ! i)"
    and r: "wlan_own_event dev (NeighClientIpAddrAdd k IPA_IP_v4 v4 v6 mac) (s, h) = Inr (calls, s', h')"
    and nofail: "hw_fails (obs h') = hw_fails w0"
  shows "ipv4_set (wlan_client s' ! i) \<and> wc_v4_addr (wlan_client s' ! i) = v4 \<and>
    (\<forall>t \<in> set (tx_of IPA_IP_v4 (txs s)). \<exists>hl. hw_rules (obs h') hl = Some \<lparr>rt_tbl_of = rt_tbl_lan_v4, rt_dst = tx_dst_pipe (txs s ! t),
       rt_hdr_hdl = hdr_hdl_v4 (wlan_client s ! i), rt_attrib = Some (tx_attrib (txs s ! t)), rt_dst_addr = [v4]\<rparr>)"
proof -
  note n = get_wlan_client_index_SomeD(1)[OF i]
  let ?c = "wlan_client s ! i"
  have sh: "wl_shape s" and len: "i < length (wlan_client s)" using inv n wl_shapeD(4) by (auto simp: wl_inv_def)
  define f where "f = set_new_v4 (ipv4_set ?c) v4"
  have f: "wc_mac (f c) = wc_mac c" "power_save_set (f c) = power_save_set c" "wc_v4_addr (f c) = v4" "hdr_hdl_v4 (f c) = hdr_hdl_v4 c" for c
    by (simp_all add: f_def set_new_v4_def)
  have f2: "ipv4_set (f ?c)" "\<not> route_rule_set_v4 (f ?c)" using wl_shapeD(3)[OF sh len] by (auto simp: f_def set_new_v4_def slot_ok_def)
  obtain calls1 h1 where 1: "handle_wlan_client_ipaddr dev IPA_IP_v4 v4 v6 mac (s, h) = (IPACM_SUCCESS, calls1, upd_wlan i f s, h1)"
    using new_v4_addr[OF dev inv i c(3,4)] unfolding f_def by blast
  let ?s1 = "upd_wlan i f s"
  have inv1: "wl_inv w0 ?s1 (obs h1)" using handle_wlan_client_ipaddr_inv[OF dev inv 1] .
  have e: "wlan_client ?s1 ! i = f ?c" "get_wlan_client_index mac ?s1 = Some i" using len i by (simp_all add: upd_wlan_nth upd_wlan_index f(1))
  obtain ok c' h2 where a: "add_v4_rules dev (txs s) (tx_of IPA_IP_v4 (txs s)) (f ?c, h1) = (ok, c', h2)" by (metis prod_cases3)
  have n1: "i < num_wifi_client ?s1" and nr: "\<not> route_rule_set_v4 (wlan_client ?s1 ! i)" "ipv4_set (wlan_client ?s1 ! i)" using n f2 by (simp_all add: e(1))
  note add = add_v4_client[OF dev inv1 n1 nr, unfolded e(1) upd_wlan_sel, OF a]
  have rr: "handle_wlan_client_route_rule dev mac IPA_IP_v4 (?s1, h1) =
      (if ok then (IPACM_SUCCESS, upd_wlan i (\<lambda>_. c'\<lparr>route_rule_set_v4 := True\<rparr>) ?s1, h2) else (IPACM_FAILURE, upd_wlan i (\<lambda>_. c') ?s1, h2))"
    using a e f f2 c dev_okD(2)[OF dev] by (auto simp: handle_wlan_client_route_rule_def Let_def)
  have h2: "h' = h2" using r 1 rr by (auto simp: Let_def split: if_splits)
  then have ok: ok using add(2) nofail by fastforce
  let ?s2 = "upd_wlan i (\<lambda>_. c'\<lparr>route_rule_set_v4 := True\<rparr>) ?s1"
  have s': "s' = ?s2" using r 1 rr ok by (simp add: Let_def)
  have inv2: "wl_inv w0 s' (obs h')" using add(1) ok s' h2 by simp
  obtain rt where c': "c' = (f ?c)\<lparr>wifi_rt_hdl := rt\<rparr>" using add(3) unfolding same_but_def by blast
  have c2: "wlan_client s' ! i = c'\<lparr>route_rule_set_v4 := True\<rparr>" using len s' by (simp add: upd_wlan_nth)
  have "\<exists>hl. hw_rules (obs h') hl = Some (v4_rule (txs s) (wlan_client s' ! i) t)" if t: "t \<in> set (tx_of IPA_IP_v4 (txs s))" for t
  proof -
    have "(wifi_rt_rule_hdl_v4 (wifi_rt_hdl (wlan_client s' ! i) ! t), v4_rule (txs s) (wlan_client s' ! i) t) \<in> set (client_rules (txs s') (wlan_client s' ! i))"
      using t unfolding c2 by (simp add: s' client_rules_def client_v4_def v4_rules_of_def)
    then show ?thesis using wl_inv_client_rule[OF inv2] n s' by auto
  qed
  moreover have "v4_rule (txs s) (wlan_client s' ! i) t = \<lparr>rt_tbl_of = rt_tbl_lan_v4, rt_dst = tx_dst_pipe (txs s ! t),
       rt_hdr_hdl = hdr_hdl_v4 ?c, rt_attrib = Some (tx_attrib (txs s ! t)), rt_dst_addr = [v4]\<rparr>" for t
    unfolding c2 by (simp add: v4_rule_def c' f)
  ultimately show ?thesis unfolding c2 using f2 by (simp add: c' f)
qed

section \<open>Power save after a departure\<close>

lemma delete_default_qos_rtrules_SuccessD:
  assumes "delete_default_qos_rtrules dev i ip (s, h) = (IPACM_SUCCESS, s', h')"
  shows "s' = upd_wlan i (drop_rules ip) s"
proof -
  have "upd_wlan i (drop_rules ip) s = s" if "ip \<noteq> IPA_IP_v4" "ip \<noteq> IPA_IP_v6" using that by (simp add: upd_wlan_def drop_rules_def)
  then show ?thesis using assms by (auto simp: delete_default_qos_rtrules_def drop_rules_simps Let_def split: if_splits prod.splits)
qed

lemma down_evt_SuccessD:
  assumes r: "handle_wlan_client_down_evt dev mac (s, h) = (IPACM_SUCCESS, calls, s', h')" and i: "get_wlan_client_index mac s = Some i"
    and len: "i < length (wlan_client s)"
  shows "\<exists>f. (\<forall>c. power_save_set (f c) = power_save_set c) \<and>
    wlan_client s' = shift_clients (length (txs s)) i (num_wifi_client s - 1) (wlan_client (upd_wlan i f s)) \<and> num_wifi_client s' = num_wifi_client s - 1"
proof -
  let ?s1 = "upd_wlan i (drop_rules IPA_IP_v4) s" let ?s2 = "upd_wlan i (drop_rules IPA_IP_v6) ?s1"
  let ?f = "\<lambda>c. c\<lparr>ipv4_set := False, ipv6_set := 0, ipv4_header_set := False, ipv6_header_set := False, route_rule_set_v4 := False, route_rule_set_v6 := 0\<rparr>"
  obtain r4 s4 h4 where 4: "delete_default_qos_rtrules dev i IPA_IP_v4 (s, h) = (r4, s4, h4)" by (metis prod_cases3)
  then have s4: "r4 = IPACM_SUCCESS" "s4 = ?s1" using r i delete_default_qos_rtrules_SuccessD[of dev i IPA_IP_v4 s h]
    by (auto simp: handle_wlan_client_down_evt_def Let_def split: if_splits)
  obtain r6 s6 h6 where 6: "delete_default_qos_rtrules dev i IPA_IP_v6 (?s1, h4) = (r6, s6, h6)" by (metis prod_cases3)
  then have s6: "r6 = IPACM_SUCCESS" "s6 = ?s2" using r i 4 s4 delete_default_qos_rtrules_SuccessD[of dev i IPA_IP_v6 ?s1 h4]
    by (auto simp: handle_wlan_client_down_evt_def Let_def split: if_splits)
  have "upd_wlan i ?f (upd_wlan i (\<lambda>c. c\<lparr>ipv4_header_set := False\<rparr>) ?s2) = upd_wlan i ?f s" using len by (simp add: upd_wlan_def drop_rules_def)
  then have "wlan_client s' = shift_clients (length (txs s)) i (num_wifi_client s - 1) (wlan_client (upd_wlan i ?f s)) \<and> num_wifi_client s' = num_wifi_client s - 1"
    using r i 4 6 s4 s6 by (auto simp: handle_wlan_client_down_evt_def Let_def split: if_splits prod.splits)
  then show ?thesis by (intro exI[of _ ?f]) simp
qed

text \<open>C15. A client leaves, and another one is in the next slot. The other one moves into the free slot with its MAC address, but the slot
  keeps the flag for power save of the client that left. When that one was awake, the event that ends the other one's power save
  changes nothing: it gets its rules never back.\<close>

theorem departure_mixes_power_save:
  assumes "wl_shape s" "get_wlan_client_index mac s = Some i" "Suc i < num_wifi_client s"
    and "handle_wlan_client_down_evt dev mac (s, h) = (IPACM_SUCCESS, calls, s', h')"
  shows "wc_mac (wlan_client s' ! i) = wc_mac (wlan_client s ! Suc i) \<and> power_save_set (wlan_client s' ! i) = power_save_set (wlan_client s ! i) \<and>
    (\<not> power_save_set (wlan_client s ! i) \<and> get_wlan_client_index (wc_mac (wlan_client s ! Suc i)) s' = Some i \<longrightarrow>
      (\<exists>calls. wlan_own_event dev (ClientRecover k (wc_mac (wlan_client s ! Suc i))) (s', h') = Inr (calls, s', h')))"
proof -
  have len: "Suc i < length (wlan_client s)" using wl_shapeD(4)[OF assms(1,3)] .
  obtain f where f: "\<forall>c. power_save_set (f c) = power_save_set c" "wlan_client s' = shift_clients (length (txs s)) i (num_wifi_client s - 1) (wlan_client (upd_wlan i f s))"
    using down_evt_SuccessD[OF assms(4,2)] len by auto
  have "num_wifi_client s - 1 < length (wlan_client (upd_wlan i f s))" using wl_shapeD(1)[OF assms(1)] assms(3) by simp
  from shift_clients_nth[OF this, of "length (txs s)" i] have "wlan_client s' ! i = shift_client (length (txs s)) (wlan_client s ! Suc i) (f (wlan_client s ! i))"
    using f(2) assms(3) len by (simp add: upd_wlan_nth)
  then have "wc_mac (wlan_client s' ! i) = wc_mac (wlan_client s ! Suc i)" "power_save_set (wlan_client s' ! i) = power_save_set (wlan_client s ! i)"
    using f(1) by (simp_all add: shift_client_def)
  then show ?thesis by (auto simp: Let_def)
qed

section \<open>An access point with one transmit property\<close>

text \<open>A driver with a few handles, whose state is what can be observed of it.\<close>

definition wl_dev :: "hw ipa_dev" where
  "wl_dev = \<lparr>ioc_copy_hdr = (\<lambda>nm w. Some (replicate 14 0, 14)),
     ioc_add_hdr = (\<lambda>a w. case find (\<lambda>k. k \<notin> hw_hdrs w) [1, 2] of None \<Rightarrow> ((-1, 0, 0), hw_fail w) | Some k \<Rightarrow> ((0, k, 0), w\<lparr>hw_hdrs := insert k (hw_hdrs w)\<rparr>)),
     ioc_del_hdr = (\<lambda>k w. ((0, 0), w\<lparr>hw_hdrs := hw_hdrs w - {k}\<rparr>)),
     ioc_add_rt_rule = (\<lambda>r w. case find (\<lambda>k. hw_rules w k = None) [1, 2, 3] of None \<Rightarrow> ((-1, 0, 0), hw_fail w)
       | Some k \<Rightarrow> ((0, k, 0), w\<lparr>hw_rules := (hw_rules w)(k \<mapsto> r)\<rparr>)),
     ioc_del_rt_rule = (\<lambda>k ip w. ((0, 0), w\<lparr>hw_rules := (hw_rules w)(k := None)\<rparr>)),
     dev_alloc = (\<lambda>n. True), dev_opened = True, dev_name_max = 32, dev_hdr_max = 64\<rparr>"

lemma wl_dev_ok: "dev_ok wl_dev (\<lambda>w. w)"
  by (auto simp: dev_ok_def wl_dev_def rt_add_ok_def rt_del_ok_def hdr_add_ok_def hdr_del_ok_def)

definition wl_names :: "int \<Rightarrow> string option" where
  "wl_names k = (if k = 5 then Some ''wlan0'' else None)"

definition wl_cfg :: IPACM_Config where
  "wl_cfg = (IPACM_Config_new IPA_RM_RESOURCE_Q6_PROD)\<lparr>
     iface_table := [\<lparr>iface_name = ''wlan0'', if_cat = WLAN_IF, netlink_interface_index = 0\<rparr>], ipa_num_ipa_interfaces := 1\<rparr>"

lemma wl_cfg_ok: "cfg_ok wl_names wl_cfg"
  by (simp add: wl_names_def wl_cfg_def cfg_ok_def IPACM_Config_new_def)

definition wl_slot :: ipa_wlan_client where
  "wl_slot = \<lparr>p_hdr_info = [], wc_mac = replicate 6 0, wc_v4_addr = 0, wc_v6_addr = replicate 3 (replicate 4 0), hdr_hdl_v4 = 0, hdr_hdl_v6 = 0,
     route_rule_set_v4 = False, route_rule_set_v6 = 0, ipv4_set = False, ipv6_set = 0, ipv4_header_set = False, ipv6_header_set = False,
     power_save_set = False, wifi_rt_hdl = [\<lparr>wifi_rt_rule_hdl_v4 = 0, wifi_rt_rule_hdl_v6 = [0, 0, 0], wifi_rt_rule_hdl_v6_wan = [0, 0, 0]\<rparr>]\<rparr>"

text \<open>The object with the given clients.\<close>

definition wl_ap :: "ipa_wlan_client list \<Rightarrow> IPACM_Wlan_clients" where
  "wl_ap cs = \<lparr>wl_ipa_if_num = 0, wl_ip_type = Some IPA_IP_v4, is_active = True,
     tx_prop = Some [\<lparr>tx_ip = IPA_IP_v4, tx_dst_pipe = IPA_CLIENT_other 1, tx_hdr_name = ''hdr'', tx_attrib = 0\<rparr>],
     num_wifi_client = length cs, total_num_wifi_clients = length cs, header_name_count = length cs,
     wlan_client = cs @ replicate (32 - length cs) wl_slot\<rparr>"

lemma wl_ap_txs: "txs (wl_ap cs) = [\<lparr>tx_ip = IPA_IP_v4, tx_dst_pipe = IPA_CLIENT_other 1, tx_hdr_name = ''hdr'', tx_attrib = 0\<rparr>]"
  by (simp add: wl_ap_def txs_def)

lemma wl_tx_of:
  "tx_of IPA_IP_v4 (txs (wl_ap cs)) = [0]" "tx_of IPA_IP_v6 (txs (wl_ap cs)) = []"
  by (simp_all add: wl_ap_txs tx_of_def)

lemma wl_ap_shape:
  assumes "length cs \<le> 32" "\<forall>c \<in> set cs. slot_ok (txs (wl_ap cs)) c"
  shows "wl_shape (wl_ap cs)"
proof -
  have "slot_ok (txs (wl_ap cs)) wl_slot" by (simp add: wl_ap_txs slot_ok_def wl_slot_def IPV6_NUM_ADDR_def)
  then show ?thesis using assms by (auto simp: wl_shape_def wl_ap_def txs_def IPA_MAX_NUM_WIFI_CLIENTS_def)
qed

definition wl_client :: "u8 \<Rightarrow> bool \<Rightarrow> ipa_wlan_client" where
  "wl_client m b = wl_slot\<lparr>wc_mac := [2, 0, 0, 0, 0, m], hdr_hdl_v4 := 1 + ucast m, ipv4_header_set := True, power_save_set := b\<rparr>"

lemma wl_client_ok: "slot_ok (txs (wl_ap cs)) (wl_client m b)"
  by (simp add: slot_ok_def wl_client_def wl_slot_def wl_ap_txs tx_of_def IPV6_NUM_ADDR_def)

definition wl_evs :: "wlan_event list" where
  "wl_evs = [ClientAddEx 5 [WLAN_HDR_ATTRIB_MAC_ADDR 0 [2, 0, 0, 0, 0, 1]], NeighClientIpAddrAdd 5 IPA_IP_v4 0x0A000002 [] [2, 0, 0, 0, 0, 1]]"

lemma wl_evs_run:
  "case wlan_run wl_dev wl_names wl_evs (wl_cfg, wl_ap [], \<lparr>hw_rules = Map.empty, hw_hdrs = {}, hw_fails = 0\<rparr>) of
     Inl _ \<Rightarrow> False
   | Inr (calls, c', s', h') \<Rightarrow> hw_fails h' = 0 \<and> wl_ip_type s' \<noteq> None \<and> rules_of s' \<noteq> [] \<and>
       (case wlan_handle_down_evt wl_dev (\<lambda>h. (True, h)) (s', h') of (r, calls2, s2, h2) \<Rightarrow> r = 0 \<and> hw_fails h2 = 0)"
  by code_simp

text \<open>A client connects, gets a rule for its address, and then the interface goes down.\<close>

theorem wlan_hardware_agreement_witness:
  "\<exists>calls c' s' h' calls2 s2 h2. wlan_run wl_dev wl_names wl_evs (wl_cfg, wl_ap [], \<lparr>hw_rules = Map.empty, hw_hdrs = {}, hw_fails = 0\<rparr>) =
    Inr (calls, c', s', h') \<and> rules_of s' \<noteq> [] \<and> hw_rules h' = map_of (rules_of s') \<and> hw_hdrs h' = set (hdrs_of s') \<and>
    wlan_handle_down_evt wl_dev (\<lambda>h. (True, h)) (s', h') = (IPACM_SUCCESS, calls2, s2, h2) \<and> hw_rules h2 = Map.empty \<and> hw_hdrs h2 = {}"
proof -
  let ?w = "\<lparr>hw_rules = Map.empty, hw_hdrs = {}, hw_fails = 0\<rparr> :: hw"
  have n: "no_clients (wl_ap [])" using wl_ap_shape[of "[]"] by (simp add: no_clients_def) (simp add: wl_ap_def)
  have e: "\<forall>ev \<in> set wl_evs. wlan_event_ok wl_dev ev" by (simp add: wl_evs_def wlan_event_ok_def wl_dev_def)
  from wlan_hardware_agreement[OF wl_dev_ok wl_cfg_ok n e, of ?w] obtain calls c' s' h' where
    r: "wlan_run wl_dev wl_names wl_evs (wl_cfg, wl_ap [], ?w) = Inr (calls, c', s', h')" and
    a: "hw_fails h' = hw_fails ?w \<longrightarrow> hw_rules h' = hw_rules ?w ++ map_of (rules_of s') \<and> hw_hdrs h' = hw_hdrs ?w \<union> set (hdrs_of s')" and
    d: "\<forall>own D h1 calls2 s2 h2. wl_ip_type s' \<noteq> None \<and> own h' = (True, h1) \<and>
       D \<subseteq> dom (hw_rules ?w) \<and> h1 = h'\<lparr>hw_rules := hw_rules h' |` (- D)\<rparr> \<and>
       wlan_handle_down_evt wl_dev own (s', h') = (IPACM_SUCCESS, calls2, s2, h2) \<and> hw_fails h2 = hw_fails ?w \<longrightarrow>
       hw_rules h2 = hw_rules ?w |` (- D) \<and> hw_hdrs h2 = hw_hdrs ?w" by (elim exE conjE)
  obtain calls2 s2 h2 where k: "hw_fails h' = 0" "wl_ip_type s' \<noteq> None" "rules_of s' \<noteq> []"
    "wlan_handle_down_evt wl_dev (\<lambda>h. (True, h)) (s', h') = (IPACM_SUCCESS, calls2, s2, h2)" "hw_fails h2 = 0"
    using wl_evs_run unfolding r by (auto split: prod.splits)
  have "hw_rules h2 = Map.empty \<and> hw_hdrs h2 = {}"
    using d[rule_format, of "\<lambda>h. (True, h)" h' "{}" calls2 s2 h2] k by (simp add: restrict_map_def)
  then show ?thesis using r a k by simp
qed

lemma wl_one_client:
  "wl_inv \<lparr>hw_rules = Map.empty, hw_hdrs = {}, hw_fails = 0\<rparr> (wl_ap [wl_client 0 False]) \<lparr>hw_rules = Map.empty, hw_hdrs = {1}, hw_fails = 0\<rparr>"
proof -
  have "wl_shape (wl_ap [wl_client 0 False])" by (rule wl_ap_shape) (simp_all add: wl_client_ok)
  moreover have "clients (wl_ap [wl_client 0 False]) = [wl_client 0 False]" by (simp add: clients_def wl_ap_def)
  then have "rules_of (wl_ap [wl_client 0 False]) = []" "hdrs_of (wl_ap [wl_client 0 False]) = [1]"
    by (simp_all add: rules_of_def hdrs_of_def client_rules_def client_v4_def client_v6_def v6_rules_of_def client_hdrs_def wl_client_def wl_slot_def)
  moreover have "hold \<lparr>hw_rules = Map.empty, hw_hdrs = {}, hw_fails = 0\<rparr> [] [1] \<lparr>hw_rules = Map.empty, hw_hdrs = {1}, hw_fails = 0\<rparr>"
    using hold_add_hdr[OF hold_start, of 1 "\<lparr>hw_rules = Map.empty, hw_hdrs = {}, hw_fails = 0\<rparr>"] by simp
  ultimately show ?thesis by (simp add: wl_inv_def)
qed

theorem wlan_address_routed_witness:
  "\<exists>calls s' h'. wlan_own_event wl_dev (NeighClientIpAddrAdd 5 IPA_IP_v4 0x0A000002 [] [2, 0, 0, 0, 0, 0])
      (wl_ap [wl_client 0 False], \<lparr>hw_rules = Map.empty, hw_hdrs = {1}, hw_fails = 0\<rparr>) = Inr (calls, s', h') \<and>
    wc_v4_addr (wlan_client s' ! 0) = 0x0A000002 \<and>
    (\<exists>hl. hw_rules h' hl = Some \<lparr>rt_tbl_of = rt_tbl_lan_v4, rt_dst = IPA_CLIENT_other 1, rt_hdr_hdl = 1, rt_attrib = Some 0, rt_dst_addr = [0x0A000002]\<rparr>)"
proof -
  let ?s = "wl_ap [wl_client 0 False]" and ?w = "\<lparr>hw_rules = Map.empty, hw_hdrs = {1}, hw_fails = 0\<rparr> :: hw"
  have i: "get_wlan_client_index [2, 0, 0, 0, 0, 0] ?s = Some 0" by (simp add: get_wlan_client_index_def wl_ap_def wl_client_def)
  have c: "wlan_client ?s ! 0 = wl_client 0 False" "tx_prop ?s \<noteq> None" by (simp_all add: wl_ap_def)
  let ?f = "\<lambda>c. c\<lparr>wc_v4_addr := 0x0A000002, ipv4_set := True\<rparr>"
  have 1: "handle_wlan_client_ipaddr wl_dev IPA_IP_v4 0x0A000002 [] [2, 0, 0, 0, 0, 0] (?s, ?w) = (IPACM_SUCCESS, [], upd_wlan 0 ?f ?s, ?w)"
    by (simp add: handle_wlan_client_ipaddr_def i c(1)) (simp add: wl_client_def wl_slot_def)
  have s1: "get_wlan_client_index [2, 0, 0, 0, 0, 0] (upd_wlan 0 ?f ?s) = Some 0" "wlan_client (upd_wlan 0 ?f ?s) ! 0 = ?f (wl_client 0 False)"
    using i c(1) by (simp_all add: upd_wlan_index upd_wlan_nth wl_ap_def)
  have 2: "\<exists>st. handle_wlan_client_route_rule wl_dev [2, 0, 0, 0, 0, 0] IPA_IP_v4 (upd_wlan 0 ?f ?s, ?w) = (IPACM_SUCCESS, st) \<and> hw_fails (snd st) = 0"
    using c(2) by (simp add: handle_wlan_client_route_rule_def s1 wl_tx_of Let_def)
      (simp add: wl_client_def wl_slot_def AddRoutingRule_def wl_dev_def)
  obtain calls s' h' where r: "wlan_own_event wl_dev (NeighClientIpAddrAdd 5 IPA_IP_v4 0x0A000002 [] [2, 0, 0, 0, 0, 0]) (?s, ?w) = Inr (calls, s', h')" "hw_fails h' = 0"
    using 1 2 by (auto simp: Let_def)
  have c2: "\<not> power_save_set (wlan_client ?s ! 0)" "ipv4_set (wlan_client ?s ! 0) \<longrightarrow> 0x0A000002 \<noteq> wc_v4_addr (wlan_client ?s ! 0)" "hdr_hdl_v4 (wlan_client ?s ! 0) = 1"
    unfolding c(1) by (simp_all add: wl_client_def wl_slot_def)
  have nf: "hw_fails h' = hw_fails \<lparr>hw_rules = Map.empty, hw_hdrs = {}, hw_fails = 0\<rparr>" using r(2) by simp
  note t = wlan_address_routed[OF wl_dev_ok wl_one_client i c(2) c2(1) _ c2(2) r(1) nf]
  have "\<exists>hl. hw_rules h' hl = Some \<lparr>rt_tbl_of = rt_tbl_lan_v4, rt_dst = IPA_CLIENT_other 1, rt_hdr_hdl = 1, rt_attrib = Some 0, rt_dst_addr = [0x0A000002]\<rparr>"
    using t unfolding wl_tx_of c2(3) by (simp add: wl_ap_txs)
  moreover have "wc_v4_addr (wlan_client s' ! 0) = 0x0A000002" using t by simp
  ultimately show ?thesis using r(1) by blast
qed

theorem departure_mixes_power_save_witness:
  "\<exists>calls s' h'. handle_wlan_client_down_evt wl_dev [2, 0, 0, 0, 0, 0] (wl_ap [wl_client 0 False, wl_client 1 True], \<lparr>hw_rules = Map.empty, hw_hdrs = {1, 2}, hw_fails = 0\<rparr>) =
      (IPACM_SUCCESS, calls, s', h') \<and>
    wc_mac (wlan_client s' ! 0) = [2, 0, 0, 0, 0, 1] \<and> power_save_set (wlan_client (wl_ap [wl_client 0 False, wl_client 1 True]) ! 1) \<and>
    \<not> power_save_set (wlan_client s' ! 0) \<and>
    (\<exists>calls. wlan_own_event wl_dev (ClientRecover 5 [2, 0, 0, 0, 0, 1]) (s', h') = Inr (calls, s', h'))"
proof -
  let ?s = "wl_ap [wl_client 0 False, wl_client 1 True]" and ?w = "\<lparr>hw_rules = Map.empty, hw_hdrs = {1, 2}, hw_fails = 0\<rparr> :: hw"
  have sh: "wl_shape ?s" by (rule wl_ap_shape) (simp_all add: wl_client_ok)
  have i: "get_wlan_client_index [2, 0, 0, 0, 0, 0] ?s = Some 0" "Suc 0 < num_wifi_client ?s"
    by (simp_all add: get_wlan_client_index_def wl_ap_def wl_client_def)
  have c: "wlan_client ?s ! 0 = wl_client 0 False" "wlan_client ?s ! Suc 0 = wl_client 1 True" by (simp_all add: wl_ap_def)
  have d: "delete_default_qos_rtrules wl_dev 0 IPA_IP_v4 (?s, ?w) = (IPACM_SUCCESS, upd_wlan 0 (drop_rules IPA_IP_v4) ?s, ?w)"
    by (simp add: delete_default_qos_rtrules_def v4_hdls_def c(1) drop_rules_simps) (simp add: wl_client_def wl_slot_def)
  have "v6_hdls (txs ?s) c = []" for c by (simp add: v6_hdls_def wl_tx_of)
  then have e: "delete_default_qos_rtrules wl_dev 0 IPA_IP_v6 (upd_wlan 0 (drop_rules IPA_IP_v4) ?s, ?w) =
      (IPACM_SUCCESS, upd_wlan 0 (drop_rules IPA_IP_v6) (upd_wlan 0 (drop_rules IPA_IP_v4) ?s), ?w)"
    by (simp add: delete_default_qos_rtrules_def drop_rules_simps)
  have hc: "\<not> ipv4_set (wl_client 0 False)" "ipv4_header_set (wl_client 0 False)" "hdr_hdl_v4 (wl_client 0 False) = 1" "\<not> ipv6_header_set (wl_client 0 False)"
    by (simp_all add: wl_client_def wl_slot_def)
  have dh: "DeleteHeaderHdl wl_dev 1 ?w = (True, ?w\<lparr>hw_hdrs := {2}\<rparr>)" by (auto simp: DeleteHeaderHdl_def wl_dev_def)
  have "\<exists>calls s' h'. handle_wlan_client_down_evt wl_dev [2, 0, 0, 0, 0, 0] (?s, ?w) = (IPACM_SUCCESS, calls, s', h')"
    by (simp add: handle_wlan_client_down_evt_def i c(1) d e hc dh Let_def)
  then obtain calls s' h' where r: "handle_wlan_client_down_evt wl_dev [2, 0, 0, 0, 0, 0] (?s, ?w) = (IPACM_SUCCESS, calls, s', h')" by blast
  note t = departure_mixes_power_save[OF sh i r, of 5]
  have m: "wc_mac (wl_client 1 True) = [2, 0, 0, 0, 0, 1]" "\<not> power_save_set (wl_client 0 False)" "power_save_set (wl_client 1 True)"
    by (simp_all add: wl_client_def wl_slot_def)
  have "length (wlan_client ?s) = 32" "num_wifi_client ?s = 2" by (simp_all add: wl_ap_def)
  then have "length (wlan_client s') = 32" "num_wifi_client s' = 1"
    using down_evt_SuccessD[OF r i(1)] shift_clients_nth[of 1 "wlan_client (upd_wlan 0 f ?s)" for f] by auto
  then obtain x xs where x: "wlan_client s' = x # xs" "num_wifi_client s' = 1" by (cases "wlan_client s'") auto
  have y: "wc_mac x = [2, 0, 0, 0, 0, 1]" "\<not> power_save_set x" using t unfolding x c m(1) using m(2) by simp_all
  then have "get_wlan_client_index [2, 0, 0, 0, 0, 1] s' = Some 0" using x by (simp add: get_wlan_client_index_def)
  then have "\<exists>calls. wlan_own_event wl_dev (ClientRecover 5 [2, 0, 0, 0, 0, 1]) (s', h') = Inr (calls, s', h')"
    using t m(2) unfolding c m(1) by blast
  moreover have "wc_mac (wlan_client s' ! 0) = [2, 0, 0, 0, 0, 1]" "\<not> power_save_set (wlan_client s' ! 0)" "power_save_set (wlan_client ?s ! 1)"
    using y x(1) m(3) c(2) by simp_all
  ultimately show ?thesis using r by blast
qed

end
