(* ===== verification/Hash_Chains.thy ===== *)
theory Hash_Chains
  imports Ipacm_Prelude
begin

text \<open>
  Hash tables with chains in an expansion area, as the NAT driver keeps two of them: entries \<open>1 .. T - 1\<close> are the heads of
  the buckets, entries \<open>T + 1 .. N - 1\<close> take collisions, entry \<open>0\<close> means "none". A table is given by its next and previous
  links and by which entries are occupied; \<open>B h\<close> lists the collision entries of bucket \<open>h\<close>. The lemmas are the ways the
  driver changes a chain, and that its search for the end of a chain returns.
\<close>

section \<open>Links\<close>

primrec linked :: "(nat \<Rightarrow> nat) \<Rightarrow> nat \<Rightarrow> nat list \<Rightarrow> bool" where
  "linked nxt p [] \<longleftrightarrow> nxt p = 0"
| "linked nxt p (e # es) \<longleftrightarrow> nxt p = e \<and> e \<noteq> 0 \<and> linked nxt e es"

primrec backed :: "(nat \<Rightarrow> nat) \<Rightarrow> nat \<Rightarrow> nat list \<Rightarrow> bool" where
  "backed prv p [] \<longleftrightarrow> True"
| "backed prv p (e # es) \<longleftrightarrow> prv e = p \<and> backed prv e es"

lemma linked_cong: "(\<And>x. x \<in> set (p # es) \<Longrightarrow> nxt x = nxt' x) \<Longrightarrow> linked nxt p es = linked nxt' p es"
  by (induction es arbitrary: p) auto

lemma backed_cong: "(\<And>x. x \<in> set es \<Longrightarrow> prv x = prv' x) \<Longrightarrow> backed prv p es = backed prv' p es"
  by (induction es arbitrary: p) auto

lemma last_neq_first: "p \<notin> set (a # xs) \<Longrightarrow> last (a # xs) \<noteq> p"
  using last_in_set[of "a # xs"] by (metis list.distinct(1))

lemma linked_snoc:
  "linked nxt p es \<Longrightarrow> distinct (p # es @ [e]) \<Longrightarrow> e \<noteq> 0 \<Longrightarrow> linked (nxt(e := 0, last (p # es) := e)) p (es @ [e])"
proof (induction es arbitrary: p)
  case (Cons a es)
  have "linked (nxt(e := 0, last (a # es) := e)) a (es @ [e])" by (rule Cons.IH) (use Cons.prems in auto)
  moreover have "last (a # es) \<noteq> p" using Cons.prems(2) by (intro last_neq_first) auto
  ultimately show ?case using Cons.prems by (auto simp: fun_upd_def)
qed simp

lemma backed_snoc:
  "backed prv p es \<Longrightarrow> distinct (p # es @ [e]) \<Longrightarrow> backed (prv(e := last (p # es))) p (es @ [e])"
  by (induction es arbitrary: p) auto

lemma linked_skip:
  assumes "linked nxt p (xs @ e # ys)" "distinct (p # xs @ e # ys)"
  shows "linked (nxt(last (p # xs) := nxt e, e := 0)) p (xs @ ys)"
  using assms
proof (induction xs arbitrary: p)
  case Nil
  show ?case
  proof (cases ys)
    case (Cons y zs)
    have "linked (nxt(p := y, e := 0)) y zs = linked nxt y zs" using Nil Cons by (intro linked_cong) auto
    then show ?thesis using Nil Cons by (simp add: fun_upd_def)
  qed (use Nil in simp)
next
  case (Cons a xs)
  have l: "last (a # xs) \<noteq> p" using Cons.prems(2) by (intro last_neq_first) auto
  have "linked (nxt(last (a # xs) := nxt e, e := 0)) a (xs @ ys)" by (rule Cons.IH) (use Cons.prems in auto)
  then show ?case using l Cons.prems by (simp add: fun_upd_def)
qed

text \<open>The new predecessor of the entry after a removed one.\<close>

definition reback :: "(nat \<Rightarrow> nat) \<Rightarrow> nat list \<Rightarrow> nat \<Rightarrow> nat \<Rightarrow> nat" where
  "reback prv ys q = (if ys = [] then prv else prv(hd ys := q))"

lemma backed_skip:
  assumes "backed prv p (xs @ e # ys)" "distinct (xs @ e # ys)"
  shows "backed (reback prv ys (last (p # xs))) p (xs @ ys)"
  using assms
proof (induction xs arbitrary: p)
  case Nil
  show ?case
  proof (cases ys)
    case (Cons y zs)
    have "backed (prv(y := p)) y zs = backed prv y zs" using Nil Cons by (intro backed_cong) auto
    then show ?thesis using Nil Cons by (simp add: reback_def fun_upd_def)
  qed simp
next
  case (Cons a xs)
  have "hd ys \<noteq> a" if "ys \<noteq> []" using Cons.prems(2) that hd_in_set[OF that] by auto
  with Cons show ?case by (cases "ys = []") (auto simp: reback_def)
qed

lemma linked_nxt: "linked nxt p (xs @ e # ys) \<Longrightarrow> nxt e = (if ys = [] then 0 else hd ys)"
  by (induction xs arbitrary: p) (cases ys, auto)

lemma linked_nxt_head: "linked nxt p ys \<Longrightarrow> nxt p = (if ys = [] then 0 else hd ys)"
  by (cases ys) auto

lemma linked_nonzero: "linked nxt p es \<Longrightarrow> e \<in> set es \<Longrightarrow> e \<noteq> 0"
  by (induction es arbitrary: p) auto

lemma backed_prv: "backed prv p (xs @ e # ys) \<Longrightarrow> prv e = last (p # xs)"
  by (induction xs arbitrary: p) auto

section \<open>Tables\<close>

definition bucket :: "nat \<Rightarrow> nat \<Rightarrow> (nat \<Rightarrow> nat) \<Rightarrow> (nat \<Rightarrow> nat) \<Rightarrow> (nat \<Rightarrow> bool) \<Rightarrow> nat \<Rightarrow> nat list \<Rightarrow> bool" where
  "bucket T N nxt prv occ h es \<longleftrightarrow> linked nxt h es \<and> backed prv h es \<and> distinct es \<and> (es \<noteq> [] \<longrightarrow> occ h) \<and>
     (\<forall>e \<in> set es. T < e \<and> e < N \<and> occ e)"

definition chains :: "nat \<Rightarrow> nat \<Rightarrow> (nat \<Rightarrow> nat) \<Rightarrow> (nat \<Rightarrow> nat) \<Rightarrow> (nat \<Rightarrow> bool) \<Rightarrow> (nat \<Rightarrow> nat list) \<Rightarrow> bool" where
  "chains T N nxt prv occ B \<longleftrightarrow> T \<le> N \<and> \<not> occ 0 \<and>
     (\<forall>h. 0 < h \<and> h < T \<longrightarrow> bucket T N nxt prv occ h (B h)) \<and>
     (\<forall>h h' e. 0 < h \<and> h < T \<and> 0 < h' \<and> h' < T \<and> e \<in> set (B h) \<and> e \<in> set (B h') \<longrightarrow> h = h') \<and>
     (\<forall>e. T \<le> e \<and> e < N \<and> occ e \<longrightarrow> (\<exists>h. 0 < h \<and> h < T \<and> e \<in> set (B h)))"

lemma chains_bucket:
  assumes "chains T N nxt prv occ B" "0 < h" "h < T"
  shows "bucket T N nxt prv occ h (B h)"
  using assms by (auto simp: chains_def)

lemma bucketD:
  assumes "bucket T N nxt prv occ h es" "h < T"
  shows "linked nxt h es" "backed prv h es" "distinct (h # es)" "es \<noteq> [] \<Longrightarrow> occ h"
    "\<And>e. e \<in> set es \<Longrightarrow> T < e \<and> e < N \<and> occ e"
  using assms by (auto simp: bucket_def)

lemma chains_expn:
  assumes "chains T N nxt prv occ B" "T \<le> e" "e < N" "occ e"
  obtains h xs ys where "0 < h" "h < T" "B h = xs @ e # ys"
  using assms unfolding chains_def by (metis split_list)

lemma chains_same:
  "chains T N nxt prv occ B \<Longrightarrow> 0 < h \<Longrightarrow> h < T \<Longrightarrow> 0 < h' \<Longrightarrow> h' < T \<Longrightarrow> e \<in> set (B h) \<Longrightarrow> e \<in> set (B h') \<Longrightarrow> h' = h"
  unfolding chains_def by blast

lemma chains_apart:
  assumes c: "chains T N nxt prv occ B" and "0 < h" "h < T" "0 < k" "k < T" "k \<noteq> h" "x \<in> set (h # B h)"
  shows "x \<notin> set (k # B k)"
proof
  assume "x \<in> set (k # B k)"
  moreover have "T < y" if "y \<in> set (B h) \<or> y \<in> set (B k)" for y
    using that bucketD(5)[OF chains_bucket[OF c]] assms(2-5) by metis
  ultimately have "x \<in> set (B h) \<and> x \<in> set (B k)" using assms(3,5,6,7) by (auto dest: order.strict_trans)
  then show False using chains_same[OF c assms(2-5)] assms(6) by blast
qed

lemma chainsI:
  assumes "T \<le> N" "\<not> occ 0" "\<And>h. 0 < h \<Longrightarrow> h < T \<Longrightarrow> bucket T N nxt prv occ h (B h)"
    and "\<And>h h' e. 0 < h \<Longrightarrow> h < T \<Longrightarrow> 0 < h' \<Longrightarrow> h' < T \<Longrightarrow> e \<in> set (B h) \<Longrightarrow> e \<in> set (B h') \<Longrightarrow> h = h'"
    and "\<And>e. T \<le> e \<Longrightarrow> e < N \<Longrightarrow> occ e \<Longrightarrow> \<exists>h. 0 < h \<and> h < T \<and> e \<in> set (B h)"
  shows "chains T N nxt prv occ B"
  unfolding chains_def using assms by blast

text \<open>A bucket only depends on its own entries.\<close>

lemma bucket_cong:
  assumes "bucket T N nxt prv occ h es" "\<And>x. x \<in> set (h # es) \<Longrightarrow> nxt' x = nxt x" "\<And>x. x \<in> set es \<Longrightarrow> prv' x = prv x"
    "\<And>x. x \<in> set es \<Longrightarrow> occ x \<Longrightarrow> occ' x" "es \<noteq> [] \<Longrightarrow> occ h \<Longrightarrow> occ' h"
  shows "bucket T N nxt' prv' occ' h es"
proof -
  have "linked nxt' h es = linked nxt h es" by (rule linked_cong) (rule assms(2))
  moreover have "backed prv' h es = backed prv h es" by (rule backed_cong) (rule assms(3))
  ultimately show ?thesis using assms(1,4,5) by (auto simp: bucket_def)
qed

text \<open>Occupying the head of an empty bucket, and giving heads of empty buckets free.\<close>

lemma chains_heads:
  assumes c: "chains T N nxt prv occ B"
    and n: "\<And>x. 0 < x \<Longrightarrow> x < N \<Longrightarrow> nxt' x = nxt x" and p: "\<And>x. T < x \<Longrightarrow> x < N \<Longrightarrow> occ x \<Longrightarrow> prv' x = prv x"
    and o: "\<And>x. T \<le> x \<Longrightarrow> x < N \<Longrightarrow> occ' x = occ x" "\<And>x. 0 < x \<Longrightarrow> x < T \<Longrightarrow> nxt x \<noteq> 0 \<Longrightarrow> occ x \<Longrightarrow> occ' x" "\<not> occ' 0"
  shows "chains T N nxt' prv' occ' B"
proof -
  have "bucket T N nxt' prv' occ' h (B h)" if h: "0 < h" "h < T" for h
  proof (rule bucket_cong[OF chains_bucket[OF c h]])
    note b = bucketD[OF chains_bucket[OF c h] h(2)]
    have TN: "T \<le> N" using c by (simp add: chains_def)
    show "nxt' x = nxt x" if "x \<in> set (h # B h)" for x using that b(5)[of x] h TN n[of x] by auto
    show "prv' x = prv x" if "x \<in> set (B h)" for x using that b(5)[of x] p[of x] by auto
    show "occ' x" if "x \<in> set (B h)" "occ x" for x using that b(5)[of x] o(1)[of x] by auto
    show "occ' h" if "B h \<noteq> []" "occ h"
      using that o(2)[OF h] linked_nxt_head[OF b(1)] linked_nonzero[OF b(1)] hd_in_set[OF that(1)] by auto
  qed
  then show ?thesis using c o unfolding chains_def by auto
qed

text \<open>Appending an entry to the chain of an occupied head.\<close>

lemma chains_append:
  assumes c: "chains T N nxt prv occ B" and h: "0 < h" "h < T" "occ h" and e: "T < e" "e < N" "\<not> occ e"
  shows "chains T N (nxt(e := 0, last (h # B h) := e)) (prv(e := last (h # B h))) (occ(e := True)) (B(h := B h @ [e]))"
    (is "chains T N ?nxt ?prv ?occ ?B")
proof (rule chainsI)
  note b = bucketD[OF chains_bucket[OF c h(1,2)] h(2)]
  have ne: "e \<notin> set (k # B k)" if "0 < k" "k < T" for k
    using bucketD(5)[OF chains_bucket[OF c that] that(2)] e(1,3) that(2) by auto
  show "bucket T N ?nxt ?prv ?occ k (?B k)" if k: "0 < k" "k < T" for k
  proof (cases "k = h")
    case True
    have "distinct (h # B h @ [e])" using b(3) ne[OF h(1,2)] by auto
    then show ?thesis using True b e h linked_snoc[OF b(1), of e] backed_snoc[OF b(2), of e] by (auto simp: bucket_def)
  next
    case False
    have "last (h # B h) \<in> set (h # B h)" by (rule last_in_set) simp
    then have d: "last (h # B h) \<notin> set (k # B k)" by (rule chains_apart[OF c h(1,2) k False])
    have "bucket T N ?nxt ?prv ?occ k (B k)"
      by (rule bucket_cong[OF chains_bucket[OF c k]]) (use d ne[OF k] in \<open>auto simp del: last.simps\<close>)
    then show ?thesis using False by simp
  qed
  show "k = k'" if "0 < k" "k < T" "0 < k'" "k' < T" "x \<in> set (?B k)" "x \<in> set (?B k')" for k k' x
  proof (cases "x = e")
    case True
    then show ?thesis using that(5,6) ne[OF that(1,2)] ne[OF that(3,4)] by (auto split: if_splits)
  next
    case False
    then have "x \<in> set (B k)" "x \<in> set (B k')" using that(5,6) by (auto split: if_splits)
    then show ?thesis by (rule chains_same[OF c that(1-4), symmetric])
  qed
  show "\<exists>k. 0 < k \<and> k < T \<and> x \<in> set (?B k)" if x: "T \<le> x" "x < N" "?occ x" for x
  proof (cases "x = e")
    case True
    then show ?thesis using h by (intro exI[of _ h]) simp
  next
    case False
    then obtain k xs ys where "0 < k" "k < T" "B k = xs @ x # ys" using x chains_expn[OF c x(1,2)] by (metis fun_upd_other)
    then show ?thesis by (intro exI[of _ k]) auto
  qed
qed (use c e in \<open>auto simp: chains_def\<close>)

text \<open>Taking an entry out of a chain.\<close>

lemma chains_remove:
  assumes c: "chains T N nxt prv occ B" and h: "0 < h" "h < T" and e: "B h = xs @ e # ys"
  shows "chains T N (nxt(last (h # xs) := nxt e, e := 0)) (reback prv ys (last (h # xs))) (occ(e := False)) (B(h := xs @ ys))"
    (is "chains T N ?nxt ?prv ?occ ?B")
proof (rule chainsI)
  note b = bucketD[OF chains_bucket[OF c h] h(2)]
  show "bucket T N ?nxt ?prv ?occ k (?B k)" if k: "0 < k" "k < T" for k
  proof (cases "k = h")
    case True
    have d: "distinct (h # xs @ e # ys)" using b(3) e by simp
    have "occ h" using b(4) e by simp
    moreover have "\<forall>x \<in> set (xs @ ys). T < x \<and> x < N \<and> ?occ x" using b(5) e d by auto
    moreover have "h \<noteq> e" using d by auto
    moreover have "linked ?nxt h (xs @ ys)" using linked_skip[of nxt h xs e ys] b(1) e d by simp
    moreover have "backed ?prv h (xs @ ys)" using backed_skip[of prv h xs e ys] b(2) e d by simp
    ultimately show ?thesis using True d by (auto simp: bucket_def)
  next
    case False
    have "last (h # xs) \<in> set (h # xs)" by (rule last_in_set) simp
    then have "last (h # xs) \<in> set (h # B h)" using e by auto
    then have d: "last (h # xs) \<notin> set (k # B k)" by (rule chains_apart[OF c h k False])
    have n: "e \<notin> set (k # B k)" by (rule chains_apart[OF c h k False]) (simp add: e)
    have y: "ys \<noteq> [] \<Longrightarrow> hd ys \<notin> set (k # B k)" by (rule chains_apart[OF c h k False]) (simp add: e)
    have "bucket T N ?nxt ?prv ?occ k (B k)"
      by (rule bucket_cong[OF chains_bucket[OF c k]]) (use d n y in \<open>auto simp: reback_def simp del: last.simps\<close>)
    then show ?thesis using False by simp
  qed
  have sub: "set (?B k) \<subseteq> set (B k)" for k using e by auto
  show "k = k'" if "0 < k" "k < T" "0 < k'" "k' < T" "x \<in> set (?B k)" "x \<in> set (?B k')" for k k' x
    by (rule chains_same[OF c that(1-4), symmetric]) (use that(5,6) sub in blast)+
  show "\<exists>k. 0 < k \<and> k < T \<and> x \<in> set (?B k)" if x: "T \<le> x" "x < N" "?occ x" for x
  proof -
    have "x \<noteq> e" "occ x" using x(3) by (auto split: if_splits)
    then obtain k us vs where k: "0 < k" "k < T" "B k = us @ x # vs" using chains_expn[OF c x(1,2)] by metis
    then have "x \<in> set (B k)" by simp
    then have "x \<in> set (?B k)" using e \<open>x \<noteq> e\<close> by (cases "k = h") auto
    then show ?thesis using k by blast
  qed
qed (use c in \<open>auto simp: chains_def\<close>)

section \<open>The search for the end of a chain\<close>

text \<open>The loop of both insertions: follow the next links until there is none; an entry that is its own successor is an error
  (\<open>None\<close>). The links are read from the expansion area, at the index less the size \<open>T\<close> of the base area. A circle of several
  entries never ends: there are \<open>2 ^ 16\<close> indices, so fuel beyond that shows the same.\<close>

definition sub16 :: "nat \<Rightarrow> nat \<Rightarrow> nat" where
  "sub16 a b = (if b \<le> a then a - b else a + 2 ^ 16 - b)"

fun find_last :: "(nat \<Rightarrow> fault + nat) \<Rightarrow> nat \<Rightarrow> nat \<Rightarrow> nat \<Rightarrow> nat \<Rightarrow> fault + nat option" where
  "find_last rd T 0 prev nxt_indx = Inl Endless"
| "find_last rd T (Suc n) prev nxt_indx =
     (if nxt_indx = 0 then Inr (Some prev)
      else bnd (rd (sub16 nxt_indx T)) (\<lambda>nx. if nxt_indx = nx then Inr None else find_last rd T n nxt_indx nx))"

lemma find_last_linked:
  assumes "linked nxt p es" "distinct (p # es)" "length es < n" "\<And>e. e \<in> set es \<Longrightarrow> T \<le> e \<and> rd (e - T) = Inr (nxt e)"
  shows "find_last rd T n p (nxt p) = Inr (Some (last (p # es)))"
  using assms
proof (induction es arbitrary: p n)
  case Nil
  then show ?case by (cases n) auto
next
  case (Cons a es)
  obtain m where n: "n = Suc m" using Cons.prems(3) by (cases n) auto
  have a: "nxt p = a" "a \<noteq> 0" "linked nxt a es" "T \<le> a" "rd (a - T) = Inr (nxt a)" using Cons.prems by auto
  have "nxt a \<noteq> a" using linked_nxt_head[OF a(3)] Cons.prems(2) a(2) by (auto split: if_splits)
  moreover have "find_last rd T m a (nxt a) = Inr (Some (last (a # es)))"
    by (rule Cons.IH) (use Cons.prems a n in auto)
  ultimately show ?case using a by (simp add: n sub16_def)
qed

end
