(* ===== verification/Nat_Tables.thy ===== *)
theory Nat_Tables
  imports Nat_App Hash_Chains
begin

text \<open>
  The memory of the NAT driver library, \<^verbatim>\<open>ipa_nat_drvi.h\<close> and the first part of \<^verbatim>\<open>ipa_nat_drvi.c\<close>: entries of the rule and index
  tables as the hardware reads them, the fields inside their 32 bit words, the hash functions, the checksum differences, the
  sizes of the tables, and what a DMA command writes. Indices of entries (\<^verbatim>\<open>uint16_t\<close>) are natural numbers, with the wrap-around
  written out.
\<close>

section \<open>Halves of a word\<close>

definition lo16 :: "u32 \<Rightarrow> u16" where "lo16 w = ucast w"

definition hi16 :: "u32 \<Rightarrow> u16" where "hi16 w = ucast (drop_bit 16 w)"

definition cat16 :: "u16 \<Rightarrow> u16 \<Rightarrow> u32" where "cat16 hi lo = push_bit 16 (ucast hi) OR ucast lo"

lemma lo16_cat [simp]: "lo16 (cat16 h l) = l"
  by (rule bit_word_eqI) (auto simp: lo16_def cat16_def bit_simps)

lemma hi16_cat [simp]: "hi16 (cat16 h l) = h"
  by (rule bit_word_eqI) (auto simp: hi16_def cat16_def bit_simps dest: bit_imp_le_length)

lemma cat16_halves [simp]: "cat16 (hi16 w) (lo16 w) = w"
  by (rule bit_word_eqI) (auto simp: lo16_def hi16_def cat16_def bit_simps)

lemma cat16_zero [simp]: "hi16 0 = 0" "lo16 0 = 0"
  by (simp_all add: hi16_def lo16_def)

section \<open>Entries\<close>

datatype nat_table_type = IPA_NAT_BASE_TBL | IPA_NAT_EXPN_TBL | IPA_NAT_INDX_TBL | IPA_NAT_INDEX_EXPN_TBL

datatype ipa_nat_rule_field_type = NEXT_INDEX_FIELD | PUBLIC_PORT_FILED | PRIVATE_PORT_FIELD | TARGET_PORT_FIELD | IP_CHKSUM_FIELD |
  ENABLE_FIELD | TIME_STAMP_FIELD | PROTOCOL_FIELD | TCP_UDP_CHKSUM_FIELD | SW_SPEC_PARAM_PREV_INDEX_FIELD |
  SW_SPEC_PARAM_INDX_TBL_ENTRY_FIELD | INDX_TBL_TBL_ENTRY_FIELD | INDX_TBL_NEXT_INDEX_FILED

datatype del_type = IPA_NAT_DEL_TYPE_ONLY_ONE | IPA_NAT_DEL_TYPE_HEAD | IPA_NAT_DEL_TYPE_MIDDLE | IPA_NAT_DEL_TYPE_LAST

record ipa_nat_rule =
  hw_private_ip :: u32
  hw_target_ip :: u32
  nxt_indx_pub_port :: u32
  hw_private_port :: u16
  hw_target_port :: u16
  ip_cksm_enbl :: u32
  ts_proto :: u32
  sw_spec_params :: u32
  hw_rsvd2 :: u16
  hw_tcp_udp_chksum :: u16

record ipa_nat_sw_rule =
  sw_private_ip :: u32
  sw_target_ip :: u32
  sw_next_index :: u16
  sw_public_port :: u16
  sw_private_port :: u16
  sw_target_port :: u16
  sw_ip_chksum :: u16
  sw_rsvd1 :: "14 word"
  sw_redirect :: "1 word"
  sw_enable :: "1 word"
  sw_time_stamp :: "24 word"
  sw_protocol :: u8
  sw_prev_index :: u16
  sw_indx_tbl_entry :: u16
  sw_rsvd2 :: u16
  sw_tcp_udp_chksum :: u16

record ipa_nat_indx_tbl_sw_rule =
  isw_tbl_entry :: u16
  isw_next_index :: u16
  isw_prev_index :: u16

definition zero_rule :: ipa_nat_rule where
  "zero_rule = \<lparr>hw_private_ip = 0, hw_target_ip = 0, nxt_indx_pub_port = 0, hw_private_port = 0, hw_target_port = 0,
     ip_cksm_enbl = 0, ts_proto = 0, sw_spec_params = 0, hw_rsvd2 = 0, hw_tcp_udp_chksum = 0\<rparr>"

definition zero_sw_rule :: ipa_nat_sw_rule where
  "zero_sw_rule = \<lparr>sw_private_ip = 0, sw_target_ip = 0, sw_next_index = 0, sw_public_port = 0, sw_private_port = 0,
     sw_target_port = 0, sw_ip_chksum = 0, sw_rsvd1 = 0, sw_redirect = 0, sw_enable = 0, sw_time_stamp = 0, sw_protocol = 0,
     sw_prev_index = 0, sw_indx_tbl_entry = 0, sw_rsvd2 = 0, sw_tcp_udp_chksum = 0\<rparr>"

text \<open>The bytes of a software rule, read as a hardware rule; the compiler packs bit fields from the least significant bit.\<close>

definition hw_rule :: "ipa_nat_sw_rule \<Rightarrow> ipa_nat_rule" where
  "hw_rule r = \<lparr>hw_private_ip = sw_private_ip r, hw_target_ip = sw_target_ip r,
     nxt_indx_pub_port = cat16 (sw_public_port r) (sw_next_index r),
     hw_private_port = sw_private_port r, hw_target_port = sw_target_port r,
     ip_cksm_enbl = cat16 (push_bit 15 (ucast (sw_enable r)) OR push_bit 14 (ucast (sw_redirect r)) OR ucast (sw_rsvd1 r))
       (sw_ip_chksum r),
     ts_proto = push_bit 24 (ucast (sw_protocol r)) OR ucast (sw_time_stamp r),
     sw_spec_params = cat16 (sw_indx_tbl_entry r) (sw_prev_index r),
     hw_rsvd2 = sw_rsvd2 r, hw_tcp_udp_chksum = sw_tcp_udp_chksum r\<rparr>"

definition IPA_NAT_SW_PARAM_PREV_INDX_BYTE :: u8 where "IPA_NAT_SW_PARAM_PREV_INDX_BYTE = 0"

definition IPA_NAT_SW_PARAM_INDX_TBL_ENTRY_BYTE :: u8 where "IPA_NAT_SW_PARAM_INDX_TBL_ENTRY_BYTE = 1"

definition UpdateSwSpecParams :: "ipa_nat_rule \<Rightarrow> u8 \<Rightarrow> u32 \<Rightarrow> ipa_nat_rule" where
  "UpdateSwSpecParams rule param_type value =
     (let temp = sw_spec_params rule
      in if IPA_NAT_SW_PARAM_INDX_TBL_ENTRY_BYTE = param_type
         then rule\<lparr>sw_spec_params := (temp AND 0x0000FFFF) OR push_bit 16 value\<rparr>
         else rule\<lparr>sw_spec_params := (temp AND 0xFFFF0000) OR value\<rparr>)"

definition Read8BitFieldValue :: "u32 \<Rightarrow> ipa_nat_rule_field_type \<Rightarrow> u8" where
  "Read8BitFieldValue param fld_type = (case fld_type of PROTOCOL_FIELD \<Rightarrow> ucast (drop_bit 24 param) | _ \<Rightarrow> 0)"

definition Read16BitFieldValue :: "u32 \<Rightarrow> ipa_nat_rule_field_type \<Rightarrow> u16" where
  "Read16BitFieldValue param fld_type =
     (case fld_type of
        NEXT_INDEX_FIELD \<Rightarrow> lo16 param
      | PUBLIC_PORT_FILED \<Rightarrow> hi16 param
      | ENABLE_FIELD \<Rightarrow> ucast (drop_bit 31 param)
      | SW_SPEC_PARAM_PREV_INDEX_FIELD \<Rightarrow> lo16 param
      | SW_SPEC_PARAM_INDX_TBL_ENTRY_FIELD \<Rightarrow> hi16 param
      | INDX_TBL_TBL_ENTRY_FIELD \<Rightarrow> lo16 param
      | INDX_TBL_NEXT_INDEX_FILED \<Rightarrow> hi16 param
      | IP_CHKSUM_FIELD \<Rightarrow> lo16 param
      | _ \<Rightarrow> 0)"

definition Read32BitFieldValue :: "u32 \<Rightarrow> ipa_nat_rule_field_type \<Rightarrow> u32" where
  "Read32BitFieldValue param fld_type = (case fld_type of TIME_STAMP_FIELD \<Rightarrow> take_bit 24 param | _ \<Rightarrow> 0)"

text \<open>The fields of entries as the driver reads them.\<close>

definition nxt_of :: "ipa_nat_rule \<Rightarrow> nat" where
  "nxt_of r = unat (Read16BitFieldValue (nxt_indx_pub_port r) NEXT_INDEX_FIELD)"

definition enabled_of :: "ipa_nat_rule \<Rightarrow> bool" where
  "enabled_of r \<longleftrightarrow> Read16BitFieldValue (ip_cksm_enbl r) ENABLE_FIELD \<noteq> 0"

definition proto_of :: "ipa_nat_rule \<Rightarrow> u8" where
  "proto_of r = Read8BitFieldValue (ts_proto r) PROTOCOL_FIELD"

definition prev_of :: "ipa_nat_rule \<Rightarrow> nat" where
  "prev_of r = unat (Read16BitFieldValue (sw_spec_params r) SW_SPEC_PARAM_PREV_INDEX_FIELD)"

definition indx_of :: "ipa_nat_rule \<Rightarrow> nat" where
  "indx_of r = unat (Read16BitFieldValue (sw_spec_params r) SW_SPEC_PARAM_INDX_TBL_ENTRY_FIELD)"

definition entry_of :: "u32 \<Rightarrow> nat" where
  "entry_of w = unat (Read16BitFieldValue w INDX_TBL_TBL_ENTRY_FIELD)"

definition next_of :: "u32 \<Rightarrow> nat" where
  "next_of w = unat (Read16BitFieldValue w INDX_TBL_NEXT_INDEX_FILED)"

text \<open>What a client asked for, read back from an entry.\<close>

definition clnt_of :: "ipa_nat_rule \<Rightarrow> ipa_nat_ipv4_rule" where
  "clnt_of r = \<lparr>r_target_ip = hw_target_ip r, r_private_ip = hw_private_ip r, r_target_port = hw_target_port r,
     r_private_port = hw_private_port r, r_public_port = Read16BitFieldValue (nxt_indx_pub_port r) PUBLIC_PORT_FILED,
     r_protocol = proto_of r\<rparr>"

section \<open>DMA commands\<close>

record ipa_ioc_nat_dma_one =
  table_index :: nat
  base_addr :: nat_table_type
  dma_offset :: u32
  dma_data :: u16

definition IPA_NAT_RULE_FLAG_FIELD_OFFSET :: u32 where "IPA_NAT_RULE_FLAG_FIELD_OFFSET = 18"
definition IPA_NAT_RULE_NEXT_FIELD_OFFSET :: u32 where "IPA_NAT_RULE_NEXT_FIELD_OFFSET = 8"
definition IPA_NAT_RULE_PROTO_FIELD_OFFSET :: u32 where "IPA_NAT_RULE_PROTO_FIELD_OFFSET = 22"
definition IPA_NAT_INDEX_RULE_NEXT_FIELD_OFFSET :: u32 where "IPA_NAT_INDEX_RULE_NEXT_FIELD_OFFSET = 2"
definition IPA_NAT_INDEX_RULE_NAT_INDEX_FIELD_OFFSET :: u32 where "IPA_NAT_INDEX_RULE_NAT_INDEX_FIELD_OFFSET = 0"
definition IPA_NAT_FLAG_ENABLE_BIT_MASK :: u16 where "IPA_NAT_FLAG_ENABLE_BIT_MASK = 0x8000"
definition IPA_NAT_FLAG_DISABLE_BIT_MASK :: u16 where "IPA_NAT_FLAG_DISABLE_BIT_MASK = 0x0000"
definition IPA_NAT_INVALID_PROTO_FIELD_VALUE :: u16 where "IPA_NAT_INVALID_PROTO_FIELD_VALUE = 0xFF00"
definition IPA_NAT_INVALID_PROTO_FIELD_CMP :: u8 where "IPA_NAT_INVALID_PROTO_FIELD_CMP = 0xFF"
definition IPA_NAT_TABLE_ENTRY_SIZE :: nat where "IPA_NAT_TABLE_ENTRY_SIZE = 32"
definition IPA_NAT_INDEX_TABLE_ENTRY_SIZE :: nat where "IPA_NAT_INDEX_TABLE_ENTRY_SIZE = 4"

lemmas offset_defs = IPA_NAT_RULE_FLAG_FIELD_OFFSET_def IPA_NAT_RULE_NEXT_FIELD_OFFSET_def IPA_NAT_RULE_PROTO_FIELD_OFFSET_def
  IPA_NAT_INDEX_RULE_NEXT_FIELD_OFFSET_def IPA_NAT_INDEX_RULE_NAT_INDEX_FIELD_OFFSET_def

lemmas size_defs = IPA_NAT_TABLE_ENTRY_SIZE_def IPA_NAT_INDEX_TABLE_ENTRY_SIZE_def

text \<open>Two bytes written at an even offset into a rule, and into an index entry.\<close>

definition write_half :: "nat \<Rightarrow> u16 \<Rightarrow> ipa_nat_rule \<Rightarrow> ipa_nat_rule" where
  "write_half off v r =
    (if off = 0 then r\<lparr>hw_private_ip := cat16 (hi16 (hw_private_ip r)) v\<rparr>
     else if off = 2 then r\<lparr>hw_private_ip := cat16 v (lo16 (hw_private_ip r))\<rparr>
     else if off = 4 then r\<lparr>hw_target_ip := cat16 (hi16 (hw_target_ip r)) v\<rparr>
     else if off = 6 then r\<lparr>hw_target_ip := cat16 v (lo16 (hw_target_ip r))\<rparr>
     else if off = 8 then r\<lparr>nxt_indx_pub_port := cat16 (hi16 (nxt_indx_pub_port r)) v\<rparr>
     else if off = 10 then r\<lparr>nxt_indx_pub_port := cat16 v (lo16 (nxt_indx_pub_port r))\<rparr>
     else if off = 12 then r\<lparr>hw_private_port := v\<rparr>
     else if off = 14 then r\<lparr>hw_target_port := v\<rparr>
     else if off = 16 then r\<lparr>ip_cksm_enbl := cat16 (hi16 (ip_cksm_enbl r)) v\<rparr>
     else if off = 18 then r\<lparr>ip_cksm_enbl := cat16 v (lo16 (ip_cksm_enbl r))\<rparr>
     else if off = 20 then r\<lparr>ts_proto := cat16 (hi16 (ts_proto r)) v\<rparr>
     else if off = 22 then r\<lparr>ts_proto := cat16 v (lo16 (ts_proto r))\<rparr>
     else if off = 24 then r\<lparr>sw_spec_params := cat16 (hi16 (sw_spec_params r)) v\<rparr>
     else if off = 26 then r\<lparr>sw_spec_params := cat16 v (lo16 (sw_spec_params r))\<rparr>
     else if off = 28 then r\<lparr>hw_rsvd2 := v\<rparr>
     else r\<lparr>hw_tcp_udp_chksum := v\<rparr>)"

definition write_index_half :: "nat \<Rightarrow> u16 \<Rightarrow> u32 \<Rightarrow> u32" where
  "write_index_half off v w = (if off = 0 then cat16 (hi16 w) v else cat16 v (lo16 w))"

text \<open>The memory the library shares with the hardware: the rules of base and expansion table, then their index entries.\<close>

type_synonym nat_mem = "ipa_nat_rule list \<times> u32 list"

definition dma_write :: "nat \<Rightarrow> ipa_ioc_nat_dma_one \<Rightarrow> nat_mem \<Rightarrow> nat_mem" where
  "dma_write T cmd mem =
     (case mem of (rs, is) \<Rightarrow>
        (let off = unat (dma_offset cmd);
             rule_at = (\<lambda>p. (rs[p := write_half (off mod 32) (dma_data cmd) (rs ! p)], is));
             index_at = (\<lambda>p. (rs, is[p := write_index_half (off mod 4) (dma_data cmd) (is ! p)]))
         in case base_addr cmd of
              IPA_NAT_BASE_TBL \<Rightarrow> rule_at (off div 32)
            | IPA_NAT_EXPN_TBL \<Rightarrow> rule_at (T + off div 32)
            | IPA_NAT_INDX_TBL \<Rightarrow> index_at (off div 4)
            | IPA_NAT_INDEX_EXPN_TBL \<Rightarrow> index_at (T + off div 4)))"

text \<open>A command for a half word inside the tables.\<close>

definition dma_in :: "nat \<Rightarrow> nat \<Rightarrow> ipa_ioc_nat_dma_one \<Rightarrow> bool" where
  "dma_in T E cmd \<longleftrightarrow> unat (dma_offset cmd) mod 2 = 0 \<and>
     unat (dma_offset cmd) div (if base_addr cmd \<in> {IPA_NAT_BASE_TBL, IPA_NAT_EXPN_TBL} then 32 else 4) <
       (if base_addr cmd \<in> {IPA_NAT_BASE_TBL, IPA_NAT_INDX_TBL} then T else E)"

section \<open>Hashes\<close>

definition dst_hash :: "u32 \<Rightarrow> u16 \<Rightarrow> u16 \<Rightarrow> u8 \<Rightarrow> u16 \<Rightarrow> u16" where
  "dst_hash trgt_ip trgt_port pub_port proto sz =
     (let hash = (ucast trgt_ip XOR ucast (drop_bit 16 trgt_ip) XOR trgt_port XOR pub_port XOR ucast proto) AND sz
      in if 0 = hash then sz else hash)"

definition src_hash :: "u32 \<Rightarrow> u16 \<Rightarrow> u32 \<Rightarrow> u16 \<Rightarrow> u8 \<Rightarrow> u16 \<Rightarrow> u16" where
  "src_hash priv_ip priv_port trgt_ip trgt_port proto sz =
     (let hash = (ucast priv_ip XOR ucast (drop_bit 16 priv_ip) XOR priv_port XOR ucast trgt_ip XOR
                  ucast (drop_bit 16 trgt_ip) XOR trgt_port XOR ucast proto) AND sz
      in if 0 = hash then sz else hash)"

text \<open>The buckets of a client rule in tables whose base has \<open>T\<close> entries.\<close>

definition dst_bucket :: "nat \<Rightarrow> ipa_nat_ipv4_rule \<Rightarrow> nat" where
  "dst_bucket T r = unat (dst_hash (r_target_ip r) (r_target_port r) (r_public_port r) (r_protocol r) (of_nat T - 1))"

definition src_bucket :: "nat \<Rightarrow> ipa_nat_ipv4_rule \<Rightarrow> nat" where
  "src_bucket T r = unat (src_hash (r_private_ip r) (r_private_port r) (r_target_ip r) (r_target_port r) (r_protocol r) (of_nat T - 1))"

lemma unat_pred: "1 \<le> T \<Longrightarrow> T \<le> 65536 \<Longrightarrow> unat (of_nat T - 1 :: u16) = T - 1"
proof -
  assume "1 \<le> T" "T \<le> 65536"
  then have "of_nat T - 1 = (of_nat (T - 1) :: u16)" by (simp add: of_nat_diff)
  then show ?thesis using \<open>T \<le> 65536\<close> by (simp add: unat_of_nat)
qed

lemma hash_range:
  assumes "2 \<le> T" "T \<le> 65536"
  shows "0 < dst_bucket T r" "dst_bucket T r < T" "0 < src_bucket T r" "src_bucket T r < T"
proof -
  let ?s = "of_nat T - 1 :: u16"
  have s: "unat ?s = T - 1" using assms by (intro unat_pred) auto
  have z: "unat w \<noteq> 0" if "w \<noteq> 0" for w :: u16 using that by (simp add: unat_eq_0)
  have le: "unat (x AND ?s) < T" for x
  proof -
    have "unat (x AND ?s) \<le> unat ?s" using word_and_le1[of x ?s] by (simp add: word_le_nat_alt)
    then show ?thesis using s assms(1) by simp
  qed
  show "0 < dst_bucket T r" "0 < src_bucket T r"
    using s assms z by (auto simp: dst_bucket_def src_bucket_def dst_hash_def src_hash_def Let_def)
  show "dst_bucket T r < T" "src_bucket T r < T"
    using s assms le by (auto simp: dst_bucket_def src_bucket_def dst_hash_def src_hash_def Let_def)
qed

section \<open>Checksum differences\<close>

text \<open>Adding with the carry folded back, as the code does after each addition.\<close>

definition fold_carry :: "u32 \<Rightarrow> u32" where
  "fold_carry cksum = (if drop_bit 16 cksum \<noteq> 0 then (cksum AND 0x0000FFFF) + 1 else cksum)"

definition ipa_nati_calc_ip_cksum :: "u32 \<Rightarrow> u32 \<Rightarrow> u16" where
  "ipa_nati_calc_ip_cksum pub_ip priv_ip =
     (let cksum = 0 + (pub_ip AND 0xFFFF);
          cksum = fold_carry (cksum + drop_bit 16 pub_ip);
          priv_ip = NOT priv_ip;
          cksum = fold_carry (cksum + (priv_ip AND 0xFFFF));
          cksum = fold_carry (cksum + drop_bit 16 priv_ip)
      in ucast cksum)"

definition ipa_nati_calc_tcp_udp_cksum :: "u32 \<Rightarrow> u16 \<Rightarrow> u32 \<Rightarrow> u16 \<Rightarrow> u16" where
  "ipa_nati_calc_tcp_udp_cksum pub_ip pub_port priv_ip priv_port =
     (let cksum = 0 + (pub_ip AND 0xFFFF);
          cksum = fold_carry (cksum + drop_bit 16 pub_ip);
          cksum = fold_carry (cksum + ucast pub_port);
          priv_ip = NOT priv_ip;
          cksum = fold_carry (cksum + (priv_ip AND 0xFFFF));
          cksum = fold_carry (cksum + drop_bit 16 priv_ip);
          priv_port = NOT priv_port;
          cksum = fold_carry (cksum + ucast priv_port)
      in ucast cksum)"

section \<open>Sizes\<close>

fun near2_loop :: "nat \<Rightarrow> nat \<Rightarrow> nat \<Rightarrow> fault + nat" where
  "near2_loop number num tmp =
     (if num = 1 then Inr (if number \<noteq> tmp then tmp * 2 mod 2 ^ 16 else tmp)
      else if num = 0 then Inl Endless
      else near2_loop number (num div 2) (tmp * 2 mod 2 ^ 16))"

declare near2_loop.simps [simp del]

definition EINVAL :: int where "EINVAL = 22"
definition ENOMEM :: int where "ENOMEM = 12"
definition EIO :: int where "EIO = 5"

lemmas errno_defs = EINVAL_def ENOMEM_def EIO_def

definition GetNearest2Power :: "nat \<Rightarrow> fault + int \<times> nat" where
  "GetNearest2Power num =
     (if num = 0 then Inr (- EINVAL, 0)
      else if num = 1 then Inr (0, 2)
      else bnd (near2_loop num num 1) (\<lambda>r. Inr (0, r)))"

definition GetNearestEven :: "nat \<Rightarrow> nat" where
  "GetNearestEven num = (if num < 2 then 2 else if num mod 2 \<noteq> 0 then (num + 1) mod 2 ^ 16 else num)"

section \<open>Fields after writes\<close>

text \<open>Every field of an entry after each kind of write; \<open>field_simps\<close> evaluates them.\<close>

named_theorems fld "fields of table entries"

lemmas read_defs = nxt_of_def enabled_of_def proto_of_def prev_of_def indx_of_def entry_of_def next_of_def
  Read16BitFieldValue_def Read8BitFieldValue_def

lemma fld_zero [fld]: "nxt_of zero_rule = 0" "\<not> enabled_of zero_rule" "entry_of 0 = 0" "next_of 0 = 0"
  by (simp_all add: read_defs zero_rule_def)

lemma enabled_iff: "enabled_of r \<longleftrightarrow> bit (hi16 (ip_cksm_enbl r)) 15"
proof -
  have "(ucast (drop_bit 31 w) :: u16) \<noteq> 0 \<longleftrightarrow> bit w 31" for w :: u32
  proof
    assume "(ucast (drop_bit 31 w) :: u16) \<noteq> 0"
    then obtain n where "bit (ucast (drop_bit 31 w) :: u16) n" by (metis bit_eqI bit_0_eq bot_apply bot_bool_def)
    then show "bit w 31" using bit_imp_le_length[of w "31 + n"] by (cases n) (auto simp: bit_simps)
  next
    assume "bit w 31"
    then have "bit (ucast (drop_bit 31 w) :: u16) 0" by (simp add: bit_simps)
    then show "(ucast (drop_bit 31 w) :: u16) \<noteq> 0" by auto
  qed
  then show ?thesis by (simp add: read_defs hi16_def bit_simps)
qed

lemma proto_eq: "proto_of r = ucast (drop_bit 8 (hi16 (ts_proto r)))"
  by (rule bit_word_eqI) (auto simp: read_defs hi16_def bit_simps)

lemma fld_hw_rule [fld]:
  "nxt_of (hw_rule r) = unat (sw_next_index r)" "prev_of (hw_rule r) = unat (sw_prev_index r)"
  "indx_of (hw_rule r) = unat (sw_indx_tbl_entry r)" "proto_of (hw_rule r) = sw_protocol r"
  "enabled_of (hw_rule r) \<longleftrightarrow> sw_enable r \<noteq> 0"
proof -
  show "proto_of (hw_rule r) = sw_protocol r"
    by (rule bit_word_eqI) (auto simp: read_defs hw_rule_def bit_simps dest: bit_imp_le_length)
  have "w \<noteq> 0 \<longleftrightarrow> bit w 0" for w :: "1 word"
  proof (cases "bit w 0")
    case False
    have "w = 0" by (rule bit_word_eqI) (use False in simp)
    with False show ?thesis by simp
  qed auto
  moreover have "\<not> bit (sw_rsvd1 r) 15" "\<not> bit (sw_redirect r) (Suc 0)"
    using bit_imp_le_length[of "sw_rsvd1 r" 15] bit_imp_le_length[of "sw_redirect r" "Suc 0"] by auto
  ultimately show "enabled_of (hw_rule r) \<longleftrightarrow> sw_enable r \<noteq> 0"
    by (simp add: enabled_iff hw_rule_def bit_simps)
qed (simp_all add: read_defs hw_rule_def)

lemma clnt_hw_rule [fld]: "clnt_of (hw_rule r) = \<lparr>r_target_ip = sw_target_ip r, r_private_ip = sw_private_ip r,
    r_target_port = sw_target_port r, r_private_port = sw_private_port r, r_public_port = sw_public_port r, r_protocol = sw_protocol r\<rparr>"
  using fld_hw_rule(4)[of r] by (simp add: clnt_of_def) (simp add: hw_rule_def Read16BitFieldValue_def)

lemma fld_next [fld]:
  "nxt_of (write_half 8 v r) = unat v" "prev_of (write_half 8 v r) = prev_of r" "indx_of (write_half 8 v r) = indx_of r"
  "proto_of (write_half 8 v r) = proto_of r" "enabled_of (write_half 8 v r) = enabled_of r" "clnt_of (write_half 8 v r) = clnt_of r"
  by (simp_all add: read_defs clnt_of_def write_half_def)

lemma fld_flag [fld]:
  "nxt_of (write_half 18 v r) = nxt_of r" "prev_of (write_half 18 v r) = prev_of r" "indx_of (write_half 18 v r) = indx_of r"
  "proto_of (write_half 18 v r) = proto_of r" "clnt_of (write_half 18 v r) = clnt_of r"
  "enabled_of (write_half 18 IPA_NAT_FLAG_ENABLE_BIT_MASK r)" "\<not> enabled_of (write_half 18 IPA_NAT_FLAG_DISABLE_BIT_MASK r)"
proof -
  have "bit (0x8000 :: u16) 15" by code_simp
  then show "enabled_of (write_half 18 IPA_NAT_FLAG_ENABLE_BIT_MASK r)"
    by (simp add: enabled_iff write_half_def IPA_NAT_FLAG_ENABLE_BIT_MASK_def)
  show "\<not> enabled_of (write_half 18 IPA_NAT_FLAG_DISABLE_BIT_MASK r)"
    by (simp add: enabled_iff write_half_def IPA_NAT_FLAG_DISABLE_BIT_MASK_def)
qed (simp_all add: read_defs clnt_of_def write_half_def)

lemma fld_proto [fld]:
  "nxt_of (write_half 22 v r) = nxt_of r" "prev_of (write_half 22 v r) = prev_of r" "indx_of (write_half 22 v r) = indx_of r"
  "enabled_of (write_half 22 v r) = enabled_of r" "proto_of (write_half 22 IPA_NAT_INVALID_PROTO_FIELD_VALUE r) = IPA_NAT_INVALID_PROTO_FIELD_CMP"
proof -
  have "ucast (drop_bit 8 (0xFF00 :: u16)) = (0xFF :: u8)" by code_simp
  then show "proto_of (write_half 22 IPA_NAT_INVALID_PROTO_FIELD_VALUE r) = IPA_NAT_INVALID_PROTO_FIELD_CMP"
    by (simp add: proto_eq write_half_def IPA_NAT_INVALID_PROTO_FIELD_VALUE_def IPA_NAT_INVALID_PROTO_FIELD_CMP_def)
qed (simp_all add: read_defs write_half_def)

lemma sw_update:
  "UpdateSwSpecParams r IPA_NAT_SW_PARAM_PREV_INDX_BYTE (ucast v) = r\<lparr>sw_spec_params := cat16 (hi16 (sw_spec_params r)) v\<rparr>"
  "UpdateSwSpecParams r IPA_NAT_SW_PARAM_INDX_TBL_ENTRY_BYTE (ucast v) = r\<lparr>sw_spec_params := cat16 v (lo16 (sw_spec_params r))\<rparr>"
proof -
  have m: "(0xFFFF :: u32) = mask 16" "(0xFFFF0000 :: u32) = NOT (mask 16)" by code_simp+
  have "(w AND 0xFFFF0000) OR ucast v = cat16 (hi16 w) v" for w :: u32
    unfolding m by (rule bit_word_eqI) (auto simp: cat16_def hi16_def bit_simps)
  moreover have "(w AND 0x0000FFFF) OR push_bit 16 (ucast v) = cat16 v (lo16 w)" for w :: u32
    unfolding m by (rule bit_word_eqI) (auto simp: cat16_def lo16_def bit_simps)
  ultimately show "UpdateSwSpecParams r IPA_NAT_SW_PARAM_PREV_INDX_BYTE (ucast v) = r\<lparr>sw_spec_params := cat16 (hi16 (sw_spec_params r)) v\<rparr>"
    "UpdateSwSpecParams r IPA_NAT_SW_PARAM_INDX_TBL_ENTRY_BYTE (ucast v) = r\<lparr>sw_spec_params := cat16 v (lo16 (sw_spec_params r))\<rparr>"
    by (simp_all add: UpdateSwSpecParams_def IPA_NAT_SW_PARAM_PREV_INDX_BYTE_def IPA_NAT_SW_PARAM_INDX_TBL_ENTRY_BYTE_def)
qed

lemma fld_sw [fld]:
  "nxt_of (r\<lparr>sw_spec_params := w\<rparr>) = nxt_of r" "enabled_of (r\<lparr>sw_spec_params := w\<rparr>) = enabled_of r"
  "proto_of (r\<lparr>sw_spec_params := w\<rparr>) = proto_of r" "clnt_of (r\<lparr>sw_spec_params := w\<rparr>) = clnt_of r"
  "prev_of (r\<lparr>sw_spec_params := cat16 h l\<rparr>) = unat l" "indx_of (r\<lparr>sw_spec_params := cat16 h l\<rparr>) = unat h"
  by (simp_all add: read_defs clnt_of_def)

lemma fld_index [fld]:
  "entry_of (write_index_half 0 v w) = unat v" "next_of (write_index_half 0 v w) = next_of w"
  "next_of (write_index_half 2 v w) = unat v" "entry_of (write_index_half 2 v w) = entry_of w"
  "entry_of (cat16 h l) = unat l" "next_of (cat16 h l) = unat h"
  by (simp_all add: read_defs write_index_half_def)

lemma unat_hi16: "unat (hi16 (sw_spec_params r)) = indx_of r" "unat (lo16 (sw_spec_params r)) = prev_of r"
  by (simp_all add: read_defs)

lemma u16_lt: "unat (w :: u16) < 65536"
  using unsigned_less[of w, where 'a = nat] by simp

lemma u16_of_nat: "n < 65536 \<Longrightarrow> unat (of_nat n :: u16) = n"
  by (simp add: unat_of_nat)

end
