(* ===== verification/Nat_Driver.thy ===== *)
theory Nat_Driver
  imports Nat_Tables
begin

text \<open>
  The operations of the NAT driver library, \<^verbatim>\<open>ipa_nat_drvi.c\<close> and the public functions of \<^verbatim>\<open>ipa_nat_drv.c\<close>, in the order of
  the sources: rule handles, creation and deletion of the table, insertion and deletion of rules. The kernel, the memory
  allocator and the hardware are the record \<open>nat_dev\<close>; their state is \<open>'w\<close>. Memory that is not mapped is the empty list.
  The functions that only print tables are left out.
\<close>

section \<open>State\<close>

definition IPA_NAT_MAX_IP4_TBLS :: nat where "IPA_NAT_MAX_IP4_TBLS = 1"

definition IPA_NAT_INVALID_NAT_ENTRY :: nat where "IPA_NAT_INVALID_NAT_ENTRY = 0"

lemmas const_defs = IPA_NAT_MAX_IP4_TBLS_def IPA_NAT_INVALID_NAT_ENTRY_def

text \<open>\<open>ipv4_rules\<close> is the memory at \<^verbatim>\<open>ipv4_rules_addr\<close> and \<^verbatim>\<open>ipv4_expn_rules_addr\<close>, which follow each other, \<open>index_table\<close> that at
  \<^verbatim>\<open>index_table_addr\<close> and \<^verbatim>\<open>index_table_expn_addr\<close>. The name of the device file is only copied, never read, and left out.\<close>

record ipa_nat_ip4_table_cache =
  valid :: bool
  public_addr :: u32
  nat_fd :: int
  tbl_size :: nat
  tbl_addr_offset :: u32
  table_entries :: nat
  expn_table_entries :: nat
  ipv4_rules :: "ipa_nat_rule list"
  index_table :: "u32 list"
  index_expn_table_meta :: "nat list option"
  rule_id_array :: "nat list option"

record ipa_nat_cache =
  ip4_tbl :: "ipa_nat_ip4_table_cache list"
  ipa_fd :: int
  table_cnt :: nat

definition zero_tbl :: ipa_nat_ip4_table_cache where
  "zero_tbl = \<lparr>valid = False, public_addr = 0, nat_fd = 0, tbl_size = 0, tbl_addr_offset = 0, table_entries = 0, expn_table_entries = 0,
     ipv4_rules = [], index_table = [], index_expn_table_meta = None, rule_id_array = None\<rparr>"

definition ipv4_nat_cache_init :: ipa_nat_cache where
  "ipv4_nat_cache_init = \<lparr>ip4_tbl = replicate IPA_NAT_MAX_IP4_TBLS zero_tbl, ipa_fd = 0, table_cnt = 0\<rparr>"

record ipa_ioc_v4_nat_init =
  init_tbl_index :: nat
  ipv4_rules_offset :: u32
  expn_rules_offset :: u32
  index_offset :: u32
  index_expn_offset :: u32
  init_table_entries :: u16
  init_expn_table_entries :: u16
  init_ip_addr :: u32

text \<open>The contents of mapped memory, entry by entry; a failed \<^verbatim>\<open>mmap\<close> returns \<^verbatim>\<open>MAP_FAILED\<close>, which is not NULL.\<close>

datatype map_result = Mapped "nat \<Rightarrow> ipa_nat_rule" "nat \<Rightarrow> u32" | MapFailed

record 'w nat_dev =
  malloc :: "'w \<Rightarrow> bool \<times> 'w"
  open_ipa :: "'w \<Rightarrow> int \<times> 'w"
  open_nat :: "'w \<Rightarrow> int \<times> 'w"
  close_nat :: "int \<Rightarrow> 'w \<Rightarrow> int \<times> 'w"
  mmap :: "nat \<Rightarrow> 'w \<Rightarrow> map_result \<times> 'w"
  ioctl_alloc_nat_mem :: "nat \<Rightarrow> 'w \<Rightarrow> int \<times> u32 \<times> 'w"
  ioctl_v4_init_nat :: "ipa_ioc_v4_nat_init \<Rightarrow> 'w \<Rightarrow> int \<times> 'w"
  ioctl_v4_del_nat :: "nat \<Rightarrow> u32 \<Rightarrow> 'w \<Rightarrow> int \<times> 'w"
  ioctl_nat_dma :: "ipa_ioc_nat_dma_one list \<Rightarrow> nat_mem \<Rightarrow> 'w \<Rightarrow> int \<times> nat_mem \<times> 'w"

text \<open>Access to the arrays: \<open>expn\<close> selects the expansion part.\<close>

definition get_tbl :: "ipa_nat_cache \<Rightarrow> nat \<Rightarrow> fault + ipa_nat_ip4_table_cache" where
  "get_tbl s i = (if i < length (ip4_tbl s) then Inr (ip4_tbl s ! i) else Inl OutOfBounds)"

definition set_tbl :: "ipa_nat_cache \<Rightarrow> nat \<Rightarrow> ipa_nat_ip4_table_cache \<Rightarrow> ipa_nat_cache" where
  "set_tbl s i c = s\<lparr>ip4_tbl := (ip4_tbl s)[i := c]\<rparr>"

definition tbl_pos :: "ipa_nat_ip4_table_cache \<Rightarrow> bool \<Rightarrow> nat \<Rightarrow> 'a list \<Rightarrow> fault + nat" where
  "tbl_pos c expn i mem =
     (let p = (if expn then table_entries c + i else i)
      in if p < length mem then (if i < (if expn then expn_table_entries c else table_entries c) then Inr p else Inl OutOfBounds)
         else Inl (if mem = [] then NullDeref else OutOfBounds))"

definition read_rule :: "ipa_nat_ip4_table_cache \<Rightarrow> bool \<Rightarrow> nat \<Rightarrow> fault + ipa_nat_rule" where
  "read_rule c expn i = bnd (tbl_pos c expn i (ipv4_rules c)) (\<lambda>p. Inr (ipv4_rules c ! p))"

definition write_rule :: "ipa_nat_ip4_table_cache \<Rightarrow> bool \<Rightarrow> nat \<Rightarrow> ipa_nat_rule \<Rightarrow> fault + ipa_nat_ip4_table_cache" where
  "write_rule c expn i r = bnd (tbl_pos c expn i (ipv4_rules c)) (\<lambda>p. Inr (c\<lparr>ipv4_rules := (ipv4_rules c)[p := r]\<rparr>))"

definition read_index :: "ipa_nat_ip4_table_cache \<Rightarrow> bool \<Rightarrow> nat \<Rightarrow> fault + u32" where
  "read_index c expn i = bnd (tbl_pos c expn i (index_table c)) (\<lambda>p. Inr (index_table c ! p))"

definition write_index :: "ipa_nat_ip4_table_cache \<Rightarrow> bool \<Rightarrow> nat \<Rightarrow> u32 \<Rightarrow> fault + ipa_nat_ip4_table_cache" where
  "write_index c expn i w = bnd (tbl_pos c expn i (index_table c)) (\<lambda>p. Inr (c\<lparr>index_table := (index_table c)[p := w]\<rparr>))"

definition array_at :: "nat list option \<Rightarrow> nat \<Rightarrow> fault + nat" where
  "array_at a i = (case a of None \<Rightarrow> Inl NullDeref | Some xs \<Rightarrow> if i < length xs then Inr (xs ! i) else Inl OutOfBounds)"

definition array_set :: "nat list option \<Rightarrow> nat \<Rightarrow> nat \<Rightarrow> fault + nat list option" where
  "array_set a i v = (case a of None \<Rightarrow> Inl NullDeref | Some xs \<Rightarrow> if i < length xs then Inr (Some (xs[i := v])) else Inl OutOfBounds)"

definition write_meta :: "ipa_nat_ip4_table_cache \<Rightarrow> nat \<Rightarrow> nat \<Rightarrow> fault + ipa_nat_ip4_table_cache" where
  "write_meta c i v = bnd (array_set (index_expn_table_meta c) i v) (\<lambda>m. Inr (c\<lparr>index_expn_table_meta := m\<rparr>))"

definition post_dma :: "'w nat_dev \<Rightarrow> ipa_ioc_nat_dma_one list \<Rightarrow> ipa_nat_ip4_table_cache \<times> 'w \<Rightarrow> int \<times> ipa_nat_ip4_table_cache \<times> 'w" where
  "post_dma dev cmds s =
     (case s of (c, w) \<Rightarrow> (case ioctl_nat_dma dev cmds (ipv4_rules c, index_table c) w of
        (ret, (rs, is), w') \<Rightarrow> (ret, c\<lparr>ipv4_rules := rs, index_table := is\<rparr>, w')))"

section \<open>Handles and offsets\<close>

definition ipa_nati_make_rule_hdl :: "ipa_nat_ip4_table_cache \<Rightarrow> nat \<Rightarrow> fault + nat \<times> ipa_nat_ip4_table_cache" where
  "ipa_nati_make_rule_hdl c tbl_entry =
     (let hdl = (if table_entries c \<le> tbl_entry then (tbl_entry - table_entries c) * 2 mod 2 ^ 16 + 1 else tbl_entry * 2 mod 2 ^ 16);
          n = table_entries c + expn_table_entries c
      in case rule_id_array c of
           None \<Rightarrow> if n = 0 then Inr (0, c) else Inl NullDeref
         | Some ids \<Rightarrow> (case find_slot (\<lambda>x. x = IPA_NAT_INVALID_NAT_ENTRY) (take n ids) of
              Some cnt \<Rightarrow> Inr ((cnt + 1) mod 2 ^ 16, c\<lparr>rule_id_array := Some (ids[cnt := hdl])\<rparr>)
            | None \<Rightarrow> if length ids < n then Inl OutOfBounds else Inr (0, c)))"

definition ipa_nati_parse_ipv4_rule_hdl :: "ipa_nat_ip4_table_cache \<Rightarrow> nat \<Rightarrow> fault + bool \<times> nat" where
  "ipa_nati_parse_ipv4_rule_hdl c hdl =
     (if table_entries c + expn_table_entries c \<le> hdl then Inr (False, IPA_NAT_INVALID_NAT_ENTRY)
      else if hdl = 0 then Inl OutOfBounds
      else bnd (array_at (rule_id_array c) (hdl - 1)) (\<lambda>rule_id. Inr (odd rule_id, rule_id div 2)))"

definition ipa_nati_get_entry_offset :: "ipa_nat_ip4_table_cache \<Rightarrow> nat_table_type \<Rightarrow> nat \<Rightarrow> u32" where
  "ipa_nati_get_entry_offset cache_ptr tbl_type tbl_entry = of_nat (IPA_NAT_TABLE_ENTRY_SIZE * tbl_entry) + tbl_addr_offset cache_ptr"

definition ipa_nati_get_index_entry_offset :: "ipa_nat_ip4_table_cache \<Rightarrow> nat_table_type \<Rightarrow> nat \<Rightarrow> u32" where
  "ipa_nati_get_index_entry_offset cache_ptr tbl_type indx_tbl_entry =
     of_nat (IPA_NAT_INDEX_TABLE_ENTRY_SIZE * indx_tbl_entry) + tbl_addr_offset cache_ptr"

section \<open>The table\<close>

definition ipa_nati_reset_tbl :: "ipa_nat_ip4_table_cache \<Rightarrow> fault + ipa_nat_ip4_table_cache" where
  "ipa_nati_reset_tbl c =
     (let n = table_entries c + expn_table_entries c
      in if length (ipv4_rules c) < n \<or> length (index_table c) < n then Inl NullDeref
         else Inr (c\<lparr>ipv4_rules := replicate n zero_rule @ drop n (ipv4_rules c), index_table := replicate n 0 @ drop n (index_table c)\<rparr>))"

text \<open>The result of \<open>ipa_nati_alloc_table\<close>: the return value, and size and offset of the memory and the two numbers of entries,
  which matter when it is 0. The factors \<^verbatim>\<open>.8\<close> and \<^verbatim>\<open>.2\<close> of the source are slightly above four and one fifth in binary, so
  that the truncated product is the integer quotient.\<close>

definition CreateNatDevice :: "'w nat_dev \<Rightarrow> nat \<Rightarrow> 'w \<Rightarrow> int \<times> u32 \<times> 'w" where
  "CreateNatDevice dev sz w =
     (case ioctl_alloc_nat_mem dev sz w of (ret, off, w') \<Rightarrow> if ret \<noteq> 0 then (- EINVAL, off, w') else (0, off, w'))"

definition ipa_nati_alloc_table :: "'w nat_dev \<Rightarrow> u16 \<Rightarrow> ipa_nat_cache \<times> 'w \<Rightarrow>
    fault + int \<times> (nat \<times> u32 \<times> nat \<times> nat) \<times> ipa_nat_cache \<times> 'w" where
  "ipa_nati_alloc_table dev number_of_entries s =
     (case s of (ca, w) \<Rightarrow>
      (let tentries = unat number_of_entries * 4 div 5;
           tentries = (if tentries = 0 then 1 else tentries)
       in bnd (GetNearest2Power tentries) (\<lambda>(r, tentries).
          if r \<noteq> 0 then Inr (- EINVAL, (0, 0, 0, 0), ca, w)
          else
          let eentries = GetNearestEven (unat number_of_entries div 5);
              total_entries = (tentries + eentries) mod 2 ^ 16;
              sz = IPA_NAT_TABLE_ENTRY_SIZE * total_entries + IPA_NAT_INDEX_TABLE_ENTRY_SIZE * total_entries;
              create = (\<lambda>(ca, w). case CreateNatDevice dev sz w of (ret, off, w') \<Rightarrow> Inr (ret, (sz, off, tentries, eentries), ca, w'))
          in if ipa_fd ca = 0
             then (case open_ipa dev w of (fd, w1) \<Rightarrow>
                     if fd < 0 then Inr (- EIO, (0, 0, 0, 0), ca, w1) else create (ca\<lparr>ipa_fd := fd\<rparr>, w1))
             else create (ca, w))))"

text \<open>\<open>ipa_nati_update_cache\<close> allocates the two arrays unless they are there from an earlier call, and returns 0 when the
  allocation fails.\<close>

definition alloc_array :: "'w nat_dev \<Rightarrow> nat \<Rightarrow> nat list option \<Rightarrow> 'w \<Rightarrow> nat list option \<times> 'w" where
  "alloc_array dev n a w =
     (case a of
        Some xs \<Rightarrow> (Some xs, w)
      | None \<Rightarrow> (case malloc dev w of (ok, w') \<Rightarrow> (if ok then Some (replicate n 0) else None, w')))"

definition ipa_nati_update_cache :: "'w nat_dev \<Rightarrow> nat \<Rightarrow> u32 \<Rightarrow> u32 \<Rightarrow> nat \<Rightarrow> nat \<Rightarrow> ipa_nat_ip4_table_cache \<times> 'w \<Rightarrow>
    int \<times> ipa_nat_ip4_table_cache \<times> 'w" where
  "ipa_nati_update_cache dev sz off addr tbl_entries expn_tbl_entries s =
     (case s of (c, w) \<Rightarrow>
      (let c1 = c\<lparr>valid := True, public_addr := addr, tbl_size := sz, tbl_addr_offset := off,
                  table_entries := tbl_entries, expn_table_entries := expn_tbl_entries\<rparr>
       in case alloc_array dev expn_tbl_entries (index_expn_table_meta c1) w of (m, w1) \<Rightarrow>
          let c2 = c1\<lparr>index_expn_table_meta := m\<rparr>
          in if m = None then (0, c2, w1)
          else case alloc_array dev (tbl_entries + expn_tbl_entries) (rule_id_array c2) w1 of (a, w2) \<Rightarrow>
          let c3 = c2\<lparr>rule_id_array := a\<rparr>
          in if a = None then (0, c3, w2)
          else case open_nat dev w2 of (fd, w3) \<Rightarrow>
          if fd < 0 then (- EIO, c3, w3)
          else let c4 = c3\<lparr>nat_fd := fd\<rparr>
          in case mmap dev sz w3 of
            (Mapped rs is, w4) \<Rightarrow> (0, c4\<lparr>ipv4_rules := map rs [0..<tbl_entries + expn_tbl_entries],
                                      index_table := map is [0..<tbl_entries + expn_tbl_entries]\<rparr>, w4)
          | (MapFailed, w4) \<Rightarrow> (0, c4\<lparr>ipv4_rules := [], index_table := []\<rparr>, w4)))"

definition ipa_nati_post_ipv4_init_cmd :: "'w nat_dev \<Rightarrow> nat \<Rightarrow> ipa_nat_ip4_table_cache \<Rightarrow> 'w \<Rightarrow> int \<times> 'w" where
  "ipa_nati_post_ipv4_init_cmd dev tbl_index c w =
     (let off = tbl_addr_offset c;
          expn_off = off + of_nat (table_entries c * IPA_NAT_TABLE_ENTRY_SIZE);
          index_off = expn_off + of_nat (expn_table_entries c * IPA_NAT_TABLE_ENTRY_SIZE);
          cmd = \<lparr>init_tbl_index = tbl_index, ipv4_rules_offset = off, expn_rules_offset = expn_off, index_offset = index_off,
            index_expn_offset = index_off + of_nat (table_entries c * IPA_NAT_INDEX_TABLE_ENTRY_SIZE),
            init_table_entries = of_nat (table_entries c) - 1, init_expn_table_entries = of_nat (expn_table_entries c),
            init_ip_addr = public_addr c\<rparr>
      in case ioctl_v4_init_nat dev cmd w of (ret, w') \<Rightarrow> (if ret \<noteq> 0 then - EINVAL else 0, w'))"

definition ipa_nati_add_ipv4_tbl :: "'w nat_dev \<Rightarrow> u32 \<Rightarrow> u16 \<Rightarrow> ipa_nat_cache \<times> 'w \<Rightarrow> fault + int \<times> u32 \<times> ipa_nat_cache \<times> 'w" where
  "ipa_nati_add_ipv4_tbl dev public_ip_addr number_of_entries s =
     (let tbl_indx = table_cnt (fst s)
      in bnd (ipa_nati_alloc_table dev number_of_entries s) (\<lambda>(ret, (sz, off, tentries, eentries), ca, w).
         if ret \<noteq> 0 then Inr (- ENOMEM, 0, ca, w)
         else bnd (get_tbl ca tbl_indx) (\<lambda>c.
         case ipa_nati_update_cache dev sz off public_ip_addr tentries eentries (c, w) of (ret, c1, w1) \<Rightarrow>
         if ret \<noteq> 0 then Inr (- EINVAL, 0, set_tbl ca tbl_indx c1, w1)
         else bnd (ipa_nati_reset_tbl c1) (\<lambda>c2.
         case ipa_nati_post_ipv4_init_cmd dev tbl_indx c2 w1 of (ret, w2) \<Rightarrow>
         if ret \<noteq> 0 then Inr (- EINVAL, 0, set_tbl ca tbl_indx c2, w2)
         else let cnt = (table_cnt ca + 1) mod 2 ^ 8
              in Inr (0, of_nat cnt, (set_tbl ca tbl_indx c2)\<lparr>table_cnt := cnt\<rparr>, w2)))))"

definition ipa_nati_del_ipv4_table :: "'w nat_dev \<Rightarrow> u32 \<Rightarrow> ipa_nat_cache \<times> 'w \<Rightarrow> fault + int \<times> ipa_nat_cache \<times> 'w" where
  "ipa_nati_del_ipv4_table dev tbl_hdl s =
     (case s of (ca, w) \<Rightarrow>
      (let index = unat (ucast (tbl_hdl - 1) :: u8)
       in bnd (get_tbl ca index) (\<lambda>c.
          if \<not> valid c then Inr (- EINVAL, ca, w)
          else let unmapped = set_tbl ca index (c\<lparr>ipv4_rules := [], index_table := []\<rparr>)
          in case close_nat dev (nat_fd c) w of (r, w1) \<Rightarrow>
          if r \<noteq> 0 then Inr (- EINVAL, unmapped, w1)
          else case ioctl_v4_del_nat dev index (public_addr c) w1 of (r, w2) \<Rightarrow>
          if r \<noteq> 0 then Inr (- EINVAL, unmapped, w2)
          else Inr (0, (set_tbl ca index zero_tbl)\<lparr>table_cnt := (table_cnt ca + 2 ^ 8 - 1) mod 2 ^ 8\<rparr>, w2))))"

definition ipa_nati_query_timestamp :: "u32 \<Rightarrow> u32 \<Rightarrow> u32 \<Rightarrow> ipa_nat_cache \<Rightarrow> fault + int \<times> u32" where
  "ipa_nati_query_timestamp tbl_hdl hdl time_stamp ca =
     bnd (get_tbl ca (unat (ucast (tbl_hdl - 1) :: u8))) (\<lambda>c.
     if \<not> valid c then Inr (- EINVAL, time_stamp)
     else bnd (ipa_nati_parse_ipv4_rule_hdl c (unat (ucast hdl :: u16))) (\<lambda>(expn_tbl, tbl_entry).
     bnd (read_rule c expn_tbl tbl_entry) (\<lambda>r. Inr (0, Read32BitFieldValue (ts_proto r) TIME_STAMP_FIELD))))"

section \<open>Insertion\<close>

text \<open>The loop that looks for a free entry of an expansion table; \<open>used\<close> reads an entry.\<close>

fun free_loop :: "(nat \<Rightarrow> fault + bool) \<Rightarrow> nat list \<Rightarrow> fault + nat" where
  "free_loop used [] = Inr 0"
| "free_loop used (cnt # cnts) = bnd (used cnt) (\<lambda>u. if u then free_loop used cnts else Inr cnt)"

definition ipa_nati_expn_tbl_free_entry :: "ipa_nat_ip4_table_cache \<Rightarrow> fault + nat" where
  "ipa_nati_expn_tbl_free_entry c =
     free_loop (\<lambda>cnt. bnd (read_rule c True cnt) (\<lambda>r. Inr (enabled_of r))) [1..<expn_table_entries c]"

definition ipa_nati_index_expn_get_free_entry :: "ipa_nat_ip4_table_cache \<Rightarrow> fault + nat" where
  "ipa_nati_index_expn_get_free_entry c =
     free_loop (\<lambda>cnt. bnd (read_index c True cnt) (\<lambda>w. Inr (entry_of w \<noteq> 0))) [1..<expn_table_entries c]"

text \<open>The part of \<open>ipa_nati_generate_tbl_rule\<close> that fills in the software rule.\<close>

definition fill_sw_rule :: "u32 \<Rightarrow> ipa_nat_ipv4_rule \<Rightarrow> ipa_nat_sw_rule \<Rightarrow> ipa_nat_sw_rule" where
  "fill_sw_rule pub_ip clnt_rule sw_rule =
     (let sw_rule = sw_rule\<lparr>sw_private_ip := r_private_ip clnt_rule, sw_private_port := r_private_port clnt_rule,
            sw_protocol := r_protocol clnt_rule, sw_public_port := r_public_port clnt_rule,
            sw_target_ip := r_target_ip clnt_rule, sw_target_port := r_target_port clnt_rule,
            sw_ip_chksum := ipa_nati_calc_ip_cksum pub_ip (r_private_ip clnt_rule)\<rparr>;
          sw_rule = (if sw_protocol sw_rule = IPPROTO_TCP \<or> sw_protocol sw_rule = IPPROTO_UDP
            then sw_rule\<lparr>sw_tcp_udp_chksum := ipa_nati_calc_tcp_udp_cksum pub_ip (r_public_port clnt_rule)
              (r_private_ip clnt_rule) (r_private_port clnt_rule)\<rparr>
            else sw_rule)
      in sw_rule\<lparr>sw_rsvd1 := 0, sw_enable := 0, sw_next_index := 0, sw_time_stamp := 0, sw_rsvd2 := 0,
            sw_prev_index := 0, sw_indx_tbl_entry := 0\<rparr>)"

definition ipa_nati_generate_tbl_rule ::
  "ipa_nat_ipv4_rule \<Rightarrow> ipa_nat_sw_rule \<Rightarrow> ipa_nat_ip4_table_cache \<Rightarrow> fault + nat \<times> ipa_nat_sw_rule" where
  "ipa_nati_generate_tbl_rule clnt_rule sw_rule tbl_ptr =
     (let T = table_entries tbl_ptr;
          sw_rule = fill_sw_rule (public_addr tbl_ptr) clnt_rule sw_rule;
          new_entry = unat (dst_hash (r_target_ip clnt_rule) (r_target_port clnt_rule) (r_public_port clnt_rule)
            (r_protocol clnt_rule) (of_nat T - 1))
      in bnd (read_rule tbl_ptr False new_entry) (\<lambda>r.
         if \<not> enabled_of r then Inr (new_entry, sw_rule\<lparr>sw_prev_index := 0\<rparr>)
         else bnd (if nxt_of r = IPA_NAT_INVALID_NAT_ENTRY then Inr (Some new_entry)
                   else find_last (\<lambda>i. bnd (read_rule tbl_ptr True i) (\<lambda>r. Inr (nxt_of r))) T (2 ^ 16) 0 (nxt_of r)) (\<lambda>prev.
         case prev of
           None \<Rightarrow> Inr (IPA_NAT_INVALID_NAT_ENTRY, sw_rule)
         | Some prev \<Rightarrow>
             bnd (ipa_nati_expn_tbl_free_entry tbl_ptr) (\<lambda>new_entry.
             if new_entry = IPA_NAT_INVALID_NAT_ENTRY then Inr (IPA_NAT_INVALID_NAT_ENTRY, sw_rule\<lparr>sw_prev_index := of_nat prev\<rparr>)
             else Inr ((new_entry + T) mod 2 ^ 16, sw_rule\<lparr>sw_prev_index := of_nat prev\<rparr>)))))"

definition ipa_nati_generate_index_rule ::
  "ipa_nat_ipv4_rule \<Rightarrow> ipa_nat_indx_tbl_sw_rule \<Rightarrow> ipa_nat_ip4_table_cache \<Rightarrow> fault + nat \<times> ipa_nat_indx_tbl_sw_rule" where
  "ipa_nati_generate_index_rule clnt_rule sw_rule tbl_ptr =
     (let T = table_entries tbl_ptr;
          new_entry = unat (src_hash (r_private_ip clnt_rule) (r_private_port clnt_rule) (r_target_ip clnt_rule)
            (r_target_port clnt_rule) (r_protocol clnt_rule) (of_nat T - 1))
      in bnd (read_index tbl_ptr False new_entry) (\<lambda>w.
         if entry_of w = 0 then Inr (new_entry, sw_rule\<lparr>isw_prev_index := 0\<rparr>)
         else bnd (if next_of w = IPA_NAT_INVALID_NAT_ENTRY then Inr (Some new_entry)
                   else find_last (\<lambda>i. bnd (read_index tbl_ptr True i) (\<lambda>w. Inr (next_of w))) T (2 ^ 16) 0 (next_of w)) (\<lambda>prev.
         case prev of
           None \<Rightarrow> Inr (IPA_NAT_INVALID_NAT_ENTRY, sw_rule)
         | Some prev \<Rightarrow>
             bnd (ipa_nati_index_expn_get_free_entry tbl_ptr) (\<lambda>new_entry.
             let sw_rule = sw_rule\<lparr>isw_prev_index := of_nat prev\<rparr>
             in if new_entry = IPA_NAT_INVALID_NAT_ENTRY then Inr (IPA_NAT_INVALID_NAT_ENTRY, sw_rule)
                else let new_entry = (new_entry + T) mod 2 ^ 16
                in if unat (isw_prev_index sw_rule) = new_entry then Inr (IPA_NAT_INVALID_NAT_ENTRY, sw_rule)
                   else Inr (new_entry, sw_rule)))))"

text \<open>Return value, the two rules, their entries, and the table, whose list of previous index entries is changed.\<close>

definition ipa_nati_generate_rule :: "ipa_nat_ipv4_rule \<Rightarrow> ipa_nat_ip4_table_cache \<Rightarrow>
    fault + int \<times> (ipa_nat_sw_rule \<times> nat) \<times> (ipa_nat_indx_tbl_sw_rule \<times> nat) \<times> ipa_nat_ip4_table_cache" where
  "ipa_nati_generate_rule clnt_rule tbl_ptr =
     (let index_sw_rule = \<lparr>isw_tbl_entry = 0, isw_next_index = 0, isw_prev_index = 0\<rparr>
      in bnd (ipa_nati_generate_tbl_rule clnt_rule zero_sw_rule tbl_ptr) (\<lambda>(tbl_entry, rule).
         if tbl_entry = IPA_NAT_INVALID_NAT_ENTRY then Inr (- EINVAL, (rule, 0), (index_sw_rule, 0), tbl_ptr)
         else bnd (ipa_nati_generate_index_rule clnt_rule (index_sw_rule\<lparr>isw_tbl_entry := of_nat tbl_entry\<rparr>) tbl_ptr)
           (\<lambda>(indx_tbl_entry, index_sw_rule).
         if indx_tbl_entry = IPA_NAT_INVALID_NAT_ENTRY then Inr (- EINVAL, (rule, 0), (index_sw_rule, 0), tbl_ptr)
         else let rule = rule\<lparr>sw_indx_tbl_entry := of_nat indx_tbl_entry\<rparr>
         in bnd (if table_entries tbl_ptr \<le> indx_tbl_entry
                 then write_meta tbl_ptr (indx_tbl_entry - table_entries tbl_ptr) (unat (isw_prev_index index_sw_rule))
                 else Inr tbl_ptr)
              (\<lambda>tbl_ptr. Inr (0, (rule, tbl_entry), (index_sw_rule, indx_tbl_entry), tbl_ptr)))))"

definition ipa_nati_write_next_index :: "'w nat_dev \<Rightarrow> nat \<Rightarrow> nat_table_type \<Rightarrow> nat \<Rightarrow> u32 \<Rightarrow>
    ipa_nat_ip4_table_cache \<times> 'w \<Rightarrow> ipa_nat_ip4_table_cache \<times> 'w" where
  "ipa_nati_write_next_index dev tbl_indx tbl_type value off s =
     (case s of (c, w) \<Rightarrow> (case malloc dev w of (ok, w1) \<Rightarrow>
        if \<not> ok then (c, w1)
        else snd (post_dma dev [\<lparr>table_index = tbl_indx, base_addr = tbl_type, dma_offset = off, dma_data = of_nat value\<rparr>] (c, w1))))"

definition ipa_nati_copy_ipv4_rule_to_hw :: "'w nat_dev \<Rightarrow> ipa_nat_sw_rule \<Rightarrow> nat \<Rightarrow> nat \<Rightarrow>
    ipa_nat_ip4_table_cache \<times> 'w \<Rightarrow> fault + ipa_nat_ip4_table_cache \<times> 'w" where
  "ipa_nati_copy_ipv4_rule_to_hw dev rule ent tbl_index s =
     (case s of (c, w) \<Rightarrow>
      (let T = table_entries c; prev_entry = unat (sw_prev_index rule)
       in bnd (if ent < T then write_rule c False ent (hw_rule rule) else write_rule c True (ent - T) (hw_rule rule)) (\<lambda>c.
          if prev_entry \<noteq> IPA_NAT_INVALID_NAT_ENTRY
          then let (tbl_type, prev_entry) = (if prev_entry < T then (IPA_NAT_BASE_TBL, prev_entry) else (IPA_NAT_EXPN_TBL, prev_entry - T));
                   off = ipa_nati_get_entry_offset c tbl_type prev_entry + IPA_NAT_RULE_NEXT_FIELD_OFFSET
               in Inr (ipa_nati_write_next_index dev tbl_index tbl_type ent off (c, w))
          else Inr (c, w))))"

text \<open>Here the variable \<^verbatim>\<open>offset\<close> has 16 bits.\<close>

definition ipa_nati_copy_ipv4_index_rule_to_hw :: "'w nat_dev \<Rightarrow> ipa_nat_indx_tbl_sw_rule \<Rightarrow> nat \<Rightarrow> nat \<Rightarrow>
    ipa_nat_ip4_table_cache \<times> 'w \<Rightarrow> fault + ipa_nat_ip4_table_cache \<times> 'w" where
  "ipa_nati_copy_ipv4_index_rule_to_hw dev indx_sw_rule ent tbl_index s =
     (case s of (c, w) \<Rightarrow>
      (let T = table_entries c; prev_entry = unat (isw_prev_index indx_sw_rule);
           sw_rule = cat16 (isw_next_index indx_sw_rule) (isw_tbl_entry indx_sw_rule)
       in bnd (if ent < T then write_index c False ent sw_rule else write_index c True (ent - T) sw_rule) (\<lambda>c.
          if prev_entry \<noteq> IPA_NAT_INVALID_NAT_ENTRY
          then let (tbl_type, prev_entry) =
                     (if prev_entry < T then (IPA_NAT_INDX_TBL, prev_entry) else (IPA_NAT_INDEX_EXPN_TBL, prev_entry - T));
                   off = ucast (ipa_nati_get_index_entry_offset c tbl_type prev_entry) :: u16;
                   off = off + ucast IPA_NAT_INDEX_RULE_NEXT_FIELD_OFFSET
               in Inr (ipa_nati_write_next_index dev tbl_index tbl_type ent (ucast off) (c, w))
          else Inr (c, w))))"

definition ipa_nati_post_ipv4_dma_cmd :: "'w nat_dev \<Rightarrow> nat \<Rightarrow> nat \<Rightarrow> ipa_nat_ip4_table_cache \<times> 'w \<Rightarrow>
    int \<times> ipa_nat_ip4_table_cache \<times> 'w" where
  "ipa_nati_post_ipv4_dma_cmd dev tbl_indx ent s =
     (case s of (c, w) \<Rightarrow> (case malloc dev w of (ok, w1) \<Rightarrow>
        if \<not> ok then (- ENOMEM, c, w1)
        else let cmd = (if ent < table_entries c
                   then \<lparr>table_index = tbl_indx, base_addr = IPA_NAT_BASE_TBL,
                     dma_offset = of_nat (IPA_NAT_TABLE_ENTRY_SIZE * ent) + IPA_NAT_RULE_FLAG_FIELD_OFFSET,
                     dma_data = IPA_NAT_FLAG_ENABLE_BIT_MASK\<rparr>
                   else \<lparr>table_index = tbl_indx, base_addr = IPA_NAT_EXPN_TBL,
                     dma_offset = of_nat (IPA_NAT_TABLE_ENTRY_SIZE * (ent - table_entries c)) + IPA_NAT_RULE_FLAG_FIELD_OFFSET +
                       tbl_addr_offset c,
                     dma_data = IPA_NAT_FLAG_ENABLE_BIT_MASK\<rparr>)
             in case post_dma dev [cmd] (c, w1) of (ret, s') \<Rightarrow> (if ret \<noteq> 0 then - EIO else 0, s')))"

definition ipa_nati_add_ipv4_rule :: "'w nat_dev \<Rightarrow> u32 \<Rightarrow> ipa_nat_ipv4_rule \<Rightarrow> u32 \<Rightarrow> ipa_nat_cache \<times> 'w \<Rightarrow>
    fault + int \<times> u32 \<times> ipa_nat_cache \<times> 'w" where
  "ipa_nati_add_ipv4_rule dev tbl_hdl clnt_rule hdl s =
     (case s of (ca, w) \<Rightarrow>
      (let ti = unat (tbl_hdl - 1); tbl_index = unat (ucast (tbl_hdl - 1) :: u8)
       in bnd (get_tbl ca ti) (\<lambda>tbl_ptr.
          bnd (ipa_nati_generate_rule clnt_rule tbl_ptr) (\<lambda>(ret, (sw_rule, new_entry), (index_sw_rule, new_index_tbl_entry), tbl_ptr).
          if ret \<noteq> 0 then Inr (- EINVAL, hdl, set_tbl ca ti tbl_ptr, w)
          else bnd (ipa_nati_copy_ipv4_rule_to_hw dev sw_rule new_entry tbl_index (tbl_ptr, w)) (\<lambda>(tbl_ptr, w).
          bnd (ipa_nati_copy_ipv4_index_rule_to_hw dev index_sw_rule new_index_tbl_entry tbl_index (tbl_ptr, w)) (\<lambda>(tbl_ptr, w).
          case ipa_nati_post_ipv4_dma_cmd dev tbl_index new_entry (tbl_ptr, w) of (ret, tbl_ptr, w) \<Rightarrow>
          if ret \<noteq> 0 then Inr (- EIO, hdl, set_tbl ca ti tbl_ptr, w)
          else bnd (ipa_nati_make_rule_hdl tbl_ptr new_entry) (\<lambda>(h, tbl_ptr).
          if h = 0 then Inr (- EINVAL, 0, set_tbl ca ti tbl_ptr, w)
          else Inr (0, of_nat h, set_tbl ca ti tbl_ptr, w))))))))"

section \<open>Deletion\<close>

definition ReorderCmds :: "'w nat_dev \<Rightarrow> ipa_ioc_nat_dma_one list \<Rightarrow> 'w \<Rightarrow> ipa_ioc_nat_dma_one list \<times> 'w" where
  "ReorderCmds dev cmds w =
     (case find_slot (\<lambda>cmd. base_addr cmd = IPA_NAT_INDX_TBL \<or> base_addr cmd = IPA_NAT_INDEX_EXPN_TBL) cmds of
        None \<Rightarrow> (cmds, w)
      | Some indx_tbl_start \<Rightarrow>
          if indx_tbl_start = 0 then (cmds, w)
          else case malloc dev w of (ok, w') \<Rightarrow>
            (if ok then drop indx_tbl_start cmds @ take indx_tbl_start cmds else cmds, w'))"

definition ipa_nati_find_index_rule_pos :: "ipa_nat_ip4_table_cache \<Rightarrow> nat \<Rightarrow> fault + del_type" where
  "ipa_nati_find_index_rule_pos c tbl_entry =
     (if table_entries c \<le> tbl_entry
      then bnd (read_index c True (tbl_entry - table_entries c)) (\<lambda>w.
             Inr (if next_of w = IPA_NAT_INVALID_NAT_ENTRY then IPA_NAT_DEL_TYPE_LAST else IPA_NAT_DEL_TYPE_MIDDLE))
      else bnd (read_index c False tbl_entry) (\<lambda>w.
             Inr (if next_of w = IPA_NAT_INVALID_NAT_ENTRY then IPA_NAT_DEL_TYPE_ONLY_ONE else IPA_NAT_DEL_TYPE_HEAD)))"

definition ipa_nati_find_rule_pos :: "ipa_nat_ip4_table_cache \<Rightarrow> bool \<Rightarrow> nat \<Rightarrow> fault + del_type" where
  "ipa_nati_find_rule_pos c expn_tbl tbl_entry =
     (if expn_tbl
      then bnd (read_rule c True tbl_entry) (\<lambda>r.
             Inr (if nxt_of r = IPA_NAT_INVALID_NAT_ENTRY then IPA_NAT_DEL_TYPE_LAST else IPA_NAT_DEL_TYPE_MIDDLE))
      else bnd (read_rule c False tbl_entry) (\<lambda>r.
             Inr (if nxt_of r = IPA_NAT_INVALID_NAT_ENTRY then IPA_NAT_DEL_TYPE_ONLY_ONE else IPA_NAT_DEL_TYPE_HEAD)))"

text \<open>The first command of a deletion, for the entry \<open>r\<close> at \<open>cur_tbl_entry\<close>.\<close>

definition del_rule_cmd :: "ipa_nat_ip4_table_cache \<Rightarrow> nat \<Rightarrow> nat \<Rightarrow> ipa_nat_rule \<Rightarrow> del_type \<Rightarrow> ipa_ioc_nat_dma_one" where
  "del_rule_cmd c tbl_indx cur_tbl_entry r rule_pos =
     (let prev_entry = prev_of r;
          (prev_tbl, prev_entry) = (if table_entries c \<le> prev_entry then (IPA_NAT_EXPN_TBL, prev_entry - table_entries c)
                                    else (IPA_NAT_BASE_TBL, prev_entry));
          prev_next = ipa_nati_get_entry_offset c prev_tbl prev_entry + IPA_NAT_RULE_NEXT_FIELD_OFFSET;
          cur = ipa_nati_get_entry_offset c IPA_NAT_BASE_TBL cur_tbl_entry
      in case rule_pos of
           IPA_NAT_DEL_TYPE_ONLY_ONE \<Rightarrow> \<lparr>table_index = tbl_indx, base_addr = IPA_NAT_BASE_TBL,
             dma_offset = cur + IPA_NAT_RULE_FLAG_FIELD_OFFSET, dma_data = IPA_NAT_FLAG_DISABLE_BIT_MASK\<rparr>
         | IPA_NAT_DEL_TYPE_HEAD \<Rightarrow> \<lparr>table_index = tbl_indx, base_addr = IPA_NAT_BASE_TBL,
             dma_offset = cur + IPA_NAT_RULE_PROTO_FIELD_OFFSET, dma_data = IPA_NAT_INVALID_PROTO_FIELD_VALUE\<rparr>
         | IPA_NAT_DEL_TYPE_MIDDLE \<Rightarrow> \<lparr>table_index = tbl_indx, base_addr = prev_tbl,
             dma_offset = prev_next, dma_data = of_nat (nxt_of r)\<rparr>
         | IPA_NAT_DEL_TYPE_LAST \<Rightarrow> \<lparr>table_index = tbl_indx, base_addr = prev_tbl,
             dma_offset = prev_next, dma_data = of_nat IPA_NAT_INVALID_NAT_ENTRY\<rparr>)"

text \<open>The commands for the index table; \<open>indx_tbl_entry\<close> is an index into the base or the expansion part, as \<open>expn\<close> says.\<close>

definition del_index_cmds :: "ipa_nat_ip4_table_cache \<Rightarrow> nat \<Rightarrow> bool \<Rightarrow> nat \<Rightarrow> del_type \<Rightarrow> fault + ipa_ioc_nat_dma_one list" where
  "del_index_cmds c tbl_indx expn indx_tbl_entry indx_rule_pos =
     (let cur = ipa_nati_get_index_entry_offset c IPA_NAT_INDX_TBL indx_tbl_entry;
          prev_cmd = (\<lambda>v. bnd (array_at (index_expn_table_meta c) indx_tbl_entry) (\<lambda>prev_entry.
            let (prev_tbl, prev_entry) = (if table_entries c \<le> prev_entry then (IPA_NAT_INDEX_EXPN_TBL, prev_entry - table_entries c)
                                          else (IPA_NAT_INDX_TBL, prev_entry))
            in Inr [\<lparr>table_index = tbl_indx, base_addr = prev_tbl,
                 dma_offset = ipa_nati_get_index_entry_offset c prev_tbl prev_entry + IPA_NAT_INDEX_RULE_NEXT_FIELD_OFFSET,
                 dma_data = of_nat v\<rparr>]))
      in case indx_rule_pos of
           IPA_NAT_DEL_TYPE_ONLY_ONE \<Rightarrow> Inr [\<lparr>table_index = tbl_indx, base_addr = IPA_NAT_INDX_TBL,
             dma_offset = cur + IPA_NAT_INDEX_RULE_NAT_INDEX_FIELD_OFFSET, dma_data = of_nat IPA_NAT_INVALID_NAT_ENTRY\<rparr>]
         | IPA_NAT_DEL_TYPE_HEAD \<Rightarrow>
             bnd (read_index c expn indx_tbl_entry) (\<lambda>w.
             bnd (read_index c True (sub16 (next_of w) (table_entries c))) (\<lambda>nw.
             Inr [\<lparr>table_index = tbl_indx, base_addr = IPA_NAT_INDX_TBL,
                    dma_offset = cur + IPA_NAT_INDEX_RULE_NAT_INDEX_FIELD_OFFSET, dma_data = of_nat (entry_of nw)\<rparr>,
                  \<lparr>table_index = tbl_indx, base_addr = IPA_NAT_INDX_TBL,
                    dma_offset = cur + IPA_NAT_INDEX_RULE_NEXT_FIELD_OFFSET, dma_data = of_nat (next_of nw)\<rparr>]))
         | IPA_NAT_DEL_TYPE_MIDDLE \<Rightarrow> bnd (read_index c expn indx_tbl_entry) (\<lambda>w. prev_cmd (next_of w))
         | IPA_NAT_DEL_TYPE_LAST \<Rightarrow> prev_cmd IPA_NAT_INVALID_NAT_ENTRY)"

text \<open>After the commands: the entry after a removed one learns its new predecessor, and the removed entry is cleared.\<close>

definition del_rule_finish :: "ipa_nat_ip4_table_cache \<Rightarrow> bool \<Rightarrow> nat \<Rightarrow> del_type \<Rightarrow> fault + ipa_nat_ip4_table_cache" where
  "del_rule_finish c expn_tbl cur_tbl_entry rule_pos =
     bnd (if rule_pos = IPA_NAT_DEL_TYPE_MIDDLE
          then bnd (read_rule c expn_tbl cur_tbl_entry) (\<lambda>r.
               let next_entry = sub16 (nxt_of r) (table_entries c)
               in bnd (read_rule c True next_entry) (\<lambda>nr.
                  bnd (write_rule c True next_entry (UpdateSwSpecParams nr IPA_NAT_SW_PARAM_PREV_INDX_BYTE (of_nat (prev_of r))))
                    (\<lambda>c. Inr (c, True))))
          else Inr (c, expn_tbl))
       (\<lambda>(c, expn_tbl). if rule_pos \<noteq> IPA_NAT_DEL_TYPE_HEAD then write_rule c expn_tbl cur_tbl_entry zero_rule else Inr c)"

definition del_index_finish :: "ipa_nat_ip4_table_cache \<Rightarrow> bool \<Rightarrow> nat \<Rightarrow> nat \<Rightarrow> del_type \<Rightarrow> fault + ipa_nat_ip4_table_cache" where
  "del_index_finish c expn indx_tbl_entry indx_next_entry indx_rule_pos =
     (let T = table_entries c
      in if indx_rule_pos = IPA_NAT_DEL_TYPE_HEAD
         then bnd (read_index c True indx_next_entry) (\<lambda>nw.
              bnd (if next_of nw \<noteq> 0 \<and> T \<le> next_of nw then write_meta c (next_of nw - T) indx_tbl_entry else Inr c) (\<lambda>c.
              bnd (write_index c True indx_next_entry 0) (\<lambda>c.
              bnd (read_index c False indx_tbl_entry) (\<lambda>w.
              let (e, table_entry) = (if T \<le> entry_of w then (True, entry_of w - T) else (False, entry_of w))
              in bnd (read_rule c e table_entry) (\<lambda>r.
                 write_rule c e table_entry (UpdateSwSpecParams r IPA_NAT_SW_PARAM_INDX_TBL_ENTRY_BYTE (of_nat indx_tbl_entry)))))))
         else bnd (if indx_rule_pos = IPA_NAT_DEL_TYPE_MIDDLE
                   then bnd (read_index c expn indx_tbl_entry) (\<lambda>w.
                        let next_entry = (if T \<le> next_of w then next_of w - T else next_of w)
                        in bnd (array_at (index_expn_table_meta c) indx_tbl_entry) (\<lambda>prev.
                           bnd (write_meta c next_entry prev) (\<lambda>c. write_meta c indx_tbl_entry IPA_NAT_INVALID_NAT_ENTRY)))
                   else Inr c) (\<lambda>c. write_index c expn indx_tbl_entry 0))"

definition ipa_nati_post_del_dma_cmd :: "'w nat_dev \<Rightarrow> nat \<Rightarrow> nat \<Rightarrow> bool \<Rightarrow> del_type \<Rightarrow>
    ipa_nat_ip4_table_cache \<times> 'w \<Rightarrow> fault + int \<times> ipa_nat_ip4_table_cache \<times> 'w" where
  "ipa_nati_post_del_dma_cmd dev tbl_indx cur_tbl_entry expn_tbl rule_pos s =
     (case s of (c, w) \<Rightarrow> (case malloc dev w of (ok, w) \<Rightarrow>
        if \<not> ok then Inr (- ENOMEM, c, w)
        else bnd (read_rule c expn_tbl cur_tbl_entry) (\<lambda>r.
        if \<not> enabled_of r then Inr (- EINVAL, c, w)
        else bnd (ipa_nati_find_index_rule_pos c (indx_of r)) (\<lambda>indx_rule_pos.
        let (expn, indx_tbl_entry) = (if table_entries c \<le> indx_of r then (True, indx_of r - table_entries c) else (False, indx_of r))
        in bnd (del_index_cmds c tbl_indx expn indx_tbl_entry indx_rule_pos) (\<lambda>index_cmds.
        bnd (if indx_rule_pos = IPA_NAT_DEL_TYPE_HEAD
             then bnd (read_index c expn indx_tbl_entry) (\<lambda>iw. Inr (sub16 (next_of iw) (table_entries c))) else Inr 0) (\<lambda>indx_next_entry.
        case ReorderCmds dev (del_rule_cmd c tbl_indx cur_tbl_entry r rule_pos # index_cmds) w of (cmds, w) \<Rightarrow>
        case post_dma dev cmds (c, w) of (ret, c, w) \<Rightarrow>
        if ret \<noteq> 0 then Inr (- EIO, c, w)
        else bnd (del_rule_finish c expn_tbl cur_tbl_entry rule_pos) (\<lambda>c.
             bnd (del_index_finish c expn indx_tbl_entry indx_next_entry indx_rule_pos) (\<lambda>c. Inr (0, c, w)))))))))"

definition dead_head :: "ipa_nat_rule \<Rightarrow> bool" where
  "dead_head r \<longleftrightarrow> proto_of r = IPA_NAT_INVALID_PROTO_FIELD_CMP \<and> nxt_of r = IPA_NAT_INVALID_NAT_ENTRY"

definition ipa_nati_del_dead_ipv4_head_nodes :: "ipa_nat_ip4_table_cache \<Rightarrow> ipa_nat_ip4_table_cache" where
  "ipa_nati_del_dead_ipv4_head_nodes c =
     c\<lparr>ipv4_rules := map (\<lambda>r. if dead_head r then zero_rule else r) (take (table_entries c) (ipv4_rules c)) @
        drop (table_entries c) (ipv4_rules c)\<rparr>"

definition ipa_nati_del_ipv4_rule :: "'w nat_dev \<Rightarrow> u32 \<Rightarrow> u32 \<Rightarrow> ipa_nat_cache \<times> 'w \<Rightarrow> fault + int \<times> ipa_nat_cache \<times> 'w" where
  "ipa_nati_del_ipv4_rule dev tbl_hdl hdl s =
     (case s of (ca, w) \<Rightarrow>
      (let tbl_indx = unat (ucast (tbl_hdl - 1) :: u8)
       in bnd (get_tbl ca tbl_indx) (\<lambda>c.
          bnd (ipa_nati_parse_ipv4_rule_hdl c (unat (ucast hdl :: u16))) (\<lambda>(expn_tbl, tbl_entry).
          if tbl_entry = IPA_NAT_INVALID_NAT_ENTRY then Inr (- EINVAL, ca, w)
          else if \<not> valid c then Inr (- EINVAL, ca, w)
          else bnd (ipa_nati_find_rule_pos c expn_tbl tbl_entry) (\<lambda>rule_pos.
          bnd (ipa_nati_post_del_dma_cmd dev tbl_indx tbl_entry expn_tbl rule_pos (c, w)) (\<lambda>(ret, c, w).
          if ret \<noteq> 0 then Inr (- EINVAL, set_tbl ca tbl_indx c, w)
          else let c = ipa_nati_del_dead_ipv4_head_nodes c
          in bnd (array_set (rule_id_array c) (unat (hdl - 1)) IPA_NAT_INVALID_NAT_ENTRY) (\<lambda>ids.
             Inr (0, set_tbl ca tbl_indx (c\<lparr>rule_id_array := ids\<rparr>), w)))))))) "

section \<open>Public functions\<close>

text \<open>A pointer argument that may be NULL is an option.\<close>

definition drv_ipa_nat_add_ipv4_tbl :: "'w nat_dev \<Rightarrow> u32 \<Rightarrow> u16 \<Rightarrow> u32 option \<Rightarrow> ipa_nat_cache \<times> 'w \<Rightarrow>
    fault + int \<times> u32 option \<times> ipa_nat_cache \<times> 'w" where
  "drv_ipa_nat_add_ipv4_tbl dev public_ip_addr number_of_entries tbl_hdl s =
     (if tbl_hdl = None \<or> number_of_entries = 0 then Inr (- EINVAL, tbl_hdl, s)
      else bnd (ipa_nati_add_ipv4_tbl dev public_ip_addr number_of_entries s) (\<lambda>(ret, h, s).
        Inr (if ret \<noteq> 0 then - EINVAL else ret, Some h, s)))"

definition drv_ipa_nat_del_ipv4_tbl :: "'w nat_dev \<Rightarrow> u32 \<Rightarrow> ipa_nat_cache \<times> 'w \<Rightarrow> fault + int \<times> ipa_nat_cache \<times> 'w" where
  "drv_ipa_nat_del_ipv4_tbl dev tbl_hdl s =
     (if unat tbl_hdl = IPA_NAT_INVALID_NAT_ENTRY \<or> IPA_NAT_MAX_IP4_TBLS < unat tbl_hdl then Inr (- EINVAL, s)
      else ipa_nati_del_ipv4_table dev tbl_hdl s)"

definition drv_ipa_nat_add_ipv4_rule :: "'w nat_dev \<Rightarrow> u32 \<Rightarrow> ipa_nat_ipv4_rule option \<Rightarrow> u32 option \<Rightarrow> ipa_nat_cache \<times> 'w \<Rightarrow>
    fault + int \<times> u32 option \<times> ipa_nat_cache \<times> 'w" where
  "drv_ipa_nat_add_ipv4_rule dev tbl_hdl clnt_rule hdl s =
     (if unat tbl_hdl = IPA_NAT_INVALID_NAT_ENTRY \<or> IPA_NAT_MAX_IP4_TBLS < unat tbl_hdl then Inr (- EINVAL, hdl, s)
      else case (hdl, clnt_rule) of
        (Some h, Some r) \<Rightarrow> bnd (ipa_nati_add_ipv4_rule dev tbl_hdl r h s) (\<lambda>(ret, h, s). Inr (if ret \<noteq> 0 then - EINVAL else 0, Some h, s))
      | _ \<Rightarrow> Inr (- EINVAL, hdl, s))"

definition drv_ipa_nat_del_ipv4_rule :: "'w nat_dev \<Rightarrow> u32 \<Rightarrow> u32 \<Rightarrow> ipa_nat_cache \<times> 'w \<Rightarrow> fault + int \<times> ipa_nat_cache \<times> 'w" where
  "drv_ipa_nat_del_ipv4_rule dev tbl_hdl hdl s =
     (if unat tbl_hdl = IPA_NAT_INVALID_NAT_ENTRY \<or> unat hdl = IPA_NAT_INVALID_NAT_ENTRY then Inr (- EINVAL, s)
      else bnd (ipa_nati_del_ipv4_rule dev tbl_hdl hdl s) (\<lambda>(result, s). if result \<noteq> 0 then Inr (result, s) else Inr (0, s)))"

definition drv_ipa_nat_query_timestamp :: "u32 \<Rightarrow> u32 \<Rightarrow> u32 option \<Rightarrow> ipa_nat_cache \<Rightarrow> fault + int \<times> u32 option" where
  "drv_ipa_nat_query_timestamp tbl_hdl hdl time_stamp ca =
     (if unat tbl_hdl = 0 \<or> IPA_NAT_MAX_IP4_TBLS < unat tbl_hdl \<or> time_stamp = None then Inr (- EINVAL, time_stamp)
      else bnd (ipa_nati_query_timestamp tbl_hdl hdl (the time_stamp) ca) (\<lambda>(ret, ts). Inr (ret, Some ts)))"

section \<open>Counting\<close>

fun count_loop :: "(nat \<Rightarrow> fault + bool) \<Rightarrow> nat list \<Rightarrow> nat \<Rightarrow> fault + nat" where
  "count_loop used [] ret = Inr ret"
| "count_loop used (cnt # cnts) ret = bnd (used cnt) (\<lambda>u. count_loop used cnts (if u then ret + 1 else ret))"

definition ipa_nati_query_nat_rules :: "u32 \<Rightarrow> nat_table_type \<Rightarrow> ipa_nat_cache \<Rightarrow> fault + nat" where
  "ipa_nati_query_nat_rules tbl_hdl tbl_type ca =
     (if unat tbl_hdl = IPA_NAT_INVALID_NAT_ENTRY \<or> IPA_NAT_MAX_IP4_TBLS < unat tbl_hdl then Inr 0
      else bnd (get_tbl ca (unat (tbl_hdl - 1))) (\<lambda>c.
        let rules = (\<lambda>expn cnt. bnd (read_rule c expn cnt) (\<lambda>r. Inr (enabled_of r)));
            indices = (\<lambda>expn cnt. bnd (read_index c expn cnt) (\<lambda>w. Inr (entry_of w \<noteq> 0)))
        in case tbl_type of
             IPA_NAT_BASE_TBL \<Rightarrow> count_loop (rules False) [0..<table_entries c] 0
           | IPA_NAT_EXPN_TBL \<Rightarrow> count_loop (rules True) [0..<expn_table_entries c] 0
           | IPA_NAT_INDX_TBL \<Rightarrow> count_loop (indices False) [0..<table_entries c] 0
           | IPA_NAT_INDEX_EXPN_TBL \<Rightarrow> count_loop (indices True) [0..<expn_table_entries c] 0))"

end
