(* ===== verification/Nat_Driver_Inv.thy ===== *)
theory Nat_Driver_Inv
  imports Nat_Driver
begin

text \<open>
  The invariant of the NAT driver's tables and its preservation by the insertion of rules. The two hash tables are
  seen as functions of the entry number (links, occupation, contents), for which the changes of the operations are function
  updates; the chains are those of \<^verbatim>\<open>Hash_Chains\<close>.
\<close>

section \<open>Cross references, placement, handles\<close>

text \<open>Rule entries and index entries point at each other: \<open>idx e\<close> is the index entry of rule \<open>e\<close>, \<open>ent i\<close> the rule of index
  entry \<open>i\<close>, 0 for none.\<close>

definition crossed :: "nat \<Rightarrow> (nat \<Rightarrow> bool) \<Rightarrow> (nat \<Rightarrow> nat) \<Rightarrow> (nat \<Rightarrow> nat) \<Rightarrow> bool" where
  "crossed N live idx ent \<longleftrightarrow> (\<forall>e. e < N \<and> live e \<longrightarrow> 0 < e \<and> idx e < N \<and> ent (idx e) = e) \<and>
     (\<forall>i. i < N \<and> ent i \<noteq> 0 \<longrightarrow> ent i < N \<and> live (ent i) \<and> idx (ent i) = i)"

lemma crossedD:
  assumes "crossed N live idx ent" "e < N" "live e"
  shows "0 < e" "idx e < N" "ent (idx e) = e"
  using assms unfolding crossed_def by blast+

lemma crossedD2:
  assumes "crossed N live idx ent" "i < N" "ent i \<noteq> 0"
  shows "ent i < N" "live (ent i)" "idx (ent i) = i"
  using assms unfolding crossed_def by blast+

lemma crossedI:
  assumes "\<And>e. e < N \<Longrightarrow> live e \<Longrightarrow> 0 < e \<and> idx e < N \<and> ent (idx e) = e"
    and "\<And>i. i < N \<Longrightarrow> ent i \<noteq> 0 \<Longrightarrow> ent i < N \<and> live (ent i) \<and> idx (ent i) = i"
  shows "crossed N live idx ent"
  using assms unfolding crossed_def by blast

lemma crossed_add:
  assumes c: "crossed N live idx ent" and e: "0 < e" "e < N" "\<not> live e" and i: "i < N" "ent i = 0"
  shows "crossed N (live(e := True)) (idx(e := i)) (ent(i := e))"
proof (rule crossedI)
  fix x assume x: "x < N" "(live(e := True)) x"
  show "0 < x \<and> (idx(e := i)) x < N \<and> (ent(i := e)) ((idx(e := i)) x) = x"
  proof (cases "x = e")
    case False
    then have l: "live x" using x by simp
    have "idx x \<noteq> i" using crossedD(1,3)[OF c x(1) l] i(2) by (metis less_irrefl)
    then show ?thesis using crossedD[OF c x(1) l] False by simp
  qed (use e i in simp)
next
  fix j assume j: "j < N" "(ent(i := e)) j \<noteq> 0"
  show "(ent(i := e)) j < N \<and> (live(e := True)) ((ent(i := e)) j) \<and> (idx(e := i)) ((ent(i := e)) j) = j"
  proof (cases "j = i")
    case False
    then have n: "ent j \<noteq> 0" using j by simp
    have "ent j \<noteq> e" using crossedD2(2)[OF c j(1) n] e(3) by metis
    then show ?thesis using crossedD2[OF c j(1) n] False by simp
  qed (use e in simp)
qed

text \<open>The contents of index entry \<open>j\<close> move to the index entry of the deleted rule; when \<open>j\<close> is that entry, it is just cleared.\<close>

lemma crossed_move:
  assumes c: "crossed N live idx ent" and e: "e < N" "live e" and j: "j < N" "ent j \<noteq> 0"
    and x: "\<And>x. x < N \<Longrightarrow> live x \<Longrightarrow> x \<noteq> e \<Longrightarrow> idx' x = (if x = ent j then idx e else idx x)"
  shows "crossed N (live(e := False)) idx' (ent(idx e := ent j, j := 0))"
proof (rule crossedI)
  note J = crossedD2[OF c j] and E = crossedD[OF c e]
  fix y assume y: "y < N" "(live(e := False)) y"
  then have l: "live y" "y \<noteq> e" by (auto split: if_splits)
  note Y = crossedD[OF c y(1) l(1)]
  have ne: "idx y \<noteq> idx e" using Y(3) E(3) l(2) by metis
  show "0 < y \<and> idx' y < N \<and> (ent(idx e := ent j, j := 0)) (idx' y) = y"
  proof (cases "y = ent j")
    case True
    then have "idx e \<noteq> j" using J(3) E(3) l(2) ne by metis
    then show ?thesis using x[OF y(1) l] True Y(1) E(2) by simp
  next
    case False
    have "idx y \<noteq> j" using Y(3) False by metis
    then show ?thesis using x[OF y(1) l] False Y ne by simp
  qed
next
  note J = crossedD2[OF c j] and E = crossedD[OF c e]
  fix k assume k: "k < N" "(ent(idx e := ent j, j := 0)) k \<noteq> 0"
  then have kj: "k \<noteq> j" by auto
  show "(ent(idx e := ent j, j := 0)) k < N \<and> (live(e := False)) ((ent(idx e := ent j, j := 0)) k) \<and>
      idx' ((ent(idx e := ent j, j := 0)) k) = k"
  proof (cases "k = idx e")
    case True
    have "ent j \<noteq> e" using J(3) True kj by metis
    then show ?thesis using True kj J x[OF J(1,2)] by simp
  next
    case False
    have n: "ent k \<noteq> 0" using k kj False by simp
    note K = crossedD2[OF c k(1) n]
    have "ent k \<noteq> e" "ent k \<noteq> ent j" using K(3) J(3) False kj by metis+
    then show ?thesis using False kj K x[OF K(1,2)] by simp
  qed
qed

text \<open>What occupies a bucket belongs there.\<close>

definition placed :: "nat \<Rightarrow> (nat \<Rightarrow> bool) \<Rightarrow> (nat \<Rightarrow> nat) \<Rightarrow> (nat \<Rightarrow> nat list) \<Rightarrow> bool" where
  "placed T occ key B \<longleftrightarrow> (\<forall>h e. 0 < h \<and> h < T \<and> e \<in> set (h # B h) \<and> occ e \<longrightarrow> key e = h)"

lemma placed_mono:
  assumes "placed T occ key B" "\<And>h e. 0 < h \<Longrightarrow> h < T \<Longrightarrow> e \<in> set (h # B' h) \<Longrightarrow> occ' e \<Longrightarrow> e \<in> set (h # B h) \<and> occ e \<and> key' e = key e"
  shows "placed T occ' key' B'"
  using assms unfolding placed_def by blast

text \<open>Handles: slot \<open>k\<close> of the array of rule ids holds 0 or the code of a live rule, each live rule being in exactly one slot.\<close>

definition enc :: "nat \<Rightarrow> nat \<Rightarrow> nat" where
  "enc T e = (if T \<le> e then (e - T) * 2 + 1 else e * 2)"

lemma enc_inj: "enc T e = enc T e' \<Longrightarrow> e = e'"
  unfolding enc_def by (cases "T \<le> e"; cases "T \<le> e'") (simp; presburger)+

lemma enc_zero: "enc T e = 0 \<Longrightarrow> e = 0"
  by (auto simp: enc_def split: if_splits)

definition handles :: "nat \<Rightarrow> nat \<Rightarrow> (nat \<Rightarrow> bool) \<Rightarrow> (nat \<Rightarrow> nat) \<Rightarrow> bool" where
  "handles T N live ids \<longleftrightarrow> (\<forall>k. k < N \<and> ids k \<noteq> 0 \<longrightarrow> (\<exists>e < N. live e \<and> ids k = enc T e)) \<and>
     (\<forall>e. e < N \<and> live e \<longrightarrow> (\<exists>k < N. ids k = enc T e)) \<and>
     (\<forall>k k'. k < N \<and> k' < N \<and> ids k \<noteq> 0 \<and> ids k = ids k' \<longrightarrow> k = k')"

lemma handlesD:
  assumes "handles T N live ids"
  shows "\<And>k. k < N \<Longrightarrow> ids k \<noteq> 0 \<Longrightarrow> \<exists>e < N. live e \<and> ids k = enc T e"
    "\<And>e. e < N \<Longrightarrow> live e \<Longrightarrow> \<exists>k < N. ids k = enc T e"
    "\<And>k k'. k < N \<Longrightarrow> k' < N \<Longrightarrow> ids k \<noteq> 0 \<Longrightarrow> ids k = ids k' \<Longrightarrow> k = k'"
  using assms unfolding handles_def by blast+

lemma handlesI:
  assumes "\<And>k. k < N \<Longrightarrow> ids k \<noteq> 0 \<Longrightarrow> \<exists>e < N. live e \<and> ids k = enc T e"
    "\<And>e. e < N \<Longrightarrow> live e \<Longrightarrow> \<exists>k < N. ids k = enc T e"
    "\<And>k k'. k < N \<Longrightarrow> k' < N \<Longrightarrow> ids k \<noteq> 0 \<Longrightarrow> ids k = ids k' \<Longrightarrow> k = k'"
  shows "handles T N live ids"
  using assms unfolding handles_def by blast

lemma handles_add:
  assumes h: "handles T N live ids" and e: "e < N" "0 < e" "\<not> live e" and z: "\<not> live 0" and k: "k < N" "ids k = 0"
  shows "handles T N (live(e := True)) (ids(k := enc T e))"
proof -
  have n: "ids x \<noteq> enc T e" if xN: "x < N" for x
  proof
    assume x: "ids x = enc T e"
    then have "ids x \<noteq> 0" using e(2) enc_zero[of T e] by auto
    then obtain y where y: "y < N" "live y" "ids x = enc T y" using handlesD(1)[OF h xN] by blast
    then have "y = e" using x enc_inj[of T e y] by simp
    then show False using y(2) e(3) by simp
  qed
  show ?thesis
  proof (rule handlesI)
    fix x assume x: "x < N" "(ids(k := enc T e)) x \<noteq> 0"
    show "\<exists>y<N. (live(e := True)) y \<and> (ids(k := enc T e)) x = enc T y"
    proof (cases "x = k")
      case True
      then show ?thesis using e(1) by auto
    next
      case False
      then obtain y where "y < N" "live y" "ids x = enc T y" using handlesD(1)[OF h x(1)] x(2) by auto
      then show ?thesis using False by auto
    qed
  next
    fix y assume y: "y < N" "(live(e := True)) y"
    show "\<exists>x<N. (ids(k := enc T e)) x = enc T y"
    proof (cases "y = e")
      case True
      then show ?thesis using k(1) by auto
    next
      case False
      then have l: "live y" using y(2) by simp
      then obtain x where x: "x < N" "ids x = enc T y" using handlesD(2)[OF h y(1)] by blast
      have "y \<noteq> 0" using l z by metis
      then have "x \<noteq> k" using x(2) k(2) enc_zero[of T y] by auto
      then show ?thesis using x by auto
    qed
  next
    fix x x' assume x: "x < N" "x' < N" "(ids(k := enc T e)) x \<noteq> 0" "(ids(k := enc T e)) x = (ids(k := enc T e)) x'"
    show "x = x'" using x n[OF x(1)] n[OF x(2)] handlesD(3)[OF h x(1,2)] by (auto split: if_splits)
  qed
qed

lemma handles_del:
  assumes h: "handles T N live ids" and e: "e < N" "live e" and k: "k < N" "ids k = enc T e" "enc T e \<noteq> 0"
  shows "handles T N (live(e := False)) (ids(k := 0))"
proof -
  have u: "x = k" if "x < N" "ids x = enc T e" for x
    using handlesD(3)[OF h that(1) k(1)] that(2) k(2,3) by simp
  show ?thesis
  proof (rule handlesI)
    fix x assume x: "x < N" "(ids(k := 0)) x \<noteq> 0"
    then have n: "x \<noteq> k" "ids x \<noteq> 0" by (auto split: if_splits)
    then obtain y where y: "y < N" "live y" "ids x = enc T y" using handlesD(1)[OF h x(1)] by blast
    then have "y \<noteq> e" using u[OF x(1)] n(1) by auto
    then show "\<exists>y<N. (live(e := False)) y \<and> (ids(k := 0)) x = enc T y" using n y by auto
  next
    fix y assume y: "y < N" "(live(e := False)) y"
    then have l: "live y" "y \<noteq> e" by (auto split: if_splits)
    then obtain x where x: "x < N" "ids x = enc T y" using handlesD(2)[OF h y(1)] by blast
    then have "x \<noteq> k" using k(2) enc_inj[of T y e] l(2) by auto
    then show "\<exists>x<N. (ids(k := 0)) x = enc T y" using x by auto
  next
    fix x x' assume x: "x < N" "x' < N" "(ids(k := 0)) x \<noteq> 0" "(ids(k := 0)) x = (ids(k := 0)) x'"
    show "x = x'" using x handlesD(3)[OF h x(1,2)] by (auto split: if_splits)
  qed
qed

section \<open>Tables as functions\<close>

definition at :: "('a \<Rightarrow> 'b) \<Rightarrow> 'a list \<Rightarrow> nat \<Rightarrow> 'b" where
  "at f xs = (\<lambda>e. f (xs ! e))"

lemma at_upd: "i < length xs \<Longrightarrow> at f (xs[i := v]) = (at f xs)(i := f v)"
  by (auto simp: at_def fun_eq_iff)

definition live_of :: "ipa_nat_rule \<Rightarrow> bool" where
  "live_of r \<longleftrightarrow> enabled_of r \<and> proto_of r \<noteq> IPA_NAT_INVALID_PROTO_FIELD_CMP"

lemma live_zero [fld]: "\<not> live_of zero_rule"
  by (simp add: live_of_def fld)

text \<open>The two hash tables; the predecessors of index entries are in an array of their own.\<close>

definition rule_chains :: "nat \<Rightarrow> nat \<Rightarrow> ipa_nat_rule list \<Rightarrow> (nat \<Rightarrow> nat list) \<Rightarrow> bool" where
  "rule_chains T N rs B \<longleftrightarrow> chains T N (at nxt_of rs) (at prev_of rs) (at enabled_of rs) B"

definition index_chains :: "nat \<Rightarrow> nat \<Rightarrow> u32 list \<Rightarrow> nat list \<Rightarrow> (nat \<Rightarrow> nat list) \<Rightarrow> bool" where
  "index_chains T N is ms B \<longleftrightarrow> chains T N (at next_of is) (\<lambda>i. ms ! (i - T)) (\<lambda>i. at entry_of is i \<noteq> 0) B"

text \<open>Sizes. The last slot of the array of rule ids is never used: \<open>ipa_nati_parse_ipv4_rule_hdl\<close> does not accept its handle.\<close>

definition shape :: "nat \<Rightarrow> nat \<Rightarrow> ipa_nat_rule list \<Rightarrow> u32 list \<Rightarrow> nat list \<Rightarrow> nat list \<Rightarrow> bool" where
  "shape T E rs is ms ids \<longleftrightarrow> 2 \<le> T \<and> T \<le> 16384 \<and> 2 \<le> E \<and> E \<le> 16384 \<and>
     length rs = T + E \<and> length is = T + E \<and> length ms = E \<and> length ids = T + E \<and> ids ! (T + E - 1) = 0"

text \<open>A deleted head stays, with an invalid protocol, as long as its chain is not empty; no other entry has that protocol.\<close>

definition deads :: "nat \<Rightarrow> nat \<Rightarrow> ipa_nat_rule list \<Rightarrow> bool" where
  "deads T N rs \<longleftrightarrow> (\<forall>e < N. enabled_of (rs ! e) \<and> \<not> live_of (rs ! e) \<longrightarrow> e < T \<and> nxt_of (rs ! e) \<noteq> 0)"

definition mem_inv :: "nat \<Rightarrow> nat \<Rightarrow> ipa_nat_rule list \<Rightarrow> u32 list \<Rightarrow> nat list \<Rightarrow> nat list \<Rightarrow> (nat \<Rightarrow> nat list) \<Rightarrow> (nat \<Rightarrow> nat list) \<Rightarrow> bool" where
  "mem_inv T E rs is ms ids B BI \<longleftrightarrow> shape T E rs is ms ids \<and>
     rule_chains T (T + E) rs B \<and> index_chains T (T + E) is ms BI \<and> deads T (T + E) rs \<and>
     crossed (T + E) (at live_of rs) (at indx_of rs) (at entry_of is) \<and>
     placed T (at live_of rs) (\<lambda>e. dst_bucket T (clnt_of (rs ! e))) B \<and>
     placed T (\<lambda>i. at entry_of is i \<noteq> 0) (\<lambda>i. src_bucket T (clnt_of (rs ! entry_of (is ! i)))) BI \<and>
     handles T (T + E) (at live_of rs) (\<lambda>k. ids ! k)"

section \<open>Searching a place\<close>

lemma free_loop_find:
  assumes "\<And>i. i \<in> set is \<Longrightarrow> used i = Inr (u i)"
  shows "free_loop used is = Inr (case find (\<lambda>i. \<not> u i) is of None \<Rightarrow> 0 | Some i \<Rightarrow> i)"
  using assms by (induction "is") auto

lemma free_loop_expn:
  assumes "\<And>i. i < E \<Longrightarrow> used i = Inr (occ (T + i))"
  shows "(\<forall>x. T < x \<and> x < T + E \<longrightarrow> occ x) \<and> free_loop used [1..<E] = Inr 0 \<or>
    (\<exists>f. 0 < f \<and> f < E \<and> \<not> occ (T + f) \<and> free_loop used [1..<E] = Inr f)"
proof -
  have l: "free_loop used [1..<E] = Inr (case find (\<lambda>i. \<not> occ (T + i)) [1..<E] of None \<Rightarrow> 0 | Some i \<Rightarrow> i)"
    by (rule free_loop_find) (use assms in auto)
  show ?thesis
  proof (cases "find (\<lambda>i. \<not> occ (T + i)) [1..<E]")
    case None
    then have n: "\<not> (\<exists>i. i \<in> set [1..<E] \<and> \<not> occ (T + i))" by (simp only: find_None_iff not_False_eq_True)
    have "occ x" if "T < x" "x < T + E" for x
    proof -
      have "x - T \<in> set [1..<E]" using that by auto
      then have "occ (T + (x - T))" using n by blast
      then show ?thesis using that by simp
    qed
    then show ?thesis using l None by simp
  next
    case (Some f)
    then have "f \<in> set [1..<E]" "\<not> occ (T + f)" by (auto simp: find_Some_iff)
    then show ?thesis using l Some by auto
  qed
qed

text \<open>The place for a new entry of bucket \<open>h\<close>: the head itself, or an entry \<open>e\<close> behind the last entry \<open>q\<close> of the chain.\<close>

definition slot_for :: "nat \<Rightarrow> nat \<Rightarrow> (nat \<Rightarrow> bool) \<Rightarrow> (nat \<Rightarrow> nat list) \<Rightarrow> nat \<Rightarrow> nat \<Rightarrow> nat \<Rightarrow> bool" where
  "slot_for T N occ B h e q \<longleftrightarrow> 0 < h \<and> h < T \<and> \<not> occ e \<and>
     (e = h \<and> q = 0 \<or> T < e \<and> e < N \<and> occ h \<and> q = last (h # B h))"

definition full_for :: "nat \<Rightarrow> nat \<Rightarrow> (nat \<Rightarrow> bool) \<Rightarrow> nat \<Rightarrow> bool" where
  "full_for T N occ h \<longleftrightarrow> occ h \<and> (\<forall>x. T < x \<and> x < N \<longrightarrow> occ x)"

lemma last_in_chain:
  assumes c: "chains T N nxt prv occ B" and h: "0 < h" "h < T"
  shows "0 < last (h # B h) \<and> last (h # B h) < N"
proof -
  have TN: "T \<le> N" using c by (simp add: chains_def)
  have "last (h # B h) \<in> set (h # B h)" by (rule last_in_set) simp
  then show ?thesis using bucketD(5)[OF chains_bucket[OF c h] h(2), of "last (h # B h)"] h TN by auto
qed

lemma find_last_prev: "nx \<noteq> 0 \<Longrightarrow> n \<noteq> 0 \<Longrightarrow> find_last rd T n p nx = find_last rd T n p' nx"
  by (cases n) auto

lemma find_last_chain:
  assumes c: "chains T (T + E) nxt prv occ B" and h: "0 < h" "h < T" and E: "E \<le> 16384"
    and rd: "\<And>i. i < E \<Longrightarrow> rd i = Inr (nxt (T + i))"
  shows "(if nxt h = 0 then Inr (Some h) else find_last rd T (2 ^ 16) 0 (nxt h)) = Inr (Some (last (h # B h)))"
proof -
  note b = bucketD[OF chains_bucket[OF c h] h(2)]
  have "B h = []" if "nxt h = 0" using that linked_nxt_head[OF b(1)] linked_nonzero[OF b(1)] hd_in_set[of "B h"] by metis
  moreover have "find_last rd T (2 ^ 16) 0 (nxt h) = find_last rd T (2 ^ 16) h (nxt h)" if "nxt h \<noteq> 0"
    by (rule find_last_prev[OF that]) simp
  moreover have "find_last rd T (2 ^ 16) h (nxt h) = Inr (Some (last (h # B h)))"
  proof (rule find_last_linked[OF b(1,3)])
    have "set (B h) \<subseteq> {T<..<T + E}" using b(5) by auto
    then have "card (set (B h)) \<le> card {T<..<T + E}" by (intro card_mono) auto
    then show "length (B h) < 2 ^ 16" using b(3) E by (simp add: distinct_card)
    show "T \<le> e \<and> rd (e - T) = Inr (nxt e)" if "e \<in> set (B h)" for e using b(5)[OF that] rd[of "e - T"] by auto
  qed
  ultimately show ?thesis by auto
qed

text \<open>A software rule for a client rule, not yet linked.\<close>

definition fresh_sw :: "ipa_nat_ipv4_rule \<Rightarrow> ipa_nat_sw_rule \<Rightarrow> bool" where
  "fresh_sw clnt sw \<longleftrightarrow> sw_next_index sw = 0 \<and> sw_enable sw = 0 \<and> clnt_of (hw_rule sw) = clnt"

lemma read_rule_ok:
  assumes "length (ipv4_rules c) = table_entries c + expn_table_entries c"
  shows "i < table_entries c \<Longrightarrow> read_rule c False i = Inr (ipv4_rules c ! i)"
    "i < expn_table_entries c \<Longrightarrow> read_rule c True i = Inr (ipv4_rules c ! (table_entries c + i))"
  using assms by (auto simp: read_rule_def tbl_pos_def)

lemma read_index_ok:
  assumes "length (index_table c) = table_entries c + expn_table_entries c"
  shows "i < table_entries c \<Longrightarrow> read_index c False i = Inr (index_table c ! i)"
    "i < expn_table_entries c \<Longrightarrow> read_index c True i = Inr (index_table c ! (table_entries c + i))"
  using assms by (auto simp: read_index_def tbl_pos_def)

lemma write_rule_ok:
  assumes "length (ipv4_rules c) = table_entries c + expn_table_entries c"
  shows "i < table_entries c \<Longrightarrow> write_rule c False i r = Inr (c\<lparr>ipv4_rules := (ipv4_rules c)[i := r]\<rparr>)"
    "i < expn_table_entries c \<Longrightarrow> write_rule c True i r = Inr (c\<lparr>ipv4_rules := (ipv4_rules c)[table_entries c + i := r]\<rparr>)"
  using assms by (auto simp: write_rule_def tbl_pos_def)

lemma write_index_ok:
  assumes "length (index_table c) = table_entries c + expn_table_entries c"
  shows "i < table_entries c \<Longrightarrow> write_index c False i r = Inr (c\<lparr>index_table := (index_table c)[i := r]\<rparr>)"
    "i < expn_table_entries c \<Longrightarrow> write_index c True i r = Inr (c\<lparr>index_table := (index_table c)[table_entries c + i := r]\<rparr>)"
  using assms by (auto simp: write_index_def tbl_pos_def)

lemmas access_ok = read_rule_ok read_index_ok write_rule_ok write_index_ok

definition sized :: "ipa_nat_ip4_table_cache \<Rightarrow> nat \<Rightarrow> nat \<Rightarrow> bool" where
  "sized c T E \<longleftrightarrow> table_entries c = T \<and> expn_table_entries c = E \<and> 2 \<le> T \<and> T \<le> 16384 \<and> 2 \<le> E \<and> E \<le> 16384 \<and>
     length (ipv4_rules c) = T + E \<and> length (index_table c) = T + E"

lemma generate_tbl_rule_spec:
  fixes clnt :: ipa_nat_ipv4_rule
  assumes c: "sized c T E" and ch: "rule_chains T (T + E) (ipv4_rules c) B"
  defines "h \<equiv> dst_bucket T clnt" and "occ \<equiv> at enabled_of (ipv4_rules c)"
  shows "full_for T (T + E) occ h \<and> (\<exists>sw. ipa_nati_generate_tbl_rule clnt zero_sw_rule c = Inr (0, sw)) \<or>
    (\<exists>e q sw. slot_for T (T + E) occ B h e q \<and> ipa_nati_generate_tbl_rule clnt zero_sw_rule c = Inr (e, sw) \<and>
       unat (sw_prev_index sw) = q \<and> fresh_sw clnt sw)"
proof -
  note cs = ch[unfolded rule_chains_def]
  have h: "0 < h" "h < T" using hash_range[of T] c by (auto simp: h_def sized_def)
  have rd: "read_rule c False h = Inr (ipv4_rules c ! h)"
    "\<And>i. i < E \<Longrightarrow> read_rule c True i = Inr (ipv4_rules c ! (T + i))" using c h read_rule_ok[of c] by (auto simp: sized_def)
  let ?fl = "if nxt_of (ipv4_rules c ! h) = 0 then Inr (Some h)
     else find_last (\<lambda>i. bnd (read_rule c True i) (\<lambda>r. Inr (nxt_of r))) T (2 ^ 16) 0 (nxt_of (ipv4_rules c ! h))"
  have fl: "?fl = Inr (Some (last (h # B h)))"
    by (rule find_last_chain[OF cs h, unfolded at_def]) (use rd c in \<open>auto simp: sized_def\<close>)
  have q: "last (h # B h) < 65536" using last_in_chain[OF cs h] c by (auto simp: sized_def)
  have hh: "unat (dst_hash (r_target_ip clnt) (r_target_port clnt) (r_public_port clnt) (r_protocol clnt) (of_nat (table_entries c) - 1)) = h"
    using c by (simp add: h_def dst_bucket_def sized_def)
  have T: "table_entries c = T" using c by (simp add: sized_def)
  define sw where "sw = fill_sw_rule (public_addr c) clnt zero_sw_rule"
  have sw: "fresh_sw clnt (sw\<lparr>sw_prev_index := v\<rparr>)" for v
    by (simp add: sw_def fill_sw_rule_def fresh_sw_def fld zero_sw_rule_def Let_def)
  have gen: "ipa_nati_generate_tbl_rule clnt zero_sw_rule c = bnd (read_rule c False h) (\<lambda>r.
      if \<not> enabled_of r then Inr (h, sw\<lparr>sw_prev_index := 0\<rparr>)
      else bnd (if nxt_of r = 0 then Inr (Some h)
                else find_last (\<lambda>i. bnd (read_rule c True i) (\<lambda>r. Inr (nxt_of r))) T (2 ^ 16) 0 (nxt_of r)) (\<lambda>prev. case prev of
        None \<Rightarrow> Inr (0, sw)
      | Some prev \<Rightarrow> bnd (ipa_nati_expn_tbl_free_entry c) (\<lambda>new_entry.
          if new_entry = 0 then Inr (0, sw\<lparr>sw_prev_index := of_nat prev\<rparr>)
          else Inr ((new_entry + T) mod 2 ^ 16, sw\<lparr>sw_prev_index := of_nat prev\<rparr>))))"
    by (simp only: ipa_nati_generate_tbl_rule_def Let_def hh[unfolded T] T sw_def const_defs)
  have frees: "(\<forall>x. T < x \<and> x < T + E \<longrightarrow> occ x) \<and> ipa_nati_expn_tbl_free_entry c = Inr 0 \<or>
      (\<exists>f. 0 < f \<and> f < E \<and> \<not> occ (T + f) \<and> ipa_nati_expn_tbl_free_entry c = Inr f)"
    using free_loop_expn[of E "\<lambda>cnt. bnd (read_rule c True cnt) (\<lambda>r. Inr (enabled_of r))" occ T] rd(2) c
    by (simp add: ipa_nati_expn_tbl_free_entry_def occ_def at_def sized_def)
  show ?thesis
  proof (cases "occ h")
    case False
    then have "ipa_nati_generate_tbl_rule clnt zero_sw_rule c = Inr (h, sw\<lparr>sw_prev_index := 0\<rparr>)"
      using rd(1) by (simp add: gen occ_def at_def)
    moreover have "slot_for T (T + E) occ B h h 0" using False h by (simp add: slot_for_def)
    moreover have "unat (sw_prev_index (sw\<lparr>sw_prev_index := 0\<rparr>)) = 0" by simp
    ultimately show ?thesis using sw by blast
  next
    case True
    then have en: "enabled_of (ipv4_rules c ! h)" by (simp add: occ_def at_def)
    let ?q = "last (h # B h)"
    have gen': "ipa_nati_generate_tbl_rule clnt zero_sw_rule c = bnd (ipa_nati_expn_tbl_free_entry c) (\<lambda>new_entry.
          if new_entry = 0 then Inr (0, sw\<lparr>sw_prev_index := of_nat ?q\<rparr>)
          else Inr ((new_entry + T) mod 2 ^ 16, sw\<lparr>sw_prev_index := of_nat ?q\<rparr>))"
      unfolding gen rd(1) bnd_simps using en by (simp only: fl bnd_simps option.case if_False simp_thms)
    from frees show ?thesis
    proof (elim disjE exE conjE)
      assume "\<forall>x. T < x \<and> x < T + E \<longrightarrow> occ x" and f: "ipa_nati_expn_tbl_free_entry c = Inr 0"
      then have "full_for T (T + E) occ h" using True by (simp add: full_for_def)
      then show ?thesis using f by (simp add: gen')
    next
      fix f assume f: "0 < f" "f < E" "\<not> occ (T + f)" "ipa_nati_expn_tbl_free_entry c = Inr f"
      have "(f + T) mod 2 ^ 16 = T + f" using f(2) c by (simp add: sized_def)
      then have "ipa_nati_generate_tbl_rule clnt zero_sw_rule c = Inr (T + f, sw\<lparr>sw_prev_index := of_nat ?q\<rparr>)"
        using f(1,4) by (simp add: gen')
      moreover have "slot_for T (T + E) occ B h (T + f) ?q" using f True h by (simp add: slot_for_def)
      moreover have "unat (sw_prev_index (sw\<lparr>sw_prev_index := of_nat ?q\<rparr>)) = ?q" using q u16_of_nat[OF q] by simp
      ultimately show ?thesis using sw by blast
    qed
  qed
qed

lemma generate_index_rule_spec:
  fixes clnt :: ipa_nat_ipv4_rule and isw :: ipa_nat_indx_tbl_sw_rule
  assumes c: "sized c T E" and ch: "index_chains T (T + E) (index_table c) ms B"
  defines "h \<equiv> src_bucket T clnt" and "occ \<equiv> (\<lambda>i. at entry_of (index_table c) i \<noteq> 0)"
  shows "full_for T (T + E) occ h \<and> (\<exists>sw. ipa_nati_generate_index_rule clnt isw c = Inr (0, sw)) \<or>
    (\<exists>i q. slot_for T (T + E) occ B h i q \<and> q < 65536 \<and> ipa_nati_generate_index_rule clnt isw c = Inr (i, isw\<lparr>isw_prev_index := of_nat q\<rparr>))"
proof -
  note cs = ch[unfolded index_chains_def]
  have h: "0 < h" "h < T" using hash_range[of T] c by (auto simp: h_def sized_def)
  have rd: "read_index c False h = Inr (index_table c ! h)"
    "\<And>i. i < E \<Longrightarrow> read_index c True i = Inr (index_table c ! (T + i))" using c h read_index_ok[of c] by (auto simp: sized_def)
  let ?fl = "if next_of (index_table c ! h) = 0 then Inr (Some h)
     else find_last (\<lambda>i. bnd (read_index c True i) (\<lambda>r. Inr (next_of r))) T (2 ^ 16) 0 (next_of (index_table c ! h))"
  have fl: "?fl = Inr (Some (last (h # B h)))"
    by (rule find_last_chain[OF cs h, unfolded at_def]) (use rd c in \<open>auto simp: sized_def\<close>)
  have q: "last (h # B h) < 65536" using last_in_chain[OF cs h] c by (auto simp: sized_def)
  have hh: "unat (src_hash (r_private_ip clnt) (r_private_port clnt) (r_target_ip clnt) (r_target_port clnt) (r_protocol clnt) (of_nat T - 1)) = h"
    by (simp add: h_def src_bucket_def)
  have T: "table_entries c = T" using c by (simp add: sized_def)
  have gen: "ipa_nati_generate_index_rule clnt isw c = bnd (read_index c False h) (\<lambda>w.
      if entry_of w = 0 then Inr (h, isw\<lparr>isw_prev_index := 0\<rparr>)
      else bnd (if next_of w = 0 then Inr (Some h)
                else find_last (\<lambda>i. bnd (read_index c True i) (\<lambda>w. Inr (next_of w))) T (2 ^ 16) 0 (next_of w)) (\<lambda>prev. case prev of
        None \<Rightarrow> Inr (0, isw)
      | Some prev \<Rightarrow> bnd (ipa_nati_index_expn_get_free_entry c) (\<lambda>new_entry.
          if new_entry = 0 then Inr (0, isw\<lparr>isw_prev_index := of_nat prev\<rparr>)
          else if unat (isw_prev_index (isw\<lparr>isw_prev_index := of_nat prev\<rparr>)) = (new_entry + T) mod 2 ^ 16
               then Inr (0, isw\<lparr>isw_prev_index := of_nat prev\<rparr>)
               else Inr ((new_entry + T) mod 2 ^ 16, isw\<lparr>isw_prev_index := of_nat prev\<rparr>))))"
    by (simp only: ipa_nati_generate_index_rule_def Let_def hh T const_defs)
  have frees: "(\<forall>x. T < x \<and> x < T + E \<longrightarrow> occ x) \<and> ipa_nati_index_expn_get_free_entry c = Inr 0 \<or>
      (\<exists>f. 0 < f \<and> f < E \<and> \<not> occ (T + f) \<and> ipa_nati_index_expn_get_free_entry c = Inr f)"
    using free_loop_expn[of E "\<lambda>cnt. bnd (read_index c True cnt) (\<lambda>w. Inr (entry_of w \<noteq> 0))" occ T] rd(2) c
    by (simp add: ipa_nati_index_expn_get_free_entry_def occ_def at_def sized_def)
  show ?thesis
  proof (cases "occ h")
    case False
    then have "ipa_nati_generate_index_rule clnt isw c = Inr (h, isw\<lparr>isw_prev_index := of_nat 0\<rparr>)"
      using rd(1) by (simp add: gen occ_def at_def)
    moreover have "slot_for T (T + E) occ B h h 0" using False h by (simp add: slot_for_def)
    ultimately show ?thesis by fastforce
  next
    case True
    then have en: "entry_of (index_table c ! h) \<noteq> 0" by (simp add: occ_def at_def)
    let ?q = "last (h # B h)"
    let ?isw = "isw\<lparr>isw_prev_index := of_nat ?q\<rparr>"
    have gen': "ipa_nati_generate_index_rule clnt isw c = bnd (ipa_nati_index_expn_get_free_entry c) (\<lambda>new_entry.
          if new_entry = 0 then Inr (0, ?isw)
          else if unat (isw_prev_index ?isw) = (new_entry + T) mod 2 ^ 16 then Inr (0, ?isw)
               else Inr ((new_entry + T) mod 2 ^ 16, ?isw))"
      unfolding gen rd(1) bnd_simps using en by (simp only: fl bnd_simps option.case if_False simp_thms)
    have u: "unat (isw_prev_index ?isw) = ?q" using u16_of_nat[OF q] by simp
    from frees show ?thesis
    proof (elim disjE exE conjE)
      assume "\<forall>x. T < x \<and> x < T + E \<longrightarrow> occ x" and f: "ipa_nati_index_expn_get_free_entry c = Inr 0"
      then have "full_for T (T + E) occ h" using True by (simp add: full_for_def)
      then show ?thesis using f by (simp add: gen')
    next
      fix f assume f: "0 < f" "f < E" "\<not> occ (T + f)" "ipa_nati_index_expn_get_free_entry c = Inr f"
      have m: "(f + T) mod 2 ^ 16 = T + f" using f(2) c by (simp add: sized_def)
      have "?q \<in> set (h # B h)" by (rule last_in_set) simp
      then have "occ ?q" using True bucketD(5)[OF chains_bucket[OF cs h] h(2)] by (auto simp: occ_def)
      then have "?q \<noteq> T + f" using f(3) by metis
      then have "ipa_nati_generate_index_rule clnt isw c = Inr (T + f, ?isw)"
        using f(1) unfolding gen' f(4) bnd_simps m u by (simp only: if_False less_irrefl_nat if_not_P)
      moreover have "slot_for T (T + E) occ B h (T + f) ?q" using f True h by (simp add: slot_for_def)
      ultimately show ?thesis using q by blast
    qed
  qed
qed

section \<open>The device\<close>

text \<open>What is relied on of kernel and hardware: memory is available, and a posted command is carried out.\<close>

definition dev_ok :: "'w nat_dev \<Rightarrow> nat \<Rightarrow> nat \<Rightarrow> bool" where
  "dev_ok dev T E \<longleftrightarrow> (\<forall>w. fst (malloc dev w)) \<and>
     (\<forall>cmds rs is w. length rs = T + E \<and> length is = T + E \<and> (\<forall>cmd \<in> set cmds. dma_in T E cmd) \<longrightarrow>
        (\<exists>w'. ioctl_nat_dma dev cmds (rs, is) w = (0, fold (dma_write T) cmds (rs, is), w')))"

lemma dev_malloc: "dev_ok dev T E \<Longrightarrow> \<exists>w'. malloc dev w = (True, w')"
  unfolding dev_ok_def by (metis prod.collapse)

lemma post_dma_ok:
  assumes "dev_ok dev T E" "sized c T E" "\<forall>cmd \<in> set cmds. dma_in T E cmd"
    and "fold (dma_write T) cmds (ipv4_rules c, index_table c) = (rs, is)"
  shows "\<exists>w'. post_dma dev cmds (c, w) = (0, c\<lparr>ipv4_rules := rs, index_table := is\<rparr>, w')"
proof -
  have "length (ipv4_rules c) = T + E" "length (index_table c) = T + E" using assms(2) by (auto simp: sized_def)
  then obtain w' where "ioctl_nat_dma dev cmds (ipv4_rules c, index_table c) w = (0, (rs, is), w')"
    using assms(1,3,4) unfolding dev_ok_def by metis
  then show ?thesis by (simp add: post_dma_def)
qed

text \<open>Commands for an entry given by its number in the whole table.\<close>

definition rule_dma :: "nat \<Rightarrow> nat \<Rightarrow> nat \<Rightarrow> u32 \<Rightarrow> u16 \<Rightarrow> ipa_ioc_nat_dma_one" where
  "rule_dma ti T p k v = \<lparr>table_index = ti, base_addr = (if T \<le> p then IPA_NAT_EXPN_TBL else IPA_NAT_BASE_TBL),
     dma_offset = of_nat (32 * (if T \<le> p then p - T else p)) + k, dma_data = v\<rparr>"

definition index_dma :: "nat \<Rightarrow> nat \<Rightarrow> nat \<Rightarrow> u32 \<Rightarrow> u16 \<Rightarrow> ipa_ioc_nat_dma_one" where
  "index_dma ti T p k v = \<lparr>table_index = ti, base_addr = (if T \<le> p then IPA_NAT_INDEX_EXPN_TBL else IPA_NAT_INDX_TBL),
     dma_offset = of_nat (4 * (if T \<le> p then p - T else p)) + k, dma_data = v\<rparr>"

lemma unat_offset:
  assumes "e < 65536" "k < 32"
  shows "unat (of_nat (32 * e) + of_nat k :: u32) = 32 * e + k" "unat (of_nat (4 * e) + of_nat k :: u32) = 4 * e + k"
proof -
  have "of_nat (32 * e) + of_nat k = (of_nat (32 * e + k) :: u32)" "of_nat (4 * e) + of_nat k = (of_nat (4 * e + k) :: u32)" by simp_all
  then show "unat (of_nat (32 * e) + of_nat k :: u32) = 32 * e + k" "unat (of_nat (4 * e) + of_nat k :: u32) = 4 * e + k"
    using assms by (simp_all only: unat_of_nat) simp_all
qed

lemma rule_dma_write:
  assumes "p < T + E" "T \<le> 16384" "E \<le> 16384" "k < 32" "even k"
  shows "dma_write T (rule_dma ti T p (of_nat k) v) (rs, is) = (rs[p := write_half k v (rs ! p)], is)"
    "dma_in T E (rule_dma ti T p (of_nat k) v)"
proof -
  let ?e = "if T \<le> p then p - T else p"
  have o: "unat (of_nat (32 * ?e) + of_nat k :: u32) = 32 * ?e + k" using assms by (intro unat_offset) auto
  have d: "(32 * ?e + k) div 32 = ?e" "(32 * ?e + k) mod 32 = k" "even (32 * ?e + k)" using assms by auto
  show "dma_write T (rule_dma ti T p (of_nat k) v) (rs, is) = (rs[p := write_half k v (rs ! p)], is)"
    unfolding dma_write_def rule_dma_def ipa_ioc_nat_dma_one.select_convs o Let_def d by simp
  show "dma_in T E (rule_dma ti T p (of_nat k) v)"
    unfolding dma_in_def rule_dma_def ipa_ioc_nat_dma_one.select_convs o using d assms by (auto simp: even_iff_mod_2_eq_zero)
qed

lemma index_dma_write:
  assumes "p < T + E" "T \<le> 16384" "E \<le> 16384" "k < 4" "even k"
  shows "dma_write T (index_dma ti T p (of_nat k) v) (rs, is) = (rs, is[p := write_index_half k v (is ! p)])"
    "dma_in T E (index_dma ti T p (of_nat k) v)"
proof -
  let ?e = "if T \<le> p then p - T else p"
  have o: "unat (of_nat (4 * ?e) + of_nat k :: u32) = 4 * ?e + k" using assms by (intro unat_offset) auto
  have d: "(4 * ?e + k) div 4 = ?e" "(4 * ?e + k) mod 4 = k" "even (4 * ?e + k)" using assms by auto
  show "dma_write T (index_dma ti T p (of_nat k) v) (rs, is) = (rs, is[p := write_index_half k v (is ! p)])"
    unfolding dma_write_def index_dma_def ipa_ioc_nat_dma_one.select_convs o Let_def d by simp
  show "dma_in T E (index_dma ti T p (of_nat k) v)"
    unfolding dma_in_def index_dma_def ipa_ioc_nat_dma_one.select_convs o using d assms by (auto simp: even_iff_mod_2_eq_zero)
qed

lemmas rule_dma_num = rule_dma_write[where k = 8, simplified] rule_dma_write[where k = 18, simplified]
  rule_dma_write[where k = 22, simplified]
lemmas index_dma_num = index_dma_write[where k = 0, simplified] index_dma_write[where k = 2, simplified]

section \<open>Writing a new rule\<close>

definition link_rule :: "ipa_nat_rule list \<Rightarrow> nat \<Rightarrow> nat \<Rightarrow> ipa_nat_rule \<Rightarrow> ipa_nat_rule list" where
  "link_rule rs e q r = (let rs = rs[e := r] in if q \<noteq> 0 then rs[q := write_half 8 (of_nat e) (rs ! q)] else rs)"

definition link_index :: "u32 list \<Rightarrow> nat \<Rightarrow> nat \<Rightarrow> u32 \<Rightarrow> u32 list" where
  "link_index is i q w = (let is = is[i := w] in if q \<noteq> 0 then is[q := write_index_half 2 (of_nat i) (is ! q)] else is)"

lemma write_next_index_ok:
  assumes "dev_ok dev T E" "sized c T E" "dma_in T E \<lparr>table_index = ti, base_addr = ty, dma_offset = off, dma_data = of_nat v\<rparr>"
    and "dma_write T \<lparr>table_index = ti, base_addr = ty, dma_offset = off, dma_data = of_nat v\<rparr> (ipv4_rules c, index_table c) = (rs, is)"
  shows "\<exists>w'. ipa_nati_write_next_index dev ti ty v off (c, w) = (c\<lparr>ipv4_rules := rs, index_table := is\<rparr>, w')"
proof -
  obtain w1 where "malloc dev w = (True, w1)" using dev_malloc[OF assms(1)] by blast
  moreover obtain w2 where "post_dma dev [\<lparr>table_index = ti, base_addr = ty, dma_offset = off, dma_data = of_nat v\<rparr>] (c, w1) =
      (0, c\<lparr>ipv4_rules := rs, index_table := is\<rparr>, w2)" using post_dma_ok[OF assms(1,2)] assms(3,4) by fastforce
  ultimately show ?thesis by (simp add: ipa_nati_write_next_index_def)
qed

lemma sized_upd:
  assumes "sized c T E"
  shows "length rs = T + E \<Longrightarrow> sized (c\<lparr>ipv4_rules := rs\<rparr>) T E" "length is = T + E \<Longrightarrow> sized (c\<lparr>index_table := is\<rparr>) T E"
    "sized (c\<lparr>index_expn_table_meta := m\<rparr>) T E" "sized (c\<lparr>rule_id_array := a\<rparr>) T E"
  using assms by (simp_all add: sized_def)

lemma copy_rule_ok:
  assumes d: "dev_ok dev T E" and c: "sized c T E" "tbl_addr_offset c = 0" and e: "e < T + E"
    and q: "unat (sw_prev_index sw) = q" "q < T + E"
  shows "\<exists>w'. ipa_nati_copy_ipv4_rule_to_hw dev sw e ti (c, w) = Inr (c\<lparr>ipv4_rules := link_rule (ipv4_rules c) e q (hw_rule sw)\<rparr>, w')"
proof -
  note sz = c(1)[unfolded sized_def]
  let ?c = "c\<lparr>ipv4_rules := (ipv4_rules c)[e := hw_rule sw]\<rparr>"
  have w1: "(if e < table_entries c then write_rule c False e (hw_rule sw) else write_rule c True (e - table_entries c) (hw_rule sw)) = Inr ?c"
    using sz e write_rule_ok[of c] by auto
  have s1: "sized ?c T E" using sz by (simp add: sized_def)
  show ?thesis
  proof (cases "q = 0")
    case True
    then show ?thesis using w1 q by (simp add: ipa_nati_copy_ipv4_rule_to_hw_def Let_def const_defs link_rule_def)
  next
    case False
    let ?ty = "if q < T then IPA_NAT_BASE_TBL else IPA_NAT_EXPN_TBL" and ?q = "if q < T then q else q - T"
    let ?off = "ipa_nati_get_entry_offset ?c ?ty ?q + IPA_NAT_RULE_NEXT_FIELD_OFFSET"
    have cmd: "\<lparr>table_index = ti, base_addr = ?ty, dma_offset = ?off, dma_data = of_nat e\<rparr> = rule_dma ti T q 8 (of_nat e)"
      using c(2) by (simp add: rule_dma_def ipa_nati_get_entry_offset_def size_defs offset_defs)
    have inr: "dma_in T E (rule_dma ti T q 8 (of_nat e))" using q(2) sz by (intro rule_dma_num) auto
    have wr: "dma_write T (rule_dma ti T q 8 (of_nat e)) (ipv4_rules ?c, index_table ?c) =
        (link_rule (ipv4_rules c) e q (hw_rule sw), index_table c)"
      using False q(2) sz by (subst rule_dma_num(1)[where E = E]) (auto simp: link_rule_def Let_def)
    obtain w' where "ipa_nati_write_next_index dev ti ?ty e ?off (?c, w) =
        (?c\<lparr>ipv4_rules := link_rule (ipv4_rules c) e q (hw_rule sw), index_table := index_table c\<rparr>, w')"
      using write_next_index_ok[OF d s1, of ti ?ty ?off e, unfolded cmd, OF inr wr] by blast
    then show ?thesis using w1 q False sz
      by (cases "q < T") (simp_all add: ipa_nati_copy_ipv4_rule_to_hw_def Let_def const_defs)
  qed
qed

lemma ucast_of_nat16: "n < 65536 \<Longrightarrow> ucast (of_nat n :: u16) = (of_nat n :: u32)"
proof -
  assume "n < 65536"
  then have "take_bit 16 n = n" by (intro take_bit_nat_eq_self) simp
  then have "bit n k \<Longrightarrow> k < 16" for k by (metis bit_take_bit_iff)
  then show ?thesis by (intro bit_word_eqI) (auto simp: bit_simps)
qed

lemma index_offset16:
  assumes "e < 16384"
  shows "ucast (ucast (of_nat (4 * e) :: u32) + 2 :: u16) = (of_nat (4 * e) + 2 :: u32)"
proof -
  define n where "n = 4 * e"
  have n: "n + 2 < 65536" using assms by (simp add: n_def)
  have "ucast (of_nat n :: u32) = (of_nat n :: u16)" by (rule bit_word_eqI) (auto simp: bit_simps)
  moreover have "of_nat n + 2 = (of_nat (n + 2) :: u16)" "of_nat n + 2 = (of_nat (n + 2) :: u32)" by simp_all
  moreover have "ucast (of_nat (n + 2) :: u16) = (of_nat (n + 2) :: u32)" by (rule ucast_of_nat16[OF n])
  ultimately show ?thesis by (simp only: n_def)
qed

lemma copy_index_ok:
  assumes d: "dev_ok dev T E" and c: "sized c T E" "tbl_addr_offset c = 0" and i: "i < T + E"
    and q: "unat (isw_prev_index isw) = q" "q < T + E"
  shows "\<exists>w'. ipa_nati_copy_ipv4_index_rule_to_hw dev isw i ti (c, w) =
     Inr (c\<lparr>index_table := link_index (index_table c) i q (cat16 (isw_next_index isw) (isw_tbl_entry isw))\<rparr>, w')"
proof -
  note sz = c(1)[unfolded sized_def]
  let ?v = "cat16 (isw_next_index isw) (isw_tbl_entry isw)"
  let ?c = "c\<lparr>index_table := (index_table c)[i := ?v]\<rparr>"
  have w1: "(if i < table_entries c then write_index c False i ?v else write_index c True (i - table_entries c) ?v) = Inr ?c"
    using sz i write_index_ok[of c] by auto
  have s1: "sized ?c T E" using sz by (simp add: sized_def)
  show ?thesis
  proof (cases "q = 0")
    case True
    then show ?thesis using w1 q by (simp add: ipa_nati_copy_ipv4_index_rule_to_hw_def Let_def const_defs link_index_def)
  next
    case False
    let ?ty = "if q < T then IPA_NAT_INDX_TBL else IPA_NAT_INDEX_EXPN_TBL" and ?q = "if q < T then q else q - T"
    let ?off = "ucast (ucast (ipa_nati_get_index_entry_offset ?c ?ty ?q) + ucast IPA_NAT_INDEX_RULE_NEXT_FIELD_OFFSET :: u16) :: u32"
    have o: "?off = of_nat (4 * ?q) + 2"
      using index_offset16[of ?q] q(2) sz c(2) by (auto simp: ipa_nati_get_index_entry_offset_def size_defs offset_defs)
    have cmd: "\<lparr>table_index = ti, base_addr = ?ty, dma_offset = ?off, dma_data = of_nat i\<rparr> = index_dma ti T q 2 (of_nat i)"
      unfolding o by (simp add: index_dma_def)
    have inr: "dma_in T E (index_dma ti T q 2 (of_nat i))" using q(2) sz by (intro index_dma_num) auto
    have wr: "dma_write T (index_dma ti T q 2 (of_nat i)) (ipv4_rules ?c, index_table ?c) =
        (ipv4_rules c, link_index (index_table c) i q ?v)"
      using False q(2) sz by (subst index_dma_num(3)[where E = E]) (auto simp: link_index_def Let_def)
    obtain w' where "ipa_nati_write_next_index dev ti ?ty i ?off (?c, w) =
        (?c\<lparr>ipv4_rules := ipv4_rules c, index_table := link_index (index_table c) i q ?v\<rparr>, w')"
      using write_next_index_ok[OF d s1, of ti ?ty ?off i, unfolded cmd, OF inr wr] by blast
    then show ?thesis using w1 q False sz
      by (cases "q < T") (simp_all add: ipa_nati_copy_ipv4_index_rule_to_hw_def Let_def const_defs)
  qed
qed

lemma post_enable_ok:
  assumes d: "dev_ok dev T E" and c: "sized c T E" "tbl_addr_offset c = 0" and e: "e < T + E"
  shows "\<exists>w'. ipa_nati_post_ipv4_dma_cmd dev ti e (c, w) =
     (0, c\<lparr>ipv4_rules := (ipv4_rules c)[e := write_half 18 IPA_NAT_FLAG_ENABLE_BIT_MASK (ipv4_rules c ! e)]\<rparr>, w')"
proof -
  note sz = c(1)[unfolded sized_def]
  let ?cmd = "rule_dma ti T e 18 IPA_NAT_FLAG_ENABLE_BIT_MASK"
  let ?rs = "(ipv4_rules c)[e := write_half 18 IPA_NAT_FLAG_ENABLE_BIT_MASK (ipv4_rules c ! e)]"
  obtain w1 where m: "malloc dev w = (True, w1)" using dev_malloc[OF d] by blast
  have "dma_in T E ?cmd" using e sz by (intro rule_dma_num) auto
  moreover have "dma_write T ?cmd (ipv4_rules c, index_table c) = (?rs, index_table c)"
    using e sz by (subst rule_dma_num(3)[where E = E]) auto
  ultimately obtain w2 where "post_dma dev [?cmd] (c, w1) = (0, c\<lparr>ipv4_rules := ?rs, index_table := index_table c\<rparr>, w2)"
    using post_dma_ok[OF d c(1), of "[?cmd]"] by fastforce
  then show ?thesis using m c(2) sz
    by (cases "T \<le> e") (simp_all add: ipa_nati_post_ipv4_dma_cmd_def rule_dma_def size_defs offset_defs Let_def)
qed

section \<open>Inserting an entry\<close>

lemma chains_slot:
  assumes c: "chains T N nxt prv occ B" and s: "slot_for T N occ B h e q"
  shows "\<exists>B'. chains T N (if q = 0 then nxt(e := 0) else nxt(e := 0, q := e)) (prv(e := q)) (occ(e := True)) B' \<and>
     (\<forall>k. set (k # B' k) \<subseteq> set (k # B k) \<union> (if k = h then {e} else {}))"
proof -
  have h: "0 < h" "h < T" "\<not> occ e" using s by (auto simp: slot_for_def)
  show ?thesis
  proof (cases "e = h \<and> q = 0")
    case True
    have "B h = []" using bucketD(4)[OF chains_bucket[OF c h(1,2)] h(2)] True h(3) by auto
    then have "nxt h = 0" using bucketD(1)[OF chains_bucket[OF c h(1,2)] h(2)] by simp
    then have "chains T N (nxt(e := 0)) (prv(e := q)) (occ(e := True)) B"
      by (intro chains_heads[OF c]) (use True h c in \<open>auto simp: chains_def\<close>)
    then show ?thesis using True by (intro exI[of _ B]) auto
  next
    case False
    then have n: "T < e" "e < N" "occ h" "q = last (h # B h)" using s by (auto simp: slot_for_def)
    have "q \<noteq> 0" using last_in_chain[OF c h(1,2)] n(4) by simp
    then show ?thesis using chains_append[OF c h(1,2) n(3,1,2) h(3)] n(4) by (intro exI[of _ "B(h := B h @ [e])"]) auto
  qed
qed

lemma slot_fresh:
  assumes c: "chains T N nxt prv occ B" and s: "slot_for T N occ B h e q"
  shows "0 < e" "e < N" "\<not> occ e" "q \<noteq> e" "q < N" "0 < k \<Longrightarrow> k < T \<Longrightarrow> e \<in> set (k # B k) \<Longrightarrow> k = h"
proof -
  have h: "0 < h" "h < T" and e: "\<not> occ e" and TN: "T \<le> N" using s c by (auto simp: slot_for_def chains_def)
  show "0 < e" "e < N" "\<not> occ e" using s TN by (auto simp: slot_for_def)
  have "last (h # B h) \<in> set (h # B h)" by (rule last_in_set) simp
  then have "occ h \<Longrightarrow> occ (last (h # B h))" using bucketD(5)[OF chains_bucket[OF c h] h(2)] by auto
  then have "q = 0 \<or> occ q" using s by (auto simp: slot_for_def simp del: last.simps)
  then show "q \<noteq> e" using e \<open>0 < e\<close> by auto
  show "q < N" using s last_in_chain[OF c h] \<open>e < N\<close> by (auto simp: slot_for_def simp del: last.simps)
  show "k = h" if k: "0 < k" "k < T" "e \<in> set (k # B k)"
    using k(3) bucketD(5)[OF chains_bucket[OF c k(1,2)] k(2)] e k(2) s by (auto simp: slot_for_def)
qed

lemma chains_entry:
  assumes c: "chains T N nxt prv occ B" and g: "0 < g" "g < T" and x: "x \<in> set (g # B g)"
  shows "x < N"
proof -
  have "T \<le> N" using c by (simp add: chains_def)
  then show ?thesis using x bucketD(5)[OF chains_bucket[OF c g] g(2), of x] g(2) by auto
qed

lemma placed_slot:
  assumes p: "placed T occ key B" and c: "chains T N nxt prv en B" and s: "slot_for T N en B h e q"
    and B': "\<And>k. set (k # B' k) \<subseteq> set (k # B k) \<union> (if k = h then {e} else {})"
    and k: "key' e = h" "\<And>x. x \<noteq> e \<Longrightarrow> x < N \<Longrightarrow> occ x \<Longrightarrow> key' x = key x"
  shows "placed T (occ(e := True)) key' B'"
  unfolding placed_def
proof (intro allI impI, elim conjE)
  fix g x assume g: "0 < g" "g < T" and x: "x \<in> set (g # B' g)" "(occ(e := True)) x"
  show "key' x = g"
  proof (cases "x = e")
    case True
    then have "g = h \<or> e \<in> set (g # B g)" using x(1) B'[of g] by (auto split: if_splits)
    then show ?thesis using slot_fresh(6)[OF c s g] k(1) True by auto
  next
    case False
    then have "x \<in> set (g # B g)" "occ x" using x B'[of g] by (auto split: if_splits)
    then have "key x = g" using p g unfolding placed_def by blast
    moreover have "x < N" using chains_entry[OF c g \<open>x \<in> set (g # B g)\<close>] .
    ultimately show ?thesis using k(2)[OF False _ \<open>occ x\<close>] by simp
  qed
qed

text \<open>The rule table after an insertion, field by field.\<close>

definition new_rules :: "ipa_nat_rule list \<Rightarrow> nat \<Rightarrow> nat \<Rightarrow> ipa_nat_rule \<Rightarrow> ipa_nat_rule list" where
  "new_rules rs e q r = (let l = link_rule rs e q r in l[e := write_half 18 IPA_NAT_FLAG_ENABLE_BIT_MASK (l ! e)])"

lemma new_rules_eq:
  assumes "e < length rs" "q < length rs" "q \<noteq> e"
  shows "new_rules rs e q r = (let l = rs[e := write_half 18 IPA_NAT_FLAG_ENABLE_BIT_MASK r]
     in if q \<noteq> 0 then l[q := write_half 8 (of_nat e) (rs ! q)] else l)"
  using assms by (simp add: new_rules_def link_rule_def Let_def list_update_swap)

lemma new_rules_nxt:
  assumes "e < length rs" "q < length rs" "q \<noteq> e" "nxt_of r = 0" "length rs \<le> 65536"
  shows "at nxt_of (new_rules rs e q r) = (if q = 0 then (at nxt_of rs)(e := 0) else (at nxt_of rs)(e := 0, q := e))"
  using assms by (simp add: new_rules_eq Let_def at_upd fld u16_of_nat)

lemma new_rules_field:
  assumes "e < length rs" "q < length rs" "q \<noteq> e" and "\<And>v x. f (write_half 8 v x) = f x"
  shows "at f (new_rules rs e q r) = (at f rs)(e := f (write_half 18 IPA_NAT_FLAG_ENABLE_BIT_MASK r))"
proof -
  have "(at f rs)(e := y, q := f (rs ! q)) = (at f rs)(e := y)" for y using assms(3) by (auto simp: fun_eq_iff at_def)
  then show ?thesis using assms by (simp add: new_rules_eq Let_def at_upd)
qed

lemma live_write [fld]: "live_of (write_half 8 v r) = live_of r"
  "live_of (write_half 18 IPA_NAT_FLAG_ENABLE_BIT_MASK r) \<longleftrightarrow> proto_of r \<noteq> IPA_NAT_INVALID_PROTO_FIELD_CMP"
  by (simp_all add: live_of_def fld)

lemma length_new [simp]: "length (new_rules rs e q r) = length rs" "length (link_index is i q w) = length is"
  by (simp_all add: new_rules_def link_rule_def link_index_def Let_def)

lemma link_index_fields:
  assumes "i < length is" "q < length is" "q \<noteq> i" "length is \<le> 65536"
  shows "at next_of (link_index is i q w) = (if q = 0 then (at next_of is)(i := next_of w) else (at next_of is)(i := next_of w, q := i))"
    "at entry_of (link_index is i q w) = (at entry_of is)(i := entry_of w)"
proof -
  have "(at entry_of is)(i := y, q := entry_of (is ! q)) = (at entry_of is)(i := y)" for y
    using assms(3) by (auto simp: fun_eq_iff at_def)
  then show "at entry_of (link_index is i q w) = (at entry_of is)(i := entry_of w)"
    using assms by (simp add: link_index_def Let_def at_upd fld)
  show "at next_of (link_index is i q w) = (if q = 0 then (at next_of is)(i := next_of w) else (at next_of is)(i := next_of w, q := i))"
    using assms by (simp add: link_index_def Let_def at_upd fld u16_of_nat)
qed

lemma meta_upd:
  "T < i \<Longrightarrow> i < T + length ms \<Longrightarrow> (\<lambda>x. ms[i - T := v] ! (x - T)) = (\<lambda>x. ms ! (x - T))(i := v)"
  by (rule ext) (auto simp: nth_list_update)

lemma mem_invD:
  assumes "mem_inv T E rs is ms ids B BI"
  shows "shape T E rs is ms ids" "rule_chains T (T + E) rs B" "index_chains T (T + E) is ms BI" "deads T (T + E) rs"
    "crossed (T + E) (at live_of rs) (at indx_of rs) (at entry_of is)"
    "placed T (at live_of rs) (\<lambda>e. dst_bucket T (clnt_of (rs ! e))) B"
    "placed T (\<lambda>i. at entry_of is i \<noteq> 0) (\<lambda>i. src_bucket T (clnt_of (rs ! entry_of (is ! i)))) BI"
    "handles T (T + E) (at live_of rs) (\<lambda>k. ids ! k)"
  using assms by (simp_all add: mem_inv_def)

lemma nth_upd_fun: "k < length xs \<Longrightarrow> (\<lambda>x. xs[k := v] ! x) = (\<lambda>x. xs ! x)(k := v)"
  by (auto simp: fun_eq_iff)

lemma deads_at: "deads T N rs \<longleftrightarrow> (\<forall>e < N. at enabled_of rs e \<and> \<not> at live_of rs e \<longrightarrow> e < T \<and> at nxt_of rs e \<noteq> 0)"
  by (simp add: deads_def at_def)

text \<open>The new rule \<open>r\<close> at entry \<open>e\<close>, its index entry at \<open>i\<close>, its handle in slot \<open>k\<close>.\<close>

lemma mem_insert:
  assumes inv: "mem_inv T E rs is ms ids B BI"
    and se: "slot_for T (T + E) (at enabled_of rs) B (dst_bucket T clnt) e q"
    and si: "slot_for T (T + E) (\<lambda>i. at entry_of is i \<noteq> 0) BI (src_bucket T clnt) i q'"
    and r: "nxt_of r = 0" "prev_of r = q" "indx_of r = i" "clnt_of r = clnt" "r_protocol clnt \<noteq> IPA_NAT_INVALID_PROTO_FIELD_CMP"
    and k: "k < T + E" "ids ! k = 0" "k + 1 < T + E"
  defines "rs' \<equiv> new_rules rs e q r" and "is' \<equiv> link_index is i q' (cat16 0 (of_nat e))"
    and "ms' \<equiv> if T \<le> i then ms[i - T := q'] else ms"
  shows "(\<exists>B' BI'. mem_inv T E rs' is' ms' (ids[k := enc T e]) B' BI') \<and> e < T + E \<and> \<not> live_of (rs ! e) \<and>
     at live_of rs' = (at live_of rs)(e := True) \<and> at clnt_of rs' = (at clnt_of rs)(e := clnt)"
proof -
  let ?N = "T + E"
  note D = mem_invD[OF inv]
  note sh = D(1)[unfolded shape_def]
  note rc = D(2)[unfolded rule_chains_def] and ic = D(3)[unfolded index_chains_def]
  note fe = slot_fresh[OF rc se] and fi = slot_fresh[OF ic si]
  have len: "e < length rs" "q < length rs" "length rs \<le> 65536" "i < length is" "q' < length is" "length is \<le> 65536" "e < 65536"
    using fe fi sh by auto
  have proto: "proto_of r \<noteq> IPA_NAT_INVALID_PROTO_FIELD_CMP" using r(4,5) by (auto simp: clnt_of_def)
  note ne = new_rules_field[OF len(1,2) fe(4)]
  have R: "at nxt_of rs' = (if q = 0 then (at nxt_of rs)(e := 0) else (at nxt_of rs)(e := 0, q := e))"
    "at prev_of rs' = (at prev_of rs)(e := q)" "at enabled_of rs' = (at enabled_of rs)(e := True)"
    "at live_of rs' = (at live_of rs)(e := True)" "at indx_of rs' = (at indx_of rs)(e := i)"
    "at clnt_of rs' = (at clnt_of rs)(e := clnt)"
    unfolding rs'_def using new_rules_nxt[OF len(1,2) fe(4) r(1) len(3)] r proto by (simp_all add: ne fld)
  have I: "at next_of is' = (if q' = 0 then (at next_of is)(i := 0) else (at next_of is)(i := 0, q' := i))"
    "at entry_of is' = (at entry_of is)(i := e)"
    unfolding is'_def using link_index_fields[OF len(4,5) fi(4) len(6)] len(7) by (simp_all add: fld u16_of_nat)
  have nl: "\<not> at live_of rs e" using fe(3) by (simp add: at_def live_of_def)
  obtain B' where B': "chains T ?N (at nxt_of rs') (at prev_of rs') (at enabled_of rs') B'"
    "\<And>g. set (g # B' g) \<subseteq> set (g # B g) \<union> (if g = dst_bucket T clnt then {e} else {})"
    using chains_slot[OF rc se] unfolding R by blast
  have pm: "(\<lambda>x. ms' ! (x - T)) = (\<lambda>x. ms ! (x - T))(i := q')" if "T < i"
    using that meta_upd[of T i ms q'] fi(2) sh by (simp add: ms'_def)
  obtain BI0 where BI0: "chains T ?N (at next_of is') ((\<lambda>x. ms ! (x - T))(i := q')) ((\<lambda>x. at entry_of is x \<noteq> 0)(i := True)) BI0"
    "\<And>g. set (g # BI0 g) \<subseteq> set (g # BI g) \<union> (if g = src_bucket T clnt then {i} else {})"
    using chains_slot[OF ic si] unfolding I by blast
  have occ: "(\<lambda>x. at entry_of is' x \<noteq> 0) = (\<lambda>x. at entry_of is x \<noteq> 0)(i := True)" using fe(1) by (auto simp: I(2) fun_eq_iff)
  have ch: "chains T ?N (at next_of is') (\<lambda>x. ms' ! (x - T)) (\<lambda>x. at entry_of is' x \<noteq> 0) BI0"
  proof (cases "T < i")
    case True
    then show ?thesis using BI0(1) by (simp only: pm occ)
  next
    case False
    then have "i < T" using si by (auto simp: slot_for_def)
    show ?thesis unfolding occ
      by (rule chains_heads[OF BI0(1)]) (use \<open>i < T\<close> BI0(1) in \<open>auto simp: ms'_def chains_def\<close>)
  qed
  have "mem_inv T E rs' is' ms' (ids[k := enc T e]) B' BI0"
    unfolding mem_inv_def rule_chains_def index_chains_def
  proof (intro conjI)
    show "shape T E rs' is' ms' (ids[k := enc T e])" using sh k(3) by (simp add: shape_def rs'_def is'_def ms'_def)
    show "chains T ?N (at nxt_of rs') (at prev_of rs') (at enabled_of rs') B'" by (rule B')
    show "chains T ?N (at next_of is') (\<lambda>x. ms' ! (x - T)) (\<lambda>x. at entry_of is' x \<noteq> 0) BI0" by (rule ch)
    show "deads T ?N rs'" using D(4) fe(1) unfolding deads_at R by auto
    show "crossed ?N (at live_of rs') (at indx_of rs') (at entry_of is')"
      unfolding R I using crossed_add[OF D(5) fe(1,2) nl fi(2)] fi(3) by simp
    show "placed T (at live_of rs') (\<lambda>e. dst_bucket T (clnt_of (rs' ! e))) B'"
      unfolding R(4) by (rule placed_slot[OF D(6) rc se B'(2)]) (use R(6) in \<open>auto simp: at_def fun_eq_iff\<close>)
    have "placed T ((\<lambda>x. at entry_of is x \<noteq> 0)(i := True)) (\<lambda>i. src_bucket T (clnt_of (rs' ! entry_of (is' ! i)))) BI0"
    proof (rule placed_slot[OF D(7) ic si BI0(2)])
      have en: "entry_of (is' ! x) = (if x = i then e else entry_of (is ! x))" for x using fun_cong[OF I(2), of x] by (simp add: at_def)
      have cl: "clnt_of (rs' ! x) = (if x = e then clnt else clnt_of (rs ! x))" for x using fun_cong[OF R(6), of x] by (simp add: at_def)
      show "src_bucket T (clnt_of (rs' ! entry_of (is' ! i))) = src_bucket T clnt" by (simp add: en cl)
      fix x assume x: "x \<noteq> i" "x < ?N" "at entry_of is x \<noteq> 0"
      have "entry_of (is ! x) \<noteq> e" using crossedD2(2)[OF D(5) x(2,3)] nl by (auto simp: at_def)
      then show "src_bucket T (clnt_of (rs' ! entry_of (is' ! x))) = src_bucket T (clnt_of (rs ! entry_of (is ! x)))"
        using x(1) by (auto simp: en cl)
    qed
    then show "placed T (\<lambda>i. at entry_of is' i \<noteq> 0) (\<lambda>i. src_bucket T (clnt_of (rs' ! entry_of (is' ! i)))) BI0" by (simp only: occ)
    have z: "\<not> at live_of rs 0" using crossedD(1)[OF D(5), of 0] sh by auto
    have "k < length ids" using k(1) sh by simp
    then show "handles T ?N (at live_of rs') (\<lambda>x. ids[k := enc T e] ! x)"
      unfolding R(4) using handles_add[OF D(8) fe(2,1) nl z k(1,2)] by (simp only: nth_upd_fun)
  qed
  then show ?thesis using R(4,6) fe(2) nl by (auto simp: at_def)
qed

section \<open>Handles\<close>

definition dec :: "nat \<Rightarrow> nat \<Rightarrow> nat" where
  "dec T n = (if odd n then T + n div 2 else n div 2)"

lemma dec_enc [simp]: "dec T (enc T e) = e"
  by (auto simp: dec_def enc_def)

text \<open>The rule a handle stands for.\<close>

definition hdl_rules :: "ipa_nat_ip4_table_cache \<Rightarrow> nat \<rightharpoonup> ipa_nat_ipv4_rule" where
  "hdl_rules c hdl =
     (case rule_id_array c of
        None \<Rightarrow> None
      | Some ids \<Rightarrow> if 0 < hdl \<and> hdl < length ids \<and> ids ! (hdl - 1) \<noteq> 0
                    then Some (clnt_of (ipv4_rules c ! dec (table_entries c) (ids ! (hdl - 1)))) else None)"

text \<open>There is always a free slot for the handle of a rule that fits into the table, and not the last one, so that
  \<open>ipa_nati_parse_ipv4_rule_hdl\<close> accepts the handle.\<close>

lemma handles_slot:
  assumes h: "handles T N live ids" and nl: "\<not> live 0" "\<not> live T" "\<not> live e" and e: "0 < e" "e < N" "e \<noteq> T" "0 < T" "T < N"
    and k: "\<forall>j < k. ids j \<noteq> 0" "k \<le> N"
  shows "k + 2 < N"
proof -
  define f where "f j = dec T (ids j)" for j
  have "\<exists>x < N. live x \<and> ids j = enc T x" if "j < k" for j using handlesD(1)[OF h, of j] that k by auto
  then have f: "f j < N \<and> live (f j) \<and> ids j = enc T (f j)" if "j < k" for j using that unfolding f_def by fastforce
  have "inj_on f {..<k}"
  proof (rule inj_onI)
    fix x y assume x: "x \<in> {..<k}" and y: "y \<in> {..<k}" and eq: "f x = f y"
    then have "ids x = ids y" using f[of x] f[of y] by simp
    then show "x = y" using handlesD(3)[OF h, of x y] x y k by auto
  qed
  moreover have "f j < N \<and> f j \<noteq> 0 \<and> f j \<noteq> T \<and> f j \<noteq> e" if "j < k" for j using f[OF that] nl by metis
  then have "f ` {..<k} \<subseteq> {..<N} - {0, T, e}" by (intro image_subsetI) simp
  then have "card (f ` {..<k}) \<le> card ({..<N} - {0, T, e})" by (intro card_mono) auto
  moreover have "card ({..<N} - {0, T, e}) = N - 3" using e by (subst card_Diff_subset) auto
  ultimately have "k \<le> N - 3" by (simp add: card_image)
  moreover have "3 \<le> N" using e by linarith
  ultimately show ?thesis by linarith
qed

lemma handles_slot_expn:
  assumes inv: "mem_inv T E rs is ms ids B BI"
  shows "\<not> at live_of rs T" "\<not> at live_of rs 0" "e < T + E \<Longrightarrow> at live_of rs e \<Longrightarrow> e \<noteq> T \<and> 0 < e"
proof -
  note rc = mem_invD(2)[OF inv, unfolded rule_chains_def]
  have sh: "2 \<le> E" using mem_invD(1)[OF inv] by (simp add: shape_def)
  have "\<not> at enabled_of rs T"
  proof
    assume "at enabled_of rs T"
    then obtain h xs ys where "0 < h" "h < T" "B h = xs @ T # ys" using chains_expn[OF rc, of T] sh by auto
    then show False using bucketD(5)[OF chains_bucket[OF rc] , of h T] by auto
  qed
  moreover have "\<not> at enabled_of rs 0" using rc by (simp add: chains_def)
  ultimately show *: "\<not> at live_of rs T" "\<not> at live_of rs 0" by (simp_all add: at_def live_of_def)
  show "e < T + E \<Longrightarrow> at live_of rs e \<Longrightarrow> e \<noteq> T \<and> 0 < e" using * by (metis gr0I)
qed

section \<open>Adding a rule\<close>

definition tbl_inv :: "ipa_nat_ip4_table_cache \<Rightarrow> bool" where
  "tbl_inv c \<longleftrightarrow> valid c \<and> tbl_addr_offset c = 0 \<and>
     (\<exists>ms ids B BI. index_expn_table_meta c = Some ms \<and> rule_id_array c = Some ids \<and>
        mem_inv (table_entries c) (expn_table_entries c) (ipv4_rules c) (index_table c) ms ids B BI)"

definition same_table :: "ipa_nat_ip4_table_cache \<Rightarrow> ipa_nat_ip4_table_cache \<Rightarrow> bool" where
  "same_table c c' \<longleftrightarrow> table_entries c' = table_entries c \<and> expn_table_entries c' = expn_table_entries c \<and>
     public_addr c' = public_addr c \<and> nat_fd c' = nat_fd c \<and> tbl_size c' = tbl_size c"

text \<open>Bucket or index bucket of the rule taken and the expansion area full.\<close>

definition tbl_full :: "ipa_nat_ip4_table_cache \<Rightarrow> ipa_nat_ipv4_rule \<Rightarrow> bool" where
  "tbl_full c clnt \<longleftrightarrow> (let T = table_entries c; N = T + expn_table_entries c
     in full_for T N (at enabled_of (ipv4_rules c)) (dst_bucket T clnt) \<or>
        full_for T N (\<lambda>i. at entry_of (index_table c) i \<noteq> 0) (src_bucket T clnt))"

lemma fresh_prev: "fresh_sw clnt sw \<Longrightarrow> fresh_sw clnt (sw\<lparr>sw_indx_tbl_entry := i\<rparr>)"
  by (simp add: fresh_sw_def fld)

lemma make_rule_hdl_ok:
  assumes "rule_id_array c = Some ids" "length ids = table_entries c + expn_table_entries c" "find_slot (\<lambda>x. x = 0) ids = Some k"
    and "length ids \<le> 32768" "e < length ids"
  shows "ipa_nati_make_rule_hdl c e = Inr (k + 1, c\<lparr>rule_id_array := Some (ids[k := enc (table_entries c) e])\<rparr>)"
proof -
  have "k < length ids" using find_slot_SomeD(1)[OF assms(3)] .
  then show ?thesis using assms by (simp add: ipa_nati_make_rule_hdl_def Let_def enc_def const_defs)
qed

lemma generate_rule_ok:
  assumes c: "sized c T E" and ch: "rule_chains T (T + E) (ipv4_rules c) B" "index_chains T (T + E) (index_table c) ms BI"
    and m: "index_expn_table_meta c = Some ms" "length ms = E"
  shows "tbl_full c clnt \<and> (\<exists>x. ipa_nati_generate_rule clnt c = Inr (- EINVAL, fst x, snd x, c)) \<or>
    (\<exists>e q sw i q'. slot_for T (T + E) (at enabled_of (ipv4_rules c)) B (dst_bucket T clnt) e q \<and>
       slot_for T (T + E) (\<lambda>i. at entry_of (index_table c) i \<noteq> 0) BI (src_bucket T clnt) i q' \<and> q' < 65536 \<and>
       fresh_sw clnt sw \<and> unat (sw_prev_index sw) = q \<and> sw_indx_tbl_entry sw = of_nat i \<and>
       ipa_nati_generate_rule clnt c = Inr (0, (sw, e), (\<lparr>isw_tbl_entry = of_nat e, isw_next_index = 0, isw_prev_index = of_nat q'\<rparr>, i),
         c\<lparr>index_expn_table_meta := Some (if T \<le> i then ms[i - T := q'] else ms)\<rparr>))"
proof -
  have T: "table_entries c = T" "expn_table_entries c = E" using c by (simp_all add: sized_def)
  note full = tbl_full_def T Let_def
  from generate_tbl_rule_spec[OF c ch(1), of clnt] show ?thesis
  proof (elim disjE exE conjE)
    fix sw assume "full_for T (T + E) (at enabled_of (ipv4_rules c)) (dst_bucket T clnt)"
      and g: "ipa_nati_generate_tbl_rule clnt zero_sw_rule c = Inr (0, sw)"
    then have "tbl_full c clnt" by (simp add: full)
    moreover have "\<exists>x. ipa_nati_generate_rule clnt c = Inr (- EINVAL, fst x, snd x, c)"
      by (simp add: ipa_nati_generate_rule_def Let_def g const_defs)
    ultimately show ?thesis by blast
  next
    fix e q sw assume se: "slot_for T (T + E) (at enabled_of (ipv4_rules c)) B (dst_bucket T clnt) e q"
      and g: "ipa_nati_generate_tbl_rule clnt zero_sw_rule c = Inr (e, sw)" and sw: "unat (sw_prev_index sw) = q" "fresh_sw clnt sw"
    have e: "0 < e" using slot_fresh(1)[OF ch(1)[unfolded rule_chains_def] se] .
    let ?isw = "\<lparr>isw_tbl_entry = of_nat e, isw_next_index = 0, isw_prev_index = 0\<rparr>"
    from generate_index_rule_spec[OF c ch(2), of clnt ?isw] show ?thesis
    proof (elim disjE exE conjE)
      fix x assume "full_for T (T + E) (\<lambda>i. at entry_of (index_table c) i \<noteq> 0) (src_bucket T clnt)"
        and gi: "ipa_nati_generate_index_rule clnt ?isw c = Inr (0, x)"
      then have "tbl_full c clnt" by (simp add: full)
      moreover have "\<exists>x. ipa_nati_generate_rule clnt c = Inr (- EINVAL, fst x, snd x, c)"
        using e by (simp add: ipa_nati_generate_rule_def Let_def g gi const_defs)
      ultimately show ?thesis by blast
    next
      fix i q' assume si: "slot_for T (T + E) (\<lambda>i. at entry_of (index_table c) i \<noteq> 0) BI (src_bucket T clnt) i q'" and q': "q' < 65536"
        and gi: "ipa_nati_generate_index_rule clnt ?isw c = Inr (i, ?isw\<lparr>isw_prev_index := of_nat q'\<rparr>)"
      note fi = slot_fresh[OF ch(2)[unfolded index_chains_def] si]
      have "T < i \<or> i < T" using si by (auto simp: slot_for_def)
      have "ipa_nati_generate_rule clnt c = Inr (0, (sw\<lparr>sw_indx_tbl_entry := of_nat i\<rparr>, e),
          (\<lparr>isw_tbl_entry = of_nat e, isw_next_index = 0, isw_prev_index = of_nat q'\<rparr>, i),
          c\<lparr>index_expn_table_meta := Some (if T \<le> i then ms[i - T := q'] else ms)\<rparr>)"
        using e fi(1,2) gi m T(1) u16_of_nat[OF q']
        by (cases "T \<le> i") (simp_all add: ipa_nati_generate_rule_def Let_def g const_defs write_meta_def array_set_def)
      then show ?thesis using se si q' fresh_prev[OF sw(2)] sw(1)
        by (intro disjI2 exI[of _ e] exI[of _ q] exI[of _ "sw\<lparr>sw_indx_tbl_entry := of_nat i\<rparr>"] exI[of _ i] exI[of _ q']) simp
    qed
  qed
qed

lemma tbl_invD:
  assumes "tbl_inv c"
  obtains ms ids B BI where "valid c" "tbl_addr_offset c = 0" "index_expn_table_meta c = Some ms" "rule_id_array c = Some ids"
    "mem_inv (table_entries c) (expn_table_entries c) (ipv4_rules c) (index_table c) ms ids B BI"
    "sized c (table_entries c) (expn_table_entries c)"
proof -
  obtain ms ids B BI where m: "valid c" "tbl_addr_offset c = 0" "index_expn_table_meta c = Some ms" "rule_id_array c = Some ids"
    "mem_inv (table_entries c) (expn_table_entries c) (ipv4_rules c) (index_table c) ms ids B BI"
    using assms unfolding tbl_inv_def by blast
  moreover have "sized c (table_entries c) (expn_table_entries c)"
    using mem_invD(1)[OF m(5)] by (simp add: sized_def shape_def)
  ultimately show ?thesis using that by blast
qed

lemma tbl_invI:
  assumes "mem_inv T E rs is ms ids B BI" "valid c" "tbl_addr_offset c = 0" "table_entries c = T" "expn_table_entries c = E"
    "ipv4_rules c = rs" "index_table c = is" "index_expn_table_meta c = Some ms" "rule_id_array c = Some ids"
  shows "tbl_inv c"
  unfolding tbl_inv_def using assms by blast

text \<open>Writing a generated rule: copies, links, enabling, handle.\<close>

lemma write_generated:
  assumes d: "dev_ok dev T E" and c: "sized c T E" "tbl_addr_offset c = 0" and e: "e < T + E" "i < T + E"
    and q: "unat (sw_prev_index sw) = q" "q < T + E" "q' < T + E" "q' < 65536"
    and isw: "isw = \<lparr>isw_tbl_entry = of_nat e, isw_next_index = 0, isw_prev_index = of_nat q'\<rparr>"
  shows "\<exists>w1 w2 w3 c1 c2. ipa_nati_copy_ipv4_rule_to_hw dev sw e ti (c, w) = Inr (c1, w1) \<and>
     ipa_nati_copy_ipv4_index_rule_to_hw dev isw i ti (c1, w1) = Inr (c2, w2) \<and>
     ipa_nati_post_ipv4_dma_cmd dev ti e (c2, w2) =
       (0, c\<lparr>ipv4_rules := new_rules (ipv4_rules c) e q (hw_rule sw), index_table := link_index (index_table c) i q' (cat16 0 (of_nat e))\<rparr>, w3)"
proof -
  let ?c1 = "c\<lparr>ipv4_rules := link_rule (ipv4_rules c) e q (hw_rule sw)\<rparr>"
  let ?c2 = "?c1\<lparr>index_table := link_index (index_table c) i q' (cat16 0 (of_nat e))\<rparr>"
  have l: "length (link_rule (ipv4_rules c) e q (hw_rule sw)) = T + E"
    using c(1) by (simp add: link_rule_def Let_def sized_def)
  have s1: "sized ?c1 T E" "tbl_addr_offset ?c1 = 0" using c l by (auto simp: sized_def)
  have s2: "sized ?c2 T E" "tbl_addr_offset ?c2 = 0" using c l by (auto simp: sized_def)
  obtain w1 where 1: "ipa_nati_copy_ipv4_rule_to_hw dev sw e ti (c, w) = Inr (?c1, w1)" using copy_rule_ok[OF d c e(1) q(1,2)] by blast
  have "unat (isw_prev_index isw) = q'" using u16_of_nat[OF q(4)] by (simp add: isw)
  from copy_index_ok[OF d s1 e(2) this q(3), of ti w1] obtain w2 where
    2: "ipa_nati_copy_ipv4_index_rule_to_hw dev isw i ti (?c1, w1) = Inr (?c2, w2)" by (auto simp: isw)
  obtain w3 where "ipa_nati_post_ipv4_dma_cmd dev ti e (?c2, w2) =
     (0, ?c2\<lparr>ipv4_rules := (ipv4_rules ?c2)[e := write_half 18 IPA_NAT_FLAG_ENABLE_BIT_MASK (ipv4_rules ?c2 ! e)]\<rparr>, w3)"
    using post_enable_ok[OF d s2 e(1)] by blast
  then have "ipa_nati_post_ipv4_dma_cmd dev ti e (?c2, w2) =
       (0, c\<lparr>ipv4_rules := new_rules (ipv4_rules c) e q (hw_rule sw), index_table := link_index (index_table c) i q' (cat16 0 (of_nat e))\<rparr>, w3)"
    by (simp add: new_rules_def Let_def)
  then show ?thesis using 1 2 by blast
qed

lemma hdl_rules_upd:
  assumes "rule_id_array c = Some ids" "rule_id_array c' = Some (ids[k := v])" "k + 1 < length ids" "table_entries c' = table_entries c"
    and "\<And>j. j < length ids \<Longrightarrow> j \<noteq> k \<Longrightarrow> ids ! j \<noteq> 0 \<Longrightarrow>
      clnt_of (ipv4_rules c' ! dec (table_entries c) (ids ! j)) = clnt_of (ipv4_rules c ! dec (table_entries c) (ids ! j))"
  shows "hdl_rules c' = (hdl_rules c)(k + 1 := if v = 0 then None else Some (clnt_of (ipv4_rules c' ! dec (table_entries c) v)))"
proof
  fix h
  show "hdl_rules c' h = ((hdl_rules c)(k + 1 := if v = 0 then None else Some (clnt_of (ipv4_rules c' ! dec (table_entries c) v)))) h"
    using assms by (cases "h = k + 1") (auto simp: hdl_rules_def nth_list_update)
qed

lemma add_table_rule:
  assumes d: "dev_ok dev (table_entries c) (expn_table_entries c)" and inv: "tbl_inv c" and s: "ip4_tbl ca = [c]"
    and p: "r_protocol clnt \<noteq> IPA_NAT_INVALID_PROTO_FIELD_CMP"
  shows "tbl_full c clnt \<and> ipa_nati_add_ipv4_rule dev 1 clnt x (ca, w) = Inr (- EINVAL, x, ca, w) \<or>
    (\<exists>hd c' w'. ipa_nati_add_ipv4_rule dev 1 clnt x (ca, w) = Inr (0, of_nat hd, ca\<lparr>ip4_tbl := [c']\<rparr>, w') \<and>
       0 < hd \<and> hd < table_entries c + expn_table_entries c \<and> hdl_rules c hd = None \<and>
       hdl_rules c' = (hdl_rules c)(hd \<mapsto> clnt) \<and> tbl_inv c' \<and> same_table c c')"
proof -
  define T E where TE: "T = table_entries c" "E = expn_table_entries c"
  obtain ms ids B BI where I: "valid c" "tbl_addr_offset c = 0" "index_expn_table_meta c = Some ms" "rule_id_array c = Some ids"
    "mem_inv T E (ipv4_rules c) (index_table c) ms ids B BI" "sized c T E" using tbl_invD[OF inv] unfolding TE by blast
  note D = mem_invD[OF I(5)]
  note sh = D(1)[unfolded shape_def]
  have get: "get_tbl ca 0 = Inr c" "set_tbl ca 0 c' = ca\<lparr>ip4_tbl := [c']\<rparr>" for c' using s by (simp_all add: get_tbl_def set_tbl_def)
  have same: "ca\<lparr>ip4_tbl := [c]\<rparr> = ca" using s by (cases ca) simp
  have ml: "length ms = E" using sh by simp
  from generate_rule_ok[OF I(6) D(2,3) I(3) ml, of clnt] show ?thesis
  proof (elim disjE exE conjE)
    fix y assume "tbl_full c clnt" "ipa_nati_generate_rule clnt c = Inr (- EINVAL, fst y, snd y, c)"
    then show ?thesis using get(1) get(2)[of c] same
      by (cases y) (simp add: ipa_nati_add_ipv4_rule_def Let_def errno_defs split: prod.splits)
  next
    fix e q sw i q'
    assume se: "slot_for T (T + E) (at enabled_of (ipv4_rules c)) B (dst_bucket T clnt) e q"
      and si: "slot_for T (T + E) (\<lambda>i. at entry_of (index_table c) i \<noteq> 0) BI (src_bucket T clnt) i q'" and q': "q' < 65536"
      and sw: "fresh_sw clnt sw" "unat (sw_prev_index sw) = q" "sw_indx_tbl_entry sw = of_nat i"
      and g: "ipa_nati_generate_rule clnt c = Inr (0, (sw, e), (\<lparr>isw_tbl_entry = of_nat e, isw_next_index = 0, isw_prev_index = of_nat q'\<rparr>, i),
         c\<lparr>index_expn_table_meta := Some (if T \<le> i then ms[i - T := q'] else ms)\<rparr>)"
    let ?isw = "\<lparr>isw_tbl_entry = of_nat e, isw_next_index = 0, isw_prev_index = of_nat q'\<rparr> :: ipa_nat_indx_tbl_sw_rule"
    let ?ms = "if T \<le> i then ms[i - T := q'] else ms"
    let ?c1 = "c\<lparr>index_expn_table_meta := Some ?ms\<rparr>"
    note fe = slot_fresh[OF D(2)[unfolded rule_chains_def] se] and fi = slot_fresh[OF D(3)[unfolded index_chains_def] si]
    have i16: "i < 65536" using fi(2) sh by simp
    have r: "nxt_of (hw_rule sw) = 0" "prev_of (hw_rule sw) = q" "indx_of (hw_rule sw) = i" "clnt_of (hw_rule sw) = clnt"
      using sw u16_of_nat[OF i16] by (simp_all add: fld fresh_sw_def)
    have nl: "\<not> at live_of (ipv4_rules c) e" using fe(3) by (simp add: at_def live_of_def)
    have eT: "e \<noteq> T" using se by (auto simp: slot_for_def)
    let ?rs = "new_rules (ipv4_rules c) e q (hw_rule sw)" and ?is = "link_index (index_table c) i q' (cat16 0 (of_nat e))"
    have off: "tbl_addr_offset ?c1 = 0" and keep: "ipv4_rules ?c1 = ipv4_rules c" "index_table ?c1 = index_table c" using I(2) by simp_all
    obtain w1 w2 w3 c1 c2 where wr: "ipa_nati_copy_ipv4_rule_to_hw dev sw e 0 (?c1, w) = Inr (c1, w1)"
      "ipa_nati_copy_ipv4_index_rule_to_hw dev ?isw i 0 (c1, w1) = Inr (c2, w2)"
      "ipa_nati_post_ipv4_dma_cmd dev 0 e (c2, w2) = (0, ?c1\<lparr>ipv4_rules := ?rs, index_table := ?is\<rparr>, w3)"
      using write_generated[OF d[folded TE] sized_upd(3)[OF I(6)] off fe(2) fi(2) sw(2) fe(5) fi(5) q' refl, of 0 w]
      unfolding keep by blast
    have TN: "0 < T" "T < T + E" using sh by auto
    note room = handles_slot[OF D(8) handles_slot_expn(2,1)[OF I(5)] nl fe(1,2) eT TN]
    have "\<exists>k. find_slot (\<lambda>x. x = 0) ids = Some k"
    proof (rule ccontr)
      assume "\<not> ?thesis"
      then have "\<forall>x \<in> set ids. x \<noteq> 0" by (cases "find_slot (\<lambda>x. x = 0) ids") auto
      moreover have "length ids = T + E" using sh by simp
      ultimately have "\<forall>j < T + E. ids ! j \<noteq> 0" by (auto dest: nth_mem)
      from room[OF this] show False by simp
    qed
    then obtain k where k: "find_slot (\<lambda>x. x = 0) ids = Some k" by blast
    then have k': "k < T + E" "ids ! k = 0" "\<forall>j < k. ids ! j \<noteq> 0" using sh by (auto simp: find_slot_Some_iff)
    have kN: "k + 2 < T + E"
      by (rule room[OF k'(3)]) (use k'(1) in simp)
    have kN': "k + 1 < T + E" using kN by simp
    let ?c' = "?c1\<lparr>ipv4_rules := ?rs, index_table := ?is, rule_id_array := Some (ids[k := enc T e])\<rparr>"
    have mk: "ipa_nati_make_rule_hdl (?c1\<lparr>ipv4_rules := ?rs, index_table := ?is\<rparr>) e = Inr (k + 1, ?c')"
      using make_rule_hdl_ok[of "?c1\<lparr>ipv4_rules := ?rs, index_table := ?is\<rparr>" ids k e] I(4) sh k fe(2) by (simp add: TE)
    have add: "ipa_nati_add_ipv4_rule dev 1 clnt x (ca, w) = Inr (0, of_nat (k + 1), ca\<lparr>ip4_tbl := [?c']\<rparr>, w3)"
      unfolding ipa_nati_add_ipv4_rule_def Let_def using get g wr mk by simp
    note ins = mem_insert[OF I(5) se si r p k'(1,2) kN']
    then obtain B' BI' where m: "mem_inv T E ?rs ?is ?ms (ids[k := enc T e]) B' BI'" by blast
    have "tbl_inv ?c'" by (rule tbl_invI[OF m]) (use I(1,2) in \<open>simp_all add: TE\<close>)
    moreover have "hdl_rules ?c' = (hdl_rules c)(k + 1 \<mapsto> clnt)"
    proof -
      have cl: "clnt_of (?rs ! x) = (if x = e then clnt else clnt_of (ipv4_rules c ! x))" for x
        using fun_cong[OF ins[THEN conjunct2, THEN conjunct2, THEN conjunct2, THEN conjunct2], of x] by (simp add: at_def)
      have "dec T (ids ! j) \<noteq> e" if "j < length ids" "ids ! j \<noteq> 0" for j
        using handlesD(1)[OF D(8), of j] that nl sh by auto
      then have "hdl_rules ?c' = (hdl_rules c)(k + 1 := if enc T e = 0 then None else Some (clnt_of (ipv4_rules ?c' ! dec (table_entries c) (enc T e))))"
        using hdl_rules_upd[OF I(4), of ?c' k "enc T e"] kN' sh by (simp add: cl TE)
      moreover have "enc T e \<noteq> 0" using enc_zero fe(1) by blast
      ultimately show ?thesis by (simp add: cl TE)
    qed
    moreover have "hdl_rules c (k + 1) = None" using I(4) k'(2) by (simp add: hdl_rules_def)
    moreover have "same_table c ?c'" by (simp add: same_table_def)
    ultimately have "0 < k + 1 \<and> k + 1 < table_entries c + expn_table_entries c \<and> hdl_rules c (k + 1) = None \<and>
       hdl_rules ?c' = (hdl_rules c)(k + 1 \<mapsto> clnt) \<and> tbl_inv ?c' \<and> same_table c ?c'" using kN by (simp add: TE)
    from conjI[OF add this] show ?thesis by - (intro disjI2 exI, assumption)
  qed
qed

end
