(* ===== verification/Nat_Driver_Del.thy ===== *)
theory Nat_Driver_Del
  imports Nat_Driver_Inv
begin

text \<open>
  Deletion of rules from the NAT driver's tables: the entries after the commands and the clean up of
  \<open>ipa_nati_post_del_dma_cmd\<close>, for every position of the rule and of its index entry in their chains, and that the invariant is kept.
\<close>

section \<open>Removing an entry\<close>

text \<open>The rule table after the commands and the clean up of a deletion.\<close>

definition unlink_rule :: "nat \<Rightarrow> ipa_nat_rule list \<Rightarrow> nat \<Rightarrow> ipa_nat_rule list" where
  "unlink_rule T rs p =
     (let r = rs ! p; q = prev_of r; nx = nxt_of r
      in if p < T then (if nx = 0 then rs[p := zero_rule] else rs[p := write_half 22 IPA_NAT_INVALID_PROTO_FIELD_VALUE r])
         else let rs = rs[q := write_half 8 (of_nat nx) (rs ! q)];
                  rs = (if nx = 0 then rs else rs[nx := UpdateSwSpecParams (rs ! nx) IPA_NAT_SW_PARAM_PREV_INDX_BYTE (of_nat q)])
              in rs[p := zero_rule])"

lemma at_same: "f (g (xs ! i)) = f (xs ! i) \<Longrightarrow> at f (xs[i := g (xs ! i)]) = at f xs"
  by (cases "i < length xs") (auto simp: at_def fun_eq_iff nth_list_update list_update_beyond)

lemma fld_prev_upd [fld]:
  assumes "q < 65536"
  shows "prev_of (UpdateSwSpecParams r IPA_NAT_SW_PARAM_PREV_INDX_BYTE (of_nat q)) = q"
    "indx_of (UpdateSwSpecParams r IPA_NAT_SW_PARAM_PREV_INDX_BYTE (of_nat q)) = indx_of r"
    "nxt_of (UpdateSwSpecParams r IPA_NAT_SW_PARAM_PREV_INDX_BYTE (of_nat q)) = nxt_of r"
    "enabled_of (UpdateSwSpecParams r IPA_NAT_SW_PARAM_PREV_INDX_BYTE (of_nat q)) = enabled_of r"
    "live_of (UpdateSwSpecParams r IPA_NAT_SW_PARAM_PREV_INDX_BYTE (of_nat q)) = live_of r"
    "clnt_of (UpdateSwSpecParams r IPA_NAT_SW_PARAM_PREV_INDX_BYTE (of_nat q)) = clnt_of r"
  using assms sw_update(1)[of r "of_nat q"] ucast_of_nat16[OF assms]
  by (simp_all add: fld live_of_def u16_of_nat unat_hi16)

lemma fld_indx_upd [fld]:
  assumes "i < 65536"
  shows "indx_of (UpdateSwSpecParams r IPA_NAT_SW_PARAM_INDX_TBL_ENTRY_BYTE (of_nat i)) = i"
    "prev_of (UpdateSwSpecParams r IPA_NAT_SW_PARAM_INDX_TBL_ENTRY_BYTE (of_nat i)) = prev_of r"
    "nxt_of (UpdateSwSpecParams r IPA_NAT_SW_PARAM_INDX_TBL_ENTRY_BYTE (of_nat i)) = nxt_of r"
    "enabled_of (UpdateSwSpecParams r IPA_NAT_SW_PARAM_INDX_TBL_ENTRY_BYTE (of_nat i)) = enabled_of r"
    "live_of (UpdateSwSpecParams r IPA_NAT_SW_PARAM_INDX_TBL_ENTRY_BYTE (of_nat i)) = live_of r"
    "clnt_of (UpdateSwSpecParams r IPA_NAT_SW_PARAM_INDX_TBL_ENTRY_BYTE (of_nat i)) = clnt_of r"
  using assms sw_update(2)[of r "of_nat i"] ucast_of_nat16[OF assms]
  by (simp_all add: fld live_of_def u16_of_nat unat_hi16)

lemma dead_write [fld]: "\<not> live_of (write_half 22 IPA_NAT_INVALID_PROTO_FIELD_VALUE r)"
  by (simp add: live_of_def fld)

lemma length_unlink [simp]: "length (unlink_rule T rs p) = length rs"
  by (simp add: unlink_rule_def Let_def)

text \<open>The neighbours of an occupied entry of the expansion area.\<close>

lemma chain_neighbours:
  assumes c: "chains T N nxt prv occ B" and p: "T \<le> p" "p < N" "occ p"
  obtains h xs ys where "0 < h" "h < T" "B h = xs @ p # ys" "prv p = last (h # xs)" "nxt p = (if ys = [] then 0 else hd ys)"
    "last (h # xs) \<noteq> p" "last (h # xs) < N" "0 < last (h # xs)" "\<And>y. y \<in> set ys \<Longrightarrow> y \<noteq> p \<and> y \<noteq> last (h # xs) \<and> T < y \<and> y < N"
proof -
  obtain h xs ys where h: "0 < h" "h < T" and B: "B h = xs @ p # ys" using chains_expn[OF c p] by blast
  note b = bucketD[OF chains_bucket[OF c h] h(2)]
  have l: "last (h # xs) \<in> set (h # xs)" by (rule last_in_set) simp
  have d: "distinct (h # xs @ p # ys)" using b(3) B by simp
  have "prv p = last (h # xs)" using b(2) B backed_prv[of prv h xs p ys] by simp
  moreover have "nxt p = (if ys = [] then 0 else hd ys)" using b(1) B linked_nxt[of nxt h xs p ys] by simp
  moreover have "last (h # xs) \<noteq> p" using l d by auto
  moreover have "last (h # xs) \<in> set (h # B h)" using l B by auto
  then have "last (h # xs) < N" by (rule chains_entry[OF c h])
  moreover have "0 < last (h # xs)" using l b(5) B h(1) by fastforce
  moreover have "y \<noteq> p \<and> y \<noteq> last (h # xs) \<and> T < y \<and> y < N" if "y \<in> set ys" for y using that l d b(5)[of y] B by auto
  ultimately show ?thesis using that h B by blast
qed

lemma unlink_rule_spec:
  assumes rc: "rule_chains T N rs B" and len: "length rs = N" "N \<le> 65536" and p: "p < N" "enabled_of (rs ! p)"
  defines "rs' \<equiv> unlink_rule T rs p"
  shows "\<exists>B'. rule_chains T N rs' B' \<and> (\<forall>k. set (B' k) \<subseteq> set (B k)) \<and> at live_of rs' = (at live_of rs)(p := False) \<and>
     (\<forall>x. x \<noteq> p \<longrightarrow> clnt_of (rs' ! x) = clnt_of (rs ! x) \<and> indx_of (rs' ! x) = indx_of (rs ! x)) \<and>
     (\<forall>x. x \<noteq> p \<longrightarrow> enabled_of (rs' ! x) = enabled_of (rs ! x)) \<and> (enabled_of (rs' ! p) \<longrightarrow> p < T)"
proof -
  note c = rc[unfolded rule_chains_def]
  have pl: "p < length rs" using p(1) len by simp
  have z: "p \<noteq> 0" using p(2) c by (cases "p = 0") (auto simp: chains_def at_def)
  consider (only) "p < T" "nxt_of (rs ! p) = 0" | (head) "p < T" "nxt_of (rs ! p) \<noteq> 0" | (expn) "T \<le> p" by linarith
  then show ?thesis
  proof cases
    case only
    then have rs': "rs' = rs[p := zero_rule]" by (simp add: rs'_def unlink_rule_def)
    have "rule_chains T N rs' B" unfolding rule_chains_def rs' at_upd[OF pl]
      by (rule chains_heads[OF c]) (use only c in \<open>auto simp: fld at_def chains_def\<close>)
    then show ?thesis using pl only by (intro exI[of _ B]) (auto simp: rs' at_upd fld)
  next
    case head
    then have rs': "rs' = rs[p := write_half 22 IPA_NAT_INVALID_PROTO_FIELD_VALUE (rs ! p)]" by (simp add: rs'_def unlink_rule_def)
    have "rule_chains T N rs' B" using rc unfolding rule_chains_def rs' by (simp add: at_same fld)
    then show ?thesis using pl head by (intro exI[of _ B]) (auto simp: rs' at_upd fld)
  next
    case expn
    obtain h xs ys where n: "0 < h" "h < T" "B h = xs @ p # ys" "prev_of (rs ! p) = last (h # xs)"
      "nxt_of (rs ! p) = (if ys = [] then 0 else hd ys)" "last (h # xs) \<noteq> p" "last (h # xs) < N" "0 < last (h # xs)"
      "\<And>y. y \<in> set ys \<Longrightarrow> y \<noteq> p \<and> y \<noteq> last (h # xs) \<and> T < y \<and> y < N"
      using chain_neighbours[OF c expn p(1)] p(2) unfolding at_def by metis
    define q where "q = last (h # xs)"
    have q: "q \<noteq> p" "q < N" "q < 65536" "prev_of (rs ! p) = q" using n len by (auto simp: q_def)
    define nx where "nx = nxt_of (rs ! p)"
    have nx: "nx \<noteq> p" "nx \<noteq> q" "nx \<noteq> 0 \<Longrightarrow> nx < N" "nx < 65536" "ys \<noteq> [] \<Longrightarrow> nx = hd ys \<and> nx \<noteq> 0" "ys = [] \<Longrightarrow> nx = 0"
      using n(5,8) n(9)[of "hd ys"] z len by (cases ys; simp add: nx_def q_def del: last.simps)+
    define R1 where "R1 = rs[q := write_half 8 (of_nat nx) (rs ! q)]"
    define R2 where "R2 = (if nx = 0 then R1 else R1[nx := UpdateSwSpecParams (rs ! nx) IPA_NAT_SW_PARAM_PREV_INDX_BYTE (of_nat q)])"
    have R1nx: "R1 ! nx = rs ! nx" using nx(2) by (simp add: R1_def)
    have rs': "rs' = R2[p := zero_rule]"
      using expn R1nx by (simp add: rs'_def unlink_rule_def Let_def q(4) R2_def R1_def nx_def)
    have l: "length R1 = N" "length R2 = N" "q < length rs" using len q by (auto simp: R1_def R2_def)
    have keep: "at f rs' = (at f rs)(p := f zero_rule)" if f: "\<And>v x. f (write_half 8 v x) = f x"
      "\<And>x. f (UpdateSwSpecParams x IPA_NAT_SW_PARAM_PREV_INDX_BYTE (of_nat q)) = f x" for f :: "ipa_nat_rule \<Rightarrow> 'b"
    proof -
      have "at f R1 = at f rs" unfolding R1_def by (rule at_same) (simp add: f(1))
      moreover have "at f R2 = at f R1" unfolding R2_def R1nx[symmetric] by (auto intro: at_same simp: f(2))
      ultimately show ?thesis using p(1) l by (simp add: rs' at_upd)
    qed
    have nxt': "at nxt_of rs' = (at nxt_of rs)(q := nx, p := 0)"
    proof -
      have "at nxt_of R2 = at nxt_of R1" unfolding R2_def R1nx[symmetric] using fld_prev_upd(3)[OF q(3)] by (auto intro: at_same)
      then show ?thesis using p(1) l nx(4) by (simp add: rs' at_upd fld R1_def u16_of_nat)
    qed
    have prev': "at prev_of rs' = (reback (at prev_of rs) ys q)(p := prev_of zero_rule)"
    proof -
      have "at prev_of R1 = at prev_of rs" unfolding R1_def by (rule at_same) (simp add: fld)
      then show ?thesis using p(1) l nx(3,5,6) q(3) by (auto simp: rs' at_upd R2_def fld reback_def)
    qed
    have en': "at enabled_of rs' = (at enabled_of rs)(p := False)" using keep[of enabled_of] q(3) by (simp add: fld)
    have "chains T N ((at nxt_of rs)(q := nx, p := 0)) (reback (at prev_of rs) ys q) ((at enabled_of rs)(p := False)) (B(h := xs @ ys))"
      using chains_remove[OF c n(1-3)] by (simp add: q_def nx_def at_def)
    then have "rule_chains T N rs' (B(h := xs @ ys))" unfolding rule_chains_def nxt' prev' en'
      by (rule chains_heads) (use c in \<open>auto simp: chains_def\<close>)
    moreover have "at live_of rs' = (at live_of rs)(p := False)" using keep[of live_of] q(3) by (simp add: fld)
    moreover have "\<forall>x. x \<noteq> p \<longrightarrow> clnt_of (rs' ! x) = clnt_of (rs ! x) \<and> indx_of (rs' ! x) = indx_of (rs ! x)"
      using keep[of clnt_of] keep[of indx_of] q(3) by (simp add: fld at_def fun_eq_iff)
    moreover have "\<forall>x. x \<noteq> p \<longrightarrow> enabled_of (rs' ! x) = enabled_of (rs ! x)" "\<not> enabled_of (rs' ! p)"
      using en' by (simp_all add: at_def fun_eq_iff)
    moreover have "\<forall>k. set ((B(h := xs @ ys)) k) \<subseteq> set (B k)" using n(3) by auto
    ultimately show ?thesis by blast
  qed
qed

text \<open>The index table: the entries, the predecessors, and the entry that was freed. When a head with a chain goes, the entry
  after it moves into its place.\<close>

definition unlink_index :: "nat \<Rightarrow> u32 list \<Rightarrow> nat list \<Rightarrow> nat \<Rightarrow> u32 list \<times> nat list \<times> nat" where
  "unlink_index T is ms i =
     (let nx = next_of (is ! i)
      in if i < T
         then (if nx = 0 then (is[i := 0], ms, i)
               else let nn = next_of (is ! nx)
                    in ((is[i := cat16 (of_nat nn) (of_nat (entry_of (is ! nx)))])[nx := 0],
                        if nn = 0 then ms else ms[nn - T := i], nx))
         else let q = ms ! (i - T)
              in ((is[q := write_index_half 2 (of_nat nx) (is ! q)])[i := 0],
                  if nx = 0 then ms else (ms[nx - T := q])[i - T := 0], i))"

lemma entry_lt: "entry_of w < 65536" "next_of w < 65536"
  unfolding entry_of_def next_of_def by (rule u16_lt)+

lemma unlink_index_spec:
  assumes ic: "index_chains T N is ms B" and len: "length is = N" "length ms = N - T" "N \<le> 65536" and i: "i < N" "entry_of (is ! i) \<noteq> 0"
    and u: "unlink_index T is ms i = (is', ms', j)"
  shows "\<exists>B'. index_chains T N is' ms' B' \<and> (\<forall>k. set (B' k) \<subseteq> set (B k)) \<and> length is' = N \<and> length ms' = N - T \<and>
     at entry_of is' = (at entry_of is)(i := at entry_of is j, j := 0) \<and> j < N \<and> entry_of (is ! j) \<noteq> 0 \<and>
     (j = i \<or> i < T \<and> j \<in> set (B i) \<and> next_of (is ! i) = j \<and> next_of (is ! i) \<noteq> 0)"
proof -
  note c = ic[unfolded index_chains_def]
  have il: "i < length is" using i(1) len by simp
  have z: "0 < i" using i(2) c by (cases "i = 0") (auto simp: chains_def at_def)
  have TN: "T \<le> N" using c by (simp add: chains_def)
  consider (only) "i < T" "next_of (is ! i) = 0" | (head) "i < T" "next_of (is ! i) \<noteq> 0" | (expn) "T \<le> i" by linarith
  then show ?thesis
  proof cases
    case only
    then have r: "is' = is[i := 0]" "ms' = ms" "j = i" using u by (auto simp: unlink_index_def)
    have "chains T N ((at next_of is)(i := 0)) (\<lambda>x. ms ! (x - T)) (\<lambda>x. ((at entry_of is)(i := 0)) x \<noteq> 0) B"
      by (rule chains_heads[OF c]) (use only c in \<open>auto simp: at_def chains_def\<close>)
    then have "index_chains T N is' ms' B" by (simp add: index_chains_def r at_upd il fld)
    then show ?thesis using i len by (intro exI[of _ B]) (simp add: r at_upd il fld)
  next
    case head
    note b = bucketD[OF chains_bucket[OF c z head(1)] head(1)]
    have "B i \<noteq> []" "next_of (is ! i) = hd (B i)"
      using linked_nxt_head[OF b(1)] head(2) by (auto simp: at_def split: if_splits)
    then obtain ys where B: "B i = next_of (is ! i) # ys" by (cases "B i") auto
    define nx where "nx = next_of (is ! i)"
    define nn where "nn = next_of (is ! nx)"
    have nx: "T < nx" "nx < N" "entry_of (is ! nx) \<noteq> 0" "nx \<noteq> i" using b(5)[of nx] b(3) B by (auto simp: nx_def at_def)
    have nnys: "nn = (if ys = [] then 0 else hd ys)" using linked_nxt[of "at next_of is" i "[]" nx ys] b(1) B
      by (simp add: nn_def nx_def at_def)
    have ys: "T < y \<and> y < N" if "y \<in> set ys" for y using b(5)[of y] B that by simp
    have r: "is' = (is[i := cat16 (of_nat nn) (of_nat (entry_of (is ! nx)))])[nx := 0]" "ms' = (if nn = 0 then ms else ms[nn - T := i])" "j = nx"
      using u head by (auto simp: unlink_index_def Let_def nx_def nn_def)
    have nn0: "nn = 0 \<longleftrightarrow> ys = []" using nnys ys[of "hd ys"] by auto
    have next': "at next_of is' = (at next_of is)(i := nn, nx := 0)" and ent': "at entry_of is' = (at entry_of is)(i := entry_of (is ! nx), nx := 0)"
      using il nx(2) len u16_of_nat[of nn] u16_of_nat[OF entry_lt(1)] entry_lt(2)[of "is ! nx"]
      by (simp_all add: r at_upd fld nn_def)
    have prev': "(\<lambda>x. ms' ! (x - T)) = reback (\<lambda>x. ms ! (x - T)) ys i"
    proof (cases "ys = []")
      case False
      then have "T < nn" "nn < T + length ms" using nnys ys[of nn] len by auto
      then show ?thesis using False nn0 nnys meta_upd[of T nn ms i] by (simp add: r reback_def)
    qed (use nn0 in \<open>simp add: r reback_def\<close>)
    have occ': "(\<lambda>x. at entry_of is' x \<noteq> 0) = (\<lambda>x. at entry_of is x \<noteq> 0)(nx := False)"
      unfolding ent' using i(2) nx(3) by (auto simp: fun_eq_iff at_def)
    have "chains T N ((at next_of is)(i := nn, nx := 0)) (reback (\<lambda>x. ms ! (x - T)) ys i) ((\<lambda>x. at entry_of is x \<noteq> 0)(nx := False)) (B(i := ys))"
      using chains_remove[OF c z head(1), of "[]" nx ys] B by (simp add: nx_def nn_def at_def)
    then have "index_chains T N is' ms' (B(i := ys))" by (simp only: index_chains_def next' prev' occ')
    moreover have "\<forall>k. set ((B(i := ys)) k) \<subseteq> set (B k)" using B by auto
    moreover have "length is' = N" "length ms' = N - T" using len by (simp_all add: r)
    moreover have "nx \<in> set (B i)" using B by (simp add: nx_def)
    ultimately show ?thesis using ent' nx head by (intro exI[of _ "B(i := ys)"]) (simp add: r(3) at_def nx_def)
  next
    case expn
    obtain h xs ys where n: "0 < h" "h < T" "B h = xs @ i # ys" "ms ! (i - T) = last (h # xs)"
      "next_of (is ! i) = (if ys = [] then 0 else hd ys)" "last (h # xs) \<noteq> i" "last (h # xs) < N" "0 < last (h # xs)"
      "\<And>y. y \<in> set ys \<Longrightarrow> y \<noteq> i \<and> y \<noteq> last (h # xs) \<and> T < y \<and> y < N"
      using chain_neighbours[OF c expn i(1)] i(2) unfolding at_def by metis
    define q where "q = last (h # xs)"
    define nx where "nx = next_of (is ! i)"
    have Ti: "T < i" using bucketD(5)[OF chains_bucket[OF c n(1,2)] n(2), of i] n(3) by simp
    have nx: "nx < 65536" "nx = (if ys = [] then 0 else hd ys)" "nx = 0 \<longleftrightarrow> ys = []" "ys \<noteq> [] \<Longrightarrow> T < nx \<and> nx < N \<and> nx \<noteq> i"
      using n(5) n(9)[of "hd ys"] len(3) by (auto simp: nx_def)
    have r: "is' = (is[q := write_index_half 2 (of_nat nx) (is ! q)])[i := 0]"
      "ms' = (if nx = 0 then ms else (ms[nx - T := q])[i - T := 0])" "j = i"
      using u expn n(4) by (auto simp: unlink_index_def Let_def nx_def q_def)
    have q: "q < length is" "q \<noteq> i" using n(6,7) len by (auto simp: q_def)
    have next': "at next_of is' = (at next_of is)(q := nx, i := 0)" using q il nx(1) by (simp add: r at_upd fld u16_of_nat)
    have "at entry_of (is[q := write_index_half 2 (of_nat nx) (is ! q)]) = at entry_of is" by (rule at_same) (simp add: fld)
    then have ent': "at entry_of is' = (at entry_of is)(i := 0)" using il by (simp add: r at_upd fld)
    have prev': "ms' ! (x - T) = reback (\<lambda>x. ms ! (x - T)) ys q x" if "T < x" "x \<noteq> i" for x
    proof (cases "ys = []")
      case False
      then have "T < nx" "nx < T + length ms" "nx = hd ys" "nx \<noteq> i" using nx len by auto
      then show ?thesis using False nx(3) fun_cong[OF meta_upd[of T nx ms q], of x] that Ti by (simp add: r reback_def)
    qed (use nx in \<open>simp add: r reback_def\<close>)
    have occ': "(\<lambda>x. at entry_of is' x \<noteq> 0) = (\<lambda>x. at entry_of is x \<noteq> 0)(i := False)" by (auto simp: ent')
    have "chains T N ((at next_of is)(q := nx, i := 0)) (reback (\<lambda>x. ms ! (x - T)) ys q) ((\<lambda>x. at entry_of is x \<noteq> 0)(i := False)) (B(h := xs @ ys))"
      using chains_remove[OF c n(1-3)] by (simp add: q_def nx_def at_def)
    then have "index_chains T N is' ms' (B(h := xs @ ys))" unfolding index_chains_def next' occ'
      by (rule chains_heads) (use c prev' in \<open>auto simp: chains_def split: if_splits\<close>)
    moreover have "\<forall>k. set ((B(h := xs @ ys)) k) \<subseteq> set (B k)" using n(3) by auto
    ultimately show ?thesis using ent' i len
      by (intro exI[of _ "B(h := xs @ ys)"]) (simp add: r)
  qed
qed

text \<open>Clearing heads that were only kept for their chain.\<close>

definition clear_dead :: "nat \<Rightarrow> ipa_nat_rule list \<Rightarrow> ipa_nat_rule list" where
  "clear_dead T rs = map (\<lambda>r. if dead_head r then zero_rule else r) (take T rs) @ drop T rs"

lemma clear_dead_nth:
  assumes "T \<le> length rs" "x < length rs"
  shows "clear_dead T rs ! x = (if x < T \<and> dead_head (rs ! x) then zero_rule else rs ! x)"
  using assms by (auto simp: clear_dead_def nth_append)

lemma length_clear [simp]: "length (clear_dead T rs) = length rs"
  by (simp add: clear_dead_def)

lemma dead_not_live: "dead_head r \<Longrightarrow> \<not> live_of r"
  by (simp add: dead_head_def live_of_def)

lemma clear_dead_spec:
  assumes rc: "rule_chains T (length rs) rs B" and d: "\<forall>e < length rs. enabled_of (rs ! e) \<and> \<not> live_of (rs ! e) \<longrightarrow> e < T"
  defines "rs' \<equiv> clear_dead T rs"
  shows "rule_chains T (length rs) rs' B" "deads T (length rs) rs'"
    "\<And>x. x < length rs \<Longrightarrow> live_of (rs' ! x) = live_of (rs ! x)"
    "\<And>x. x < length rs \<Longrightarrow> live_of (rs ! x) \<Longrightarrow> rs' ! x = rs ! x"
proof -
  note c = rc[unfolded rule_chains_def]
  have T: "T \<le> length rs" using c by (simp add: chains_def)
  note n = clear_dead_nth[OF T, folded rs'_def]
  show l: "live_of (rs' ! x) = live_of (rs ! x)" if "x < length rs" for x
    using n[OF that] dead_not_live by (auto simp: fld)
  show "rs' ! x = rs ! x" if "x < length rs" "live_of (rs ! x)" for x using n[OF that(1)] that(2) dead_not_live by auto
  show "rule_chains T (length rs) rs' B" unfolding rule_chains_def
  proof (rule chains_heads[OF c])
    show "at nxt_of rs' x = at nxt_of rs x" if "0 < x" "x < length rs" for x
      using n[OF that(2)] by (auto simp: at_def fld dead_head_def const_defs)
    show "at prev_of rs' x = at prev_of rs x" if "T < x" "x < length rs" for x using n[OF that(2)] that by (simp add: at_def)
    show "at enabled_of rs' x = at enabled_of rs x" if "T \<le> x" "x < length rs" for x using n[OF that(2)] that by (simp add: at_def)
    show "at enabled_of rs' x" if "0 < x" "x < T" "at nxt_of rs x \<noteq> 0" "at enabled_of rs x" for x
      using n[of x] that T by (simp add: at_def dead_head_def const_defs)
    have z: "\<not> enabled_of (rs ! 0)" using c by (simp add: chains_def at_def)
    show "\<not> at enabled_of rs' 0"
    proof (cases "0 < length rs")
      case True
      then show ?thesis using n[of 0] z by (simp add: at_def fld)
    next
      case False
      then have "rs' = rs" by (simp add: rs'_def clear_dead_def)
      then show ?thesis using z by (simp add: at_def)
    qed
  qed
  show "deads T (length rs) rs'" unfolding deads_def
  proof (intro allI impI)
    fix e assume e: "e < length rs" "enabled_of (rs' ! e) \<and> \<not> live_of (rs' ! e)"
    have r: "rs' ! e = rs ! e" "\<not> (e < T \<and> dead_head (rs ! e))" using n[OF e(1)] e(2) by (auto simp: fld split: if_splits)
    have "e < T" using d e r by simp
    moreover have "proto_of (rs ! e) = IPA_NAT_INVALID_PROTO_FIELD_CMP" using e(2) r by (simp add: live_of_def)
    ultimately show "e < T \<and> nxt_of (rs' ! e) \<noteq> 0" using r by (simp add: dead_head_def const_defs)
  qed
qed

lemma crossed_cong: "crossed N live idx ent \<Longrightarrow> (\<And>x. x < N \<Longrightarrow> live' x = live x) \<Longrightarrow> crossed N live' idx ent"
  unfolding crossed_def by metis

lemma handles_cong:
  assumes h: "handles T N live ids" and l: "\<And>x. x < N \<Longrightarrow> live' x = live x"
  shows "handles T N live' ids"
proof (rule handlesI)
  show "\<exists>e<N. live' e \<and> ids k = enc T e" if "k < N" "ids k \<noteq> 0" for k
    using handlesD(1)[OF h that] l by blast
  show "\<exists>k<N. ids k = enc T e" if "e < N" "live' e" for e using handlesD(2)[OF h that(1)] l that by blast
  show "k = k'" if "k < N" "k' < N" "ids k \<noteq> 0" "ids k = ids k'" for k k' by (rule handlesD(3)[OF h that])
qed

text \<open>The rule table after the whole deletion; \<open>j\<close> is the index entry that was freed, \<open>i\<close> the one that was given up.\<close>

definition cut_rules :: "nat \<Rightarrow> ipa_nat_rule list \<Rightarrow> u32 list \<Rightarrow> nat \<Rightarrow> nat \<Rightarrow> nat \<Rightarrow> ipa_nat_rule list" where
  "cut_rules T rs is p i j = (let rs1 = unlink_rule T rs p; t = entry_of (is ! j)
     in if j = i then rs1 else rs1[t := UpdateSwSpecParams (rs1 ! t) IPA_NAT_SW_PARAM_INDX_TBL_ENTRY_BYTE (of_nat i)])"

lemma cut_rules_spec:
  assumes inv: "mem_inv T E rs is ms ids B BI" and p: "p < T + E" "live_of (rs ! p)" "indx_of (rs ! p) = i"
    and j: "j < T + E" "entry_of (is ! j) \<noteq> 0"
  defines "rs' \<equiv> clear_dead T (cut_rules T rs is p i j)"
  shows "\<exists>B'. rule_chains T (T + E) rs' B' \<and> deads T (T + E) rs' \<and> (\<forall>k. set (B' k) \<subseteq> set (B k)) \<and>
     (\<forall>x < T + E. live_of (rs' ! x) \<longleftrightarrow> x \<noteq> p \<and> live_of (rs ! x)) \<and>
     (\<forall>x < T + E. x \<noteq> p \<and> live_of (rs ! x) \<longrightarrow> clnt_of (rs' ! x) = clnt_of (rs ! x) \<and>
        indx_of (rs' ! x) = (if x = entry_of (is ! j) then i else indx_of (rs ! x)))"
proof -
  note D = mem_invD[OF inv]
  note sh = D(1)[unfolded shape_def]
  let ?N = "T + E"
  have len: "length rs = ?N" "?N \<le> 65536" using sh by auto
  have i: "i < ?N" "entry_of (is ! i) = p" using crossedD(2,3)[OF D(5) p(1)] p(2,3) by (auto simp: at_def)
  have i16: "i < 65536" using i(1) len(2) by simp
  let ?t = "entry_of (is ! j)"
  have t: "?t < ?N" "live_of (rs ! ?t)" "indx_of (rs ! ?t) = j" using crossedD2[OF D(5) j(1)] j(2) by (auto simp: at_def)
  have tp: "?t = p \<longleftrightarrow> j = i" using t(3) p(3) i(2) by auto
  have "enabled_of (rs ! p)" using p(2) by (simp add: live_of_def)
  from unlink_rule_spec[OF D(2) len p(1) this] obtain B' where B':
    "rule_chains T ?N (unlink_rule T rs p) B'" "\<forall>k. set (B' k) \<subseteq> set (B k)"
    "at live_of (unlink_rule T rs p) = (at live_of rs)(p := False)"
    "\<forall>x. x \<noteq> p \<longrightarrow> clnt_of (unlink_rule T rs p ! x) = clnt_of (rs ! x) \<and> indx_of (unlink_rule T rs p ! x) = indx_of (rs ! x)"
    "\<forall>x. x \<noteq> p \<longrightarrow> enabled_of (unlink_rule T rs p ! x) = enabled_of (rs ! x)" "enabled_of (unlink_rule T rs p ! p) \<longrightarrow> p < T" by blast
  define R where "R = cut_rules T rs is p i j"
  have R: "at f R = at f (unlink_rule T rs p)"
    if "\<And>x. f (UpdateSwSpecParams x IPA_NAT_SW_PARAM_INDX_TBL_ENTRY_BYTE (of_nat i)) = f x" for f :: "ipa_nat_rule \<Rightarrow> 'b"
    unfolding R_def cut_rules_def Let_def using that by (auto intro: at_same)
  note fi = fld_indx_upd[OF i16]
  have eqs: "at nxt_of R = at nxt_of (unlink_rule T rs p)" "at prev_of R = at prev_of (unlink_rule T rs p)"
    "at enabled_of R = at enabled_of (unlink_rule T rs p)" "at live_of R = (at live_of rs)(p := False)"
    "at clnt_of R = at clnt_of (unlink_rule T rs p)"
    using R[of nxt_of] R[of prev_of] R[of enabled_of] R[of live_of] R[of clnt_of] fi B'(3) by simp_all
  have lR: "length R = ?N" using len by (simp add: R_def cut_rules_def Let_def)
  have idx: "indx_of (R ! x) = (if x = ?t then i else indx_of (rs ! x))" if "x \<noteq> p" for x
    using that B'(4) tp t(1) len fi(1) by (auto simp: R_def cut_rules_def Let_def nth_list_update)
  have rcR: "rule_chains T (length R) R B'" using B'(1) by (simp add: rule_chains_def eqs lR)
  have dead: "e < T" if "e < length R" "enabled_of (R ! e)" "\<not> live_of (R ! e)" for e
  proof (cases "e = p")
    case True
    then show ?thesis using B'(6) fun_cong[OF eqs(3), of p] that(2) by (simp add: at_def)
  next
    case False
    then have "enabled_of (rs ! e)" "\<not> live_of (rs ! e)"
      using that B'(5) fun_cong[OF eqs(3), of e] fun_cong[OF eqs(4), of e] by (simp_all add: at_def)
    then show ?thesis using D(4) that(1) by (simp add: deads_def lR)
  qed
  then have dead': "\<forall>e < length R. enabled_of (R ! e) \<and> \<not> live_of (R ! e) \<longrightarrow> e < T" by blast
  note cd = clear_dead_spec[OF rcR dead', folded R_def, unfolded lR]
  have lv: "live_of (rs' ! x) \<longleftrightarrow> x \<noteq> p \<and> live_of (rs ! x)" if "x < ?N" for x
    using cd(3)[OF that] fun_cong[OF eqs(4), of x] by (simp add: rs'_def R_def at_def)
  have ct: "clnt_of (rs' ! x) = clnt_of (rs ! x) \<and> indx_of (rs' ! x) = (if x = ?t then i else indx_of (rs ! x))"
    if x: "x < ?N" "x \<noteq> p" "live_of (rs ! x)" for x
  proof -
    have "rs' ! x = R ! x" using cd(4)[OF x(1)] fun_cong[OF eqs(4), of x] x(2,3) by (simp add: rs'_def R_def at_def)
    then show ?thesis using idx[OF x(2)] B'(4) x(2) fun_cong[OF eqs(5), of x] by (simp add: at_def)
  qed
  show ?thesis using cd(1,2) B'(2) lv ct unfolding rs'_def R_def by blast
qed

lemma mem_delete:
  assumes inv: "mem_inv T E rs is ms ids B BI" and p: "p < T + E" "live_of (rs ! p)" "indx_of (rs ! p) = i"
    and u: "unlink_index T is ms i = (is', ms', j)" and k: "k < T + E" "ids ! k = enc T p"
  defines "rs' \<equiv> clear_dead T (cut_rules T rs is p i j)"
  shows "(\<exists>B' BI'. mem_inv T E rs' is' ms' (ids[k := 0]) B' BI') \<and>
     (\<forall>x < T + E. x \<noteq> p \<and> live_of (rs ! x) \<longrightarrow> clnt_of (rs' ! x) = clnt_of (rs ! x))"
proof -
  note D = mem_invD[OF inv]
  note sh = D(1)[unfolded shape_def]
  note rc = D(2)[unfolded rule_chains_def] and ic = D(3)[unfolded index_chains_def]
  let ?N = "T + E"
  have len: "length is = ?N" "length ms = ?N - T" "?N \<le> 65536" using sh by auto
  have lp: "at live_of rs p" using p(2) by (simp add: at_def)
  have ii: "i < ?N" "at entry_of is i = p" "0 < p" using crossedD[OF D(5) p(1) lp] p(3) by (auto simp: at_def)
  have "entry_of (is ! i) \<noteq> 0" using ii(2,3) by (simp add: at_def)
  from unlink_index_spec[OF D(3) len ii(1) this u] obtain BI' where BI':
    "index_chains T ?N is' ms' BI'" "\<forall>k. set (BI' k) \<subseteq> set (BI k)" "length is' = ?N" "length ms' = ?N - T"
    "at entry_of is' = (at entry_of is)(i := at entry_of is j, j := 0)" "j < ?N" "entry_of (is ! j) \<noteq> 0"
    "j = i \<or> i < T \<and> j \<in> set (BI i) \<and> next_of (is ! i) = j \<and> next_of (is ! i) \<noteq> 0" by blast
  from cut_rules_spec[OF inv p BI'(6,7)] obtain B' where B':
    "rule_chains T ?N rs' B'" "deads T ?N rs'" "\<forall>k. set (B' k) \<subseteq> set (B k)"
    "\<forall>x < ?N. live_of (rs' ! x) \<longleftrightarrow> x \<noteq> p \<and> live_of (rs ! x)"
    "\<forall>x < ?N. x \<noteq> p \<and> live_of (rs ! x) \<longrightarrow> clnt_of (rs' ! x) = clnt_of (rs ! x) \<and>
        indx_of (rs' ! x) = (if x = entry_of (is ! j) then i else indx_of (rs ! x))" unfolding rs'_def by blast
  have lv: "at live_of rs' x = ((at live_of rs)(p := False)) x" if "x < ?N" for x using B'(4) that by (simp add: at_def)
  have lrs: "length rs' = ?N" using sh by (simp add: rs'_def cut_rules_def Let_def)
  have pl: "placed T (at live_of rs') (\<lambda>e. dst_bucket T (clnt_of (rs' ! e))) B'"
  proof (rule placed_mono[OF D(6)])
    fix h e assume h: "0 < h" "h < T" and e: "e \<in> set (h # B' h)" "at live_of rs' e"
    have eB: "e \<in> set (h # B h)" using e(1) B'(3) by auto
    have "e < ?N" by (rule chains_entry[OF rc h eB])
    then show "e \<in> set (h # B h) \<and> at live_of rs e \<and> dst_bucket T (clnt_of (rs' ! e)) = dst_bucket T (clnt_of (rs ! e))"
      using eB e(2) B'(4,5) by (simp add: at_def)
  qed
  have pli: "placed T (\<lambda>i. at entry_of is' i \<noteq> 0) (\<lambda>i. src_bucket T (clnt_of (rs' ! entry_of (is' ! i)))) BI'"
    unfolding placed_def
  proof (intro allI impI, elim conjE)
    fix g x assume g: "0 < g" "g < T" and x: "x \<in> set (g # BI' g)" "at entry_of is' x \<noteq> 0"
    have xB: "x \<in> set (g # BI g)" using x(1) BI'(2) by auto
    have xN: "x < ?N" by (rule chains_entry[OF ic g xB])
    have ej: "entry_of (is' ! x) = (if x = j then 0 else if x = i then entry_of (is ! j) else entry_of (is ! x))"
      using fun_cong[OF BI'(5), of x] by (auto simp: at_def)
    then have xj: "x \<noteq> j" using x(2) by (auto simp: at_def)
    have src: "src_bucket T (clnt_of (rs ! entry_of (is ! y))) = h" if "0 < h" "h < T" "y \<in> set (h # BI h)" "entry_of (is ! y) \<noteq> 0" for y h
      using D(7) that unfolding placed_def by (auto simp: at_def)
    define y where "y = (if x = i then j else x)"
    have y: "y < ?N" "entry_of (is ! y) \<noteq> 0" "y \<noteq> i" "entry_of (is' ! x) = entry_of (is ! y)"
      using xN BI'(6,7) xj x(2) ej by (auto simp: y_def at_def)
    have "y \<in> set (g # BI g)"
    proof (cases "x = i")
      case True
      then have "i < T" "j \<in> set (BI i)" using BI'(8) xj by auto
      moreover have "g = i" using xB True \<open>i < T\<close> bucketD(5)[OF chains_bucket[OF ic g] g(2), of i] by auto
      ultimately show ?thesis using True by (simp add: y_def)
    qed (use xB in \<open>simp add: y_def\<close>)
    then have s: "src_bucket T (clnt_of (rs ! entry_of (is ! y))) = g" using src[OF g _ y(2)] by simp
    have e: "entry_of (is ! y) < ?N" "live_of (rs ! entry_of (is ! y))" "indx_of (rs ! entry_of (is ! y)) = y"
      using crossedD2[OF D(5) y(1)] y(2) by (auto simp: at_def)
    have "entry_of (is ! y) \<noteq> p" using e(3) p(3) y(3) by auto
    then show "src_bucket T (clnt_of (rs' ! entry_of (is' ! x))) = g" using B'(5) e(1,2) s by (simp add: y(4))
  qed
  have "crossed ?N ((at live_of rs)(p := False)) (at indx_of rs') ((at entry_of is)(at indx_of rs p := at entry_of is j, j := 0))"
    by (rule crossed_move[OF D(5) p(1) lp BI'(6)]) (use BI'(7) B'(5) p(3) in \<open>auto simp: at_def\<close>)
  moreover have "at indx_of rs p = i" using p(3) by (simp add: at_def)
  ultimately have "crossed ?N ((at live_of rs)(p := False)) (at indx_of rs') (at entry_of is')" using BI'(5) by simp
  then have cr: "crossed ?N (at live_of rs') (at indx_of rs') (at entry_of is')" by (rule crossed_cong) (rule lv)
  have kl: "k < length ids" using k(1) sh by simp
  have "enc T p \<noteq> 0" using enc_zero[of T p] ii(3) by auto
  then have "handles T ?N ((at live_of rs)(p := False)) ((\<lambda>x. ids ! x)(k := 0))"
    by (rule handles_del[OF D(8) p(1) lp k])
  then have hd: "handles T ?N (at live_of rs') (\<lambda>x. ids[k := 0] ! x)"
    unfolding nth_upd_fun[OF kl] by (rule handles_cong) (rule lv)
  have l0: "ids[k := 0] ! (?N - 1) = 0" using sh kl by (cases "k = ?N - 1") auto
  have "mem_inv T E rs' is' ms' (ids[k := 0]) B' BI'"
    unfolding mem_inv_def using B'(1,2) BI'(1) cr pl pli hd sh lrs BI'(3,4) l0 by (simp add: shape_def)
  then show ?thesis using B'(5) by blast
qed

section \<open>The commands of a deletion\<close>

definition rule_pos_of :: "nat \<Rightarrow> ipa_nat_rule list \<Rightarrow> nat \<Rightarrow> del_type" where
  "rule_pos_of T rs p = (if p < T then (if nxt_of (rs ! p) = 0 then IPA_NAT_DEL_TYPE_ONLY_ONE else IPA_NAT_DEL_TYPE_HEAD)
     else if nxt_of (rs ! p) = 0 then IPA_NAT_DEL_TYPE_LAST else IPA_NAT_DEL_TYPE_MIDDLE)"

abbreviation part :: "nat \<Rightarrow> nat \<Rightarrow> nat" where "part T p \<equiv> (if T \<le> p then p - T else p)"

lemma read_part:
  assumes "sized c T E" "p < T + E"
  shows "read_rule c (T \<le> p) (part T p) = Inr (ipv4_rules c ! p)" "read_index c (T \<le> p) (part T p) = Inr (index_table c ! p)"
    "write_rule c (T \<le> p) (part T p) r = Inr (c\<lparr>ipv4_rules := (ipv4_rules c)[p := r]\<rparr>)"
    "write_index c (T \<le> p) (part T p) v = Inr (c\<lparr>index_table := (index_table c)[p := v]\<rparr>)"
  using assms access_ok[of c] by (auto simp: sized_def)

lemma find_rule_pos_ok:
  assumes "sized c T E" "p < T + E"
  shows "ipa_nati_find_rule_pos c (T \<le> p) (part T p) = Inr (rule_pos_of T (ipv4_rules c) p)"
  using read_part(1)[OF assms] by (auto simp: ipa_nati_find_rule_pos_def rule_pos_of_def const_defs)

text \<open>The command for the rule table, and what is left to do after it.\<close>

lemma del_rule_cmd_ok:
  fixes ti :: nat
  assumes c: "sized c T E" "tbl_addr_offset c = 0" and rc: "rule_chains T (T + E) (ipv4_rules c) B"
    and p: "p < T + E" "enabled_of (ipv4_rules c ! p)"
  defines "rs \<equiv> ipv4_rules c" and "pos \<equiv> rule_pos_of T (ipv4_rules c) p"
  defines "cmd \<equiv> del_rule_cmd c ti (part T p) (ipv4_rules c ! p) pos"
  shows "\<exists>rs0. dma_in T E cmd \<and> base_addr cmd \<in> {IPA_NAT_BASE_TBL, IPA_NAT_EXPN_TBL} \<and> length rs0 = T + E \<and>
     (\<forall>is. dma_write T cmd (rs, is) = (rs0, is)) \<and>
     (\<forall>c'. sized c' T E \<and> ipv4_rules c' = rs0 \<longrightarrow> del_rule_finish c' (T \<le> p) (part T p) pos = Inr (c'\<lparr>ipv4_rules := unlink_rule T rs p\<rparr>))"
proof -
  note sz = c(1)[unfolded sized_def]
  have T: "table_entries c = T" "T \<le> 16384" "E \<le> 16384" "length rs = T + E" using sz by (auto simp: rs_def)
  note cs = rc[unfolded rule_chains_def, folded rs_def]
  have fin: "\<exists>rs0. dma_in T E cmd \<and> base_addr cmd \<in> {IPA_NAT_BASE_TBL, IPA_NAT_EXPN_TBL} \<and> length rs0 = T + E \<and>
     (\<forall>is. dma_write T cmd (rs, is) = (rs0, is)) \<and>
     (\<forall>c'. sized c' T E \<and> ipv4_rules c' = rs0 \<longrightarrow> del_rule_finish c' (T \<le> p) (part T p) pos = Inr (c'\<lparr>ipv4_rules := unlink_rule T rs p\<rparr>))"
    if "cmd = rule_dma ti T a (of_nat k) v" "a < T + E" "k < 32" "even k"
      "\<And>c'. sized c' T E \<Longrightarrow> ipv4_rules c' = rs[a := write_half k v (rs ! a)] \<Longrightarrow>
         del_rule_finish c' (T \<le> p) (part T p) pos = Inr (c'\<lparr>ipv4_rules := unlink_rule T rs p\<rparr>)" for a k v
    using that rule_dma_write[OF that(2) T(2,3) that(3,4)] T(4)
    by (intro exI[of _ "rs[a := write_half k v (rs ! a)]"]) (auto simp: rule_dma_def)
  consider (only) "p < T" "nxt_of (rs ! p) = 0" | (head) "p < T" "nxt_of (rs ! p) \<noteq> 0" | (expn) "T \<le> p" by linarith
  then show ?thesis
  proof cases
    case only
    then have pos: "pos = IPA_NAT_DEL_TYPE_ONLY_ONE" by (simp add: pos_def rule_pos_of_def rs_def)
    show ?thesis
    proof (rule fin[of p 18 IPA_NAT_FLAG_DISABLE_BIT_MASK])
      show "cmd = rule_dma ti T p (of_nat 18) IPA_NAT_FLAG_DISABLE_BIT_MASK"
        using only c(2) by (simp add: cmd_def del_rule_cmd_def pos rule_dma_def ipa_nati_get_entry_offset_def size_defs offset_defs Let_def)
      fix c' assume c': "sized c' T E" "ipv4_rules c' = rs[p := write_half 18 IPA_NAT_FLAG_DISABLE_BIT_MASK (rs ! p)]"
      then show "del_rule_finish c' (T \<le> p) (part T p) pos = Inr (c'\<lparr>ipv4_rules := unlink_rule T rs p\<rparr>)"
        using read_part(3)[OF c'(1) p(1), of zero_rule] only by (simp add: del_rule_finish_def pos unlink_rule_def)
    qed (use p in auto)
  next
    case head
    then have pos: "pos = IPA_NAT_DEL_TYPE_HEAD" by (simp add: pos_def rule_pos_of_def rs_def)
    show ?thesis
    proof (rule fin[of p 22 IPA_NAT_INVALID_PROTO_FIELD_VALUE])
      show "cmd = rule_dma ti T p (of_nat 22) IPA_NAT_INVALID_PROTO_FIELD_VALUE"
        using head c(2) by (simp add: cmd_def del_rule_cmd_def pos rule_dma_def ipa_nati_get_entry_offset_def size_defs offset_defs Let_def)
      fix c' assume "sized c' T E" "ipv4_rules c' = rs[p := write_half 22 IPA_NAT_INVALID_PROTO_FIELD_VALUE (rs ! p)]"
      then show "del_rule_finish c' (T \<le> p) (part T p) pos = Inr (c'\<lparr>ipv4_rules := unlink_rule T rs p\<rparr>)"
        using head by (simp add: del_rule_finish_def pos unlink_rule_def)
    qed (use p in auto)
  next
    case expn
    obtain h xs ys where n: "0 < h" "h < T" "B h = xs @ p # ys" "prev_of (rs ! p) = last (h # xs)"
      "nxt_of (rs ! p) = (if ys = [] then 0 else hd ys)" "last (h # xs) \<noteq> p" "last (h # xs) < T + E" "0 < last (h # xs)"
      "\<And>y. y \<in> set ys \<Longrightarrow> y \<noteq> p \<and> y \<noteq> last (h # xs) \<and> T < y \<and> y < T + E"
      using chain_neighbours[OF cs expn p(1)] p(2)[folded rs_def] unfolding at_def by metis
    define q nx where qn: "q = prev_of (rs ! p)" "nx = nxt_of (rs ! p)"
    have q: "q \<noteq> p" "q < T + E" using n by (auto simp: qn)
    have nx: "nx \<noteq> 0 \<Longrightarrow> T < nx \<and> nx < T + E \<and> nx \<noteq> p \<and> nx \<noteq> q" using n(4,5) n(9)[of "hd ys"] by (auto simp: qn simp del: last.simps)
    have pos: "pos = (if nx = 0 then IPA_NAT_DEL_TYPE_LAST else IPA_NAT_DEL_TYPE_MIDDLE)"
      using expn by (simp add: pos_def rule_pos_of_def rs_def qn)
    show ?thesis
    proof (rule fin[of q 8 "of_nat nx"])
      show "cmd = rule_dma ti T q (of_nat 8) (of_nat nx)"
        using c(2) T(1) by (auto simp: cmd_def del_rule_cmd_def pos rule_dma_def ipa_nati_get_entry_offset_def size_defs offset_defs Let_def
            qn[unfolded rs_def] const_defs)
      fix c' assume c': "sized c' T E" "ipv4_rules c' = rs[q := write_half 8 (of_nat nx) (rs ! q)]"
      have T': "table_entries c' = T" "expn_table_entries c' = E" "length (ipv4_rules c') = T + E" using c'(1) by (simp_all add: sized_def)
      have rp: "ipv4_rules c' ! p = rs ! p" using q(1) c'(2) by simp
      have r: "read_rule c' True (p - T) = Inr (rs ! p)" using read_part(1)[OF c'(1) p(1)] expn rp by simp
      show "del_rule_finish c' (T \<le> p) (part T p) pos = Inr (c'\<lparr>ipv4_rules := unlink_rule T rs p\<rparr>)"
      proof (cases "nx = 0")
        case True
        then show ?thesis using read_part(3)[OF c'(1) p(1), of zero_rule] expn pos c'(2)
          by (simp add: del_rule_finish_def unlink_rule_def Let_def qn)
      next
        case False
        let ?u = "UpdateSwSpecParams (ipv4_rules c' ! nx) IPA_NAT_SW_PARAM_PREV_INDX_BYTE (of_nat q)"
        have rn: "read_rule c' True (nx - T) = Inr (ipv4_rules c' ! nx)"
          "write_rule c' True (nx - T) ?u = Inr (c'\<lparr>ipv4_rules := (ipv4_rules c')[nx := ?u]\<rparr>)"
          using read_part(1,3)[OF c'(1), of nx] nx[OF False] by simp_all
        have s2: "sized (c'\<lparr>ipv4_rules := (ipv4_rules c')[nx := ?u]\<rparr>) T E" using sized_upd(1)[OF c'(1)] T'(3) by simp
        have sb: "sub16 nx T = nx - T" using nx[OF False] by (simp add: sub16_def)
        show ?thesis using False expn pos r rn sb T'(1) read_part(3)[OF s2 p(1), of zero_rule] c'(2)
          by (simp add: del_rule_finish_def unlink_rule_def Let_def qn[symmetric])
      qed
    qed (use q in auto)
  qed
qed

definition index_pos_of :: "nat \<Rightarrow> u32 list \<Rightarrow> nat \<Rightarrow> del_type" where
  "index_pos_of T is i = (if i < T then (if next_of (is ! i) = 0 then IPA_NAT_DEL_TYPE_ONLY_ONE else IPA_NAT_DEL_TYPE_HEAD)
     else if next_of (is ! i) = 0 then IPA_NAT_DEL_TYPE_LAST else IPA_NAT_DEL_TYPE_MIDDLE)"

lemma find_index_rule_pos_ok:
  assumes "sized c T E" "i < T + E"
  shows "ipa_nati_find_index_rule_pos c i = Inr (index_pos_of T (index_table c) i)"
  using read_part(2)[OF assms] assms by (auto simp: ipa_nati_find_index_rule_pos_def index_pos_of_def const_defs sized_def)

text \<open>The index entry after a deleted head; only that case uses it.\<close>

definition next_part :: "nat \<Rightarrow> u32 list \<Rightarrow> nat \<Rightarrow> nat" where
  "next_part T is i = (if index_pos_of T is i = IPA_NAT_DEL_TYPE_HEAD then next_of (is ! i) - T else 0)"

text \<open>The rules after the index table is cleaned up: the rule whose index entry moved learns its new index.\<close>

definition move_rule :: "ipa_nat_rule list \<Rightarrow> u32 list \<Rightarrow> nat \<Rightarrow> nat \<Rightarrow> ipa_nat_rule list" where
  "move_rule rs1 is i j = (let t = entry_of (is ! j)
     in if j = i then rs1 else rs1[t := UpdateSwSpecParams (rs1 ! t) IPA_NAT_SW_PARAM_INDX_TBL_ENTRY_BYTE (of_nat i)])"

lemma fold_index_dma:
  assumes "a < T + E" "T \<le> 16384" "E \<le> 16384" "k < 4" "even k"
  shows "fold (dma_write T) [index_dma ti T a (of_nat k) v] (rs, is) = (rs, is[a := write_index_half k v (is ! a)])"
  using index_dma_write(1)[OF assms] by simp

lemma del_index_ok:
  fixes ti :: nat
  assumes c: "sized c T E" "tbl_addr_offset c = 0" and ic: "index_chains T (T + E) (index_table c) ms B"
    and m: "index_expn_table_meta c = Some ms" "length ms = E"
    and i: "i < T + E" "entry_of (index_table c ! i) \<noteq> 0" and ent: "\<And>j. j < T + E \<Longrightarrow> entry_of (index_table c ! j) < T + E"
    and u: "unlink_index T (index_table c) ms i = (is', ms', j)"
  defines "is \<equiv> index_table c" and "pos \<equiv> index_pos_of T (index_table c) i"
  shows "\<exists>cmds is0. del_index_cmds c ti (T \<le> i) (part T i) pos = Inr cmds \<and> (\<forall>cmd \<in> set cmds. dma_in T E cmd) \<and>
     cmds \<noteq> [] \<and> (\<forall>cmd \<in> set cmds. base_addr cmd \<in> {IPA_NAT_INDX_TBL, IPA_NAT_INDEX_EXPN_TBL}) \<and>
     (\<forall>rs. fold (dma_write T) cmds (rs, is) = (rs, is0)) \<and> length is0 = T + E \<and>
     (\<forall>c'. sized c' T E \<and> index_table c' = is0 \<and> index_expn_table_meta c' = Some ms \<longrightarrow>
        del_index_finish c' (T \<le> i) (part T i) (next_part T is i) pos =
          Inr (c'\<lparr>ipv4_rules := move_rule (ipv4_rules c') is i j, index_table := is', index_expn_table_meta := Some ms'\<rparr>))"
proof -
  note sz = c(1)[unfolded sized_def]
  have T: "table_entries c = T" "T \<le> 16384" "E \<le> 16384" "length is = T + E" using sz by (auto simp: is_def)
  note cs = ic[unfolded index_chains_def, folded is_def]
  note offs = index_dma_def ipa_nati_get_index_entry_offset_def size_defs offset_defs Let_def
  consider (only) "i < T" "next_of (is ! i) = 0" | (head) "i < T" "next_of (is ! i) \<noteq> 0" | (expn) "T \<le> i" by linarith
  then show ?thesis
  proof cases
    case only
    then have pos: "pos = IPA_NAT_DEL_TYPE_ONLY_ONE" by (simp add: pos_def index_pos_of_def is_def)
    have uu: "is' = is[i := 0]" "ms' = ms" "j = i" using u only by (auto simp: unlink_index_def is_def)
    let ?is0 = "is[i := write_index_half 0 0 (is ! i)]"
    have "del_index_cmds c ti (T \<le> i) (part T i) pos = Inr [index_dma ti T i (of_nat 0) 0]"
      using only c(2) by (simp add: del_index_cmds_def pos offs const_defs)
    moreover have "dma_in T E (index_dma ti T i (of_nat 0) 0)" using i(1) T by (intro index_dma_write) auto
    moreover have "\<forall>rs. fold (dma_write T) [index_dma ti T i (of_nat 0) 0] (rs, is) = (rs, ?is0)"
      using fold_index_dma[OF i(1) T(2,3), of 0] by simp
    moreover have "del_index_finish c' (T \<le> i) (part T i) (next_part T is i) pos =
          Inr (c'\<lparr>ipv4_rules := move_rule (ipv4_rules c') is i j, index_table := is', index_expn_table_meta := Some ms'\<rparr>)"
      if c': "sized c' T E" "index_table c' = ?is0" "index_expn_table_meta c' = Some ms" for c'
      using read_part(4)[OF c'(1) i(1), of 0] only c'(2,3) by (simp add: del_index_finish_def pos uu move_rule_def Let_def)
    ultimately show ?thesis using T(4)
      by (intro exI[of _ "[index_dma ti T i (of_nat 0) 0]"] exI[of _ ?is0]) (auto simp: index_dma_def)
  next
    case head
    then have pos: "pos = IPA_NAT_DEL_TYPE_HEAD" by (simp add: pos_def index_pos_of_def is_def)
    define nx nn where nxn: "nx = next_of (is ! i)" "nn = next_of (is ! nx)"
    have z: "0 < i" using i(2) cs by (cases "i = 0") (auto simp: chains_def at_def is_def)
    note b = bucketD[OF chains_bucket[OF cs z head(1)] head(1)]
    obtain ys where B: "B i = nx # ys" using linked_nxt_head[OF b(1)] head(2) by (cases "B i") (auto simp: at_def nxn)
    have nx: "T < nx" "nx < T + E" "nx \<noteq> i" "entry_of (is ! nx) \<noteq> 0" using b(5)[of nx] b(3) B by (auto simp: at_def)
    have nn: "nn = (if ys = [] then 0 else hd ys)" using b(1) B linked_nxt[of "at next_of is" i "[]" nx ys] by (simp add: at_def nxn)
    have nnT: "nn \<noteq> 0 \<Longrightarrow> T < nn \<and> nn < T + E" using nn b(5)[of nn] B by (auto split: if_splits)
    have uu: "is' = (is[i := cat16 (of_nat nn) (of_nat (entry_of (is ! nx)))])[nx := 0]" "ms' = (if nn = 0 then ms else ms[nn - T := i])" "j = nx"
      using u head by (auto simp: unlink_index_def Let_def nxn is_def)
    let ?cmds = "[index_dma ti T i (of_nat 0) (of_nat (entry_of (is ! nx))), index_dma ti T i (of_nat 2) (of_nat nn)]"
    let ?w = "cat16 (of_nat nn) (of_nat (entry_of (is ! nx)))"
    let ?is0 = "is[i := ?w]"
    have sb: "sub16 nx T = nx - T" using nx by (simp add: sub16_def)
    have rd: "read_index c False i = Inr (is ! i)" "read_index c True (nx - T) = Inr (is ! nx)"
      using read_part(2)[OF c(1) i(1)] read_part(2)[OF c(1) nx(2)] head(1) nx(1) by (simp_all add: is_def)
    have "del_index_cmds c ti (T \<le> i) (part T i) pos = Inr ?cmds"
      using head c(2) rd sb T(1) by (simp add: del_index_cmds_def pos offs nxn[symmetric])
    moreover have "\<forall>cmd \<in> set ?cmds. dma_in T E cmd"
      using index_dma_write(2)[OF i(1) T(2,3), of 0] index_dma_write(2)[OF i(1) T(2,3), of 2] by simp
    moreover have "\<forall>rs. fold (dma_write T) ?cmds (rs, is) = (rs, ?is0)"
      using index_dma_write(1)[OF i(1) T(2,3), of 0] index_dma_write(1)[OF i(1) T(2,3), of 2] i(1) T(4)
      by (simp add: write_index_half_def)
    moreover have "del_index_finish c' (T \<le> i) (part T i) (next_part T is i) pos =
          Inr (c'\<lparr>ipv4_rules := move_rule (ipv4_rules c') is i j, index_table := is', index_expn_table_meta := Some ms'\<rparr>)"
      if c': "sized c' T E" "index_table c' = ?is0" "index_expn_table_meta c' = Some ms" for c'
    proof -
      have T': "table_entries c' = T" "length (index_table c') = T + E" using c'(1) by (simp_all add: sized_def)
      have np: "next_part T is i = nx - T" using head by (simp add: next_part_def index_pos_of_def nxn)
      have r1: "read_index c' True (nx - T) = Inr (is ! nx)" using read_part(2)[OF c'(1) nx(2)] nx(1,3) c'(2) by simp
      let ?c1 = "c'\<lparr>index_expn_table_meta := Some ms'\<rparr>"
      have w1: "(if next_of (is ! nx) \<noteq> 0 \<and> T \<le> next_of (is ! nx) then write_meta c' (next_of (is ! nx) - T) i else Inr c') = Inr ?c1"
        using nnT c'(3) m(2) by (auto simp: nxn(2)[symmetric] uu(2) write_meta_def array_set_def)
      have s1: "sized ?c1 T E" using c'(1) by (simp add: sized_def)
      have w2: "write_index ?c1 True (nx - T) 0 = Inr (?c1\<lparr>index_table := is'\<rparr>)"
        using read_part(4)[OF s1 nx(2), of 0] nx(1) c'(2) uu(1) by simp
      let ?c2 = "?c1\<lparr>index_table := is'\<rparr>"
      have li: "length is' = T + E" using T(4) by (simp add: uu)
      have s2: "sized ?c2 T E" using s1 li by (simp add: sized_def)
      have e16: "entry_of (is ! nx) < 65536" by (rule entry_lt)
      have ei: "entry_of (is' ! i) = entry_of (is ! nx)" using i(1) T(4) nx(3) u16_of_nat[OF e16] by (simp add: uu(1) fld)
      have r2: "read_index ?c2 False i = Inr (is' ! i)" using read_part(2)[OF s2 i(1)] head(1) by simp
      let ?t = "entry_of (is ! nx)"
      have t: "?t < T + E" using ent[OF nx(2)] by (simp add: is_def)
      let ?r = "UpdateSwSpecParams (ipv4_rules c' ! ?t) IPA_NAT_SW_PARAM_INDX_TBL_ENTRY_BYTE (of_nat i)"
      have r3: "read_rule ?c2 (T \<le> ?t) (part T ?t) = Inr (ipv4_rules c' ! ?t)" using read_part(1)[OF s2 t] by simp
      have w3: "write_rule ?c2 (T \<le> ?t) (part T ?t) ?r = Inr (?c2\<lparr>ipv4_rules := (ipv4_rules c')[?t := ?r]\<rparr>)"
        using read_part(3)[OF s2 t, of ?r] by simp
      have "del_index_finish c' (T \<le> i) (part T i) (next_part T is i) pos = Inr (?c2\<lparr>ipv4_rules := (ipv4_rules c')[?t := ?r]\<rparr>)"
        using head(1) r1 w1 w2 r2 ei r3 w3 by (cases "T \<le> ?t") (simp_all add: del_index_finish_def pos np T'(1) Let_def)
      then show ?thesis using nx(3) by (simp add: uu(3) move_rule_def Let_def)
    qed
    ultimately show ?thesis using T(4) by (intro exI[of _ ?cmds] exI[of _ ?is0]) (auto simp: index_dma_def)
  next
    case expn
    have io: "at entry_of is i \<noteq> 0" using i(2) by (simp add: at_def is_def)
    obtain h xs ys where n: "0 < h" "h < T" "B h = xs @ i # ys" "ms ! (i - T) = last (h # xs)"
      "next_of (is ! i) = (if ys = [] then 0 else hd ys)" "last (h # xs) \<noteq> i" "last (h # xs) < T + E" "0 < last (h # xs)"
      "\<And>y. y \<in> set ys \<Longrightarrow> y \<noteq> i \<and> y \<noteq> last (h # xs) \<and> T < y \<and> y < T + E"
      using chain_neighbours[OF cs expn i(1) io] unfolding at_def by metis
    define q nx where qn: "q = ms ! (i - T)" "nx = next_of (is ! i)"
    have q: "q \<noteq> i" "q < T + E" using n by (auto simp: qn)
    have nx: "nx \<noteq> 0 \<Longrightarrow> T < nx \<and> nx < T + E" using n(5) n(9)[of "hd ys"] by (auto simp: qn simp del: last.simps)
    have pos: "pos = (if nx = 0 then IPA_NAT_DEL_TYPE_LAST else IPA_NAT_DEL_TYPE_MIDDLE)"
      using expn by (simp add: pos_def index_pos_of_def is_def qn)
    have uu: "is' = (is[q := write_index_half 2 (of_nat nx) (is ! q)])[i := 0]"
      "ms' = (if nx = 0 then ms else (ms[nx - T := q])[i - T := 0])" "j = i"
      using u expn by (auto simp: unlink_index_def Let_def qn is_def)
    let ?is0 = "is[q := write_index_half 2 (of_nat nx) (is ! q)]"
    have il: "i - T < length ms" using i(1) m(2) expn by simp
    have rd: "read_index c True (i - T) = Inr (is ! i)" using read_part(2)[OF c(1) i(1)] expn by (simp add: is_def)
    have "del_index_cmds c ti (T \<le> i) (part T i) pos = Inr [index_dma ti T q (of_nat 2) (of_nat nx)]"
      using expn c(2) m(1) il rd T(1) qn by (auto simp: del_index_cmds_def pos offs array_at_def const_defs)
    moreover have "dma_in T E (index_dma ti T q (of_nat 2) (of_nat nx))" using q T by (intro index_dma_write) auto
    moreover have "\<forall>rs. fold (dma_write T) [index_dma ti T q (of_nat 2) (of_nat nx)] (rs, is) = (rs, ?is0)"
      using fold_index_dma[OF q(2) T(2,3), of 2] by simp
    moreover have "del_index_finish c' (T \<le> i) (part T i) (next_part T is i) pos =
          Inr (c'\<lparr>ipv4_rules := move_rule (ipv4_rules c') is i j, index_table := is', index_expn_table_meta := Some ms'\<rparr>)"
      if c': "sized c' T E" "index_table c' = ?is0" "index_expn_table_meta c' = Some ms" for c'
    proof -
      have T': "table_entries c' = T" using c'(1) by (simp add: sized_def)
      have r: "read_index c' True (i - T) = Inr (is ! i)" using read_part(2)[OF c'(1) i(1)] expn q(1) c'(2) by simp
      let ?c1 = "c'\<lparr>index_expn_table_meta := Some ms'\<rparr>"
      have s1: "sized ?c1 T E" using c'(1) by (simp add: sized_def)
      have w: "write_index ?c1 True (i - T) 0 = Inr (?c1\<lparr>index_table := is'\<rparr>)"
        using read_part(4)[OF s1 i(1), of 0] expn c'(2) by (simp add: uu)
      have n': "next_part T is i = 0" using expn by (simp add: next_part_def index_pos_of_def)
      show ?thesis
      proof (cases "nx = 0")
        case True
        have "c'\<lparr>index_table := is'\<rparr> = c'\<lparr>index_table := is', index_expn_table_meta := Some ms'\<rparr>"
          using c'(3) True by (cases c') (simp add: uu(2))
        moreover have "write_index c' True (i - T) 0 = Inr (c'\<lparr>index_table := is'\<rparr>)"
          using read_part(4)[OF c'(1) i(1), of 0] expn c'(2) by (simp add: uu(1))
        ultimately show ?thesis using expn True by (simp add: del_index_finish_def pos uu(3) move_rule_def Let_def)
      next
        case False
        have nl: "next_of (is ! i) - T < E" using nx[OF False] by (auto simp: qn)
        have "bnd (array_at (index_expn_table_meta c') (i - T)) (\<lambda>prev.
            bnd (write_meta c' (nx - T) prev) (\<lambda>c. write_meta c (i - T) IPA_NAT_INVALID_NAT_ENTRY)) = Inr ?c1"
          using c'(3) il nl m(2) False by (simp add: array_at_def write_meta_def array_set_def const_defs uu(2) qn)
        then show ?thesis using False r w expn T' nx[OF False]
          by (simp add: del_index_finish_def pos uu(3) move_rule_def Let_def qn(2)[symmetric])
      qed
    qed
    ultimately show ?thesis using T(4)
      by (intro exI[of _ "[index_dma ti T q (of_nat 2) (of_nat nx)]"] exI[of _ ?is0]) (auto simp: index_dma_def)
  qed
qed

section \<open>Deleting a rule\<close>

lemma reorder_ok:
  assumes d: "dev_ok dev T E" and r: "base_addr cmd \<in> {IPA_NAT_BASE_TBL, IPA_NAT_EXPN_TBL}"
    and i: "cmds \<noteq> []" "\<forall>cmd \<in> set cmds. base_addr cmd \<in> {IPA_NAT_INDX_TBL, IPA_NAT_INDEX_EXPN_TBL}"
  shows "\<exists>w'. ReorderCmds dev (cmd # cmds) w = (cmds @ [cmd], w')"
proof -
  obtain w' where "malloc dev w = (True, w')" using dev_malloc[OF d] by blast
  moreover obtain x xs where x: "cmds = x # xs" using i(1) by (cases cmds) auto
  moreover have "base_addr cmd \<noteq> IPA_NAT_INDX_TBL" "base_addr cmd \<noteq> IPA_NAT_INDEX_EXPN_TBL" using r by auto
  moreover have "base_addr x = IPA_NAT_INDX_TBL \<or> base_addr x = IPA_NAT_INDEX_EXPN_TBL" using i(2) x by auto
  ultimately show ?thesis by (auto simp: ReorderCmds_def)
qed

lemma post_del_ok:
  assumes d: "dev_ok dev T E" and c: "sized c T E" "tbl_addr_offset c = 0" "index_expn_table_meta c = Some ms"
    and inv: "mem_inv T E (ipv4_rules c) (index_table c) ms ids B BI"
    and p: "p < T + E" "live_of (ipv4_rules c ! p)" "indx_of (ipv4_rules c ! p) = i"
    and u: "unlink_index T (index_table c) ms i = (is', ms', j)"
  shows "\<exists>w'. ipa_nati_post_del_dma_cmd dev ti (part T p) (T \<le> p) (rule_pos_of T (ipv4_rules c) p) (c, w) =
     Inr (0, c\<lparr>ipv4_rules := cut_rules T (ipv4_rules c) (index_table c) p i j, index_table := is', index_expn_table_meta := Some ms'\<rparr>, w')"
proof -
  note D = mem_invD[OF inv]
  note sh = D(1)[unfolded shape_def]
  let ?rs = "ipv4_rules c" and ?is = "index_table c" and ?pos = "rule_pos_of T (ipv4_rules c) p" and ?ipos = "index_pos_of T (index_table c) i"
  have en: "enabled_of (?rs ! p)" using p(2) by (simp add: live_of_def)
  have lp: "at live_of ?rs p" using p(2) by (simp add: at_def)
  have i: "i < T + E" "entry_of (?is ! i) \<noteq> 0" using crossedD[OF D(5) p(1) lp] p(3) by (auto simp: at_def)
  have ent: "entry_of (?is ! x) < T + E" if "x < T + E" for x
    using crossedD2(1)[OF D(5) that] sh by (cases "entry_of (?is ! x) = 0") (auto simp: at_def)
  have T: "table_entries c = T" using c(1) by (simp add: sized_def)
  have ml: "length ms = E" using sh by simp
  let ?cmd = "del_rule_cmd c ti (part T p) (?rs ! p) ?pos"
  obtain rs0 where r: "dma_in T E ?cmd" "base_addr ?cmd \<in> {IPA_NAT_BASE_TBL, IPA_NAT_EXPN_TBL}" "length rs0 = T + E"
    "\<And>is. dma_write T ?cmd (?rs, is) = (rs0, is)"
    "\<And>c'. sized c' T E \<Longrightarrow> ipv4_rules c' = rs0 \<Longrightarrow> del_rule_finish c' (T \<le> p) (part T p) ?pos = Inr (c'\<lparr>ipv4_rules := unlink_rule T ?rs p\<rparr>)"
    using del_rule_cmd_ok[OF c(1,2) D(2) p(1) en, of ti] by blast
  obtain cmds is0 where x: "del_index_cmds c ti (T \<le> i) (part T i) ?ipos = Inr cmds" "\<forall>cmd \<in> set cmds. dma_in T E cmd" "cmds \<noteq> []"
    "\<forall>cmd \<in> set cmds. base_addr cmd \<in> {IPA_NAT_INDX_TBL, IPA_NAT_INDEX_EXPN_TBL}"
    "\<And>rs. fold (dma_write T) cmds (rs, ?is) = (rs, is0)" "length is0 = T + E"
    "\<And>c'. sized c' T E \<Longrightarrow> index_table c' = is0 \<Longrightarrow> index_expn_table_meta c' = Some ms \<Longrightarrow>
        del_index_finish c' (T \<le> i) (part T i) (next_part T ?is i) ?ipos =
          Inr (c'\<lparr>ipv4_rules := move_rule (ipv4_rules c') ?is i j, index_table := is', index_expn_table_meta := Some ms'\<rparr>)"
    using del_index_ok[OF c(1,2) D(3) c(3) ml i ent u, of ti] by blast
  obtain w1 where w1: "malloc dev w = (True, w1)" using dev_malloc[OF d] by blast
  obtain w2 where w2: "ReorderCmds dev (?cmd # cmds) w1 = (cmds @ [?cmd], w2)" using reorder_ok[OF d r(2) x(3,4)] by blast
  have "fold (dma_write T) (cmds @ [?cmd]) (?rs, ?is) = (rs0, is0)" using r(4) x(5) by simp
  then obtain w3 where w3: "post_dma dev (cmds @ [?cmd]) (c, w2) = (0, c\<lparr>ipv4_rules := rs0, index_table := is0\<rparr>, w3)"
    using post_dma_ok[OF d c(1)] r(1) x(2) by fastforce
  let ?c1 = "c\<lparr>ipv4_rules := rs0, index_table := is0\<rparr>"
  have s1: "sized ?c1 T E" using c(1) r(3) x(6) by (simp add: sized_def)
  have f1: "del_rule_finish ?c1 (T \<le> p) (part T p) ?pos = Inr (?c1\<lparr>ipv4_rules := unlink_rule T ?rs p\<rparr>)" using r(5)[OF s1] by simp
  let ?c2 = "?c1\<lparr>ipv4_rules := unlink_rule T ?rs p\<rparr>"
  have s2: "sized ?c2 T E" using s1 sh by (simp add: sized_def)
  have f2: "del_index_finish ?c2 (T \<le> i) (part T i) (next_part T ?is i) ?ipos =
      Inr (c\<lparr>ipv4_rules := cut_rules T ?rs ?is p i j, index_table := is', index_expn_table_meta := Some ms'\<rparr>)"
    using x(7)[OF s2] c(3) by (simp add: cut_rules_def move_rule_def Let_def)
  have nb: "(if ?ipos = IPA_NAT_DEL_TYPE_HEAD then bnd (read_index c (T \<le> i) (part T i)) (\<lambda>iw. Inr (sub16 (next_of iw) T)) else Inr 0) =
      Inr (next_part T ?is i)"
  proof (cases "?ipos = IPA_NAT_DEL_TYPE_HEAD")
    case True
    then have h: "i < T" "next_of (?is ! i) \<noteq> 0" by (auto simp: index_pos_of_def split: if_splits)
    have "0 < i" using i(2) D(3) by (cases "i = 0") (auto simp: index_chains_def chains_def at_def)
    note b = bucketD[OF chains_bucket[OF D(3)[unfolded index_chains_def] \<open>0 < i\<close> h(1)] h(1)]
    have "T < next_of (?is ! i)" using linked_nxt_head[OF b(1)] h(2) b(5)[of "hd (BI i)"] by (auto simp: at_def split: if_splits)
    then show ?thesis using True read_part(2)[OF c(1) i(1)] by (simp add: next_part_def sub16_def)
  qed (simp add: next_part_def)
  have sel: "(if T \<le> i then (True, i - T) else (False, i)) = (T \<le> i, part T i)" by simp
  have "ipa_nati_post_del_dma_cmd dev ti (part T p) (T \<le> p) ?pos (c, w) =
     Inr (0, c\<lparr>ipv4_rules := cut_rules T ?rs ?is p i j, index_table := is', index_expn_table_meta := Some ms'\<rparr>, w3)"
    unfolding ipa_nati_post_del_dma_cmd_def prod.case w1 read_part(1)[OF c(1) p(1)] bnd_simps p(3) find_index_rule_pos_ok[OF c(1) i(1)]
      T sel Let_def x(1) nb w2 w3
    using en f1 f2 by (simp only: bnd_simps prod.case if_False if_True simp_thms)
  then show ?thesis by blast
qed

lemma hdl_rules_SomeD:
  assumes inv: "tbl_inv c" and h: "hdl_rules c hn = Some r"
  obtains ms ids B BI p where "index_expn_table_meta c = Some ms" "rule_id_array c = Some ids"
    "mem_inv (table_entries c) (expn_table_entries c) (ipv4_rules c) (index_table c) ms ids B BI"
    "0 < hn" "hn < table_entries c + expn_table_entries c" "ids ! (hn - 1) = enc (table_entries c) p"
    "p < table_entries c + expn_table_entries c" "live_of (ipv4_rules c ! p)" "0 < p" "p \<noteq> table_entries c" "clnt_of (ipv4_rules c ! p) = r"
proof -
  obtain ms ids B BI where I: "index_expn_table_meta c = Some ms" "rule_id_array c = Some ids"
    "mem_inv (table_entries c) (expn_table_entries c) (ipv4_rules c) (index_table c) ms ids B BI" using tbl_invD[OF inv] by metis
  note D = mem_invD[OF I(3)]
  have k: "0 < hn" "hn < length ids" "ids ! (hn - 1) \<noteq> 0" "clnt_of (ipv4_rules c ! dec (table_entries c) (ids ! (hn - 1))) = r"
    using h I(2) by (auto simp: hdl_rules_def split: if_splits)
  have len: "length ids = table_entries c + expn_table_entries c" using D(1) by (simp add: shape_def)
  then have "hn - 1 < table_entries c + expn_table_entries c" using k(2) by simp
  from handlesD(1)[OF D(8) this k(3)] obtain p where p: "p < table_entries c + expn_table_entries c" "at live_of (ipv4_rules c) p"
    "ids ! (hn - 1) = enc (table_entries c) p" by blast
  have "p \<noteq> table_entries c \<and> 0 < p" using handles_slot_expn(3)[OF I(3) p(1,2)] .
  then show ?thesis using that I k p len by (auto simp: at_def)
qed

lemma enc_odd: "p < T + E \<Longrightarrow> odd (enc T p) = (T \<le> p)" "p < T + E \<Longrightarrow> enc T p div 2 = part T p"
  by (auto simp: enc_def)

lemma del_table_rule:
  assumes d: "dev_ok dev (table_entries c) (expn_table_entries c)" and inv: "tbl_inv c" and s: "ip4_tbl ca = [c]"
    and h: "hdl_rules c (unat hdl) = Some r"
  shows "\<exists>c' w'. ipa_nati_del_ipv4_rule dev 1 hdl (ca, w) = Inr (0, ca\<lparr>ip4_tbl := [c']\<rparr>, w') \<and>
       hdl_rules c' = (hdl_rules c)(unat hdl := None) \<and> tbl_inv c' \<and> same_table c c'"
proof -
  define T E where TE: "T = table_entries c" "E = expn_table_entries c"
  obtain ms ids B BI p where I: "index_expn_table_meta c = Some ms" "rule_id_array c = Some ids"
    "mem_inv T E (ipv4_rules c) (index_table c) ms ids B BI" and k: "0 < unat hdl" "unat hdl < T + E" "ids ! (unat hdl - 1) = enc T p"
    and p: "p < T + E" "live_of (ipv4_rules c ! p)" "0 < p" "p \<noteq> T" "clnt_of (ipv4_rules c ! p) = r"
    using hdl_rules_SomeD[OF inv h] unfolding TE by blast
  note D = mem_invD[OF I(3)]
  note sh = D(1)[unfolded shape_def]
  have V: "valid c" "tbl_addr_offset c = 0" "sized c T E" using tbl_invD[OF inv] unfolding TE by blast+
  define i where "i = indx_of (ipv4_rules c ! p)"
  obtain is' ms' j where u: "unlink_index T (index_table c) ms i = (is', ms', j)" using prod_cases3 by blast
  have get: "get_tbl ca 0 = Inr c" "set_tbl ca 0 c' = ca\<lparr>ip4_tbl := [c']\<rparr>" for c' using s by (simp_all add: get_tbl_def set_tbl_def)
  have h16: "unat (ucast hdl :: u16) = unat hdl" using k(2) sh by (simp add: unsigned_ucast_eq take_bit_nat_eq_self)
  have hm: "unat (hdl - 1) = unat hdl - 1"
  proof -
    have "1 \<le> hdl" using k(1) by (simp add: word_le_nat_alt)
    then show ?thesis by (simp add: unat_sub)
  qed
  have parse: "ipa_nati_parse_ipv4_rule_hdl c (unat hdl) = Inr (T \<le> p, part T p)"
    using k sh I(2) enc_odd[OF p(1)] by (simp add: ipa_nati_parse_ipv4_rule_hdl_def TE[symmetric] array_at_def)
  have pz: "part T p \<noteq> IPA_NAT_INVALID_NAT_ENTRY" using p(3,4) by (auto simp: const_defs)
  obtain w' where post: "ipa_nati_post_del_dma_cmd dev 0 (part T p) (T \<le> p) (rule_pos_of T (ipv4_rules c) p) (c, w) =
     Inr (0, c\<lparr>ipv4_rules := cut_rules T (ipv4_rules c) (index_table c) p i j, index_table := is', index_expn_table_meta := Some ms'\<rparr>, w')"
    using post_del_ok[OF d[folded TE] V(3,2) I(1,3) p(1,2) _ u] i_def by blast
  let ?k = "unat hdl - 1"
  let ?rs = "clear_dead T (cut_rules T (ipv4_rules c) (index_table c) p i j)"
  let ?c' = "c\<lparr>ipv4_rules := ?rs, index_table := is', index_expn_table_meta := Some ms', rule_id_array := Some (ids[?k := 0])\<rparr>"
  have kl: "?k < length ids" "?k < T + E" using k(2) sh by auto
  have dd: "ipa_nati_del_dead_ipv4_head_nodes (c\<lparr>ipv4_rules := cut_rules T (ipv4_rules c) (index_table c) p i j, index_table := is',
      index_expn_table_meta := Some ms'\<rparr>) = c\<lparr>ipv4_rules := ?rs, index_table := is', index_expn_table_meta := Some ms'\<rparr>"
    by (simp add: ipa_nati_del_dead_ipv4_head_nodes_def clear_dead_def TE)
  have del: "ipa_nati_del_ipv4_rule dev 1 hdl (ca, w) = Inr (0, ca\<lparr>ip4_tbl := [?c']\<rparr>, w')"
    unfolding ipa_nati_del_ipv4_rule_def prod.case Let_def
    using get V(1) parse pz find_rule_pos_ok[OF V(3) p(1)] post dd I(2) kl(1) h16 hm by (simp add: array_set_def const_defs)
  note md = mem_delete[OF I(3) p(1,2) i_def[symmetric] u kl(2) k(3)]
  obtain B' BI' where m: "mem_inv T E ?rs is' ms' (ids[?k := 0]) B' BI'" using md by blast
  have "tbl_inv ?c'" by (rule tbl_invI[OF m]) (use V in \<open>simp_all add: TE\<close>)
  moreover have "hdl_rules ?c' = (hdl_rules c)(unat hdl := None)"
  proof -
    have "clnt_of (?rs ! dec T (ids ! x)) = clnt_of (ipv4_rules c ! dec T (ids ! x))" if x: "x < length ids" "x \<noteq> ?k" "ids ! x \<noteq> 0" for x
    proof -
      have xN: "x < T + E" using x(1) sh by simp
      obtain e where e: "e < T + E" "at live_of (ipv4_rules c) e" "ids ! x = enc T e" using handlesD(1)[OF D(8) xN x(3)] by blast
      have "e \<noteq> p" using handlesD(3)[OF D(8) xN kl(2) x(3)] x(2) e(3) k(3) by auto
      then show ?thesis using md e by (simp add: at_def)
    qed
    then have "hdl_rules ?c' = (hdl_rules c)(?k + 1 := None)"
      using hdl_rules_upd[OF I(2), of ?c' ?k 0] kl k(1,2) sh by (simp add: TE)
    then show ?thesis using k(1) by simp
  qed
  moreover have "same_table c ?c'" by (simp add: same_table_def)
  ultimately show ?thesis using del by blast
qed

text \<open>A handle that stands for no rule is refused.\<close>

lemma del_table_none:
  assumes inv: "tbl_inv c" and s: "ip4_tbl ca = [c]" and h: "hdl_rules c (unat hdl) = None" "hdl \<noteq> 0" "unat hdl < 65536"
  shows "ipa_nati_del_ipv4_rule dev 1 hdl (ca, w) = Inr (- EINVAL, ca, w)"
proof -
  obtain ms ids B BI where I: "rule_id_array c = Some ids"
    "mem_inv (table_entries c) (expn_table_entries c) (ipv4_rules c) (index_table c) ms ids B BI" using tbl_invD[OF inv] by metis
  have len: "length ids = table_entries c + expn_table_entries c" using mem_invD(1)[OF I(2)] by (simp add: shape_def)
  have h16: "unat (ucast hdl :: u16) = unat hdl" using h(3) by (simp add: unsigned_ucast_eq take_bit_nat_eq_self)
  have "0 < unat hdl" using h(2) by (simp add: unat_gt_0)
  then have "\<exists>b. ipa_nati_parse_ipv4_rule_hdl c (unat hdl) = Inr (b, 0)"
    using h(1) I(1) len by (auto simp: ipa_nati_parse_ipv4_rule_hdl_def hdl_rules_def array_at_def const_defs split: if_splits)
  moreover have "get_tbl ca 0 = Inr c" using s by (simp add: get_tbl_def)
  ultimately show ?thesis using h16 by (auto simp: ipa_nati_del_ipv4_rule_def Let_def const_defs)
qed

end
