(* ===== verification/Nat_Sizes.thy ===== *)
theory Nat_Sizes
  imports Nat_Tables
begin

text \<open>
  Arithmetic of the NAT driver: what the checksum differences are, and the sizes of the tables.
\<close>

section \<open>Checksum differences\<close>

lemma uint_halves: "uint (x AND 0xFFFF) = uint x mod 65536" "uint (drop_bit 16 x) = uint x div 65536" for x :: u32
proof -
  have "x AND 0xFFFF = take_bit 16 x" by (simp add: take_bit_eq_mask mask_eq_exp_minus_1)
  then have "x AND 0xFFFF = x mod 65536" by (simp add: take_bit_eq_mod)
  moreover have "drop_bit 16 x = x div 65536" by (simp add: drop_bit_eq_div)
  ultimately show "uint (x AND 0xFFFF) = uint x mod 65536" "uint (drop_bit 16 x) = uint x div 65536"
    by (simp_all add: uint_mod_distrib uint_div_distrib)
qed

lemma halves_le:
  fixes x :: u32
  shows "uint (x AND 0xFFFF) \<le> 65535" "uint (drop_bit 16 x) \<le> 65535"
    "(uint (x AND 0xFFFF) + uint (drop_bit 16 x)) mod 65535 = uint x mod 65535"
proof -
  have b: "0 \<le> uint x" "uint x < 65536 * 65536" using uint_range_size[of x] by (simp_all add: word_size)
  have q: "uint x = uint x div 65536 * 65536 + uint x mod 65536" "0 \<le> uint x mod 65536" "uint x mod 65536 < 65536" by simp_all
  then show "uint (x AND 0xFFFF) \<le> 65535" "uint (drop_bit 16 x) \<le> 65535" using b unfolding uint_halves by linarith+
  have "uint x = uint x mod 65536 + uint x div 65536 + 65535 * (uint x div 65536)"
    using div_mult_mod_eq[of "uint x" 65536] by linarith
  then show "(uint (x AND 0xFFFF) + uint (drop_bit 16 x)) mod 65535 = uint x mod 65535"
    unfolding uint_halves by (metis mod_mult_self2)
qed

text \<open>One addition of a half word to the running sum, which stays a half word.\<close>

lemma fold_carry_add:
  assumes "uint c \<le> 65535" "uint x \<le> 65535" "uint c mod 65535 = s mod 65535"
  shows "uint (fold_carry (c + x)) \<le> 65535" "uint (fold_carry (c + x)) mod 65535 = (s + uint x) mod 65535"
proof -
  have u: "uint (c + x) = uint c + uint x" using assms by (simp add: uint_word_ariths)
  have z: "drop_bit 16 (c + x) \<noteq> 0 \<longleftrightarrow> 65536 \<le> uint c + uint x"
    using uint_halves(2)[of "c + x"] assms(1,2) uint_0_iff[of "drop_bit 16 (c + x)"] pos_imp_zdiv_pos_iff[of 65536 "uint c + uint x"] unfolding u
    by (cases "65536 \<le> uint c + uint x") (auto simp: div_pos_pos_trivial)
  have f: "uint (fold_carry (c + x)) = (if 65536 \<le> uint c + uint x then uint c + uint x - 65535 else uint c + uint x)"
  proof (cases "65536 \<le> uint c + uint x")
    case True
    then have "(uint c + uint x) mod 65536 = uint c + uint x - 65536" 
      using assms minus_mod_self2[of "uint c + uint x" 65536] mod_pos_pos_trivial[of "uint c + uint x - 65536" 65536] by simp
    then show ?thesis using True z u uint_halves(1)[of "c + x"] assms
      by (simp add: fold_carry_def uint_word_ariths)
  qed (use z u in \<open>simp add: fold_carry_def\<close>)
  then show "uint (fold_carry (c + x)) \<le> 65535" using assms(1,2) by simp
  have "(uint c + uint x) mod 65535 = (s + uint x) mod 65535" using assms(3) by (metis mod_add_left_eq)
  moreover have "(uint c + uint x - 65535) mod 65535 = (uint c + uint x) mod 65535" by (rule minus_mod_self2)
  ultimately show "uint (fold_carry (c + x)) mod 65535 = (s + uint x) mod 65535" unfolding f by simp
qed

lemma uint_NOT: "uint (NOT x :: u32) = 4294967295 - uint x" "uint (NOT y :: u16) = 65535 - uint y"
proof -
  have "uint x \<le> uint (- 1 :: u32)" "uint y \<le> uint (- 1 :: u16)"
    using uint_range_size[of x] uint_range_size[of y] by (simp_all add: word_size unsigned_minus_1_eq_mask mask_eq_exp_minus_1)
  then have "uint (- 1 - x) = uint (- 1 :: u32) - uint x" "uint (- 1 - y) = uint (- 1 :: u16) - uint y" by (simp_all only: uint_sub_lem)
  moreover have "NOT x = - 1 - x" "NOT y = - 1 - y" by (simp_all add: not_eq_complement)
  ultimately show "uint (NOT x :: u32) = 4294967295 - uint x" "uint (NOT y :: u16) = 65535 - uint y"
    by (simp_all only: unsigned_minus_1_eq_mask mask_eq_exp_minus_1) simp_all
qed

lemma uint_ucast16: "uint (ucast (p :: u16) :: u32) = uint p" "uint p \<le> 65535"
  using uint_range_size[of p] by (simp_all add: word_size unsigned_ucast_eq take_bit_int_eq_self_iff)

lemma uint_ucast_sum: "uint (c :: u32) \<le> 65535 \<Longrightarrow> uint (ucast c :: u16) = uint c"
  by (simp add: unsigned_ucast_eq take_bit_int_eq_self_iff)

text \<open>C38. The precomputed checksum differences: modulo \<open>2^16 - 1\<close>, in which Internet checksums are taken, the IP checksum
  difference is the public minus the private address, and the TCP/UDP one also has the public minus the private port, so that
  the carries folded back after each addition lose nothing.\<close>

theorem nat_checksums:
  "uint (ipa_nati_calc_ip_cksum pub_ip priv_ip) mod 65535 = (uint pub_ip - uint priv_ip) mod 65535 \<and>
   uint (ipa_nati_calc_tcp_udp_cksum pub_ip pub_port priv_ip priv_port) mod 65535 =
     (uint pub_ip + uint pub_port - uint priv_ip - uint priv_port) mod 65535"
proof -
  have pm: "(uint pub_ip + x) mod 65535 = (uint (pub_ip AND 0xFFFF) + uint (drop_bit 16 pub_ip) + x) mod 65535" 
           "(x + (uint (NOT priv_ip AND 0xFFFF) + uint (drop_bit 16 (NOT priv_ip)))) mod 65535 = (x - uint priv_ip) mod 65535" for x
  proof -
    show "(uint pub_ip + x) mod 65535 = (uint (pub_ip AND 0xFFFF) + uint (drop_bit 16 pub_ip) + x) mod 65535"
      by (metis halves_le(3) mod_add_left_eq)
    have "(x + (uint (NOT priv_ip AND 0xFFFF) + uint (drop_bit 16 (NOT priv_ip)))) mod 65535 = (x + (4294967295 - uint priv_ip)) mod 65535"
      by (metis halves_le(3) mod_add_right_eq uint_NOT(1))
    moreover have "x + (4294967295 - uint priv_ip) = (x - uint priv_ip) + 65535 * 65537" by simp
    ultimately show "(x + (uint (NOT priv_ip AND 0xFFFF) + uint (drop_bit 16 (NOT priv_ip)))) mod 65535 = (x - uint priv_ip) mod 65535"
      by (metis mod_mult_self2)
  qed
  note H = halves_le[of pub_ip] halves_le[of "NOT priv_ip"]
  note s0 = fold_carry_add[OF H(1,2) refl]
  note a1 = fold_carry_add[OF s0(1) H(4) s0(2)]
  note a2 = fold_carry_add[OF a1(1) H(5) a1(2)]
  note b1 = fold_carry_add[OF s0(1) uint_ucast16(2)[of pub_port, folded uint_ucast16(1)] s0(2)]
  note b2 = fold_carry_add[OF b1(1) H(4) b1(2)]
  note b3 = fold_carry_add[OF b2(1) H(5) b2(2)]
  note b4 = fold_carry_add[OF b3(1) uint_ucast16(2)[of "NOT priv_port", folded uint_ucast16(1)] b3(2)]
  have "uint (ipa_nati_calc_ip_cksum pub_ip priv_ip) mod 65535 = (uint pub_ip - uint priv_ip) mod 65535"
    unfolding ipa_nati_calc_ip_cksum_def Let_def add_0 uint_ucast_sum[OF a2(1)] a2(2)
    using pm(2)[of "uint pub_ip"] pm(1)[of "uint (NOT priv_ip AND 0xFFFF) + uint (drop_bit 16 (NOT priv_ip))"] by (simp only: add.assoc)
  moreover have "uint (ipa_nati_calc_tcp_udp_cksum pub_ip pub_port priv_ip priv_port) mod 65535 =
     (uint pub_ip + uint pub_port - uint priv_ip - uint priv_port) mod 65535"
  proof -
    have "uint (ipa_nati_calc_tcp_udp_cksum pub_ip pub_port priv_ip priv_port) mod 65535 =
       (uint (pub_ip AND 0xFFFF) + uint (drop_bit 16 pub_ip) + uint pub_port + uint (NOT priv_ip AND 0xFFFF) + uint (drop_bit 16 (NOT priv_ip)) +
        (65535 - uint priv_port)) mod 65535"
      unfolding ipa_nati_calc_tcp_udp_cksum_def Let_def add_0 uint_ucast_sum[OF b4(1)] b4(2) uint_ucast16(1) uint_NOT(2) ..
    also have "\<dots> = (uint pub_ip + uint pub_port + (65535 - uint priv_port) - uint priv_ip) mod 65535"
      using pm(1)[of "uint pub_port + uint (NOT priv_ip AND 0xFFFF) + uint (drop_bit 16 (NOT priv_ip)) + (65535 - uint priv_port)"]
        pm(2)[of "uint pub_ip + uint pub_port + (65535 - uint priv_port)"] by (simp only: add_ac)
    also have "\<dots> = ((uint pub_ip + uint pub_port - uint priv_ip - uint priv_port) + 65535) mod 65535" by (simp add: algebra_simps)
    also have "\<dots> = (uint pub_ip + uint pub_port - uint priv_ip - uint priv_port) mod 65535" by (rule mod_add_self2)
    finally show ?thesis .
  qed
  ultimately show ?thesis ..
qed

section \<open>Sizes\<close>

lemma near2_loop_pow:
  "2 ^ k \<le> num \<Longrightarrow> num < 2 ^ Suc k \<Longrightarrow> tmp = 2 ^ j \<Longrightarrow> j + k < 16 \<Longrightarrow>
   near2_loop number num tmp = Inr (if number \<noteq> 2 ^ (j + k) then 2 ^ Suc (j + k) mod 2 ^ 16 else 2 ^ (j + k))"
proof (induction k arbitrary: num tmp j)
  case 0
  then show ?case by (simp add: near2_loop.simps mult.commute)
next
  case (Suc k)
  have "(1 :: nat) \<le> 2 ^ k" by simp
  then have "2 \<le> num" using Suc.prems(1) unfolding power_Suc by linarith
  then have n: "2 ^ k \<le> num div 2" "num div 2 < 2 ^ Suc k" "num \<noteq> 1" "num \<noteq> 0" using Suc.prems(1,2) by auto
  have "(2 :: nat) ^ Suc j < 2 ^ 16" using Suc.prems(4) by (intro power_strict_increasing) auto
  then have "tmp * 2 mod 2 ^ 16 = 2 ^ Suc j" using Suc.prems(3) by simp
  from Suc.IH[OF n(1,2) this] Suc.prems(4) n(3,4) show ?case by (subst near2_loop.simps) simp
qed

lemma pow_bracket: "0 < n \<Longrightarrow> \<exists>k. 2 ^ k \<le> n \<and> n < 2 ^ Suc k" for n :: nat
proof (induction n rule: less_induct)
  case (less n)
  show ?case
  proof (cases "n = 1")
    case False
    then have "0 < n div 2" "n div 2 < n" using less.prems by auto
    from less.IH[OF this(2,1)] obtain k where "2 ^ k \<le> n div 2" "n div 2 < 2 ^ Suc k" by blast
    then have "2 ^ Suc k \<le> n \<and> n < 2 ^ Suc (Suc k)" by auto
    then show ?thesis by blast
  qed (auto intro: exI[of _ 0])
qed

text \<open>C39. \<open>GetNearest2Power\<close> returns for every positive 16 bit number: the least power of two that is at least the number, and
  at least 2, cut to 16 bits, so that 0 comes back for numbers above \<open>2^15\<close>.\<close>

theorem GetNearest2Power_spec:
  assumes "0 < num" "num < 2 ^ 16"
  shows "\<exists>k. GetNearest2Power num = Inr (0, 2 ^ k mod 2 ^ 16) \<and> 0 < k \<and> num \<le> 2 ^ k \<and> (2 ^ k < 2 * num \<or> num = 1 \<and> k = 1)"
proof (cases "num = 1")
  case True
  then show ?thesis by (auto simp: GetNearest2Power_def intro!: exI[of _ 1])
next
  case False
  obtain k where k: "2 ^ k \<le> num" "num < 2 ^ Suc k" using pow_bracket[OF assms(1)] by blast
  have "2 ^ k < (2 ^ 16 :: nat)" using k(1) assms(2) by linarith
  then have k16: "k < 16" by (rule power_less_imp_less_exp[rotated]) simp
  have k0: "0 < k" using k(2) False assms(1) by (cases k) auto
  have r: "GetNearest2Power num = Inr (0, if num \<noteq> 2 ^ k then 2 ^ Suc k mod 2 ^ 16 else 2 ^ k)"
    using near2_loop_pow[OF k, of 1 0 num] k16 False assms(1) by (simp add: GetNearest2Power_def)
  show ?thesis
  proof (cases "num = 2 ^ k")
    case True
    then have "2 ^ k mod 2 ^ 16 = (2 ^ k :: nat)" using assms(2) by simp
    then show ?thesis using r True k0 k16 by (intro exI[of _ k]) auto
  next
    case False
    then show ?thesis using r k k16 by (intro exI[of _ "Suc k"]) auto
  qed
qed

theorem GetNearest2Power_spec_witness:
  "\<exists>k. GetNearest2Power 33000 = Inr (0, 2 ^ k mod 2 ^ 16) \<and> 0 < k \<and> 33000 \<le> (2 :: nat) ^ k"
  using GetNearest2Power_spec[of 33000] by auto

end
