(* ===== verification/Nat_Driver_Props.thy ===== *)
theory Nat_Driver_Props
  imports Nat_Driver_Del Nat_Sizes
begin

text \<open>
  The NAT driver as its clients and the hardware see it: creation and deletion of the table, lookup along the hash chains,
  and sessions of calls against a client's book of its rules (interface \<open>booked\<close>).
\<close>

section \<open>A new table\<close>

definition base_size :: "nat \<Rightarrow> nat" where
  "base_size n = (case GetNearest2Power (if n * 4 div 5 = 0 then 1 else n * 4 div 5) of Inr (r, t) \<Rightarrow> t | Inl e \<Rightarrow> 0)"

definition expn_size :: "nat \<Rightarrow> nat" where
  "expn_size n = GetNearestEven (n div 5)"

lemma table_sizes:
  assumes "0 < n" "n \<le> 20480"
  shows "GetNearest2Power (if n * 4 div 5 = 0 then 1 else n * 4 div 5) = Inr (0, base_size n)" "2 \<le> base_size n" "base_size n \<le> 16384"
    "2 \<le> expn_size n" "expn_size n \<le> 4096" "n \<le> base_size n + expn_size n + 1" "\<exists>k. base_size n = 2 ^ k"
proof -
  define m where "m = (if n * 4 div 5 = 0 then 1 else n * 4 div 5)"
  have m: "0 < m" "m \<le> 16384" "m < 2 ^ 16" "n * 4 div 5 \<le> m" using assms by (auto simp: m_def)
  obtain k where k: "GetNearest2Power m = Inr (0, 2 ^ k mod 2 ^ 16)" "0 < k" "m \<le> 2 ^ k" "2 ^ k < 2 * m \<or> m = 1 \<and> k = 1"
    using GetNearest2Power_spec[OF m(1,3)] by (elim exE conjE) (rule that)
  have k15: "2 ^ k < (2 :: nat) ^ 15" 
  proof -
    have "2 * m \<le> 2 ^ 15" using m(2) by simp
    then show ?thesis using k(4) by (elim disjE) (linarith, simp)
  qed
  then have "2 ^ k < (2 :: nat) ^ 16" by simp
  then have "2 ^ k mod 2 ^ 16 = (2 :: nat) ^ k" by simp
  then have b: "GetNearest2Power m = Inr (0, base_size n)" "base_size n = 2 ^ k" using k(1) unfolding base_size_def m_def by simp_all
  show "GetNearest2Power (if n * 4 div 5 = 0 then 1 else n * 4 div 5) = Inr (0, base_size n)" using b(1) unfolding m_def .
  show "2 \<le> base_size n" using b(2) k(2) by (cases k) auto
  from k15 have "k < 15" by (rule power_less_imp_less_exp[rotated]) simp
  then have "(2 :: nat) ^ k \<le> 2 ^ 14" by (intro power_increasing) auto
  then show "base_size n \<le> 16384" using b(2) by simp
  have e: "n div 5 \<le> 4096" using assms by auto
  then have "n div 5 mod 2 \<noteq> 0 \<Longrightarrow> n div 5 \<noteq> 4096" by auto
  with e show "2 \<le> expn_size n" "expn_size n \<le> 4096" by (auto simp: expn_size_def GetNearestEven_def)
  have "n div 5 \<le> expn_size n" using e by (auto simp: expn_size_def GetNearestEven_def)
  moreover have "n * 4 div 5 \<le> base_size n" using m(4) k(3) b(2) by simp
  ultimately show "n \<le> base_size n + expn_size n + 1" using assms by linarith
  show "\<exists>k. base_size n = 2 ^ k" using b(2) by blast
qed

lemma mem_inv_zero:
  assumes "2 \<le> T" "T \<le> 16384" "2 \<le> E" "E \<le> 16384"
  shows "mem_inv T E (replicate (T + E) zero_rule) (replicate (T + E) 0) (replicate E 0) (replicate (T + E) 0) (\<lambda>_. []) (\<lambda>_. [])"
proof -
  let ?rs = "replicate (T + E) zero_rule" and ?is = "replicate (T + E) (0 :: u32)"
  have z: "e < T + E \<Longrightarrow> at nxt_of ?rs e = 0 \<and> \<not> at enabled_of ?rs e \<and> \<not> at live_of ?rs e \<and> at entry_of ?is e = 0 \<and> at next_of ?is e = 0" for e
    by (simp add: at_def fld)
  have "rule_chains T (T + E) ?rs (\<lambda>_. [])" "index_chains T (T + E) ?is (replicate E 0) (\<lambda>_. [])"
    unfolding rule_chains_def index_chains_def chains_def bucket_def using z assms by auto
  moreover have "deads T (T + E) ?rs" unfolding deads_def using z by (auto simp: at_def)
  moreover have "crossed (T + E) (at live_of ?rs) (at indx_of ?rs) (at entry_of ?is)" unfolding crossed_def using z by auto
  moreover have "handles T (T + E) (at live_of ?rs) (\<lambda>k. replicate (T + E) 0 ! k)" unfolding handles_def using z by auto
  moreover have "shape T E ?rs ?is (replicate E 0) (replicate (T + E) 0)" using assms by (simp add: shape_def)
  moreover have "placed T (at live_of ?rs) f (\<lambda>_. [])" "placed T (\<lambda>i. at entry_of ?is i \<noteq> 0) f (\<lambda>_. [])" for f
    unfolding placed_def using z by auto
  ultimately show ?thesis unfolding mem_inv_def by blast
qed


text \<open>What is relied on of kernel and hardware for the tables of \<open>n\<close> entries: calls succeed, the memory starts at offset 0, and
  commands are carried out.\<close>

definition kernel_ok :: "'w nat_dev \<Rightarrow> nat \<Rightarrow> bool" where
  "kernel_ok dev n \<longleftrightarrow> dev_ok dev (base_size n) (expn_size n) \<and>
     (\<forall>w. 0 \<le> fst (open_ipa dev w) \<and> 0 \<le> fst (open_nat dev w)) \<and>
     (\<forall>fd w. fst (close_nat dev fd w) = 0) \<and>
     (\<forall>sz w. fst (mmap dev sz w) \<noteq> MapFailed) \<and>
     (\<forall>sz w. fst (ioctl_alloc_nat_mem dev sz w) = 0 \<and> fst (snd (ioctl_alloc_nat_mem dev sz w)) = 0) \<and>
     (\<forall>cmd w. fst (ioctl_v4_init_nat dev cmd w) = 0) \<and>
     (\<forall>i a w. fst (ioctl_v4_del_nat dev i a w) = 0)"

lemma kernel_okD:
  assumes "kernel_ok dev n"
  shows "dev_ok dev (base_size n) (expn_size n)" "\<exists>fd w'. open_ipa dev w = (fd, w') \<and> 0 \<le> fd" "\<exists>fd w'. open_nat dev w = (fd, w') \<and> 0 \<le> fd"
    "\<exists>w'. close_nat dev fd w = (0, w')" "\<exists>rs is w'. mmap dev sz w = (Mapped rs is, w')" "\<exists>w'. ioctl_alloc_nat_mem dev sz w = (0, 0, w')"
    "\<exists>w'. ioctl_v4_init_nat dev cmd w = (0, w')" "\<exists>w'. ioctl_v4_del_nat dev i a w = (0, w')" "\<exists>w'. malloc dev w = (True, w')"
proof -
  show d: "dev_ok dev (base_size n) (expn_size n)" using assms unfolding kernel_ok_def by blast
  show "\<exists>w'. malloc dev w = (True, w')" by (rule dev_malloc[OF d])
  have "fst (mmap dev sz w) \<noteq> MapFailed" using assms unfolding kernel_ok_def by blast
  then show "\<exists>rs is w'. mmap dev sz w = (Mapped rs is, w')" by (cases "mmap dev sz w"; cases "fst (mmap dev sz w)") auto
  have "fst (open_ipa dev w) \<ge> 0 \<and> fst (open_nat dev w) \<ge> 0 \<and> fst (close_nat dev fd w) = 0 \<and> fst (ioctl_alloc_nat_mem dev sz w) = 0 \<and>
    fst (snd (ioctl_alloc_nat_mem dev sz w)) = 0 \<and> fst (ioctl_v4_init_nat dev cmd w) = 0 \<and> fst (ioctl_v4_del_nat dev i a w) = 0"
    using assms unfolding kernel_ok_def by blast
  then show "\<exists>fd w'. open_ipa dev w = (fd, w') \<and> 0 \<le> fd" "\<exists>fd w'. open_nat dev w = (fd, w') \<and> 0 \<le> fd" "\<exists>w'. close_nat dev fd w = (0, w')"
    "\<exists>w'. ioctl_alloc_nat_mem dev sz w = (0, 0, w')" "\<exists>w'. ioctl_v4_init_nat dev cmd w = (0, w')" "\<exists>w'. ioctl_v4_del_nat dev i a w = (0, w')"
    by (metis prod.collapse)+
qed

text \<open>The driver between tables: the one slot of the cache is cleared.\<close>

definition no_table :: "ipa_nat_cache \<Rightarrow> bool" where
  "no_table ca \<longleftrightarrow> ip4_tbl ca = [zero_tbl] \<and> table_cnt ca = 0"

lemma post_init_ok: "kernel_ok dev n \<Longrightarrow> fst (ipa_nati_post_ipv4_init_cmd dev i c w) = 0"
  by (simp add: ipa_nati_post_ipv4_init_cmd_def kernel_ok_def Let_def case_prod_beta)

lemma alloc_ok:
  assumes k: "kernel_ok dev (unat n)" and n: "0 < n" "unat n \<le> 20480"
  shows "\<exists>sz fd w'. ipa_nati_alloc_table dev n (ca, w) = Inr (0, (sz, 0, base_size (unat n), expn_size (unat n)), ca\<lparr>ipa_fd := fd\<rparr>, w')"
proof -
  let ?T = "base_size (unat n)" and ?E = "expn_size (unat n)"
  have n0: "0 < unat n" using n(1) by (simp add: word_less_nat_alt)
  note z = table_sizes[OF n0 n(2)]
  have t16: "(?T + ?E) mod 2 ^ 16 = ?T + ?E" using z(3,5) by simp
  define sz where "sz = IPA_NAT_TABLE_ENTRY_SIZE * (?T + ?E) + IPA_NAT_INDEX_TABLE_ENTRY_SIZE * (?T + ?E)"
  obtain fd w1 where o: "open_ipa dev w = (fd, w1)" "0 \<le> fd" using kernel_okD(2)[OF k] by blast
  obtain w2 where a: "ioctl_alloc_nat_mem dev sz w1 = (0, 0, w2)" using kernel_okD(6)[OF k] by blast
  obtain w3 where b: "ioctl_alloc_nat_mem dev sz w = (0, 0, w3)" using kernel_okD(6)[OF k] by blast
  have "ipa_nati_alloc_table dev n (ca, w) = Inr (0, (sz, 0, ?T, ?E), if ipa_fd ca = 0 then (ca\<lparr>ipa_fd := fd\<rparr>, w2) else (ca, w3))"
    unfolding ipa_nati_alloc_table_def prod.case Let_def expn_size_def[symmetric] z(1) bnd_simps t16 sz_def[symmetric]
      CreateNatDevice_def o(1) a b using o(2) by (simp add: a)
  then have "ipa_nati_alloc_table dev n (ca, w) = Inr (0, (sz, 0, ?T, ?E),
      ca\<lparr>ipa_fd := if ipa_fd ca = 0 then fd else ipa_fd ca\<rparr>, if ipa_fd ca = 0 then w2 else w3)" by simp
  then show ?thesis by blast
qed

lemma add_tbl_ok:
  assumes k: "kernel_ok dev (unat n)" and n: "0 < n" "unat n \<le> 20480" and s: "no_table ca"
  shows "\<exists>c w' fd. ipa_nati_add_ipv4_tbl dev ip n (ca, w) = Inr (0, 1, ca\<lparr>ip4_tbl := [c], table_cnt := 1, ipa_fd := fd\<rparr>, w') \<and>
     tbl_inv c \<and> hdl_rules c = Map.empty \<and> public_addr c = ip \<and> table_entries c = base_size (unat n) \<and> expn_table_entries c = expn_size (unat n)"
proof -
  let ?n = "unat n"
  let ?T = "base_size ?n" and ?E = "expn_size ?n"
  have n0: "0 < ?n" using n(1) by (simp add: word_less_nat_alt)
  note z = table_sizes[OF n0 n(2)]
  note K = kernel_okD[OF k]
  obtain sz fd w1 where al: "ipa_nati_alloc_table dev n (ca, w) = Inr (0, (sz, 0, ?T, ?E), ca\<lparr>ipa_fd := fd\<rparr>, w1)"
    using alloc_ok[OF k n] by blast
  let ?rs = "replicate (?T + ?E) zero_rule" and ?is = "replicate (?T + ?E) (0 :: u32)"
  obtain fd' rs xs w4 where up: "ipa_nati_update_cache dev sz 0 ip ?T ?E (zero_tbl, w1) =
      (0, zero_tbl\<lparr>valid := True, public_addr := ip, tbl_size := sz, tbl_addr_offset := 0, table_entries := ?T, expn_table_entries := ?E,
         index_expn_table_meta := Some (replicate ?E 0), rule_id_array := Some (replicate (?T + ?E) 0), nat_fd := fd',
         ipv4_rules := map rs [0..<?T + ?E], index_table := map xs [0..<?T + ?E]\<rparr>, w4)"
  proof -
    obtain w2 where m1: "malloc dev w1 = (True, w2)" using K(9) by blast
    obtain w3 where m2: "malloc dev w2 = (True, w3)" using K(9) by blast
    obtain fd' w4 where o: "open_nat dev w3 = (fd', w4)" "0 \<le> fd'" using K(3) by blast
    obtain rs xs w5 where mm: "mmap dev sz w4 = (Mapped rs xs, w5)" using K(5) by blast
    have "ipa_nati_update_cache dev sz 0 ip ?T ?E (zero_tbl, w1) =
      (0, zero_tbl\<lparr>valid := True, public_addr := ip, tbl_size := sz, tbl_addr_offset := 0, table_entries := ?T, expn_table_entries := ?E,
         index_expn_table_meta := Some (replicate ?E 0), rule_id_array := Some (replicate (?T + ?E) 0), nat_fd := fd',
         ipv4_rules := map rs [0..<?T + ?E], index_table := map xs [0..<?T + ?E]\<rparr>, w5)"
      using m1 m2 o mm by (simp add: ipa_nati_update_cache_def alloc_array_def zero_tbl_def Let_def)
    then show ?thesis by (rule that)
  qed
  define c where "c = zero_tbl\<lparr>valid := True, public_addr := ip, tbl_size := sz, tbl_addr_offset := 0, table_entries := ?T, expn_table_entries := ?E,
         index_expn_table_meta := Some (replicate ?E 0), rule_id_array := Some (replicate (?T + ?E) 0), nat_fd := fd',
         ipv4_rules := ?rs, index_table := ?is\<rparr>"
  obtain w5 where po: "ipa_nati_post_ipv4_init_cmd dev 0 c w4 = (0, w5)" using post_init_ok[OF k] by (metis prod.collapse)
  have "ipa_nati_add_ipv4_tbl dev ip n (ca, w) = Inr (0, 1, ca\<lparr>ip4_tbl := [c], table_cnt := 1, ipa_fd := fd\<rparr>, w5)"
    unfolding ipa_nati_add_ipv4_tbl_def Let_def al
    using s up po by (simp add: no_table_def get_tbl_def set_tbl_def ipa_nati_reset_tbl_def Let_def c_def[symmetric])
  moreover have "tbl_inv c"
    by (rule tbl_invI[OF mem_inv_zero[OF z(2,3,4)]]) (use z(5) in \<open>simp_all add: c_def\<close>)
  moreover have "hdl_rules c = Map.empty" by (rule ext) (simp add: hdl_rules_def c_def)
  moreover have "public_addr c = ip \<and> table_entries c = ?T \<and> expn_table_entries c = ?E" by (simp add: c_def)
  ultimately show ?thesis by blast
qed

lemma del_tbl_ok:
  assumes k: "kernel_ok dev n" and s: "ip4_tbl ca = [c]" "table_cnt ca = 1" and c: "valid c"
  shows "\<exists>w'. ipa_nati_del_ipv4_table dev 1 (ca, w) = Inr (0, ca\<lparr>ip4_tbl := [zero_tbl], table_cnt := 0\<rparr>, w')"
proof -
  obtain w1 where a: "close_nat dev (nat_fd c) w = (0, w1)" using kernel_okD(4)[OF k] by blast
  obtain w2 where b: "ioctl_v4_del_nat dev 0 (public_addr c) w1 = (0, w2)" using kernel_okD(8)[OF k] by blast
  show ?thesis using s c a b by (simp add: ipa_nati_del_ipv4_table_def get_tbl_def set_tbl_def Let_def)
qed

section \<open>Lookup\<close>

text \<open>Following a chain through the next links, with as many steps as the table has entries.\<close>

fun walk :: "(nat \<Rightarrow> nat) \<Rightarrow> nat \<Rightarrow> nat \<Rightarrow> nat list" where
  "walk nxt 0 e = []"
| "walk nxt (Suc f) e = (if e = 0 then [] else e # walk nxt f (nxt e))"

lemma walk_linked: "linked nxt e es \<Longrightarrow> e \<noteq> 0 \<Longrightarrow> length es < f \<Longrightarrow> walk nxt f e = e # es"
proof (induction es arbitrary: e f)
  case Nil
  then obtain g where "f = Suc g" by (cases f) auto
  then show ?case using Nil by (cases g) auto
next
  case (Cons a es)
  then obtain g where g: "f = Suc g" by (cases f) auto
  then have "walk nxt g a = a # es" using Cons by (intro Cons.IH) auto
  then show ?case using Cons.prems g by auto
qed

text \<open>A packet from outside is matched along the bucket of its destination, one from inside along the index bucket of its source.\<close>

definition downlink :: "ipa_nat_ip4_table_cache \<Rightarrow> ipa_nat_ipv4_rule \<Rightarrow> bool" where
  "downlink c r \<longleftrightarrow> (\<exists>e \<in> set (walk (at nxt_of (ipv4_rules c)) (table_entries c + expn_table_entries c) (dst_bucket (table_entries c) r)).
     live_of (ipv4_rules c ! e) \<and> clnt_of (ipv4_rules c ! e) = r)"

definition uplink :: "ipa_nat_ip4_table_cache \<Rightarrow> ipa_nat_ipv4_rule \<Rightarrow> bool" where
  "uplink c r \<longleftrightarrow> (\<exists>i \<in> set (walk (at next_of (index_table c)) (table_entries c + expn_table_entries c) (src_bucket (table_entries c) r)).
     entry_of (index_table c ! i) \<noteq> 0 \<and> live_of (ipv4_rules c ! entry_of (index_table c ! i)) \<and>
     clnt_of (ipv4_rules c ! entry_of (index_table c ! i)) = r)"

lemma chains_walk:
  assumes c: "chains T N nxt prv occ B" and h: "0 < h" "h < T"
  shows "walk nxt N h = h # B h" "\<And>e. e \<in> set (h # B h) \<Longrightarrow> e < N"
proof -
  note b = bucketD[OF chains_bucket[OF c h] h(2)]
  have TN: "T \<le> N" using c by (simp add: chains_def)
  have sub: "set (B h) \<subseteq> {T<..<N}" using b(5) by auto
  have "length (B h) = card (set (B h))" using b(3) by (simp add: distinct_card)
  also have "\<dots> \<le> card {T<..<N}" using sub by (intro card_mono) auto
  finally have "length (B h) < N" using h TN by simp
  then show "walk nxt N h = h # B h" using walk_linked[OF b(1)] h by simp
  show "\<And>e. e \<in> set (h # B h) \<Longrightarrow> e < N" using sub h TN by auto
qed

lemma chains_find:
  assumes c: "chains T N nxt prv occ B" and p: "placed T occ' key B" and e: "e < N" "occ e" "occ' e" and k: "0 < key e" "key e < T"
  shows "e \<in> set (walk nxt N (key e))"
proof -
  have "0 < e" using c e(2) by (cases "e = 0") (auto simp: chains_def)
  obtain h where h: "0 < h" "h < T" "e \<in> set (h # B h)"
  proof (cases "e < T")
    case True
    then show ?thesis using that[of e] \<open>0 < e\<close> by simp
  next
    case False
    then obtain h xs ys where "0 < h" "h < T" "B h = xs @ e # ys" using chains_expn[OF c _ e(1,2)] by auto
    then show ?thesis using that[of h] by simp
  qed
  then have "key e = h" using p e(3) unfolding placed_def by blast
  then show ?thesis using chains_walk(1)[OF c h(1,2)] h(3) by simp
qed

text \<open>Every live entry has its handle.\<close>

lemma live_handle:
  assumes inv: "tbl_inv c" and ids: "rule_id_array c = Some ids"
    and e: "e < table_entries c + expn_table_entries c" "live_of (ipv4_rules c ! e)"
  shows "\<exists>k. hdl_rules c (Suc k) = Some (clnt_of (ipv4_rules c ! e)) \<and> ids ! k = enc (table_entries c) e"
proof -
  let ?T = "table_entries c" and ?N = "table_entries c + expn_table_entries c"
  obtain ms B BI where I: "mem_inv ?T (expn_table_entries c) (ipv4_rules c) (index_table c) ms ids B BI"
    using tbl_invD[OF inv] ids by (metis option.inject)
  note D = mem_invD[OF I]
  note sh = D(1)[unfolded shape_def]
  obtain k where k: "k < ?N" "ids ! k = enc ?T e" using handlesD(2)[OF D(8) e(1)] e(2) by (auto simp: at_def)
  have "0 < e" using handles_slot_expn(3)[OF I e(1)] e(2) by (simp add: at_def)
  then have "ids ! k \<noteq> 0" using k(2) enc_zero[of ?T e] by auto
  moreover from this have "Suc k < ?N" using k(1) sh by (cases "k = ?N - 1") auto
  ultimately have "hdl_rules c (Suc k) = Some (clnt_of (ipv4_rules c ! e))" using ids k(2) sh by (simp add: hdl_rules_def)
  then show ?thesis using k(2) by blast
qed

lemma ran_hdl_rules:
  assumes inv: "tbl_inv c"
  shows "r \<in> ran (hdl_rules c) \<longleftrightarrow> (\<exists>e < table_entries c + expn_table_entries c. live_of (ipv4_rules c ! e) \<and> clnt_of (ipv4_rules c ! e) = r)"
proof
  assume "r \<in> ran (hdl_rules c)"
  then obtain hn where "hdl_rules c hn = Some r" by (auto simp: ran_def)
  from hdl_rules_SomeD[OF inv this] show "\<exists>e < table_entries c + expn_table_entries c. live_of (ipv4_rules c ! e) \<and> clnt_of (ipv4_rules c ! e) = r"
    by metis
next
  obtain ids where "rule_id_array c = Some ids" using tbl_invD[OF inv] by metis
  moreover assume "\<exists>e < table_entries c + expn_table_entries c. live_of (ipv4_rules c ! e) \<and> clnt_of (ipv4_rules c ! e) = r"
  ultimately show "r \<in> ran (hdl_rules c)" using live_handle[OF inv] ranI by metis
qed

lemma finite_hdl_rules: "rule_id_array c = Some ids \<Longrightarrow> finite (dom (hdl_rules c))"
  by (rule finite_subset[of _ "{..<length ids}"]) (auto simp: hdl_rules_def split: if_splits)

lemma live_handles:
  assumes inv: "tbl_inv c" and S: "S \<subseteq> {e. e < table_entries c + expn_table_entries c \<and> live_of (ipv4_rules c ! e)}"
  shows "card S \<le> card (dom (hdl_rules c))"
proof -
  let ?T = "table_entries c"
  obtain ids where ids: "rule_id_array c = Some ids" using tbl_invD[OF inv] by metis
  have "S \<subseteq> (\<lambda>h. dec ?T (ids ! (h - 1))) ` dom (hdl_rules c)"
  proof
    fix e assume "e \<in> S"
    then obtain k where "hdl_rules c (Suc k) \<noteq> None" "ids ! k = enc ?T e" using S live_handle[OF inv ids, of e] by auto
    then show "e \<in> (\<lambda>h. dec ?T (ids ! (h - 1))) ` dom (hdl_rules c)" by (intro image_eqI[of _ _ "Suc k"]) auto
  qed
  then show ?thesis using surj_card_le[OF finite_hdl_rules[OF ids]] by blast
qed

lemma tbl_full_card:
  assumes inv: "tbl_inv c" and f: "tbl_full c r"
  shows "expn_table_entries c - 1 \<le> card (dom (hdl_rules c))"
proof -
  let ?T = "table_entries c" and ?N = "table_entries c + expn_table_entries c" and ?rs = "ipv4_rules c" and ?is = "index_table c"
  let ?X = "{?T<..<?N}"
  obtain ms ids B BI where I: "mem_inv ?T (expn_table_entries c) ?rs ?is ms ids B BI" using tbl_invD[OF inv] by metis
  note D = mem_invD[OF I]
  have X: "card ?X = expn_table_entries c - 1" by simp
  consider "\<forall>e \<in> ?X. enabled_of (?rs ! e)" | "\<forall>i \<in> ?X. entry_of (?is ! i) \<noteq> 0"
    using f by (auto simp: tbl_full_def full_for_def Let_def at_def)
  then show ?thesis
  proof cases
    case 1
    then have "?X \<subseteq> {e. e < ?N \<and> live_of (?rs ! e)}" using D(4) by (auto simp: deads_def)
    from live_handles[OF inv this] X show ?thesis by simp
  next
    case 2
    let ?f = "\<lambda>i. entry_of (?is ! i)"
    have c: "?f i < ?N" "live_of (?rs ! ?f i)" "indx_of (?rs ! ?f i) = i" if "i \<in> ?X" for i
      using crossedD2[OF D(5), of i] that 2 by (auto simp: at_def)
    have "inj_on ?f ?X" by (rule inj_on_inverseI[of _ "\<lambda>e. indx_of (?rs ! e)"]) (use c(3) in simp)
    then have "card (?f ` ?X) = expn_table_entries c - 1" using X by (simp add: card_image)
    moreover have "?f ` ?X \<subseteq> {e. e < ?N \<and> live_of (?rs ! e)}" using c(1,2) by blast
    from live_handles[OF inv this] have "card (?f ` ?X) \<le> card (dom (hdl_rules c))" .
    ultimately show ?thesis by simp
  qed
qed

lemma tbl_lookup:
  assumes inv: "tbl_inv c"
  shows "downlink c r \<longleftrightarrow> r \<in> ran (hdl_rules c)" "uplink c r \<longleftrightarrow> r \<in> ran (hdl_rules c)"
proof -
  let ?T = "table_entries c" and ?N = "table_entries c + expn_table_entries c" and ?rs = "ipv4_rules c" and ?is = "index_table c"
  obtain ms ids B BI where I: "mem_inv ?T (expn_table_entries c) ?rs ?is ms ids B BI" using tbl_invD[OF inv] by metis
  note D = mem_invD[OF I]
  note rc = D(2)[unfolded rule_chains_def] and ic = D(3)[unfolded index_chains_def]
  have T: "2 \<le> ?T" "?T \<le> 65536" using D(1) by (auto simp: shape_def)
  note H = hash_range[OF T, of r]
  show "downlink c r \<longleftrightarrow> r \<in> ran (hdl_rules c)" unfolding ran_hdl_rules[OF inv]
  proof
    assume "downlink c r"
    then show "\<exists>e < ?N. live_of (?rs ! e) \<and> clnt_of (?rs ! e) = r"
      using chains_walk[OF rc H(1,2)] unfolding downlink_def by auto
  next
    assume "\<exists>e < ?N. live_of (?rs ! e) \<and> clnt_of (?rs ! e) = r"
    then obtain e where e: "e < ?N" "live_of (?rs ! e)" "clnt_of (?rs ! e) = r" by blast
    have "e \<in> set (walk (at nxt_of ?rs) ?N (dst_bucket ?T (clnt_of (?rs ! e))))"
      by (rule chains_find[OF rc D(6) e(1)]) (use e H in \<open>simp_all add: at_def live_of_def\<close>)
    then show "downlink c r" using e unfolding downlink_def by blast
  qed
  show "uplink c r \<longleftrightarrow> r \<in> ran (hdl_rules c)" unfolding ran_hdl_rules[OF inv]
  proof
    assume "uplink c r"
    then obtain i where i: "i \<in> set (walk (at next_of ?is) ?N (src_bucket ?T r))" "entry_of (?is ! i) \<noteq> 0"
      "live_of (?rs ! entry_of (?is ! i))" "clnt_of (?rs ! entry_of (?is ! i)) = r" unfolding uplink_def by blast
    then have "i < ?N" using chains_walk[OF ic H(3,4)] by metis
    then have "entry_of (?is ! i) < ?N" using crossedD2(1)[OF D(5)] i(2) by (simp add: at_def)
    then show "\<exists>e < ?N. live_of (?rs ! e) \<and> clnt_of (?rs ! e) = r" using i by blast
  next
    assume "\<exists>e < ?N. live_of (?rs ! e) \<and> clnt_of (?rs ! e) = r"
    then obtain e where e: "e < ?N" "live_of (?rs ! e)" "clnt_of (?rs ! e) = r" by blast
    define i where "i = indx_of (?rs ! e)"
    have i: "0 < e" "i < ?N" "entry_of (?is ! i) = e" using crossedD[OF D(5) e(1)] e(2) by (auto simp: at_def i_def)
    have "i \<in> set (walk (at next_of ?is) ?N (src_bucket ?T (clnt_of (?rs ! entry_of (?is ! i)))))"
      by (rule chains_find[OF ic D(7) i(2)]) (use e i H in \<open>simp_all add: at_def\<close>)
    then show "uplink c r" using e i unfolding uplink_def by auto
  qed
qed

section \<open>Counting\<close>

lemma count_loop_ok: "(\<And>x. x \<in> set xs \<Longrightarrow> used x = Inr (P x)) \<Longrightarrow> count_loop used xs ret = Inr (ret + length (filter P xs))"
  by (induction xs arbitrary: ret) auto

lemma length_filter_upt: "length (filter P [0..<n]) = card {i. i < n \<and> P i}"
  using distinct_card[of "filter P [0..<n]"] by (simp add: conj_commute)

lemma count_upt: "(\<And>x. x < n \<Longrightarrow> used x = Inr (P x)) \<Longrightarrow> count_loop used [0..<n] 0 = Inr (card {i. i < n \<and> P i})"
  using count_loop_ok[of "[0..<n]" used P 0] length_filter_upt[of P n] by simp

lemma count_base_expn: "card {i. i < T \<and> P i} + card {i. i < E \<and> P (T + i)} = card {i :: nat. i < T + E \<and> P i}"
proof -
  have b: "{i. i < T + E \<and> P i} = {i. i < T \<and> P i} \<union> (+) T ` {i. i < E \<and> P (T + i)}"
  proof (intro set_eqI iffI)
    fix i assume "i \<in> {i. i < T + E \<and> P i}"
    then show "i \<in> {i. i < T \<and> P i} \<union> (+) T ` {i. i < E \<and> P (T + i)}"
      by (cases "i < T") (auto intro: image_eqI[of _ _ "i - T"])
  qed auto
  have "card ((+) T ` {i. i < E \<and> P (T + i)}) = card {i. i < E \<and> P (T + i)}" by (intro card_image) simp
  then show ?thesis unfolding b by (subst card_Un_disjoint) auto
qed

lemma live_card:
  assumes inv: "tbl_inv c"
  shows "card {e. e < table_entries c + expn_table_entries c \<and> live_of (ipv4_rules c ! e)} = card (dom (hdl_rules c))"
proof (rule antisym[OF live_handles[OF inv order_refl]])
  let ?T = "table_entries c" and ?N = "table_entries c + expn_table_entries c"
  obtain ms ids B BI where I: "rule_id_array c = Some ids" "mem_inv ?T (expn_table_entries c) (ipv4_rules c) (index_table c) ms ids B BI"
    using tbl_invD[OF inv] by metis
  note D = mem_invD[OF I(2)]
  have len: "length ids = ?N" using D(1) by (simp add: shape_def)
  let ?f = "\<lambda>h. dec ?T (ids ! (h - 1))"
  have d: "0 < h \<and> h < ?N \<and> ids ! (h - 1) \<noteq> 0" if "h \<in> dom (hdl_rules c)" for h
    using that I(1) len by (auto simp: hdl_rules_def split: if_splits)
  have e: "?f h < ?N \<and> live_of (ipv4_rules c ! ?f h) \<and> ids ! (h - 1) = enc ?T (?f h)" if h: "h \<in> dom (hdl_rules c)" for h
  proof -
    have "h - 1 < ?N" using d[OF h] by linarith
    then obtain e where "e < ?N" "live_of (ipv4_rules c ! e)" "ids ! (h - 1) = enc ?T e"
      using handlesD(1)[OF D(8)] d[OF h] by (auto simp: at_def)
    then show ?thesis by simp
  qed
  have "inj_on ?f (dom (hdl_rules c))"
  proof (rule inj_onI)
    fix x y assume x: "x \<in> dom (hdl_rules c)" and y: "y \<in> dom (hdl_rules c)" and eq: "?f x = ?f y"
    then have "ids ! (x - 1) = ids ! (y - 1)" using e by metis
    then have "x - 1 = y - 1" using handlesD(3)[OF D(8), of "x - 1" "y - 1"] d[OF x] d[OF y] by auto
    then show "x = y" using d[OF x] d[OF y] by linarith
  qed
  moreover have "?f ` dom (hdl_rules c) \<subseteq> {e. e < ?N \<and> live_of (ipv4_rules c ! e)}" using e by blast
  ultimately show "card (dom (hdl_rules c)) \<le> card {e. e < ?N \<and> live_of (ipv4_rules c ! e)}"
    by (rule card_inj_on_le) simp
qed

lemma index_card:
  assumes inv: "tbl_inv c"
  shows "card {i. i < table_entries c + expn_table_entries c \<and> entry_of (index_table c ! i) \<noteq> 0} = card (dom (hdl_rules c))"
  unfolding live_card[OF inv, symmetric]
proof (rule bij_betw_same_card[of "\<lambda>i. entry_of (index_table c ! i)"], rule bij_betw_byWitness[where f' = "\<lambda>e. indx_of (ipv4_rules c ! e)"])
  let ?T = "table_entries c" and ?N = "table_entries c + expn_table_entries c"
  obtain ms ids B BI where I: "mem_inv ?T (expn_table_entries c) (ipv4_rules c) (index_table c) ms ids B BI"
    using tbl_invD[OF inv] by metis
  note D = mem_invD(5)[OF I]
  show "\<forall>i \<in> {i. i < ?N \<and> entry_of (index_table c ! i) \<noteq> 0}. indx_of (ipv4_rules c ! entry_of (index_table c ! i)) = i"
    using crossedD2(3)[OF D] by (simp add: at_def)
  show "\<forall>e \<in> {e. e < ?N \<and> live_of (ipv4_rules c ! e)}. entry_of (index_table c ! indx_of (ipv4_rules c ! e)) = e"
    using crossedD(3)[OF D] by (simp add: at_def)
  show "(\<lambda>i. entry_of (index_table c ! i)) ` {i. i < ?N \<and> entry_of (index_table c ! i) \<noteq> 0} \<subseteq> {e. e < ?N \<and> live_of (ipv4_rules c ! e)}"
    using crossedD2(1,2)[OF D] by (auto simp: at_def)
  show "(\<lambda>e. indx_of (ipv4_rules c ! e)) ` {e. e < ?N \<and> live_of (ipv4_rules c ! e)} \<subseteq> {i. i < ?N \<and> entry_of (index_table c ! i) \<noteq> 0}"
    using crossedD[OF D] by (auto simp: at_def)
qed

section \<open>Clients\<close>

text \<open>A client that keeps a book of the answers it got, and makes only the calls its book allows. The interface is the driver
  as such a client sees it.\<close>

fun session :: "('o \<Rightarrow> 's \<Rightarrow> fault + 'a \<times> 's) \<Rightarrow> ('o \<Rightarrow> 'm \<Rightarrow> bool) \<Rightarrow> ('o \<Rightarrow> 'a \<Rightarrow> 'm \<Rightarrow> 'm) \<Rightarrow> 'o list \<Rightarrow> 'm \<times> 's \<Rightarrow>
    fault + ('o \<times> 'm \<times> 'a) list \<times> 'm \<times> 's" where
  "session exec allowed note [] ms = Inr ([], ms)"
| "session exec allowed note (op # ops) ms =
     (if allowed op (fst ms)
      then bnd (exec op (snd ms)) (\<lambda>(ans, s').
           bnd (session exec allowed note ops (note op ans (fst ms), s')) (\<lambda>(tr, ms'). Inr ((op, fst ms, ans) # tr, ms')))
      else session exec allowed note ops ms)"

locale booked =
  fixes exec :: "'o \<Rightarrow> 's \<Rightarrow> fault + 'a \<times> 's"
    and allowed :: "'o \<Rightarrow> 'm \<Rightarrow> bool"
    and note_ans :: "'o \<Rightarrow> 'a \<Rightarrow> 'm \<Rightarrow> 'm"
    and holds :: "'m \<Rightarrow> 's \<Rightarrow> bool"
    and honest :: "'o \<Rightarrow> 'm \<Rightarrow> 'a \<Rightarrow> bool"
  assumes answers: "holds m s \<Longrightarrow> allowed op m \<Longrightarrow> \<exists>ans s'. exec op s = Inr (ans, s') \<and> honest op m ans \<and> holds (note_ans op ans m) s'"
begin

lemma session_holds:
  "holds m s \<Longrightarrow> \<exists>tr m' s'. session exec allowed note_ans ops (m, s) = Inr (tr, m', s') \<and> holds m' s' \<and>
     (\<forall>(op, m, ans) \<in> set tr. honest op m ans)"
proof (induction ops arbitrary: m s)
  case (Cons op ops)
  show ?case
  proof (cases "allowed op m")
    case True
    obtain ans s1 where e: "exec op s = Inr (ans, s1)" "honest op m ans" "holds (note_ans op ans m) s1" using answers[OF Cons.prems True] by blast
    from Cons.IH[OF e(3)] obtain tr m' s' where "session exec allowed note_ans ops (note_ans op ans m, s1) = Inr (tr, m', s')" "holds m' s'"
      "\<forall>(op, m, ans) \<in> set tr. honest op m ans" by blast
    then show ?thesis using True e by simp
  qed (use Cons in simp)
qed simp

end

text \<open>The calls of the driver's clients, with the table they name.\<close>

datatype drv_op = D_AddTable u32 | D_DelTable u32 | D_AddRule u32 ipa_nat_ipv4_rule | D_DelRule u32 u32 | D_Query u32 u32

type_synonym drv_ans = "int \<times> u32"

type_synonym book = "(nat \<rightharpoonup> ipa_nat_ipv4_rule) option"

fun drv_exec :: "'w nat_dev \<Rightarrow> u16 \<Rightarrow> drv_op \<Rightarrow> ipa_nat_cache \<times> 'w \<Rightarrow> fault + drv_ans \<times> ipa_nat_cache \<times> 'w" where
  "drv_exec dev n (D_AddTable ip) s = bnd (drv_ipa_nat_add_ipv4_tbl dev ip n (Some 0) s) (\<lambda>(ret, h, s). Inr ((ret, the h), s))"
| "drv_exec dev n (D_DelTable t) s = bnd (drv_ipa_nat_del_ipv4_tbl dev t s) (\<lambda>(ret, s). Inr ((ret, 0), s))"
| "drv_exec dev n (D_AddRule t r) s = bnd (drv_ipa_nat_add_ipv4_rule dev t (Some r) (Some 0) s) (\<lambda>(ret, h, s). Inr ((ret, the h), s))"
| "drv_exec dev n (D_DelRule t h) s = bnd (drv_ipa_nat_del_ipv4_rule dev t h s) (\<lambda>(ret, s). Inr ((ret, 0), s))"
| "drv_exec dev n (D_Query t h) s = bnd (drv_ipa_nat_query_timestamp t h (Some 0) (fst s)) (\<lambda>(ret, ts). Inr ((ret, the ts), s))"

text \<open>What a careful client calls: one table at a time, rules only into a table and without the protocol number that marks
  deleted heads, deletion with a table handle of 0 or 1 and a rule handle of 16 bits, queries of rules it added.\<close>

fun drv_allowed :: "drv_op \<Rightarrow> book \<Rightarrow> bool" where
  "drv_allowed (D_AddTable ip) b \<longleftrightarrow> b = None"
| "drv_allowed (D_DelTable t) b \<longleftrightarrow> True"
| "drv_allowed (D_AddRule t r) b \<longleftrightarrow> t \<noteq> 1 \<or> b \<noteq> None \<and> r_protocol r \<noteq> IPA_NAT_INVALID_PROTO_FIELD_CMP"
| "drv_allowed (D_DelRule t h) b \<longleftrightarrow> t \<le> 1 \<and> unat h < 2 ^ 16"
| "drv_allowed (D_Query t h) b \<longleftrightarrow> t \<noteq> 1 \<or> (case b of None \<Rightarrow> True | Some m \<Rightarrow> m (unat h) \<noteq> None)"

fun drv_note :: "drv_op \<Rightarrow> drv_ans \<Rightarrow> book \<Rightarrow> book" where
  "drv_note (D_AddTable ip) ans b = (if fst ans = 0 then Some Map.empty else b)"
| "drv_note (D_DelTable t) ans b = (if fst ans = 0 then None else b)"
| "drv_note (D_AddRule t r) ans b = (if fst ans = 0 then map_option (\<lambda>m. m(unat (snd ans) \<mapsto> r)) b else b)"
| "drv_note (D_DelRule t h) ans b = (if fst ans = 0 then map_option (\<lambda>m. m(unat h := None)) b else b)"
| "drv_note (D_Query t h) ans b = b"

text \<open>What the answers promise.\<close>

fun drv_honest :: "nat \<Rightarrow> drv_op \<Rightarrow> book \<Rightarrow> drv_ans \<Rightarrow> bool" where
  "drv_honest n (D_AddTable ip) b ans \<longleftrightarrow> ans = (0, 1)"
| "drv_honest n (D_DelTable t) b ans \<longleftrightarrow> fst ans = (if t = 1 \<and> b \<noteq> None then 0 else - EINVAL)"
| "drv_honest n (D_AddRule t r) b ans \<longleftrightarrow>
     (case b of
        Some m \<Rightarrow> fst ans = - EINVAL \<and> (t \<noteq> 1 \<or> expn_size n - 1 \<le> card (dom m)) \<or>
                  t = 1 \<and> fst ans = 0 \<and> 0 < snd ans \<and> m (unat (snd ans)) = None
      | None \<Rightarrow> fst ans = - EINVAL)"
| "drv_honest n (D_DelRule t h) b ans \<longleftrightarrow>
     fst ans = (case b of Some m \<Rightarrow> if t = 1 \<and> m (unat h) \<noteq> None then 0 else - EINVAL | None \<Rightarrow> - EINVAL)"
| "drv_honest n (D_Query t h) b ans \<longleftrightarrow> fst ans = (if t = 1 \<and> b \<noteq> None then 0 else - EINVAL)"

definition tbl_holds :: "nat \<Rightarrow> book \<Rightarrow> ipa_nat_cache \<Rightarrow> bool" where
  "tbl_holds n b ca \<longleftrightarrow>
     (case b of
        None \<Rightarrow> no_table ca
      | Some m \<Rightarrow> \<exists>c. ip4_tbl ca = [c] \<and> table_cnt ca = 1 \<and> tbl_inv c \<and> table_entries c = base_size n \<and>
          expn_table_entries c = expn_size n \<and> hdl_rules c = m)"

lemma word1_cases: "t \<noteq> 1 \<longleftrightarrow> unat t = 0 \<or> 1 < unat t" for t :: u32
proof
  assume "t \<noteq> 1"
  then have "unat t \<noteq> 1" by (metis unat_1 word_unat_eq_iff)
  then show "unat t = 0 \<or> 1 < unat t" by linarith
qed auto

text \<open>The time stamp of a rule.\<close>

lemma query_ok:
  assumes s: "ip4_tbl ca = [c]" and inv: "tbl_inv c" and h: "hdl_rules c (unat hdl) = Some r"
  shows "\<exists>ts. ipa_nati_query_timestamp 1 hdl x ca = Inr (0, ts)"
proof -
  obtain ms ids B BI p where I: "rule_id_array c = Some ids" 
    "mem_inv (table_entries c) (expn_table_entries c) (ipv4_rules c) (index_table c) ms ids B BI"
    and k: "0 < unat hdl" "unat hdl < table_entries c + expn_table_entries c" "ids ! (unat hdl - 1) = enc (table_entries c) p"
    and p: "p < table_entries c + expn_table_entries c"
    using hdl_rules_SomeD[OF inv h] by metis
  note sh = mem_invD(1)[OF I(2), unfolded shape_def]
  have V: "valid c" "sized c (table_entries c) (expn_table_entries c)" using tbl_invD[OF inv] by metis+
  have "unat (ucast hdl :: u16) = unat hdl" using k(2) sh by (simp add: unsigned_ucast_eq take_bit_nat_eq_self)
  moreover have "ipa_nati_parse_ipv4_rule_hdl c (unat hdl) = Inr (table_entries c \<le> p, part (table_entries c) p)"
    using k sh I(1) enc_odd[OF p] by (simp add: ipa_nati_parse_ipv4_rule_hdl_def array_at_def)
  ultimately show ?thesis using s V(1) read_part(1)[OF V(2) p]
    by (simp add: ipa_nati_query_timestamp_def get_tbl_def)
qed

lemma answers_AddTable:
  assumes k: "kernel_ok dev (unat n)" and n: "0 < n" "unat n \<le> 20480"
    and s: "tbl_holds (unat n) b ca" and a: "drv_allowed (D_AddTable ip) b"
  shows "\<exists>ans ca' w'. drv_exec dev n (D_AddTable ip) (ca, w) = Inr (ans, ca', w') \<and> drv_honest (unat n) (D_AddTable ip) b ans \<and>
    tbl_holds (unat n) (drv_note (D_AddTable ip) ans b) ca'"
proof -
  have "no_table ca" "b = None" using a s by (auto simp: tbl_holds_def)
  with add_tbl_ok[OF k n, of ca ip w] show ?thesis using n(1) 
    by (auto simp: drv_ipa_nat_add_ipv4_tbl_def tbl_holds_def)
qed

lemma answers_DelTable:
  assumes k: "kernel_ok dev (unat n)" and n: "0 < n" "unat n \<le> 20480"
    and s: "tbl_holds (unat n) b ca" and a: "drv_allowed (D_DelTable t) b"
  shows "\<exists>ans ca' w'. drv_exec dev n (D_DelTable t) (ca, w) = Inr (ans, ca', w') \<and> drv_honest (unat n) (D_DelTable t) b ans \<and>
    tbl_holds (unat n) (drv_note (D_DelTable t) ans b) ca'"
proof (cases "t = 1")
  case False
  then show ?thesis using s word1_cases[of t] by (auto simp: drv_ipa_nat_del_ipv4_tbl_def const_defs errno_defs)
next
  case True
  show ?thesis
  proof (cases b)
    case None
    then show ?thesis using s True 
      by (simp add: tbl_holds_def no_table_def drv_ipa_nat_del_ipv4_tbl_def ipa_nati_del_ipv4_table_def Let_def const_defs errno_defs
          get_tbl_def zero_tbl_def)
  next
    case (Some m)
    then obtain c where "ip4_tbl ca = [c]" "table_cnt ca = 1" "valid c" using s by (auto simp: tbl_holds_def tbl_inv_def)
    from del_tbl_ok[OF k this, of w] show ?thesis using True Some
      by (auto simp: drv_ipa_nat_del_ipv4_tbl_def const_defs tbl_holds_def no_table_def)
  qed
qed

lemma answers_AddRule:
  assumes k: "kernel_ok dev (unat n)" and n: "0 < n" "unat n \<le> 20480"
    and s: "tbl_holds (unat n) b ca" and a: "drv_allowed (D_AddRule t r) b"
  shows "\<exists>ans ca' w'. drv_exec dev n (D_AddRule t r) (ca, w) = Inr (ans, ca', w') \<and> drv_honest (unat n) (D_AddRule t r) b ans \<and>
    tbl_holds (unat n) (drv_note (D_AddRule t r) ans b) ca'"
proof (cases "t = 1")
  case False
  then show ?thesis using s word1_cases[of t]
    by (cases b) (auto simp: drv_ipa_nat_add_ipv4_rule_def const_defs errno_defs)
next
  case True
  then obtain m where m: "b = Some m" "r_protocol r \<noteq> IPA_NAT_INVALID_PROTO_FIELD_CMP" using a by (cases b) auto
  then obtain c where c: "ip4_tbl ca = [c]" "table_cnt ca = 1" "tbl_inv c" "table_entries c = base_size (unat n)"
    "expn_table_entries c = expn_size (unat n)" "hdl_rules c = m" using s by (auto simp: tbl_holds_def)
  have d: "dev_ok dev (table_entries c) (expn_table_entries c)" using kernel_okD(1)[OF k] c by simp
  have n0: "0 < unat n" using n(1) by (simp add: word_less_nat_alt)
  from add_table_rule[OF d c(3,1) m(2), of 0 w] show ?thesis
  proof (elim disjE exE conjE)
    assume "tbl_full c r" "ipa_nati_add_ipv4_rule dev 1 r 0 (ca, w) = Inr (- EINVAL, 0, ca, w)"
    then show ?thesis using True tbl_full_card[OF c(3)] c(5,6) m s by (simp add: drv_ipa_nat_add_ipv4_rule_def const_defs errno_defs)
  next
    fix hd c' w'
    assume h: "ipa_nati_add_ipv4_rule dev 1 r 0 (ca, w) = Inr (0, of_nat hd, ca\<lparr>ip4_tbl := [c']\<rparr>, w')" "0 < hd"
      "hd < table_entries c + expn_table_entries c" "hdl_rules c hd = None" "hdl_rules c' = (hdl_rules c)(hd \<mapsto> r)" "tbl_inv c'" "same_table c c'"
    have "hd < 2 ^ 32" using h(3) c(4,5) table_sizes(3,5)[OF n0 n(2)] by simp
    then have u: "unat (of_nat hd :: u32) = hd" by (simp add: unat_of_nat)
    then have "0 < (of_nat hd :: u32)" using h(2) by (simp add: word_less_nat_alt)
    then show ?thesis using True m c h u
      by (simp add: drv_ipa_nat_add_ipv4_rule_def const_defs errno_defs tbl_holds_def same_table_def)
  qed
qed

lemma answers_DelRule:
  assumes k: "kernel_ok dev (unat n)" and n: "0 < n" "unat n \<le> 20480"
    and s: "tbl_holds (unat n) b ca" and a: "drv_allowed (D_DelRule t h) b"
  shows "\<exists>ans ca' w'. drv_exec dev n (D_DelRule t h) (ca, w) = Inr (ans, ca', w') \<and> drv_honest (unat n) (D_DelRule t h) b ans \<and>
    tbl_holds (unat n) (drv_note (D_DelRule t h) ans b) ca'"
proof (cases "t = 0 \<or> h = 0")
  case True
  have "h = 0 \<Longrightarrow> b = Some m \<Longrightarrow> m 0 = None" for m using s by (auto simp: tbl_holds_def hdl_rules_def split: option.splits)
  then show ?thesis using True s by (auto simp: drv_ipa_nat_del_ipv4_rule_def const_defs errno_defs split: option.splits)
next
  case False
  then have t: "t = 1" "h \<noteq> 0" "unat h < 65536" using a word1_cases[of t] by (auto simp: word_le_nat_alt unat_eq_zero)
  then have h0: "unat h \<noteq> 0" by (simp add: unat_eq_zero)
  show ?thesis
  proof (cases b)
    case None
    then show ?thesis using s t h0 
      by (simp add: tbl_holds_def no_table_def drv_ipa_nat_del_ipv4_rule_def ipa_nati_del_ipv4_rule_def
          ipa_nati_parse_ipv4_rule_hdl_def Let_def const_defs errno_defs
          get_tbl_def zero_tbl_def)
  next
    case (Some m)
    then obtain c where c: "ip4_tbl ca = [c]" "table_cnt ca = 1" "tbl_inv c" "table_entries c = base_size (unat n)"
      "expn_table_entries c = expn_size (unat n)" "hdl_rules c = m" using s by (auto simp: tbl_holds_def)
    have d: "dev_ok dev (table_entries c) (expn_table_entries c)" using kernel_okD(1)[OF k] c by simp
    show ?thesis
    proof (cases "m (unat h)")
      case None
      with c(6) have "hdl_rules c (unat h) = None" by simp
      from del_table_none[OF c(3,1) this t(2,3), of dev w] show ?thesis using t h0 Some None s
        by (simp add: drv_ipa_nat_del_ipv4_rule_def const_defs errno_defs)
    next
      case (Some r)
      with c(6) have "hdl_rules c (unat h) = Some r" by simp
      from del_table_rule[OF d c(3,1) this, of w] show ?thesis using t h0 \<open>b = Some m\<close> Some c
        by (auto simp: drv_ipa_nat_del_ipv4_rule_def const_defs tbl_holds_def same_table_def)
    qed
  qed
qed

lemma answers_Query:
  assumes k: "kernel_ok dev (unat n)" and n: "0 < n" "unat n \<le> 20480"
    and s: "tbl_holds (unat n) b ca" and a: "drv_allowed (D_Query t h) b"
  shows "\<exists>ans ca' w'. drv_exec dev n (D_Query t h) (ca, w) = Inr (ans, ca', w') \<and> drv_honest (unat n) (D_Query t h) b ans \<and>
    tbl_holds (unat n) (drv_note (D_Query t h) ans b) ca'"
proof (cases "t = 1")
  case False
  then show ?thesis using s word1_cases[of t] by (auto simp: drv_ipa_nat_query_timestamp_def const_defs errno_defs)
next
  case True
  show ?thesis
  proof (cases b)
    case None
    then show ?thesis using s True 
      by (simp add: tbl_holds_def no_table_def drv_ipa_nat_query_timestamp_def ipa_nati_query_timestamp_def const_defs errno_defs
          get_tbl_def zero_tbl_def)
  next
    case (Some m)
    then obtain c r where c: "ip4_tbl ca = [c]" "tbl_inv c" "hdl_rules c (unat h) = Some r"
      using s a True by (auto simp: tbl_holds_def)
    from query_ok[OF this, of 0] show ?thesis using True Some s
      by (auto simp: drv_ipa_nat_query_timestamp_def const_defs)
  qed
qed

lemma answers_any:
  assumes "kernel_ok dev (unat n)" "0 < n" "unat n \<le> 20480" "tbl_holds (unat n) b ca" "drv_allowed op b"
  shows "\<exists>ans ca' w'. drv_exec dev n op (ca, w) = Inr (ans, ca', w') \<and> drv_honest (unat n) op b ans \<and> tbl_holds (unat n) (drv_note op ans b) ca'"
  using assms answers_AddTable[OF assms(1-4), of _ w] answers_DelTable[OF assms(1-4), of _ w] answers_AddRule[OF assms(1-4), of _ _ w]
    answers_DelRule[OF assms(1-4), of _ _ w] answers_Query[OF assms(1-4), of _ _ w]
  by (cases op; simp only:)

interpretation drv: booked "drv_exec dev n" drv_allowed drv_note
  "\<lambda>b s. kernel_ok dev (unat n) \<and> 0 < n \<and> unat n \<le> 20480 \<and> tbl_holds (unat n) b (fst s)" "drv_honest (unat n)" for dev n
proof unfold_locales
  fix b :: book and s :: "ipa_nat_cache \<times> 'a" and op
  assume "kernel_ok dev (unat n) \<and> 0 < n \<and> unat n \<le> 20480 \<and> tbl_holds (unat n) b (fst s)" "drv_allowed op b"
  then show "\<exists>ans s'. drv_exec dev n op s = Inr (ans, s') \<and> drv_honest (unat n) op b ans \<and>
      kernel_ok dev (unat n) \<and> 0 < n \<and> unat n \<le> 20480 \<and> tbl_holds (unat n) (drv_note op ans b) (fst s')"
    using answers_any[of dev n b "fst s" op "snd s"] by auto
qed

section \<open>Sessions\<close>

lemma init_holds: "tbl_holds n None ipv4_nat_cache_init"
  by (simp add: tbl_holds_def no_table_def ipv4_nat_cache_init_def const_defs)

text \<open>A kernel whose calls succeed, for tables of five entries.\<close>

definition ex_dev :: "unit nat_dev" where
  "ex_dev = \<lparr>malloc = \<lambda>w. (True, w), open_ipa = \<lambda>w. (3, w), open_nat = \<lambda>w. (4, w), close_nat = \<lambda>fd w. (0, w),
     mmap = \<lambda>sz w. (Mapped (\<lambda>_. zero_rule) (\<lambda>_. 0), w), ioctl_alloc_nat_mem = \<lambda>sz w. (0, 0, w),
     ioctl_v4_init_nat = \<lambda>cmd w. (0, w), ioctl_v4_del_nat = \<lambda>i a w. (0, w),
     ioctl_nat_dma = \<lambda>cmds mem w. (0, fold (dma_write 4) cmds mem, w)\<rparr>"

definition ex_rule :: ipa_nat_ipv4_rule where
  "ex_rule = \<lparr>r_target_ip = 0x08080808, r_private_ip = 0xC0A80105, r_target_port = 80, r_private_port = 40, r_public_port = 40, r_protocol = 6\<rparr>"

lemma ex_sizes: "base_size 5 = 4" "expn_size 5 = 2"
  by (simp_all add: base_size_def expn_size_def GetNearest2Power_def GetNearestEven_def near2_loop.simps)

lemma ex_kernel: "kernel_ok ex_dev 5"
  by (auto simp: kernel_ok_def dev_ok_def ex_dev_def ex_sizes)

lemma ex_conds: "kernel_ok ex_dev (unat (5 :: u16))" "(0 :: u16) < 5" "unat (5 :: u16) \<le> 20480"
  using ex_kernel by simp_all

lemma ex_table: "\<exists>c. tbl_inv c \<and> hdl_rules c = Map.empty"
  using add_tbl_ok[OF ex_conds, of ipv4_nat_cache_init] init_holds[of 0] by (auto simp: tbl_holds_def)

lemma ex_session:
  "\<exists>tr m s. session (drv_exec ex_dev 5) drv_allowed drv_note [D_AddTable 7, D_AddRule 1 ex_rule] (None, ipv4_nat_cache_init, ()) =
     Inr (tr, Some m, s) \<and> ex_rule \<in> ran m"
proof -
  have a: "drv_allowed (D_AddTable 7) None" by simp
  obtain ca where 1: "drv_exec ex_dev 5 (D_AddTable 7) (ipv4_nat_cache_init, ()) = Inr ((0, 1), ca, ())" "tbl_holds 5 (Some Map.empty) ca"
    using answers_any[OF ex_conds init_holds a, of "()"] by auto
  have b: "drv_allowed (D_AddRule 1 ex_rule) (Some Map.empty)" by (simp add: ex_rule_def IPA_NAT_INVALID_PROTO_FIELD_CMP_def)
  have h: "tbl_holds (unat (5 :: u16)) (Some Map.empty) ca" using 1(2) by simp
  obtain k ca' where 2: "drv_exec ex_dev 5 (D_AddRule 1 ex_rule) (ca, ()) = Inr ((0, k), ca', ())"
    using answers_any[OF ex_conds h b, of "()"] by (auto simp: ex_sizes)
  show ?thesis using 1(1) 2 b by (simp del: drv_exec.simps)
qed

text \<open>C36. The driver keeps a client's book: whatever calls a client makes that its book allows, no call faults or fails to
  return, every answer is honest (a rule is refused only when the expansion area may be used up, the handle of a new rule was
  not in use, a deletion succeeds exactly for the rules in the book), and in the end the book is what the handles stand for. The calls of the kernel
  and the allocations succeed (\<open>kernel_ok\<close>), and tables are asked for with between 1 and 20480 entries.\<close>

theorem nat_driver_sessions:
  assumes "kernel_ok dev (unat n)" "0 < n" "unat n \<le> 20480"
  shows "\<exists>tr b ca w'. session (drv_exec dev n) drv_allowed drv_note ops (None, ipv4_nat_cache_init, w) = Inr (tr, b, ca, w') \<and>
     (\<forall>(op, b', ans) \<in> set tr. drv_honest (unat n) op b' ans) \<and>
     b = (case ip4_tbl ca of [c] \<Rightarrow> if valid c then Some (hdl_rules c) else None | _ \<Rightarrow> None)"
proof -
  have "kernel_ok dev (unat n) \<and> 0 < n \<and> unat n \<le> 20480 \<and> tbl_holds (unat n) None (fst (ipv4_nat_cache_init, w))"
    using assms init_holds by simp
  from drv.session_holds[OF this, of ops] obtain tr b ca w' where
    s: "session (drv_exec dev n) drv_allowed drv_note ops (None, ipv4_nat_cache_init, w) = Inr (tr, b, ca, w')"
    "tbl_holds (unat n) b ca" "\<forall>(op, b', ans) \<in> set tr. drv_honest (unat n) op b' ans" by auto
  have "b = (case ip4_tbl ca of [c] \<Rightarrow> if valid c then Some (hdl_rules c) else None | _ \<Rightarrow> None)"
    using s(2) by (auto simp: tbl_holds_def no_table_def zero_tbl_def tbl_inv_def split: option.splits)
  with s show ?thesis by blast
qed

theorem nat_driver_sessions_witness:
  "\<exists>tr b ca w'. session (drv_exec ex_dev 5) drv_allowed drv_note [D_AddTable 7, D_AddRule 1 ex_rule, D_DelRule 1 1, D_DelTable 1]
       (None, ipv4_nat_cache_init, ()) = Inr (tr, b, ca, w') \<and>
     (\<forall>(op, b', ans) \<in> set tr. drv_honest 5 op b' ans)"
  using nat_driver_sessions[OF ex_conds, of "[D_AddTable 7, D_AddRule 1 ex_rule, D_DelRule 1 1, D_DelTable 1]" "()"] by auto

text \<open>C37. The tables answer for exactly the rules of the book: after any session, following the chain of a rule's destination
  bucket, or the index chain of its source bucket, finds a live entry with that rule if and only if the rule is in the book. The calls of the kernel and the allocations succeed, and tables are
  asked for with between 1 and 20480 entries.\<close>

theorem nat_lookup:
  assumes "kernel_ok dev (unat n)" "0 < n" "unat n \<le> 20480"
    and "session (drv_exec dev n) drv_allowed drv_note ops (None, ipv4_nat_cache_init, w) = Inr (tr, Some m, ca, w')"
  shows "\<exists>c. ip4_tbl ca = [c] \<and> (\<forall>r. downlink c r \<longleftrightarrow> r \<in> ran m) \<and> (\<forall>r. uplink c r \<longleftrightarrow> r \<in> ran m)"
proof -
  have "kernel_ok dev (unat n) \<and> 0 < n \<and> unat n \<le> 20480 \<and> tbl_holds (unat n) None (fst (ipv4_nat_cache_init, w))"
    using assms(1-3) init_holds by simp
  from drv.session_holds[OF this, of ops] have "tbl_holds (unat n) (Some m) ca" using assms(4) by auto
  then obtain c where "ip4_tbl ca = [c]" "tbl_inv c" "hdl_rules c = m" by (auto simp: tbl_holds_def)
  then show ?thesis using tbl_lookup[of c] by auto
qed

theorem nat_lookup_witness:
  "\<exists>tr m ca w' c. session (drv_exec ex_dev 5) drv_allowed drv_note [D_AddTable 7, D_AddRule 1 ex_rule] (None, ipv4_nat_cache_init, ()) =
     Inr (tr, Some m, ca, w') \<and> ip4_tbl ca = [c] \<and> downlink c ex_rule \<and> uplink c ex_rule"
proof -
  obtain tr m ca w' where s: "session (drv_exec ex_dev 5) drv_allowed drv_note [D_AddTable 7, D_AddRule 1 ex_rule]
     (None, ipv4_nat_cache_init, ()) = Inr (tr, Some m, ca, w')" "ex_rule \<in> ran m" using ex_session by auto
  from nat_lookup[OF ex_conds s(1)] obtain c where "ip4_tbl ca = [c]" "downlink c ex_rule" "uplink c ex_rule" using s(2) by auto
  with s(1) show ?thesis by blast
qed

text \<open>Counting: the two index counts add up to the number of rules; the counts of rules include deleted heads.\<close>

theorem nat_rule_counts:
  assumes inv: "tbl_inv c" and s: "ip4_tbl ca = [c]"
  shows "\<exists>a b x y. ipa_nati_query_nat_rules 1 IPA_NAT_INDX_TBL ca = Inr a \<and> ipa_nati_query_nat_rules 1 IPA_NAT_INDEX_EXPN_TBL ca = Inr b \<and>
     a + b = card (dom (hdl_rules c)) \<and>
     ipa_nati_query_nat_rules 1 IPA_NAT_BASE_TBL ca = Inr x \<and> ipa_nati_query_nat_rules 1 IPA_NAT_EXPN_TBL ca = Inr y \<and>
     card (dom (hdl_rules c)) \<le> x + y"
proof -
  let ?T = "table_entries c" and ?E = "expn_table_entries c" and ?rs = "ipv4_rules c" and ?is = "index_table c"
  have "sized c ?T ?E" using tbl_invD[OF inv] by metis
  then have z: "length ?rs = ?T + ?E" "length ?is = ?T + ?E" by (simp_all add: sized_def)
  note rd = read_rule_ok[OF z(1)] read_index_ok[OF z(2)]
  let ?I = "\<lambda>i. entry_of (?is ! i) \<noteq> 0" and ?R = "\<lambda>i. enabled_of (?rs ! i)"
  have q: "ipa_nati_query_nat_rules 1 IPA_NAT_INDX_TBL ca = Inr (card {i. i < ?T \<and> ?I i})"
    "ipa_nati_query_nat_rules 1 IPA_NAT_INDEX_EXPN_TBL ca = Inr (card {i. i < ?E \<and> ?I (?T + i)})"
    "ipa_nati_query_nat_rules 1 IPA_NAT_BASE_TBL ca = Inr (card {i. i < ?T \<and> ?R i})"
    "ipa_nati_query_nat_rules 1 IPA_NAT_EXPN_TBL ca = Inr (card {i. i < ?E \<and> ?R (?T + i)})"
    using s unfolding ipa_nati_query_nat_rules_def
    by (simp_all add: get_tbl_def const_defs Let_def) (intro count_upt, simp add: rd)+
  have "card {e. e < ?T + ?E \<and> live_of (?rs ! e)} \<le> card {e. e < ?T + ?E \<and> ?R e}" by (intro card_mono) (auto simp: live_of_def)
  then have "card (dom (hdl_rules c)) \<le> card {i. i < ?T \<and> ?R i} + card {i. i < ?E \<and> ?R (?T + i)}"
    using count_base_expn[of ?T ?R ?E] live_card[OF inv] by simp
  moreover have "card {i. i < ?T \<and> ?I i} + card {i. i < ?E \<and> ?I (?T + i)} = card (dom (hdl_rules c))"
    using count_base_expn[of ?T ?I ?E] index_card[OF inv] by simp
  ultimately show ?thesis using q by blast
qed

theorem nat_rule_counts_witness:
  "\<exists>c a b. tbl_inv c \<and> ipa_nati_query_nat_rules 1 IPA_NAT_INDX_TBL (ipv4_nat_cache_init\<lparr>ip4_tbl := [c]\<rparr>) = Inr a \<and>
     ipa_nati_query_nat_rules 1 IPA_NAT_INDEX_EXPN_TBL (ipv4_nat_cache_init\<lparr>ip4_tbl := [c]\<rparr>) = Inr b \<and> a + b = 0"
proof -
  obtain c where c: "tbl_inv c" "hdl_rules c = Map.empty" using ex_table by blast
  from nat_rule_counts[OF c(1), of "ipv4_nat_cache_init\<lparr>ip4_tbl := [c]\<rparr>"] c show ?thesis by auto
qed

text \<open>C40. Calls the driver does not check: with a table in use, creating another one writes past the array of tables, a query
  with handle 0 reads before the array of rule ids, a deletion in table 2 reads past the array of tables, and a query with a
  handle that stands for no rule reports success.\<close>

theorem nat_driver_misuse:
  assumes "tbl_inv c" "ip4_tbl ca = [c]" "table_cnt ca = 1" "kernel_ok dev (unat n)" "0 < n" "unat n \<le> 20480"
  shows "drv_ipa_nat_add_ipv4_tbl dev ip n (Some h) (ca, w) = Inl OutOfBounds \<and>
     drv_ipa_nat_query_timestamp 1 0 (Some t) ca = Inl OutOfBounds \<and>
     drv_ipa_nat_del_ipv4_rule dev 2 1 (ca, w) = Inl OutOfBounds \<and>
     (\<forall>k. 0 < k \<and> unat k < 2 ^ 16 \<and> hdl_rules c (unat k) = None \<longrightarrow>
        (\<exists>ts. drv_ipa_nat_query_timestamp 1 k (Some t) ca = Inr (0, Some ts)))"
proof (intro conjI allI impI)
  show "drv_ipa_nat_add_ipv4_tbl dev ip n (Some h) (ca, w) = Inl OutOfBounds"
    using alloc_ok[OF assms(4-6), of ca w] assms(2,3,5)
    by (auto simp: drv_ipa_nat_add_ipv4_tbl_def ipa_nati_add_ipv4_tbl_def get_tbl_def)
  obtain ms ids B BI where I: "valid c" "rule_id_array c = Some ids" "sized c (table_entries c) (expn_table_entries c)"
    "mem_inv (table_entries c) (expn_table_entries c) (ipv4_rules c) (index_table c) ms ids B BI" using tbl_invD[OF assms(1)] by metis
  note sh = mem_invD(1)[OF I(4), unfolded shape_def]
  show "drv_ipa_nat_query_timestamp 1 0 (Some t) ca = Inl OutOfBounds"
    using I(1) sh assms(2) by (simp add: drv_ipa_nat_query_timestamp_def ipa_nati_query_timestamp_def const_defs get_tbl_def
        ipa_nati_parse_ipv4_rule_hdl_def)
  show "drv_ipa_nat_del_ipv4_rule dev 2 1 (ca, w) = Inl OutOfBounds"
    using assms(2) by (simp add: drv_ipa_nat_del_ipv4_rule_def ipa_nati_del_ipv4_rule_def const_defs get_tbl_def Let_def)
  fix k :: u32 assume k: "0 < k \<and> unat k < 2 ^ 16 \<and> hdl_rules c (unat k) = None"
  have "unat (ucast k :: u16) = unat k" using k by (simp add: unsigned_ucast_eq take_bit_nat_eq_self)
  moreover have "ipa_nati_parse_ipv4_rule_hdl c (unat k) = Inr (False, 0)"
    using k I(2) sh by (auto simp: ipa_nati_parse_ipv4_rule_hdl_def array_at_def const_defs hdl_rules_def unat_gt_0 split: if_splits)
  moreover have "read_rule c False 0 = Inr (ipv4_rules c ! 0)" using read_part(1)[OF I(3), of 0] sh by simp
  ultimately show "\<exists>ts. drv_ipa_nat_query_timestamp 1 k (Some t) ca = Inr (0, Some ts)"
    using I(1) assms(2) by (simp add: drv_ipa_nat_query_timestamp_def ipa_nati_query_timestamp_def const_defs get_tbl_def)
qed

theorem nat_driver_misuse_witness:
  "\<exists>c. tbl_inv c \<and> (let ca = ipv4_nat_cache_init\<lparr>ip4_tbl := [c], table_cnt := 1\<rparr>
     in drv_ipa_nat_add_ipv4_tbl ex_dev 7 5 (Some 0) (ca, ()) = Inl OutOfBounds \<and>
        drv_ipa_nat_query_timestamp 1 0 (Some 0) ca = Inl OutOfBounds \<and>
        drv_ipa_nat_del_ipv4_rule ex_dev 2 1 (ca, ()) = Inl OutOfBounds \<and>
        (\<exists>ts. drv_ipa_nat_query_timestamp 1 3 (Some 0) ca = Inr (0, Some ts)))"
proof -
  obtain c where c: "tbl_inv c" "hdl_rules c = Map.empty" using ex_table by blast
  let ?ca = "ipv4_nat_cache_init\<lparr>ip4_tbl := [c], table_cnt := 1\<rparr>"
  have t: "ip4_tbl ?ca = [c]" "table_cnt ?ca = 1" by simp_all
  have "(0 :: u32) < 3 \<and> unat (3 :: u32) < 2 ^ 16 \<and> hdl_rules c (unat (3 :: u32)) = None" using c(2) by simp
  with nat_driver_misuse[OF c(1) t ex_conds, of 7 0 "()" 0] c(1) show ?thesis unfolding Let_def by blast
qed

end
