(* ===== verification/Loc_Heap.thy ===== *)
theory Loc_Heap
  imports Ipacm_Prelude
begin

text \<open>
  The heap of the GPS utilities \<^verbatim>\<open>LocHeap.h/.cpp\<close>, the container of the timer service: nodes with
  two unordered children that always rank lower, a subtree size in every node, insertion into the
  smaller subtree, removal of the top by moving data up, removal of an element by a pruned search.
  A pointer to a node is a tree, NULL the empty one; the data are the addresses of the client's
  objects and \<open>outRanks\<close> is the client's virtual comparison. The ranking of the timers of
  \<^verbatim>\<open>LocTimer.cpp\<close> is the instance the program uses.
\<close>

section \<open>Nodes\<close>

datatype 'a heap_node = Null | Node (mSize: int) (mLeft: "'a heap_node") (mData: 'a) (mRight: "'a heap_node")
where
  "mSize Null = 0"
| "mLeft Null = Null"
| "mRight Null = Null"

definition LocHeapNode_new :: "'a \<Rightarrow> 'a heap_node" where
  "LocHeapNode_new d = Node 1 Null d Null"

fun node_push :: "('a \<Rightarrow> 'a \<Rightarrow> bool) \<Rightarrow> 'a heap_node \<Rightarrow> 'a \<Rightarrow> 'a heap_node" where
  "node_push outRanks Null x = LocHeapNode_new x"
| "node_push outRanks (Node s l d r) x =
     (let (d', x') = (if outRanks x d then (x, d) else (d, x))
      in if l = Null then Node (s + 1) (LocHeapNode_new x') d' r
         else if r = Null then Node (s + 1) l d' (LocHeapNode_new x')
         else if mSize l \<le> mSize r then Node (s + 1) (node_push outRanks l x') d' r
         else Node (s + 1) l d' (node_push outRanks r x'))"

text \<open>\<open>swap\<close> with the top of a subtree: the data of the node that is passed down.\<close>

fun set_data :: "'a \<Rightarrow> 'a heap_node \<Rightarrow> 'a heap_node" where
  "set_data x Null = Null"
| "set_data x (Node s l d r) = Node s l x r"

lemma size_set_data [simp]: "size (set_data x t) = size t"
  by (cases t) simp_all

text \<open>\<open>pop\<close>: the data of the node that is popped out, and the tree that is left.\<close>

function node_pop :: "('a \<Rightarrow> 'a \<Rightarrow> bool) \<Rightarrow> 'a heap_node \<Rightarrow> 'a option \<times> 'a heap_node" where
  "node_pop outRanks Null = (None, Null)"
| "node_pop outRanks (Node s l d r) =
     (if l = Null \<and> r = Null then (Some d, Null)
      else if l \<noteq> Null \<and> (r = Null \<or> outRanks (mData l) (mData r))
      then (let (p, l') = node_pop outRanks (set_data d l) in (p, Node (s - 1) l' (mData l) r))
      else (let (p, r') = node_pop outRanks (set_data d r) in (p, Node (s - 1) l (mData r) r')))"
  by pat_completeness auto
termination
  by (relation "measure (\<lambda>(f, t). size t)") auto

declare node_pop.simps(2) [simp del]

text \<open>\<open>remove\<close>: the element is looked for by address, in subtrees whose top it does not outrank.\<close>

fun node_remove :: "('a \<Rightarrow> 'a \<Rightarrow> bool) \<Rightarrow> 'a heap_node \<Rightarrow> 'a \<Rightarrow> 'a option \<times> 'a heap_node" where
  "node_remove outRanks Null x = (None, Null)"
| "node_remove outRanks (Node s l d r) x =
     (if x = d then node_pop outRanks (Node s l d r)
      else if \<not> outRanks x d then
        (let (p1, l') = (if l \<noteq> Null then node_remove outRanks l x else (None, l));
             (p2, r') = (if p1 = None \<and> r \<noteq> Null then node_remove outRanks r x else (p1, r))
         in if p2 \<noteq> None then (p2, Node (s - 1) l' d r') else (None, Node s l' d r'))
      else (None, Node s l d r))"

fun checkNodes :: "('a \<Rightarrow> 'a \<Rightarrow> bool) \<Rightarrow> 'a heap_node \<Rightarrow> bool" where
  "checkNodes outRanks Null = True"
| "checkNodes outRanks (Node s l d r) =
     (if l \<noteq> Null \<and> (outRanks (mData l) d \<or> \<not> checkNodes outRanks l) then False
      else if r \<noteq> Null \<and> (outRanks (mData r) d \<or> \<not> checkNodes outRanks r) then False
      else s - mSize l - mSize r = 1)"

section \<open>The heap\<close>

type_synonym 'a LocHeap = "'a heap_node"

definition LocHeap_new :: "'a LocHeap" where "LocHeap_new = Null"

definition heap_push :: "('a \<Rightarrow> 'a \<Rightarrow> bool) \<Rightarrow> 'a \<Rightarrow> 'a LocHeap \<Rightarrow> 'a LocHeap" where
  "heap_push outRanks x t = (if t = Null then LocHeapNode_new x else node_push outRanks t x)"

definition heap_peek :: "'a LocHeap \<Rightarrow> 'a option" where
  "heap_peek t = (if t \<noteq> Null then Some (mData t) else None)"

definition heap_pop :: "('a \<Rightarrow> 'a \<Rightarrow> bool) \<Rightarrow> 'a LocHeap \<Rightarrow> 'a option \<times> 'a LocHeap" where
  "heap_pop outRanks t = (if t \<noteq> Null then node_pop outRanks t else (None, t))"

definition heap_remove :: "('a \<Rightarrow> 'a \<Rightarrow> bool) \<Rightarrow> 'a \<Rightarrow> 'a LocHeap \<Rightarrow> 'a option \<times> 'a LocHeap" where
  "heap_remove outRanks x t = (if t \<noteq> Null then node_remove outRanks t x else (None, t))"

definition checkTree :: "('a \<Rightarrow> 'a \<Rightarrow> bool) \<Rightarrow> 'a LocHeap \<Rightarrow> bool" where
  "checkTree outRanks t = (t = Null \<or> checkNodes outRanks t)"

definition getTreeSize :: "'a LocHeap \<Rightarrow> int" where
  "getTreeSize t = (if t = Null then 0 else mSize t)"

section \<open>Timers\<close>

text \<open>The expiry time of a timer: the clocks are never negative, so the seconds are the 31 low bits of
  the signed \<open>time_t\<close>, and the nanoseconds stay below \<open>2^30\<close>. The differences are converted to \<open>int\<close>.\<close>

record LocTimerDelegate =
  timer_id :: nat
  tv_sec :: "31 word"
  tv_nsec :: "30 word"

definition to_int :: "int \<Rightarrow> int" where
  "to_int x = sint (word_of_int x :: 32 word)"

definition timer_ranks :: "LocTimerDelegate \<Rightarrow> LocTimerDelegate \<Rightarrow> int" where
  "timer_ranks a b =
     (let rank = to_int (uint (tv_sec b) - uint (tv_sec a))
      in if 0 = rank then to_int (uint (tv_nsec b) - uint (tv_nsec a)) else rank)"

definition timer_outRanks :: "LocTimerDelegate \<Rightarrow> LocTimerDelegate \<Rightarrow> bool" where
  "timer_outRanks a b = (timer_ranks a b > 0)"

section \<open>Elements, order and balance\<close>

primrec elems :: "'a heap_node \<Rightarrow> 'a multiset" where
  "elems Null = {#}"
| "elems (Node s l d r) = add_mset d (elems l + elems r)"

text \<open>The subtree sizes are right.\<close>

primrec sized :: "'a heap_node \<Rightarrow> bool" where
  "sized Null \<longleftrightarrow> True"
| "sized (Node s l d r) \<longleftrightarrow> sized l \<and> sized r \<and> s = int (size (elems l)) + int (size (elems r)) + 1"

text \<open>No element outranks the top of a subtree it is in.\<close>

primrec ordered :: "('a \<Rightarrow> 'a \<Rightarrow> bool) \<Rightarrow> 'a heap_node \<Rightarrow> bool" where
  "ordered outRanks Null \<longleftrightarrow> True"
| "ordered outRanks (Node s l d r) \<longleftrightarrow> ordered outRanks l \<and> ordered outRanks r \<and>
     (\<forall>y \<in># elems l + elems r. \<not> outRanks y d)"

text \<open>The left subtree has as many elements as the right one, or one more.\<close>

primrec balanced :: "'a heap_node \<Rightarrow> bool" where
  "balanced Null \<longleftrightarrow> True"
| "balanced (Node s l d r) \<longleftrightarrow> balanced l \<and> balanced r \<and> size (elems r) \<le> size (elems l) \<and>
     size (elems l) \<le> size (elems r) + 1"

primrec height :: "'a heap_node \<Rightarrow> nat" where
  "height Null = 0"
| "height (Node s l d r) = Suc (max (height l) (height r))"

lemma elems_empty [simp]: "elems t = {#} \<longleftrightarrow> t = Null" "{#} = elems t \<longleftrightarrow> t = Null"
  by (cases t; simp)+

lemma sized_mSize: "sized t \<Longrightarrow> mSize t = int (size (elems t))"
  by (cases t) simp_all

lemma mData_elem: "t \<noteq> Null \<Longrightarrow> mData t \<in># elems t"
  by (cases t) simp_all

lemma elems_new [simp]: "elems (LocHeapNode_new x) = {#x#}" "sized (LocHeapNode_new x)"
    "ordered f (LocHeapNode_new x)" "balanced (LocHeapNode_new x)" "LocHeapNode_new x \<noteq> Null"
  by (simp_all add: LocHeapNode_new_def)

lemma elems_set_data: "t \<noteq> Null \<Longrightarrow> add_mset (mData t) (elems (set_data x t)) = add_mset x (elems t)"
  by (cases t) simp_all

lemma set_data_Null [simp]: "set_data x t = Null \<longleftrightarrow> t = Null"
  by (cases t) simp_all

lemma sized_set_data [simp]: "sized (set_data x t) = sized t"
  by (cases t) simp_all

lemma heap_remove_node: "heap_remove f x t = node_remove f t x"
  by (cases "t = Null") (simp_all add: heap_remove_def)

lemma elems_push [simp]: "elems (node_push f t x) = add_mset x (elems t)"
  by (induction f t x rule: node_push.induct) (auto simp: Let_def)

lemma size_elems_push [simp]: "node_push f t x \<noteq> Null"
  using elems_push[of f t x] by (metis elems_empty(1) add_mset_not_empty)

lemma sized_push: "sized t \<Longrightarrow> sized (node_push f t x)"
  by (induction f t x rule: node_push.induct) (auto simp: Let_def)

lemma balanced_push:
  "sized t \<Longrightarrow> balanced t \<Longrightarrow> balanced (node_push f t x)"
proof (induction f t x rule: node_push.induct)
  case (2 f s l d r x)
  then show ?case using sized_mSize[of l] sized_mSize[of r] by (auto simp: Let_def)
qed simp

section \<open>The contract of a queue by rank\<close>

text \<open>Taking elements out one by one, \<open>n\<close> times at most.\<close>

fun drain :: "('q \<Rightarrow> 'a option \<times> 'q) \<Rightarrow> nat \<Rightarrow> 'q \<Rightarrow> 'a list" where
  "drain pop 0 q = []"
| "drain pop (Suc n) q = (case pop q of (None, q') \<Rightarrow> [] | (Some x, q') \<Rightarrow> x # drain pop n q')"

locale rank_queue =
  fixes outRanks :: "'a \<Rightarrow> 'a \<Rightarrow> bool"
    and empty :: "'q"
    and push :: "'a \<Rightarrow> 'q \<Rightarrow> 'q"
    and peek :: "'q \<Rightarrow> 'a option"
    and pop :: "'q \<Rightarrow> 'a option \<times> 'q"
    and remove :: "'a \<Rightarrow> 'q \<Rightarrow> 'a option \<times> 'q"
    and items :: "'q \<Rightarrow> 'a multiset"
    and inv :: "'q \<Rightarrow> bool"
  assumes empty_inv: "inv empty" "items empty = {#}"
    and push_inv: "inv q \<Longrightarrow> inv (push x q)" "items (push x q) = add_mset x (items q)"
    and pop_empty: "items q = {#} \<Longrightarrow> pop q = (None, q) \<and> peek q = None"
    and pop_best: "inv q \<Longrightarrow> items q \<noteq> {#} \<Longrightarrow> \<exists>x q'. pop q = (Some x, q') \<and> peek q = Some x \<and>
        items q = add_mset x (items q') \<and> inv q' \<and> (\<forall>y \<in># items q. \<not> outRanks y x)"
    and remove_exact: "inv q \<Longrightarrow> \<exists>q'. inv q' \<and>
        (if x \<in># items q then remove x q = (Some x, q') \<and> items q = add_mset x (items q')
         else remove x q = (None, q') \<and> q' = q)"
begin

lemma drain_sorted:
  assumes "inv q"
  shows "mset (drain pop (size (items q)) q) = items q \<and>
    sorted_wrt (\<lambda>x y. \<not> outRanks y x) (drain pop (size (items q)) q)"
  using assms
proof (induction "size (items q)" arbitrary: q)
  case 0
  then show ?case by simp
next
  case (Suc n)
  then have "items q \<noteq> {#}" by auto
  then obtain x q' where x: "pop q = (Some x, q')" "items q = add_mset x (items q')" "inv q'"
    "\<forall>y \<in># items q. \<not> outRanks y x" using pop_best[OF Suc.prems] by blast
  have n: "n = size (items q')" using Suc.hyps(2) x(2) by simp
  have IH: "mset (drain pop n q') = items q' \<and> sorted_wrt (\<lambda>x y. \<not> outRanks y x) (drain pop n q')"
    using Suc.hyps(1)[OF n x(3)] n by simp
  have "set (drain pop n q') = set_mset (items q')" using IH by (metis set_mset_mset)
  then show ?case using IH x Suc.hyps(2)[symmetric] by auto
qed

end

section \<open>The heap implements the contract for every ranking\<close>

text \<open>What is relied on of the client's comparison: \<open>outRanks\<close> is a strict weak order.\<close>

locale rankable =
  fixes outRanks :: "'a \<Rightarrow> 'a \<Rightarrow> bool"
  assumes asym: "outRanks x y \<Longrightarrow> \<not> outRanks y x"
    and ntrans: "\<not> outRanks x y \<Longrightarrow> \<not> outRanks y z \<Longrightarrow> \<not> outRanks x z"
begin

lemma irrefl [simp]: "\<not> outRanks x x"
  using asym by blast

lemma ordered_top: "ordered outRanks t \<Longrightarrow> y \<in># elems t \<Longrightarrow> \<not> outRanks y (mData t)"
  by (cases t) auto

lemma ordered_set_data:
  assumes "ordered outRanks t" "\<forall>y \<in># elems t. \<not> outRanks y d"
  shows "ordered outRanks (set_data d t)"
  using assms by (cases t) auto

lemma ordered_push: "ordered outRanks t \<Longrightarrow> ordered outRanks (node_push outRanks t x)"
proof (induction t arbitrary: x)
  case (Node s l d r)
  have "outRanks x d \<Longrightarrow> \<not> outRanks d x" "\<And>y. outRanks x d \<Longrightarrow> \<not> outRanks y d \<Longrightarrow> \<not> outRanks y x"
    using asym ntrans by blast+
  with Node show ?case by (auto simp: Let_def)
qed simp

lemma node_pop_spec:
  "t \<noteq> Null \<Longrightarrow> sized t \<Longrightarrow> ordered outRanks t \<Longrightarrow>
     \<exists>t'. node_pop outRanks t = (Some (mData t), t') \<and> elems t = add_mset (mData t) (elems t') \<and>
       sized t' \<and> ordered outRanks t'"
proof (induction "size t" arbitrary: t rule: less_induct)
  case less
  obtain s l d r where t: "t = Node s l d r" using less.prems(1) by (cases t) auto
  have sz: "sized l" "sized r" and od: "ordered outRanks l" "ordered outRanks r"
    "\<forall>y \<in># elems l + elems r. \<not> outRanks y d" using less.prems t by auto
  have sub: "\<exists>u'. node_pop outRanks (set_data d u) = (Some d, u') \<and> elems u = add_mset (mData u) (elems u') \<and>
      sized u' \<and> ordered outRanks u'"
    if u: "u \<noteq> Null" "size u < size t" "sized u" "ordered outRanks u" "\<forall>y \<in># elems u. \<not> outRanks y d" for u
  proof -
    have "mData (set_data d u) = d" using u(1) by (cases u) auto
    then obtain u' where u': "node_pop outRanks (set_data d u) = (Some d, u')"
      "elems (set_data d u) = add_mset d (elems u')" "sized u'" "ordered outRanks u'"
      using less.hyps[of "set_data d u"] u ordered_set_data[OF u(4,5)] by auto
    have "add_mset d (elems u) = add_mset d (add_mset (mData u) (elems u'))"
      using elems_set_data[OF u(1), of d] u'(2) by (simp add: add_mset_commute)
    then show ?thesis using u' by auto
  qed
  show ?case
  proof (cases "l = Null \<and> r = Null")
    case True
    then show ?thesis using t less.prems by (simp add: node_pop.simps(2))
  next
    case False
    show ?thesis
    proof (cases "l \<noteq> Null \<and> (r = Null \<or> outRanks (mData l) (mData r))")
      case True
      obtain l' where l': "node_pop outRanks (set_data d l) = (Some d, l')" "elems l = add_mset (mData l) (elems l')"
        "sized l'" "ordered outRanks l'" using sub[of l] True t sz od by auto
      have "\<not> outRanks y (mData l)" if "y \<in># elems l' + elems r" for y
        using that l'(2) ordered_top[OF od(1)] ordered_top[OF od(2)] True asym ntrans
        by (metis (no_types, lifting) elems_empty(1) empty_iff set_mset_empty union_iff add_mset_add_single)
      then show ?thesis using t False True l' less.prems od sz by (simp add: node_pop.simps(2))
    next
      case R: False
      obtain r' where r': "node_pop outRanks (set_data d r) = (Some d, r')" "elems r = add_mset (mData r) (elems r')"
        "sized r'" "ordered outRanks r'" using sub[of r] R False t sz od by auto
      have "\<not> outRanks y (mData r)" if "y \<in># elems l + elems r'" for y
        using that r'(2) ordered_top[OF od(1)] ordered_top[OF od(2)] R False ntrans
        by (metis (no_types, lifting) elems_empty(1) empty_iff set_mset_empty union_iff add_mset_add_single)
      then show ?thesis using t False R r' less.prems od sz by (auto simp: node_pop.simps(2))
    qed
  qed
qed

lemma node_remove_spec:
  "sized t \<Longrightarrow> ordered outRanks t \<Longrightarrow> \<exists>t'. sized t' \<and> ordered outRanks t' \<and>
     (if x \<in># elems t then node_remove outRanks t x = (Some x, t') \<and> elems t = add_mset x (elems t')
      else node_remove outRanks t x = (None, t') \<and> t' = t)"
proof (induction t)
  case Null
  then show ?case by simp
next
  case (Node s l d r)
  have sz: "sized l" "sized r" and od: "ordered outRanks l" "ordered outRanks r"
    "\<forall>y \<in># elems l + elems r. \<not> outRanks y d" using Node.prems by auto
  obtain l' where l': "sized l'" "ordered outRanks l'" "if x \<in># elems l then node_remove outRanks l x = (Some x, l') \<and>
     elems l = add_mset x (elems l') else node_remove outRanks l x = (None, l') \<and> l' = l"
    using Node.IH(1)[OF sz(1) od(1)] by blast
  obtain r' where r': "sized r'" "ordered outRanks r'" "if x \<in># elems r then node_remove outRanks r x = (Some x, r') \<and>
     elems r = add_mset x (elems r') else node_remove outRanks r x = (None, r') \<and> r' = r"
    using Node.IH(2)[OF sz(2) od(2)] by blast
  consider (top) "x = d" | (pruned) "x \<noteq> d" "outRanks x d" | (left) "x \<noteq> d" "\<not> outRanks x d" "x \<in># elems l"
    | (right) "x \<noteq> d" "\<not> outRanks x d" "x \<notin># elems l" "x \<in># elems r"
    | (absent) "x \<noteq> d" "\<not> outRanks x d" "x \<notin># elems l" "x \<notin># elems r" by blast
  then show ?case
  proof cases
    case top
    then show ?thesis using node_pop_spec[of "Node s l d r"] Node.prems by auto
  next
    case pruned
    then show ?thesis using od(3) Node.prems by auto
  next
    case left
    then show ?thesis using l' Node.prems od by (cases l) auto
  next
    case right
    then show ?thesis using l' r' Node.prems od by (cases r) auto
  next
    case absent
    then show ?thesis using l' r' Node.prems by auto
  qed
qed

lemma checkNodes_iff: "checkNodes outRanks t \<longleftrightarrow> sized t \<and> ordered outRanks t"
proof (induction t)
  case Null
  then show ?case by simp
next
  case (Node s l d r)
  have top: "(\<forall>y \<in># elems u. \<not> outRanks y d) \<longleftrightarrow> u = Null \<or> \<not> outRanks (mData u) d" if "ordered outRanks u" for u
    using ordered_top[OF that] ntrans mData_elem[of u] by (metis elems.simps(1) empty_iff set_mset_empty)
  show ?case using Node top[of l] top[of r] sized_mSize[of l] sized_mSize[of r] by (auto simp: ball_Un)
qed

lemma heap_pop_spec:
  assumes "sized t" "ordered outRanks t" "t \<noteq> Null"
  shows "\<exists>x t'. heap_pop outRanks t = (Some x, t') \<and> heap_peek t = Some x \<and> elems t = add_mset x (elems t') \<and>
    (sized t' \<and> ordered outRanks t') \<and> (\<forall>y \<in># elems t. \<not> outRanks y x)"
  using node_pop_spec[OF assms(3,1,2)] ordered_top[OF assms(2)] assms(3)
  by (auto simp: heap_pop_def heap_peek_def)

lemma heap_remove_spec:
  assumes "sized t" "ordered outRanks t"
  shows "\<exists>t'. (sized t' \<and> ordered outRanks t') \<and>
    (if x \<in># elems t then heap_remove outRanks x t = (Some x, t') \<and> elems t = add_mset x (elems t')
     else heap_remove outRanks x t = (None, t') \<and> t' = t)"
  using node_remove_spec[OF assms, of x] unfolding heap_remove_node conj_assoc .

end

sublocale rankable \<subseteq> pq: rank_queue outRanks LocHeap_new "heap_push outRanks" heap_peek
  "heap_pop outRanks" "heap_remove outRanks" elems "\<lambda>t. sized t \<and> ordered outRanks t"
proof unfold_locales
  fix t :: "'a heap_node" and x
  show "sized (LocHeap_new :: 'a heap_node) \<and> ordered outRanks LocHeap_new"
    and "elems (LocHeap_new :: 'a heap_node) = {#}" by (simp_all add: LocHeap_new_def)
  show "elems (heap_push outRanks x t) = add_mset x (elems t)" by (simp add: heap_push_def)
  show "elems t = {#} \<Longrightarrow> heap_pop outRanks t = (None, t) \<and> heap_peek t = None"
    by (simp add: heap_pop_def heap_peek_def)
  assume t: "sized t \<and> ordered outRanks t"
  then show "sized (heap_push outRanks x t) \<and> ordered outRanks (heap_push outRanks x t)"
    by (simp add: heap_push_def sized_push ordered_push)
  from t show "elems t \<noteq> {#} \<Longrightarrow> \<exists>x t'. heap_pop outRanks t = (Some x, t') \<and> heap_peek t = Some x \<and>
      elems t = add_mset x (elems t') \<and> (sized t' \<and> ordered outRanks t') \<and> (\<forall>y \<in># elems t. \<not> outRanks y x)"
    using heap_pop_spec[of t] by simp
  from t show "\<exists>t'. (sized t' \<and> ordered outRanks t') \<and>
      (if x \<in># elems t then heap_remove outRanks x t = (Some x, t') \<and> elems t = add_mset x (elems t')
       else heap_remove outRanks x t = (None, t') \<and> t' = t)"
    using heap_remove_spec[of t x] by simp
qed

text \<open>The conversion to \<open>int\<close> loses nothing, so the comparison is the lexicographic one.\<close>

lemma to_int_id: "- (2 ^ 31) \<le> x \<Longrightarrow> x < 2 ^ 31 \<Longrightarrow> to_int x = x"
  unfolding to_int_def by (subst sint_sbintrunc') (simp add: signed_take_bit_int_eq_self)

lemma timer_ranks_exact:
  fixes a b :: LocTimerDelegate
  shows "to_int (uint (tv_sec b) - uint (tv_sec a)) = uint (tv_sec b) - uint (tv_sec a)"
  "to_int (uint (tv_nsec b) - uint (tv_nsec a)) = uint (tv_nsec b) - uint (tv_nsec a)"
proof -
  have diff: "to_int (x - y) = x - y" if "0 \<le> x" "x < 2 ^ 31" "0 \<le> y" "y < 2 ^ 31" for x y
    using that by (intro to_int_id) linarith+
  have "uint (tv_sec x) < 2 ^ 31" "uint (tv_nsec x) < 2 ^ 31" for x :: LocTimerDelegate
    using uint_lt2p[of "tv_sec x"] uint_lt2p[of "tv_nsec x"] by simp_all
  then show "to_int (uint (tv_sec b) - uint (tv_sec a)) = uint (tv_sec b) - uint (tv_sec a)"
    "to_int (uint (tv_nsec b) - uint (tv_nsec a)) = uint (tv_nsec b) - uint (tv_nsec a)"
    by (simp_all add: diff)
qed

lemmas timer_outRanks_exact = timer_outRanks_def timer_ranks_def timer_ranks_exact Let_def

interpretation timers: rankable timer_outRanks
proof unfold_locales
  fix x y z :: LocTimerDelegate
  show "timer_outRanks x y \<Longrightarrow> \<not> timer_outRanks y x"
    by (auto simp: timer_outRanks_exact split: if_splits)
  show "\<not> timer_outRanks x y \<Longrightarrow> \<not> timer_outRanks y z \<Longrightarrow> \<not> timer_outRanks x z"
    by (auto simp: timer_outRanks_exact split: if_splits)
qed

section \<open>Scripts of operations\<close>

datatype 'a heap_op = H_push 'a | H_pop | H_remove 'a

fun heap_exec :: "('a \<Rightarrow> 'a \<Rightarrow> bool) \<Rightarrow> 'a heap_op \<Rightarrow> 'a LocHeap \<Rightarrow> 'a LocHeap" where
  "heap_exec f (H_push x) t = heap_push f x t"
| "heap_exec f H_pop t = snd (heap_pop f t)"
| "heap_exec f (H_remove x) t = snd (heap_remove f x t)"

lemma heap_exec_inv:
  assumes "rankable f" "sized t \<and> ordered f t"
  shows "sized (heap_exec f op t) \<and> ordered f (heap_exec f op t)"
proof (cases op)
  case (H_push x)
  then show ?thesis using rankable.ordered_push[OF assms(1)] assms(2) by (simp add: heap_push_def sized_push)
next
  case H_pop
  then show ?thesis using rankable.heap_pop_spec[OF assms(1), of t] assms(2)
    by (cases "t = Null") (auto simp: heap_pop_def)
next
  case (H_remove x)
  then show ?thesis using rankable.heap_remove_spec[OF assms(1), of t x] assms(2) by (auto split: if_splits)
qed

lemma heap_fold_inv:
  assumes "rankable f" "sized t \<and> ordered f t"
  shows "sized (fold (heap_exec f) ops t) \<and> ordered f (fold (heap_exec f) ops t)"
  using assms(2)
proof (induction ops arbitrary: t)
  case (Cons op ops)
  from Cons.IH[OF heap_exec_inv[OF assms(1) Cons.prems, of op]] show ?case by simp
qed simp

lemma not_timer_outRanks:
  "\<not> timer_outRanks y x \<longleftrightarrow> tv_sec x < tv_sec y \<or> tv_sec x = tv_sec y \<and> tv_nsec x \<le> tv_nsec y"
  by (auto simp: timer_outRanks_exact word_less_def word_le_def word_uint_eq_iff)

lemma balanced_height: "balanced t \<Longrightarrow> t \<noteq> Null \<Longrightarrow> 2 ^ height t \<le> 2 * size (elems t)"
proof (induction t)
  case (Node s l d r)
  then show ?case by (cases "l = Null"; cases "r = Null") (auto simp: max_def)
qed simp

section \<open>Properties\<close>

text \<open>C24. For every ranking that is a strict weak order, after any sequence of pushes, pops and removals
  from the empty heap \<open>checkTree\<close> succeeds and \<open>getTreeSize\<close> is the number of elements.\<close>

theorem heap_always_consistent:
  assumes "rankable f"
  shows "checkTree f (fold (heap_exec f) ops LocHeap_new) \<and>
     getTreeSize (fold (heap_exec f) ops LocHeap_new) = int (size (elems (fold (heap_exec f) ops LocHeap_new)))"
proof -
  have "sized (fold (heap_exec f) ops LocHeap_new) \<and> ordered f (fold (heap_exec f) ops LocHeap_new)"
    by (rule heap_fold_inv[OF assms]) (simp add: LocHeap_new_def)
  then show ?thesis using rankable.checkNodes_iff[OF assms] sized_mSize
    by (auto simp: checkTree_def getTreeSize_def)
qed

theorem heap_always_consistent_witness:
  "checkTree timer_outRanks (fold (heap_exec timer_outRanks)
     [H_push \<lparr>timer_id = 1, tv_sec = 5, tv_nsec = 0\<rparr>, H_push \<lparr>timer_id = 2, tv_sec = 3, tv_nsec = 7\<rparr>, H_pop] LocHeap_new)"
  using heap_always_consistent[OF timers.rankable_axioms] by blast

text \<open>C25. \<open>pop\<close> on a consistent heap returns NULL exactly when the heap is empty; otherwise it returns what
  \<open>peek\<close> showed, an element that no other outranks, and removes exactly that element, leaving a
  consistent heap.\<close>

theorem heap_pop_best:
  assumes "rankable f" and "checkTree f t" and "heap_pop f t = (p, t')"
  shows "p = heap_peek t \<and> (p = None \<longleftrightarrow> elems t = {#}) \<and> checkTree f t' \<and>
     (\<forall>x. p = Some x \<longrightarrow> elems t = add_mset x (elems t') \<and> (\<forall>y \<in># elems t. \<not> f y x))"
proof (cases "t = Null")
  case True
  then show ?thesis using assms(3) by (auto simp: heap_pop_def heap_peek_def checkTree_def)
next
  case False
  have c: "checkNodes f u \<longleftrightarrow> sized u \<and> ordered f u" for u by (rule rankable.checkNodes_iff[OF assms(1)])
  from False assms(2) have "sized t" "ordered f t" by (auto simp: checkTree_def c)
  from rankable.heap_pop_spec[OF assms(1) this False] assms(3) False show ?thesis by (auto simp: checkTree_def c)
qed

theorem heap_pop_best_witness:
  "fst (heap_pop timer_outRanks (heap_push timer_outRanks \<lparr>timer_id = 2, tv_sec = 3, tv_nsec = 7\<rparr>
     (heap_push timer_outRanks \<lparr>timer_id = 1, tv_sec = 5, tv_nsec = 0\<rparr> LocHeap_new))) =
   Some \<lparr>timer_id = 2, tv_sec = 3, tv_nsec = 7\<rparr>"
proof -
  let ?t = "heap_push timer_outRanks \<lparr>timer_id = 2, tv_sec = 3, tv_nsec = 7\<rparr>
     (heap_push timer_outRanks \<lparr>timer_id = 1, tv_sec = 5, tv_nsec = 0\<rparr> LocHeap_new)"
  have "checkTree timer_outRanks ?t" by code_simp
  from heap_pop_best[OF timers.rankable_axioms this surjective_pairing]
  have "fst (heap_pop timer_outRanks ?t) = heap_peek ?t" by blast
  also have "heap_peek ?t = Some \<lparr>timer_id = 2, tv_sec = 3, tv_nsec = 7\<rparr>"
    by (simp add: heap_push_def heap_peek_def LocHeap_new_def LocHeapNode_new_def timer_outRanks_exact to_int_id)
  finally show ?thesis .
qed

text \<open>\<open>remove\<close> on a consistent heap finds the object it is given, by its address and wherever it is in the
  tree, although subtrees whose top the object outranks are skipped: it returns it and takes exactly one
  occurrence out, leaving a consistent heap; for an object that is not in the heap it returns NULL and
  changes nothing, also when the heap has an element of the same rank.\<close>

theorem heap_remove_exact:
  assumes "rankable f" and "checkTree f t" and "heap_remove f x t = (p, t')"
  shows "checkTree f t' \<and>
     (if x \<in># elems t then p = Some x \<and> elems t = add_mset x (elems t') else p = None \<and> t' = t)"
proof -
  have c: "checkTree f u \<longleftrightarrow> sized u \<and> ordered f u" for u
    using rankable.checkNodes_iff[OF assms(1), of u] by (auto simp: checkTree_def)
  obtain u where u: "sized u \<and> ordered f u"
    "if x \<in># elems t then heap_remove f x t = (Some x, u) \<and> elems t = add_mset x (elems u)
     else heap_remove f x t = (None, u) \<and> u = t"
    using rankable.heap_remove_spec[OF assms(1), of t x] assms(2) c by blast
  show ?thesis using u assms(3) by (simp add: c split: if_splits)
qed

theorem heap_remove_exact_witness:
  "let a = \<lparr>timer_id = 1, tv_sec = 5, tv_nsec = 0\<rparr>; b = \<lparr>timer_id = 2, tv_sec = 5, tv_nsec = 0\<rparr>;
       t = heap_push timer_outRanks a LocHeap_new
   in heap_remove timer_outRanks b t = (None, t) \<and> fst (heap_remove timer_outRanks a t) = Some a"
proof -
  let ?a = "\<lparr>timer_id = 1, tv_sec = 5, tv_nsec = 0\<rparr>" and ?b = "\<lparr>timer_id = 2, tv_sec = 5, tv_nsec = 0\<rparr>"
  let ?t = "heap_push timer_outRanks ?a LocHeap_new"
  have c: "checkTree timer_outRanks ?t" by code_simp
  have e: "elems ?t = {#?a#}" by (simp add: heap_push_def LocHeap_new_def)
  have "fst (heap_remove timer_outRanks ?b ?t) = None \<and> snd (heap_remove timer_outRanks ?b ?t) = ?t"
    using heap_remove_exact[OF timers.rankable_axioms c surjective_pairing, of ?b] e by simp
  moreover have "fst (heap_remove timer_outRanks ?a ?t) = Some ?a"
    using heap_remove_exact[OF timers.rankable_axioms c surjective_pairing, of ?a] e by simp
  ultimately show ?thesis by (simp add: Let_def prod_eq_iff)
qed

text \<open>A heap that has only been pushed to is balanced, whatever the ranking: a tree with at least \<open>2 ^ (h - 1)\<close>
  elements is needed for a height of \<open>h\<close>, so a push follows a path of logarithmic length.\<close>

theorem pushes_balanced:
  "balanced (fold (heap_push f) xs LocHeap_new) \<and>
   (xs \<noteq> [] \<longrightarrow> 2 ^ (height (fold (heap_push f) xs LocHeap_new)) \<le> 2 * length xs)"
proof -
  have "sized t \<and> balanced t \<Longrightarrow> sized (fold (heap_push f) xs t) \<and> balanced (fold (heap_push f) xs t) \<and>
      size (elems (fold (heap_push f) xs t)) = size (elems t) + length xs" for t
    by (induction xs arbitrary: t) (auto simp: heap_push_def sized_push balanced_push)
  then have "balanced (fold (heap_push f) xs LocHeap_new)"
    "size (elems (fold (heap_push f) xs LocHeap_new)) = length xs" by (auto simp: LocHeap_new_def)
  then show ?thesis using balanced_height[of "fold (heap_push f) xs LocHeap_new"] elems_empty(1) by fastforce
qed

theorem pushes_balanced_witness:
  "2 ^ height (fold (heap_push timer_outRanks) (replicate 3 \<lparr>timer_id = 1, tv_sec = 5, tv_nsec = 0\<rparr>) LocHeap_new) \<le> (6::nat)"
  using pushes_balanced[of timer_outRanks "replicate 3 \<lparr>timer_id = 1, tv_sec = 5, tv_nsec = 0\<rparr>"] by simp

text \<open>C26. Expiring all timers of a consistent heap, by popping as often as there are timers, delivers every timer
  exactly once and in the order of their expiry times, whatever pushes, pops and removals built the heap.\<close>

theorem timers_expire_in_order:
  "let t = fold (heap_exec timer_outRanks) ops LocHeap_new; out = drain (heap_pop timer_outRanks) (size (elems t)) t
   in mset out = elems t \<and>
      sorted_wrt (\<lambda>x y. tv_sec x < tv_sec y \<or> tv_sec x = tv_sec y \<and> tv_nsec x \<le> tv_nsec y) out"
proof -
  let ?t = "fold (heap_exec timer_outRanks) ops LocHeap_new"
  have "sized ?t \<and> ordered timer_outRanks ?t"
    by (rule heap_fold_inv[OF timers.rankable_axioms]) (simp add: LocHeap_new_def)
  from timers.pq.drain_sorted[OF this] show ?thesis by (simp add: Let_def not_timer_outRanks)
qed

end
