(* ===== verification/Dlinks.thy ===== *)
theory Dlinks
  imports Ipacm_Prelude
begin

text \<open>
  Doubly linked cells in a heap, as \<^verbatim>\<open>linked_list.c\<close> (lists that end in NULL) and \<^verbatim>\<open>ril_event.cpp\<close> (circular lists with a list head)
  have them: reading and writing a cell through a pointer, segments of linked cells, and the effect of the two assignments
  that programs make at the ends of a segment.
\<close>

definition load_cell :: "ptr \<Rightarrow> (addr \<rightharpoonup> 'c) \<Rightarrow> fault + 'c" where
  "load_cell p h = (case p of None \<Rightarrow> Inl NullDeref | Some a \<Rightarrow> (case h a of None \<Rightarrow> Inl UseAfterFree | Some c \<Rightarrow> Inr c))"

definition store_cell :: "ptr \<Rightarrow> ('c \<Rightarrow> 'c) \<Rightarrow> (addr \<rightharpoonup> 'c) \<Rightarrow> fault + (addr \<rightharpoonup> 'c)" where
  "store_cell p f h = bnd (load_cell p h) (\<lambda>c. Inr (h(the p \<mapsto> f c)))"

lemma load_cell_Some [simp]: "h a = Some c \<Longrightarrow> load_cell (Some a) h = Inr c"
  by (simp add: load_cell_def)

lemma store_cell_Some [simp]: "h a = Some c \<Longrightarrow> store_cell (Some a) f h = Inr (h(a \<mapsto> f c))"
  by (simp add: store_cell_def)

text \<open>The pointer to the first cell of a segment, or to what follows it; and the mirror image.\<close>

fun firstp :: "addr list \<Rightarrow> ptr \<Rightarrow> ptr" where
  "firstp [] nx = nx"
| "firstp (a # as) nx = Some a"

definition lastp :: "addr list \<Rightarrow> ptr \<Rightarrow> ptr" where
  "lastp as pv = firstp (rev as) pv"

lemma lastp_simps [simp]: "lastp [] pv = pv" "lastp (as @ [a]) pv = Some a" "lastp [a] pv = Some a" "lastp (a # as) pv = lastp as (Some a)"
  by (simp_all add: lastp_def) (cases "rev as"; simp)

lemma firstp_append [simp]: "firstp (as @ bs) nx = firstp as (firstp bs nx)"
  by (cases as) simp_all

lemma lastp_append [simp]: "lastp (as @ bs) pv = lastp bs (lastp as pv)"
  by (simp add: lastp_def)

lemma ends_None [simp]: "firstp as None = None \<longleftrightarrow> as = []" "lastp as None = None \<longleftrightarrow> as = []"
proof -
  show 1: "firstp as None = None \<longleftrightarrow> as = []" for as by (cases as) simp_all
  show "lastp as None = None \<longleftrightarrow> as = []" by (simp add: lastp_def 1)
qed

text \<open>The cells \<open>as\<close> are live and linked in this order both ways; \<open>pv\<close> comes before them and \<open>nx\<close> after.\<close>

locale links =
  fixes nxt :: "'c \<Rightarrow> ptr" and prv :: "'c \<Rightarrow> ptr" and set_nxt :: "ptr \<Rightarrow> 'c \<Rightarrow> 'c" and set_prv :: "ptr \<Rightarrow> 'c \<Rightarrow> 'c"
  assumes sel [simp]: "nxt (set_nxt p c) = p" "prv (set_nxt p c) = prv c" "nxt (set_prv p c) = nxt c" "prv (set_prv p c) = p"
begin

fun seg :: "(addr \<rightharpoonup> 'c) \<Rightarrow> ptr \<Rightarrow> addr list \<Rightarrow> ptr \<Rightarrow> bool" where
  "seg h pv [] nx \<longleftrightarrow> True"
| "seg h pv (a # as) nx \<longleftrightarrow> (\<exists>c. h a = Some c \<and> prv c = pv \<and> nxt c = firstp as nx) \<and> seg h (Some a) as nx"

lemma seg_append: "seg h pv (as @ bs) nx \<longleftrightarrow> seg h pv as (firstp bs nx) \<and> seg h (lastp as pv) bs nx"
  by (induction as arbitrary: pv) auto

lemma seg_unique: "seg h pv as None \<Longrightarrow> seg h pv' bs None \<Longrightarrow> firstp as None = firstp bs None \<Longrightarrow> as = bs"
proof (induction as arbitrary: bs pv pv')
  case Nil
  then show ?case by (metis ends_None(1))
next
  case (Cons a as)
  then obtain cs where "bs = a # cs" by (cases bs) auto
  then show ?case using Cons.IH[of "Some a" "Some a" cs] Cons.prems by auto
qed

lemma seg_live: "seg h pv as nx \<Longrightarrow> a \<in> set as \<Longrightarrow> \<exists>c. h a = Some c"
  by (induction as arbitrary: pv) auto

lemma seg_frame [simp]: "a \<notin> set as \<Longrightarrow> seg (h(a := x)) pv as nx = seg h pv as nx"
  by (induction as arbitrary: pv) auto

lemma seg_cong: "(\<And>a. a \<in> set as \<Longrightarrow> h' a = h a) \<Longrightarrow> seg h' pv as nx = seg h pv as nx"
  by (induction as arbitrary: pv) auto

text \<open>The last cell is linked to another successor, the first cell to another predecessor.\<close>

lemma seg_set_nxt:
  assumes "seg h pv (as @ [a]) nx" "distinct (as @ [a])" "h a = Some c"
  shows "seg (h(a \<mapsto> set_nxt nx' c)) pv (as @ [a]) nx'"
  using assms by (simp add: seg_append)

lemma seg_set_prv:
  assumes "seg h pv (a # as) nx" "distinct (a # as)" "h a = Some c"
  shows "seg (h(a \<mapsto> set_prv pv' c)) pv' (a # as) nx"
  using assms by auto

text \<open>Assignments through the pointer to the end of a possibly empty segment, whose neighbour stands in for the missing cell.\<close>

definition join :: "addr list \<Rightarrow> ptr \<Rightarrow> (addr \<rightharpoonup> 'c) \<Rightarrow> (addr \<rightharpoonup> 'c)" where
  "join as nx h = (if as = [] then h else h(last as \<mapsto> set_nxt nx (the (h (last as)))))"

definition rejoin :: "ptr \<Rightarrow> addr list \<Rightarrow> (addr \<rightharpoonup> 'c) \<Rightarrow> (addr \<rightharpoonup> 'c)" where
  "rejoin pv as h = (if as = [] then h else h(hd as \<mapsto> set_prv pv (the (h (hd as)))))"

lemma seg_join:
  assumes "seg h pv as nx" "distinct as"
  shows "seg (join as nx' h) pv as nx'"
proof (cases as rule: rev_cases)
  case (snoc bs b)
  then obtain c where "h b = Some c" using seg_live[OF assms(1)] by auto
  then show ?thesis using assms seg_set_nxt[of h pv bs b nx c nx'] snoc by (simp add: join_def)
qed (simp add: join_def)

lemma seg_rejoin:
  assumes "seg h pv as nx" "distinct as"
  shows "seg (rejoin pv' as h) pv' as nx"
  using assms by (cases as) (auto simp: rejoin_def)

lemma join_frame: "a \<notin> set as \<Longrightarrow> join as nx h a = h a" "a \<notin> set as \<Longrightarrow> rejoin pv as h a = h a"
  by (auto simp: join_def rejoin_def)

lemma dom_join: "seg h pv as nx \<Longrightarrow> dom (join as nx' h) = dom h" "seg h pv as nx \<Longrightarrow> dom (rejoin pv' as h) = dom h"
  by (cases as rule: rev_cases; auto simp: join_def seg_append) (cases as; auto simp: rejoin_def)

text \<open>Whatever does not depend on the links stays.\<close>

lemma join_same:
  assumes "\<And>p c. f (set_nxt p c) = f c" "\<And>p c. f (set_prv p c) = f c" "seg h pv as nx"
  shows "map_option f (join as nx' h a) = map_option f (h a)" "map_option f (rejoin pv' as h a) = map_option f (h a)"
proof -
  show "map_option f (join as nx' h a) = map_option f (h a)"
    using assms by (cases as rule: rev_cases) (auto simp: join_def seg_append)
  show "map_option f (rejoin pv' as h a) = map_option f (h a)"
    using assms by (cases as) (auto simp: rejoin_def)
qed

end

end
