(* ===== verification/Linked_List.thy ===== *)
theory Linked_List
  imports Dlinks
begin

text \<open>
  The doubly linked list of the GPS utilities, \<^verbatim>\<open>gps/utils/linked_list.c\<close>, with its cells in a heap, and the list it stands for. New
  elements go to the front; elements are taken from the back, or from anywhere by a search. Calls of the deallocation functions that
  come with the elements are recorded. An output \<open>None\<close> stands for NULL and for an output parameter that is not written.
\<close>

section \<open>The source\<close>

datatype linked_list_err_type = eLINKED_LIST_SUCCESS | eLINKED_LIST_FAILURE_GENERAL | eLINKED_LIST_INVALID_PARAMETER
  | eLINKED_LIST_INVALID_HANDLE | eLINKED_LIST_UNAVAILABLE_RESOURCE | eLINKED_LIST_INSUFFICIENT_BUFFER

record ('d, 'f) list_element =
  le_next :: ptr
  le_prev :: ptr
  data_ptr :: 'd
  dealloc_func :: "'f option"

text \<open>The list with the heap of its elements. A handle is \<open>None\<close> for NULL.\<close>

record ('d, 'f) list_state =
  p_head :: ptr
  p_tail :: ptr
  elems_of :: "addr \<rightharpoonup> ('d, 'f) list_element"

definition linked_list_init :: "bool \<Rightarrow> bool \<Rightarrow> linked_list_err_type \<times> ('d, 'f) list_state option" where
  "linked_list_init out mem =
     (if \<not> out then (eLINKED_LIST_INVALID_PARAMETER, None)
      else if \<not> mem then (eLINKED_LIST_FAILURE_GENERAL, None)
      else (eLINKED_LIST_SUCCESS, Some \<lparr>p_head = None, p_tail = None, elems_of = Map.empty\<rparr>))"

text \<open>\<open>elem\<close> is the result of \<^verbatim>\<open>malloc\<close>.\<close>

definition linked_list_add :: "ptr \<Rightarrow> 'd option \<Rightarrow> 'f option \<Rightarrow> ('d, 'f) list_state option \<Rightarrow> fault + linked_list_err_type \<times> ('d, 'f) list_state option" where
  "linked_list_add elem data_obj dealloc list_data =
     (case list_data of
        None \<Rightarrow> Inr (eLINKED_LIST_INVALID_HANDLE, None)
      | Some s \<Rightarrow> (case data_obj of
          None \<Rightarrow> Inr (eLINKED_LIST_INVALID_PARAMETER, Some s)
        | Some d \<Rightarrow> (case elem of
            None \<Rightarrow> Inr (eLINKED_LIST_FAILURE_GENERAL, Some s)
          | Some a \<Rightarrow>
              let h = (elems_of s)(a \<mapsto> \<lparr>le_next = None, le_prev = None, data_ptr = d, dealloc_func = dealloc\<rparr>); tmp = p_head s
              in bnd (store_cell (Some a) (\<lambda>e. e\<lparr>le_next := tmp\<rparr>) h) (\<lambda>h.
                 if tmp \<noteq> None
                 then bnd (store_cell tmp (\<lambda>e. e\<lparr>le_prev := Some a\<rparr>) h) (\<lambda>h. Inr (eLINKED_LIST_SUCCESS, Some (s\<lparr>p_head := Some a, elems_of := h\<rparr>)))
                 else Inr (eLINKED_LIST_SUCCESS, Some (s\<lparr>p_head := Some a, p_tail := Some a, elems_of := h\<rparr>))))))"

definition linked_list_remove :: "bool \<Rightarrow> ('d, 'f) list_state option \<Rightarrow> fault + linked_list_err_type \<times> 'd option \<times> ('d, 'f) list_state option" where
  "linked_list_remove out list_data =
     (case list_data of
        None \<Rightarrow> Inr (eLINKED_LIST_INVALID_HANDLE, None, None)
      | Some s \<Rightarrow>
          if \<not> out then Inr (eLINKED_LIST_INVALID_PARAMETER, None, Some s)
          else case p_tail s of
            None \<Rightarrow> Inr (eLINKED_LIST_UNAVAILABLE_RESOURCE, None, Some s)
          | Some tmp \<Rightarrow>
              bnd (load_cell (Some tmp) (elems_of s)) (\<lambda>e.
              let s = s\<lparr>p_tail := le_prev e\<rparr>
              in bnd (if p_tail s \<noteq> None
                      then bnd (store_cell (p_tail s) (\<lambda>e. e\<lparr>le_next := None\<rparr>) (elems_of s)) (\<lambda>h. Inr (s\<lparr>elems_of := h\<rparr>))
                      else Inr (s\<lparr>p_head := p_tail s\<rparr>)) (\<lambda>s.
                 bnd (load_cell (Some tmp) (elems_of s)) (\<lambda>e.
                 Inr (eLINKED_LIST_SUCCESS, Some (data_ptr e), Some (s\<lparr>elems_of := (elems_of s)(tmp := None)\<rparr>))))))"

definition linked_list_empty :: "('d, 'f) list_state option \<Rightarrow> int" where
  "linked_list_empty list_data = (case list_data of None \<Rightarrow> -3 | Some s \<Rightarrow> if p_head s = None then 1 else 0)"

partial_function (option) ll_flush_loop :: "('f \<times> 'd) list \<Rightarrow> ('d, 'f) list_state \<Rightarrow> (fault + ('f \<times> 'd) list \<times> ('d, 'f) list_state) option" where
  "ll_flush_loop calls s =
     (case p_head s of
        None \<Rightarrow> Some (Inr (calls, s))
      | Some a \<Rightarrow> (case elems_of s a of
          None \<Rightarrow> Some (Inl UseAfterFree)
        | Some e \<Rightarrow> ll_flush_loop (calls @ (case dealloc_func e of None \<Rightarrow> [] | Some f \<Rightarrow> [(f, data_ptr e)]))
                      (s\<lparr>p_head := le_next e, elems_of := (elems_of s)(a := None)\<rparr>)))"

definition linked_list_flush :: "('d, 'f) list_state option \<Rightarrow> (fault + linked_list_err_type \<times> ('f \<times> 'd) list \<times> ('d, 'f) list_state option) option" where
  "linked_list_flush list_data =
     (case list_data of
        None \<Rightarrow> Some (Inr (eLINKED_LIST_INVALID_HANDLE, [], None))
      | Some s \<Rightarrow> map_option (\<lambda>r. bnd r (\<lambda>(calls, s). Inr (eLINKED_LIST_SUCCESS, calls, Some (s\<lparr>p_tail := None\<rparr>)))) (ll_flush_loop [] s))"

text \<open>The argument is the value behind the pointer, \<open>None\<close> when the pointer to the handle is NULL; so is the new value.\<close>

definition linked_list_destroy :: "('d, 'f) list_state option option \<Rightarrow>
    (fault + linked_list_err_type \<times> ('f \<times> 'd) list \<times> ('d, 'f) list_state option option) option" where
  "linked_list_destroy list_data =
     (case list_data of
        None \<Rightarrow> Some (Inr (eLINKED_LIST_INVALID_HANDLE, [], None))
      | Some l \<Rightarrow> map_option (\<lambda>r. bnd r (\<lambda>(rc, calls, l). Inr (eLINKED_LIST_SUCCESS, calls, Some None))) (linked_list_flush l))"

text \<open>The walk: the comparison, which may have effects on a state \<open>'s\<close>, is called on the elements in order until it holds.\<close>

partial_function (option) ll_search_loop :: "('d \<Rightarrow> 's \<Rightarrow> bool \<times> 's) \<Rightarrow> (addr \<rightharpoonup> ('d, 'f) list_element) \<Rightarrow> ptr \<Rightarrow> 's \<Rightarrow> (fault + ptr \<times> 's) option" where
  "ll_search_loop equal h tmp st =
     (case tmp of
        None \<Rightarrow> Some (Inr (None, st))
      | Some a \<Rightarrow> (case h a of
          None \<Rightarrow> Some (Inl UseAfterFree)
        | Some e \<Rightarrow> (case equal (data_ptr e) st of (eq, st) \<Rightarrow> if eq then Some (Inr (Some a, st)) else ll_search_loop equal h (le_next e) st)))"

definition ll_unlink :: "addr \<Rightarrow> ('d, 'f) list_state \<Rightarrow> fault + ('d, 'f) list_state" where
  "ll_unlink a s =
     bnd (load_cell (Some a) (elems_of s)) (\<lambda>e.
     bnd (if le_prev e = None then Inr (s\<lparr>p_head := le_next e\<rparr>)
          else bnd (store_cell (le_prev e) (\<lambda>x. x\<lparr>le_next := le_next e\<rparr>) (elems_of s)) (\<lambda>h. Inr (s\<lparr>elems_of := h\<rparr>))) (\<lambda>s.
     if le_next e = None then Inr (s\<lparr>p_tail := le_prev e\<rparr>)
     else bnd (store_cell (le_next e) (\<lambda>x. x\<lparr>le_prev := le_prev e\<rparr>) (elems_of s)) (\<lambda>h. Inr (s\<lparr>elems_of := h\<rparr>))))"

definition linked_list_search :: "bool \<Rightarrow> ('d \<Rightarrow> 's \<Rightarrow> bool \<times> 's) option \<Rightarrow> bool \<Rightarrow> ('d, 'f) list_state option \<Rightarrow> 's \<Rightarrow>
    (fault + linked_list_err_type \<times> 'd option \<times> ('f \<times> 'd) list \<times> ('d, 'f) list_state option \<times> 's) option" where
  "linked_list_search out equal rm_if_found list_data st =
     (case (list_data, equal) of
        (Some s, Some eq) \<Rightarrow>
          if p_tail s = None then Some (Inr (eLINKED_LIST_UNAVAILABLE_RESOURCE, None, [], Some s, st))
          else map_option (\<lambda>r. bnd r (\<lambda>(found, st).
            case found of
              None \<Rightarrow> Inr (eLINKED_LIST_SUCCESS, None, [], Some s, st)
            | Some a \<Rightarrow>
                bnd (load_cell (Some a) (elems_of s)) (\<lambda>e.
                let res = (if out then Some (data_ptr e) else None)
                in if \<not> rm_if_found then Inr (eLINKED_LIST_SUCCESS, res, [], Some s, st)
                   else bnd (ll_unlink a s) (\<lambda>s.
                     Inr (eLINKED_LIST_SUCCESS, res, if out then [] else (case dealloc_func e of None \<Rightarrow> [] | Some f \<Rightarrow> [(f, data_ptr e)]),
                          Some (s\<lparr>elems_of := (elems_of s)(a := None)\<rparr>), st)))))
            (ll_search_loop eq (elems_of s) (p_head s) st)
      | _ \<Rightarrow> Some (Inr (eLINKED_LIST_INVALID_HANDLE, None, [], list_data, st)))"

section \<open>The list it stands for\<close>

text \<open>The operations on a list that clients reason with. A search gives the element found and what is left.\<close>

fun list_search :: "('a \<Rightarrow> 's \<Rightarrow> bool \<times> 's) \<Rightarrow> bool \<Rightarrow> 'a list \<Rightarrow> 's \<Rightarrow> 'a option \<times> 'a list \<times> 's" where
  "list_search equal rm_if_found [] s = (None, [], s)"
| "list_search equal rm_if_found (x # xs) s =
     (case equal x s of
        (True, s1) \<Rightarrow> (Some x, if rm_if_found then xs else x # xs, s1)
      | (False, s1) \<Rightarrow> (let (found, ys, s2) = list_search equal rm_if_found xs s1 in (found, x # ys, s2)))"

definition list_add :: "'a \<Rightarrow> 'a list \<Rightarrow> 'a list" where
  "list_add x xs = x # xs"

definition list_empty :: "'a list \<Rightarrow> bool" where
  "list_empty xs = (xs = [])"

definition list_flush :: "'a list \<Rightarrow> 'a list" where
  "list_flush xs = []"

lemmas list_ops [simp] = list_add_def list_empty_def list_flush_def

interpretation ll: links le_next le_prev "\<lambda>p e. e\<lparr>le_next := p\<rparr>" "\<lambda>p e. e\<lparr>le_prev := p\<rparr>"
  by unfold_locales simp_all

definition payload :: "('d, 'f) list_element \<Rightarrow> 'd \<times> 'f option" where
  "payload e = (data_ptr e, dealloc_func e)"

definition contents :: "(addr \<rightharpoonup> ('d, 'f) list_element) \<Rightarrow> addr list \<Rightarrow> ('d \<times> 'f option) list" where
  "contents h as = map (\<lambda>a. payload (the (h a))) as"

text \<open>The cells \<open>as\<close> of the list, head first, and nothing else, are in its heap.\<close>

definition ll_cells :: "('d, 'f) list_state \<Rightarrow> addr list \<Rightarrow> bool" where
  "ll_cells s as \<longleftrightarrow> ll.seg (elems_of s) None as None \<and> distinct as \<and> p_head s = firstp as None \<and> p_tail s = lastp as None \<and> dom (elems_of s) = set as"

definition ll_rep :: "('d, 'f) list_state \<Rightarrow> ('d \<times> 'f option) list \<Rightarrow> bool" where
  "ll_rep s xs \<longleftrightarrow> (\<exists>as. ll_cells s as \<and> xs = contents (elems_of s) as)"

lemma ll_rep_unique: "ll_rep s xs \<Longrightarrow> ll_rep s ys \<Longrightarrow> xs = ys"
  by (auto simp: ll_rep_def ll_cells_def dest: ll.seg_unique)

lemma contents_simps [simp]: "contents h [] = []" "contents h (a # as) = payload (the (h a)) # contents h as" "contents h (as @ bs) = contents h as @ contents h bs"
  by (simp_all add: contents_def)

lemma contents_cong:
  assumes "\<And>a. a \<in> set as \<Longrightarrow> map_option payload (h' a) = map_option payload (h a)" "set as \<subseteq> dom h"
  shows "contents h' as = contents h as"
  unfolding contents_def
proof (rule map_cong)
  fix a assume a: "a \<in> set as"
  then obtain e where "h a = Some e" using assms(2) by auto
  then show "payload (the (h' a)) = payload (the (h a))" using assms(1)[OF a] by auto
qed simp

lemma contents_upd [simp]: "a \<notin> set as \<Longrightarrow> contents (h(a := x)) as = contents h as"
  by (simp add: contents_def)

lemma linked_list_init_rep: "linked_list_init True True = (eLINKED_LIST_SUCCESS, Some s) \<Longrightarrow> ll_rep s []"
  by (auto simp: linked_list_init_def ll_rep_def ll_cells_def intro!: exI[of _ "[]"])

lemma linked_list_add_rep:
  assumes rep: "ll_rep s xs" and a: "elems_of s a = None"
  shows "\<exists>s'. linked_list_add (Some a) (Some d) f (Some s) = Inr (eLINKED_LIST_SUCCESS, Some s') \<and> ll_rep s' ((d, f) # xs)"
proof -
  obtain as where as: "ll_cells s as" "xs = contents (elems_of s) as" using rep by (auto simp: ll_rep_def)
  let ?e = "\<lparr>le_next = p_head s, le_prev = None, data_ptr = d, dealloc_func = f\<rparr>"
  have n: "a \<notin> set as" using as(1) a by (auto simp: ll_cells_def)
  show ?thesis
  proof (cases as)
    case Nil
    let ?s = "s\<lparr>p_head := Some a, p_tail := Some a, elems_of := (elems_of s)(a \<mapsto> ?e)\<rparr>"
    have "ll_cells ?s [a]" "contents (elems_of ?s) [a] = [(d, f)]" using as(1) Nil by (simp_all add: ll_cells_def payload_def)
    then have "ll_rep ?s ((d, f) # xs)" using as(2) Nil unfolding ll_rep_def by (metis contents_simps(1))
    then show ?thesis using as(1) Nil by (simp add: linked_list_add_def ll_cells_def)
  next
    case (Cons b bs)
    obtain eb where eb: "elems_of s b = Some eb" "le_prev eb = None" "le_next eb = firstp bs None" using as(1) Cons by (auto simp: ll_cells_def)
    let ?h = "(elems_of s)(a \<mapsto> ?e, b \<mapsto> eb\<lparr>le_prev := Some a\<rparr>)" let ?s = "s\<lparr>p_head := Some a, elems_of := ?h\<rparr>"
    have "ll_cells ?s (a # as)" using as(1) Cons n eb by (auto simp: ll_cells_def)
    moreover have "contents ?h (a # as) = (d, f) # xs" using as Cons n eb by (auto simp: payload_def ll_cells_def)
    ultimately have "ll_rep ?s ((d, f) # xs)" unfolding ll_rep_def by (intro exI[of _ "a # as"]) simp
    then show ?thesis using as(1) Cons n eb by (auto simp: linked_list_add_def ll_cells_def Let_def)
  qed
qed

lemma linked_list_remove_rep:
  assumes rep: "ll_rep s (xs @ [(d, f)])"
  shows "\<exists>s'. linked_list_remove True (Some s) = Inr (eLINKED_LIST_SUCCESS, Some d, Some s') \<and> ll_rep s' xs"
proof -
  obtain bs a where as: "ll_cells s (bs @ [a])" "xs = contents (elems_of s) bs" "payload (the (elems_of s a)) = (d, f)"
  proof -
    obtain as where as: "ll_cells s as" "xs @ [(d, f)] = contents (elems_of s) as" using rep by (auto simp: ll_rep_def)
    show ?thesis using as that by (cases as rule: rev_cases) auto
  qed
  obtain e where e: "elems_of s a = Some e" "le_prev e = lastp bs None" using as(1) by (auto simp: ll_cells_def ll.seg_append)
  have n: "a \<notin> set bs" using as(1) by (simp add: ll_cells_def)
  show ?thesis
  proof (cases bs rule: rev_cases)
    case Nil
    let ?s = "s\<lparr>p_tail := None, p_head := None, elems_of := (elems_of s)(a := None)\<rparr>"
    have "ll_cells ?s []" using as(1) Nil by (auto simp: ll_cells_def)
    then have "ll_rep ?s xs" using as(2) Nil unfolding ll_rep_def by fastforce
    then show ?thesis using as Nil e by (simp add: linked_list_remove_def ll_cells_def payload_def)
  next
    case (snoc cs c)
    obtain ec where ec: "elems_of s c = Some ec" "le_prev ec = lastp cs None" using as(1) snoc by (auto simp: ll_cells_def ll.seg_append)
    let ?h = "(elems_of s)(c \<mapsto> ec\<lparr>le_next := None\<rparr>)" let ?s = "s\<lparr>p_tail := Some c, elems_of := ?h(a := None)\<rparr>"
    have ca: "c \<noteq> a" using n snoc by auto
    have "ll.seg ?h None (cs @ [c]) None"
      using ll.seg_set_nxt[of "elems_of s" None cs c "Some a" ec None] as(1) snoc ec(1) by (auto simp: ll_cells_def ll.seg_append)
    then have "ll_cells ?s bs" using as(1) snoc n ca ec(1) by (auto simp: ll_cells_def)
    moreover have "contents (elems_of ?s) bs = xs" using as(1,2) snoc n ec(1) by (auto simp: payload_def ll_cells_def)
    ultimately have "ll_rep ?s xs" unfolding ll_rep_def by metis
    then show ?thesis using as e ec ca snoc by (simp add: linked_list_remove_def ll_cells_def payload_def)
  qed
qed

lemma linked_list_remove_empty: "ll_rep s [] \<Longrightarrow> linked_list_remove True (Some s) = Inr (eLINKED_LIST_UNAVAILABLE_RESOURCE, None, Some s)"
  by (auto simp: ll_rep_def ll_cells_def linked_list_remove_def contents_def)

lemma ll_rep_ends:
  assumes "ll_rep s xs"
  shows "p_head s = None \<longleftrightarrow> xs = []" "p_tail s = None \<longleftrightarrow> xs = []"
proof -
  obtain as where as: "ll_cells s as" "xs = contents (elems_of s) as" using assms by (auto simp: ll_rep_def)
  then show "p_head s = None \<longleftrightarrow> xs = []" "p_tail s = None \<longleftrightarrow> xs = []" by (simp_all add: ll_cells_def contents_def)
qed

lemma linked_list_empty_rep: "ll_rep s xs \<Longrightarrow> linked_list_empty (Some s) = (if xs = [] then 1 else 0)"
  using ll_rep_ends(1)[of s xs] by (simp add: linked_list_empty_def)

text \<open>Flushing calls the deallocation functions from the head on and frees every cell.\<close>

definition deallocs :: "('d \<times> 'f option) list \<Rightarrow> ('f \<times> 'd) list" where
  "deallocs xs = concat (map (\<lambda>(d, f). case f of None \<Rightarrow> [] | Some g \<Rightarrow> [(g, d)]) xs)"

lemma deallocs_simps [simp]: "deallocs [] = []" "deallocs ((d, f) # xs) = (case f of None \<Rightarrow> [] | Some g \<Rightarrow> [(g, d)]) @ deallocs xs"
  by (simp_all add: deallocs_def)

lemma ll_flush_loop_rep:
  assumes "ll.seg (elems_of s) pv as None" "distinct as" "p_head s = firstp as None" "dom (elems_of s) = set as"
  shows "ll_flush_loop calls s = Some (Inr (calls @ deallocs (contents (elems_of s) as), s\<lparr>p_head := None, elems_of := Map.empty\<rparr>))"
  using assms
proof (induction as arbitrary: s pv calls)
  case Nil
  then show ?case by (subst ll_flush_loop.simps) simp
next
  case (Cons a as)
  obtain e where e: "elems_of s a = Some e" "le_next e = firstp as None" using Cons.prems(1) by auto
  let ?s = "s\<lparr>p_head := le_next e, elems_of := (elems_of s)(a := None)\<rparr>"
  have "ll_flush_loop c ?s = Some (Inr (c @ deallocs (contents (elems_of ?s) as), ?s\<lparr>p_head := None, elems_of := Map.empty\<rparr>))" for c
  proof (rule Cons.IH)
    show "ll.seg (elems_of ?s) (Some a) as None" using Cons.prems(1,2) by simp
    have "dom ((elems_of s)(a := None)) = set as" using Cons.prems(2,4) by auto
    then show "dom (elems_of ?s) = set as" by simp
  qed (use Cons.prems e in simp_all)
  then show ?case using Cons.prems e by (subst ll_flush_loop.simps) (simp add: payload_def)
qed

lemma linked_list_flush_rep:
  assumes "ll_rep s xs"
  shows "\<exists>s'. linked_list_flush (Some s) = Some (Inr (eLINKED_LIST_SUCCESS, deallocs xs, Some s')) \<and> ll_rep s' []"
proof -
  obtain as where as: "ll_cells s as" "xs = contents (elems_of s) as" using assms by (auto simp: ll_rep_def)
  let ?s = "s\<lparr>p_head := None, elems_of := Map.empty, p_tail := None\<rparr>"
  have "ll_flush_loop [] s = Some (Inr (deallocs xs, s\<lparr>p_head := None, elems_of := Map.empty\<rparr>))"
    using ll_flush_loop_rep[of s None as "[]"] as by (simp add: ll_cells_def)
  moreover have "ll_cells ?s []" by (simp add: ll_cells_def)
  then have "ll_rep ?s []" unfolding ll_rep_def by fastforce
  ultimately show ?thesis by (simp add: linked_list_flush_def)
qed

section \<open>Search\<close>

text \<open>Where the walk stops: at the first cell on which the comparison holds, or nowhere.\<close>

lemma ll_search_loop_rep:
  assumes "ll.seg h pv as None"
  shows "\<exists>p st'. ll_search_loop equal h (firstp as None) st = Some (Inr (p, st')) \<and>
    (case p of
       None \<Rightarrow> (\<forall>rm. list_search (\<lambda>x. equal (fst x)) rm (contents h as) st = (None, contents h as, st'))
     | Some a \<Rightarrow> (\<exists>bs cs. as = bs @ a # cs \<and> (\<forall>rm. list_search (\<lambda>x. equal (fst x)) rm (contents h as) st =
         (Some (payload (the (h a))), contents h bs @ (if rm then [] else [payload (the (h a))]) @ contents h cs, st'))))"
  using assms
proof (induction as arbitrary: pv st)
  case Nil
  then show ?case by (subst ll_search_loop.simps) simp
next
  case (Cons a as)
  obtain e where e: "h a = Some e" "le_next e = firstp as None" using Cons.prems by auto
  obtain eq st1 where q: "equal (data_ptr e) st = (eq, st1)" by (cases "equal (data_ptr e) st")
  have f: "equal (fst (payload e)) st = (eq, st1)" using q by (simp add: payload_def)
  show ?case
  proof (cases eq)
    case True
    then have "ll_search_loop equal h (firstp (a # as) None) st = Some (Inr (Some a, st1))" using e q by (subst ll_search_loop.simps) simp
    moreover have "\<exists>bs cs. a # as = bs @ a # cs \<and> (\<forall>rm. list_search (\<lambda>x. equal (fst x)) rm (contents h (a # as)) st =
        (Some (payload (the (h a))), contents h bs @ (if rm then [] else [payload (the (h a))]) @ contents h cs, st1))"
      using True e f by (intro exI[of _ "[]"] exI[of _ as]) simp
    ultimately show ?thesis by auto
  next
    case False
    then have l: "ll_search_loop equal h (firstp (a # as) None) st = ll_search_loop equal h (firstp as None) st1" using e q by (subst ll_search_loop.simps) simp
    have s: "list_search (\<lambda>x. equal (fst x)) rm (contents h (a # as)) st =
        (let (found, ys, s2) = list_search (\<lambda>x. equal (fst x)) rm (contents h as) st1 in (found, payload e # ys, s2))" for rm
      using False e f by simp
    obtain p st' where p: "ll_search_loop equal h (firstp as None) st1 = Some (Inr (p, st'))"
      "case p of None \<Rightarrow> (\<forall>rm. list_search (\<lambda>x. equal (fst x)) rm (contents h as) st1 = (None, contents h as, st'))
       | Some b \<Rightarrow> (\<exists>bs cs. as = bs @ b # cs \<and> (\<forall>rm. list_search (\<lambda>x. equal (fst x)) rm (contents h as) st1 =
         (Some (payload (the (h b))), contents h bs @ (if rm then [] else [payload (the (h b))]) @ contents h cs, st')))"
      using Cons.IH[of "Some a" st1] Cons.prems by auto
    show ?thesis
    proof (cases p)
      case None
      then show ?thesis using p l s e(1) by simp
    next
      case (Some b)
      then obtain bs cs where "as = bs @ b # cs" "\<And>rm. list_search (\<lambda>x. equal (fst x)) rm (contents h as) st1 =
         (Some (payload (the (h b))), contents h bs @ (if rm then [] else [payload (the (h b))]) @ contents h cs, st')" using p(2) by auto
      then have "\<exists>bs cs. a # as = bs @ b # cs \<and> (\<forall>rm. list_search (\<lambda>x. equal (fst x)) rm (contents h (a # as)) st =
         (Some (payload (the (h b))), contents h bs @ (if rm then [] else [payload (the (h b))]) @ contents h cs, st'))"
        using s e(1) by (intro exI[of _ "a # bs"] exI[of _ cs]) simp
      then show ?thesis using p(1) l Some by auto
    qed
  qed
qed

text \<open>Unlinking a cell in the middle joins its neighbours.\<close>

lemma ll_unlink_rep:
  assumes as: "ll_cells s (bs @ a # cs)"
  shows "\<exists>s'. ll_unlink a s = Inr s' \<and> ll_cells (s'\<lparr>elems_of := (elems_of s')(a := None)\<rparr>) (bs @ cs) \<and>
    contents ((elems_of s')(a := None)) (bs @ cs) = contents (elems_of s) bs @ contents (elems_of s) cs"
proof -
  let ?h = "elems_of s"
  have seg: "ll.seg ?h None bs (Some a)" "ll.seg ?h (Some a) cs None" and d: "distinct bs" "distinct cs" "a \<notin> set bs" "a \<notin> set cs" "set bs \<inter> set cs = {}"
    and dm: "dom ?h = insert a (set bs \<union> set cs)" using as by (auto simp: ll_cells_def ll.seg_append)
  obtain e where e: "?h a = Some e" "le_prev e = lastp bs None" "le_next e = firstp cs None" using as by (auto simp: ll_cells_def ll.seg_append)
  let ?h1 = "ll.join bs (firstp cs None) ?h" let ?h2 = "ll.rejoin (lastp bs None) cs ?h1"
  let ?s = "s\<lparr>p_head := firstp (bs @ cs) None, p_tail := lastp (bs @ cs) None, elems_of := ?h2\<rparr>"
  have s1: "ll.seg ?h1 (Some a) cs None" using seg(2) ll.seg_cong[of cs ?h1 ?h] ll.join_frame(1)[of _ bs] d(5) by blast
  have s2: "ll.seg ?h1 None bs (firstp cs None)" using ll.seg_join[OF seg(1) d(1)] .
  have s3: "ll.seg ?h2 (lastp bs None) cs None" using ll.seg_rejoin[OF s1 d(2)] .
  have s4: "ll.seg ?h2 None bs (firstp cs None)" using s2 ll.seg_cong[of bs ?h2 ?h1] ll.join_frame(2)[of _ cs] d(5) by blast
  have dm2: "dom ?h2 = dom ?h" using ll.dom_join(2)[OF s1] ll.dom_join(1)[OF seg(1)] by simp
  have r: "ll_unlink a s = Inr ?s"
  proof -
    have u1: "(if le_prev e = None then Inr (s\<lparr>p_head := le_next e\<rparr>) else bnd (store_cell (le_prev e) (\<lambda>x. x\<lparr>le_next := le_next e\<rparr>) ?h) (\<lambda>h. Inr (s\<lparr>elems_of := h\<rparr>))) =
        Inr (s\<lparr>p_head := firstp (bs @ cs) None, elems_of := ?h1\<rparr>)"
    proof (cases bs rule: rev_cases)
      case Nil
      then show ?thesis using e by (simp add: ll.join_def)
    next
      case (snoc xs x)
      then obtain ex where "?h x = Some ex" using ll.seg_live[OF seg(1)] by auto
      moreover have "p_head s = firstp (bs @ cs) None" using as snoc by (cases xs) (simp_all add: ll_cells_def)
      ultimately show ?thesis using e snoc by (simp add: ll.join_def)
    qed
    let ?s1 = "s\<lparr>p_head := firstp (bs @ cs) None, elems_of := ?h1\<rparr>"
    have u2: "(if le_next e = None then Inr (?s1\<lparr>p_tail := le_prev e\<rparr>) else bnd (store_cell (le_next e) (\<lambda>x. x\<lparr>le_prev := le_prev e\<rparr>) (elems_of ?s1)) (\<lambda>h. Inr (?s1\<lparr>elems_of := h\<rparr>))) = Inr ?s"
    proof (cases cs)
      case Nil
      then show ?thesis using e by (simp add: ll.rejoin_def)
    next
      case (Cons y ys)
      then obtain ey where "?h1 y = Some ey" using ll.seg_live[OF s1] by auto
      moreover have "p_tail s = lastp (bs @ cs) None" using as Cons by (cases ys rule: rev_cases) (simp_all add: ll_cells_def)
      ultimately show ?thesis using e Cons by (simp add: ll.rejoin_def)
    qed
    have l: "load_cell (Some a) ?h = Inr e" using e(1) by simp
    show ?thesis unfolding ll_unlink_def l bnd_simps u1 by (rule u2)
  qed
  have "ll_cells (?s\<lparr>elems_of := ?h2(a := None)\<rparr>) (bs @ cs)" using s3 s4 d dm dm2 by (auto simp: ll_cells_def ll.seg_append)
  moreover have "contents (?h2(a := None)) (bs @ cs) = contents ?h (bs @ cs)"
  proof -
    have "map_option payload (?h2 x) = map_option payload (?h x)" for x
      using ll.join_same[of payload, OF _ _ s1] ll.join_same[of payload, OF _ _ seg(1)] by (simp add: payload_def)
    then have "contents ?h2 (bs @ cs) = contents ?h (bs @ cs)" using dm by (intro contents_cong) auto
    then show ?thesis using d by simp
  qed
  ultimately show ?thesis using r by (intro exI[of _ ?s]) simp
qed

text \<open>The search does what the search on the list does; an element that is taken out without being handed over is deallocated.\<close>

lemma linked_list_search_rep:
  assumes rep: "ll_rep s xs" and ls: "list_search (\<lambda>x. equal (fst x)) rm xs st = (found, ys, st')"
  shows "\<exists>s'. linked_list_search out (Some equal) rm (Some s) st =
      Some (Inr (if xs = [] then eLINKED_LIST_UNAVAILABLE_RESOURCE else eLINKED_LIST_SUCCESS, if out then map_option fst found else None,
        if rm \<and> \<not> out then deallocs (case found of None \<Rightarrow> [] | Some x \<Rightarrow> [x]) else [], Some s', st')) \<and> ll_rep s' ys"
proof (cases "xs = []")
  case True
  then show ?thesis using rep ls ll_rep_ends(2)[OF rep] by (auto simp: linked_list_search_def)
next
  case False
  obtain as where as: "ll_cells s as" "xs = contents (elems_of s) as" using rep by (auto simp: ll_rep_def)
  have t: "p_tail s \<noteq> None" using ll_rep_ends(2)[OF rep] False by simp
  have seg: "ll.seg (elems_of s) None as None" "p_head s = firstp as None" using as(1) by (simp_all add: ll_cells_def)
  obtain p st2 where p: "ll_search_loop equal (elems_of s) (p_head s) st = Some (Inr (p, st2))"
    "case p of None \<Rightarrow> (\<forall>rm. list_search (\<lambda>x. equal (fst x)) rm (contents (elems_of s) as) st = (None, contents (elems_of s) as, st2))
     | Some a \<Rightarrow> (\<exists>bs cs. as = bs @ a # cs \<and> (\<forall>rm. list_search (\<lambda>x. equal (fst x)) rm (contents (elems_of s) as) st =
       (Some (payload (the (elems_of s a))), contents (elems_of s) bs @ (if rm then [] else [payload (the (elems_of s a))]) @ contents (elems_of s) cs, st2)))"
    using ll_search_loop_rep[OF seg(1), of equal st] unfolding seg(2) by blast
  show ?thesis
  proof (cases p)
    case None
    then have "found = None" "ys = xs" "st' = st2" using p(2) ls as(2) by simp_all
    then show ?thesis using None p(1) t False rep by (simp add: linked_list_search_def)
  next
    case (Some a)
    then obtain bs cs where b: "as = bs @ a # cs" "list_search (\<lambda>x. equal (fst x)) rm (contents (elems_of s) as) st =
       (Some (payload (the (elems_of s a))), contents (elems_of s) bs @ (if rm then [] else [payload (the (elems_of s a))]) @ contents (elems_of s) cs, st2)"
      using p(2) by auto
    obtain e where e: "elems_of s a = Some e" using as(1) b(1) by (auto simp: ll_cells_def)
    have f: "found = Some (payload e)" "st' = st2" "ys = contents (elems_of s) bs @ (if rm then [] else [payload e]) @ contents (elems_of s) cs"
      using b(2) ls as(2) e by auto
    show ?thesis
    proof (cases rm)
      case False2: False
      then have "ys = xs" using f(3) as(2) b(1) e by simp
      then show ?thesis using False2 Some p(1) t False rep f(1,2) e by (simp add: linked_list_search_def payload_def)
    next
      case True
      obtain s1 where u: "ll_unlink a s = Inr s1" "ll_cells (s1\<lparr>elems_of := (elems_of s1)(a := None)\<rparr>) (bs @ cs)"
        "contents ((elems_of s1)(a := None)) (bs @ cs) = contents (elems_of s) bs @ contents (elems_of s) cs"
        using ll_unlink_rep[of s bs a cs] as(1) b(1) by blast
      have "ll_rep (s1\<lparr>elems_of := (elems_of s1)(a := None)\<rparr>) ys" unfolding ll_rep_def using u(2,3) f(3) True by (intro exI[of _ "bs @ cs"]) simp
      then show ?thesis using True Some p(1) t False f(1,2) e u(1) by (simp add: linked_list_search_def payload_def)
    qed
  qed
qed

section \<open>Scripts\<close>

text \<open>Operations on a list: adding (with or without memory), taking the oldest, searching, flushing, asking whether it is empty. An
  answer is the code, the data and the deallocations.\<close>

datatype ('d, 'f, 's) ll_op = LAdd bool "'d option" "'f option" | LRemove | LSearch bool "'d \<Rightarrow> 's \<Rightarrow> bool \<times> 's" bool | LFlush | LEmpty

type_synonym ('d, 'f) ll_answer = "int \<times> linked_list_err_type \<times> 'd option \<times> ('f \<times> 'd) list"

fun ll_exec :: "((addr \<rightharpoonup> ('d, 'f) list_element) \<Rightarrow> addr) \<Rightarrow> ('d, 'f, 's) ll_op \<Rightarrow> ('d, 'f) list_state option \<times> 's \<Rightarrow>
    (fault + ('d, 'f) ll_answer \<times> ('d, 'f) list_state option \<times> 's) option" where
  "ll_exec alloc (LAdd mem d f) (l, st) = Some (bnd (linked_list_add (if mem then Some (alloc (elems_of (the l))) else None) d f l) (\<lambda>(rc, l).
     Inr ((0, rc, None, []), l, st)))"
| "ll_exec alloc LRemove (l, st) = Some (bnd (linked_list_remove True l) (\<lambda>(rc, d, l). Inr ((0, rc, d, []), l, st)))"
| "ll_exec alloc (LSearch out eq rm) (l, st) = map_option (\<lambda>r. bnd r (\<lambda>(rc, d, calls, l, st). Inr ((0, rc, d, calls), l, st))) (linked_list_search out (Some eq) rm l st)"
| "ll_exec alloc LFlush (l, st) = map_option (\<lambda>r. bnd r (\<lambda>(rc, calls, l). Inr ((0, rc, None, calls), l, st))) (linked_list_flush l)"
| "ll_exec alloc LEmpty (l, st) = Some (Inr ((linked_list_empty l, eLINKED_LIST_SUCCESS, None, []), l, st))"

text \<open>The same on a list, newest first.\<close>

fun list_exec :: "('d, 'f, 's) ll_op \<Rightarrow> ('d \<times> 'f option) list \<times> 's \<Rightarrow> ('d, 'f) ll_answer \<times> ('d \<times> 'f option) list \<times> 's" where
  "list_exec (LAdd mem d f) (xs, st) = (case d of
       None \<Rightarrow> ((0, eLINKED_LIST_INVALID_PARAMETER, None, []), xs, st)
     | Some d \<Rightarrow> if mem then ((0, eLINKED_LIST_SUCCESS, None, []), list_add (d, f) xs, st) else ((0, eLINKED_LIST_FAILURE_GENERAL, None, []), xs, st))"
| "list_exec LRemove (xs, st) = (if xs = [] then ((0, eLINKED_LIST_UNAVAILABLE_RESOURCE, None, []), xs, st)
     else ((0, eLINKED_LIST_SUCCESS, Some (fst (last xs)), []), butlast xs, st))"
| "list_exec (LSearch out eq rm) (xs, st) = (case list_search (\<lambda>x. eq (fst x)) rm xs st of (found, ys, st) \<Rightarrow>
     ((0, if xs = [] then eLINKED_LIST_UNAVAILABLE_RESOURCE else eLINKED_LIST_SUCCESS, if out then map_option fst found else None,
       if rm \<and> \<not> out then deallocs (case found of None \<Rightarrow> [] | Some x \<Rightarrow> [x]) else []), ys, st))"
| "list_exec LFlush (xs, st) = ((0, eLINKED_LIST_SUCCESS, None, deallocs xs), list_flush xs, st)"
| "list_exec LEmpty (xs, st) = ((if list_empty xs then 1 else 0, eLINKED_LIST_SUCCESS, None, []), xs, st)"

fun ll_script :: "((addr \<rightharpoonup> ('d, 'f) list_element) \<Rightarrow> addr) \<Rightarrow> ('d, 'f, 's) ll_op list \<Rightarrow> ('d, 'f) list_state option \<times> 's \<Rightarrow>
    (fault + ('d, 'f) ll_answer list \<times> ('d, 'f) list_state option \<times> 's) option" where
  "ll_script alloc [] st = Some (Inr ([], st))"
| "ll_script alloc (op # ops) st = (case ll_exec alloc op st of
     None \<Rightarrow> None
   | Some (Inl e) \<Rightarrow> Some (Inl e)
   | Some (Inr (r, st)) \<Rightarrow> map_option (\<lambda>q. bnd q (\<lambda>(rs, st). Inr (r # rs, st))) (ll_script alloc ops st))"

fun list_script :: "('d, 'f, 's) ll_op list \<Rightarrow> ('d \<times> 'f option) list \<times> 's \<Rightarrow> ('d, 'f) ll_answer list \<times> ('d \<times> 'f option) list \<times> 's" where
  "list_script [] st = ([], st)"
| "list_script (op # ops) st = (case list_exec op st of (r, st) \<Rightarrow> (case list_script ops st of (rs, st) \<Rightarrow> (r # rs, st)))"

lemma ll_rep_finite: "ll_rep s xs \<Longrightarrow> finite (dom (elems_of s))"
  by (auto simp: ll_rep_def ll_cells_def)

text \<open>An allocator gives addresses that are not in use.\<close>

definition fresh_alloc :: "((addr \<rightharpoonup> 'c) \<Rightarrow> addr) \<Rightarrow> bool" where
  "fresh_alloc alloc \<longleftrightarrow> (\<forall>h. finite (dom h) \<longrightarrow> h (alloc h) = None)"

lemma ll_exec_rep:
  assumes al: "fresh_alloc alloc" and rep: "ll_rep s xs"
  shows "\<exists>s'. ll_exec alloc op (Some s, st) = Some (Inr (fst (list_exec op (xs, st)), Some s', snd (snd (list_exec op (xs, st))))) \<and>
    ll_rep s' (fst (snd (list_exec op (xs, st))))"
proof (cases op)
  case (LAdd mem d f)
  have a: "elems_of s (alloc (elems_of s)) = None" using al ll_rep_finite[OF rep] by (simp add: fresh_alloc_def)
  show ?thesis
  proof (cases "mem \<and> d \<noteq> None")
    case True
    then obtain x where x: "d = Some x" mem by auto
    show ?thesis using LAdd x linked_list_add_rep[OF rep a, of x f] by auto
  next
    case False
    then show ?thesis using LAdd rep by (cases d) (auto simp: linked_list_add_def)
  qed
next
  case LRemove
  show ?thesis
  proof (cases xs rule: rev_cases)
    case Nil
    then show ?thesis using LRemove rep linked_list_remove_empty[of s] by simp
  next
    case (snoc ys y)
    then show ?thesis using LRemove linked_list_remove_rep[of s ys "fst y" "snd y"] rep by auto
  qed
next
  case (LSearch out eq rm)
  obtain found ys st' where ls: "list_search (\<lambda>x. eq (fst x)) rm xs st = (found, ys, st')" by (metis prod_cases3)
  show ?thesis using LSearch ls linked_list_search_rep[OF rep ls, of out] by auto
next
  case LFlush
  then show ?thesis using linked_list_flush_rep[OF rep] by auto
next
  case LEmpty
  then show ?thesis using linked_list_empty_rep[OF rep] rep by auto
qed

lemma ll_script_rep:
  assumes al: "fresh_alloc alloc" and rep: "ll_rep s ys"
  shows "\<exists>s'. ll_script alloc ops (Some s, st) = Some (Inr (fst (list_script ops (ys, st)), Some s', snd (snd (list_script ops (ys, st))))) \<and>
    ll_rep s' (fst (snd (list_script ops (ys, st))))"
  using rep
proof (induction ops arbitrary: s ys st)
  case (Cons op ops)
  obtain s1 where 1: "ll_exec alloc op (Some s, st) = Some (Inr (fst (list_exec op (ys, st)), Some s1, snd (snd (list_exec op (ys, st)))))"
    "ll_rep s1 (fst (snd (list_exec op (ys, st))))" using ll_exec_rep[OF al Cons.prems, of op st] by blast
  obtain r zs st1 where e: "list_exec op (ys, st) = (r, zs, st1)" by (metis prod_cases3)
  obtain rs ws st2 where l: "list_script ops (zs, st1) = (rs, ws, st2)" by (metis prod_cases3)
  obtain s2 where "ll_script alloc ops (Some s1, st1) = Some (Inr (rs, Some s2, st2))" "ll_rep s2 ws"
    using Cons.IH[of s1 zs st1] 1(2) e l by auto
  then show ?case using 1(1) e l by simp
qed simp

text \<open>C27. A list that was initialised answers every script of operations as a plain list does: added elements come first, the oldest is
  taken, a search finds the first element that matches, calls the comparison on no other than those before it, and takes out just that
  one. No operation follows a dangling link, every one returns, and the cells in memory are exactly those of the elements that are left.\<close>

theorem linked_list_refines:
  assumes al: "fresh_alloc alloc"
    and l: "linked_list_init True True = (eLINKED_LIST_SUCCESS, l)" and ls: "list_script ops ([], st) = (rs, xs, st')"
  shows "\<exists>s'. ll_script alloc ops (l, st) = Some (Inr (rs, Some s', st')) \<and> ll_rep s' xs \<and> card (dom (elems_of s')) = length xs"
proof -
  obtain s0 where s0: "l = Some s0" "ll_rep s0 []" using l linked_list_init_rep by (auto simp: linked_list_init_def)
  obtain s' where s': "ll_script alloc ops (l, st) = Some (Inr (rs, Some s', st'))" "ll_rep s' xs"  using ll_script_rep[OF al s0(2), of ops st] ls s0(1) by auto
  then obtain as where as: "ll_cells s' as" "xs = contents (elems_of s') as" by (auto simp: ll_rep_def)
  then have "card (dom (elems_of s')) = length xs" by (simp add: ll_cells_def distinct_card contents_def)
  then show ?thesis using s' by blast
qed

definition ex_alloc :: "(addr \<rightharpoonup> 'c) \<Rightarrow> addr" where
  "ex_alloc h = Suc (Max (insert 0 (dom h)))"

lemma fresh_ex_alloc: "fresh_alloc ex_alloc"
proof -
  have "Suc (Max (insert 0 (dom h))) \<notin> dom h" if "finite (dom h)" for h :: "addr \<rightharpoonup> 'c"
    using that Max_ge[of "insert 0 (dom h)"] by (metis Suc_n_not_le_n finite_insert insertCI)
  then show ?thesis by (auto simp: fresh_alloc_def ex_alloc_def)
qed

theorem linked_list_refines_witness:
  "\<exists>s'. ll_script ex_alloc [LAdd True (Some (7 :: nat)) (Some ''free''), LAdd True (Some 8) None, LAdd True (Some 9) None, LSearch False (\<lambda>d st. (d = 8, ())) True, LRemove]
      (Some \<lparr>p_head = None, p_tail = None, elems_of = Map.empty\<rparr>, ()) =
    Some (Inr ([(0, eLINKED_LIST_SUCCESS, None, []), (0, eLINKED_LIST_SUCCESS, None, []), (0, eLINKED_LIST_SUCCESS, None, []),
      (0, eLINKED_LIST_SUCCESS, None, []), (0, eLINKED_LIST_SUCCESS, Some 7, [])], Some s', ())) \<and> card (dom (elems_of s')) = 1"
  using linked_list_refines[OF fresh_ex_alloc, of "Some \<lparr>p_head = None, p_tail = None, elems_of = Map.empty\<rparr>"
      "[LAdd True (Some (7 :: nat)) (Some ''free''), LAdd True (Some 8) None, LAdd True (Some 9) None, LSearch False (\<lambda>d st. (d = 8, ())) True, LRemove]" "()"]
  by (auto simp: linked_list_init_def simp del: ll_script.simps)

end
