(* ===== verification/Agps.thy ===== *)
theory Agps
  imports Linked_List
begin

text \<open>
  The AGPS resource state machines of the location engine, \<^verbatim>\<open>loc_eng_agps.h/.cpp\<close>: clients (the modem's ATL
  requests, the BIT daemon, WIFI and emergency data calls) subscribe to a network interface, the machine
  requests it from the framework, tells the subscribers when it is granted, denied or released, and gives it back
  when the last active subscriber has left. \<^verbatim>\<open>DSStateMachine\<close>, which overrides the request and the event handler,
  is the machine with \<open>isDS\<close>. The subscriber list of \<^verbatim>\<open>linked_list.c\<close> is used
  through the list operations that it is proved to implement (theory \<^verbatim>\<open>Linked_List\<close>): a list of objects with their addresses, head first,
  memory for a new element assumed to be there.

  Calls that leave the component (to the adapter, to the daemon connection, to the framework's callback, to the
  timer service) are entries of \<open>trace\<close>. What the component does not determine is the argument \<open>agps_env\<close> of
  the operations: what the memory of a deleted object reads as, the bytes of an object of another class where a
  BIT subscriber has its IPv6 address, and the results of the data call callback and of \<^verbatim>\<open>loc_timer_start\<close>.
\<close>

section \<open>Data\<close>

datatype AgpsRsrcStatus = RSRC_SUBSCRIBE | RSRC_UNSUBSCRIBE | RSRC_GRANTED | RSRC_RELEASED | RSRC_DENIED | RSRC_STATUS_MAX

datatype servicerType = servicerTypeNoCbParam | servicerTypeAgps | servicerTypeExt

datatype AGpsStatusValue = GPS_REQUEST_AGPS_DATA_CONN | GPS_RELEASE_AGPS_DATA_CONN

datatype AGpsExtType = AGPS_TYPE_INVALID | AGPS_TYPE_SUPL | AGPS_TYPE_other nat

datatype AGpsBearerType = AGPS_APN_BEARER_INVALID | AGPS_APN_BEARER_other nat

text \<open>A WIFI subscriber's sender id is its \<open>ID\<close>; its SSID and password are NULL or C strings. The bytes of
  \<open>mIPv6Addr\<close> are those that have been initialised.\<close>

datatype Subscriber =
    BITSubscriber (ID: u32) (mIPv6Addr: "u8 list")
  | ATLSubscriber (ID: u32) (mBackwardCompatibleMode: bool)
  | WIFISubscriber (ID: u32) (mSSID: "string option") (mPassword: "string option") (mIsInactive: bool)
  | DSSubscriber (ID: u32) (mIsInactive: bool)

text \<open>A pointer to a subscriber: the object a caller passes in, or one of the list.\<close>

datatype sub_ptr = Caller Subscriber | Listed addr

datatype group = BROADCAST_ALL | BROADCAST_ACTIVE | BROADCAST_INACTIVE | NO_GROUP

record Notification =
  rcver :: "sub_ptr option"
  groupID :: group
  rsrcStatus :: AgpsRsrcStatus
  postNotifyDelete :: bool

datatype AgpsState = ReleasedState | PendingState | AcquiredState | ReleasingState

text \<open>The request to the framework. A field that the code leaves unset is \<open>None\<close>, and of the socket address only the
  family is set for a subscriber.\<close>

datatype sock_addr = Zeroed | Family_INET6

record AGpsExtStatus =
  req_type :: AGpsExtType
  req_status :: AGpsStatusValue
  ipv4_addr :: "u32 option"
  addr :: sock_addr
  ssid :: string
  password :: string

datatype cb_data = NifRequest AGpsExtStatus | DsCbData AGpsStatusValue

datatype if_status = GPSONE_LOC_API_IF_REQUEST_SUCCESS | GPSONE_LOC_API_IF_RELEASE_SUCCESS | GPSONE_LOC_API_IF_FAILURE

datatype sender_id = SENDER_GPSONE_DAEMON | SENDER u32

datatype agps_call =
    server_data_conn sender_id if_status
  | atlCloseStatus u32 int
  | atlOpenStatus u32 int "string option" AGpsBearerType AGpsExtType
  | closeDataCall
  | requestATL u32 AGpsExtType
  | requestSuplES u32
  | callback
  | callbackExt cb_data
  | callbackAGps cb_data
  | timer_start nat

record AgpsStateMachine =
  isDS :: bool
  mSubscribers :: "(addr \<times> Subscriber) list"
  mServicer :: servicerType
  mStatePtr :: AgpsState
  mType :: AGpsExtType
  mAPN :: "string option"
  mAPNLen :: nat
  mBearer :: AGpsBearerType
  mEnforceSingleSubscriber :: bool
  mRetries :: u8
  next_addr :: addr
  trace :: "agps_call list"

record agps_env =
  stale :: "addr \<Rightarrow> Subscriber"
  raw_bytes :: "Subscriber \<Rightarrow> u8 list"
  servicer_ret :: int
  timer_ret :: int

definition INADDR_NONE :: u32 where "INADDR_NONE = 0xFFFFFFFF"

definition MAX_START_DATA_CALL_RETRIES :: u8 where "MAX_START_DATA_CALL_RETRIES = 4"

definition DATA_CALL_RETRY_DELAY_MSEC :: nat where "DATA_CALL_RETRY_DELAY_MSEC = 500"

definition SSID_BUF_SIZE :: nat where "SSID_BUF_SIZE = 33"

abbreviation "LOC_API_ADAPTER_ERR_SUCCESS \<equiv> (0 :: int)"
abbreviation "LOC_API_ADAPTER_ERR_UNSUPPORTED \<equiv> (2 :: int)"
abbreviation "LOC_API_ADAPTER_ERR_ENGINE_BUSY \<equiv> (6 :: int)"

definition emit :: "agps_call \<Rightarrow> AgpsStateMachine \<Rightarrow> AgpsStateMachine" where
  "emit c sm = sm\<lparr>trace := trace sm @ [c]\<rparr>"

section \<open>Subscribers\<close>

text \<open>\<open>strncmp\<close> gives 0: the strings agree up to their terminators within \<open>n\<close> bytes.\<close>

definition strncmp_eq :: "nat \<Rightarrow> u8 list \<Rightarrow> u8 list \<Rightarrow> bool" where
  "strncmp_eq n xs ys = (takeWhile (\<lambda>c. c \<noteq> 0) (take n xs) = takeWhile (\<lambda>c. c \<noteq> 0) (take n ys))"

fun ipv6_bytes :: "agps_env \<Rightarrow> Subscriber \<Rightarrow> u8 list" where
  "ipv6_bytes e (BITSubscriber i v6) = v6"
| "ipv6_bytes e s = raw_bytes e s"

fun equals :: "agps_env \<Rightarrow> Subscriber \<Rightarrow> Subscriber \<Rightarrow> bool" where
  "equals e (BITSubscriber i v6) s =
     (i = ID s \<and> (INADDR_NONE \<noteq> i \<or> strncmp_eq 16 v6 (ipv6_bytes e s)))"
| "equals e t s = (ID t = ID s)"

fun waitForCloseComplete :: "Subscriber \<Rightarrow> bool" where
  "waitForCloseComplete (WIFISubscriber i w p b) = True"
| "waitForCloseComplete (DSSubscriber i b) = True"
| "waitForCloseComplete s = False"

fun isInactive :: "Subscriber \<Rightarrow> bool" where
  "isInactive (WIFISubscriber i w p b) = b"
| "isInactive (DSSubscriber i b) = b"
| "isInactive s = False"

definition WIFISubscriber_new :: "string option \<Rightarrow> string option \<Rightarrow> u32 \<Rightarrow> Subscriber" where
  "WIFISubscriber_new w p sender =
     WIFISubscriber sender (map_option (take (SSID_BUF_SIZE - 1)) w) (map_option (take (SSID_BUF_SIZE - 1)) p) False"

definition BITSubscriber_new :: "u32 \<Rightarrow> u8 list option \<Rightarrow> Subscriber" where
  "BITSubscriber_new ipv4 ipv6 = BITSubscriber ipv4 (case ipv6 of None \<Rightarrow> [0] | Some v6 \<Rightarrow> take 16 v6)"

fun clone :: "Subscriber \<Rightarrow> Subscriber" where
  "clone (BITSubscriber i v6) = BITSubscriber i v6"
| "clone (ATLSubscriber i m) = ATLSubscriber i m"
| "clone (WIFISubscriber i w p b) = WIFISubscriber_new w p i"
| "clone (DSSubscriber i b) = DSSubscriber i False"

fun setWifiInfo :: "Subscriber \<Rightarrow> string \<times> string" where
  "setWifiInfo (WIFISubscriber i w p b) =
     ((case w of Some x \<Rightarrow> take (SSID_BUF_SIZE - 1) x | None \<Rightarrow> []),
      (case p of Some x \<Rightarrow> take (SSID_BUF_SIZE - 1) x | None \<Rightarrow> []))"
| "setWifiInfo s = ([], [])"

text \<open>Reading through a pointer.\<close>

fun deref :: "agps_env \<Rightarrow> AgpsStateMachine \<Rightarrow> sub_ptr \<Rightarrow> Subscriber" where
  "deref e sm (Caller s) = s"
| "deref e sm (Listed a) = (case map_of (mSubscribers sm) a of Some s \<Rightarrow> s | None \<Rightarrow> stale e a)"

definition forMe :: "agps_env \<Rightarrow> AgpsStateMachine \<Rightarrow> Notification \<Rightarrow> Subscriber \<Rightarrow> bool" where
  "forMe e sm n this = (case rcver n of
      Some p \<Rightarrow> equals e this (deref e sm p)
    | None \<Rightarrow> BROADCAST_ALL = groupID n \<or>
        (BROADCAST_ACTIVE = groupID n \<and> \<not> isInactive this) \<or>
        (BROADCAST_INACTIVE = groupID n \<and> isInactive this))"

fun BIT_notifyRsrcStatus :: "AgpsRsrcStatus \<Rightarrow> AgpsStateMachine \<Rightarrow> bool \<times> AgpsStateMachine" where
  "BIT_notifyRsrcStatus RSRC_UNSUBSCRIBE sm =
     (True, emit (server_data_conn SENDER_GPSONE_DAEMON GPSONE_LOC_API_IF_RELEASE_SUCCESS) sm)"
| "BIT_notifyRsrcStatus RSRC_RELEASED sm =
     (True, emit (server_data_conn SENDER_GPSONE_DAEMON GPSONE_LOC_API_IF_RELEASE_SUCCESS) sm)"
| "BIT_notifyRsrcStatus RSRC_DENIED sm =
     (True, emit (server_data_conn SENDER_GPSONE_DAEMON GPSONE_LOC_API_IF_FAILURE) sm)"
| "BIT_notifyRsrcStatus RSRC_GRANTED sm =
     (True, emit (server_data_conn SENDER_GPSONE_DAEMON GPSONE_LOC_API_IF_REQUEST_SUCCESS) sm)"
| "BIT_notifyRsrcStatus _ sm = (False, sm)"

fun ATL_notifyRsrcStatus :: "u32 \<Rightarrow> bool \<Rightarrow> AgpsRsrcStatus \<Rightarrow> AgpsStateMachine \<Rightarrow> bool \<times> AgpsStateMachine" where
  "ATL_notifyRsrcStatus i m RSRC_UNSUBSCRIBE sm = (True, emit (atlCloseStatus i 1) sm)"
| "ATL_notifyRsrcStatus i m RSRC_RELEASED sm = (True, emit (atlCloseStatus i 1) sm)"
| "ATL_notifyRsrcStatus i m RSRC_DENIED sm =
     (let type = if m then AGPS_TYPE_INVALID else mType sm
      in (True, emit (atlOpenStatus i 0 (mAPN sm) (mBearer sm) type) sm))"
| "ATL_notifyRsrcStatus i m RSRC_GRANTED sm =
     (let type = if m then AGPS_TYPE_INVALID else mType sm
      in (True, emit (atlOpenStatus i 1 (mAPN sm) (mBearer sm) type) sm))"
| "ATL_notifyRsrcStatus i m _ sm = (False, sm)"

fun WIFI_notifyRsrcStatus :: "u32 \<Rightarrow> AgpsRsrcStatus \<Rightarrow> AgpsStateMachine \<Rightarrow> bool \<times> AgpsStateMachine" where
  "WIFI_notifyRsrcStatus i RSRC_UNSUBSCRIBE sm = (True, sm)"
| "WIFI_notifyRsrcStatus i RSRC_RELEASED sm =
     (True, emit (server_data_conn (SENDER i) GPSONE_LOC_API_IF_RELEASE_SUCCESS) sm)"
| "WIFI_notifyRsrcStatus i RSRC_DENIED sm =
     (True, emit (server_data_conn (SENDER i) GPSONE_LOC_API_IF_FAILURE) sm)"
| "WIFI_notifyRsrcStatus i RSRC_GRANTED sm =
     (True, emit (server_data_conn (SENDER i) GPSONE_LOC_API_IF_REQUEST_SUCCESS) sm)"
| "WIFI_notifyRsrcStatus i _ sm = (False, sm)"

fun informStatus :: "AgpsRsrcStatus \<Rightarrow> u32 \<Rightarrow> AgpsStateMachine \<Rightarrow> AgpsStateMachine" where
  "informStatus RSRC_UNSUBSCRIBE i sm = emit (atlCloseStatus i 1) sm"
| "informStatus RSRC_RELEASED i sm = emit closeDataCall sm"
| "informStatus RSRC_DENIED i sm = emit (requestATL i AGPS_TYPE_SUPL) (sm\<lparr>mRetries := 0\<rparr>)"
| "informStatus RSRC_GRANTED i sm =
     emit (atlOpenStatus i 1 None AGPS_APN_BEARER_INVALID AGPS_TYPE_INVALID) sm"
| "informStatus _ i sm = sm"

definition DS_notifyRsrcStatus :: "u32 \<Rightarrow> AgpsRsrcStatus \<Rightarrow> AgpsStateMachine \<Rightarrow> bool \<times> AgpsStateMachine" where
  "DS_notifyRsrcStatus i status sm =
     (if status \<in> {RSRC_UNSUBSCRIBE, RSRC_RELEASED, RSRC_DENIED, RSRC_GRANTED}
      then (True, informStatus status i sm) else (False, sm))"

definition notifyRsrcStatus ::
  "agps_env \<Rightarrow> Notification \<Rightarrow> Subscriber \<Rightarrow> AgpsStateMachine \<Rightarrow> bool \<times> AgpsStateMachine" where
  "notifyRsrcStatus e n this sm =
     (if forMe e sm n this then
        (case this of
           BITSubscriber i v6 \<Rightarrow> BIT_notifyRsrcStatus (rsrcStatus n) sm
         | ATLSubscriber i m \<Rightarrow> ATL_notifyRsrcStatus i m (rsrcStatus n) sm
         | WIFISubscriber i w p b \<Rightarrow> WIFI_notifyRsrcStatus i (rsrcStatus n) sm
         | DSSubscriber i b \<Rightarrow> DS_notifyRsrcStatus i (rsrcStatus n) sm)
      else (False, sm))"

text \<open>\<open>setInactive\<close> of a listed subscriber.\<close>

fun inactivate :: "Subscriber \<Rightarrow> Subscriber" where
  "inactivate (WIFISubscriber i w p b) = WIFISubscriber i w p True"
| "inactivate (DSSubscriber i b) = DSSubscriber i True"
| "inactivate s = s"

definition setInactive :: "addr \<Rightarrow> Subscriber \<Rightarrow> AgpsStateMachine \<Rightarrow> AgpsStateMachine" where
  "setInactive a s sm =
     (let sm1 = sm\<lparr>mSubscribers := map (\<lambda>(b, t). (b, if b = a then inactivate t else t)) (mSubscribers sm)\<rparr>
      in case s of DSSubscriber i b \<Rightarrow> informStatus RSRC_UNSUBSCRIBE i sm1 | _ \<Rightarrow> sm1)"

section \<open>The callbacks given to the list\<close>

definition hasSubscriber ::
  "agps_env \<Rightarrow> Notification \<Rightarrow> addr \<times> Subscriber \<Rightarrow> AgpsStateMachine \<Rightarrow> bool \<times> AgpsStateMachine" where
  "hasSubscriber e n s1 sm = (forMe e sm n (snd s1), sm)"

definition notifySubscriber ::
  "agps_env \<Rightarrow> Notification \<Rightarrow> addr \<times> Subscriber \<Rightarrow> AgpsStateMachine \<Rightarrow> bool \<times> AgpsStateMachine" where
  "notifySubscriber e n s1 sm =
     (let (r, sm1) = notifyRsrcStatus e n (snd s1) sm in (r \<and> postNotifyDelete n, sm1))"

section \<open>The machine's services\<close>

definition hasSubscribers :: "AgpsStateMachine \<Rightarrow> bool" where
  "hasSubscribers sm = (\<not> list_empty (mSubscribers sm))"

definition search_subscriber :: "agps_env \<Rightarrow> Notification \<Rightarrow> AgpsStateMachine \<Rightarrow> (addr \<times> Subscriber) option" where
  "search_subscriber e n sm = fst (list_search (hasSubscriber e n) False (mSubscribers sm) sm)"

definition Notification_group :: "group \<Rightarrow> Notification" where
  "Notification_group g = \<lparr>rcver = None, groupID = g, rsrcStatus = RSRC_STATUS_MAX, postNotifyDelete = False\<rparr>"

definition Notification_sub :: "sub_ptr \<Rightarrow> Notification" where
  "Notification_sub p = \<lparr>rcver = Some p, groupID = NO_GROUP, rsrcStatus = RSRC_STATUS_MAX, postNotifyDelete = False\<rparr>"

definition hasActiveSubscribers :: "agps_env \<Rightarrow> AgpsStateMachine \<Rightarrow> bool" where
  "hasActiveSubscribers e sm = (search_subscriber e (Notification_group BROADCAST_ACTIVE) sm \<noteq> None)"

definition addSubscriber :: "agps_env \<Rightarrow> Subscriber \<Rightarrow> AgpsStateMachine \<Rightarrow> AgpsStateMachine" where
  "addSubscriber e subscriber sm =
     (case search_subscriber e (Notification_sub (Caller subscriber)) sm of
        None \<Rightarrow> sm\<lparr>mSubscribers := list_add (next_addr sm, clone subscriber) (mSubscribers sm),
                   next_addr := Suc (next_addr sm)\<rparr>
      | Some s \<Rightarrow> sm)"

text \<open>The loop of \<open>notifySubscribers\<close> that deletes: each search stops at the first subscriber that took the
  notification, which is deleted; then the list is searched again from its head.\<close>

lemma search_removes:
  "list_search f True xs s = (Some x, ys, s') \<Longrightarrow> length ys < length xs"
proof (induction xs arbitrary: s ys s')
  case (Cons a xs)
  obtain b s1 where e: "f a s = (b, s1)" by fastforce
  obtain r zs s2 where r: "list_search f True xs s1 = (r, zs, s2)" using prod_cases3 by blast
  show ?case using Cons.prems Cons.IH[of s1 zs s2] e r by (cases b) auto
qed simp

function notify_delete :: "agps_env \<Rightarrow> Notification \<Rightarrow> AgpsStateMachine \<Rightarrow> AgpsStateMachine" where
  "notify_delete e n sm =
     (let (s, rest, sm1) = list_search (notifySubscriber e n) True (mSubscribers sm) sm;
          sm2 = sm1\<lparr>mSubscribers := rest\<rparr>
      in case s of None \<Rightarrow> sm2 | Some x \<Rightarrow> notify_delete e n sm2)"
  by pat_completeness auto
termination
  by (relation "measure (\<lambda>(e, n, sm). length (mSubscribers sm))") (auto dest!: search_removes[OF sym])

declare notify_delete.simps [simp del]

definition notifySubscribers :: "agps_env \<Rightarrow> Notification \<Rightarrow> AgpsStateMachine \<Rightarrow> AgpsStateMachine" where
  "notifySubscribers e n sm =
     (if postNotifyDelete n then notify_delete e n sm
      else (let (s, rest, sm1) = list_search (notifySubscriber e n) False (mSubscribers sm) sm in sm1))"

definition requestRsrc :: "agps_env \<Rightarrow> cb_data \<Rightarrow> AgpsStateMachine \<Rightarrow> int \<times> AgpsStateMachine" where
  "requestRsrc e d sm = (case mServicer sm of
      servicerTypeNoCbParam \<Rightarrow> (0, emit callback sm)
    | servicerTypeExt \<Rightarrow> (servicer_ret e, emit (callbackExt d) sm)
    | servicerTypeAgps \<Rightarrow> (0, emit (callbackAGps d) sm))"

definition nif_request :: "AGpsStatusValue \<Rightarrow> Subscriber option \<Rightarrow> AgpsStateMachine \<Rightarrow> AGpsExtStatus" where
  "nif_request action s sm = (case s of
      None \<Rightarrow> \<lparr>req_type = mType sm, req_status = action, ipv4_addr = Some INADDR_NONE, addr = Zeroed,
              ssid = [], password = []\<rparr>
    | Some x \<Rightarrow> \<lparr>req_type = mType sm, req_status = action, ipv4_addr = None, addr = Family_INET6,
              ssid = fst (setWifiInfo x), password = snd (setWifiInfo x)\<rparr>)"

definition agps_sendRsrcRequest :: "agps_env \<Rightarrow> AGpsStatusValue \<Rightarrow> AgpsStateMachine \<Rightarrow> int \<times> AgpsStateMachine" where
  "agps_sendRsrcRequest e action sm =
     (let s = map_option snd (search_subscriber e (Notification_group BROADCAST_ACTIVE) sm)
      in if (s = None) = (action = GPS_RELEASE_AGPS_DATA_CONN)
         then (0, snd (requestRsrc e (NifRequest (nif_request action s sm)) sm))
         else (0, sm))"

definition ds_sendRsrcRequest :: "agps_env \<Rightarrow> AGpsStatusValue \<Rightarrow> AgpsStateMachine \<Rightarrow> int \<times> AgpsStateMachine" where
  "ds_sendRsrcRequest e action sm =
     (let connHandle = (case search_subscriber e (Notification_group BROADCAST_ACTIVE) sm of
            Some (a, s) \<Rightarrow> ID s | None \<Rightarrow> - 1);
          (ret, sm1) = requestRsrc e (DsCbData action) sm
      in if ret = LOC_API_ADAPTER_ERR_ENGINE_BUSY then
           (let sm2 = sm1\<lparr>mRetries := mRetries sm1 + 1\<rparr>
            in if mRetries sm2 > MAX_START_DATA_CALL_RETRIES
               then (ret, informStatus RSRC_DENIED connHandle sm2)
               else (let sm3 = emit (timer_start DATA_CALL_RETRY_DELAY_MSEC) sm2
                     in if timer_ret e \<noteq> 0 then (- 1, sm3) else (ret, sm3)))
         else if ret = LOC_API_ADAPTER_ERR_UNSUPPORTED then (ret, informStatus RSRC_DENIED connHandle sm1)
         else if ret = LOC_API_ADAPTER_ERR_SUCCESS then (ret, sm1)
         else if ret = - 1 then (ret, informStatus RSRC_DENIED connHandle sm1)
         else (ret, sm1))"

definition sendRsrcRequest :: "agps_env \<Rightarrow> AGpsStatusValue \<Rightarrow> AgpsStateMachine \<Rightarrow> int \<times> AgpsStateMachine" where
  "sendRsrcRequest e action sm =
     (if isDS sm then ds_sendRsrcRequest e action sm else agps_sendRsrcRequest e action sm)"

definition retryCallback :: "agps_env \<Rightarrow> AgpsStateMachine \<Rightarrow> AgpsStateMachine" where
  "retryCallback e sm = (case search_subscriber e (Notification_group BROADCAST_ACTIVE) sm of
      Some (a, s) \<Rightarrow> emit (requestSuplES (ID s)) sm | None \<Rightarrow> sm)"

definition setAPN :: "string option \<Rightarrow> nat \<Rightarrow> AgpsStateMachine \<Rightarrow> AgpsStateMachine" where
  "setAPN apn len sm = (case apn of
      Some a \<Rightarrow> sm\<lparr>mAPN := Some (take len a), mAPNLen := len\<rparr>
    | None \<Rightarrow> sm\<lparr>mAPN := None, mAPNLen := 0\<rparr>)"

definition setBearer :: "AGpsBearerType \<Rightarrow> AgpsStateMachine \<Rightarrow> AgpsStateMachine" where
  "setBearer b sm = sm\<lparr>mBearer := b\<rparr>"

definition dropAllSubscribers :: "AgpsStateMachine \<Rightarrow> AgpsStateMachine" where
  "dropAllSubscribers sm = sm\<lparr>mSubscribers := list_flush (mSubscribers sm)\<rparr>"

section \<open>The states\<close>

text \<open>An event with the object behind the untyped data pointer: the caller's subscriber for RSRC_SUBSCRIBE, a listed one
  for RSRC_UNSUBSCRIBE, NULL otherwise.\<close>

datatype rsrc_event = Ev_SUBSCRIBE Subscriber | Ev_UNSUBSCRIBE addr | Ev_GRANTED | Ev_RELEASED | Ev_DENIED

definition AgpsReleasedState_onRsrcEvent ::
  "agps_env \<Rightarrow> rsrc_event \<Rightarrow> AgpsStateMachine \<Rightarrow> AgpsState \<times> AgpsStateMachine" where
  "AgpsReleasedState_onRsrcEvent e event sm = (case event of
      Ev_SUBSCRIBE subscriber \<Rightarrow>
        (let sm1 = addSubscriber e subscriber sm;
             (ret, sm2) = sendRsrcRequest e GPS_REQUEST_AGPS_DATA_CONN sm1
         in (if ret = 0 then PendingState else ReleasedState, sm2))
    | Ev_UNSUBSCRIBE a \<Rightarrow>
        (let n = \<lparr>rcver = Some (Listed a), groupID = NO_GROUP, rsrcStatus = RSRC_UNSUBSCRIBE, postNotifyDelete = False\<rparr>
         in (ReleasedState, snd (notifyRsrcStatus e n (deref e sm (Listed a)) sm)))
    | _ \<Rightarrow> (ReleasedState, sm))"

text \<open>The part of the UNSUBSCRIBE case that the other three states have in common.\<close>

definition leave :: "agps_env \<Rightarrow> addr \<Rightarrow> AgpsStateMachine \<Rightarrow> AgpsStateMachine" where
  "leave e a sm =
     (let subscriber = deref e sm (Listed a)
      in if waitForCloseComplete subscriber then setInactive a subscriber sm
         else notifySubscribers e \<lparr>rcver = Some (Listed a), groupID = NO_GROUP, rsrcStatus = RSRC_UNSUBSCRIBE,
                postNotifyDelete = True\<rparr> sm)"

definition AgpsPendingState_onRsrcEvent ::
  "agps_env \<Rightarrow> rsrc_event \<Rightarrow> AgpsStateMachine \<Rightarrow> AgpsState \<times> AgpsStateMachine" where
  "AgpsPendingState_onRsrcEvent e event sm = (case event of
      Ev_SUBSCRIBE subscriber \<Rightarrow> (PendingState, addSubscriber e subscriber sm)
    | Ev_UNSUBSCRIBE a \<Rightarrow>
        (let sm1 = leave e a sm
         in if \<not> hasSubscribers sm1 then (ReleasedState, snd (sendRsrcRequest e GPS_RELEASE_AGPS_DATA_CONN sm1))
            else if \<not> hasActiveSubscribers e sm1
            then (ReleasingState, snd (sendRsrcRequest e GPS_RELEASE_AGPS_DATA_CONN sm1))
            else (PendingState, sm1))
    | Ev_GRANTED \<Rightarrow>
        (AcquiredState, notifySubscribers e
           \<lparr>rcver = None, groupID = BROADCAST_ACTIVE, rsrcStatus = RSRC_GRANTED, postNotifyDelete = False\<rparr> sm)
    | Ev_RELEASED \<Rightarrow> (PendingState, sm)
    | Ev_DENIED \<Rightarrow>
        (ReleasedState, notifySubscribers e
           \<lparr>rcver = None, groupID = BROADCAST_ALL, rsrcStatus = RSRC_DENIED, postNotifyDelete = True\<rparr> sm))"

definition AgpsAcquiredState_onRsrcEvent ::
  "agps_env \<Rightarrow> rsrc_event \<Rightarrow> AgpsStateMachine \<Rightarrow> AgpsState \<times> AgpsStateMachine" where
  "AgpsAcquiredState_onRsrcEvent e event sm = (case event of
      Ev_SUBSCRIBE subscriber \<Rightarrow>
        (let n = \<lparr>rcver = Some (Caller subscriber), groupID = NO_GROUP, rsrcStatus = RSRC_GRANTED, postNotifyDelete = False\<rparr>;
             sm1 = snd (notifyRsrcStatus e n subscriber sm)
         in (AcquiredState, addSubscriber e subscriber sm1))
    | Ev_UNSUBSCRIBE a \<Rightarrow>
        (let sm1 = leave e a sm
         in if \<not> hasSubscribers sm1 then (ReleasedState, snd (sendRsrcRequest e GPS_RELEASE_AGPS_DATA_CONN sm1))
            else if \<not> hasActiveSubscribers e sm1
            then (ReleasingState, snd (sendRsrcRequest e GPS_RELEASE_AGPS_DATA_CONN sm1))
            else (AcquiredState, sm1))
    | Ev_GRANTED \<Rightarrow> (AcquiredState, sm)
    | Ev_RELEASED \<Rightarrow>
        (ReleasedState, notifySubscribers e
           \<lparr>rcver = None, groupID = BROADCAST_ALL, rsrcStatus = RSRC_RELEASED, postNotifyDelete = True\<rparr> sm)
    | Ev_DENIED \<Rightarrow> (AcquiredState, sm))"

definition AgpsReleasingState_onRsrcEvent ::
  "agps_env \<Rightarrow> rsrc_event \<Rightarrow> AgpsStateMachine \<Rightarrow> AgpsState \<times> AgpsStateMachine" where
  "AgpsReleasingState_onRsrcEvent e event sm =
     (let released = (\<lambda>status.
        (let sm1 = notifySubscribers e
               \<lparr>rcver = None, groupID = BROADCAST_INACTIVE, rsrcStatus = status, postNotifyDelete = True\<rparr> sm
         in if hasActiveSubscribers e sm1
            then (PendingState, snd (sendRsrcRequest e GPS_REQUEST_AGPS_DATA_CONN sm1))
            else (ReleasedState, sm1)))
      in case event of
        Ev_SUBSCRIBE subscriber \<Rightarrow> (ReleasingState, addSubscriber e subscriber sm)
      | Ev_UNSUBSCRIBE a \<Rightarrow>
          (let sm1 = leave e a sm in (if \<not> hasSubscribers sm1 then ReleasedState else ReleasingState, sm1))
      | Ev_DENIED \<Rightarrow> released RSRC_DENIED
      | Ev_RELEASED \<Rightarrow> released RSRC_RELEASED
      | Ev_GRANTED \<Rightarrow> (ReleasingState, sm))"

text \<open>The virtual call and the assignment of the new state.\<close>

definition state_step :: "agps_env \<Rightarrow> rsrc_event \<Rightarrow> AgpsStateMachine \<Rightarrow> AgpsStateMachine" where
  "state_step e event sm =
     (let (next_state, sm1) = (case mStatePtr sm of
            ReleasedState \<Rightarrow> AgpsReleasedState_onRsrcEvent e event sm
          | PendingState \<Rightarrow> AgpsPendingState_onRsrcEvent e event sm
          | AcquiredState \<Rightarrow> AgpsAcquiredState_onRsrcEvent e event sm
          | ReleasingState \<Rightarrow> AgpsReleasingState_onRsrcEvent e event sm)
      in sm1\<lparr>mStatePtr := next_state\<rparr>)"

section \<open>The machine\<close>

definition AgpsStateMachine_new :: "servicerType \<Rightarrow> AGpsExtType \<Rightarrow> bool \<Rightarrow> AgpsStateMachine" where
  "AgpsStateMachine_new servType type enforceSingleSubscriber =
     \<lparr>isDS = False, mSubscribers = [], mServicer = servType, mStatePtr = ReleasedState, mType = type, mAPN = None,
      mAPNLen = 0, mBearer = AGPS_APN_BEARER_INVALID, mEnforceSingleSubscriber = enforceSingleSubscriber,
      mRetries = 0, next_addr = 0, trace = []\<rparr>"

definition DSStateMachine_new :: "servicerType \<Rightarrow> AgpsStateMachine" where
  "DSStateMachine_new type = (AgpsStateMachine_new type AGPS_TYPE_INVALID False)\<lparr>isDS := True, mRetries := 0\<rparr>"

fun agps_onRsrcEvent :: "agps_env \<Rightarrow> AgpsRsrcStatus \<Rightarrow> AgpsStateMachine \<Rightarrow> AgpsStateMachine" where
  "agps_onRsrcEvent e RSRC_GRANTED sm = state_step e Ev_GRANTED sm"
| "agps_onRsrcEvent e RSRC_RELEASED sm = state_step e Ev_RELEASED sm"
| "agps_onRsrcEvent e RSRC_DENIED sm = state_step e Ev_DENIED sm"
| "agps_onRsrcEvent e _ sm = sm"

fun ds_onRsrcEvent :: "agps_env \<Rightarrow> AgpsRsrcStatus \<Rightarrow> AgpsStateMachine \<Rightarrow> AgpsStateMachine" where
  "ds_onRsrcEvent e RSRC_GRANTED sm = state_step e Ev_GRANTED sm"
| "ds_onRsrcEvent e RSRC_RELEASED sm =
     (let sm1 = state_step e Ev_RELEASED sm
      in if mStatePtr sm1 \<noteq> mStatePtr sm then sm1 else state_step e Ev_DENIED sm1)"
| "ds_onRsrcEvent e RSRC_DENIED sm = state_step e Ev_DENIED sm"
| "ds_onRsrcEvent e _ sm = sm"

definition onRsrcEvent :: "agps_env \<Rightarrow> AgpsRsrcStatus \<Rightarrow> AgpsStateMachine \<Rightarrow> AgpsStateMachine" where
  "onRsrcEvent e event sm = (if isDS sm then ds_onRsrcEvent e event sm else agps_onRsrcEvent e event sm)"

definition subscribeRsrc :: "agps_env \<Rightarrow> Subscriber \<Rightarrow> AgpsStateMachine \<Rightarrow> AgpsStateMachine" where
  "subscribeRsrc e subscriber sm =
     (if mEnforceSingleSubscriber sm \<and> hasSubscribers sm then
        (let n = \<lparr>rcver = None, groupID = BROADCAST_ALL, rsrcStatus = RSRC_DENIED, postNotifyDelete = True\<rparr>
         in snd (notifyRsrcStatus e n subscriber sm))
      else state_step e (Ev_SUBSCRIBE subscriber) sm)"

definition unsubscribeRsrc :: "agps_env \<Rightarrow> Subscriber \<Rightarrow> AgpsStateMachine \<Rightarrow> bool \<times> AgpsStateMachine" where
  "unsubscribeRsrc e subscriber sm =
     (case search_subscriber e (Notification_sub (Caller subscriber)) sm of
        Some (a, s) \<Rightarrow> (True, state_step e (Ev_UNSUBSCRIBE a) sm)
      | None \<Rightarrow> (False, sm))"

section \<open>Searching and notifying\<close>

lemma search_pure:
  "list_search (\<lambda>x s. (P x, s)) False xs s = (find P xs, xs, s)"
  by (induction xs arbitrary: s) auto

lemma search_subscriber_find:
  "search_subscriber e n sm = find (\<lambda>x. forMe e sm n (snd x)) (mSubscribers sm)"
proof -
  have walk: "fst (list_search (hasSubscriber e n) False xs sm) = find (\<lambda>x. forMe e sm n (snd x)) xs" for xs
    by (induction xs) (auto simp: hasSubscriber_def split: prod.split)
  show ?thesis by (simp add: search_subscriber_def walk)
qed

lemma forMe_group [simp]:
  "forMe e sm (Notification_group BROADCAST_ACTIVE) s \<longleftrightarrow> \<not> isInactive s"
  by (simp add: forMe_def Notification_group_def)

lemma forMe_caller [simp]: "forMe e sm (Notification_sub (Caller c)) s \<longleftrightarrow> equals e s c"
  by (simp add: forMe_def Notification_sub_def)

lemma hasActive_iff: "hasActiveSubscribers e sm \<longleftrightarrow> (\<exists>x \<in> set (mSubscribers sm). \<not> isInactive (snd x))"
  by (simp add: hasActiveSubscribers_def search_subscriber_find find_None_iff Bex_def)

lemma hasSubscribers_iff: "hasSubscribers sm \<longleftrightarrow> mSubscribers sm \<noteq> []"
  by (simp add: hasSubscribers_def list_empty_def)

text \<open>What a subscriber is told of a status.\<close>

fun told :: "AgpsStateMachine \<Rightarrow> AgpsRsrcStatus \<Rightarrow> Subscriber \<Rightarrow> agps_call list" where
  "told sm st (BITSubscriber i v6) =
     [server_data_conn SENDER_GPSONE_DAEMON (case st of RSRC_DENIED \<Rightarrow> GPSONE_LOC_API_IF_FAILURE
        | RSRC_GRANTED \<Rightarrow> GPSONE_LOC_API_IF_REQUEST_SUCCESS | _ \<Rightarrow> GPSONE_LOC_API_IF_RELEASE_SUCCESS)]"
| "told sm st (ATLSubscriber i m) =
     (let type = if m then AGPS_TYPE_INVALID else mType sm
      in [case st of RSRC_DENIED \<Rightarrow> atlOpenStatus i 0 (mAPN sm) (mBearer sm) type
        | RSRC_GRANTED \<Rightarrow> atlOpenStatus i 1 (mAPN sm) (mBearer sm) type | _ \<Rightarrow> atlCloseStatus i 1])"
| "told sm st (WIFISubscriber i w p b) =
     (case st of RSRC_DENIED \<Rightarrow> [server_data_conn (SENDER i) GPSONE_LOC_API_IF_FAILURE]
        | RSRC_GRANTED \<Rightarrow> [server_data_conn (SENDER i) GPSONE_LOC_API_IF_REQUEST_SUCCESS]
        | RSRC_RELEASED \<Rightarrow> [server_data_conn (SENDER i) GPSONE_LOC_API_IF_RELEASE_SUCCESS] | _ \<Rightarrow> [])"
| "told sm st (DSSubscriber i b) =
     [case st of RSRC_DENIED \<Rightarrow> requestATL i AGPS_TYPE_SUPL
        | RSRC_GRANTED \<Rightarrow> atlOpenStatus i 1 None AGPS_APN_BEARER_INVALID AGPS_TYPE_INVALID
        | RSRC_RELEASED \<Rightarrow> closeDataCall | _ \<Rightarrow> atlCloseStatus i 1]"

definition announced :: "AgpsRsrcStatus \<Rightarrow> bool" where
  "announced st \<longleftrightarrow> st \<in> {RSRC_UNSUBSCRIBE, RSRC_RELEASED, RSRC_DENIED, RSRC_GRANTED}"

text \<open>Notifications change nothing but the trace and the retry counter.\<close>

definition retries_after :: "AgpsRsrcStatus \<Rightarrow> Subscriber list \<Rightarrow> u8 \<Rightarrow> u8" where
  "retries_after st ss r = (if st = RSRC_DENIED \<and> (\<exists>i b. DSSubscriber i b \<in> set ss) then 0 else r)"

definition tell :: "AgpsRsrcStatus \<Rightarrow> Subscriber list \<Rightarrow> AgpsStateMachine \<Rightarrow> AgpsStateMachine" where
  "tell st ss sm = sm\<lparr>mRetries := retries_after st ss (mRetries sm), trace := trace sm @ concat (map (told sm st) ss)\<rparr>"

lemma told_cong:
  "mType sm' = mType sm \<Longrightarrow> mAPN sm' = mAPN sm \<Longrightarrow> mBearer sm' = mBearer sm \<Longrightarrow> told sm' st s = told sm st s"
  by (cases s; cases st) (simp_all add: Let_def)

lemma told_upd [simp]:
  "told (tell st' ss sm) st = told sm st"
  "told (sm\<lparr>mSubscribers := xs\<rparr>) st = told sm st"
  "told (sm\<lparr>mRetries := r\<rparr>) st = told sm st"
  "told (sm\<lparr>trace := t\<rparr>) st = told sm st"
  by (rule ext, rule told_cong; simp add: tell_def)+

lemma tell_fields [simp]:
  "mSubscribers (tell st ss sm) = mSubscribers sm" "isDS (tell st ss sm) = isDS sm" "mStatePtr (tell st ss sm) = mStatePtr sm"
  "mServicer (tell st ss sm) = mServicer sm" "next_addr (tell st ss sm) = next_addr sm"
  "trace (tell st ss sm) = trace sm @ concat (map (told sm st) ss)" "mType (tell st ss sm) = mType sm"
  "mEnforceSingleSubscriber (tell st ss sm) = mEnforceSingleSubscriber sm"
  by (simp_all add: tell_def)

lemma tell_Nil [simp]: "tell st [] sm = sm"
  by (simp add: tell_def retries_after_def)

lemma tell_append: "tell st ts (tell st ss sm) = tell st (ss @ ts) sm"
proof -
  have "retries_after st ts (retries_after st ss r) = retries_after st (ss @ ts) r" for r
    by (auto simp: retries_after_def)
  then show ?thesis by (simp add: tell_def)
qed

lemma tell_subs: "tell st ss (sm\<lparr>mSubscribers := xs\<rparr>) = (tell st ss sm)\<lparr>mSubscribers := xs\<rparr>"
  by (simp add: tell_def)

lemma forMe_tell [simp]: "forMe e (tell st ss sm) n s = forMe e sm n s"
proof -
  have "deref e (tell st ss sm) p = deref e sm p" for p by (cases p) auto
  then show ?thesis by (simp add: forMe_def split: option.split)
qed

lemma notify_announced:
  assumes "announced (rsrcStatus n)"
  shows "notifyRsrcStatus e n s sm =
    (if forMe e sm n s then (True, tell (rsrcStatus n) [s] sm) else (False, sm))"
  using assms unfolding announced_def
  by (cases s; cases "rsrcStatus n") (auto simp: notifyRsrcStatus_def tell_def emit_def retries_after_def DS_notifyRsrcStatus_def Let_def)

lemma search_notify:
  assumes "announced (rsrcStatus n)" "\<not> postNotifyDelete n"
  shows "list_search (notifySubscriber e n) False xs sm =
    (None, xs, tell (rsrcStatus n) (map snd (filter (\<lambda>x. forMe e sm n (snd x)) xs)) sm)"
proof (induction xs arbitrary: sm)
  case (Cons x xs)
  then show ?case using assms(2) by (simp add: notifySubscriber_def notify_announced[OF assms(1)] tell_append)
qed simp

lemma search_notify_delete:
  assumes "announced (rsrcStatus n)" "postNotifyDelete n"
  shows "list_search (notifySubscriber e n) True xs sm =
    (case find (\<lambda>x. forMe e sm n (snd x)) xs of
       None \<Rightarrow> (None, xs, sm)
     | Some x \<Rightarrow> (Some x, remove1 x xs, tell (rsrcStatus n) [snd x] sm))"
proof (induction xs)
  case (Cons y xs)
  have ne: "x \<noteq> y" if "find (\<lambda>x. forMe e sm n (snd x)) xs = Some x" "\<not> forMe e sm n (snd y)" for x
    using that by (auto simp: find_Some_iff)
  show ?case using assms(2) Cons ne
    by (auto simp: notifySubscriber_def notify_announced[OF assms(1)] split: option.splits)
qed simp

lemma notify_delete_step:
  assumes "announced (rsrcStatus n)" "postNotifyDelete n"
  shows "notify_delete e n sm = (case find (\<lambda>x. forMe e sm n (snd x)) (mSubscribers sm) of
      None \<Rightarrow> sm
    | Some x \<Rightarrow> notify_delete e n ((tell (rsrcStatus n) [snd x] sm)\<lparr>mSubscribers := remove1 x (mSubscribers sm)\<rparr>))"
  by (subst notify_delete.simps) (simp add: search_notify_delete[OF assms] split: option.split)

lemma find_remove1:
  assumes "find P xs = Some x"
  shows "filter P xs = x # filter P (remove1 x xs)" "filter (\<lambda>y. \<not> P y) (remove1 x xs) = filter (\<lambda>y. \<not> P y) xs"
    "P x" "x \<in> set xs"
  using assms by (induction xs) (auto split: if_splits)

text \<open>As long as the receivers of a notification do not depend on what is deleted meanwhile, the loop tells all of them,
  in list order, and deletes exactly them.\<close>

lemma notify_delete_all:
  assumes n: "announced (rsrcStatus n)" "postNotifyDelete n"
    and P: "\<And>sm' s. set (mSubscribers sm') \<subseteq> set (mSubscribers sm) \<Longrightarrow> forMe e sm' n s = P s"
  shows "notify_delete e n sm = (tell (rsrcStatus n) (map snd (filter (\<lambda>x. P (snd x)) (mSubscribers sm))) sm)
    \<lparr>mSubscribers := filter (\<lambda>x. \<not> P (snd x)) (mSubscribers sm)\<rparr>"
  using P
proof (induction "length (mSubscribers sm)" arbitrary: sm rule: less_induct)
  case less
  let ?L = "mSubscribers sm"
  have f: "find (\<lambda>x. forMe e sm n (snd x)) ?L = find (\<lambda>x. P (snd x)) ?L" using less.prems by simp
  show ?case
  proof (cases "find (\<lambda>x. P (snd x)) ?L")
    case None
    then have "filter (\<lambda>x. P (snd x)) ?L = []" "filter (\<lambda>x. \<not> P (snd x)) ?L = ?L"
      by (auto simp: find_None_iff filter_empty_conv filter_id_conv)
    then show ?thesis using None f by (simp add: notify_delete_step[OF n])
  next
    case (Some x)
    let ?sm = "(tell (rsrcStatus n) [snd x] sm)\<lparr>mSubscribers := remove1 x ?L\<rparr>"
    have sub: "set (mSubscribers ?sm) \<subseteq> set ?L" by (simp add: set_remove1_subset)
    have len: "length (mSubscribers ?sm) < length ?L"
      using find_remove1(4)[OF Some] length_pos_if_in_set[of x ?L] by (simp add: length_remove1)
    have "forMe e sm' n s = P s" if "set (mSubscribers sm') \<subseteq> set (mSubscribers ?sm)" for sm' s
      using less.prems that sub by blast
    from less.hyps[OF len this] show ?thesis
      using Some f find_remove1[OF Some] by (simp add: notify_delete_step[OF n] tell_subs tell_append)
  qed
qed

lemma notifySubscribers_group:
  assumes "announced (rsrcStatus n)" "rcver n = None"
  shows "notifySubscribers e n sm =
    (tell (rsrcStatus n) (map snd (filter (\<lambda>x. forMe e sm n (snd x)) (mSubscribers sm))) sm)
      \<lparr>mSubscribers := filter (\<lambda>x. \<not> (postNotifyDelete n \<and> forMe e sm n (snd x))) (mSubscribers sm)\<rparr>"
proof (cases "postNotifyDelete n")
  case True
  have "forMe e sm' n s = forMe e sm n s" for sm' s using assms(2) by (simp add: forMe_def)
  then show ?thesis using True notify_delete_all[OF assms(1) True] by (simp add: notifySubscribers_def)
next
  case False
  then show ?thesis by (simp add: notifySubscribers_def search_notify[OF assms(1)])
qed

section \<open>Keys\<close>

text \<open>The classes may be mixed in one list. \<open>equals\<close> compares keys except where a BIT subscriber without IPv4 address is
  compared with an object of another class.\<close>

definition plain :: "Subscriber \<Rightarrow> bool" where
  "plain s \<longleftrightarrow> ID s \<noteq> INADDR_NONE \<or> is_BITSubscriber s"

fun sub_key :: "Subscriber \<Rightarrow> u32 \<times> u8 list" where
  "sub_key (BITSubscriber i v6) = (i, if i = INADDR_NONE then takeWhile (\<lambda>c. c \<noteq> 0) (take 16 v6) else [])"
| "sub_key s = (ID s, [])"

lemma equals_key: "plain s \<Longrightarrow> plain t \<Longrightarrow> equals e s t \<longleftrightarrow> sub_key s = sub_key t"
  by (cases s; cases t) (auto simp: plain_def strncmp_eq_def)

lemma equals_refl [simp]: "equals e s s"
  by (cases s) (simp_all add: strncmp_eq_def)

lemma key_clone [simp]: "sub_key (clone s) = sub_key s" "plain (clone s) = plain s" "\<not> isInactive (clone s)"
  by (simp_all add: plain_def WIFISubscriber_new_def split: Subscriber.split) (cases s; simp add: WIFISubscriber_new_def)+

lemma key_inactivate [simp]: "sub_key (inactivate s) = sub_key s" "plain (inactivate s) = plain s"
  by (cases s; simp add: plain_def)+

section \<open>Leaving the list\<close>

definition wf_subs :: "AgpsStateMachine \<Rightarrow> bool" where
  "wf_subs sm \<longleftrightarrow> distinct (map fst (mSubscribers sm)) \<and> (\<forall>x \<in> set (mSubscribers sm). fst x < next_addr sm \<and> plain (snd x)) \<and>
     distinct (map (sub_key \<circ> snd) (mSubscribers sm))"

lemma find_unique:
  assumes "x \<in> set xs" "P x" and u: "\<And>y. y \<in> set xs \<Longrightarrow> P y \<Longrightarrow> y = x"
  shows "find P xs = Some x"
proof (cases "find P xs")
  case None
  with assms(1,2) show ?thesis by (simp add: find_None_iff)
next
  case (Some y)
  with u[OF find_remove1(4,3)[OF Some]] show ?thesis by simp
qed

lemma remove1_by_key:
  assumes "distinct (map f xs)" "x \<in> set xs"
  shows "remove1 x xs = filter (\<lambda>y. f y \<noteq> f x) xs"
proof -
  have "distinct xs" using assms(1) distinct_map by blast
  moreover have "filter (\<lambda>y. x \<noteq> y) xs = filter (\<lambda>y. f y \<noteq> f x) xs"
    using assms by (intro filter_cong) (auto simp: distinct_map inj_on_def)
  ultimately show ?thesis by (simp add: distinct_remove1_removeAll removeAll_filter_not_eq)
qed

lemma wf_subs_eq:
  assumes "wf_subs sm" "(a, s) \<in> set (mSubscribers sm)" "(b, t) \<in> set (mSubscribers sm)" "equals e t s"
  shows "(b, t) = (a, s)"
proof -
  have "plain s" "plain t" using assms unfolding wf_subs_def by fastforce+
  with assms(4) have "sub_key s = sub_key t" by (simp add: equals_key)
  moreover have "inj_on (sub_key \<circ> snd) (set (mSubscribers sm))" using assms(1) by (simp add: wf_subs_def distinct_map)
  ultimately show ?thesis using inj_onD[of "sub_key \<circ> snd" _ "(b, t)" "(a, s)"] assms(2,3) by simp
qed

lemma deref_listed:
  assumes "wf_subs sm" "(a, s) \<in> set (mSubscribers sm)"
  shows "deref e sm (Listed a) = s"
  using assms by (simp add: wf_subs_def)

text \<open>The subscriber that is unsubscribed is told and deleted. The next pass of the loop compares the others with its
  deleted object: whoever equals what that memory now holds is told and deleted as well.\<close>

definition survivors :: "agps_env \<Rightarrow> addr \<Rightarrow> (addr \<times> Subscriber) list \<Rightarrow> (addr \<times> Subscriber) list" where
  "survivors e a L = filter (\<lambda>x. fst x \<noteq> a \<and> \<not> equals e (snd x) (stale e a)) L"

definition victims :: "agps_env \<Rightarrow> addr \<Rightarrow> (addr \<times> Subscriber) list \<Rightarrow> (addr \<times> Subscriber) list" where
  "victims e a L = filter (\<lambda>x. fst x \<noteq> a \<and> equals e (snd x) (stale e a)) L"

lemma leave_delete:
  assumes wf: "wf_subs sm" and a: "(a, s) \<in> set (mSubscribers sm)" and w: "\<not> waitForCloseComplete s"
  shows "leave e a sm = (tell RSRC_UNSUBSCRIBE (s # map snd (victims e a (mSubscribers sm))) sm)
    \<lparr>mSubscribers := survivors e a (mSubscribers sm)\<rparr>"
proof -
  let ?L = "mSubscribers sm"
  let ?n = "\<lparr>rcver = Some (Listed a), groupID = NO_GROUP, rsrcStatus = RSRC_UNSUBSCRIBE, postNotifyDelete = True\<rparr>"
  let ?sm = "(tell RSRC_UNSUBSCRIBE [s] sm)\<lparr>mSubscribers := filter (\<lambda>y. fst y \<noteq> a) ?L\<rparr>"
  have n: "announced (rsrcStatus ?n)" "postNotifyDelete ?n" by (simp_all add: announced_def)
  have d: "distinct (map fst ?L)" using wf by (simp add: wf_subs_def)
  have f: "find (\<lambda>x. forMe e sm ?n (snd x)) ?L = Some (a, s)"
  proof (rule find_unique[OF a])
    show "forMe e sm ?n (snd (a, s))" using deref_listed[OF wf a] by (simp add: forMe_def)
    fix y assume "y \<in> set ?L" "forMe e sm ?n (snd y)"
    then show "y = (a, s)" using wf_subs_eq[OF wf a, of "fst y" "snd y" e] deref_listed[OF wf a] by (simp add: forMe_def)
  qed
  have P: "forMe e sm' ?n t = equals e t (stale e a)" if "set (mSubscribers sm') \<subseteq> set (mSubscribers ?sm)" for sm' t
  proof -
    have "a \<notin> fst ` set (mSubscribers sm')" using that by fastforce
    then have "map_of (mSubscribers sm') a = None" by (simp add: map_of_eq_None_iff)
    then show ?thesis by (simp add: forMe_def)
  qed
  have "notify_delete e ?n sm = notify_delete e ?n ?sm"
    using remove1_by_key[OF d a] f by (simp add: notify_delete_step[OF n])
  also have "\<dots> = (tell RSRC_UNSUBSCRIBE (s # map snd (victims e a ?L)) sm)\<lparr>mSubscribers := survivors e a ?L\<rparr>"
    using notify_delete_all[of ?n ?sm e "\<lambda>t. equals e t (stale e a)", OF n P] by (simp add: tell_subs tell_append survivors_def victims_def conj_commute)
  finally show ?thesis using deref_listed[OF wf a] w by (simp add: leave_def notifySubscribers_def)
qed

lemma leave_wait:
  assumes wf: "wf_subs sm" and a: "(a, s) \<in> set (mSubscribers sm)" and w: "waitForCloseComplete s"
  shows "leave e a sm = setInactive a s sm"
  using deref_listed[OF wf a] w by (simp add: leave_def)

section \<open>The invariant\<close>

text \<open>The requests the framework has got, in order.\<close>

definition requests :: "agps_call list \<Rightarrow> AGpsStatusValue list" where
  "requests t = concat (map (\<lambda>c. case c of callbackAGps (NifRequest r) \<Rightarrow> [req_status r] | _ \<Rightarrow> []) t)"

lemma requests_simps [simp]: "requests [] = []" "requests (t @ u) = requests t @ requests u"
    "requests (c # t) = (case c of callbackAGps (NifRequest r) \<Rightarrow> [req_status r] | _ \<Rightarrow> []) @ requests t"
  by (simp_all add: requests_def)

lemma requests_told [simp]: "requests (told sm st s) = []" "requests (concat (map (told sm st) ss)) = []"
proof -
  have 1: "requests (told sm st s) = []" for s by (cases s; cases st) (simp_all add: Let_def)
  then show "requests (told sm st s) = []" .
  show "requests (concat (map (told sm st) ss)) = []" by (induction ss) (simp_all add: 1)
qed

definition last_request :: "AgpsStateMachine \<Rightarrow> AGpsStatusValue option" where
  "last_request sm = (if requests (trace sm) = [] then None else Some (last (requests (trace sm))))"

definition some_active :: "AgpsStateMachine \<Rightarrow> bool" where
  "some_active sm \<longleftrightarrow> (\<exists>x \<in> set (mSubscribers sm). \<not> isInactive (snd x))"

text \<open>With \<open>dropped\<close>, \<open>dropAllSubscribers\<close> has been used.\<close>

definition agps_ok :: "bool \<Rightarrow> AgpsStateMachine \<Rightarrow> bool" where
  "agps_ok dropped sm \<longleftrightarrow> \<not> isDS sm \<and> mServicer sm = servicerTypeAgps \<and> wf_subs sm \<and>
     (case mStatePtr sm of
        ReleasedState \<Rightarrow> mSubscribers sm = []
      | PendingState \<Rightarrow> (dropped \<or> some_active sm) \<and> last_request sm = Some GPS_REQUEST_AGPS_DATA_CONN
      | AcquiredState \<Rightarrow> (dropped \<or> some_active sm) \<and> last_request sm = Some GPS_REQUEST_AGPS_DATA_CONN
      | ReleasingState \<Rightarrow> (dropped \<or> mSubscribers sm \<noteq> []) \<and> last_request sm = Some GPS_RELEASE_AGPS_DATA_CONN)"

text \<open>What the services of the machine leave alone.\<close>

definition frame :: "AgpsStateMachine \<Rightarrow> AgpsStateMachine \<Rightarrow> bool" where
  "frame sm sm' \<longleftrightarrow> isDS sm' = isDS sm \<and> mServicer sm' = mServicer sm \<and> last_request sm' = last_request sm"

lemma frame_refl [simp]: "frame sm sm" and frame_trans: "frame a b \<Longrightarrow> frame b c \<Longrightarrow> frame a c"
  by (simp_all add: frame_def)

lemma wf_subs_filter: "wf_subs sm \<Longrightarrow> mSubscribers sm' = filter P (mSubscribers sm) \<Longrightarrow> next_addr sm' = next_addr sm \<Longrightarrow> wf_subs sm'"
  by (auto simp: wf_subs_def distinct_map_filter)

lemma tell_frame [simp]: "frame sm ((tell st ss sm)\<lparr>mSubscribers := xs\<rparr>)" "frame sm (tell st ss sm)"
  by (simp_all add: frame_def last_request_def)

lemma addSubscriber_ok:
  assumes "wf_subs sm" "plain c"
  shows "wf_subs (addSubscriber e c sm)" "frame sm (addSubscriber e c sm)" "mSubscribers (addSubscriber e c sm) \<noteq> []"
    "some_active sm \<or> mSubscribers sm = [] \<Longrightarrow> some_active (addSubscriber e c sm)"
proof -
  have key: "find (\<lambda>x. equals e (snd x) c) (mSubscribers sm) = search_subscriber e (Notification_sub (Caller c)) sm"
    by (simp add: search_subscriber_find)
  have "wf_subs (addSubscriber e c sm) \<and> frame sm (addSubscriber e c sm) \<and> mSubscribers (addSubscriber e c sm) \<noteq> [] \<and>
    (some_active sm \<or> mSubscribers sm = [] \<longrightarrow> some_active (addSubscriber e c sm))"
  proof (cases "search_subscriber e (Notification_sub (Caller c)) sm")
    case (Some x)
    then have "mSubscribers sm \<noteq> []" using find_remove1(4)[of _ "mSubscribers sm" x] key by force
    then show ?thesis using assms Some by (simp add: addSubscriber_def)
  next
    case None
    then have fresh: "addSubscriber e c sm = sm\<lparr>mSubscribers := (next_addr sm, clone c) # mSubscribers sm, next_addr := Suc (next_addr sm)\<rparr>"
        "\<forall>x \<in> set (mSubscribers sm). \<not> equals e (snd x) c"
      using key by (simp_all add: addSubscriber_def list_add_def find_None_iff Ball_def)
    have "sub_key c \<noteq> sub_key (snd x)" if "x \<in> set (mSubscribers sm)" for x
    proof -
      have "plain (snd x)" using assms(1) that by (simp add: wf_subs_def)
      then show ?thesis using fresh(2) that assms(2) equals_key[of "snd x" c e] by auto
    qed
    then show ?thesis using assms fresh(1)
      by (auto simp: wf_subs_def frame_def last_request_def some_active_def less_Suc_eq)
  qed
  then show "wf_subs (addSubscriber e c sm)" "frame sm (addSubscriber e c sm)" "mSubscribers (addSubscriber e c sm) \<noteq> []"
    "some_active sm \<or> mSubscribers sm = [] \<Longrightarrow> some_active (addSubscriber e c sm)" by blast+
qed

lemma setInactive_ok:
  assumes "wf_subs sm"
  shows "wf_subs (setInactive a s sm) \<and> frame sm (setInactive a s sm) \<and> next_addr (setInactive a s sm) = next_addr sm"
proof -
  let ?f = "\<lambda>(b, t). (b, if b = a then inactivate t else t)"
  have m: "mSubscribers (setInactive a s sm) = map ?f (mSubscribers sm)" "next_addr (setInactive a s sm) = next_addr sm"
    "frame sm (setInactive a s sm)"
    by (cases s; simp add: setInactive_def emit_def frame_def last_request_def)+
  have "fst \<circ> ?f = fst" "sub_key \<circ> snd \<circ> ?f = sub_key \<circ> snd" by (auto simp: fun_eq_iff)
  then show ?thesis using assms m by (auto simp: wf_subs_def o_assoc)
qed

lemma leave_ok:
  assumes "wf_subs sm" "(a, s) \<in> set (mSubscribers sm)"
  shows "wf_subs (leave e a sm)" "frame sm (leave e a sm)"
proof -
  have "wf_subs (leave e a sm) \<and> frame sm (leave e a sm)"
  proof (cases "waitForCloseComplete s")
    case True
    then show ?thesis using leave_wait[OF assms] setInactive_ok[OF assms(1)] by simp
  next
    case False
    have "wf_subs ((tell st ss sm)\<lparr>mSubscribers := survivors e a (mSubscribers sm)\<rparr>)" for st ss
      by (rule wf_subs_filter[OF assms(1)]) (simp_all add: survivors_def)
    then show ?thesis using leave_delete[OF assms False] by simp
  qed
  then show "wf_subs (leave e a sm)" "frame sm (leave e a sm)" by blast+
qed

lemma group_ok:
  assumes "wf_subs sm" "announced (rsrcStatus n)" "rcver n = None"
  shows "wf_subs (notifySubscribers e n sm)" "frame sm (notifySubscribers e n sm)"
  using wf_subs_filter[OF assms(1)] by (simp_all add: notifySubscribers_group[OF assms(2,3)])

lemma send_ok:
  assumes "\<not> isDS sm" "mServicer sm = servicerTypeAgps" "some_active sm \<longleftrightarrow> action = GPS_REQUEST_AGPS_DATA_CONN"
  obtains t where "sendRsrcRequest e action sm = (0, sm\<lparr>trace := t\<rparr>)" "requests t = requests (trace sm) @ [action]"
proof -
  have "(search_subscriber e (Notification_group BROADCAST_ACTIVE) sm = None) = (action = GPS_RELEASE_AGPS_DATA_CONN)"
    using assms(3) hasActive_iff[of e sm] unfolding some_active_def hasActiveSubscribers_def
    by (cases action) (simp_all del: not_None_eq split_paired_All split_paired_Ex)
  moreover have "req_status (nif_request action x sm) = action" for x by (simp add: nif_request_def split: option.split)
  ultimately show ?thesis using assms(1,2) that
    by (simp add: sendRsrcRequest_def agps_sendRsrcRequest_def requestRsrc_def emit_def)
qed

lemma upd_simps [simp]:
  "some_active (sm\<lparr>mStatePtr := st\<rparr>) = some_active sm" "wf_subs (sm\<lparr>mStatePtr := st\<rparr>) = wf_subs sm"
  "last_request (sm\<lparr>mStatePtr := st\<rparr>) = last_request sm"
  "some_active (tell st' ss sm) = some_active sm" "wf_subs (tell st' ss sm) = wf_subs sm" "last_request (tell st' ss sm) = last_request sm"
  "some_active (sm\<lparr>trace := t\<rparr>) = some_active sm" "wf_subs (sm\<lparr>trace := t\<rparr>) = wf_subs sm"
  by (simp_all add: some_active_def wf_subs_def last_request_def)

lemma some_active_nonempty: "some_active sm \<Longrightarrow> mSubscribers sm \<noteq> []"
  by (auto simp: some_active_def)

lemma hasActive_some [simp]: "hasActiveSubscribers e sm = some_active sm"
  by (simp add: hasActive_iff some_active_def)

text \<open>The common end of the UNSUBSCRIBE cases of the pending and the acquired state.\<close>

lemma leave_step_ok:
  assumes ok: "agps_ok dr sm" and a: "(a, s) \<in> set (mSubscribers sm)" and st: "mStatePtr sm = st" "st = PendingState \<or> st = AcquiredState"
  shows "agps_ok dr (let (st', sm2) = (let sm1 = leave e a sm
         in if \<not> hasSubscribers sm1 then (ReleasedState, snd (sendRsrcRequest e GPS_RELEASE_AGPS_DATA_CONN sm1))
            else if \<not> hasActiveSubscribers e sm1
            then (ReleasingState, snd (sendRsrcRequest e GPS_RELEASE_AGPS_DATA_CONN sm1))
            else (st, sm1)) in sm2\<lparr>mStatePtr := st'\<rparr>)"
proof -
  let ?l = "leave e a sm"
  have wf: "wf_subs sm" and l: "wf_subs ?l" "frame sm ?l" using ok leave_ok[of sm a s e] a by (auto simp: agps_ok_def)
  have base: "\<not> isDS ?l" "mServicer ?l = servicerTypeAgps" "last_request ?l = Some GPS_REQUEST_AGPS_DATA_CONN"
    using ok l st by (auto simp: agps_ok_def frame_def)
  show ?thesis
  proof (cases "some_active ?l")
    case True
    with base l st(2) show ?thesis
      using some_active_nonempty[OF True] by (auto simp: hasSubscribers_iff agps_ok_def Let_def)
  next
    case False
    obtain t where t: "sendRsrcRequest e GPS_RELEASE_AGPS_DATA_CONN ?l = (0, ?l\<lparr>trace := t\<rparr>)"
      "requests t = requests (trace ?l) @ [GPS_RELEASE_AGPS_DATA_CONN]"
      using send_ok[OF base(1,2), of GPS_RELEASE_AGPS_DATA_CONN e] False by auto
    then show ?thesis using False base l
      by (auto simp: hasSubscribers_iff agps_ok_def last_request_def Let_def)
  qed
qed

fun event_ok :: "AgpsStateMachine \<Rightarrow> rsrc_event \<Rightarrow> bool" where
  "event_ok sm (Ev_SUBSCRIBE s) = plain s"
| "event_ok sm (Ev_UNSUBSCRIBE a) = (a \<in> fst ` set (mSubscribers sm))"
| "event_ok sm ev = True"

lemma released_step_ok:
  assumes "agps_ok dr sm" "event_ok sm ev" "mStatePtr sm = ReleasedState"
  shows "agps_ok dr (state_step e ev sm)"
proof (cases ev)
  case (Ev_SUBSCRIBE s)
  let ?a = "addSubscriber e s sm"
  have wf: "wf_subs sm" "plain s" using assms Ev_SUBSCRIBE by (auto simp: agps_ok_def)
  note a = addSubscriber_ok[OF wf, of e]
  have act: "some_active ?a" and base: "\<not> isDS ?a" "mServicer ?a = servicerTypeAgps"
    using assms a by (auto simp: agps_ok_def frame_def)
  obtain t where t: "sendRsrcRequest e GPS_REQUEST_AGPS_DATA_CONN ?a = (0, ?a\<lparr>trace := t\<rparr>)"
    "requests t = requests (trace ?a) @ [GPS_REQUEST_AGPS_DATA_CONN]"
    using send_ok[OF base, of GPS_REQUEST_AGPS_DATA_CONN e] act by auto
  then show ?thesis using a act base Ev_SUBSCRIBE assms(3)
    by (auto simp: state_step_def AgpsReleasedState_onRsrcEvent_def agps_ok_def last_request_def)
qed (use assms in \<open>auto simp: state_step_def AgpsReleasedState_onRsrcEvent_def agps_ok_def\<close>)

lemma broadcast_ok:
  fixes e g d
  assumes "agps_ok dr sm" "announced st"
  defines "sm' \<equiv> notifySubscribers e \<lparr>rcver = None, groupID = g, rsrcStatus = st, postNotifyDelete = d\<rparr> sm"
  shows "wf_subs sm'" "\<not> isDS sm'" "mServicer sm' = servicerTypeAgps" "last_request sm' = last_request sm"
  using group_ok[of sm "\<lparr>rcver = None, groupID = g, rsrcStatus = st, postNotifyDelete = d\<rparr>" e] assms
  by (auto simp: agps_ok_def frame_def)

lemma broadcast_subs:
  assumes "announced st"
  shows "mSubscribers (notifySubscribers e \<lparr>rcver = None, groupID = g, rsrcStatus = st, postNotifyDelete = d\<rparr> sm) =
    filter (\<lambda>x. \<not> (d \<and> (g = BROADCAST_ALL \<or> g = BROADCAST_ACTIVE \<and> \<not> isInactive (snd x) \<or>
      g = BROADCAST_INACTIVE \<and> isInactive (snd x)))) (mSubscribers sm)"
  using assms by (simp add: notifySubscribers_group forMe_def eq_commute cong: conj_cong)

lemmas announced_simps [simp] = announced_def

lemma pending_step_ok:
  assumes "agps_ok dr sm" "event_ok sm ev" "mStatePtr sm = PendingState"
  shows "agps_ok dr (state_step e ev sm)"
proof (cases ev)
  case (Ev_SUBSCRIBE s)
  then have "plain s" "wf_subs sm" using assms by (auto simp: agps_ok_def)
  from addSubscriber_ok[OF this(2,1), of e] show ?thesis using assms Ev_SUBSCRIBE
    by (auto simp: state_step_def AgpsPendingState_onRsrcEvent_def agps_ok_def frame_def)
next
  case (Ev_UNSUBSCRIBE a)
  then obtain s where "(a, s) \<in> set (mSubscribers sm)" using assms(2) by auto
  from leave_step_ok[OF assms(1) this assms(3), of e] show ?thesis using assms(3) Ev_UNSUBSCRIBE
    by (simp add: state_step_def AgpsPendingState_onRsrcEvent_def)
next
  case Ev_GRANTED
  then show ?thesis using assms broadcast_ok[OF assms(1), of RSRC_GRANTED e BROADCAST_ACTIVE False]
      broadcast_subs[of RSRC_GRANTED e BROADCAST_ACTIVE False sm]
    by (auto simp: state_step_def AgpsPendingState_onRsrcEvent_def agps_ok_def some_active_def)
next
  case Ev_DENIED
  then show ?thesis using assms broadcast_ok[OF assms(1), of RSRC_DENIED e BROADCAST_ALL True]
      broadcast_subs[of RSRC_DENIED e BROADCAST_ALL True sm]
    by (auto simp: state_step_def AgpsPendingState_onRsrcEvent_def agps_ok_def)
qed (use assms in \<open>auto simp: state_step_def AgpsPendingState_onRsrcEvent_def agps_ok_def\<close>)

lemma acquired_step_ok:
  assumes "agps_ok dr sm" "event_ok sm ev" "mStatePtr sm = AcquiredState"
  shows "agps_ok dr (state_step e ev sm)"
proof (cases ev)
  case (Ev_SUBSCRIBE s)
  let ?n = "\<lparr>rcver = Some (Caller s), groupID = NO_GROUP, rsrcStatus = RSRC_GRANTED, postNotifyDelete = False\<rparr>"
  have n: "notifyRsrcStatus e ?n s sm = (True, tell RSRC_GRANTED [s] sm)"
    by (subst notify_announced) (simp_all add: forMe_def)
  have f: "frame sm (tell RSRC_GRANTED [s] sm)" "wf_subs (tell RSRC_GRANTED [s] sm)" "plain s"
    "some_active (tell RSRC_GRANTED [s] sm) = some_active sm"
    using assms Ev_SUBSCRIBE by (auto simp: agps_ok_def wf_subs_def some_active_def)
  from addSubscriber_ok[OF f(2,3), of e] show ?thesis using assms Ev_SUBSCRIBE n f
    by (auto simp: state_step_def AgpsAcquiredState_onRsrcEvent_def agps_ok_def frame_def Let_def)
next
  case (Ev_UNSUBSCRIBE a)
  then obtain s where "(a, s) \<in> set (mSubscribers sm)" using assms(2) by auto
  from leave_step_ok[OF assms(1) this assms(3), of e] show ?thesis using assms(3) Ev_UNSUBSCRIBE
    by (simp add: state_step_def AgpsAcquiredState_onRsrcEvent_def)
next
  case Ev_RELEASED
  then show ?thesis using assms broadcast_ok[OF assms(1), of RSRC_RELEASED e BROADCAST_ALL True]
      broadcast_subs[of RSRC_RELEASED e BROADCAST_ALL True sm]
    by (auto simp: state_step_def AgpsAcquiredState_onRsrcEvent_def agps_ok_def)
qed (use assms in \<open>auto simp: state_step_def AgpsAcquiredState_onRsrcEvent_def agps_ok_def\<close>)

text \<open>The common case of the releasing state: the inactive subscribers go, and the resource is asked for again when
  others came meanwhile.\<close>

lemma releasing_end_ok:
  assumes "agps_ok dr sm" "announced st"
  shows "agps_ok dr (let (st', sm2) =
      (let sm1 = notifySubscribers e \<lparr>rcver = None, groupID = BROADCAST_INACTIVE, rsrcStatus = st, postNotifyDelete = True\<rparr> sm
       in if hasActiveSubscribers e sm1 then (PendingState, snd (sendRsrcRequest e GPS_REQUEST_AGPS_DATA_CONN sm1))
          else (ReleasedState, sm1)) in sm2\<lparr>mStatePtr := st'\<rparr>)"
proof -
  let ?n = "notifySubscribers e \<lparr>rcver = None, groupID = BROADCAST_INACTIVE, rsrcStatus = st, postNotifyDelete = True\<rparr> sm"
  note b = broadcast_ok[OF assms, of e BROADCAST_INACTIVE True]
  show ?thesis
  proof (cases "some_active ?n")
    case True
    obtain t where "sendRsrcRequest e GPS_REQUEST_AGPS_DATA_CONN ?n = (0, ?n\<lparr>trace := t\<rparr>)"
      "requests t = requests (trace ?n) @ [GPS_REQUEST_AGPS_DATA_CONN]"
      using send_ok[OF b(2,3), of GPS_REQUEST_AGPS_DATA_CONN e] True by auto
    then show ?thesis using True b by (auto simp: agps_ok_def last_request_def Let_def)
  next
    case False
    then have "mSubscribers ?n = []"
      using broadcast_subs[OF assms(2), of e BROADCAST_INACTIVE True sm] by (auto simp: some_active_def filter_empty_conv)
    then show ?thesis using False b by (simp add: agps_ok_def Let_def)
  qed
qed

lemma releasing_step_ok:
  assumes "agps_ok dr sm" "event_ok sm ev" "mStatePtr sm = ReleasingState"
  shows "agps_ok dr (state_step e ev sm)"
proof (cases ev)
  case (Ev_SUBSCRIBE s)
  then have "plain s" "wf_subs sm" using assms by (auto simp: agps_ok_def)
  from addSubscriber_ok[OF this(2,1), of e] show ?thesis using assms Ev_SUBSCRIBE
    by (auto simp: state_step_def AgpsReleasingState_onRsrcEvent_def agps_ok_def frame_def)
next
  case (Ev_UNSUBSCRIBE a)
  then obtain s where "(a, s) \<in> set (mSubscribers sm)" using assms(2) by auto
  then have "wf_subs (leave e a sm)" "frame sm (leave e a sm)" using leave_ok[of sm a s e] assms(1) by (auto simp: agps_ok_def)
  then show ?thesis using assms Ev_UNSUBSCRIBE
    by (auto simp: state_step_def AgpsReleasingState_onRsrcEvent_def agps_ok_def frame_def hasSubscribers_iff Let_def)
next
  case Ev_RELEASED
  then show ?thesis using releasing_end_ok[OF assms(1), of RSRC_RELEASED e] assms(3)
    by (simp add: state_step_def AgpsReleasingState_onRsrcEvent_def)
next
  case Ev_DENIED
  then show ?thesis using releasing_end_ok[OF assms(1), of RSRC_DENIED e] assms(3)
    by (simp add: state_step_def AgpsReleasingState_onRsrcEvent_def)
qed (use assms in \<open>auto simp: state_step_def AgpsReleasingState_onRsrcEvent_def agps_ok_def\<close>)

lemma state_step_ok: "agps_ok dr sm \<Longrightarrow> event_ok sm ev \<Longrightarrow> agps_ok dr (state_step e ev sm)"
  by (cases "mStatePtr sm") (auto intro: released_step_ok pending_step_ok acquired_step_ok releasing_step_ok)

section \<open>Scripts of operations\<close>

datatype agps_op = Op_subscribe agps_env Subscriber | Op_unsubscribe agps_env Subscriber | Op_event agps_env AgpsRsrcStatus
  | Op_setAPN "string option" nat | Op_setBearer AGpsBearerType | Op_dropAll

fun agps_exec :: "agps_op \<Rightarrow> bool \<times> AgpsStateMachine \<Rightarrow> fault + bool \<times> AgpsStateMachine" where
  "agps_exec (Op_subscribe e s) (dr, sm) = Inr (dr, subscribeRsrc e s sm)"
| "agps_exec (Op_unsubscribe e s) (dr, sm) = Inr (dr, snd (unsubscribeRsrc e s sm))"
| "agps_exec (Op_event e ev) (dr, sm) = Inr (dr, onRsrcEvent e ev sm)"
| "agps_exec (Op_setAPN apn len) (dr, sm) = Inr (dr, setAPN apn len sm)"
| "agps_exec (Op_setBearer b) (dr, sm) = Inr (dr, setBearer b sm)"
| "agps_exec Op_dropAll (dr, sm) = Inr (True, dropAllSubscribers sm)"

fun agps_op_ok :: "agps_op \<Rightarrow> bool" where
  "agps_op_ok (Op_subscribe e s) = (plain s \<and> \<not> is_DSSubscriber s)"
| "agps_op_ok op = True"

lemma subscribe_ok:
  assumes "agps_ok dr sm" "plain s"
  shows "agps_ok dr (subscribeRsrc e s sm)"
proof (cases "mEnforceSingleSubscriber sm \<and> hasSubscribers sm")
  case True
  have "agps_ok dr (tell RSRC_DENIED [s] sm)"
    using assms by (simp add: agps_ok_def split: AgpsState.splits)
  then show ?thesis using True assms by (simp add: subscribeRsrc_def notify_announced forMe_def)
qed (use assms state_step_ok[of dr sm "Ev_SUBSCRIBE s" e] in \<open>auto simp: subscribeRsrc_def\<close>)

lemma unsubscribe_ok:
  assumes "agps_ok dr sm"
  shows "agps_ok dr (snd (unsubscribeRsrc e s sm))"
proof (cases "search_subscriber e (Notification_sub (Caller s)) sm")
  case (Some x)
  then have "x \<in> set (mSubscribers sm)" using find_remove1(4) by (fastforce simp: search_subscriber_find)
  then have "event_ok sm (Ev_UNSUBSCRIBE (fst x))" by simp
  then show ?thesis using Some state_step_ok[OF assms] by (cases x) (simp add: unsubscribeRsrc_def)
qed (use assms in \<open>simp add: unsubscribeRsrc_def\<close>)

lemma event_step_ok: "agps_ok dr sm \<Longrightarrow> agps_ok dr (onRsrcEvent e ev sm)"
  using state_step_ok[of dr sm] by (cases ev) (auto simp: onRsrcEvent_def agps_ok_def)

interpretation agps: guarded_ops agps_exec "\<lambda>(dr, sm). agps_ok dr sm" agps_op_ok
proof
  fix s :: "bool \<times> AgpsStateMachine" and op
  assume "case s of (dr, sm) \<Rightarrow> agps_ok dr sm" "agps_op_ok op"
  then obtain dr sm where s: "s = (dr, sm)" "agps_ok dr sm" by (cases s) auto
  have f: "agps_ok dr (setAPN apn len sm)" "agps_ok dr (setBearer b sm)" "agps_ok True (dropAllSubscribers sm)" for apn len b
    using s(2) by (auto simp: setAPN_def setBearer_def dropAllSubscribers_def list_flush_def agps_ok_def wf_subs_def
      some_active_def last_request_def split: option.split AgpsState.splits)
  show "\<exists>s'. agps_exec op s = Inr s' \<and> (case s' of (dr, sm) \<Rightarrow> agps_ok dr sm)"
    using s f subscribe_ok[OF s(2)] unsubscribe_ok[OF s(2)] event_step_ok[OF s(2)] \<open>agps_op_ok op\<close>
    by (cases op) auto
qed

lemma run_dropped:
  "run_ops agps_exec ops (dr, sm) = Inr (dr', sm') \<Longrightarrow> Op_dropAll \<notin> set ops \<Longrightarrow> dr' = dr"
proof (induction ops arbitrary: dr sm)
  case (Cons op ops)
  then show ?case by (cases op) auto
qed simp

lemma agps_ok_new: "agps_ok False (AgpsStateMachine_new servicerTypeAgps type single)"
  by (simp add: agps_ok_def AgpsStateMachine_new_def wf_subs_def)

lemma stale_intact:
  assumes "wf_subs sm" "(a, s) \<in> set (mSubscribers sm)" "stale e a = s"
  shows "survivors e a (mSubscribers sm) = filter (\<lambda>x. fst x \<noteq> a) (mSubscribers sm)"
proof -
  have "\<not> equals e (snd x) s" if "x \<in> set (mSubscribers sm)" "fst x \<noteq> a" for x
    using wf_subs_eq[OF assms(1,2), of "fst x" "snd x" e] that by auto
  then show ?thesis using assms(3) by (auto simp: survivors_def intro: filter_cong)
qed

section \<open>Properties\<close>

text \<open>C30. Any sequence of subscriptions (of BIT subscribers, and of ATL and WIFI subscribers whose ID is not \<^verbatim>\<open>INADDR_NONE\<close>), unsubscriptions, resource
  events and settings leaves an AGPS state machine, other than the one for data services, in a consistent state, whatever the memory of deleted objects holds: the listed subscribers have different addresses
  and different keys; the released state has no subscribers; the pending and the acquired state have an active one, and the
  last request to the framework asked for the resource; the releasing state has subscribers, and the last request gave the
  resource back. After \<open>dropAllSubscribers\<close> only the presence of subscribers is no longer guaranteed.\<close>

theorem agps_invariant:
  assumes "\<forall>op \<in> set ops. agps_op_ok op"
  shows "\<exists>dropped sm. run_ops agps_exec ops (False, AgpsStateMachine_new servicerTypeAgps type single) = Inr (dropped, sm) \<and>
     agps_ok dropped sm \<and> (Op_dropAll \<notin> set ops \<longrightarrow> \<not> dropped)"
proof -
  obtain dr sm where "run_ops agps_exec ops (False, AgpsStateMachine_new servicerTypeAgps type single) = Inr (dr, sm)"
    "agps_ok dr sm" using agps.run_inv[of "(False, AgpsStateMachine_new servicerTypeAgps type single)" ops] assms agps_ok_new by auto
  then show ?thesis using run_dropped by blast
qed

definition quiet_env :: agps_env where
  "quiet_env = \<lparr>stale = (\<lambda>a. ATLSubscriber 7 False), raw_bytes = (\<lambda>s. []), servicer_ret = 0, timer_ret = 0\<rparr>"

theorem agps_invariant_witness:
  "\<exists>dropped sm. run_ops agps_exec
     [Op_subscribe quiet_env (ATLSubscriber 1 False), Op_subscribe quiet_env (BITSubscriber_new 2 None),
      Op_event quiet_env RSRC_GRANTED, Op_unsubscribe quiet_env (ATLSubscriber 1 False)]
     (False, AgpsStateMachine_new servicerTypeAgps AGPS_TYPE_SUPL False) = Inr (dropped, sm) \<and> agps_ok dropped sm \<and> \<not> dropped"
  using agps_invariant[of "[Op_subscribe quiet_env (ATLSubscriber 1 False), Op_subscribe quiet_env (BITSubscriber_new 2 None),
      Op_event quiet_env RSRC_GRANTED, Op_unsubscribe quiet_env (ATLSubscriber 1 False)]" AGPS_TYPE_SUPL False]
  by (simp add: plain_def INADDR_NONE_def BITSubscriber_new_def)

text \<open>C31. The framework's answers reach the subscribers, on both kinds of machine. In the pending state, when the resource is granted every active
  subscriber is told once, in list order, and all stay; when it is denied every subscriber is told once and the list is empty. In the
  acquired state, when the resource is taken away every subscriber is told once and the list is empty. A release in the pending state (of the machine that is not for data services), a grant or denial in the
  acquired state and a grant in the releasing state change nothing. (In the releasing state a denial or release goes to the inactive subscribers only.)\<close>

theorem resource_events_answer:
  "(mStatePtr sm = PendingState \<longrightarrow>
      (let sm' = onRsrcEvent e RSRC_GRANTED sm in mStatePtr sm' = AcquiredState \<and> mSubscribers sm' = mSubscribers sm \<and>
        trace sm' = trace sm @ concat (map (told sm RSRC_GRANTED) (filter (\<lambda>s. \<not> isInactive s) (map snd (mSubscribers sm)))))) \<and>
   (mStatePtr sm = PendingState \<longrightarrow>
      (let sm' = onRsrcEvent e RSRC_DENIED sm in mStatePtr sm' = ReleasedState \<and> mSubscribers sm' = [] \<and>
        trace sm' = trace sm @ concat (map (told sm RSRC_DENIED) (map snd (mSubscribers sm))))) \<and>
   (mStatePtr sm = AcquiredState \<longrightarrow>
      (let sm' = onRsrcEvent e RSRC_RELEASED sm in mStatePtr sm' = ReleasedState \<and> mSubscribers sm' = [] \<and>
        trace sm' = trace sm @ concat (map (told sm RSRC_RELEASED) (map snd (mSubscribers sm))))) \<and>
   ((mStatePtr sm, st) \<in> {(PendingState, RSRC_RELEASED), (AcquiredState, RSRC_GRANTED), (AcquiredState, RSRC_DENIED), (ReleasingState, RSRC_GRANTED)} \<and>
      \<not> (isDS sm \<and> st = RSRC_RELEASED) \<longrightarrow> onRsrcEvent e st sm = sm)"
  by (auto simp: onRsrcEvent_def state_step_def Let_def AgpsPendingState_onRsrcEvent_def AgpsAcquiredState_onRsrcEvent_def AgpsReleasingState_onRsrcEvent_def
    notifySubscribers_group forMe_def filter_map o_def)

theorem resource_events_answer_witness:
  "let sm = subscribeRsrc quiet_env (ATLSubscriber 1 False) (AgpsStateMachine_new servicerTypeAgps AGPS_TYPE_SUPL False)
   in last (trace (onRsrcEvent quiet_env RSRC_GRANTED sm)) = atlOpenStatus 1 1 None AGPS_APN_BEARER_INVALID AGPS_TYPE_SUPL"
proof -
  let ?sm = "subscribeRsrc quiet_env (ATLSubscriber 1 False) (AgpsStateMachine_new servicerTypeAgps AGPS_TYPE_SUPL False)"
  have "mStatePtr ?sm = PendingState" "mSubscribers ?sm = [(0, ATLSubscriber 1 False)]" "mType ?sm = AGPS_TYPE_SUPL"
    "mAPN ?sm = None" "mBearer ?sm = AGPS_APN_BEARER_INVALID" by code_simp+
  then show ?thesis using resource_events_answer[of ?sm quiet_env] by (simp add: Let_def)
qed

text \<open>Unsubscribing a subscriber that need not wait for the close (BIT, ATL) deletes it and every other subscriber that
  equals what the memory of the deleted object then holds; when that memory is intact, exactly the one subscriber goes. The
  resource is given back to the framework exactly when no active subscriber is left, and the next state is the one that fits
  the remaining list.\<close>

theorem unsubscribe_effect:
  assumes "agps_ok dropped sm" and "mStatePtr sm \<noteq> ReleasedState"
    and "search_subscriber e (Notification_sub (Caller c)) sm = Some (a, s)" and "\<not> waitForCloseComplete s"
  shows "let (r, sm') = unsubscribeRsrc e c sm; rest = mSubscribers sm' in
     r \<and> rest = filter (\<lambda>x. fst x \<noteq> a \<and> \<not> equals e (snd x) (stale e a)) (mSubscribers sm) \<and>
     (stale e a = s \<longrightarrow> rest = filter (\<lambda>x. fst x \<noteq> a) (mSubscribers sm)) \<and>
     requests (trace sm') = requests (trace sm) @
       (if (\<exists>x \<in> set rest. \<not> isInactive (snd x)) \<or> mStatePtr sm = ReleasingState then [] else [GPS_RELEASE_AGPS_DATA_CONN]) \<and>
     mStatePtr sm' = (if rest = [] then ReleasedState else if \<exists>x \<in> set rest. \<not> isInactive (snd x) then mStatePtr sm
       else ReleasingState)"
proof -
  have a: "(a, s) \<in> set (mSubscribers sm)"
    using assms(3) find_remove1(4) by (fastforce simp: search_subscriber_find)
  have wf: "wf_subs sm" and base: "\<not> isDS sm" "mServicer sm = servicerTypeAgps" using assms(1) by (auto simp: agps_ok_def)
  let ?l = "leave e a sm" and ?rest = "survivors e a (mSubscribers sm)"
  note l = leave_delete[OF wf a assms(4), of e]
  have lf: "mSubscribers ?l = ?rest" "requests (trace ?l) = requests (trace sm)" "\<not> isDS ?l" "mServicer ?l = servicerTypeAgps"
    using l base by (simp_all del: map_map)
  have act: "some_active ?l \<longleftrightarrow> (\<exists>x \<in> set ?rest. \<not> isInactive (snd x))" using lf(1) by (simp add: some_active_def)
  have send: "\<exists>t. sendRsrcRequest e GPS_RELEASE_AGPS_DATA_CONN ?l = (0, ?l\<lparr>trace := t\<rparr>) \<and>
      requests t = requests (trace sm) @ [GPS_RELEASE_AGPS_DATA_CONN]" if "\<not> some_active ?l"
    using send_ok[OF lf(3,4), of GPS_RELEASE_AGPS_DATA_CONN e] that lf(2) by auto
  define sm' where "sm' = state_step e (Ev_UNSUBSCRIBE a) sm"
  have "mSubscribers sm' = ?rest \<and> requests (trace sm') = requests (trace sm) @
       (if some_active ?l \<or> mStatePtr sm = ReleasingState then [] else [GPS_RELEASE_AGPS_DATA_CONN]) \<and>
     mStatePtr sm' = (if ?rest = [] then ReleasedState else if some_active ?l then mStatePtr sm else ReleasingState)"
    using assms(1,2) lf send some_active_nonempty[of ?l]
    by (cases "mStatePtr sm"; cases "some_active ?l")
      (auto simp: sm'_def state_step_def AgpsPendingState_onRsrcEvent_def AgpsAcquiredState_onRsrcEvent_def
        AgpsReleasingState_onRsrcEvent_def hasSubscribers_iff agps_ok_def Let_def)
  moreover have "unsubscribeRsrc e c sm = (True, sm')" using assms(3) by (simp add: unsubscribeRsrc_def sm'_def)
  ultimately show ?thesis using stale_intact[OF wf a, of e] unfolding act survivors_def by simp
qed

theorem unsubscribe_effect_witness:
  "let sm = onRsrcEvent quiet_env RSRC_GRANTED (subscribeRsrc quiet_env (ATLSubscriber 2 False)
       (subscribeRsrc quiet_env (ATLSubscriber 1 False) (AgpsStateMachine_new servicerTypeAgps AGPS_TYPE_SUPL False)))
   in fst (unsubscribeRsrc quiet_env (ATLSubscriber 1 False) sm) \<and>
      mSubscribers (snd (unsubscribeRsrc quiet_env (ATLSubscriber 1 False) sm)) = [(1, ATLSubscriber 2 False)]"
proof -
  let ?sm = "onRsrcEvent quiet_env RSRC_GRANTED (subscribeRsrc quiet_env (ATLSubscriber 2 False)
       (subscribeRsrc quiet_env (ATLSubscriber 1 False) (AgpsStateMachine_new servicerTypeAgps AGPS_TYPE_SUPL False)))"
  have m: "mSubscribers ?sm = [(1, ATLSubscriber 2 False), (0, ATLSubscriber 1 False)]" by code_simp
  have ok: "agps_ok False ?sm"
    by (intro event_step_ok subscribe_ok agps_ok_new) (simp_all add: plain_def INADDR_NONE_def)
  have st: "mStatePtr ?sm \<noteq> ReleasedState"
    "search_subscriber quiet_env (Notification_sub (Caller (ATLSubscriber 1 False))) ?sm = Some (0, ATLSubscriber 1 False)"
    by code_simp+
  have "stale quiet_env 0 = ATLSubscriber 7 False" by (simp add: quiet_env_def)
  with unsubscribe_effect[OF ok st] m show ?thesis by (simp add: Let_def split: prod.splits)
qed

text \<open>With two ATL clients, a deleted object whose memory happens to read as the other one makes the unsubscription of
  the first remove the second as well: it is told that it is closed, the list is empty and the resource is given back
  although the second client still uses it.\<close>

theorem unsubscribe_reads_deleted:
  "let e = quiet_env\<lparr>stale := (\<lambda>a. ATLSubscriber 2 False)\<rparr>;
       sm = onRsrcEvent e RSRC_GRANTED (subscribeRsrc e (ATLSubscriber 2 False)
         (subscribeRsrc e (ATLSubscriber 1 False) (AgpsStateMachine_new servicerTypeAgps AGPS_TYPE_SUPL False)));
       sm' = snd (unsubscribeRsrc e (ATLSubscriber 1 False) sm)
   in map snd (mSubscribers sm) = [ATLSubscriber 2 False, ATLSubscriber 1 False] \<and>
      mSubscribers sm' = [] \<and> mStatePtr sm' = ReleasedState \<and> atlCloseStatus 2 1 \<in> set (trace sm') \<and>
      last (requests (trace sm')) = GPS_RELEASE_AGPS_DATA_CONN"
  by code_simp

text \<open>A client that subscribes again while the release of its earlier subscription is pending is lost: the machine finds
  its inactive subscriber and changes nothing, and when the release completes that subscriber is dropped.\<close>

theorem resubscribe_lost:
  assumes "agps_ok dropped sm" and "mStatePtr sm = ReleasingState" and "\<not> mEnforceSingleSubscriber sm"
    and "(a, s) \<in> set (mSubscribers sm)" and "isInactive s" and "equals e s c"
  shows "subscribeRsrc e c sm = sm \<and>
    (a, s) \<notin> set (mSubscribers (onRsrcEvent e' RSRC_RELEASED (subscribeRsrc e c sm)))"
proof -
  have "search_subscriber e (Notification_sub (Caller c)) sm \<noteq> None"
  proof
    assume "search_subscriber e (Notification_sub (Caller c)) sm = None"
    then show False using assms(4,6) by (auto simp: search_subscriber_find find_None_iff)
  qed
  then have 1: "subscribeRsrc e c sm = sm" using assms(2,3)
    by (auto simp: subscribeRsrc_def state_step_def AgpsReleasingState_onRsrcEvent_def addSubscriber_def Let_def)
  let ?n = "\<lparr>rcver = None, groupID = BROADCAST_INACTIVE, rsrcStatus = RSRC_RELEASED, postNotifyDelete = True\<rparr>"
  have b: "wf_subs (notifySubscribers e' ?n sm)" "\<not> isDS (notifySubscribers e' ?n sm)"
    "mServicer (notifySubscribers e' ?n sm) = servicerTypeAgps"
    using broadcast_ok[OF assms(1), of RSRC_RELEASED e' BROADCAST_INACTIVE True] by simp_all
  have "mSubscribers (snd (sendRsrcRequest e' act sm1)) = mSubscribers sm1" if "\<not> isDS sm1" for act sm1
    using that by (auto simp: sendRsrcRequest_def agps_sendRsrcRequest_def requestRsrc_def emit_def Let_def split: servicerType.split)
  then have "mSubscribers (state_step e' Ev_RELEASED sm) = mSubscribers (notifySubscribers e' ?n sm)"
    using b(2) assms(2) by (simp add: state_step_def AgpsReleasingState_onRsrcEvent_def Let_def)
  then have "(a, s) \<notin> set (mSubscribers (state_step e' Ev_RELEASED sm))"
    using assms(5) broadcast_subs[of RSRC_RELEASED e' BROADCAST_INACTIVE True sm] by simp
  then show ?thesis using 1 assms(1) by (simp add: onRsrcEvent_def agps_ok_def)
qed

theorem resubscribe_lost_witness:
  "let w = WIFISubscriber_new None None 3;
       sm = snd (unsubscribeRsrc quiet_env w (subscribeRsrc quiet_env w (AgpsStateMachine_new servicerTypeAgps AGPS_TYPE_SUPL False)))
   in mStatePtr sm = ReleasingState \<and> subscribeRsrc quiet_env w sm = sm"
proof -
  let ?w = "WIFISubscriber_new None None 3"
  let ?sm = "snd (unsubscribeRsrc quiet_env ?w (subscribeRsrc quiet_env ?w (AgpsStateMachine_new servicerTypeAgps AGPS_TYPE_SUPL False)))"
  have ok: "agps_ok False ?sm"
    by (intro unsubscribe_ok subscribe_ok agps_ok_new) (simp add: plain_def INADDR_NONE_def WIFISubscriber_new_def)
  have st: "mStatePtr ?sm = ReleasingState" "\<not> mEnforceSingleSubscriber ?sm"
    "mSubscribers ?sm = [(0, WIFISubscriber 3 None None True)]" by code_simp+
  from resubscribe_lost[OF ok st(1,2), of 0 "WIFISubscriber 3 None None True" quiet_env ?w] st
  show ?thesis by (simp add: Let_def WIFISubscriber_new_def)
qed

text \<open>C32. An emergency data call that the engine refuses as busy is tried again, by the timer, four times; the fifth refusal
  falls back to a normal ATL request and clears the counter. The machine stays in the released state throughout, and
  the subscriber stays in its list, also after the fallback.\<close>

theorem ds_retries:
  assumes "servicer_ret e = LOC_API_ADAPTER_ERR_ENGINE_BUSY" and "timer_ret e = 0"
  shows "let sm = (subscribeRsrc e (DSSubscriber i False) ^^ 5) (DSStateMachine_new servicerTypeExt);
       attempt = [callbackExt (DsCbData GPS_REQUEST_AGPS_DATA_CONN)]; again = attempt @ [timer_start 500]
   in trace sm = again @ again @ again @ again @ attempt @ [requestATL i AGPS_TYPE_SUPL] \<and> mRetries sm = 0 \<and>
      mStatePtr sm = ReleasedState \<and> mSubscribers sm = [(0, DSSubscriber i False)]"
proof -
  have five: "(5 :: nat) = Suc (Suc (Suc (Suc (Suc 0))))" by simp
  let ?l = "[(0, DSSubscriber i False)]"
  let ?m = "\<lambda>r n t. (DSStateMachine_new servicerTypeExt)\<lparr>mSubscribers := ?l, mRetries := r, next_addr := n, trace := t\<rparr>"
  have first: "subscribeRsrc e (DSSubscriber i False) (DSStateMachine_new servicerTypeExt) = ?m 1 1
      [callbackExt (DsCbData GPS_REQUEST_AGPS_DATA_CONN), timer_start 500]"
    using assms by (simp add: subscribeRsrc_def state_step_def AgpsReleasedState_onRsrcEvent_def DSStateMachine_new_def
      AgpsStateMachine_new_def addSubscriber_def search_subscriber_find list_add_def sendRsrcRequest_def ds_sendRsrcRequest_def
      requestRsrc_def emit_def MAX_START_DATA_CALL_RETRIES_def DATA_CALL_RETRY_DELAY_MSEC_def)
  have step: "subscribeRsrc e (DSSubscriber i False) (?m r 1 t) = (if r + 1 > 4
      then ?m 0 1 (t @ [callbackExt (DsCbData GPS_REQUEST_AGPS_DATA_CONN), requestATL i AGPS_TYPE_SUPL])
      else ?m (r + 1) 1 (t @ [callbackExt (DsCbData GPS_REQUEST_AGPS_DATA_CONN), timer_start 500]))" for r t
    using assms by (simp add: subscribeRsrc_def state_step_def AgpsReleasedState_onRsrcEvent_def DSStateMachine_new_def
      AgpsStateMachine_new_def addSubscriber_def search_subscriber_find sendRsrcRequest_def ds_sendRsrcRequest_def
      requestRsrc_def emit_def MAX_START_DATA_CALL_RETRIES_def DATA_CALL_RETRY_DELAY_MSEC_def)
  show ?thesis using first step by (simp add: five DSStateMachine_new_def AgpsStateMachine_new_def Let_def)
qed

theorem ds_retries_witness:
  "mRetries ((subscribeRsrc (quiet_env\<lparr>servicer_ret := 6\<rparr>) (DSSubscriber 9 False) ^^ 5) (DSStateMachine_new servicerTypeExt)) = 0"
  using ds_retries[of "quiet_env\<lparr>servicer_ret := 6\<rparr>" 9] by (simp add: quiet_env_def Let_def)

end
