(* ===== verification/Msg_Q.thy ===== *)
theory Msg_Q
  imports Linked_List Cmd_Queue
begin

text \<open>
  The message queue of the GPS utilities, \<^verbatim>\<open>gps/utils/msg_q.c\<close>, on top of the linked list: threads send messages, others wait for them
  with a condition variable, and unblocking the queue makes it refuse service and wakes whoever waits. The mutex makes each passage
  between two waits one step; the condition variable wakes one waiting thread on a signal, all of them on a broadcast, and may wake a
  thread at any time for no reason.
\<close>

section \<open>The source\<close>

datatype msq_q_err_type = eMSG_Q_SUCCESS | eMSG_Q_FAILURE_GENERAL | eMSG_Q_INVALID_PARAMETER | eMSG_Q_INVALID_HANDLE
  | eMSG_Q_UNAVAILABLE_RESOURCE | eMSG_Q_INSUFFICIENT_BUFFER

fun convert_linked_list_err_type :: "linked_list_err_type \<Rightarrow> msq_q_err_type" where
  "convert_linked_list_err_type eLINKED_LIST_SUCCESS = eMSG_Q_SUCCESS"
| "convert_linked_list_err_type eLINKED_LIST_INVALID_PARAMETER = eMSG_Q_INVALID_PARAMETER"
| "convert_linked_list_err_type eLINKED_LIST_INVALID_HANDLE = eMSG_Q_INVALID_HANDLE"
| "convert_linked_list_err_type eLINKED_LIST_UNAVAILABLE_RESOURCE = eMSG_Q_UNAVAILABLE_RESOURCE"
| "convert_linked_list_err_type eLINKED_LIST_INSUFFICIENT_BUFFER = eMSG_Q_INSUFFICIENT_BUFFER"
| "convert_linked_list_err_type eLINKED_LIST_FAILURE_GENERAL = eMSG_Q_FAILURE_GENERAL"

text \<open>The mutex and the condition variable are not members: see above.\<close>

record ('d, 'f) msg_q =
  msg_list :: "('d, 'f) list_state option"
  unblocked :: bool

text \<open>\<open>mem\<close> and \<open>lmem\<close> are the two allocations, \<open>mutex\<close> and \<open>cond\<close> the results of the two initialisations.\<close>

definition msg_q_init :: "bool \<Rightarrow> bool \<Rightarrow> bool \<Rightarrow> bool \<Rightarrow> bool \<Rightarrow> (fault + msq_q_err_type \<times> ('d, 'f) msg_q option) option" where
  "msg_q_init out mem lmem mutex cond =
     (if \<not> out then Some (Inr (eMSG_Q_INVALID_PARAMETER, None))
      else if \<not> mem then Some (Inr (eMSG_Q_FAILURE_GENERAL, None))
      else case linked_list_init True lmem of (rc, l) \<Rightarrow>
        if rc \<noteq> eLINKED_LIST_SUCCESS then Some (Inr (eMSG_Q_FAILURE_GENERAL, None))
        else if \<not> mutex \<or> \<not> cond
        then map_option (\<lambda>r. bnd r (\<lambda>(rc, calls :: ('f \<times> 'd) list, l). Inr (eMSG_Q_FAILURE_GENERAL, None))) (linked_list_destroy (Some l))
        else Some (Inr (eMSG_Q_SUCCESS, Some \<lparr>msg_list = l, unblocked = False\<rparr>)))"

definition msg_q_init2 :: "bool \<Rightarrow> bool \<Rightarrow> bool \<Rightarrow> bool \<Rightarrow> (fault + ('d, 'f) msg_q option) option" where
  "msg_q_init2 mem lmem mutex cond =
     map_option (\<lambda>r. bnd r (\<lambda>(rc, q). Inr (if rc \<noteq> eMSG_Q_SUCCESS then None else q))) (msg_q_init True mem lmem mutex cond)"

text \<open>The argument is the handle behind the pointer, \<open>None\<close> when the pointer is NULL. A NULL handle is dereferenced.\<close>

definition msg_q_destroy :: "('d, 'f) msg_q option option \<Rightarrow> (fault + msq_q_err_type \<times> ('f \<times> 'd) list \<times> ('d, 'f) msg_q option option) option" where
  "msg_q_destroy msg_q_data =
     (case msg_q_data of
        None \<Rightarrow> Some (Inr (eMSG_Q_INVALID_HANDLE, [], None))
      | Some None \<Rightarrow> Some (Inl NullDeref)
      | Some (Some q) \<Rightarrow> map_option (\<lambda>r. bnd r (\<lambda>(rc, calls, l). Inr (eMSG_Q_SUCCESS, calls, Some None))) (linked_list_destroy (Some (msg_list q))))"

text \<open>The last component of the result says whether the condition is signalled.\<close>

definition msg_q_snd :: "ptr \<Rightarrow> 'd option \<Rightarrow> 'f option \<Rightarrow> ('d, 'f) msg_q option \<Rightarrow> fault + msq_q_err_type \<times> ('d, 'f) msg_q option \<times> bool" where
  "msg_q_snd elem msg_obj dealloc msg_q_data =
     (case msg_q_data of
        None \<Rightarrow> Inr (eMSG_Q_INVALID_HANDLE, None, False)
      | Some q \<Rightarrow>
          if msg_obj = None then Inr (eMSG_Q_INVALID_PARAMETER, Some q, False)
          else if unblocked q then Inr (eMSG_Q_UNAVAILABLE_RESOURCE, Some q, False)
          else bnd (linked_list_add elem msg_obj dealloc (msg_list q)) (\<lambda>(rc, l). Inr (convert_linked_list_err_type rc, Some (q\<lparr>msg_list := l\<rparr>), True)))"

text \<open>The loop of \<^verbatim>\<open>msg_q_rcv\<close>, from the test of its condition to the next wait (\<open>None\<close>) or to the end of the function.\<close>

definition rcv_loop :: "('d, 'f) msg_q \<Rightarrow> fault + (msq_q_err_type \<times> 'd option) option \<times> ('d, 'f) msg_q" where
  "rcv_loop q =
     (if linked_list_empty (msg_list q) \<noteq> 0 \<and> \<not> unblocked q then Inr (None, q)
      else bnd (linked_list_remove True (msg_list q)) (\<lambda>(rc, d, l). Inr (Some (convert_linked_list_err_type rc, d), q\<lparr>msg_list := l\<rparr>)))"

text \<open>The function up to the first wait or the end.\<close>

definition msg_q_rcv :: "bool \<Rightarrow> ('d, 'f) msg_q option \<Rightarrow> fault + (msq_q_err_type \<times> 'd option) option \<times> ('d, 'f) msg_q option" where
  "msg_q_rcv out msg_q_data =
     (case msg_q_data of
        None \<Rightarrow> Inr (Some (eMSG_Q_INVALID_HANDLE, None), None)
      | Some q \<Rightarrow>
          if \<not> out then Inr (Some (eMSG_Q_INVALID_PARAMETER, None), Some q)
          else if unblocked q then Inr (Some (eMSG_Q_UNAVAILABLE_RESOURCE, None), Some q)
          else bnd (rcv_loop q) (\<lambda>(r, q). Inr (r, Some q)))"

definition msg_q_flush :: "('d, 'f) msg_q option \<Rightarrow> (fault + msq_q_err_type \<times> ('f \<times> 'd) list \<times> ('d, 'f) msg_q option) option" where
  "msg_q_flush msg_q_data =
     (case msg_q_data of
        None \<Rightarrow> Some (Inr (eMSG_Q_INVALID_HANDLE, [], None))
      | Some q \<Rightarrow> map_option (\<lambda>r. bnd r (\<lambda>(rc, calls, l). Inr (convert_linked_list_err_type rc, calls, Some (q\<lparr>msg_list := l\<rparr>)))) (linked_list_flush (msg_list q)))"

text \<open>The last component says whether the condition is broadcast.\<close>

definition msg_q_unblock :: "('d, 'f) msg_q option \<Rightarrow> msq_q_err_type \<times> ('d, 'f) msg_q option \<times> bool" where
  "msg_q_unblock msg_q_data =
     (case msg_q_data of
        None \<Rightarrow> (eMSG_Q_INVALID_HANDLE, None, False)
      | Some q \<Rightarrow> if unblocked q then (eMSG_Q_UNAVAILABLE_RESOURCE, Some q, False) else (eMSG_Q_SUCCESS, Some (q\<lparr>unblocked := True\<rparr>), True))"

section \<open>One thread after the other\<close>

text \<open>The queue holds the messages \<open>xs\<close>, oldest first.\<close>

definition q_rep :: "('d, 'f) msg_q \<Rightarrow> ('d \<times> 'f option) list \<Rightarrow> bool" where
  "q_rep q xs \<longleftrightarrow> (\<exists>s. msg_list q = Some s \<and> ll_rep s (rev xs))"

lemma q_rep_unique: "q_rep q xs \<Longrightarrow> q_rep q ys \<Longrightarrow> xs = ys"
  by (auto simp: q_rep_def dest: ll_rep_unique)

lemma msg_q_init_rep: "msg_q_init True True True True True = Some (Inr (eMSG_Q_SUCCESS, Some \<lparr>msg_list = Some \<lparr>p_head = None, p_tail = None, elems_of = Map.empty\<rparr>, unblocked = False\<rparr>))"
  "q_rep \<lparr>msg_list = Some \<lparr>p_head = None, p_tail = None, elems_of = Map.empty\<rparr>, unblocked = b\<rparr> []"
  using linked_list_init_rep by (auto simp: msg_q_init_def linked_list_init_def q_rep_def)

definition cell_free :: "addr \<Rightarrow> ('d, 'f) msg_q \<Rightarrow> bool" where
  "cell_free a q \<longleftrightarrow> (case msg_list q of None \<Rightarrow> False | Some s \<Rightarrow> elems_of s a = None)"

lemma msg_q_snd_rep:
  assumes "q_rep q xs" "cell_free a q" "\<not> unblocked q"
  shows "\<exists>q'. msg_q_snd (Some a) (Some d) f (Some q) = Inr (eMSG_Q_SUCCESS, Some q', True) \<and> q_rep q' (xs @ [(d, f)]) \<and> \<not> unblocked q'"
proof -
  obtain s where s: "msg_list q = Some s" "ll_rep s (rev xs)" using assms(1) by (auto simp: q_rep_def)
  obtain s' where "linked_list_add (Some a) (Some d) f (Some s) = Inr (eLINKED_LIST_SUCCESS, Some s')" "ll_rep s' ((d, f) # rev xs)"
    using linked_list_add_rep[OF s(2), of a d f] assms(2) s(1) by (auto simp: cell_free_def)
  then show ?thesis using s(1) assms(3) by (simp add: msg_q_snd_def q_rep_def)
qed

lemma rcv_loop_rep:
  assumes "q_rep q xs"
  shows "case xs of
      [] \<Rightarrow> rcv_loop q = Inr (if unblocked q then Some (eMSG_Q_UNAVAILABLE_RESOURCE, None) else None, q)
    | x # ys \<Rightarrow> (\<exists>q'. rcv_loop q = Inr (Some (eMSG_Q_SUCCESS, Some (fst x)), q') \<and> q_rep q' ys \<and> unblocked q' = unblocked q)"
proof -
  obtain s where s: "msg_list q = Some s" "ll_rep s (rev xs)" using assms(1) by (auto simp: q_rep_def)
  show ?thesis
  proof (cases xs)
    case Nil
    then show ?thesis using s linked_list_empty_rep[OF s(2)] linked_list_remove_empty[of s] by (cases q) (simp add: rcv_loop_def)
  next
    case (Cons x ys)
    obtain s' where "linked_list_remove True (Some s) = Inr (eLINKED_LIST_SUCCESS, Some (fst x), Some s')" "ll_rep s' (rev ys)"
      using linked_list_remove_rep[of s "rev ys" "fst x" "snd x"] s(2) Cons by auto
    then show ?thesis using Cons s linked_list_empty_rep[OF s(2)] by (simp add: rcv_loop_def q_rep_def)
  qed
qed

lemma msg_q_flush_rep:
  assumes "q_rep q xs"
  shows "\<exists>q'. msg_q_flush (Some q) = Some (Inr (eMSG_Q_SUCCESS, deallocs (rev xs), Some q')) \<and> q_rep q' [] \<and> unblocked q' = unblocked q"
proof -
  obtain s where s: "msg_list q = Some s" "ll_rep s (rev xs)" using assms(1) by (auto simp: q_rep_def)
  obtain s' where "linked_list_flush (Some s) = Some (Inr (eLINKED_LIST_SUCCESS, deallocs (rev xs), Some s'))" "ll_rep s' []"
    using linked_list_flush_rep[OF s(2)] by auto
  then show ?thesis using s(1) by (simp add: msg_q_flush_def q_rep_def)
qed

text \<open>Sending and receiving without waiting is a queue in the sense of the contract \<open>fifo_queue\<close>.\<close>

definition gq_new :: "('d, 'f) msg_q" where
  "gq_new = \<lparr>msg_list = Some \<lparr>p_head = None, p_tail = None, elems_of = Map.empty\<rparr>, unblocked = False\<rparr>"

definition gq_put :: "addr \<Rightarrow> 'd \<times> 'f option \<Rightarrow> ('d, 'f) msg_q \<Rightarrow> fault + ('d, 'f) msg_q" where
  "gq_put a e q = bnd (msg_q_snd (Some a) (Some (fst e)) (snd e) (Some q)) (\<lambda>(rc, q', sig). Inr (the q'))"

definition gq_get :: "('d, 'f) msg_q \<Rightarrow> fault + 'd option \<times> ('d, 'f) msg_q" where
  "gq_get q = bnd (msg_q_rcv True (Some q)) (\<lambda>(r, q'). Inr (case r of None \<Rightarrow> None | Some (rc, d) \<Rightarrow> d, the q'))"

interpretation gq: fifo_queue gq_new "\<lambda>a d. gq_put a (d, None)" gq_get cell_free
  "\<lambda>q ds. \<not> unblocked q \<and> (\<exists>xs. q_rep q xs \<and> ds = map fst xs)"
proof unfold_locales
  show "\<not> unblocked gq_new \<and> (\<exists>xs. q_rep gq_new xs \<and> [] = map fst xs)" using msg_q_init_rep(2)[of False] by (auto simp: gq_new_def)
next
  fix q :: "('d, 'f) msg_q" and ds a d
  assume "\<not> unblocked q \<and> (\<exists>xs. q_rep q xs \<and> ds = map fst xs)" "cell_free a q"
  then obtain xs q' where "msg_q_snd (Some a) (Some d) None (Some q) = Inr (eMSG_Q_SUCCESS, Some q', True)" "q_rep q' (xs @ [(d, None)])" "\<not> unblocked q'" "ds = map fst xs"
    using msg_q_snd_rep[of q _ a d None] by blast
  then show "\<exists>q'. gq_put a (d, None) q = Inr q' \<and> \<not> unblocked q' \<and> (\<exists>xs. q_rep q' xs \<and> ds @ [d] = map fst xs)"
    by (auto simp: gq_put_def intro!: exI[of _ "xs @ [(d, None)]"])
next
  fix q :: "('d, 'f) msg_q"
  assume "\<not> unblocked q \<and> (\<exists>xs. q_rep q xs \<and> [] = map fst xs)"
  then have q: "\<not> unblocked q" "q_rep q []" by auto
  then show "\<exists>q'. gq_get q = Inr (None, q') \<and> \<not> unblocked q' \<and> (\<exists>xs. q_rep q' xs \<and> [] = map fst xs)"
    using rcv_loop_rep[OF q(2)] by (auto simp: gq_get_def msg_q_rcv_def)
next
  fix q :: "('d, 'f) msg_q" and d ds
  assume "\<not> unblocked q \<and> (\<exists>xs. q_rep q xs \<and> d # ds = map fst xs)"
  then obtain x ys where q: "\<not> unblocked q" "q_rep q (x # ys)" "d = fst x" "ds = map fst ys" by (auto simp: Cons_eq_map_conv)
  obtain q' where "rcv_loop q = Inr (Some (eMSG_Q_SUCCESS, Some (fst x)), q')" "q_rep q' ys" "unblocked q' = unblocked q" using rcv_loop_rep[OF q(2)] by auto
  then show "\<exists>q'. gq_get q = Inr (Some d, q') \<and> \<not> unblocked q' \<and> (\<exists>xs. q_rep q' xs \<and> ds = map fst xs)"
    using q by (auto simp: gq_get_def msg_q_rcv_def)
qed

section \<open>Threads\<close>

text \<open>A thread is outside \<^verbatim>\<open>msg_q_rcv\<close>, waits on the condition variable, or was woken and will hold the mutex again. The log keeps what
  the calls gave, in the order in which they held the mutex.\<close>

datatype rcv_thread = Idle | Waiting | Woken

datatype ('d, 'f) gq_event = Accepted 'd "'f option" | Refused msq_q_err_type | Delivered nat 'd | Denied nat msq_q_err_type
  | Flushed "('f \<times> 'd) list" | Unblocked

record ('d, 'f) gq_sys =
  the_q :: "('d, 'f) msg_q"
  threads :: "nat \<Rightarrow> rcv_thread"
  mlog :: "('d, 'f) gq_event list"

text \<open>\<^verbatim>\<open>pthread_cond_signal\<close> wakes a thread if one waits, \<^verbatim>\<open>pthread_cond_broadcast\<close> wakes all.\<close>

definition signalled :: "bool \<Rightarrow> (nat \<Rightarrow> rcv_thread) \<Rightarrow> (nat \<Rightarrow> rcv_thread) \<Rightarrow> bool" where
  "signalled sig ths ths' \<longleftrightarrow> (if sig \<and> Waiting \<in> range ths then \<exists>t. ths t = Waiting \<and> ths' = ths(t := Woken) else ths' = ths)"

definition broadcast :: "bool \<Rightarrow> (nat \<Rightarrow> rcv_thread) \<Rightarrow> nat \<Rightarrow> rcv_thread" where
  "broadcast sig ths t = (if sig \<and> ths t = Waiting then Woken else ths t)"

definition rcv_event :: "nat \<Rightarrow> msq_q_err_type \<times> 'd option \<Rightarrow> ('d, 'f) gq_event" where
  "rcv_event t r = (case r of (eMSG_Q_SUCCESS, Some d) \<Rightarrow> Delivered t d | (rc, d) \<Rightarrow> Denied t rc)"

text \<open>Thread \<open>t\<close> leaves the mutex: it waits, or returns.\<close>

definition after_rcv :: "nat \<Rightarrow> (msq_q_err_type \<times> 'd option) option \<Rightarrow> ('d, 'f) msg_q \<Rightarrow> ('d, 'f) gq_sys \<Rightarrow> ('d, 'f) gq_sys" where
  "after_rcv t r q y =
     (case r of
        None \<Rightarrow> y\<lparr>the_q := q, threads := (threads y)(t := Waiting)\<rparr>
      | Some x \<Rightarrow> y\<lparr>the_q := q, threads := (threads y)(t := Idle), mlog := mlog y @ [rcv_event t x]\<rparr>)"

inductive gq_step :: "('d, 'f) gq_sys \<Rightarrow> ('d, 'f) gq_sys \<Rightarrow> bool" where
  step_send: "\<lbrakk>\<And>a. elem = Some a \<Longrightarrow> cell_free a (the_q y); msg_q_snd elem (Some d) f (Some (the_q y)) = Inr (rc, Some q', sig); signalled sig (threads y) ths\<rbrakk>
    \<Longrightarrow> gq_step y (y\<lparr>the_q := q', threads := ths, mlog := mlog y @ [if rc = eMSG_Q_SUCCESS then Accepted d f else Refused rc]\<rparr>)"
| step_receive: "\<lbrakk>threads y t = Idle; msg_q_rcv True (Some (the_q y)) = Inr (r, Some q')\<rbrakk> \<Longrightarrow> gq_step y (after_rcv t r q' y)"
| step_resume: "\<lbrakk>threads y t = Woken; rcv_loop (the_q y) = Inr (r, q')\<rbrakk> \<Longrightarrow> gq_step y (after_rcv t r q' y)"
| step_spurious: "threads y t = Waiting \<Longrightarrow> gq_step y (y\<lparr>threads := (threads y)(t := Woken)\<rparr>)"
| step_flush: "msg_q_flush (Some (the_q y)) = Some (Inr (rc, calls, Some q')) \<Longrightarrow> gq_step y (y\<lparr>the_q := q', mlog := mlog y @ [Flushed calls]\<rparr>)"
| step_unblock: "msg_q_unblock (Some (the_q y)) = (rc, Some q', sig)
    \<Longrightarrow> gq_step y (y\<lparr>the_q := q', threads := broadcast sig (threads y), mlog := mlog y @ [if rc = eMSG_Q_SUCCESS then Unblocked else Refused rc]\<rparr>)"

inductive gq_reachable :: "('d, 'f) gq_sys \<Rightarrow> bool" where
  reach_init: "msg_q_init True True True True True = Some (Inr (eMSG_Q_SUCCESS, Some q)) \<Longrightarrow> gq_reachable \<lparr>the_q = q, threads = \<lambda>t. Idle, mlog = []\<rparr>"
| reach_step: "gq_reachable y \<Longrightarrow> gq_step y y' \<Longrightarrow> gq_reachable y'"

text \<open>The blocking queue that the log must be a history of: a list and whether it was closed. A message is refused only when the queue
  was closed or memory is out, a receiver is denied only when it was closed, and what is delivered is the oldest message.\<close>

fun bq_step :: "('d, 'f) gq_event \<Rightarrow> ('d \<times> 'f option) list \<times> bool \<Rightarrow> (('d \<times> 'f option) list \<times> bool) option" where
  "bq_step (Accepted d f) (xs, closed) = (if closed then None else Some (xs @ [(d, f)], closed))"
| "bq_step (Refused rc) (xs, closed) = (if rc = eMSG_Q_UNAVAILABLE_RESOURCE \<and> closed \<or> rc = eMSG_Q_FAILURE_GENERAL \<and> \<not> closed then Some (xs, closed) else None)"
| "bq_step (Delivered t d) (xs, closed) = (case xs of [] \<Rightarrow> None | x # ys \<Rightarrow> if fst x = d then Some (ys, closed) else None)"
| "bq_step (Denied t rc) (xs, closed) = (if rc = eMSG_Q_UNAVAILABLE_RESOURCE \<and> closed then Some (xs, closed) else None)"
| "bq_step (Flushed calls) (xs, closed) = (if calls = deallocs (rev xs) then Some ([], closed) else None)"
| "bq_step Unblocked (xs, closed) = (if closed then None else Some (xs, True))"

primrec bq_run :: "('d, 'f) gq_event list \<Rightarrow> ('d \<times> 'f option) list \<times> bool \<Rightarrow> (('d \<times> 'f option) list \<times> bool) option" where
  "bq_run [] s = Some s"
| "bq_run (e # es) s = (case bq_step e s of None \<Rightarrow> None | Some s' \<Rightarrow> bq_run es s')"

lemma bq_run_append: "bq_run (es @ [e]) s = (case bq_run es s of None \<Rightarrow> None | Some s' \<Rightarrow> bq_step e s')"
  by (induction es arbitrary: s) (auto split: option.splits)

text \<open>Whoever waits, waits on an open queue, and there are no more messages than threads on their way to fetch one.\<close>

definition wakeups :: "bool \<Rightarrow> nat \<Rightarrow> (nat \<Rightarrow> rcv_thread) \<Rightarrow> bool" where
  "wakeups closed n ths \<longleftrightarrow> finite {t. ths t \<noteq> Idle} \<and> (Waiting \<in> range ths \<longrightarrow> \<not> closed \<and> n \<le> card {t. ths t = Woken})"

definition gq_inv :: "('d, 'f) gq_sys \<Rightarrow> bool" where
  "gq_inv y \<longleftrightarrow> (\<exists>xs. q_rep (the_q y) xs \<and> bq_run (mlog y) ([], False) = Some (xs, unblocked (the_q y)) \<and> wakeups (unblocked (the_q y)) (length xs) (threads y))"

lemma finite_woken: "finite {t. ths t \<noteq> Idle} \<Longrightarrow> finite {t. ths t = Woken}"
  by (rule finite_subset[of _ "{t. ths t \<noteq> Idle}"]) auto

lemma finite_active_upd: "finite {t. ths t \<noteq> Idle} \<Longrightarrow> finite {t. (ths(a := v)) t \<noteq> Idle}"
  by (rule finite_subset[of _ "insert a {t. ths t \<noteq> Idle}"]) auto

lemma woken_grows: "finite {t. ths t \<noteq> Idle} \<Longrightarrow> ths a \<noteq> Woken \<Longrightarrow> card {t. (ths(a := Woken)) t = Woken} = Suc (card {t. ths t = Woken})"
proof -
  assume a: "finite {t. ths t \<noteq> Idle}" "ths a \<noteq> Woken"
  have "{t. (ths(a := Woken)) t = Woken} = insert a {t. ths t = Woken}" by auto
  then show ?thesis using a(2) finite_woken[OF a(1)] by simp
qed

lemma woken_shrinks: "finite {t. ths t \<noteq> Idle} \<Longrightarrow> v \<noteq> Woken \<Longrightarrow> card {t. ths t = Woken} \<le> Suc (card {t. (ths(a := v)) t = Woken})"
proof -
  assume a: "finite {t. ths t \<noteq> Idle}" "v \<noteq> Woken"
  have "{t. ths t = Woken} \<subseteq> insert a {t. (ths(a := v)) t = Woken}" by auto
  moreover have "finite {t. (ths(a := v)) t = Woken}" using finite_woken[OF finite_active_upd[OF a(1)]] .
  ultimately have "card {t. ths t = Woken} \<le> card (insert a {t. (ths(a := v)) t = Woken})" by (intro card_mono) simp_all
  then show ?thesis using card_insert_le_m1[of "Suc (card {t. (ths(a := v)) t = Woken})" "{t. (ths(a := v)) t = Woken}" a] by linarith
qed

lemma woken_same: "ths a = Idle \<Longrightarrow> v \<noteq> Woken \<Longrightarrow> {t. (ths(a := v)) t = Woken} = {t. ths t = Woken}"
  by auto

lemma waiting_range: "ths t = Waiting \<Longrightarrow> Waiting \<in> range ths"
  by (metis rangeI)

lemma waiting_upd: "v \<noteq> Waiting \<Longrightarrow> Waiting \<in> range (ths(a := v)) \<Longrightarrow> Waiting \<in> range ths"
  by (auto simp: image_iff split: if_splits)

lemma wakeups_less: "wakeups closed n ths \<Longrightarrow> m \<le> n \<Longrightarrow> wakeups closed m ths"
  by (auto simp: wakeups_def)

lemma wakeups_closed: "wakeups True n ths \<Longrightarrow> wakeups True m ths"
  by (auto simp: wakeups_def)

lemma wakeups_signal:
  assumes "wakeups False n ths" "signalled True ths ths'"
  shows "wakeups False (Suc n) ths'"
proof (cases "Waiting \<in> range ths")
  case True
  then obtain t where t: "ths t = Waiting" "ths' = ths(t := Woken)" using assms(2) by (auto simp: signalled_def)
  then show ?thesis using assms(1) True woken_grows[of ths t] finite_active_upd[of ths t Woken] by (simp add: wakeups_def)
next
  case False
  then have "ths' = ths" using assms(2) by (simp add: signalled_def)
  then show ?thesis using assms(1) False by (simp add: wakeups_def)
qed

lemma wakeups_take:
  assumes "wakeups closed (Suc n) ths"
  shows "wakeups closed n (ths(t := Idle))"
  using assms waiting_upd[of Idle ths t] woken_shrinks[of ths Idle t] finite_active_upd[of ths t Idle] by (auto simp: wakeups_def simp del: fun_upd_apply)

lemma wakeups_denied: "wakeups True n ths \<Longrightarrow> wakeups True n (ths(t := Idle))"
  using waiting_upd[of Idle ths t] finite_active_upd[of ths t Idle] by (auto simp: wakeups_def simp del: fun_upd_apply)

lemma wakeups_wait: "wakeups False 0 ths \<Longrightarrow> wakeups False 0 (ths(t := Waiting))"
  using finite_active_upd[of ths t Waiting] by (simp add: wakeups_def)

lemma wakeups_spurious:
  assumes "wakeups closed n ths" "ths t = Waiting"
  shows "wakeups closed n (ths(t := Woken))"
proof -
  have "Waiting \<in> range ths" using waiting_range[of ths t] assms(2) by simp
  then show ?thesis using assms woken_grows[of ths t] finite_active_upd[of ths t Woken] by (auto simp: wakeups_def simp del: fun_upd_apply)
qed

lemma wakeups_broadcast: "wakeups closed n ths \<Longrightarrow> wakeups True n (broadcast True ths)"
proof -
  assume "wakeups closed n ths"
  moreover have "{t. broadcast True ths t \<noteq> Idle} = {t. ths t \<noteq> Idle}" by (auto simp: broadcast_def)
  moreover have "Waiting \<notin> range (broadcast True ths)" by (auto simp: broadcast_def image_iff)
  ultimately show ?thesis by (simp add: wakeups_def)
qed

section \<open>Every interleaving\<close>

lemma msg_q_snd_closed: "unblocked q \<Longrightarrow> msg_q_snd elem (Some d) f (Some q) = Inr (eMSG_Q_UNAVAILABLE_RESOURCE, Some q, False)"
  by (simp add: msg_q_snd_def)

lemma msg_q_snd_nomem: "q_rep q xs \<Longrightarrow> \<not> unblocked q \<Longrightarrow> msg_q_snd None (Some d) f (Some q) = Inr (eMSG_Q_FAILURE_GENERAL, Some q, True)"
  by (cases q) (auto simp: msg_q_snd_def linked_list_add_def q_rep_def)

lemma after_rcv_inv:
  assumes q: "q_rep (the_q y) xs" and log: "bq_run (mlog y) ([], False) = Some (xs, unblocked (the_q y))" and w: "wakeups (unblocked (the_q y)) (length xs) (threads y)"
    and r: "rcv_loop (the_q y) = Inr (r, q')"
  shows "gq_inv (after_rcv t r q' y)"
proof (cases xs)
  case (Cons x ys)
  then have "r = Some (eMSG_Q_SUCCESS, Some (fst x)) \<and> q_rep q' ys \<and> unblocked q' = unblocked (the_q y)" using rcv_loop_rep[OF q] r by auto
  then show ?thesis using Cons log wakeups_take[of _ "length ys" "threads y" t] w
    by (auto simp: gq_inv_def after_rcv_def rcv_event_def bq_run_append intro!: exI[of _ ys])
next
  case Nil
  then have e: "r = (if unblocked (the_q y) then Some (eMSG_Q_UNAVAILABLE_RESOURCE, None) else None)" "q' = the_q y" using rcv_loop_rep[OF q] r by auto
  show ?thesis
  proof (cases "unblocked (the_q y)")
    case True
    then show ?thesis using Nil e log q w wakeups_denied[of 0 "threads y" t]
      by (auto simp: gq_inv_def after_rcv_def rcv_event_def bq_run_append intro!: exI[of _ "[]"])
  next
    case False
    then show ?thesis using Nil e log q w wakeups_wait[of "threads y" t] by (auto simp: gq_inv_def after_rcv_def intro!: exI[of _ "[]"])
  qed
qed

lemma gq_step_inv:
  assumes "gq_step y y'" "gq_inv y"
  shows "gq_inv y'"
proof -
  obtain xs where xs: "q_rep (the_q y) xs" "bq_run (mlog y) ([], False) = Some (xs, unblocked (the_q y))" "wakeups (unblocked (the_q y)) (length xs) (threads y)"
    using assms(2) by (auto simp: gq_inv_def)
  show ?thesis using assms(1)
  proof cases
    case (step_send elem d f rc q' sig ths)
    consider "unblocked (the_q y)" | "\<not> unblocked (the_q y)" "elem = None" | a where "\<not> unblocked (the_q y)" "elem = Some a" by blast
    then show ?thesis
    proof cases
      case 1
      then have "rc = eMSG_Q_UNAVAILABLE_RESOURCE" "q' = the_q y" "ths = threads y" using step_send(3,4) msg_q_snd_closed[of "the_q y" elem d f] by (auto simp: signalled_def)
      then show ?thesis using step_send(1) xs 1 by (auto simp: gq_inv_def bq_run_append intro!: exI[of _ xs])
    next
      case 2
      then have "rc = eMSG_Q_FAILURE_GENERAL" "q' = the_q y" sig using step_send(3) msg_q_snd_nomem[OF xs(1), of d f] by auto
      then show ?thesis using step_send(1,4) xs 2 wakeups_less[OF wakeups_signal, of "length xs" "threads y" ths "length xs"]
        by (auto simp: gq_inv_def bq_run_append intro!: exI[of _ xs])
    next
      case (3 a)
      have "rc = eMSG_Q_SUCCESS \<and> sig \<and> q_rep q' (xs @ [(d, f)]) \<and> \<not> unblocked q'" using msg_q_snd_rep[OF xs(1) _ 3(1), of a d f] step_send(2,3) 3(2) by auto
      then show ?thesis using step_send(1,4) xs 3 wakeups_signal[of "length xs" "threads y" ths]
        by (auto simp: gq_inv_def bq_run_append intro!: exI[of _ "xs @ [(d, f)]"])
    qed
  next
    case (step_receive t r q')
    show ?thesis
    proof (cases "unblocked (the_q y)")
      case True
      then have "r = Some (eMSG_Q_UNAVAILABLE_RESOURCE, None)" "q' = the_q y" using step_receive(3) by (auto simp: msg_q_rcv_def)
      then show ?thesis using step_receive(1) xs True wakeups_denied[of "length xs" "threads y" t]
        by (auto simp: gq_inv_def after_rcv_def rcv_event_def bq_run_append intro!: exI[of _ xs])
    next
      case False
      then have "rcv_loop (the_q y) = Inr (r, q')" using step_receive(3) by (cases "rcv_loop (the_q y)") (auto simp: msg_q_rcv_def)
      then show ?thesis using step_receive(1) after_rcv_inv[OF xs, of r q' t] by simp
    qed
  next
    case (step_resume t r q')
    then show ?thesis using after_rcv_inv[OF xs, of r q' t] by simp
  next
    case (step_spurious t)
    then show ?thesis using xs wakeups_spurious[of _ "length xs" "threads y" t] by (auto simp: gq_inv_def intro!: exI[of _ xs])
  next
    case (step_flush rc calls q')
    then have "calls = deallocs (rev xs) \<and> q_rep q' [] \<and> unblocked q' = unblocked (the_q y)" using msg_q_flush_rep[OF xs(1)] by auto
    then show ?thesis using step_flush(1) xs wakeups_less[of _ "length xs" "threads y" 0] by (auto simp: gq_inv_def bq_run_append intro!: exI[of _ "[]"])
  next
    case (step_unblock rc q' sig)
    show ?thesis
    proof (cases "unblocked (the_q y)")
      case True
      then have "rc = eMSG_Q_UNAVAILABLE_RESOURCE" "q' = the_q y" "broadcast sig (threads y) = threads y" using step_unblock(2) by (auto simp: msg_q_unblock_def broadcast_def)
      then show ?thesis using step_unblock(1) xs True by (auto simp: gq_inv_def bq_run_append intro!: exI[of _ xs])
    next
      case False
      then have "rc = eMSG_Q_SUCCESS" "q' = (the_q y)\<lparr>unblocked := True\<rparr>" sig using step_unblock(2) by (auto simp: msg_q_unblock_def)
      then show ?thesis using step_unblock(1) xs False wakeups_broadcast[of False "length xs" "threads y"]
        by (auto simp: gq_inv_def q_rep_def bq_run_append intro!: exI[of _ xs])
    qed
  qed
qed

lemma gq_reachable_inv: "gq_reachable y \<Longrightarrow> gq_inv y"
proof (induction rule: gq_reachable.induct)
  case (reach_init q)
  then have "q_rep q []" "\<not> unblocked q" using msg_q_init_rep(2)[of False] by (auto simp: msg_q_init_rep(1))
  then show ?case by (auto simp: gq_inv_def wakeups_def intro!: exI[of _ "[]"])
next
  case (reach_step y y')
  then show ?case using gq_step_inv by blast
qed

text \<open>C28. Whatever the threads do and however the scheduler and the condition variable behave, the message queue is a blocking queue: the
  history of its calls, in the order in which they held the mutex, is one of the list that is closed once. Messages are delivered oldest
  first and each at most once, a message is refused only when the queue was unblocked or memory is out, a flush runs the deallocators of
  exactly the messages that were left, and the linked list holds the messages that were accepted and neither delivered nor flushed.
  No call follows a dangling link.\<close>

theorem msg_q_blocking_queue:
  assumes "gq_reachable y"
  shows "\<exists>xs. bq_run (mlog y) ([], False) = Some (xs, unblocked (the_q y)) \<and> q_rep (the_q y) xs
    \<and> (\<exists>r q'. rcv_loop (the_q y) = Inr (r, q')) \<and> (\<exists>q'. msg_q_flush (Some (the_q y)) = Some (Inr (eMSG_Q_SUCCESS, deallocs (rev xs), Some q')))
    \<and> (\<forall>a d f. cell_free a (the_q y) \<and> \<not> unblocked (the_q y) \<longrightarrow> (\<exists>q'. msg_q_snd (Some a) (Some d) f (Some (the_q y)) = Inr (eMSG_Q_SUCCESS, Some q', True)))"
proof -
  obtain xs where xs: "q_rep (the_q y) xs" "bq_run (mlog y) ([], False) = Some (xs, unblocked (the_q y))" using gq_reachable_inv[OF assms] by (auto simp: gq_inv_def)
  have "\<exists>r q'. rcv_loop (the_q y) = Inr (r, q')" using rcv_loop_rep[OF xs(1)] by (cases xs) auto
  then show ?thesis using xs msg_q_flush_rep[OF xs(1)] msg_q_snd_rep[OF xs(1)] by blast
qed

text \<open>C29. No wake-up is lost: a thread that waits in \<^verbatim>\<open>msg_q_rcv\<close> waits on a queue that is not unblocked, and there are at least as many
  threads that were woken and have not run yet as there are messages; the next one to run gets the oldest message. Once the queue is
  unblocked nobody waits, and every woken thread leaves the function on its next turn.\<close>

theorem msg_q_no_lost_wakeup:
  assumes "gq_reachable y" "q_rep (the_q y) xs"
  shows "(\<forall>t. threads y t = Waiting \<longrightarrow> \<not> unblocked (the_q y) \<and> length xs \<le> card {u. threads y u = Woken})
    \<and> (Waiting \<in> range (threads y) \<and> xs \<noteq> [] \<longrightarrow> (\<exists>u. threads y u = Woken))
    \<and> (\<forall>u. threads y u = Woken \<and> xs \<noteq> [] \<longrightarrow> (\<exists>q'. gq_step y (after_rcv u (Some (eMSG_Q_SUCCESS, Some (fst (xs ! 0)))) q' y) \<and> q_rep q' (drop 1 xs)))
    \<and> (\<forall>u. threads y u = Woken \<and> unblocked (the_q y) \<longrightarrow> (\<exists>r q'. rcv_loop (the_q y) = Inr (Some r, q') \<and> gq_step y (after_rcv u (Some r) q' y)))"
proof -
  obtain zs where zs: "q_rep (the_q y) zs" "wakeups (unblocked (the_q y)) (length zs) (threads y)" using gq_reachable_inv[OF assms(1)] by (auto simp: gq_inv_def)
  have w: "wakeups (unblocked (the_q y)) (length xs) (threads y)" using zs q_rep_unique[OF assms(2) zs(1)] by simp
  have "\<forall>t. threads y t = Waiting \<longrightarrow> \<not> unblocked (the_q y) \<and> length xs \<le> card {u. threads y u = Woken}" using w by (auto simp: wakeups_def dest: waiting_range)
  moreover have "Waiting \<in> range (threads y) \<and> xs \<noteq> [] \<longrightarrow> (\<exists>u. threads y u = Woken)"
  proof
    assume a: "Waiting \<in> range (threads y) \<and> xs \<noteq> []"
    then have "0 < card {u. threads y u = Woken}" using w by (cases xs) (auto simp: wakeups_def)
    then have "{u. threads y u = Woken} \<noteq> {}" using card_gt_0_iff by blast
    then show "\<exists>u. threads y u = Woken" by blast
  qed
  moreover have "\<exists>q'. gq_step y (after_rcv u (Some (eMSG_Q_SUCCESS, Some (fst (xs ! 0)))) q' y) \<and> q_rep q' (drop 1 xs)" if "threads y u = Woken" "xs \<noteq> []" for u
    using rcv_loop_rep[OF assms(2)] that step_resume[of y u] by (cases xs) auto
  moreover have "\<exists>r q'. rcv_loop (the_q y) = Inr (Some r, q') \<and> gq_step y (after_rcv u (Some r) q' y)" if "threads y u = Woken" "unblocked (the_q y)" for u
    using rcv_loop_rep[OF assms(2)] that step_resume[of y u] by (cases xs) auto
  ultimately show ?thesis by blast
qed

text \<open>Two threads wait, a message is sent and the first is woken.\<close>

definition ex_queue :: "(nat, string) msg_q" where
  "ex_queue = \<lparr>msg_list = Some \<lparr>p_head = Some 1, p_tail = Some 1, elems_of = [1 \<mapsto> \<lparr>le_next = None, le_prev = None, data_ptr = 7, dealloc_func = Some ''delete''\<rparr>]\<rparr>, unblocked = False\<rparr>"

definition ex_sys :: "(nat, string) gq_sys" where
  "ex_sys = \<lparr>the_q = ex_queue, threads = (\<lambda>t. Idle)(0 := Woken, 1 := Waiting), mlog = [Accepted 7 (Some ''delete'')]\<rparr>"

lemma ex_sys_reachable: "gq_reachable ex_sys"
proof -
  let ?q = "gq_new :: (nat, string) msg_q"
  let ?y = "\<lambda>ths. \<lparr>the_q = ?q, threads = ths, mlog = []\<rparr>"
  have 0: "gq_reachable (?y (\<lambda>t. Idle))" by (rule reach_init) (simp add: msg_q_init_rep(1) gq_new_def)
  have r: "msg_q_rcv True (Some ?q) = Inr (None, Some ?q)" by (simp add: msg_q_rcv_def rcv_loop_def gq_new_def linked_list_empty_def)
  have 1: "gq_reachable (?y ((\<lambda>t. Idle)(0 := Waiting)))" using reach_step[OF 0 step_receive[of "?y (\<lambda>t. Idle)" 0 None ?q]] r by (simp add: after_rcv_def)
  have 2: "gq_reachable (?y ((\<lambda>t. Idle)(0 := Waiting, 1 := Waiting)))"
    using reach_step[OF 1 step_receive[of "?y ((\<lambda>t. Idle)(0 := Waiting))" 1 None ?q]] r by (simp add: after_rcv_def)
  have s: "msg_q_snd (Some 1) (Some 7) (Some ''delete'') (Some ?q) = Inr (eMSG_Q_SUCCESS, Some ex_queue, True)"
    by (simp add: msg_q_snd_def gq_new_def ex_queue_def linked_list_add_def store_cell_def)
  have "signalled True ((\<lambda>t. Idle)(0 := Waiting, 1 := Waiting)) ((\<lambda>t. Idle)(0 := Woken, 1 := Waiting))"
    by (auto simp: signalled_def image_iff fun_upd_twist intro!: exI[of _ "0 :: nat"])
  then show ?thesis
    using reach_step[OF 2 step_send[of "Some 1" "?y ((\<lambda>t. Idle)(0 := Waiting, 1 := Waiting))" 7 "Some ''delete''" eMSG_Q_SUCCESS ex_queue True "(\<lambda>t. Idle)(0 := Woken, 1 := Waiting)"]] s
    by (simp add: ex_sys_def cell_free_def gq_new_def)
qed

theorem msg_q_blocking_queue_witness:
  "\<exists>xs. bq_run [Accepted (7 :: nat) (Some ''delete'')] ([], False) = Some (xs, False) \<and> q_rep ex_queue xs"
  using msg_q_blocking_queue[OF ex_sys_reachable] by (auto simp: ex_sys_def ex_queue_def)

lemma ex_queue_rep: "q_rep ex_queue [(7, Some ''delete'')]"
  using gq_reachable_inv[OF ex_sys_reachable] by (auto simp: gq_inv_def ex_sys_def ex_queue_def)

theorem msg_q_no_lost_wakeup_witness: "\<exists>q'. gq_step ex_sys (after_rcv 0 (Some (eMSG_Q_SUCCESS, Some 7)) q' ex_sys) \<and> q_rep q' []"
proof -
  have q: "q_rep (the_q ex_sys) [(7, Some ''delete'')]" using ex_queue_rep by (simp add: ex_sys_def)
  have w: "threads ex_sys 0 = Woken" by (simp add: ex_sys_def)
  show ?thesis using msg_q_no_lost_wakeup[OF ex_sys_reachable q] w by auto
qed

end
