(* ===== verification/Mdm_Framing.thy ===== *)
theory Mdm_Framing
  imports Ipacm_Prelude
begin

text \<open>
  The framing of the modem file transfer, \<^verbatim>\<open>mdm-helper/mdmfiletransfer/crc.c\<close> and \<^verbatim>\<open>hdlc.c\<close>: the table driven 16 bit
  CRC and the asynchronous HDLC byte stuffing. The buffers are lists of bytes; a write or read outside them is the fault
  \<open>OutOfBounds\<close>.
\<close>

section \<open>Checksum\<close>

definition crc_table :: "u16 list" where
  "crc_table =
    [0x0000, 0x1189, 0x2312, 0x329b, 0x4624, 0x57ad, 0x6536, 0x74bf,
     0x8c48, 0x9dc1, 0xaf5a, 0xbed3, 0xca6c, 0xdbe5, 0xe97e, 0xf8f7,
     0x1081, 0x0108, 0x3393, 0x221a, 0x56a5, 0x472c, 0x75b7, 0x643e,
     0x9cc9, 0x8d40, 0xbfdb, 0xae52, 0xdaed, 0xcb64, 0xf9ff, 0xe876,
     0x2102, 0x308b, 0x0210, 0x1399, 0x6726, 0x76af, 0x4434, 0x55bd,
     0xad4a, 0xbcc3, 0x8e58, 0x9fd1, 0xeb6e, 0xfae7, 0xc87c, 0xd9f5,
     0x3183, 0x200a, 0x1291, 0x0318, 0x77a7, 0x662e, 0x54b5, 0x453c,
     0xbdcb, 0xac42, 0x9ed9, 0x8f50, 0xfbef, 0xea66, 0xd8fd, 0xc974,
     0x4204, 0x538d, 0x6116, 0x709f, 0x0420, 0x15a9, 0x2732, 0x36bb,
     0xce4c, 0xdfc5, 0xed5e, 0xfcd7, 0x8868, 0x99e1, 0xab7a, 0xbaf3,
     0x5285, 0x430c, 0x7197, 0x601e, 0x14a1, 0x0528, 0x37b3, 0x263a,
     0xdecd, 0xcf44, 0xfddf, 0xec56, 0x98e9, 0x8960, 0xbbfb, 0xaa72,
     0x6306, 0x728f, 0x4014, 0x519d, 0x2522, 0x34ab, 0x0630, 0x17b9,
     0xef4e, 0xfec7, 0xcc5c, 0xddd5, 0xa96a, 0xb8e3, 0x8a78, 0x9bf1,
     0x7387, 0x620e, 0x5095, 0x411c, 0x35a3, 0x242a, 0x16b1, 0x0738,
     0xffcf, 0xee46, 0xdcdd, 0xcd54, 0xb9eb, 0xa862, 0x9af9, 0x8b70,
     0x8408, 0x9581, 0xa71a, 0xb693, 0xc22c, 0xd3a5, 0xe13e, 0xf0b7,
     0x0840, 0x19c9, 0x2b52, 0x3adb, 0x4e64, 0x5fed, 0x6d76, 0x7cff,
     0x9489, 0x8500, 0xb79b, 0xa612, 0xd2ad, 0xc324, 0xf1bf, 0xe036,
     0x18c1, 0x0948, 0x3bd3, 0x2a5a, 0x5ee5, 0x4f6c, 0x7df7, 0x6c7e,
     0xa50a, 0xb483, 0x8618, 0x9791, 0xe32e, 0xf2a7, 0xc03c, 0xd1b5,
     0x2942, 0x38cb, 0x0a50, 0x1bd9, 0x6f66, 0x7eef, 0x4c74, 0x5dfd,
     0xb58b, 0xa402, 0x9699, 0x8710, 0xf3af, 0xe226, 0xd0bd, 0xc134,
     0x39c3, 0x284a, 0x1ad1, 0x0b58, 0x7fe7, 0x6e6e, 0x5cf5, 0x4d7c,
     0xc60c, 0xd785, 0xe51e, 0xf497, 0x8028, 0x91a1, 0xa33a, 0xb2b3,
     0x4a44, 0x5bcd, 0x6956, 0x78df, 0x0c60, 0x1de9, 0x2f72, 0x3efb,
     0xd68d, 0xc704, 0xf59f, 0xe416, 0x90a9, 0x8120, 0xb3bb, 0xa232,
     0x5ac5, 0x4b4c, 0x79d7, 0x685e, 0x1ce1, 0x0d68, 0x3ff3, 0x2e7a,
     0xe70e, 0xf687, 0xc41c, 0xd595, 0xa12a, 0xb0a3, 0x8238, 0x93b1,
     0x6b46, 0x7acf, 0x4854, 0x59dd, 0x2d62, 0x3ceb, 0x0e70, 0x1ff9,
     0xf78f, 0xe606, 0xd49d, 0xc514, 0xb1ab, 0xa022, 0x92b9, 0x8330,
     0x7bc7, 0x6a4e, 0x58d5, 0x495c, 0x3de3, 0x2c6a, 0x1ef1, 0x0f78]"

definition CRC_16_L_POLYNOMIAL :: u16 where "CRC_16_L_POLYNOMIAL = 0x8408"

definition CRC_16_L_SEED :: u16 where "CRC_16_L_SEED = 0xFFFF"

definition CRC_16_L_OK :: u16 where "CRC_16_L_OK = 0x0F47"

definition crc_step :: "u16 \<Rightarrow> u8 \<Rightarrow> u16" where
  "crc_step crc b = crc_table ! unat ((crc XOR ucast b) AND 0x00ff) XOR drop_bit 8 crc"

fun crc_loop :: "u16 \<Rightarrow> u8 list \<Rightarrow> nat \<Rightarrow> fault + u16" where
  "crc_loop crc pBuf bitLen =
     (if bitLen \<ge> 8 then
        (case pBuf of [] \<Rightarrow> Inl OutOfBounds | b # rest \<Rightarrow> crc_loop (crc_step crc b) rest (bitLen - 8))
      else Inr (NOT crc))"

declare crc_loop.simps [simp del]

definition calculate_crc :: "u8 list \<Rightarrow> nat \<Rightarrow> fault + u16" where
  "calculate_crc pBuf bitLen = crc_loop CRC_16_L_SEED pBuf bitLen"

definition lo_byte :: "u16 \<Rightarrow> u8" where "lo_byte crc = ucast crc"

definition hi_byte :: "u16 \<Rightarrow> u8" where "hi_byte crc = ucast (drop_bit 8 crc)"

definition set_crc :: "u8 list \<Rightarrow> nat \<Rightarrow> fault + u8 list" where
  "set_crc buffer len = (case calculate_crc buffer (len * 8) of
      Inl f \<Rightarrow> Inl f
    | Inr crc \<Rightarrow> if len + 1 < length buffer then Inr (buffer[len := lo_byte crc, len + 1 := hi_byte crc])
                 else Inl OutOfBounds)"

definition check_crc :: "u8 list \<Rightarrow> nat \<Rightarrow> fault + bool" where
  "check_crc buffer len = (case calculate_crc buffer (len * 8) of
      Inl f \<Rightarrow> Inl f | Inr crc \<Rightarrow> Inr (CRC_16_L_OK = crc))"

section \<open>Byte stuffing\<close>

definition AHDLC_FLAG :: u8 where "AHDLC_FLAG = 0x7e"

definition AHDLC_ESCAPE :: u8 where "AHDLC_ESCAPE = 0x7d"

definition AHDLC_ESC_M :: u8 where "AHDLC_ESC_M = 0x20"

text \<open>The two loops that escape, on the bytes written so far.\<close>

fun escape_loop :: "u8 list \<Rightarrow> u8 list \<Rightarrow> u8 list" where
  "escape_loop [] out = out"
| "escape_loop (v # vs) out =
     (if v = AHDLC_FLAG \<or> v = AHDLC_ESCAPE then escape_loop vs (out @ [AHDLC_ESCAPE, v XOR AHDLC_ESC_M])
      else escape_loop vs (out @ [v]))"

text \<open>The result is the status and the bytes written to the encoding buffer; \<open>encoded_length\<close> is their number.\<close>

definition hdlc_encode :: "u8 list \<Rightarrow> nat \<Rightarrow> nat \<Rightarrow> fault + bool \<times> u8 list" where
  "hdlc_encode packet write_size encoding_buffer_length =
     (if encoding_buffer_length < write_size * 2 + 4 then Inr (False, [])
      else case calculate_crc packet (write_size * 8) of
             Inl f \<Rightarrow> Inl f
           | Inr crc \<Rightarrow>
               (let out1 = escape_loop (take write_size packet) [AHDLC_FLAG];
                    out2 = escape_loop [lo_byte crc, hi_byte crc] out1;
                    out3 = out2 @ [AHDLC_FLAG]
                in if length out3 \<le> encoding_buffer_length then Inr (True, out3) else Inl OutOfBounds))"

text \<open>Decoding in place: \<open>bi\<close> is the reading and \<open>ci\<close> the writing index.\<close>

function decode_loop :: "nat \<Rightarrow> u8 list \<Rightarrow> nat \<Rightarrow> nat \<Rightarrow> fault + bool \<times> nat \<times> u8 list" where
  "decode_loop len buffer bi ci =
     (if bi < len then
        if length buffer \<le> bi then Inl OutOfBounds
        else if buffer ! bi = AHDLC_ESCAPE then
          if length buffer \<le> bi + 1 then Inl OutOfBounds
          else if buffer ! (bi + 1) = 0x5E then decode_loop len (buffer[ci := AHDLC_FLAG]) (bi + 2) (ci + 1)
          else if buffer ! (bi + 1) = 0x5D then decode_loop len (buffer[ci := AHDLC_ESCAPE]) (bi + 2) (ci + 1)
          else Inr (False, 0, buffer)
        else if buffer ! bi = AHDLC_FLAG then Inr (True, ci, buffer)
        else decode_loop len (buffer[ci := buffer ! bi]) (bi + 1) (ci + 1)
      else Inr (False, 0, buffer))"
  by pat_completeness auto
termination
  by (relation "measure (\<lambda>(len, buffer, bi, ci). len - bi)") auto

declare decode_loop.simps [simp del]

definition hdlc_decode_skip_opening :: "u8 list \<Rightarrow> nat \<Rightarrow> bool \<Rightarrow> fault + bool \<times> nat \<times> u8 list" where
  "hdlc_decode_skip_opening buffer len skip_opening_byte_check =
     (if \<not> skip_opening_byte_check then
        if buffer = [] then Inl OutOfBounds
        else if buffer ! 0 \<noteq> AHDLC_FLAG then Inr (False, 0, buffer)
        else decode_loop len buffer 1 0
      else decode_loop len buffer 0 0)"

definition hdlc_decode :: "u8 list \<Rightarrow> nat \<Rightarrow> fault + bool \<times> nat \<times> u8 list" where
  "hdlc_decode buffer len = hdlc_decode_skip_opening buffer len False"

text \<open>\<open>tx_data\<close> writes to the serial port; its status is a parameter.\<close>

definition encode_and_send :: "(u8 list \<Rightarrow> bool) \<Rightarrow> u8 list \<Rightarrow> nat \<Rightarrow> nat \<Rightarrow> fault + bool" where
  "encode_and_send tx_data buffer buffer_length encoding_buffer_length =
     (case hdlc_encode buffer buffer_length encoding_buffer_length of
        Inl f \<Rightarrow> Inl f
      | Inr (status, frame) \<Rightarrow> Inr (status \<and> tx_data frame))"

section \<open>The checksum bit by bit\<close>

definition crc_bit :: "u16 \<Rightarrow> u16" where
  "crc_bit c = (if bit c 0 then drop_bit 1 c XOR CRC_16_L_POLYNOMIAL else drop_bit 1 c)"

definition crc_byte :: "u16 \<Rightarrow> u8 \<Rightarrow> u16" where
  "crc_byte c b = (crc_bit ^^ 8) (c XOR ucast b)"

text \<open>The same on natural numbers, where numerals are evaluated by rewriting.\<close>

definition crc_bit_nat :: "nat \<Rightarrow> nat" where
  "crc_bit_nat c = (if odd c then (c div 2) XOR 0x8408 else c div 2)"

lemma crc_bit_nat_num:
  "crc_bit_nat 0 = 0" "crc_bit_nat 1 = 0x8408" "crc_bit_nat (Suc 0) = 0x8408"
  "crc_bit_nat (numeral (num.Bit0 n)) = numeral n" "crc_bit_nat (numeral (num.Bit1 n)) = numeral n XOR 0x8408"
  by (simp_all add: crc_bit_nat_def)

lemma unat_crc_bit: "unat (crc_bit c) = crc_bit_nat (unat c)"
proof -
  have "unat (drop_bit 1 c) = drop_bit 1 (unat c)" by (rule unat_drop_bit_eq)
  then have "unat (drop_bit 1 c) = unat c div 2" by (simp only: drop_bit_eq_div power_one_right)
  moreover have "bit (unat c) 0 = bit c 0" by (subst bit_unsigned_iff) simp
  then have "odd (unat c) = bit c 0" by (simp add: bit_0)
  ultimately show ?thesis
    by (simp only: crc_bit_def crc_bit_nat_def CRC_16_L_POLYNOMIAL_def unsigned_xor_eq if_distrib[of unat]) simp
qed

lemma eight_times: "(f ^^ 8) x = f (f (f (f (f (f (f (f x)))))))"
  by (simp add: numeral_eq_Suc)

lemma crc_table_nat: "map unat crc_table = map (crc_bit_nat ^^ 8) [0..<256]"
  unfolding eight_times by (simp add: crc_bit_nat_num crc_table_def upt_conv_Cons numeral_2_eq_2[symmetric])

lemma crc_table_nth: "i < 256 \<Longrightarrow> crc_table ! i = (crc_bit ^^ 8) (of_nat i)"
proof -
  assume i: "i < 256"
  have len: "length crc_table = 256" using arg_cong[OF crc_table_nat, of length] by simp
  have "unat (crc_table ! i) = (crc_bit_nat ^^ 8) i" using arg_cong[OF crc_table_nat, of "\<lambda>l. l ! i"] i len by simp
  also have "\<dots> = unat ((crc_bit ^^ 8) (of_nat i))" using i by (simp add: eight_times unat_crc_bit unat_of_nat)
  finally show ?thesis by (simp add: word_unat_eq_iff)
qed

section \<open>Linearity\<close>

lemma xor_left_inj: "c XOR a = c XOR b \<Longrightarrow> a = (b :: 'a::len word)"
  by (drule arg_cong[of _ _ "\<lambda>x. c XOR x"]) (simp add: xor.assoc[symmetric])

lemma crc_bit_xor: "crc_bit (x XOR y) = crc_bit x XOR crc_bit y"
  by (auto simp: crc_bit_def bit_xor_iff drop_bit_xor ac_simps)

lemma crc_bits_xor: "(crc_bit ^^ n) (x XOR y) = (crc_bit ^^ n) x XOR (crc_bit ^^ n) y"
  by (induction n) (simp_all add: crc_bit_xor)

lemma crc_bits_shift: "(\<And>i. i < n \<Longrightarrow> \<not> bit x i) \<Longrightarrow> (crc_bit ^^ n) x = drop_bit n x"
proof (induction n)
  case (Suc n)
  have "(crc_bit ^^ n) x = drop_bit n x" using Suc by auto
  moreover have "\<not> bit (drop_bit n x) 0" using Suc.prems[of n] by (simp add: bit_drop_bit_eq)
  then have "crc_bit (drop_bit n x) = drop_bit (Suc n) x" by (simp add: crc_bit_def drop_bit_drop_bit)
  ultimately show ?case by simp
qed simp

lemma crc_bit_inj: "crc_bit x = crc_bit y \<Longrightarrow> x = y"
proof -
  assume e: "crc_bit x = crc_bit y"
  have top: "bit (crc_bit z) 15 = bit z 0" for z
    by (auto simp: crc_bit_def CRC_16_L_POLYNOMIAL_def bit_xor_iff bit_drop_bit_eq bit_numeral_word_iff dest: bit_imp_le_length)
  have "bit x 0 = bit y 0" using e top by metis
  moreover have "a = b" if "a XOR CRC_16_L_POLYNOMIAL = b XOR CRC_16_L_POLYNOMIAL" for a b
    using that xor_left_inj[of CRC_16_L_POLYNOMIAL a b] by (simp add: xor.commute)
  ultimately have "drop_bit 1 x = drop_bit 1 y" using e by (auto simp: crc_bit_def split: if_splits)
  then have "bit x (Suc i) = bit y (Suc i)" for i by (metis bit_drop_bit_eq comp_apply plus_1_eq_Suc)
  then show "x = y" using \<open>bit x 0 = bit y 0\<close> by (intro bit_eqI) (metis not0_implies_Suc)
qed

lemma crc_bits_inj: "(crc_bit ^^ n) x = (crc_bit ^^ n) y \<Longrightarrow> x = y"
  by (induction n) (auto dest: crc_bit_inj)

lemma split_mask: "(x AND m) XOR (x AND NOT m) = (x :: 'a::len word)"
  by (rule bit_eqI) (auto simp: bit_simps dest: bit_imp_le_length)

lemma crc_step_byte: "crc_step c b = crc_byte c b"
proof -
  let ?y = "c XOR ucast b" and ?m = "mask 8 :: u16"
  have m: "0xff = ?m" by (simp add: mask_eq_exp_minus_1)
  have low: "unat (?y AND ?m) < 256"
    using word_and_le1[of ?y ?m] by (simp add: word_le_nat_alt m[symmetric])
  have "drop_bit 8 ?y = drop_bit 8 c" by (rule bit_eqI) (auto simp: bit_simps dest: bit_imp_le_length)
  moreover have "drop_bit 8 (?y AND NOT ?m) = drop_bit 8 ?y"
    by (rule bit_eqI) (auto simp: bit_simps dest: bit_imp_le_length)
  moreover have "(crc_bit ^^ 8) (?y AND NOT ?m) = drop_bit 8 (?y AND NOT ?m)"
    by (rule crc_bits_shift) (simp add: bit_simps)
  ultimately have "(crc_bit ^^ 8) ?y = (crc_bit ^^ 8) (?y AND ?m) XOR drop_bit 8 c"
    using crc_bits_xor[of 8 "?y AND ?m" "?y AND NOT ?m"] split_mask[of ?y ?m] by simp
  then show ?thesis using crc_table_nth[OF low] by (simp add: crc_step_def crc_byte_def m)
qed

section \<open>The checksum of a buffer\<close>

definition crc_state :: "u8 list \<Rightarrow> u16" where
  "crc_state xs = foldl crc_byte CRC_16_L_SEED xs"

lemma crc_loop_ref: "crc_loop c (xs @ ys) (length xs * 8) = Inr (NOT (foldl crc_byte c xs))"
  by (induction xs arbitrary: c) (simp_all add: crc_loop.simps[of c for c] crc_step_byte)

lemma calculate_crc_ref: "n \<le> length buf \<Longrightarrow> calculate_crc buf (n * 8) = Inr (NOT (crc_state (take n buf)))"
  using crc_loop_ref[of CRC_16_L_SEED "take n buf" "drop n buf"] by (simp add: calculate_crc_def crc_state_def)

lemma ucast8_inj:
  assumes "(ucast (b :: u8) :: u16) = ucast b'"
  shows "b = b'"
proof (rule bit_word_eqI)
  fix n assume n: "n < LENGTH(8)"
  have "bit (ucast b :: u16) n = bit (ucast b' :: u16) n" using assms by simp
  then show "bit b n = bit b' n" using n by (simp add: bit_ucast_iff)
qed

lemma crc_byte_inj: "crc_byte c b = crc_byte d b \<Longrightarrow> c = d" "crc_byte c b = crc_byte c b' \<Longrightarrow> b = b'"
proof -
  assume "crc_byte c b = crc_byte d b"
  then have "c XOR ucast b = d XOR ucast b" unfolding crc_byte_def by (rule crc_bits_inj)
  then show "c = d" by (simp add: xor.commute[of _ "ucast b"] xor_left_inj)
next
  assume "crc_byte c b = crc_byte c b'"
  then have "c XOR ucast b = c XOR ucast b'" unfolding crc_byte_def by (rule crc_bits_inj)
  then have "(ucast b :: u16) = ucast b'" by (rule xor_left_inj)
  then show "b = b'" by (rule ucast8_inj)
qed

lemma crc_fold_inj: "foldl crc_byte c xs = foldl crc_byte d xs \<Longrightarrow> c = d"
  by (induction xs arbitrary: c d) (auto dest: crc_byte_inj)

text \<open>The two bytes of the complemented state bring every state to the same one.\<close>

lemma low_byte_xor: "(r XOR ucast (lo_byte (NOT r))) AND 0x00ff = 0xff"
proof -
  have m: "(0xff :: u16) = mask 8" by (simp add: mask_eq_exp_minus_1)
  show ?thesis unfolding lo_byte_def m by (rule bit_eqI) (auto simp: bit_simps)
qed

lemma crc_residue: "foldl crc_byte r [lo_byte (NOT r), hi_byte (NOT r)] = NOT CRC_16_L_OK"
proof -
  have m: "(0xff :: u16) = mask 8" by (simp add: mask_eq_exp_minus_1)
  have t: "crc_table ! 255 = 0x0f78" "crc_table ! 135 = 0xf0b7" by (simp_all add: crc_table_def)
  let ?s = "crc_step r (lo_byte (NOT r))"
  have s: "?s = 0x0f78 XOR drop_bit 8 r" by (simp only: crc_step_def low_byte_xor) (simp add: t)
  have "(?s XOR ucast (hi_byte (NOT r))) AND 0x00ff = (0x0f78 XOR 0xff) AND 0x00ff"
    unfolding s m hi_byte_def by (rule bit_eqI) (auto simp: bit_simps)
  then have i: "unat ((?s XOR ucast (hi_byte (NOT r))) AND 0x00ff) = 135" by simp
  have "drop_bit 8 ?s = 0x0f" unfolding s by (rule bit_eqI) (auto simp: bit_simps bit_numeral_word_iff dest: bit_imp_le_length)
  then have "crc_step ?s (hi_byte (NOT r)) = NOT CRC_16_L_OK" unfolding crc_step_def[of ?s] i t(2)
    by (simp add: CRC_16_L_OK_def)
  then show ?thesis by (simp add: crc_step_byte)
qed

section \<open>Frames\<close>

definition escaped :: "u8 \<Rightarrow> u8 list" where
  "escaped v = (if v = AHDLC_FLAG \<or> v = AHDLC_ESCAPE then [AHDLC_ESCAPE, v XOR AHDLC_ESC_M] else [v])"

lemma escape_loop_ref: "escape_loop vs out = out @ concat (map escaped vs)"
  by (induction vs arbitrary: out) (auto simp: escaped_def)

text \<open>What is between the flags, as a function of the bytes of the buffer.\<close>

fun unstuff :: "u8 list \<Rightarrow> u8 list option" where
  "unstuff [] = None"
| "unstuff (b # bs) =
     (if b = AHDLC_ESCAPE then
        (case bs of [] \<Rightarrow> None
         | c # cs \<Rightarrow> if c = 0x5E then map_option (Cons AHDLC_FLAG) (unstuff cs)
                    else if c = 0x5D then map_option (Cons AHDLC_ESCAPE) (unstuff cs) else None)
      else if b = AHDLC_FLAG then Some []
      else map_option (Cons b) (unstuff bs))"

lemma unstuff_escaped: "unstuff (escaped v @ bs) = map_option (Cons v) (unstuff bs)"
  by (auto simp: escaped_def AHDLC_FLAG_def AHDLC_ESCAPE_def AHDLC_ESC_M_def)

lemma unstuff_frame: "unstuff (concat (map escaped vs) @ AHDLC_FLAG # rest) = Some vs"
  by (induction vs) (simp_all add: unstuff_escaped AHDLC_FLAG_def AHDLC_ESCAPE_def)

lemma write_step:
  assumes "take (Suc ci) buf' = take (Suc ci) (buf[ci := v])" "ci < length buf" "length buf' = length buf"
  shows "take ci buf' = take ci buf" "drop ci buf' = v # drop (Suc ci) buf'"
proof -
  have t: "take (Suc ci) buf' = take ci buf @ [v]" using assms(2) unfolding assms(1) by (simp add: take_Suc_conv_app_nth)
  show "take ci buf' = take ci buf" using arg_cong[OF t, of "take ci"] assms(2) by simp
  have "buf' ! ci = v" using arg_cong[OF t, of "\<lambda>l. l ! ci"] assms(2) by (simp add: nth_append)
  then show "drop ci buf' = v # drop (Suc ci) buf'" using assms(2,3) by (simp add: Cons_nth_drop_Suc[symmetric])
qed

text \<open>What decoding from the indices \<open>bi\<close>, \<open>ci\<close> amounts to.\<close>

definition decodes :: "nat \<Rightarrow> u8 list \<Rightarrow> nat \<Rightarrow> nat \<Rightarrow> fault + bool \<times> nat \<times> u8 list \<Rightarrow> bool" where
  "decodes len buf bi ci r \<longleftrightarrow> (\<exists>buf'. length buf' = length buf \<and> take ci buf' = take ci buf \<and>
     (case unstuff (take (len - bi) (drop bi buf)) of
        None \<Rightarrow> r = Inr (False, 0, buf')
      | Some xs \<Rightarrow> r = Inr (True, ci + length xs, buf') \<and> take (length xs) (drop ci buf') = xs))"

lemma decodes_step:
  assumes "decodes len (buf[ci := v]) bi' (Suc ci) r" "ci < length buf" "ci < bi'"
    and "unstuff (take (len - bi) (drop bi buf)) = map_option (Cons v) (unstuff (take (len - bi') (drop bi' buf)))"
  shows "decodes len buf bi ci r"
proof -
  obtain buf' where b: "length buf' = length buf" "take (Suc ci) buf' = take (Suc ci) (buf[ci := v])"
    "case unstuff (take (len - bi') (drop bi' buf)) of
        None \<Rightarrow> r = Inr (False, 0, buf')
      | Some xs \<Rightarrow> r = Inr (True, Suc ci + length xs, buf') \<and> take (length xs) (drop (Suc ci) buf') = xs"
    using assms(1,3) by (auto simp: decodes_def)
  note w = write_step[OF b(2) assms(2) b(1)]
  show ?thesis unfolding decodes_def assms(4)
    using b w by (intro exI[of _ buf']) (auto split: option.splits)
qed

lemma unstuff_take:
  assumes "bi < len" "len \<le> length buf"
  shows "take (len - bi) (drop bi buf) = buf ! bi # take (len - Suc bi) (drop (Suc bi) buf)"
proof -
  have "drop bi buf = buf ! bi # drop (Suc bi) buf" using assms by (simp add: Cons_nth_drop_Suc)
  moreover have "len - bi = Suc (len - Suc bi)" using assms(1) by simp
  ultimately show ?thesis by simp
qed

text \<open>The in-place loop reads only what it has not overwritten, so it computes \<open>unstuff\<close>; it must not find an escape in the
  last byte of the memory.\<close>

lemma decode_loop_ref:
  assumes "len \<le> length buf" "ci \<le> bi" "len = length buf \<longrightarrow> bi < len \<longrightarrow> last (drop bi buf) \<noteq> AHDLC_ESCAPE"
  shows "decodes len buf bi ci (decode_loop len buf bi ci)"
  using assms
proof (induction len buf bi ci rule: decode_loop.induct)
  case (1 len buf bi ci)
  note prems = "1.prems"
  have quit: "decodes len buf bi ci (Inr (False, 0, buf))" if "unstuff (take (len - bi) (drop bi buf)) = None"
    using that by (auto simp: decodes_def)
  show ?case
  proof (cases "bi < len")
    case False
    then show ?thesis using quit by (subst decode_loop.simps) simp
  next
    case bi: True
    note u = unstuff_take[OF bi prems(1)]
    have l: "bi < length buf" "ci < length buf" using prems bi by auto
    show ?thesis
    proof (cases "buf ! bi = AHDLC_ESCAPE")
      case esc: True
      have "Suc bi < length buf"
      proof (rule ccontr)
        assume "\<not> Suc bi < length buf"
        then have "len = length buf" "drop bi buf = [buf ! bi]" using l bi prems(1) by (auto simp: Cons_nth_drop_Suc[symmetric])
        then show False using prems(3) esc bi by simp
      qed
      note l = l this
      have end_None: "\<not> Suc bi < len \<Longrightarrow> unstuff (take (len - bi) (drop bi buf)) = None"
        "\<not> Suc bi < len \<Longrightarrow> unstuff (take (len - (bi + 2)) (drop (bi + 2) buf)) = None" using u esc by simp_all
      have u2: "take (len - Suc bi) (drop (Suc bi) buf) = buf ! Suc bi # take (len - (bi + 2)) (drop (bi + 2) buf)" if "Suc bi < len"
        using unstuff_take[OF that prems(1)] by simp
      have last2: "len = length buf \<longrightarrow> bi + 2 < len \<longrightarrow> last (drop (bi + 2) (buf[ci := v])) \<noteq> AHDLC_ESCAPE" for v
        using prems(2,3) bi by (auto simp: last_drop)
      have step: "decodes len buf bi ci (decode_loop len (buf[ci := v]) (bi + 2) (ci + 1))"
        if c: "buf ! Suc bi = 0x5E \<and> v = AHDLC_FLAG \<or> buf ! Suc bi = 0x5D \<and> v = AHDLC_ESCAPE"
          and IH: "decodes len (buf[ci := v]) (bi + 2) (ci + 1) (decode_loop len (buf[ci := v]) (bi + 2) (ci + 1))" for v
      proof (rule decodes_step[of _ _ _ v "bi + 2"])
        show "unstuff (take (len - bi) (drop bi buf)) = map_option (Cons v) (unstuff (take (len - (bi + 2)) (drop (bi + 2) buf)))"
          using u u2 esc c end_None by (cases "Suc bi < len") auto
      qed (use IH l prems in auto)
      show ?thesis
      proof (cases "buf ! Suc bi = 0x5E \<or> buf ! Suc bi = 0x5D")
        case True
        then show ?thesis using esc bi l step[of AHDLC_FLAG] step[of AHDLC_ESCAPE] last2 prems
            "1.IH"(1)[OF bi] "1.IH"(2)[OF bi] by (subst decode_loop.simps) (auto simp del: drop_update_cancel)
      next
        case False
        have "unstuff (take (len - bi) (drop bi buf)) = None" using False u u2 esc by (cases "Suc bi < len") auto
        from quit[OF this] show ?thesis using False esc bi l by (subst decode_loop.simps) simp
      qed
    next
      case nesc: False
      show ?thesis
      proof (cases "buf ! bi = AHDLC_FLAG")
        case True
        then have "decodes len buf bi ci (Inr (True, ci, buf))" using u nesc by (auto simp: decodes_def)
        then show ?thesis using True nesc bi l by (subst decode_loop.simps) simp
      next
        case False
        have "last (drop (Suc bi) (buf[ci := v])) \<noteq> AHDLC_ESCAPE" if "len = length buf" "Suc bi < len" for v
          using prems(2,3) bi that by (auto simp: last_drop)
        then have "decodes len (buf[ci := buf ! bi]) (bi + 1) (ci + 1) (decode_loop len (buf[ci := buf ! bi]) (bi + 1) (ci + 1))"
          using "1.IH"(3)[OF bi] nesc False l prems by auto
        then have "decodes len buf bi ci (decode_loop len (buf[ci := buf ! bi]) (bi + 1) (ci + 1))"
          using decodes_step[of len buf ci "buf ! bi" "bi + 1" _ bi] l prems u nesc False by auto
        then show ?thesis using False nesc bi l by (subst decode_loop.simps) simp
      qed
    qed
  qed
qed

lemma hdlc_encode_frame:
  assumes "length packet * 2 + 6 \<le> n"
  shows "hdlc_encode packet (length packet) n = Inr (True, AHDLC_FLAG #
     concat (map escaped (packet @ [lo_byte (NOT (crc_state packet)), hi_byte (NOT (crc_state packet))])) @ [AHDLC_FLAG])"
proof -
  have e: "length (escaped v) \<le> 2" for v by (simp add: escaped_def)
  have "length (concat (map escaped vs)) \<le> 2 * length vs" for vs
  proof (induction vs)
    case (Cons v vs)
    then show ?case using e[of v] by simp
  qed simp
  from this[of packet] have "length (concat (map escaped packet)) \<le> 2 * length packet" .
  with e[of "lo_byte (NOT (crc_state packet))"] e[of "hi_byte (NOT (crc_state packet))"] assms show ?thesis
    by (simp add: hdlc_encode_def calculate_crc_ref escape_loop_ref Let_def)
qed

lemma check_crc_state:
  assumes "n \<le> length buf"
  shows "check_crc buf n = Inr (crc_state (take n buf) = NOT CRC_16_L_OK)"
proof -
  have "(x :: u16) = NOT y \<longleftrightarrow> y = NOT x" for x y by (metis bit.double_compl)
  then show ?thesis by (simp add: check_crc_def calculate_crc_ref[OF assms])
qed

lemma crc_state_sealed:
  "crc_state (packet @ [lo_byte (NOT (crc_state packet)), hi_byte (NOT (crc_state packet))]) = NOT CRC_16_L_OK"
  using crc_residue[of "crc_state packet"] by (simp add: crc_state_def)

lemma crc_state_change:
  assumes "i < length xs" "v \<noteq> xs ! i"
  shows "crc_state (xs[i := v]) \<noteq> crc_state xs"
proof
  assume e: "crc_state (xs[i := v]) = crc_state xs"
  have x: "xs = take i xs @ xs ! i # drop (Suc i) xs" using assms(1) by (simp add: id_take_nth_drop)
  have u: "xs[i := v] = take i xs @ v # drop (Suc i) xs" using assms(1) by (simp add: upd_conv_take_nth_drop)
  let ?c = "foldl crc_byte CRC_16_L_SEED (take i xs)"
  have "crc_state xs = foldl crc_byte (crc_byte ?c (xs ! i)) (drop (Suc i) xs)" by (subst x) (simp add: crc_state_def)
  moreover have "crc_state (xs[i := v]) = foldl crc_byte (crc_byte ?c v) (drop (Suc i) xs)" by (simp add: u crc_state_def)
  ultimately have "foldl crc_byte (crc_byte ?c v) (drop (Suc i) xs) = foldl crc_byte (crc_byte ?c (xs ! i)) (drop (Suc i) xs)"
    using e by simp
  from crc_byte_inj(2)[OF crc_fold_inj[OF this]] show False using assms(2) by simp
qed

section \<open>Properties\<close>

text \<open>C33. The table driven checksum is the one computed bit by bit (\<open>crc_byte\<close>) with the polynomial of the header, for every buffer and
  number of whole bytes in it.\<close>

theorem crc_table_equivalence:
  assumes "n \<le> length buf"
  shows "calculate_crc buf (n * 8) =
    Inr (NOT (foldl crc_byte CRC_16_L_SEED (take n buf)))"
  using calculate_crc_ref[OF assms] by (simp add: crc_state_def)

theorem crc_table_equivalence_witness:
  "calculate_crc [0x31, 0x32] 16 = Inr (NOT (foldl crc_byte CRC_16_L_SEED [0x31, 0x32]))"
  using crc_table_equivalence[of 2 "[0x31, 0x32]"] by simp

text \<open>C34. A buffer sealed by \<open>set_crc\<close> passes \<open>check_crc\<close>, and no longer passes when any one of its bytes, data or checksum, is
  changed to any other value.\<close>

theorem crc_seals:
  assumes "len + 1 < length buffer"
  shows "\<exists>sealed. set_crc buffer len = Inr sealed \<and> take len sealed = take len buffer \<and> check_crc sealed (len + 2) = Inr True \<and>
    (\<forall>i v. i < len + 2 \<and> v \<noteq> sealed ! i \<longrightarrow> check_crc (sealed[i := v]) (len + 2) = Inr False)"
proof -
  let ?p = "take len buffer"
  let ?b = "[lo_byte (NOT (crc_state ?p)), hi_byte (NOT (crc_state ?p))]"
  define s where "s = ?p @ ?b @ drop (len + 2) buffer"
  have l: "length s = length buffer" using assms by (simp add: s_def)
  have e: "set_crc buffer len = Inr s"
    using assms by (simp add: set_crc_def calculate_crc_ref s_def upd_conv_take_nth_drop take_Suc_conv_app_nth)
  have t: "take (len + 2) s = ?p @ ?b" using assms by (simp add: s_def)
  have "check_crc s (len + 2) = Inr True" using l assms t crc_state_sealed[of ?p] by (simp add: check_crc_state)
  moreover have "check_crc (s[i := v]) (len + 2) = Inr False" if "i < len + 2" "v \<noteq> s ! i" for i v
  proof -
    have "i < length (take (len + 2) s)" "v \<noteq> take (len + 2) s ! i" using that l assms by auto
    from crc_state_change[OF this] have "crc_state (take (len + 2) (s[i := v])) \<noteq> crc_state (take (len + 2) s)"
      by (simp add: take_update_swap)
    then show ?thesis using l assms t crc_state_sealed[of ?p] by (simp add: check_crc_state)
  qed
  moreover have "take len s = ?p" using assms by (simp add: s_def)
  ultimately show ?thesis using e by blast
qed

theorem crc_seals_witness: "\<exists>sealed. set_crc [1, 2, 0, 0] 2 = Inr sealed \<and> check_crc sealed 4 = Inr True"
  using crc_seals[of 2 "[1, 2, 0, 0]"] by (simp add: numeral_eq_Suc) blast

text \<open>C35. Framing round trip: with room for the frame, encoding a packet succeeds, no flag occurs inside the frame, and decoding
  the frame in place gives back the packet followed by its checksum, which \<open>check_crc\<close> accepts.\<close>

theorem hdlc_roundtrip:
  assumes "length packet * 2 + 6 \<le> n"
  shows "\<exists>frame buf. hdlc_encode packet (length packet) n = Inr (True, frame) \<and> AHDLC_FLAG \<notin> set (butlast (tl frame)) \<and>
     hdlc_decode frame (length frame) = Inr (True, length packet + 2, buf) \<and> take (length packet) buf = packet \<and>
     check_crc buf (length packet + 2) = Inr True"
proof -
  let ?d = "packet @ [lo_byte (NOT (crc_state packet)), hi_byte (NOT (crc_state packet))]"
  define f where "f = AHDLC_FLAG # concat (map escaped ?d) @ [AHDLC_FLAG]"
  have enc: "hdlc_encode packet (length packet) n = Inr (True, f)" using hdlc_encode_frame[OF assms] by (simp add: f_def)
  have "AHDLC_FLAG \<notin> set (escaped v)" for v by (simp add: escaped_def AHDLC_FLAG_def AHDLC_ESCAPE_def AHDLC_ESC_M_def)
  then have inner: "AHDLC_FLAG \<notin> set (butlast (tl f))" by (auto simp: f_def butlast_append)
  have "last (drop 1 f) \<noteq> AHDLC_ESCAPE" by (simp add: f_def AHDLC_FLAG_def AHDLC_ESCAPE_def)
  then have "decodes (length f) f 1 0 (decode_loop (length f) f 1 0)" by (intro decode_loop_ref) auto
  moreover have "take (length f - 1) (drop 1 f) = concat (map escaped ?d) @ [AHDLC_FLAG]" by (simp add: f_def)
  then have "unstuff (take (length f - 1) (drop 1 f)) = Some ?d" using unstuff_frame[of ?d "[]"] by (simp only:)
  ultimately obtain buf where b: "length buf = length f" "decode_loop (length f) f 1 0 = Inr (True, length ?d, buf)"
    "take (length ?d) buf = ?d" by (auto simp: decodes_def)
  have dec: "hdlc_decode f (length f) = Inr (True, length packet + 2, buf)"
    using b(2) by (simp add: hdlc_decode_def hdlc_decode_skip_opening_def f_def)
  have "length ?d \<le> length buf" using arg_cong[OF b(3), of length] by simp
  then have chk: "check_crc buf (length packet + 2) = Inr True"
    using crc_state_sealed[of packet] b(3) by (simp add: check_crc_state)
  have "take (length packet) buf = packet" using arg_cong[OF b(3), of "take (length packet)"] by (simp add: min_def)
  then show ?thesis using enc inner dec chk by blast
qed

theorem hdlc_roundtrip_witness:
  "\<exists>frame buf. hdlc_encode [0x7e, 1] 2 10 = Inr (True, frame) \<and> hdlc_decode frame (length frame) = Inr (True, 4, buf) \<and> take 2 buf = [0x7e, 1]"
  using hdlc_roundtrip[of "[0x7e, 1]" 10] by (simp add: numeral_eq_Suc) blast

text \<open>The size check of \<open>hdlc_encode\<close> asks for two bytes per byte of data and four more, but the escaped checksum may need
  six: a packet of five bytes passes the check with a buffer of fourteen bytes and its frame is written past the end.\<close>

theorem hdlc_encode_overflow:
  "hdlc_encode [0x7d, 0x7e, 0x7d, 0x7e, 0x7e] 5 (5 * 2 + 4) = Inl OutOfBounds"
proof -
  have "calculate_crc [0x7d, 0x7e, 0x7d, 0x7e, 0x7e] 40 = Inr 0xdd7d"
    by (simp add: calculate_crc_def crc_loop.simps crc_step_def CRC_16_L_SEED_def crc_table_def)
  then show ?thesis
    by (simp add: hdlc_encode_def Let_def AHDLC_FLAG_def AHDLC_ESCAPE_def AHDLC_ESC_M_def lo_byte_def hi_byte_def)
qed

end
