(* ===== verification/Spec2Isabelle.thy ===== *)
theory Spec2Isabelle
  imports Cmd_Queue Evt_Dispatcher Ipacm_Config Nat_App Conntrack_Listener Ipacm_Neighbor Iface_Manager Wlan_Props Nat_Driver_Props Loc_Heap Agps Msg_Q Mdm_Framing
begin

text \<open>
  A model in HOL of the native programs of the LG G4 device tree, and the theorems that make their core correct.

  \<^bold>\<open>The program.\<close> The largest program of the repository is the IPA connection manager, under
  \<^verbatim>\<open>src/data-ipa-cfg-mgr\<close>: a daemon that configures the IP accelerator hardware. Netlink and conntrack threads turn
  kernel messages into events and post them to a command queue; one thread takes them out and hands them to the
  event dispatcher, which calls the listeners registered for the event. One of the listeners is the conntrack
  listener, which keeps the hardware NAT table in step with the connections of the kernel through the NAT application
  object. All of them read the configuration singleton. The second program is the GPS library, under
  \<^verbatim>\<open>src/gps\<close>: its timer service keeps pending timers in a heap, and its location engine drives state machines that
  request a network connection for assisted GPS on behalf of several clients; its threads talk through message queues. The modem helper, under
  \<^verbatim>\<open>src/mdm-helper\<close>, exchanges checksummed frames with the modem.

  \<^bold>\<open>The theories.\<close>

  \<^item> \<^verbatim>\<open>Ipacm_Prelude\<close>: machine integers, run time faults, the array scans the sources use all over, and the contracts
    that several components share: \<open>bounded_table\<close> (a table of bounded size filled and emptied by a script) and \<open>guarded_ops\<close>
    (an invariant kept by every operation).
  \<^item> \<^verbatim>\<open>Cmd_Queue\<close>: \<^verbatim>\<open>IPACM_CmdQueue.cpp\<close>. Messages are cells of a heap linked by addresses. The queue loses nothing and
    keeps the order of posting, for every interleaving of posts and of passes of the processing loop; it runs into no
    invalid access; it refines a list (locale \<open>fifo_queue\<close>).
  \<^item> \<^verbatim>\<open>Evt_Dispatcher\<close>: \<^verbatim>\<open>IPACM_EvtDispatcher.cpp\<close>. The registration list in a heap refines a list of pairs (locale
    \<open>listener_registry\<close>); an event reaches exactly its listeners, also when callbacks register new listeners for other events or
    deregister their own (\<open>callbacks_ok\<close>). A callback that deregisters its own listener while the next registration is also its own makes the
    dispatcher follow a dangling pointer.
  \<^item> \<^verbatim>\<open>Ipacm_Config\<close>: \<^verbatim>\<open>IPACM_Config.cpp\<close>. The tables of NAT interfaces and private subnets against list specifications,
    the resource manager dependencies as a ledger, external properties, where the sizes of the arrays are not respected, and the tables that a failed \<open>Init\<close> leaves freed in
    the members.
  \<^item> \<^verbatim>\<open>Nat_App\<close>: \<^verbatim>\<open>IPACM_Conntrack_NATApp.cpp\<close>. The connection cache, the power save list and the temporary entries. The
    cache invariant, agreement of the cache with the hardware table for every driver that obeys the laws \<open>nat_driver\<close>,
    restoration of the connections, and the effect of each operation. The uninitialised counter of \<open>CacheEntry\<close> is an argument of the
    operation; the invariant needs it within the cache.
  \<^item> \<^verbatim>\<open>Conntrack_Listener\<close>: \<^verbatim>\<open>IPACM_ConntrackListener.cpp\<close>, on top of the NAT application: which messages may change the
    NAT state, the life of a TCP connection, WAN and client events.
  \<^item> \<^verbatim>\<open>Ipacm_Iface\<close>: the part of \<^verbatim>\<open>IPACM_Iface.cpp\<close> that every interface object shares: which row of the interface table a kernel
    interface has (locale \<open>iface_directory\<close>: the answer does not depend on what was asked before), its addresses, and the two
    string functions.
  \<^item> \<^verbatim>\<open>Ipacm_Neighbor\<close>: \<^verbatim>\<open>IPACM_Neighbor.cpp\<close>, the listener that finds out behind which interface a client of the bridge is, against
    a map from MAC addresses to interfaces.
  \<^item> \<^verbatim>\<open>Iface_Manager\<close>: \<^verbatim>\<open>IPACM_IfaceManager.cpp\<close>, which creates the object of an interface when it comes up and registers it for the
    events of its category, on top of the directory, the dispatcher and the configuration: one live instance per interface,
    registered for exactly its events, from its creation over the link-down event, which changes the configuration, to its deletion; and the
    third access point, for which it registers a deleted object. What the
    constructors of the objects do to the configuration is a parameter that leaves the interface table alone. When an interface goes down is
    a choice of the environment: the tests of the handlers for it (the interface of the event, a changed category) are not modelled.
  \<^item> \<^verbatim>\<open>Ipa_Rules\<close>: \<^verbatim>\<open>IPACM_Routing.cpp\<close> and \<^verbatim>\<open>IPACM_Header.cpp\<close> as far as clients need them, what the kernel driver promises (\<open>dev_ok\<close>),
    and \<open>hold\<close>, the part of the hardware's rules and headers that belongs to someone.
  \<^item> \<^verbatim>\<open>Wlan_Clients\<close>, \<^verbatim>\<open>Wlan_Clients_Inv\<close>, \<^verbatim>\<open>Wlan_Props\<close>: the clients of an access point, from \<^verbatim>\<open>IPACM_Wlan.cpp\<close>: the operations; that each
    of them keeps the table and the hardware together; and what follows for runs of events: the hardware has exactly the rules and
    headers that the table prescribes, addresses are routed, taking the interface down removes everything when an address is on the
    interface. A client that moves into another slot of the table loses its power-save state. The driver is taken to fail the call for a rule that it
    does not install (\<open>rt_add_ok\<close>), since the code does not read the status of the rule; the removal of the interface's own rules is a parameter.
  \<^item> \<^verbatim>\<open>Hash_Chains\<close>, \<^verbatim>\<open>Nat_Tables\<close>, \<^verbatim>\<open>Nat_Sizes\<close>, \<^verbatim>\<open>Nat_Driver\<close>, \<^verbatim>\<open>Nat_Driver_Inv\<close>, \<^verbatim>\<open>Nat_Driver_Del\<close>, \<^verbatim>\<open>Nat_Driver_Props\<close>: the
    NAT driver library below the NAT application, \<^verbatim>\<open>ipanat/src/ipa_nat_drvi.c\<close> and \<^verbatim>\<open>ipa_nat_drv.c\<close>. \<open>Hash_Chains\<close> is the theory of
    hash tables whose collisions are chained in an expansion area; \<open>Nat_Tables\<close> the memory the library shares with the hardware,
    bit by bit; \<open>Nat_Driver\<close> the operations; the next two theories show that inserting and deleting rules keeps the invariant
    that ties the rule table, the index table and the array of handles together; the last one what clients (locale \<open>booked\<close>) and
    the hardware see: handles stand for exactly the rules a client added, and both lookups find exactly them.
  \<^item> \<^verbatim>\<open>Loc_Heap\<close>: \<^verbatim>\<open>gps/utils/LocHeap.cpp\<close> and the ranking of \<^verbatim>\<open>LocTimer.cpp\<close>: consistency, priority order, exact removal and
    balance, for every strict weak order (locales \<open>rank_queue\<close>, \<open>rankable\<close>).
  \<^item> \<^verbatim>\<open>Dlinks\<close>, \<^verbatim>\<open>Linked_List\<close>, \<^verbatim>\<open>Msg_Q\<close>: \<^verbatim>\<open>gps/utils/linked_list.c\<close> and \<^verbatim>\<open>msg_q.c\<close>. \<open>Dlinks\<close> is the theory of cells linked both ways (locale
    \<open>links\<close>); the list in a heap answers every script of operations as a plain list does; the message queue on top of it is a blocking
    queue for every interleaving of threads and loses no wake-up, and used by one thread it meets the contract \<open>fifo_queue\<close> of the command queue.
  \<^item> \<^verbatim>\<open>Agps\<close>: \<^verbatim>\<open>loc_eng_agps.cpp\<close>, on top of the operations of the linked list: the state machines, their subscribers and the subscriber list; the invariant that ties
    list, state and requests together, and what subscribing, unsubscribing and the framework's answers do. The invariant is for the machines other than the one for data services.
  \<^item> \<^verbatim>\<open>Mdm_Framing\<close>: \<^verbatim>\<open>crc.c\<close> and \<^verbatim>\<open>hdlc.c\<close> of the modem helper: the table driven checksum is the bitwise one, it detects
    every change of one byte, frames decode to what was encoded, and the size check of the encoder is too small.

  \<^bold>\<open>How state and operations correspond to the code.\<close> A class is a record with the members under their own names, an
  operation a function of its arguments and the object that returns the changed object; definitions carry the names of the
  methods, with the class in front where two classes have the same method. Objects that are linked by pointers, or
  that may be used after they are deleted, are addressed: the heap is a partial map, reading a freed address is the fault
  \<open>UseAfterFree\<close>, and operations that may fault return \<open>fault + 'a\<close>. In \<^verbatim>\<open>Agps\<close> deleted memory is instead a parameter, because
  the code does not notice that it reads it. Loops over arrays are recursion on lists; the loops of \<^verbatim>\<open>Cmd_Queue\<close>,
  \<^verbatim>\<open>Evt_Dispatcher\<close> and \<^verbatim>\<open>Linked_List\<close> that follow pointers are \<open>partial_function (option)\<close>, and that they return is proved. The
  search for the end of a hash chain in the NAT driver has fuel \<open>2^16\<close>, the number of indices, and that it returns is proved.
  Integers are words of their width wherever the code lets them wrap, and sizes of arrays are those of the headers.

  \<^bold>\<open>What is not determined by the sources\<close> is an argument: the results of system and driver calls, allocation, clocks,
  callbacks of listeners. The NAT driver's kernel, allocator and DMA engine are the record \<open>nat_dev\<close>; \<open>kernel_ok\<close> says that calls
  succeed and commands are carried out, for tables of up to 20480 entries, where the driver's 16 bit offsets do not wrap. In the wireless
  clients the driver is the record \<open>ipa_dev\<close>. Laws that the code relies on are hypotheses of the theorems, with a witness that they can hold.

  \<^bold>\<open>Not modelled.\<close> The NAT application is proved against the laws \<open>nat_driver\<close>, and the driver against \<open>booked\<close>, which has the
  same content for calls with one table and protocol numbers other than 255; the two are not joined into one run. Threads beyond the interleavings of the command queue and of the message queue; sockets, files and logging; the
  objects of wired and backhaul interfaces, and of the access points the filter rules and the Ethernet bridge; the RIL glue, which passes data to a vendor library; the software access
  point tool, which edits text files; hardware shims, policies and Android applications. Locks are taken to exclude, as the
  code uses them; the two AGPS machines are driven by one message thread.
\<close>

end
